(* ===== verification/Prelude.thy ===== *)
theory Prelude
  imports Main "HOL-Library.Word"
begin

text \<open>
  The types, fact collections and generic lemmas that the component theories share.

  C's fixed-width integers are words of the same width; \<open>size_t\<close> is the 64-bit word of the
  LP64 targets of the application (iOS devices and simulators).  A block of memory is the
  list of its bytes.  A C function that returns 1 on success and 0 on failure while it changes
  the object behind one of its pointer arguments is a function from the old object to a pair:
  \<open>Some\<close> result or \<open>None\<close> for the return value, and the object as the function leaves it, so that
  what a failing call did to the object stays visible.
\<close>

unbundle bit_operations_syntax

type_synonym u8 = "8 word"
type_synonym u16 = "16 word"
type_synonym u32 = "32 word"
type_synonym u64 = "64 word"
type_synonym usize = "64 word"

type_synonym bytes = "u8 list"

text \<open>Fact collections: equations that evaluate bytes and words, and the facts of the parsers.\<close>

named_theorems byte_simps
named_theorems parse_simps

section \<open>Chaining fallible steps on an object\<close>

text \<open>
  \<open>andthen m f\<close> is the C idiom \<open>if (!m(obj, &x)) return 0; return f(obj, x);\<close>.
\<close>

definition andthen ::
  "('s \<Rightarrow> 'a option \<times> 's) \<Rightarrow> ('a \<Rightarrow> 's \<Rightarrow> 'b option \<times> 's) \<Rightarrow> 's \<Rightarrow> 'b option \<times> 's" where
  "andthen m f s = (case m s of (None, s') \<Rightarrow> (None, s') | (Some x, s') \<Rightarrow> f x s')"

lemma andthen_Some [simp]: "m s = (Some x, s') \<Longrightarrow> andthen m f s = f x s'"
  by (simp add: andthen_def)

lemma andthen_None [simp]: "m s = (None, s') \<Longrightarrow> andthen m f s = (None, s')"
  by (simp add: andthen_def)

lemma andthen_eq_Some:
  "andthen m f s = (Some y, t) \<longleftrightarrow> (\<exists>x s'. m s = (Some x, s') \<and> f x s' = (Some y, t))"
  by (auto simp: andthen_def split: prod.splits option.splits)

section \<open>Lists\<close>

lemma take_drop_append_simps [simp]:
  "take (length xs) (xs @ ys) = xs"
  "drop (length xs) (xs @ ys) = ys"
  by simp_all

text \<open>\<open>memcpy(&dst[off], src, len)\<close> on a block that has room for it.\<close>

definition mem_write :: "'a list \<Rightarrow> nat \<Rightarrow> 'a list \<Rightarrow> 'a list" where
  "mem_write dst off src = take off dst @ src @ drop (off + length src) dst"

lemma length_mem_write [simp]:
  "off + length src \<le> length dst \<Longrightarrow> length (mem_write dst off src) = length dst"
  by (simp add: mem_write_def)

lemma take_mem_write:
  "off + length src \<le> length dst \<Longrightarrow> n = off + length src \<Longrightarrow>
     take n (mem_write dst off src) = take off dst @ src"
  by (simp add: mem_write_def)

section \<open>Words\<close>

lemma unat_of_nat_small: "n < 2 ^ LENGTH('a) \<Longrightarrow> unat (of_nat n :: 'a::len word) = n"
  by (simp add: unat_of_nat take_bit_nat_eq_self)

text \<open>A byte has no bits from 8 on, and is determined by its eight bits.\<close>

lemma bit_u8_ge [simp]: "8 \<le> n \<Longrightarrow> \<not> bit (a :: u8) n"
  using bit_imp_le_length [of a n] by auto

lemma u8_eqI:
  assumes "bit x 0 = bit y 0" "bit x 1 = bit y 1" "bit x 2 = bit y 2" "bit x 3 = bit y 3"
    "bit x 4 = bit y 4" "bit x 5 = bit y 5" "bit x 6 = bit y 6" "bit x 7 = bit y 7"
  shows "x = (y :: u8)"
proof (rule bit_word_eqI)
  fix n assume "n < LENGTH(8)"
  then consider "n = 0" | "n = 1" | "n = 2" | "n = 3" | "n = 4" | "n = 5" | "n = 6" | "n = 7"
    by fastforce
  then show "bit x n = bit y n"
    by cases (simp_all only: assms)
qed

lemma word_xor_eq_0: "a XOR b = 0 \<longleftrightarrow> (a :: 'a::len word) = b"
proof
  assume "a XOR b = 0"
  then have "(a XOR b) XOR b = b" by simp
  then show "a = b" by (simp add: xor.assoc)
qed simp

lemma uint_bounds64: "0 \<le> uint (a :: u64) \<and> uint a < 18446744073709551616"
  using uint_lt2p [of a] by simp

lemma bit_top64: "bit (x :: u64) 63 \<longleftrightarrow> 9223372036854775808 \<le> uint x"
proof -
  have "bit x 63 = bit (uint x) 63"
    by (simp add: bit_uint_iff)
  also have "\<dots> = odd (uint x div 9223372036854775808)"
    by (simp add: bit_iff_odd)
  also have "\<dots> = (9223372036854775808 \<le> uint x)"
  proof (cases "9223372036854775808 \<le> uint x")
    case True
    then have "uint x div 9223372036854775808 = 1"
      using uint_bounds64 [of x]
      by (simp add: int_div_pos_eq [of _ _ 1 "uint x - 9223372036854775808"])
    then show ?thesis using True by simp
  next
    case False
    then have "uint x div 9223372036854775808 = 0"
      by simp
    then show ?thesis using False by simp
  qed
  finally show ?thesis .
qed

lemma drop_bit_63: "drop_bit 63 (a :: u64) = of_bool (bit a 63)"
proof (rule bit_word_eqI)
  fix n
  show "bit (drop_bit 63 a) n = bit (of_bool (bit a 63) :: u64) n" if "n < LENGTH(64)"
    using bit_imp_le_length [of a "63 + n"] by (cases "n = 0") (auto simp: bit_simps)
qed

lemma uint_diff64:
  "uint (a - b :: u64) =
     (if uint b \<le> uint a then uint a - uint b else uint a - uint b + 18446744073709551616)"
proof -
  have "uint (a - b) = (uint a - uint b) mod 18446744073709551616"
    by (simp add: uint_word_ariths)
  also have "\<dots> = (if uint b \<le> uint a then uint a - uint b
                     else uint a - uint b + 18446744073709551616)"
  proof (cases "uint b \<le> uint a")
    case True
    then show ?thesis
      using uint_bounds64 [of a] uint_bounds64 [of b]
      by (simp only: if_True) (rule mod_pos_pos_trivial; linarith)
  next
    case False
    have "(uint a - uint b) mod 18446744073709551616 =
        (uint a - uint b + 18446744073709551616) mod 18446744073709551616"
      by (rule mod_add_self2 [symmetric])
    also have "\<dots> = uint a - uint b + 18446744073709551616"
      using False uint_bounds64 [of a] uint_bounds64 [of b]
      by (intro mod_pos_pos_trivial) linarith+
    finally show ?thesis using False by simp
  qed
  finally show ?thesis .
qed

section \<open>Sizes as numbers\<close>

lemma unat_lt64: "unat (x :: u64) < 18446744073709551616"
  using unsigned_less [of x] by simp

lemma unat_lt32: "unat (x :: u32) < 4294967296"
  using unsigned_less [of x] by simp

lemma take_bit_unat_self [simp]: "take_bit 32 (unat (x :: u32)) = unat x" "take_bit 64 (unat (y :: u64)) = unat y"
  using unat_lt32 [of x] unat_lt64 [of y] by (simp_all add: take_bit_nat_eq_self)

lemma unat_add64: "unat (x + y :: u64) = (if unat x + unat y < 18446744073709551616 then unat x + unat y
   else unat x + unat y - 18446744073709551616)"
  using unat_lt64 [of x] unat_lt64 [of y] by (simp add: unat_word_ariths mod_if)

lemma unat_push2: "unat (push_bit 2 (x :: u64)) = (unat x * 4) mod 18446744073709551616"
  by (simp add: push_bit_eq_mult unat_word_ariths)
lemma unat_drop2: "unat (drop_bit 2 (x :: u64)) = unat x div 4"
  by (simp add: drop_bit_eq_div unat_div)

section \<open>Multi-byte integers\<close>

text \<open>
  The \<open>k\<close> low-order base-256 digits of a number as bytes, most or least significant first, and
  the number that a byte string denotes in either order.
\<close>

primrec le_bytes :: "nat \<Rightarrow> nat \<Rightarrow> bytes" where
  "le_bytes 0 n = []"
| "le_bytes (Suc k) n = of_nat n # le_bytes k (n div 256)"

primrec le_val :: "bytes \<Rightarrow> nat" where
  "le_val [] = 0"
| "le_val (b # bs) = unat b + 256 * le_val bs"

definition be_bytes :: "nat \<Rightarrow> nat \<Rightarrow> bytes" where
  "be_bytes k n = rev (le_bytes k n)"

definition be_val :: "bytes \<Rightarrow> nat" where
  "be_val bs = le_val (rev bs)"

lemma unat_u8_less [simp]: "unat (b :: u8) < 256"
  using unsigned_less [of b] by simp

lemma unat_of_nat_u8: "unat (of_nat n :: u8) = n mod 256"
  by (simp add: unat_of_nat take_bit_eq_mod)

lemma length_le_bytes [simp]: "length (le_bytes k n) = k"
  by (induction k arbitrary: n) simp_all

lemma length_be_bytes [simp]: "length (be_bytes k n) = k"
  by (simp add: be_bytes_def)

lemma mod_256_power: "n mod (256 * 256 ^ k) = n mod 256 + 256 * (n div 256 mod 256 ^ k)" for n :: nat
  by (simp add: mod_mult2_eq add.commute)

lemma le_val_le_bytes: "le_val (le_bytes k n) = n mod 256 ^ k"
  by (induction k arbitrary: n) (simp_all add: unat_of_nat_u8 mod_256_power)

lemma be_val_be_bytes: "be_val (be_bytes k n) = n mod 256 ^ k"
  by (simp add: be_val_def be_bytes_def le_val_le_bytes)

lemma le_bytes_le_val: "length bs = k \<Longrightarrow> le_bytes k (le_val bs) = bs"
proof (induction bs arbitrary: k)
  case (Cons b bs)
  have "(unat b + 256 * le_val bs) div 256 = le_val bs"
    by simp
  moreover have "(of_nat (unat b + 256 * le_val bs) :: u8) = b"
    by (simp add: word_unat_eq_iff unat_of_nat_u8 del: of_nat_add of_nat_mult)
  ultimately show ?case
    using Cons by auto
qed simp

lemma le_bytes_mod: "le_bytes k n = le_bytes k (n mod 256 ^ k)"
  by (metis le_bytes_le_val le_val_le_bytes length_le_bytes)

lemma le_bytes_add: "le_bytes (j + k) n = le_bytes j n @ le_bytes k (n div 256 ^ j)"
  by (induction j arbitrary: n) (simp_all add: div_mult2_eq)

lemma be_bytes_be_val: "length bs = k \<Longrightarrow> be_bytes k (be_val bs) = bs"
  using le_bytes_le_val [of "rev bs" k] by (simp add: be_bytes_def be_val_def)

lemma le_val_bound: "le_val bs < 256 ^ length bs"
proof (induction bs)
  case (Cons b bs)
  then show ?case
    using unat_u8_less [of b] by (simp del: unat_u8_less; linarith)
qed simp

lemma be_val_bound: "be_val bs < 256 ^ length bs"
  using le_val_bound [of "rev bs"] by (simp add: be_val_def)

lemma le_val_append: "le_val (xs @ ys) = le_val xs + 256 ^ length xs * le_val ys"
  by (induction xs) (simp_all add: algebra_simps)

lemma be_val_simps [simp]: "be_val [] = 0" "be_val (bs @ [b]) = 256 * be_val bs + unat b"
  by (simp_all add: be_val_def)

lemma be_val_Cons: "be_val (b # bs) = unat b * 256 ^ length bs + be_val bs"
  by (simp add: be_val_def le_val_append)

text \<open>A step of the accumulating loops \<open>v = (v << n) | w\<close>.\<close>

lemma push_bit_or_add:
  assumes "take_bit n w = w"
  shows "push_bit n (v :: 'a::len word) OR w = v * 2 ^ n + w"
proof -
  have "push_bit n v AND w = push_bit n v AND take_bit n w"
    using assms by simp
  also have "\<dots> = 0"
    by (rule bit_eqI) (simp add: bit_simps)
  finally show ?thesis
    by (simp add: disjunctive_add_eq_or push_bit_eq_mult)
qed

lemma ucast_u8_take: "take_bit 8 (ucast (b :: u8) :: 'a::len word) = ucast b"
  by (rule bit_word_eqI) (simp add: bit_simps, metis bit_u8_ge not_le)

lemma push8_or: "push_bit 8 (v :: 'a::len word) OR ucast (b :: u8) = v * 256 + ucast b"
  using push_bit_or_add [of 8 "ucast b" v] by (simp add: ucast_u8_take)

lemma foldl_be_val:
  "foldl (\<lambda>v b. push_bit 8 v OR ucast b) (of_nat n) bs = (of_nat (n * 256 ^ length bs + be_val bs) :: 'a::len word)"
proof (induction bs arbitrary: n)
  case (Cons b bs)
  have step: "push_bit 8 (of_nat n :: 'a word) OR ucast b = of_nat (n * 256 + unat b)"
    by (simp add: push8_or)
  have "(n * 256 + unat b) * 256 ^ length bs + be_val bs = n * 256 ^ length (b # bs) + be_val (b # bs)"
    by (simp add: be_val_Cons algebra_simps)
  then show ?case
    unfolding foldl.simps step Cons by (rule arg_cong)
qed simp

section \<open>The low seven bits of a byte and the top one\<close>

lemma and_7f: "(b :: 'a::len word) AND 0x7f = take_bit 7 b"
  by (simp add: take_bit_eq_mask mask_numeral)

lemma and_ff: "(b :: 'a::len word) AND 0xff = take_bit 8 b"
  by (simp add: take_bit_eq_mask mask_numeral)

lemma unat_and_7f: "unat ((b :: u8) AND 0x7f) = unat b mod 128"
  by (simp add: and_7f take_bit_eq_mod unat_mod)

lemma and_80: "(b :: u8) AND 0x80 \<noteq> 0 \<longleftrightarrow> 128 \<le> unat b"
proof -
  have "b AND 0x80 = push_bit 7 (drop_bit 7 b)"
    by (rule u8_eqI; simp add: bit_simps)
  moreover have "unat (push_bit 7 (drop_bit 7 b)) = unat b div 128 * 128"
  proof -
    have "unat b div 128 < 2"
      using unat_u8_less [of b] by (intro less_mult_imp_div_less) simp
    then have "unat b div 128 mod 256 * 128 mod 256 = unat b div 128 * 128"
      by simp
    then show ?thesis
      by (simp add: push_bit_eq_mult drop_bit_eq_div unat_word_ariths unat_div)
  qed
  ultimately show ?thesis
    by (metis div_eq_0_iff mult_is_0 not_le unat_0 unsigned_eq_0_iff zero_neq_numeral)
qed

lemma or_80: "take_bit 7 b OR 0x80 = take_bit 7 b + (0x80 :: u8)"
proof (rule disjunctive_add [symmetric])
  fix n
  have "\<not> bit (0x80 :: u8) n" if "n < 7"
    using that by (simp add: numeral_eq_Suc less_Suc_eq) auto
  then show "\<not> bit (take_bit 7 b) n \<or> \<not> bit (0x80 :: u8) n"
    by (auto simp: bit_take_bit_iff)
qed

end
