(* ===== verification/Constant_Time.thy ===== *)
theory Constant_Time
  imports Prelude
begin

text \<open>
  The branch-free comparisons and selections of \<open>crypto/internal.h\<close> (BoringSSL), on the 64-bit
  \<open>crypto_word_t\<close>, and what each of them computes: a mask of all ones for true and zero for
  false, and a selection by such a mask.  Base64 and the ASN.1 parsers compute with them.
\<close>

type_synonym crypto_word_t = u64

definition constant_time_msb_w :: "crypto_word_t \<Rightarrow> crypto_word_t" where
  "constant_time_msb_w a = 0 - drop_bit 63 a"

definition constant_time_lt_w :: "crypto_word_t \<Rightarrow> crypto_word_t \<Rightarrow> crypto_word_t" where
  "constant_time_lt_w a b = constant_time_msb_w (a XOR ((a XOR b) OR ((a - b) XOR a)))"

definition constant_time_lt_8 :: "crypto_word_t \<Rightarrow> crypto_word_t \<Rightarrow> u8" where
  "constant_time_lt_8 a b = ucast (constant_time_lt_w a b)"

definition constant_time_ge_w :: "crypto_word_t \<Rightarrow> crypto_word_t \<Rightarrow> crypto_word_t" where
  "constant_time_ge_w a b = NOT (constant_time_lt_w a b)"

definition constant_time_ge_8 :: "crypto_word_t \<Rightarrow> crypto_word_t \<Rightarrow> u8" where
  "constant_time_ge_8 a b = ucast (constant_time_ge_w a b)"

definition constant_time_is_zero_w :: "crypto_word_t \<Rightarrow> crypto_word_t" where
  "constant_time_is_zero_w a = constant_time_msb_w (NOT a AND (a - 1))"

definition constant_time_is_zero_8 :: "crypto_word_t \<Rightarrow> u8" where
  "constant_time_is_zero_8 a = ucast (constant_time_is_zero_w a)"

definition constant_time_eq_w :: "crypto_word_t \<Rightarrow> crypto_word_t \<Rightarrow> crypto_word_t" where
  "constant_time_eq_w a b = constant_time_is_zero_w (a XOR b)"

definition constant_time_eq_8 :: "crypto_word_t \<Rightarrow> crypto_word_t \<Rightarrow> u8" where
  "constant_time_eq_8 a b = ucast (constant_time_eq_w a b)"

text \<open>The \<open>int\<close> arguments of the \<open>_int\<close> variants are signed 32-bit values, sign-extended.\<close>

definition constant_time_eq_int :: "u32 \<Rightarrow> u32 \<Rightarrow> crypto_word_t" where
  "constant_time_eq_int a b = constant_time_eq_w (scast a) (scast b)"

definition constant_time_eq_int_8 :: "u32 \<Rightarrow> u32 \<Rightarrow> u8" where
  "constant_time_eq_int_8 a b = constant_time_eq_8 (scast a) (scast b)"

definition constant_time_select_w ::
  "crypto_word_t \<Rightarrow> crypto_word_t \<Rightarrow> crypto_word_t \<Rightarrow> crypto_word_t" where
  "constant_time_select_w m a b = (m AND a) OR (NOT m AND b)"

definition constant_time_select_8 :: "u8 \<Rightarrow> u8 \<Rightarrow> u8 \<Rightarrow> u8" where
  "constant_time_select_8 m a b = ucast (constant_time_select_w (ucast m) (ucast a) (ucast b))"

definition constant_time_select_int :: "crypto_word_t \<Rightarrow> u32 \<Rightarrow> u32 \<Rightarrow> u32" where
  "constant_time_select_int m a b = ucast (constant_time_select_w m (scast a) (scast b))"

section \<open>What the masks mean\<close>

text \<open>A mask is all ones or zero.\<close>

definition mask_of :: "bool \<Rightarrow> 'a::len word" where
  "mask_of p = (if p then - 1 else 0)"

lemma mask_of_simps [simp]: "mask_of True = - 1" "mask_of False = 0"
  by (simp_all add: mask_of_def)

lemma ucast_mask_of [simp]: "ucast (mask_of p :: u64) = (mask_of p :: u8)"
  by (rule bit_word_eqI) (simp add: mask_of_def bit_simps)

lemma not_mask_of [simp]: "NOT (mask_of p) = mask_of (\<not> p)"
  by (simp add: mask_of_def)

lemma constant_time_msb_w_eq: "constant_time_msb_w a = mask_of (bit a 63)"
  by (simp add: constant_time_msb_w_def drop_bit_63 mask_of_def)

lemma lt_formula_top_bit: "bit (a XOR ((a XOR b) OR ((a - b) XOR a))) 63 \<longleftrightarrow> a < (b :: u64)"
  using uint_bounds64 [of a] uint_bounds64 [of b] uint_diff64 [of a b]
  unfolding bit_xor_iff bit_or_iff unfolding bit_top64 word_less_def by presburger

lemma zero_formula_top_bit: "bit (NOT a AND (a - 1)) 63 \<longleftrightarrow> (a :: u64) = 0"
proof (cases "uint a = 0")
  case True
  then have "a = 0"
    by (simp add: word_uint_eq_iff)
  then show ?thesis
    by (simp add: bit_simps)
next
  case False
  then have "a \<noteq> 0" and "1 \<le> uint a"
    using uint_ge_0 [of a] by (metis unsigned_0, linarith)
  then show ?thesis
    using uint_bounds64 [of a] uint_diff64 [of a 1]
    unfolding bit_and_iff bit_not_iff unfolding bit_top64 by (simp; linarith)
qed

lemma ct_lt [simp]:
  "constant_time_lt_w a b = mask_of (a < b)" "constant_time_lt_8 a b = mask_of (a < b)"
  by (simp_all add: constant_time_lt_w_def constant_time_lt_8_def constant_time_msb_w_eq
      lt_formula_top_bit)

lemma ct_ge [simp]:
  "constant_time_ge_w a b = mask_of (b \<le> a)" "constant_time_ge_8 a b = mask_of (b \<le> a)"
  by (simp_all add: constant_time_ge_w_def constant_time_ge_8_def not_less)

lemma ct_is_zero [simp]:
  "constant_time_is_zero_w a = mask_of (a = 0)" "constant_time_is_zero_8 a = mask_of (a = 0)"
  by (simp_all add: constant_time_is_zero_w_def constant_time_is_zero_8_def
      constant_time_msb_w_eq zero_formula_top_bit)

lemma ct_eq [simp]:
  "constant_time_eq_w a b = mask_of (a = b)" "constant_time_eq_8 a b = mask_of (a = b)"
  by (simp_all add: constant_time_eq_w_def constant_time_eq_8_def word_xor_eq_0)

lemma ct_select_w [simp]: "constant_time_select_w (mask_of p) a b = (if p then a else b)"
  by (simp add: constant_time_select_w_def mask_of_def)

lemma ct_select_8 [simp]: "constant_time_select_8 (mask_of p) a b = (if p then a else b)"
  by (rule bit_word_eqI)
    (auto simp: constant_time_select_8_def constant_time_select_w_def mask_of_def bit_simps)

lemma ct_select_8_const [simp]:
  "constant_time_select_8 (- 1) a b = a" "constant_time_select_8 0 a b = b"
  using ct_select_8 [of True a b] ct_select_8 [of False a b] by simp_all

lemma ct_select_int [simp]: "constant_time_select_int (mask_of p) a b = (if p then a else b)"
  by (rule bit_word_eqI) (simp add: constant_time_select_int_def bit_simps)

end
