(* ===== verification/Base64.thy ===== *)
theory Base64
  imports Constant_Time
begin

text \<open>
  \<open>crypto/base64/base64.c\<close> (BoringSSL): the branch-free character conversions, the one-shot and
  the streaming encoder and decoder.  Blocks of memory are byte lists; an encoder or decoder
  call returns the bytes it stores at \<open>out\<close> beside the values it returns in C.
\<close>

section \<open>Character conversion\<close>

text \<open>The C arguments are promoted from \<open>uint8_t\<close> to \<open>crypto_word_t\<close>.\<close>

definition constant_time_lt_args_8 :: "u8 \<Rightarrow> u8 \<Rightarrow> u8" where
  "constant_time_lt_args_8 a b = ucast (constant_time_msb_w (ucast a - ucast b))"

definition constant_time_in_range_8 :: "u8 \<Rightarrow> u8 \<Rightarrow> u8 \<Rightarrow> u8" where
  "constant_time_in_range_8 a mn mx =
     (let a = a - mn in constant_time_lt_args_8 a (mx - mn + 1))"

definition conv_bin2ascii :: "u8 \<Rightarrow> u8" where
  "conv_bin2ascii a =
     (let a = a AND 0x3f;
          ret = constant_time_select_8 (constant_time_eq_8 (ucast a) 62) 43 47;
          ret = constant_time_select_8 (constant_time_lt_args_8 a 62) (a - 52 + 48) ret;
          ret = constant_time_select_8 (constant_time_lt_args_8 a 52) (a - 26 + 97) ret;
          ret = constant_time_select_8 (constant_time_lt_args_8 a 26) (a + 65) ret
      in ret)"

definition base64_ascii_to_bin :: "u8 \<Rightarrow> u8" where
  "base64_ascii_to_bin a =
     (let is_upper = constant_time_in_range_8 a 65 90;
          is_lower = constant_time_in_range_8 a 97 122;
          is_digit = constant_time_in_range_8 a 48 57;
          is_plus = constant_time_eq_8 (ucast a) 43;
          is_slash = constant_time_eq_8 (ucast a) 47;
          is_equals = constant_time_eq_8 (ucast a) 61;
          ret = 0xff;
          ret = constant_time_select_8 is_upper (a - 65) ret;
          ret = constant_time_select_8 is_lower (a - 97 + 26) ret;
          ret = constant_time_select_8 is_digit (a - 48 + 52) ret;
          ret = constant_time_select_8 is_plus 62 ret;
          ret = constant_time_select_8 is_slash 63 ret;
          ret = constant_time_select_8 is_equals 0 ret
      in ret)"

section \<open>Encoding\<close>

text \<open>\<open>EVP_EncodedLength\<close>: \<open>None\<close> is the return value 0.\<close>

definition EVP_EncodedLength :: "usize \<Rightarrow> usize option" where
  "EVP_EncodedLength len =
     (if len + 2 < len then None
      else let len = (len + 2) div 3 in
        if drop_bit 2 (push_bit 2 len) \<noteq> len then None
        else let len = push_bit 2 len in
          if len + 1 < len then None else Some (len + 1))"

text \<open>
  The loop of \<open>EVP_EncodeBlock\<close>: the characters written to \<open>dst\<close> and \<open>ret\<close>.  The pattern
  \<open>a # b # c # rest\<close> is \<open>remaining >= 3\<close>.
\<close>

fun encode_block_loop :: "bytes \<Rightarrow> bytes \<times> usize" where
  "encode_block_loop [] = ([], 0)"
| "encode_block_loop (a # b # c # rest) =
     (let l = push_bit 16 (ucast a :: u32) OR push_bit 8 (ucast b) OR ucast c;
          (dst, ret) = encode_block_loop rest
      in (conv_bin2ascii (ucast (drop_bit 18 l)) # conv_bin2ascii (ucast (drop_bit 12 l)) #
          conv_bin2ascii (ucast (drop_bit 6 l)) # conv_bin2ascii (ucast l) # dst, ret + 4))"
| "encode_block_loop [a, b] =
     (let l = push_bit 16 (ucast a :: u32) OR push_bit 8 (ucast b)
      in ([conv_bin2ascii (ucast (drop_bit 18 l)), conv_bin2ascii (ucast (drop_bit 12 l)),
           conv_bin2ascii (ucast (drop_bit 6 l)), 61], 4))"
| "encode_block_loop [a] =
     (let l = push_bit 16 (ucast a :: u32)
      in ([conv_bin2ascii (ucast (drop_bit 18 l)), conv_bin2ascii (ucast (drop_bit 12 l)),
           61, 61], 4))"

text \<open>What \<open>dst\<close> holds afterwards (with the final NUL) and the return value.\<close>

definition EVP_EncodeBlock :: "bytes \<Rightarrow> bytes \<times> usize" where
  "EVP_EncodeBlock src = (let (dst, ret) = encode_block_loop src in (dst @ [0], ret))"

text \<open>\<open>struct evp_encode_ctx_st\<close>; \<open>data\<close> has 48 bytes.\<close>

record EVP_ENCODE_CTX =
  data_used :: nat
  data :: bytes
  eof_seen :: bool
  error_encountered :: bool

definition EVP_EncodeInit :: EVP_ENCODE_CTX where
  "EVP_EncodeInit = \<lparr>data_used = 0, data = replicate 48 0, eof_seen = False, error_encountered = False\<rparr>"

definition INT_MAX :: nat where
  "INT_MAX = 2147483647"

text \<open>
  The \<open>while (in_len >= sizeof(ctx->data))\<close> loop: input left, text written so far, \<open>total\<close>,
  and whether the loop ended without the overflow return.
\<close>

fun encode_update_loop :: "bytes \<Rightarrow> bytes \<Rightarrow> usize \<Rightarrow> bytes \<times> bytes \<times> usize \<times> bool" where
  "encode_update_loop inp out tot =
     (if 48 \<le> length inp then
        let (dst, encoded) = EVP_EncodeBlock (take 48 inp);
            inp = drop 48 inp;
            out = out @ take (unat encoded) dst @ [10]
        in if tot + encoded + 1 < tot then (inp, out, tot, False)
           else encode_update_loop inp out (tot + encoded + 1)
      else (inp, out, tot, True))"

declare encode_update_loop.simps [simp del]

text \<open>
  \<open>EVP_EncodeUpdate\<close>: the context, the text stored at \<open>out\<close> (each stored line is followed by a
  NUL that the next line overwrites; it is left out here) and \<open>*out_len\<close>.
\<close>

definition EVP_EncodeUpdate :: "EVP_ENCODE_CTX \<Rightarrow> bytes \<Rightarrow> EVP_ENCODE_CTX \<times> bytes \<times> nat" where
  "EVP_EncodeUpdate ctx inp =
     (if inp = [] then (ctx, [], 0)
      else if 48 - data_used ctx > length inp then
        (ctx\<lparr>data := mem_write (data ctx) (data_used ctx) inp,
             data_used := data_used ctx + length inp\<rparr>, [], 0)
      else
        let (ctx, inp, out, tot) =
              (if data_used ctx \<noteq> 0 then
                 let todo = 48 - data_used ctx;
                     ctx = ctx\<lparr>data := mem_write (data ctx) (data_used ctx) (take todo inp)\<rparr>;
                     (dst, encoded) = EVP_EncodeBlock (data ctx)
                 in (ctx\<lparr>data_used := 0\<rparr>, drop todo inp, take (unat encoded) dst @ [10], encoded + 1)
               else (ctx, inp, [], 0));
            (inp, out, tot, ok) = encode_update_loop inp out tot
        in if \<not> ok then (ctx, out, 0)
           else
             let ctx = ctx\<lparr>data := (if inp \<noteq> [] then mem_write (data ctx) 0 inp else data ctx),
                           data_used := length inp\<rparr>;
                 tot = (if unat tot > INT_MAX then 0 else tot)
             in (ctx, out, unat tot))"

text \<open>\<open>EVP_EncodeFinal\<close>: context, the text stored at \<open>out\<close> (a NUL follows it), \<open>*out_len\<close>.\<close>

definition EVP_EncodeFinal :: "EVP_ENCODE_CTX \<Rightarrow> EVP_ENCODE_CTX \<times> bytes \<times> nat" where
  "EVP_EncodeFinal ctx =
     (if data_used ctx = 0 then (ctx, [], 0)
      else let (dst, encoded) = EVP_EncodeBlock (take (data_used ctx) (data ctx))
           in (ctx\<lparr>data_used := 0\<rparr>, take (unat encoded) dst @ [10], unat (encoded + 1)))"

section \<open>Decoding\<close>

definition EVP_DecodedLength :: "usize \<Rightarrow> usize option" where
  "EVP_DecodedLength len = (if len mod 4 \<noteq> 0 then None else Some ((len div 4) * 3))"

definition EVP_DecodeInit :: EVP_ENCODE_CTX where
  "EVP_DecodeInit = \<lparr>data_used = 0, data = replicate 48 0, eof_seen = False, error_encountered = False\<rparr>"

text \<open>\<open>base64_decode_quad\<close>: the bytes written to \<open>out\<close> (their number is \<open>*out_num_bytes\<close>).\<close>

definition base64_decode_quad :: "u8 \<Rightarrow> u8 \<Rightarrow> u8 \<Rightarrow> u8 \<Rightarrow> bytes option" where
  "base64_decode_quad in0 in1 in2 in3 =
     (let a = base64_ascii_to_bin in0; b = base64_ascii_to_bin in1;
          c = base64_ascii_to_bin in2; d = base64_ascii_to_bin in3
      in if a = 0xff \<or> b = 0xff \<or> c = 0xff \<or> d = 0xff then None
         else
           let v = push_bit 18 (ucast a :: u32) OR push_bit 12 (ucast b) OR push_bit 6 (ucast c) OR ucast d;
               padding_pattern = push_bit 3 (of_bool (in0 = 61) :: u32) OR push_bit 2 (of_bool (in1 = 61))
                 OR push_bit 1 (of_bool (in2 = 61)) OR of_bool (in3 = 61)
           in if padding_pattern = 0 then
                Some [ucast (drop_bit 16 v), ucast (drop_bit 8 v), ucast v]
              else if padding_pattern = 1 then Some [ucast (drop_bit 16 v), ucast (drop_bit 8 v)]
              else if padding_pattern = 3 then Some [ucast (drop_bit 16 v)]
              else None)"

text \<open>
  The loop of \<open>EVP_DecodeUpdate\<close> over the input characters: the context, the bytes written to
  \<open>out\<close>, and whether it ran to the end of the input.
\<close>

fun decode_update_loop :: "EVP_ENCODE_CTX \<Rightarrow> bytes \<Rightarrow> bytes \<Rightarrow> EVP_ENCODE_CTX \<times> bytes \<times> bool" where
  "decode_update_loop ctx out [] = (ctx, out, True)"
| "decode_update_loop ctx out (c # inp) =
     (if c = 32 \<or> c = 9 \<or> c = 13 \<or> c = 10 then decode_update_loop ctx out inp
      else if eof_seen ctx then (ctx\<lparr>error_encountered := True\<rparr>, out, False)
      else
        let ctx = ctx\<lparr>data := (data ctx)[data_used ctx := c], data_used := data_used ctx + 1\<rparr>
        in if data_used ctx = 4 then
             (case base64_decode_quad (data ctx ! 0) (data ctx ! 1) (data ctx ! 2) (data ctx ! 3) of
                None \<Rightarrow> (ctx\<lparr>error_encountered := True\<rparr>, out, False)
              | Some q \<Rightarrow>
                  let ctx = ctx\<lparr>data_used := 0\<rparr>;
                      ctx = (if length q < 3 then ctx\<lparr>eof_seen := True\<rparr> else ctx)
                  in decode_update_loop ctx (out @ q) inp)
           else decode_update_loop ctx out inp)"

text \<open>\<open>EVP_DecodeUpdate\<close>: return value, \<open>*out_len\<close>, bytes stored at \<open>out\<close>, context.\<close>

definition EVP_DecodeUpdate :: "EVP_ENCODE_CTX \<Rightarrow> bytes \<Rightarrow> int \<times> nat \<times> bytes \<times> EVP_ENCODE_CTX" where
  "EVP_DecodeUpdate ctx inp =
     (if error_encountered ctx then (- 1, 0, [], ctx)
      else
        let (ctx, out, ok) = decode_update_loop ctx [] inp
        in if \<not> ok then (- 1, 0, out, ctx)
           else if length out > INT_MAX then (- 1, 0, out, ctx\<lparr>error_encountered := True\<rparr>)
           else (if eof_seen ctx then 0 else 1, length out, out, ctx))"

definition EVP_DecodeFinal :: "EVP_ENCODE_CTX \<Rightarrow> int \<times> nat" where
  "EVP_DecodeFinal ctx =
     (if error_encountered ctx \<or> data_used ctx \<noteq> 0 then (- 1, 0) else (1, 0))"

text \<open>
  The loop of \<open>EVP_DecodeBase64\<close>; \<open>rest = []\<close> is \<open>i == in_len - 4\<close>.  The result holds the
  bytes written, and whether the loop succeeded.
\<close>

fun decode_base64_loop :: "bytes \<Rightarrow> bytes \<Rightarrow> bytes \<times> bool" where
  "decode_base64_loop out (a # b # c # d # rest) =
     (case base64_decode_quad a b c d of
        None \<Rightarrow> (out, False)
      | Some q \<Rightarrow>
          if length q \<noteq> 3 \<and> rest \<noteq> [] then (out @ q, False)
          else decode_base64_loop (out @ q) rest)"
| "decode_base64_loop out _ = (out, True)"

text \<open>\<open>EVP_DecodeBase64\<close>: return value, \<open>*out_len\<close>, bytes stored at \<open>out\<close>.\<close>

definition EVP_DecodeBase64 :: "usize \<Rightarrow> bytes \<Rightarrow> bool \<times> nat \<times> bytes" where
  "EVP_DecodeBase64 max_out inp =
     (if length inp mod 4 \<noteq> 0 then (False, 0, [])
      else case EVP_DecodedLength (of_nat (length inp)) of
        None \<Rightarrow> (False, 0, [])
      | Some max_len \<Rightarrow>
          if max_out < max_len then (False, 0, [])
          else let (out, ok) = decode_base64_loop [] inp
               in if ok then (True, length out, out) else (False, 0, out))"

text \<open>
  \<open>EVP_DecodeBlock\<close>: the bytes of \<open>dst\<close> up to the length it returns, or \<open>None\<close> for -1.
\<close>

definition EVP_DecodeBlock :: "bytes \<Rightarrow> bytes option" where
  "EVP_DecodeBlock src =
     (let src = dropWhile (\<lambda>c. c = 32 \<or> c = 9) src;
          src = rev (dropWhile (\<lambda>c. c = 32 \<or> c = 9 \<or> c = 13 \<or> c = 10) (rev src))
      in case EVP_DecodedLength (of_nat (length src)) of
           None \<Rightarrow> None
         | Some dst_len \<Rightarrow>
             if unat dst_len > INT_MAX then None
             else case EVP_DecodeBase64 dst_len src of
               (True, n, dst) \<Rightarrow> Some (dst @ replicate ((3 - n mod 3) mod 3) 0)
             | (False, _, _) \<Rightarrow> None)"

section \<open>The character conversions are the base64 alphabet\<close>

definition base64_alphabet :: bytes where
  "base64_alphabet = map of_char ''ABCDEFGHIJKLMNOPQRSTUVWXYZabcdefghijklmnopqrstuvwxyz0123456789+/''"

lemma take_bit_u8: "take_bit 64 (uint (a :: u8)) = uint a"
  using uint_lt2p [of a] by (intro take_bit_int_eq_self) (auto intro: less_trans)

lemma constant_time_lt_args_8_eq [simp]: "constant_time_lt_args_8 a b = mask_of (a < b)"
proof -
  have "bit (ucast a - ucast b :: u64) 63 \<longleftrightarrow> a < b"
    using uint_lt2p [of a] uint_lt2p [of b] uint_ge_0 [of a] uint_ge_0 [of b]
      uint_diff64 [of "ucast a" "ucast b"]
    unfolding bit_top64 word_less_def unsigned_ucast_eq len_num1 len_bit0
    by (simp add: take_bit_u8 del: uint_ge_0 split: if_splits; linarith)
  then show ?thesis
    by (simp add: constant_time_lt_args_8_def constant_time_msb_w_eq)
qed

lemma ucast_eq_num: "(ucast (a :: u8) = (x :: u64)) \<longleftrightarrow> uint a = uint x"
  by (simp add: word_uint_eq_iff unsigned_ucast_eq take_bit_u8)

definition sextet_char :: "u8 \<Rightarrow> u8" where
  "sextet_char a = (if a < 26 then a + 65 else if a < 52 then a + 71
     else if a < 62 then a - 4 else if a = 62 then 43 else 47)"

definition char_sextet :: "u8 \<Rightarrow> u8" where
  "char_sextet a = (if a = 61 then 0 else if a = 47 then 63 else if a = 43 then 62
     else if a - 48 < 10 then a + 4 else if a - 97 < 26 then a - 71
     else if a - 65 < 26 then a - 65 else 255)"

lemma conv_bin2ascii_eq: "conv_bin2ascii a = sextet_char (a AND 63)"
  by (simp add: conv_bin2ascii_def sextet_char_def Let_def ucast_eq_num) (simp add: word_uint_eq_iff)

lemma base64_ascii_to_bin_eq: "base64_ascii_to_bin = char_sextet"
  by (rule ext, simp add: base64_ascii_to_bin_def char_sextet_def Let_def ucast_eq_num constant_time_in_range_8_def)
   (simp add: word_uint_eq_iff)

definition sextets :: "u8 list" where
  "sextets = [0, 1, 2, 3, 4, 5, 6, 7, 8, 9, 10, 11, 12, 13, 14, 15, 16, 17, 18, 19, 20, 21,
     22, 23, 24, 25, 26, 27, 28, 29, 30, 31, 32, 33, 34, 35, 36, 37, 38, 39, 40, 41,
     42, 43, 44, 45, 46, 47, 48, 49, 50, 51, 52, 53, 54, 55, 56, 57, 58, 59, 60, 61,
     62, 63]"

lemma sextets_eq: "sextets = map word_of_nat [0..<64]"
  by code_simp

lemma sextetI:
  assumes "list_all P sextets"
  shows "P (a AND 63)"
proof -
  have "a AND 63 \<le> 63" by (rule word_and_le1)
  then have *: "unat (a AND 63) < 64" by (simp add: word_le_nat_alt)
  have "word_of_nat (unat (a AND 63)) \<in> set sextets"
    unfolding sextets_eq set_map set_upt by (rule imageI) (simp add: *)
  then show ?thesis using assms by (simp add: list_all_iff)
qed
lemma char_sextet_inverse: "char_sextet (sextet_char (a AND 63)) = (a AND 63) \<and> sextet_char (a AND 63) \<noteq> 61"
  by (rule sextetI [where P = "\<lambda>a. char_sextet (sextet_char a) = a \<and> sextet_char a \<noteq> 61"])
     (simp only: sextets_def list.pred_inject; simp add: char_sextet_def sextet_char_def)
lemma conv_bin2ascii_alphabet_idx: "conv_bin2ascii a = base64_alphabet ! unat (a AND 63)"
  unfolding conv_bin2ascii_eq 
  by (rule sextetI [where P = "\<lambda>a. sextet_char a = base64_alphabet ! unat a"])
     (simp only: sextets_def list.pred_inject; simp add: sextet_char_def base64_alphabet_def)

lemma and_63: "(x :: u8) AND 63 = take_bit 6 x"
  by (simp add: take_bit_eq_mask mask_numeral)

lemma ascii_to_bin_conv [simp]:
  "base64_ascii_to_bin (conv_bin2ascii x) = take_bit 6 x" "conv_bin2ascii x \<noteq> 61"
  using char_sextet_inverse [of x]
  by (simp_all add: base64_ascii_to_bin_eq conv_bin2ascii_eq and_63)

lemma ascii_to_bin_pad [simp]: "base64_ascii_to_bin 61 = 0"
  by (simp add: base64_ascii_to_bin_eq char_sextet_def)

lemma sextet_not_invalid [simp]: "take_bit 6 (x :: u8) \<noteq> 255"
proof
  assume *: "take_bit 6 x = 255"
  have "\<not> bit (take_bit 6 x) 7" by (simp add: bit_take_bit_iff)
  then show False unfolding * by simp
qed

lemma conv_not_space [simp]:
  "conv_bin2ascii x \<noteq> 32" "conv_bin2ascii x \<noteq> 9" "conv_bin2ascii x \<noteq> 13" "conv_bin2ascii x \<noteq> 10"
proof -
  have "(\<lambda>a. sextet_char a \<noteq> 32 \<and> sextet_char a \<noteq> 9 \<and> sextet_char a \<noteq> 13 \<and> sextet_char a \<noteq> 10) (x AND 63)"
    by (rule sextetI) (simp only: sextets_def list.pred_inject; simp add: sextet_char_def)
  then show "conv_bin2ascii x \<noteq> 32" "conv_bin2ascii x \<noteq> 9" "conv_bin2ascii x \<noteq> 13" "conv_bin2ascii x \<noteq> 10"
    by (simp_all add: conv_bin2ascii_eq)
qed

section \<open>One group of three bytes\<close>

text \<open>The 24-bit value a quad's four sextets are put back into.\<close>

abbreviation sextet_of :: "nat \<Rightarrow> u32 \<Rightarrow> u32" where
  "sextet_of n l \<equiv> ucast (take_bit 6 (ucast (drop_bit n l) :: u8))"

abbreviation group_val :: "u8 \<Rightarrow> u8 \<Rightarrow> u8 \<Rightarrow> u32" where
  "group_val a b c \<equiv> push_bit 16 (ucast a) OR push_bit 8 (ucast b) OR ucast c"

abbreviation regroup :: "u32 \<Rightarrow> u32" where
  "regroup l \<equiv> push_bit 18 (sextet_of 18 l) OR push_bit 12 (sextet_of 12 l) OR
     push_bit 6 (sextet_of 6 l) OR sextet_of 0 l"

lemma regroup_bytes:
  "ucast (drop_bit 16 (regroup (group_val a b c))) = a"
  "ucast (drop_bit 8 (regroup (group_val a b c))) = b"
  "ucast (regroup (group_val a b c)) = c"
  by (rule u8_eqI; simp add: bit_simps)+

lemma group_val_pad:
  "take_bit 6 (ucast (push_bit 16 (ucast a) OR push_bit 8 (ucast b) :: u32) :: u8) = 0"
  "take_bit 6 (ucast (push_bit 16 (ucast a) :: u32) :: u8) = 0"
  "take_bit 6 (ucast (drop_bit 6 (push_bit 16 (ucast a) :: u32)) :: u8) = 0"
  by (rule u8_eqI; simp add: bit_simps)+

lemma quad_roundtrip_3:
  "base64_decode_quad (conv_bin2ascii (ucast (drop_bit 18 (group_val a b c))))
     (conv_bin2ascii (ucast (drop_bit 12 (group_val a b c))))
     (conv_bin2ascii (ucast (drop_bit 6 (group_val a b c))))
     (conv_bin2ascii (ucast (group_val a b c))) = Some [a, b, c]"
  using regroup_bytes [of a b c] by (simp add: base64_decode_quad_def Let_def)

lemma quad_roundtrip_2:
  "base64_decode_quad
     (conv_bin2ascii (ucast (drop_bit 18 (push_bit 16 (ucast a) OR push_bit 8 (ucast b) :: u32))))
     (conv_bin2ascii (ucast (drop_bit 12 (push_bit 16 (ucast a) OR push_bit 8 (ucast b) :: u32))))
     (conv_bin2ascii (ucast (drop_bit 6 (push_bit 16 (ucast a) OR push_bit 8 (ucast b) :: u32))))
     61 = Some [a, b]"
  using regroup_bytes [of a b 0] by (simp add: base64_decode_quad_def Let_def group_val_pad)

lemma quad_roundtrip_1:
  "base64_decode_quad
     (conv_bin2ascii (ucast (drop_bit 18 (push_bit 16 (ucast a) :: u32))))
     (conv_bin2ascii (ucast (drop_bit 12 (push_bit 16 (ucast a) :: u32)))) 61 61 = Some [a]"
  using regroup_bytes [of a 0 0] by (simp add: base64_decode_quad_def Let_def group_val_pad)

lemmas quad_roundtrip = quad_roundtrip_1 quad_roundtrip_2 quad_roundtrip_3

section \<open>Whole blocks\<close>

text \<open>The text of a block without the NUL; its length; the value \<open>EVP_EncodeBlock\<close> returns.\<close>

abbreviation b64_text :: "bytes \<Rightarrow> bytes" where
  "b64_text xs \<equiv> fst (encode_block_loop xs)"

lemma length_b64_text: "length (b64_text xs) = 4 * ((length xs + 2) div 3)"
proof (induction xs rule: encode_block_loop.induct)
  case (2 a b c rest)
  have "(length (a # b # c # rest) + 2) div 3 = Suc ((length rest + 2) div 3)"
    by simp
  then show ?case
    using 2 by (simp add: Let_def case_prod_unfold)
qed (simp_all add: Let_def)

lemma snd_encode_block_loop: "snd (encode_block_loop xs) = of_nat (length (b64_text xs))"
  by (induction xs rule: encode_block_loop.induct) (auto simp: Let_def split: prod.splits)

lemma EVP_EncodeBlock_eq: "EVP_EncodeBlock xs = (b64_text xs @ [0], of_nat (length (b64_text xs)))"
  by (simp add: EVP_EncodeBlock_def snd_encode_block_loop [symmetric] split: prod.splits)

lemma decode_base64_loop_text: "decode_base64_loop out (b64_text xs) = (out @ xs, True)"
  by (induction xs arbitrary: out rule: encode_block_loop.induct)
    (auto simp: Let_def quad_roundtrip simp del: drop_bit_or split: prod.splits)

text \<open>
  \<open>EVP_DecodedLength\<close> of a length that is a multiple of four, read as a number.
\<close>

lemma EVP_DecodedLength_mult:
  assumes "4 * k < 2 ^ 64"
  shows "EVP_DecodedLength (of_nat (4 * k)) = Some (of_nat (3 * k))"
proof -
  have u: "unat (of_nat (4 * k) :: usize) = 4 * k"
    using assms by (intro unat_of_nat_small) simp
  have "(of_nat (4 * k) :: usize) mod 4 = 0" 
    by (rule word_unat_eq_iff [THEN iffD2]) (simp add: unat_mod u del: of_nat_mult)
  moreover have "(of_nat (4 * k) :: usize) div 4 = of_nat k"
  proof (rule word_unat_eq_iff [THEN iffD2])
    have "unat (of_nat k :: usize) = k"
      using assms by (intro unat_of_nat_small) simp
    then show "unat ((of_nat (4 * k) :: usize) div 4) = unat (of_nat k :: usize)"
      by (simp add: unat_div u del: of_nat_mult)
  qed
  ultimately show ?thesis
    by (simp add: EVP_DecodedLength_def mult.commute)
qed

section \<open>Lengths\<close>

text \<open>
  \<open>EVP_EncodedLength\<close> is exactly the size of what \<open>EVP_EncodeBlock\<close> writes, NUL included, and
  fails exactly when that size is no \<open>size_t\<close>.
\<close>

lemma EVP_EncodedLength_eq:
  "EVP_EncodedLength len =
     (if 4 * ((unat len + 2) div 3) + 1 < 2 ^ 64 then Some (of_nat (4 * ((unat len + 2) div 3) + 1)) else None)"
proof (cases "unat len + 2 < 18446744073709551616")
  case False
  then have "len + 2 < len"
    using unat_lt64 [of len] unat_add64 [of len 2] by (simp add: word_less_nat_alt)
  moreover have "\<not> 4 * ((unat len + 2) div 3) + 1 < 2 ^ 64"
    using False by simp
  ultimately show ?thesis by (simp add: EVP_EncodedLength_def)
next
  case True
  define m where "m = (unat len + 2) div 3"
  have nlt: "\<not> len + 2 < len"
    using True unat_add64 [of len 2] by (simp add: word_less_nat_alt)
  have w: "unat ((len + 2) div 3) = m"
    using True unat_add64 [of len 2] by (simp add: unat_div m_def)
  have small: "m < 18446744073709551616" using w unat_lt64 [of "(len + 2) div 3"] by simp
  show ?thesis
  proof (cases "m < 4611686018427387904")
    case small: True
    have p: "unat (push_bit 2 ((len + 2) div 3)) = 4 * m"
      using small by (simp add: unat_push2 w)
    then have "drop_bit 2 (push_bit 2 ((len + 2) div 3)) = (len + 2) div 3"
      by (simp add: word_unat_eq_iff unat_drop2 w)
    moreover have p1: "unat (push_bit 2 ((len + 2) div 3) + 1) = 4 * m + 1"
      using small unat_add64 [of "push_bit 2 ((len + 2) div 3)" 1] by (simp add: p)
    moreover have "\<not> push_bit 2 ((len + 2) div 3) + 1 < push_bit 2 ((len + 2) div 3)"
      by (simp add: word_less_nat_alt p p1)
    ultimately have "EVP_EncodedLength len = Some (push_bit 2 ((len + 2) div 3) + 1)"
      using nlt by (simp add: EVP_EncodedLength_def Let_def)
    moreover have "push_bit 2 ((len + 2) div 3) + 1 = of_nat (4 * m + 1)"
    proof -
      have "unat (of_nat (4 * m + 1) :: usize) = 4 * m + 1"
        using small by (intro unat_of_nat_small) simp
      then show ?thesis by (simp only: word_unat_eq_iff p1)
    qed
    ultimately show ?thesis
      using small unfolding m_def [symmetric] by (simp del: of_nat_add of_nat_mult of_nat_Suc)
  next
    case big: False
    have "unat (drop_bit 2 (push_bit 2 ((len + 2) div 3))) < m"
      using big by (simp add: unat_drop2 unat_push2 w)
    then have "drop_bit 2 (push_bit 2 ((len + 2) div 3)) \<noteq> (len + 2) div 3"
      by (auto simp: w)
    then show ?thesis
      using nlt big unfolding m_def [symmetric] by (simp add: EVP_EncodedLength_def Let_def)
  qed
qed
section \<open>Properties\<close>

text \<open>
  The branch-free character conversion is the RFC 4648 alphabet indexed by the low six
  bits, and the decoder's character conversion inverts it.
\<close>

lemma conv_alphabet:
  "conv_bin2ascii a = base64_alphabet ! unat (a AND 63) \<and>
   base64_ascii_to_bin (conv_bin2ascii a) = (a AND 63)"
  by (rule conjI [OF conv_bin2ascii_alphabet_idx]) (simp add: and_63)

text \<open>
  Decoding what \<open>EVP_EncodeBlock\<close> wrote (its text without the NUL) gives the input
  back, with a decode buffer of the size \<open>EVP_DecodedLength\<close> asks for, as long as the length of
  the text fits \<open>size_t\<close>.
\<close>

theorem EVP_DecodeBase64_EncodeBlock:
  assumes "4 * ((length xs + 2) div 3) < 2 ^ 64" "3 * ((length xs + 2) div 3) \<le> unat max_out"
  shows "EVP_DecodeBase64 max_out (take (unat (snd (EVP_EncodeBlock xs))) (fst (EVP_EncodeBlock xs))) =
    (True, length xs, xs)"
proof -
  define k where "k = (length xs + 2) div 3"
  have k: "4 * k < 2 ^ 64" "3 * k \<le> unat max_out" and len: "length (b64_text xs) = 4 * k"
    using assms by (simp_all add: k_def length_b64_text)
  have u: "unat (of_nat (4 * k) :: usize) = 4 * k"
    using k by (intro unat_of_nat_small) simp
  have "unat (of_nat (3 * k) :: usize) = 3 * k"
    using k by (intro unat_of_nat_small) simp
  then have "\<not> max_out < of_nat (3 * k)"
    using k by (simp only: word_less_nat_alt not_less)
  then show ?thesis
    using len u EVP_DecodedLength_mult [OF k(1)] decode_base64_loop_text [of "[]" xs]
    by (simp add: EVP_EncodeBlock_eq EVP_DecodeBase64_def del: of_nat_mult)
qed

lemma EVP_DecodeBase64_EncodeBlock_witness:
  "EVP_DecodeBase64 6 (take (unat (snd (EVP_EncodeBlock [102, 111, 111, 98])))
     (fst (EVP_EncodeBlock [102, 111, 111, 98]))) = (True, 4, [102, 111, 111, 98])"
  using EVP_DecodeBase64_EncodeBlock [of "[102, 111, 111, 98]" 6] by simp

end
