(* ===== verification/Base64_Stream.thy ===== *)
theory Base64_Stream
  imports Base64
begin

text \<open>
  The streaming side of \<open>base64.c\<close>: what a sequence of \<open>EVP_EncodeUpdate\<close> calls and
  \<open>EVP_EncodeFinal\<close> emits, independently of how the input is cut into calls, and that the
  streaming decoder turns that text back into the input, however the text is cut.
\<close>

section \<open>The text the streaming encoder stands for\<close>

text \<open>The complete lines of 48 input bytes each, and the bytes that do not fill a line.\<close>

fun b64_lines :: "bytes \<Rightarrow> bytes" where
  "b64_lines xs = (if 48 \<le> length xs then b64_text (take 48 xs) @ [10] @ b64_lines (drop 48 xs) else [])"

declare b64_lines.simps [simp del]

definition b64_rest :: "bytes \<Rightarrow> bytes" where
  "b64_rest xs = drop (48 * (length xs div 48)) xs"

definition b64_last_line :: "bytes \<Rightarrow> bytes" where
  "b64_last_line xs = (if xs = [] then [] else b64_text xs @ [10])"

lemma b64_short: "length xs < 48 \<Longrightarrow> b64_lines xs = []" "length xs < 48 \<Longrightarrow> b64_rest xs = xs"
  by (simp_all add: b64_lines.simps [of xs] b64_rest_def)

lemma b64_line:
  assumes "48 \<le> length xs"
  shows "b64_lines xs = b64_text (take 48 xs) @ [10] @ b64_lines (drop 48 xs)"
    and "b64_rest xs = b64_rest (drop 48 xs)"
proof -
  show "b64_lines xs = b64_text (take 48 xs) @ [10] @ b64_lines (drop 48 xs)"
    using assms by (subst b64_lines.simps) simp
  have "length xs div 48 = Suc ((length xs - 48) div 48)"
    using assms by (intro le_div_geq) simp_all
  then show "b64_rest xs = b64_rest (drop 48 xs)"
    by (simp add: b64_rest_def add.commute)
qed

lemma length_b64_rest: "length (b64_rest xs) < 48"
  by (simp add: b64_rest_def)

lemma b64_append:
  "b64_lines (xs @ ys) = b64_lines xs @ b64_lines (b64_rest xs @ ys)"
  "b64_rest (xs @ ys) = b64_rest (b64_rest xs @ ys)"
proof (induction xs rule: b64_lines.induct)
  case (1 xs)
  {
    case 1
    show ?case
      using "1.IH" b64_line [of xs] b64_line(1) [of "xs @ ys"] b64_short [of xs]
      by (cases "48 \<le> length xs") (auto simp: not_le)
  next
    case 2
    show ?case
      using "1.IH" b64_line [of xs] b64_line(2) [of "xs @ ys"] b64_short [of xs]
      by (cases "48 \<le> length xs") (auto simp: not_le)
  }
qed

lemma length_b64_line: "length xs = 48 \<Longrightarrow> length (b64_text xs) = 64"
  by (simp add: length_b64_text)

lemma length_b64_lines: "length (b64_lines xs) = 65 * (length xs div 48)"
proof (induction xs rule: b64_lines.induct)
  case (1 xs)
  show ?case
  proof (cases "48 \<le> length xs")
    case True
    then have "length xs div 48 = Suc ((length xs - 48) div 48)"
      by (intro le_div_geq) simp_all
    then show ?thesis
      using 1 True by (simp add: b64_line length_b64_line)
  qed (simp add: b64_short)
qed

section \<open>The streaming encoder implements it\<close>

definition encoder_ok :: "EVP_ENCODE_CTX \<Rightarrow> bool" where
  "encoder_ok ctx \<longleftrightarrow> length (data ctx) = 48 \<and> data_used ctx < 48"

text \<open>The input bytes the context holds back.\<close>

definition pending :: "EVP_ENCODE_CTX \<Rightarrow> bytes" where
  "pending ctx = take (data_used ctx) (data ctx)"

lemma encoder_ok_init [simp]: "encoder_ok EVP_EncodeInit" "pending EVP_EncodeInit = []"
  by (simp_all add: encoder_ok_def EVP_EncodeInit_def pending_def)

lemma length_pending: "encoder_ok ctx \<Longrightarrow> length (pending ctx) = data_used ctx"
  by (simp add: encoder_ok_def pending_def)

lemma encode_update_loop_eq:
  assumes "unat tot + length (b64_lines inp) < 18446744073709551616"
  shows "encode_update_loop inp out tot =
    (b64_rest inp, out @ b64_lines inp, tot + of_nat (length (b64_lines inp)), True)"
  using assms
proof (induction inp out tot rule: encode_update_loop.induct)
  case (1 inp out tot)
  show ?case
  proof (cases "48 \<le> length inp")
    case False
    then show ?thesis
      by (simp add: b64_short encode_update_loop.simps)
  next
    case True
    then have ll: "length (b64_lines inp) = 65 + length (b64_lines (drop 48 inp))"
      by (simp add: b64_line length_b64_line)
    have unat65: "unat (tot + 65) = unat tot + 65"
      using "1.prems" ll unat_add64 [of tot 65] by simp
    then have "\<not> tot + 65 < tot"
      by (simp add: word_less_nat_alt)
    moreover have "unat (tot + 65) + length (b64_lines (drop 48 inp)) < 18446744073709551616"
      using "1.prems" ll unat65 by simp
    ultimately show ?thesis
      using True "1.IH" [OF True, of "(b64_text (take 48 inp) @ [0], 64)"]
      by (subst encode_update_loop.simps)
        (simp add: EVP_EncodeBlock_eq length_b64_line b64_line ll add.assoc)
  qed
qed

lemma unat_line_total:
  "n \<le> INT_MAX \<Longrightarrow> unat (of_nat n :: usize) = n"
  by (intro unat_of_nat_small) (simp add: INT_MAX_def)

lemma EVP_EncodeUpdate_lines:
  assumes ok: "encoder_ok ctx"
    and size: "length (b64_lines (pending ctx @ inp)) \<le> INT_MAX"
  shows "\<exists>ctx'. EVP_EncodeUpdate ctx inp =
      (ctx', b64_lines (pending ctx @ inp), length (b64_lines (pending ctx @ inp))) \<and>
    encoder_ok ctx' \<and> pending ctx' = b64_rest (pending ctx @ inp)"
proof -
  define used where "used = data_used ctx"
  have d: "length (data ctx) = 48" "used < 48" and lp: "length (pending ctx) = used"
    using ok by (simp_all add: encoder_ok_def pending_def used_def)
  consider "inp = []" | "inp \<noteq> []" "48 - used > length inp"
    | "inp \<noteq> []" "48 - used \<le> length inp" "used = 0"
    | "inp \<noteq> []" "48 - used \<le> length inp" "used \<noteq> 0"
    by linarith
  then show ?thesis
  proof cases
    case 1
    then show ?thesis
      using ok d lp by (simp add: EVP_EncodeUpdate_def b64_short)
  next
    case 2
    then have "length (pending ctx @ inp) < 48"
      using lp by simp
    then show ?thesis
      using 2 d ok unfolding used_def
      by (simp add: EVP_EncodeUpdate_def b64_short encoder_ok_def pending_def take_mem_write)
  next
    case 3
    have p: "pending ctx = []"
      using 3 lp by simp
    have "length (b64_lines inp) \<le> INT_MAX"
      using size p by simp
    then have loop: "encode_update_loop inp [] 0 =
        (b64_rest inp, b64_lines inp, of_nat (length (b64_lines inp)), True)"
      using encode_update_loop_eq [of 0 inp "[]"] by (simp add: INT_MAX_def)
    show ?thesis
      using 3 d p loop size length_b64_rest [of inp] unfolding used_def
      by (auto simp: EVP_EncodeUpdate_def Let_def unat_line_total encoder_ok_def pending_def take_mem_write)
  next
    case 4
    define todo where "todo = 48 - used"
    define line where "line = pending ctx @ take todo inp"
    define more where "more = drop todo inp"
    have line: "length line = 48" and split: "pending ctx @ inp = line @ more"
      using 4 d lp by (simp_all add: line_def more_def todo_def)
    have b64: "b64_lines (line @ more) = b64_text line @ [10] @ b64_lines more"
      "b64_rest (line @ more) = b64_rest more"
      using b64_line [of "line @ more"] line by simp_all
    have mw: "mem_write (data ctx) used (take todo inp) = line"
      using d 4 by (simp add: mem_write_def line_def pending_def used_def todo_def)
    have "65 + length (b64_lines more) \<le> INT_MAX"
      using size split b64 line by (simp add: length_b64_line)
    then have loop: "encode_update_loop more (b64_text line @ [10]) 65 =
        (b64_rest more, b64_text line @ [10] @ b64_lines more,
         of_nat (65 + length (b64_lines more)), True)"
      using encode_update_loop_eq [of 65 more "b64_text line @ [10]"] by (simp add: INT_MAX_def)
    have upd: "EVP_EncodeUpdate ctx inp =
      (let ctx = ctx\<lparr>data := (if b64_rest more \<noteq> [] then mem_write line 0 (b64_rest more) else line),
                     data_used := length (b64_rest more)\<rparr>
       in (ctx, b64_lines (line @ more), length (b64_lines (line @ more))))"
      using 4 d mw loop size split b64 line
      unfolding EVP_EncodeUpdate_def used_def [symmetric] todo_def [symmetric] more_def [symmetric]
      by (simp add: Let_def EVP_EncodeBlock_eq length_b64_line unat_line_total del: of_nat_add of_nat_Suc
          flip: todo_def more_def)
    show ?thesis
      using upd split b64 line length_b64_rest [of more]
      by (auto simp: Let_def encoder_ok_def pending_def take_mem_write)
  qed
qed

lemma EVP_EncodeFinal_last_line:
  assumes "encoder_ok ctx"
  shows "EVP_EncodeFinal ctx =
    (ctx\<lparr>data_used := 0\<rparr>, b64_last_line (pending ctx), length (b64_last_line (pending ctx)))"
proof (cases "data_used ctx = 0")
  case True
  then show ?thesis
    by (simp add: EVP_EncodeFinal_def pending_def b64_last_line_def)
next
  case False
  have ne: "pending ctx \<noteq> []" and short: "length (pending ctx) < 48"
    using False assms by (auto simp: encoder_ok_def pending_def)
  define n where "n = length (b64_text (pending ctx))"
  have "n \<le> 64"
    using div_le_mono [of "length (pending ctx) + 2" 49 3] short
    by (simp add: n_def length_b64_text)
  then have "unat (of_nat n :: usize) = n" "unat (of_nat (n + 1) :: usize) = n + 1"
    by (intro unat_of_nat_small; simp)+
  moreover have "(of_nat n :: usize) + 1 = of_nat (n + 1)"
    by simp
  ultimately show ?thesis
    using False ne unfolding EVP_EncodeFinal_def EVP_EncodeBlock_eq b64_last_line_def
      pending_def [symmetric] n_def [symmetric]
    by (simp del: of_nat_add of_nat_Suc add: n_def)
qed

text \<open>A run of the encoder over a list of calls, and the text it emits in all.\<close>

fun encode_run :: "EVP_ENCODE_CTX \<Rightarrow> bytes list \<Rightarrow> bytes" where
  "encode_run ctx [] = (let (_, out, n) = EVP_EncodeFinal ctx in take n out)"
| "encode_run ctx (c # cs) =
     (let (ctx, out, n) = EVP_EncodeUpdate ctx c in take n out @ encode_run ctx cs)"

lemma encode_run_lines:
  assumes "encoder_ok ctx" "length (b64_lines (pending ctx @ concat cs)) \<le> INT_MAX"
  shows "encode_run ctx cs = b64_lines (pending ctx @ concat cs) @
    b64_last_line (b64_rest (pending ctx @ concat cs))"
  using assms
proof (induction cs arbitrary: ctx)
  case Nil
  then have "length (pending ctx) < 48"
    by (simp add: length_pending encoder_ok_def pending_def)
  then show ?case
    using Nil by (simp add: EVP_EncodeFinal_last_line b64_short)
next
  case (Cons c cs)
  have app: "pending ctx @ concat (c # cs) = (pending ctx @ c) @ concat cs"
    by simp
  have "length (b64_lines (pending ctx @ c)) \<le> INT_MAX"
    using Cons.prems(2) unfolding app b64_append(1) [of "pending ctx @ c"] by simp
  then obtain ctx' where upd: "EVP_EncodeUpdate ctx c =
      (ctx', b64_lines (pending ctx @ c), length (b64_lines (pending ctx @ c)))"
    "encoder_ok ctx'" "pending ctx' = b64_rest (pending ctx @ c)"
    using EVP_EncodeUpdate_lines [OF Cons.prems(1), of c] by blast
  moreover have "length (b64_lines (pending ctx' @ concat cs)) \<le> INT_MAX"
    using Cons.prems(2) unfolding app b64_append(1) [of "pending ctx @ c"] upd(3) by simp
  ultimately show ?case
    using Cons.IH [of ctx'] unfolding app b64_append [of "pending ctx @ c"] by simp
qed

section \<open>The streaming decoder\<close>

text \<open>The decoder reads character by character, so cutting its input changes nothing.\<close>

lemma decode_update_loop_append:
  "decode_update_loop ctx out (xs @ ys) =
     (let (ctx', out', ok) = decode_update_loop ctx out xs
      in if ok then decode_update_loop ctx' out' ys else (ctx', out', False))"
proof (induction xs arbitrary: ctx out)
  case (Cons c xs)
  then show ?case
    by (auto simp: Let_def split: option.splits)
qed simp

lemma decode_update_loop_out:
  "decode_update_loop ctx (p @ out) xs = (case decode_update_loop ctx out xs of
     (ctx', out', ok) \<Rightarrow> (ctx', p @ out', ok))"
proof (induction xs arbitrary: ctx out)
  case (Cons c xs)
  show ?case
    by (simp only: decode_update_loop.simps Let_def append_assoc Cons.IH split: if_split option.split) simp
qed simp

text \<open>A context between two quads, before the end of the data.\<close>

definition decoder_ready :: "EVP_ENCODE_CTX \<Rightarrow> bool" where
  "decoder_ready ctx \<longleftrightarrow> length (data ctx) = 48 \<and> data_used ctx = 0 \<and> \<not> error_encountered ctx"

lemma decoder_ready_init [simp]: "decoder_ready EVP_DecodeInit" "\<not> eof_seen EVP_DecodeInit"
  by (simp_all add: decoder_ready_def EVP_DecodeInit_def)

definition b64_space :: "u8 \<Rightarrow> bool" where
  "b64_space c \<longleftrightarrow> c = 32 \<or> c = 9 \<or> c = 13 \<or> c = 10"

lemma not_space_simps [simp]:
  "\<not> b64_space c \<Longrightarrow> c \<noteq> 32" "\<not> b64_space c \<Longrightarrow> c \<noteq> 9" "\<not> b64_space c \<Longrightarrow> c \<noteq> 13" "\<not> b64_space c \<Longrightarrow> c \<noteq> 10"
  by (auto simp: b64_space_def)

lemma decode_quad_step:
  assumes "decoder_ready ctx" "\<not> eof_seen ctx"
    and "\<not> b64_space c1" "\<not> b64_space c2" "\<not> b64_space c3" "\<not> b64_space c4"
    and "base64_decode_quad c1 c2 c3 c4 = Some q"
  shows "\<exists>ctx'. decode_update_loop ctx out (c1 # c2 # c3 # c4 # rest) =
      decode_update_loop ctx' (out @ q) rest \<and>
    decoder_ready ctx' \<and> (eof_seen ctx' \<longleftrightarrow> length q < 3)"
  using assms by (auto simp: decoder_ready_def Let_def eval_nat_numeral)

lemma conv_not_b64_space [simp]: "\<not> b64_space (conv_bin2ascii x)" "\<not> b64_space 61"
  by (simp_all add: b64_space_def)

text \<open>
  Decoding the text of a block: the block comes out, and the end of the data is seen exactly
  when the text was padded.
\<close>

lemma decode_update_loop_text:
  assumes "decoder_ready ctx" "\<not> eof_seen ctx"
  shows "\<exists>ctx'. decode_update_loop ctx out (b64_text xs @ rest) =
      decode_update_loop ctx' (out @ xs) rest \<and>
    decoder_ready ctx' \<and> (eof_seen ctx' \<longleftrightarrow> length xs mod 3 \<noteq> 0)"
  using assms
proof (induction xs arbitrary: ctx out rule: encode_block_loop.induct)
  case (2 a b c xs)
  obtain ctx' where step: "decode_update_loop ctx out (b64_text (a # b # c # xs) @ rest) =
      decode_update_loop ctx' (out @ [a, b, c]) (b64_text xs @ rest)"
    "decoder_ready ctx'" "\<not> eof_seen ctx'"
    using decode_quad_step [OF "2.prems" _ _ _ _ quad_roundtrip_3 [of a b c]]
    by (fastforce simp: Let_def case_prod_unfold simp del: drop_bit_or)
  have "\<exists>ctx''. decode_update_loop ctx' (out @ [a, b, c]) (b64_text xs @ rest) =
      decode_update_loop ctx'' ((out @ [a, b, c]) @ xs) rest \<and>
    decoder_ready ctx'' \<and> (eof_seen ctx'' \<longleftrightarrow> length xs mod 3 \<noteq> 0)"
    using "2.IH" [OF refl step(2,3), of "out @ [a, b, c]"] step by simp
  moreover have "length (a # b # c # xs) mod 3 = length xs mod 3"
    by simp
  ultimately show ?case
    unfolding step(1) by simp
next
  case (3 a b)
  then show ?case
    using decode_quad_step [OF 3 _ _ _ _ quad_roundtrip_2 [of a b]]
    by (simp add: Let_def del: drop_bit_or)
next
  case (4 a)
  then show ?case
    using decode_quad_step [OF 4 _ _ _ _ quad_roundtrip_1 [of a]]
    by (simp add: Let_def del: drop_bit_or)
qed auto

lemma decode_update_loop_lines:
  assumes "decoder_ready ctx" "\<not> eof_seen ctx"
  shows "\<exists>ctx'. decode_update_loop ctx out (b64_lines xs @ rest) =
      decode_update_loop ctx' (out @ take (48 * (length xs div 48)) xs) rest \<and>
    decoder_ready ctx' \<and> \<not> eof_seen ctx'"
  using assms
proof (induction xs arbitrary: ctx out rule: b64_lines.induct)
  case (1 xs)
  show ?case
  proof (cases "48 \<le> length xs")
    case False
    then show ?thesis
      using "1.prems" by (auto simp: b64_short)
  next
    case True
    obtain ctx' where first: "decode_update_loop ctx out (b64_text (take 48 xs) @ [10] @ b64_lines (drop 48 xs) @ rest) =
        decode_update_loop ctx' (out @ take 48 xs) ([10] @ b64_lines (drop 48 xs) @ rest)"
      "decoder_ready ctx'" "\<not> eof_seen ctx'"
      using decode_update_loop_text [OF "1.prems", of out "take 48 xs" "[10] @ b64_lines (drop 48 xs) @ rest"]
        True by auto
    have "take (48 * (length xs div 48)) xs =
        take 48 xs @ take (48 * (length (drop 48 xs) div 48)) (drop 48 xs)"
      using True by (simp add: le_div_geq take_add)
    then show ?thesis
      using True "1.IH" [OF True first(2,3), of "out @ take 48 xs"] first
      by (simp add: b64_line)
  qed
qed

lemma b64_rest_split: "take (48 * (length xs div 48)) xs @ b64_rest xs = xs"
  by (simp add: b64_rest_def)

lemma decode_update_loop_all:
  assumes "decoder_ready ctx" "\<not> eof_seen ctx"
  shows "\<exists>ctx'. decode_update_loop ctx [] (b64_lines xs @ b64_last_line (b64_rest xs)) = (ctx', xs, True) \<and>
    decoder_ready ctx'"
proof -
  obtain ctx1 where c1: "decode_update_loop ctx [] (b64_lines xs @ b64_last_line (b64_rest xs)) =
      decode_update_loop ctx1 (take (48 * (length xs div 48)) xs) (b64_last_line (b64_rest xs))"
    "decoder_ready ctx1" "\<not> eof_seen ctx1"
    using decode_update_loop_lines [OF assms, of "[]" xs] by auto
  obtain ctx2 where "decode_update_loop ctx1 (take (48 * (length xs div 48)) xs) (b64_text (b64_rest xs) @ [10]) =
      decode_update_loop ctx2 xs [10]" "decoder_ready ctx2"
    using decode_update_loop_text [OF c1(2,3), of "take (48 * (length xs div 48)) xs" "b64_rest xs" "[10]"]
    unfolding b64_rest_split by auto
  then show ?thesis
    using c1 b64_rest_split [of xs] by (auto simp: b64_last_line_def)
qed

text \<open>
  A run of the decoder over a list of calls: \<open>None\<close> when a call or \<open>EVP_DecodeFinal\<close> returns -1.
\<close>

fun decode_run :: "EVP_ENCODE_CTX \<Rightarrow> bytes list \<Rightarrow> bytes option" where
  "decode_run ctx [] = (if fst (EVP_DecodeFinal ctx) < 0 then None else Some [])"
| "decode_run ctx (c # cs) =
     (let (ret, n, out, ctx) = EVP_DecodeUpdate ctx c
      in if ret < 0 then None else map_option ((@) (take n out)) (decode_run ctx cs))"

text \<open>A character the decoder goes on after: what it does to the context.\<close>

lemma decode_update_loop_step:
  "\<exists>ctx' q. error_encountered ctx' = error_encountered ctx \<and>
     decode_update_loop ctx out (c # xs) = decode_update_loop ctx' (out @ q) xs"
  if ok: "snd (snd (decode_update_loop ctx out (c # xs)))"
proof (cases "c = 32 \<or> c = 9 \<or> c = 13 \<or> c = 10")
  case True
  then have "decode_update_loop ctx out (c # xs) = decode_update_loop ctx (out @ []) xs"
    by auto
  then show ?thesis by blast
next
  case False
  let ?c = "ctx\<lparr>data := (data ctx)[data_used ctx := c], data_used := data_used ctx + 1\<rparr>"
  have ne: "\<not> eof_seen ctx"
    using ok False by auto
  show ?thesis
  proof (cases "data_used ctx + 1 = 4")
    case no: False
    then have "decode_update_loop ctx out (c # xs) = decode_update_loop ?c (out @ []) xs"
      using ne False by simp
    then show ?thesis
      by (intro exI [of _ ?c] exI [of _ "[]"]) simp
  next
    case True
    obtain q where q: "base64_decode_quad (data ?c ! 0) (data ?c ! 1) (data ?c ! 2) (data ?c ! 3) = Some q"
    proof (cases "base64_decode_quad (data ?c ! 0) (data ?c ! 1) (data ?c ! 2) (data ?c ! 3)")
      case None
      then have "\<not> snd (snd (decode_update_loop ctx out (c # xs)))"
        using True ne False by (simp only: decode_update_loop.simps Let_def if_False if_True) simp
      then show ?thesis using ok by simp
    qed blast
    define c' where "c' = (if length q < 3 then ?c\<lparr>data_used := 0, eof_seen := True\<rparr> else ?c\<lparr>data_used := 0\<rparr>)"
    have "decode_update_loop ctx out (c # xs) = decode_update_loop c' (out @ q) xs"
      using True ne False q by (simp add: c'_def)
    then show ?thesis
      by (intro exI [of _ c'] exI [of _ q]) (simp add: c'_def)
  qed
qed

lemma decode_update_loop_error:
  "snd (snd (decode_update_loop ctx out xs)) \<longrightarrow>
     error_encountered (fst (decode_update_loop ctx out xs)) = error_encountered ctx"
proof (induction xs arbitrary: ctx out)
  case (Cons c xs)
  show ?case
    using decode_update_loop_step [of ctx out c xs] Cons.IH by metis
qed simp

lemma decode_run_loop:
  assumes "\<not> error_encountered ctx" "length out \<le> INT_MAX"
    and "decode_update_loop ctx [] (concat cs) = (ctx', out, True)" "data_used ctx' = 0"
  shows "decode_run ctx cs = Some out"
  using assms
proof (induction cs arbitrary: ctx out)
  case Nil
  then show ?case by (simp add: EVP_DecodeFinal_def)
next
  case (Cons c cs)
  obtain ctx1 out1 ok1 where c1: "decode_update_loop ctx [] c = (ctx1, out1, ok1)"
    by (cases "decode_update_loop ctx [] c") auto
  have ok1: "ok1" and all: "decode_update_loop ctx1 out1 (concat cs) = (ctx', out, True)"
    using Cons.prems(3) c1 by (auto simp: decode_update_loop_append split: if_splits)
  obtain out2 where c2: "decode_update_loop ctx1 [] (concat cs) = (ctx', out2, True)" "out = out1 @ out2"
    using all decode_update_loop_out [of ctx1 out1 "[]"] by (auto split: prod.splits)
  have err: "\<not> error_encountered ctx1"
    using decode_update_loop_error [of ctx "[]" c] c1 ok1 Cons.prems(1) by simp
  have "EVP_DecodeUpdate ctx c = (if eof_seen ctx1 then 0 else 1, length out1, out1, ctx1)"
    using Cons.prems(1,2) c1 c2 ok1 by (simp add: EVP_DecodeUpdate_def)
  then show ?case
    using Cons.IH [OF err _ c2(1) Cons.prems(4)] Cons.prems(2) c2(2) by simp
qed

lemma length_quad: "base64_decode_quad a b c d = Some q \<Longrightarrow> length q \<le> 3"
  unfolding base64_decode_quad_def Let_def
  by (simp only: split: if_split_asm) (auto simp only: option.inject option.distinct list.size)

lemma decode_after_eof:
  "eof_seen ctx \<Longrightarrow> \<not> b64_space c \<Longrightarrow>
     decode_update_loop ctx out (c # xs) = (ctx\<lparr>error_encountered := True\<rparr>, out, False)"
  by simp

lemma decode_quad_fail:
  assumes "decoder_ready ctx" "\<not> eof_seen ctx"
    and "\<not> b64_space c1" "\<not> b64_space c2" "\<not> b64_space c3" "\<not> b64_space c4"
    and "base64_decode_quad c1 c2 c3 c4 = None"
  shows "\<exists>ctx'. decode_update_loop ctx out (c1 # c2 # c3 # c4 # rest) = (ctx', out, False)"
  using assms by (auto simp: decoder_ready_def Let_def eval_nat_numeral)

declare decode_update_loop.simps(2) [simp del]

text \<open>
  Without white space, and on a multiple of four characters, the streaming and the one-shot
  decoder loops agree.
\<close>

lemma decode_loops_agree:
  assumes "decoder_ready ctx" "\<not> eof_seen ctx" "\<forall>c \<in> set s. \<not> b64_space c" "length s mod 4 = 0"
  shows "\<exists>ctx' out'. decode_update_loop ctx out s = (ctx', out', snd (decode_base64_loop out s)) \<and>
    (snd (decode_base64_loop out s) \<longrightarrow> out' = fst (decode_base64_loop out s) \<and> data_used ctx' = 0)"
  using assms
proof (induction out s arbitrary: ctx rule: decode_base64_loop.induct)
  case (1 out a b c d rest)
  have ns: "\<not> b64_space a" "\<not> b64_space b" "\<not> b64_space c" "\<not> b64_space d"
    using "1.prems"(3) by simp_all
  show ?case
  proof (cases "base64_decode_quad a b c d")
    case None
    obtain ctx' where "decode_update_loop ctx out (a # b # c # d # rest) = (ctx', out, False)"
      using decode_quad_fail [OF "1.prems"(1,2) ns None, of out rest] by blast
    then show ?thesis
      using None by simp
  next
    case (Some q)
    obtain ctx' where step: "decode_update_loop ctx out (a # b # c # d # rest) =
        decode_update_loop ctx' (out @ q) rest" "decoder_ready ctx'" "eof_seen ctx' \<longleftrightarrow> length q < 3"
      using decode_quad_step [OF "1.prems"(1,2) ns Some, of out rest] by blast
    have q3: "length q \<noteq> 3 \<longleftrightarrow> length q < 3"
      using length_quad [OF Some] by linarith
    have rest: "\<forall>c \<in> set rest. \<not> b64_space c" "length rest mod 4 = 0"
      using "1.prems"(3) mod_add_self1 [of 4 "length rest"] "1.prems"(4) by simp_all
    show ?thesis
    proof (cases "length q < 3 \<and> rest \<noteq> []")
      case True
      then obtain r rs where "rest = r # rs"
        by (cases rest) auto
      then have "\<not> b64_space r"
        using rest(1) by simp
      have "decode_update_loop ctx' (out @ q) rest = (ctx'\<lparr>error_encountered := True\<rparr>, out @ q, False)"
        unfolding \<open>rest = r # rs\<close> using True step(3) \<open>\<not> b64_space r\<close>
        by (intro decode_after_eof) blast+
      then show ?thesis
        using True step(1) Some q3 by simp
    next
      case False
      show ?thesis
      proof (cases "length q < 3")
        case True
        then have "rest = []" using False by simp
        then show ?thesis
          using step Some by (simp add: decoder_ready_def)
      next
        case eof: False
        then have "\<not> eof_seen ctx'" and "\<not> (length q \<noteq> 3 \<and> rest \<noteq> [])"
          using step(3) False q3 by auto
        then have "decode_base64_loop out (a # b # c # d # rest) = decode_base64_loop (out @ q) rest"
          using Some by auto
        then show ?thesis
          using "1.IH" [OF Some \<open>\<not> (length q \<noteq> 3 \<and> rest \<noteq> [])\<close> step(2) \<open>\<not> eof_seen ctx'\<close> rest]
          unfolding step(1) by simp
      qed
    qed
  qed
qed (simp_all add: decoder_ready_def)

lemma length_decode_base64_loop:
  "length (fst (decode_base64_loop out s)) \<le> length out + length s"
proof (induction out s rule: decode_base64_loop.induct)
  case (1 out a b c d rest)
  then show ?case
    by (auto split: option.splits dest: length_quad)
qed simp_all

section \<open>Properties\<close>

text \<open>
  However the input is cut into \<open>EVP_EncodeUpdate\<close> calls, the text that the calls and
  \<open>EVP_EncodeFinal\<close> emit is the base64 text of the whole input in lines of 48 input bytes
  (64 characters and a newline), the last line shorter.  The bound keeps \<open>*out_len\<close> in an \<open>int\<close>;
  beyond it \<open>EVP_EncodeUpdate\<close> reports 0.
\<close>

lemma encode_run_text:
  assumes "length (b64_lines (concat cs)) \<le> INT_MAX"
  shows "encode_run EVP_EncodeInit cs = b64_lines (concat cs) @ b64_last_line (b64_rest (concat cs))"
  using encode_run_lines [of EVP_EncodeInit cs] assms by simp

lemma encode_run_text_witness:
  "encode_run EVP_EncodeInit [[102], [111, 111]] = [90, 109, 57, 118, 10]"
  using encode_run_text [of "[[102], [111, 111]]"]
  by (simp add: b64_short b64_last_line_def INT_MAX_def conv_bin2ascii_eq sextet_char_def)

text \<open>
  Claim C27: the streaming decoder, fed with the text of the streaming encoder cut into calls in
  any way, succeeds and returns the input of the encoder.
\<close>

theorem decode_run_encode_run:
  assumes "concat ds = encode_run EVP_EncodeInit cs"
    and "length (b64_lines (concat cs)) \<le> INT_MAX" "length (concat cs) \<le> INT_MAX"
  shows "decode_run EVP_DecodeInit ds = Some (concat cs)"
proof -
  obtain ctx where "decode_update_loop EVP_DecodeInit [] (concat ds) = (ctx, concat cs, True)"
    "decoder_ready ctx"
    using decode_update_loop_all [of EVP_DecodeInit "concat cs"] assms(1)
      encode_run_lines [of EVP_EncodeInit cs] assms(2) by auto
  then show ?thesis
    using decode_run_loop [of EVP_DecodeInit "concat cs" ds ctx] assms(3)
    by (simp add: decoder_ready_def EVP_DecodeInit_def)
qed

lemma decode_run_encode_run_witness:
  "decode_run EVP_DecodeInit [[90, 109], [57, 118, 10]] = Some [102, 111, 111]"
proof -
  have "encode_run EVP_EncodeInit [[102], [111, 111]] = [90, 109, 57, 118, 10]"
    using encode_run_lines [of EVP_EncodeInit "[[102], [111, 111]]"]
    by (simp add: b64_short b64_last_line_def INT_MAX_def conv_bin2ascii_eq sextet_char_def del: encode_run.simps)
  then have "decode_run EVP_DecodeInit [[90, 109], [57, 118, 10]] = Some (concat [[102], [111, 111]])"
    by (intro decode_run_encode_run) (simp_all add: b64_short INT_MAX_def del: encode_run.simps)
  then show ?thesis by simp
qed

text \<open>
  On text without white space whose length is a multiple of four, the streaming decoder
  and the one-shot decoder accept the same texts and decode them to the same bytes.
\<close>

lemma decode_run_DecodeBase64:
  assumes "\<forall>c \<in> set s. \<not> b64_space c" "length s mod 4 = 0" "length s \<le> INT_MAX"
    and "3 * (length s div 4) \<le> unat max_out"
  shows "decode_run EVP_DecodeInit [s] =
    (case EVP_DecodeBase64 max_out s of (ok, _, out) \<Rightarrow> if ok then Some out else None)"
proof -
  obtain k where k: "length s = 4 * k"
    using assms(2) by blast
  have "unat (of_nat (3 * k) :: usize) = 3 * k"
    using k assms(3) by (intro unat_of_nat_small) (simp add: INT_MAX_def)
  then have "\<not> max_out < of_nat (3 * k)"
    using k assms(4) by (simp only: word_less_nat_alt not_less) simp
  moreover have "EVP_DecodedLength (of_nat (length s)) = Some (of_nat (3 * k))"
    using EVP_DecodedLength_mult [of k] k assms(3) by (simp add: INT_MAX_def del: of_nat_mult)
  moreover obtain ctx' out' where loop: "decode_update_loop EVP_DecodeInit [] s =
      (ctx', out', snd (decode_base64_loop [] s))"
    "snd (decode_base64_loop [] s) \<longrightarrow> out' = fst (decode_base64_loop [] s) \<and> data_used ctx' = 0"
    using decode_loops_agree [of EVP_DecodeInit s "[]"] assms(1,2) by auto
  moreover have "length (fst (decode_base64_loop [] s)) \<le> INT_MAX"
    using length_decode_base64_loop [of "[]" s] assms(3) by simp
  moreover have "snd (decode_base64_loop [] s) \<longrightarrow> error_encountered ctx' = False"
    using decode_update_loop_error [of EVP_DecodeInit "[]" s] loop(1) by (simp add: EVP_DecodeInit_def)
  ultimately show ?thesis
    using k by (auto simp: EVP_DecodeBase64_def EVP_DecodeUpdate_def EVP_DecodeFinal_def EVP_DecodeInit_def
        split: prod.splits simp del: of_nat_mult)
qed

lemma decode_run_DecodeBase64_witness:
  "decode_run EVP_DecodeInit [[90, 103, 61, 61]] =
    (case EVP_DecodeBase64 3 [90, 103, 61, 61] of (ok, _, out) \<Rightarrow> if ok then Some out else None)"
proof -
  have "\<forall>c \<in> set [90, 103, 61, 61]. \<not> b64_space c"
    by (simp add: b64_space_def del: not_space_simps)
  moreover have "length [90, 103, 61, 61 :: u8] mod 4 = 0" "length [90, 103, 61, 61 :: u8] \<le> INT_MAX"
    "3 * (length [90, 103, 61, 61 :: u8] div 4) \<le> unat (3 :: usize)"
    by (simp_all add: INT_MAX_def)
  ultimately show ?thesis
    by (rule decode_run_DecodeBase64)
qed

end
