(* ===== verification/Mem.thy ===== *)
theory Mem
  imports Prelude
begin

text \<open>
  \<open>crypto/mem.c\<close> (BoringSSL): the allocator that keeps the size of a block in front of it, the
  comparison and hash of memory, and the string functions.

  The system's \<open>malloc\<close> is a parameter: \<open>None\<close> is the null pointer, and otherwise the result gives
  the (uninitialised) contents of the new block byte by byte, so that a block of \<open>n\<close> bytes can
  hold anything.  A C string is the list of its characters; the terminating NUL is the end of the
  list or the first zero in it.
\<close>

section \<open>The allocator\<close>

type_synonym system_malloc = "usize \<Rightarrow> (nat \<Rightarrow> u8) option"

definition sys_block :: "(nat \<Rightarrow> u8) \<Rightarrow> usize \<Rightarrow> bytes" where
  "sys_block contents n = map contents [0..<unat n]"

text \<open>
  A pointer returned by \<open>OPENSSL_malloc\<close>: the \<open>size_t\<close> stored in the eight bytes in front of it,
  and the bytes from it to the end of the system's block.
\<close>

record heap_ptr =
  size_prefix :: usize
  mem :: bytes

definition OPENSSL_MALLOC_PREFIX :: usize where
  "OPENSSL_MALLOC_PREFIX = 8"

definition OPENSSL_malloc :: "system_malloc \<Rightarrow> usize \<Rightarrow> heap_ptr option" where
  "OPENSSL_malloc sys sz =
     (case sys (sz + OPENSSL_MALLOC_PREFIX) of
        None \<Rightarrow> None
      | Some contents \<Rightarrow>
          Some \<lparr>size_prefix = sz,
                mem = drop (unat OPENSSL_MALLOC_PREFIX) (sys_block contents (sz + OPENSSL_MALLOC_PREFIX))\<rparr>)"

text \<open>\<open>OPENSSL_cleanse\<close>: the block after \<open>len\<close> of its bytes have been overwritten.\<close>

definition OPENSSL_cleanse :: "bytes \<Rightarrow> usize \<Rightarrow> bytes" where
  "OPENSSL_cleanse blk len = mem_write blk 0 (replicate (unat len) 0)"

text \<open>\<open>OPENSSL_free\<close>: the system block as it is handed back to \<open>free\<close>.\<close>

definition OPENSSL_free :: "heap_ptr option \<Rightarrow> bytes option" where
  "OPENSSL_free orig =
     (case orig of
        None \<Rightarrow> None
      | Some p \<Rightarrow>
          let sz = size_prefix p;
              blk = le_bytes (unat OPENSSL_MALLOC_PREFIX) (unat sz) @ mem p
          in Some (OPENSSL_cleanse blk (sz + OPENSSL_MALLOC_PREFIX)))"

text \<open>
  \<open>OPENSSL_realloc\<close>; the old block is freed when the call succeeds, and stays when it does not.
\<close>

definition OPENSSL_realloc :: "system_malloc \<Rightarrow> heap_ptr option \<Rightarrow> usize \<Rightarrow> heap_ptr option" where
  "OPENSSL_realloc sys orig new_size =
     (case orig of
        None \<Rightarrow> OPENSSL_malloc sys new_size
      | Some p \<Rightarrow>
          let old_size = size_prefix p
          in case OPENSSL_malloc sys new_size of
               None \<Rightarrow> None
             | Some ret \<Rightarrow>
                 let to_copy = new_size;
                     to_copy = (if old_size < to_copy then old_size else to_copy)
                 in Some (ret\<lparr>mem := mem_write (mem ret) 0 (take (unat to_copy) (mem p))\<rparr>))"

section \<open>Comparing and hashing\<close>

text \<open>\<open>CRYPTO_memcmp\<close> of the first \<open>len\<close> bytes, as an \<open>int\<close>.\<close>

definition CRYPTO_memcmp :: "bytes \<Rightarrow> bytes \<Rightarrow> usize \<Rightarrow> int" where
  "CRYPTO_memcmp in_a in_b len =
     uint (foldl (\<lambda>x i. x OR (in_a ! i XOR in_b ! i)) (0 :: u8) [0..<unat len])"

definition OPENSSL_hash32 :: "bytes \<Rightarrow> u32" where
  "OPENSSL_hash32 inp = foldl (\<lambda>h b. (h XOR ucast b) * 16777619) 2166136261 inp"

section \<open>Strings\<close>

fun OPENSSL_strnlen :: "bytes \<Rightarrow> nat \<Rightarrow> nat" where
  "OPENSSL_strnlen s 0 = 0"
| "OPENSSL_strnlen [] (Suc len) = 0"
| "OPENSSL_strnlen (c # s) (Suc len) = (if c = 0 then 0 else Suc (OPENSSL_strnlen s len))"

definition strlen :: "bytes \<Rightarrow> nat" where
  "strlen s = length (takeWhile (\<lambda>c. c \<noteq> 0) s)"

definition OPENSSL_strdup :: "system_malloc \<Rightarrow> bytes \<Rightarrow> heap_ptr option" where
  "OPENSSL_strdup sys s =
     (let len = of_nat (strlen s) + 1
      in case OPENSSL_malloc sys len of
           None \<Rightarrow> None
         | Some ret \<Rightarrow> Some (ret\<lparr>mem := mem_write (mem ret) 0 (take (unat len) (s @ [0]))\<rparr>))"

definition OPENSSL_tolower :: "int \<Rightarrow> int" where
  "OPENSSL_tolower c = (if c \<ge> 65 \<and> c \<le> 90 then c + (97 - 65) else c)"

text \<open>
  \<open>char\<close> is signed on the targets of the application.  The end of a list is its NUL.
\<close>

definition str_char :: "bytes \<Rightarrow> int" where
  "str_char s = (case s of [] \<Rightarrow> 0 | c # _ \<Rightarrow> sint c)"

lemma tolower_zero [simp]: "OPENSSL_tolower c = 0 \<longleftrightarrow> c = 0"
  by (auto simp: OPENSSL_tolower_def)

function OPENSSL_strcasecmp :: "bytes \<Rightarrow> bytes \<Rightarrow> int" where
  "OPENSSL_strcasecmp a b =
     (let aa = OPENSSL_tolower (str_char a); bb = OPENSSL_tolower (str_char b)
      in if aa < bb then - 1 else if aa > bb then 1 else if aa = 0 then 0
         else OPENSSL_strcasecmp (tl a) (tl b))"
  by auto

termination
  by (relation "measure (\<lambda>(a, b). length a)") (auto simp: str_char_def split: list.splits)

declare OPENSSL_strcasecmp.simps [simp del]

fun OPENSSL_strncasecmp :: "bytes \<Rightarrow> bytes \<Rightarrow> nat \<Rightarrow> int" where
  "OPENSSL_strncasecmp a b 0 = 0"
| "OPENSSL_strncasecmp a b (Suc n) =
     (let aa = OPENSSL_tolower (str_char a); bb = OPENSSL_tolower (str_char b)
      in if aa < bb then - 1 else if aa > bb then 1 else if aa = 0 then 0
         else OPENSSL_strncasecmp (tl a) (tl b) n)"

section \<open>What an allocator promises to the code that grows buffers with it\<close>

text \<open>
  The interface the growing buffers of the library rest on: \<open>max_size\<close> bounds the sizes for which
  the block returned has the size asked for, and a successful \<open>realloc\<close> keeps the contents.
\<close>

locale allocator =
  fixes alloc :: "usize \<Rightarrow> 'p option"
    and realloc :: "'p option \<Rightarrow> usize \<Rightarrow> 'p option"
    and contents :: "'p \<Rightarrow> bytes"
    and sized :: "'p \<Rightarrow> bool"
    and max_size :: usize
  assumes alloc_sized: "\<lbrakk>alloc n = Some p; n \<le> max_size\<rbrakk> \<Longrightarrow> sized p \<and> length (contents p) = unat n"
    and realloc_None: "realloc None n = alloc n"
    and realloc_keeps: "\<lbrakk>realloc (Some p) n = Some q; sized p; n \<le> max_size\<rbrakk> \<Longrightarrow>
      sized q \<and> length (contents q) = unat n \<and>
      take (length (contents p)) (contents q) = take (unat n) (contents p)"
begin

text \<open>The contents of a possibly null pointer.\<close>

definition block_of :: "'p option \<Rightarrow> bytes" where
  "block_of p = (case p of None \<Rightarrow> [] | Some p \<Rightarrow> contents p)"

definition sized_opt :: "'p option \<Rightarrow> bool" where
  "sized_opt p = (case p of None \<Rightarrow> True | Some p \<Rightarrow> sized p)"

lemma block_of_simps [simp]:
  "block_of None = []" "block_of (Some p) = contents p"
  "sized_opt None" "sized_opt (Some p) = sized p"
  by (simp_all add: block_of_def sized_opt_def)

text \<open>Growing: the first \<open>used\<close> bytes stay, for every number of bytes the old block holds.\<close>

lemma realloc_grow:
  assumes "realloc p n = Some q" "sized_opt p" "n \<le> max_size"
    and "used \<le> length (block_of p)" "used \<le> unat n"
  shows "sized q" "length (contents q) = unat n" "take used (contents q) = take used (block_of p)"
proof -
  have "sized q \<and> length (contents q) = unat n \<and> take used (contents q) = take used (block_of p)"
  proof (cases p)
    case None
    then show ?thesis
      using assms alloc_sized [of n q] by (simp add: realloc_None)
  next
    case (Some r)
    note keeps = realloc_keeps [of r n q]
    have "take used (contents q) = take used (take (length (contents r)) (contents q))"
      using assms Some by (simp add: min_absorb1)
    also have "\<dots> = take used (contents r)"
      using keeps assms Some by (simp add: min_absorb1)
    finally show ?thesis
      using keeps assms Some by simp
  qed
  then show "sized q" "length (contents q) = unat n" "take used (contents q) = take used (block_of p)"
    by simp_all
qed

end

definition heap_ok :: "heap_ptr \<Rightarrow> bool" where
  "heap_ok p \<longleftrightarrow> length (mem p) = unat (size_prefix p)"

text \<open>\<open>SIZE_MAX - OPENSSL_MALLOC_PREFIX\<close>: beyond it, the addition in \<open>OPENSSL_malloc\<close> wraps.\<close>

definition malloc_max :: usize where
  "malloc_max = - 9"

lemma unat_add_prefix: "n \<le> malloc_max \<Longrightarrow> unat (n + OPENSSL_MALLOC_PREFIX) = unat n + 8"
  using unat_add64 [of n 8] unat_lt64 [of n]
  by (simp add: malloc_max_def OPENSSL_MALLOC_PREFIX_def word_le_nat_alt)

lemma OPENSSL_malloc_ok:
  assumes "OPENSSL_malloc sys n = Some p" "n \<le> malloc_max"
  shows "heap_ok p \<and> size_prefix p = n \<and> length (mem p) = unat n"
  using assms unat_add_prefix [OF assms(2)]
  by (auto simp: OPENSSL_malloc_def heap_ok_def sys_block_def OPENSSL_MALLOC_PREFIX_def
      split: option.splits)

lemma OPENSSL_realloc_ok:
  assumes "OPENSSL_realloc sys (Some p) n = Some q" "heap_ok p" "n \<le> malloc_max"
  shows "heap_ok q \<and> size_prefix q = n \<and> length (mem q) = unat n \<and>
    take (length (mem p)) (mem q) = take (unat n) (mem p)"
proof -
  obtain ret where ret: "OPENSSL_malloc sys n = Some ret"
    and q: "q = ret\<lparr>mem := mem_write (mem ret) 0
      (take (unat (if size_prefix p < n then size_prefix p else n)) (mem p))\<rparr>"
    using assms(1) by (auto simp: OPENSSL_realloc_def Let_def split: option.splits)
  have r: "size_prefix ret = n" "length (mem ret) = unat n" "length (mem p) = unat (size_prefix p)"
    using OPENSSL_malloc_ok [OF ret assms(3)] assms(2) by (auto simp: heap_ok_def)
  show ?thesis
  proof (cases "size_prefix p < n")
    case True
    then have "unat (size_prefix p) \<le> unat n"
      by (simp add: word_less_nat_alt)
    then show ?thesis
      using True q r by (simp add: heap_ok_def mem_write_def)
  next
    case False
    then have "unat n \<le> unat (size_prefix p)"
      by (simp add: word_less_nat_alt)
    then show ?thesis
      using False q r by (simp add: heap_ok_def mem_write_def)
  qed
qed

text \<open>\<open>mem.c\<close> provides the interface, for every behaviour of the system's \<open>malloc\<close>.\<close>

interpretation openssl: allocator "OPENSSL_malloc sys" "OPENSSL_realloc sys" mem heap_ok malloc_max
  for sys :: system_malloc
proof
  fix n p
  assume "OPENSSL_malloc sys n = Some p" "n \<le> malloc_max"
  then show "heap_ok p \<and> length (mem p) = unat n"
    using OPENSSL_malloc_ok by blast
next
  fix n
  show "OPENSSL_realloc sys None n = OPENSSL_malloc sys n"
    by (simp add: OPENSSL_realloc_def)
next
  fix p n q
  assume "OPENSSL_realloc sys (Some p) n = Some q" "heap_ok p" "n \<le> malloc_max"
  then show "heap_ok q \<and> length (mem q) = unat n \<and> take (length (mem p)) (mem q) = take (unat n) (mem p)"
    using OPENSSL_realloc_ok by blast
qed

section \<open>Comparison by accumulated differences\<close>

lemma foldl_or_zero:
  "foldl (\<lambda>x i. x OR f i) (a :: u8) is = 0 \<longleftrightarrow> a = 0 \<and> (\<forall>i \<in> set is. f i = 0)"
proof (induction "is" arbitrary: a)
  case (Cons i "is")
  have "a OR f i = 0 \<longleftrightarrow> a = 0 \<and> f i = 0"
    by (auto simp: bit_eq_iff bit_or_iff)
  then show ?case
    using Cons by simp
qed simp

section \<open>Case-insensitive comparison\<close>

definition cstr :: "bytes \<Rightarrow> bytes" where
  "cstr s = takeWhile (\<lambda>c. c \<noteq> 0) s"

definition lower :: "bytes \<Rightarrow> int list" where
  "lower s = map (OPENSSL_tolower \<circ> sint) (cstr s)"

lemma sint_zero [simp]: "sint (c :: u8) = 0 \<longleftrightarrow> c = 0"
  by (metis signed_0 signed_word_eqI)

lemma str_char_zero: "str_char s = 0 \<longleftrightarrow> lower s = []"
  by (auto simp: str_char_def lower_def cstr_def split: list.splits)

lemma lower_Cons:
  assumes "str_char s \<noteq> 0"
  shows "lower s = OPENSSL_tolower (str_char s) # lower (tl s)"
  using assms by (auto simp: str_char_def lower_def cstr_def split: list.splits)

lemma strcasecmp_zero_lower: "OPENSSL_strcasecmp a b = 0 \<longleftrightarrow> lower a = lower b"
proof (induction a b rule: OPENSSL_strcasecmp.induct)
  case (1 a b)
  let ?aa = "OPENSSL_tolower (str_char a)" and ?bb = "OPENSSL_tolower (str_char b)"
  consider "?aa < ?bb" | "?bb < ?aa" | "?aa = ?bb" "?aa = 0" | "?aa = ?bb" "?aa \<noteq> 0"
    by linarith
  then show ?case
  proof cases
    case 1
    then show ?thesis
      using str_char_zero [of a] str_char_zero [of b] lower_Cons [of a] lower_Cons [of b]
      by (cases "str_char a = 0"; cases "str_char b = 0")
        (simp_all add: OPENSSL_strcasecmp.simps [of a b] Let_def)
  next
    case 2
    then show ?thesis
      using str_char_zero [of a] str_char_zero [of b] lower_Cons [of a] lower_Cons [of b]
      by (cases "str_char a = 0"; cases "str_char b = 0")
        (auto simp add: OPENSSL_strcasecmp.simps [of a b] Let_def)
  next
    case 3
    then show ?thesis
      using str_char_zero [of a] str_char_zero [of b]
      by (simp add: OPENSSL_strcasecmp.simps [of a b] Let_def)
  next
    case 4
    then have "OPENSSL_strcasecmp a b = OPENSSL_strcasecmp (tl a) (tl b)"
      by (simp add: OPENSSL_strcasecmp.simps [of a b] Let_def)
    moreover have "str_char a \<noteq> 0" "str_char b \<noteq> 0"
      using 4 tolower_zero by metis+
    ultimately show ?thesis
      using 4 "1.IH" lower_Cons [of a] lower_Cons [of b] by simp
  qed
qed

lemma strncasecmp_strcasecmp:
  "strlen a < n \<Longrightarrow> OPENSSL_strncasecmp a b n = OPENSSL_strcasecmp a b"
proof (induction a b n rule: OPENSSL_strncasecmp.induct)
  case (2 a b n)
  have "strlen (tl a) < n" if "str_char a \<noteq> 0"
    using 2(2) that by (auto simp: str_char_def strlen_def split: list.splits if_splits)
  then show ?case
    using 2(1) [OF refl refl]
    by (cases "OPENSSL_tolower (str_char a) = 0")
      (simp_all add: OPENSSL_strcasecmp.simps [of a b] Let_def not_less)
qed simp

section \<open>Properties\<close>

text \<open>
  \<open>CRYPTO_memcmp\<close> returns zero exactly when the two blocks agree on all \<open>len\<close> bytes.
\<close>

theorem CRYPTO_memcmp_zero:
  assumes "unat len \<le> length in_a" "unat len \<le> length in_b"
  shows "CRYPTO_memcmp in_a in_b len = 0 \<longleftrightarrow> take (unat len) in_a = take (unat len) in_b"
proof -
  have "CRYPTO_memcmp in_a in_b len = 0 \<longleftrightarrow> (\<forall>i < unat len. in_a ! i = in_b ! i)"
    by (auto simp: CRYPTO_memcmp_def uint_0_iff foldl_or_zero word_xor_eq_0)
  also have "\<dots> \<longleftrightarrow> take (unat len) in_a = take (unat len) in_b"
    using assms by (auto simp: list_eq_iff_nth_eq)
  finally show ?thesis .
qed

lemma CRYPTO_memcmp_zero_witness:
  "CRYPTO_memcmp [1, 2, 3] [1, 2, 4] 2 = 0 \<longleftrightarrow> take 2 [1, 2, 3 :: u8] = take 2 [1, 2, 4]"
  using CRYPTO_memcmp_zero [of 2 "[1, 2, 3]" "[1, 2, 4]"] by simp

text \<open>
  Claim C28: \<open>OPENSSL_free\<close> hands the system a block of which every byte, the size prefix included,
  is zero.
\<close>

theorem OPENSSL_free_cleanses:
  assumes "OPENSSL_malloc sys n = Some p" "n \<le> malloc_max" "length data = unat n"
  shows "OPENSSL_free (Some (p\<lparr>mem := data\<rparr>)) = Some (replicate (unat n + 8) 0)"
  using OPENSSL_malloc_ok [OF assms(1,2)] unat_add_prefix [OF assms(2)] assms(3)
  by (simp add: OPENSSL_free_def OPENSSL_cleanse_def mem_write_def OPENSSL_MALLOC_PREFIX_def)

lemma OPENSSL_free_cleanses_witness:
  "OPENSSL_free (Some (\<lparr>size_prefix = 2, mem = [7, 7]\<rparr>\<lparr>mem := [1, 9]\<rparr>)) = Some (replicate (unat (2 :: usize) + 8) 0)"
  by (rule OPENSSL_free_cleanses [of "\<lambda>_. Some (\<lambda>_. 7)"])
    (simp_all add: OPENSSL_malloc_def sys_block_def OPENSSL_MALLOC_PREFIX_def malloc_max_def
      word_le_nat_alt drop_map upt_conv_Cons)

text \<open>
  The addition of the prefix size in \<open>OPENSSL_malloc\<close> is unchecked: asked for \<open>SIZE_MAX\<close>
  bytes, it asks the system for seven, and returns a pointer that is recorded as having \<open>SIZE_MAX\<close>
  bytes and has none.
\<close>

lemma OPENSSL_malloc_wraps:
  "OPENSSL_malloc sys (- 1) = (case sys 7 of None \<Rightarrow> None | Some _ \<Rightarrow> Some \<lparr>size_prefix = - 1, mem = []\<rparr>)"
  by (simp add: OPENSSL_malloc_def OPENSSL_MALLOC_PREFIX_def sys_block_def split: option.splits)

text \<open>
  \<open>OPENSSL_strcasecmp\<close> returns zero exactly when the strings are equal after folding
  the ASCII letters, and \<open>OPENSSL_strncasecmp\<close> with a bound beyond the first string's length
  is \<open>OPENSSL_strcasecmp\<close>.
\<close>

theorem strcasecmp_zero:
  "(OPENSSL_strcasecmp a b = 0 \<longleftrightarrow> lower a = lower b) \<and>
   OPENSSL_strncasecmp a b (strlen a + 1 + k) = OPENSSL_strcasecmp a b"
  using strncasecmp_strcasecmp [of a "strlen a + 1 + k" b] strcasecmp_zero_lower by simp

end
