(* ===== verification/Buf.thy ===== *)
theory Buf
  imports Mem
begin

text \<open>
  \<open>crypto/buf/buf.c\<close> (BoringSSL): the growable buffer \<open>BUF_MEM\<close> and the bounded string copies.
  Growing rests on the \<open>allocator\<close> interface of \<open>Mem\<close>.  The error queue is not modelled: a call
  that pushes an error and fails is a call that fails.
\<close>

section \<open>The growable buffer\<close>

text \<open>\<open>struct buf_mem_st\<close> (\<open>include/openssl/buf.h\<close>).\<close>

record BUF_MEM =
  length_b :: usize
  data_b :: "heap_ptr option"
  max_b :: usize

text \<open>\<open>sizeof(BUF_MEM)\<close> is 24; the structure is zeroed.\<close>

definition BUF_MEM_new :: "system_malloc \<Rightarrow> BUF_MEM option" where
  "BUF_MEM_new sys =
     (case OPENSSL_malloc sys 24 of None \<Rightarrow> None | Some _ \<Rightarrow> Some \<lparr>length_b = 0, data_b = None, max_b = 0\<rparr>)"

definition BUF_MEM_reserve :: "system_malloc \<Rightarrow> BUF_MEM \<Rightarrow> usize \<Rightarrow> bool \<times> BUF_MEM" where
  "BUF_MEM_reserve sys buf cap =
     (if max_b buf \<ge> cap then (True, buf)
      else let n = cap + 3 in
        if n < cap then (False, buf)
        else let n = n div 3; alloc_size = n * 4 in
          if alloc_size div 4 \<noteq> n then (False, buf)
          else case OPENSSL_realloc sys (data_b buf) alloc_size of
            None \<Rightarrow> (False, buf)
          | Some new_buf \<Rightarrow> (True, buf\<lparr>data_b := Some new_buf, max_b := alloc_size\<rparr>))"

text \<open>Writing at an offset of the block behind the \<open>data\<close> pointer.\<close>

definition buf_write :: "BUF_MEM \<Rightarrow> usize \<Rightarrow> bytes \<Rightarrow> BUF_MEM" where
  "buf_write buf off src = buf\<lparr>data_b := map_option (mem_update (\<lambda>m. mem_write m (unat off) src)) (data_b buf)\<rparr>"

definition BUF_MEM_grow :: "system_malloc \<Rightarrow> BUF_MEM \<Rightarrow> usize \<Rightarrow> usize \<times> BUF_MEM" where
  "BUF_MEM_grow sys buf len =
     (case BUF_MEM_reserve sys buf len of
        (False, buf) \<Rightarrow> (0, buf)
      | (True, buf) \<Rightarrow>
          let buf = (if length_b buf < len
                     then buf_write buf (length_b buf) (replicate (unat (len - length_b buf)) 0)
                     else buf)
          in (len, buf\<lparr>length_b := len\<rparr>))"

definition BUF_MEM_grow_clean :: "system_malloc \<Rightarrow> BUF_MEM \<Rightarrow> usize \<Rightarrow> usize \<times> BUF_MEM" where
  "BUF_MEM_grow_clean sys buf len = BUF_MEM_grow sys buf len"

text \<open>\<open>BUF_MEM_append\<close>; \<open>len\<close> is the length of \<open>inp\<close>.\<close>

definition BUF_MEM_append :: "system_malloc \<Rightarrow> BUF_MEM \<Rightarrow> bytes \<Rightarrow> bool \<times> BUF_MEM" where
  "BUF_MEM_append sys buf inp =
     (let len = of_nat (length inp);
          new_len = length_b buf + len
      in if new_len < len then (False, buf)
         else case BUF_MEM_reserve sys buf new_len of
           (False, buf) \<Rightarrow> (False, buf)
         | (True, buf) \<Rightarrow> (True, (buf_write buf (length_b buf) inp)\<lparr>length_b := new_len\<rparr>))"

section \<open>Strings and duplicates\<close>

fun BUF_strnlen :: "bytes \<Rightarrow> nat \<Rightarrow> nat" where
  "BUF_strnlen s 0 = 0"
| "BUF_strnlen [] (Suc max_len) = 0"
| "BUF_strnlen (c # s) (Suc max_len) = (if c = 0 then 0 else Suc (BUF_strnlen s max_len))"

definition BUF_strndup :: "system_malloc \<Rightarrow> bytes option \<Rightarrow> usize \<Rightarrow> heap_ptr option" where
  "BUF_strndup sys str sz =
     (case str of
        None \<Rightarrow> None
      | Some str \<Rightarrow>
          let sz = of_nat (BUF_strnlen str (unat sz));
              alloc_size = sz + 1
          in if alloc_size < sz then None
             else case OPENSSL_malloc sys alloc_size of
               None \<Rightarrow> None
             | Some ret \<Rightarrow>
                 Some (ret\<lparr>mem := mem_write (mem_write (mem ret) 0 (take (unat sz) str)) (unat sz) [0]\<rparr>))"

definition BUF_strdup :: "system_malloc \<Rightarrow> bytes option \<Rightarrow> heap_ptr option" where
  "BUF_strdup sys str =
     (case str of None \<Rightarrow> None | Some s \<Rightarrow> BUF_strndup sys (Some s) (of_nat (strlen s)))"

text \<open>
  \<open>dst\<close> is the memory from the pointer on; the result is that memory afterwards and the
  return value.
\<close>

fun BUF_strlcpy :: "bytes \<Rightarrow> bytes \<Rightarrow> nat \<Rightarrow> bytes \<times> usize" where
  "BUF_strlcpy dst src dst_size =
     (if dst_size > 1 \<and> src \<noteq> [] \<and> hd src \<noteq> 0 then
        let (dst', l) = BUF_strlcpy (tl dst) (tl src) (dst_size - 1) in (hd src # dst', 1 + l)
      else (if dst_size \<noteq> 0 then 0 # tl dst else dst, of_nat (strlen src)))"

declare BUF_strlcpy.simps [simp del]

fun BUF_strlcat :: "bytes \<Rightarrow> bytes \<Rightarrow> nat \<Rightarrow> bytes \<times> usize" where
  "BUF_strlcat dst src dst_size =
     (if dst_size > 0 \<and> dst \<noteq> [] \<and> hd dst \<noteq> 0 then
        let (dst', l) = BUF_strlcat (tl dst) src (dst_size - 1) in (hd dst # dst', 1 + l)
      else BUF_strlcpy dst src dst_size)"

declare BUF_strlcat.simps [simp del]

definition BUF_memdup :: "system_malloc \<Rightarrow> bytes \<Rightarrow> heap_ptr option" where
  "BUF_memdup sys dat =
     (if dat = [] then None
      else case OPENSSL_malloc sys (of_nat (length dat)) of
        None \<Rightarrow> None
      | Some ret \<Rightarrow> Some (ret\<lparr>mem := mem_write (mem ret) 0 dat\<rparr>))"

section \<open>The buffer's invariant and contents\<close>

definition buf_ok :: "BUF_MEM \<Rightarrow> bool" where
  "buf_ok buf \<longleftrightarrow> openssl.sized_opt (data_b buf) \<and>
     length (openssl.block_of (data_b buf)) = unat (max_b buf) \<and> length_b buf \<le> max_b buf"

definition buf_contents :: "BUF_MEM \<Rightarrow> bytes" where
  "buf_contents buf = take (unat (length_b buf)) (openssl.block_of (data_b buf))"

lemma length_buf_contents: "buf_ok buf \<Longrightarrow> length (buf_contents buf) = unat (length_b buf)"
  by (simp add: buf_ok_def buf_contents_def word_le_nat_alt)

text \<open>The size \<open>BUF_MEM_reserve\<close> asks for: four thirds of the capacity, rounded.\<close>

lemma reserve_size:
  fixes cap :: usize
  assumes "cap < 9223372036854775808"
  defines "alloc_size \<equiv> (cap + 3) div 3 * 4"
  shows "\<not> cap + 3 < cap" "alloc_size div 4 = (cap + 3) div 3" "cap \<le> alloc_size"
    "alloc_size \<le> malloc_max"
proof -
  have c: "unat cap < 9223372036854775808"
    using assms by (simp add: word_less_nat_alt)
  have n: "unat (cap + 3) = unat cap + 3"
    using c unat_add64 [of cap 3] by simp
  have d: "unat ((cap + 3) div 3) = (unat cap + 3) div 3"
    by (simp add: unat_div n)
  have a: "unat alloc_size = (unat cap + 3) div 3 * 4"
    using c by (simp add: alloc_size_def unat_word_ariths d)
  show "\<not> cap + 3 < cap"
    by (simp add: word_less_nat_alt n)
  show "alloc_size div 4 = (cap + 3) div 3"
    by (simp add: word_unat_eq_iff unat_div d a n)
  show "cap \<le> alloc_size"
    by (simp add: word_le_nat_alt a)
  show "alloc_size \<le> malloc_max"
    using c by (simp add: word_le_nat_alt a malloc_max_def)
qed

lemma BUF_MEM_reserve_ok:
  assumes "buf_ok buf" "cap < 9223372036854775808" "BUF_MEM_reserve sys buf cap = (ok, buf')"
  shows "buf_ok buf' \<and> length_b buf' = length_b buf \<and> buf_contents buf' = buf_contents buf \<and>
    (ok \<longrightarrow> cap \<le> max_b buf') \<and> (\<not> ok \<longrightarrow> buf' = buf)"
proof (cases "cap \<le> max_b buf")
  case True
  then show ?thesis
    using assms by (simp add: BUF_MEM_reserve_def)
next
  case False
  define alloc_size where "alloc_size = (cap + 3) div 3 * 4"
  note sz = reserve_size [OF assms(2), folded alloc_size_def]
  show ?thesis
  proof (cases "OPENSSL_realloc sys (data_b buf) alloc_size")
    case None
    then show ?thesis
      using assms False sz by (simp add: BUF_MEM_reserve_def Let_def alloc_size_def)
  next
    case (Some q)
    have res: "ok" "buf' = buf\<lparr>data_b := Some q, max_b := alloc_size\<rparr>"
      using assms(3) False sz Some by (auto simp: BUF_MEM_reserve_def Let_def alloc_size_def)
    have "unat (length_b buf) \<le> length (openssl.block_of (data_b buf))"
      "unat (length_b buf) \<le> unat alloc_size"
      using assms(1) False sz(3) by (auto simp: buf_ok_def word_le_nat_alt)
    note grow = openssl.realloc_grow [OF Some _ sz(4) this]
    show ?thesis
      using grow assms(1) res sz(3) False
      by (auto simp: buf_ok_def buf_contents_def word_le_nat_alt)
  qed
qed

text \<open>Writing inside the reserved space, and declaring it used.\<close>

lemma buf_write_ok:
  assumes "buf_ok buf" "unat off + length src \<le> unat (max_b buf)" "unat new_len \<le> unat (max_b buf)"
  shows "buf_ok ((buf_write buf off src)\<lparr>length_b := new_len\<rparr>)"
    and "unat new_len = unat off + length src \<Longrightarrow> off = length_b buf \<Longrightarrow>
      buf_contents ((buf_write buf off src)\<lparr>length_b := new_len\<rparr>) = buf_contents buf @ src"
proof -
  show "buf_ok ((buf_write buf off src)\<lparr>length_b := new_len\<rparr>)"
    using assms by (cases "data_b buf") (auto simp: buf_ok_def buf_write_def heap_ok_def word_le_nat_alt)
  assume "unat new_len = unat off + length src" "off = length_b buf"
  then show "buf_contents ((buf_write buf off src)\<lparr>length_b := new_len\<rparr>) = buf_contents buf @ src"
    using assms by (cases "data_b buf") (auto simp: buf_ok_def buf_contents_def buf_write_def take_mem_write)
qed

lemma strlcpy_text:
  assumes "0 < dst_size" "dst_size \<le> length dst"
  shows "fst (BUF_strlcpy dst src dst_size) =
    take (dst_size - 1) (cstr src) @ [0] @ drop (min (dst_size - 1) (strlen src) + 1) dst"
  using assms
proof (induction dst src dst_size rule: BUF_strlcpy.induct)
  case (1 dst src dst_size)
  show ?case
  proof (cases "dst_size > 1 \<and> src \<noteq> [] \<and> hd src \<noteq> 0")
    case True
    then obtain c s d m n where "src = c # s" "c \<noteq> 0" "dst = d # m" "dst_size = Suc (Suc n)"
      using "1.prems" by (cases src; cases dst; cases dst_size; cases "dst_size - 1") auto
    then show ?thesis
      using "1.IH" [OF True] "1.prems"
      by (subst BUF_strlcpy.simps) (simp add: case_prod_unfold cstr_def strlen_def)
  next
    case False
    then have "take (dst_size - 1) (cstr src) = []" "min (dst_size - 1) (strlen src) = 0"
      using "1.prems" by (cases src; auto simp: cstr_def strlen_def)+
    then show ?thesis
      using False "1.prems" by (auto simp add: BUF_strlcpy.simps [of dst] drop_Suc)
  qed
qed

lemma strlcpy_ret: "snd (BUF_strlcpy dst src dst_size) = of_nat (strlen src)"
proof (induction dst src dst_size rule: BUF_strlcpy.induct)
  case (1 dst src dst_size)
  show ?case
  proof (cases "dst_size > 1 \<and> src \<noteq> [] \<and> hd src \<noteq> 0")
    case True
    then have "strlen src = Suc (strlen (tl src))"
      by (cases src) (simp_all add: strlen_def)
    then show ?thesis
      using "1.IH" [OF True] True by (simp add: BUF_strlcpy.simps [of dst] case_prod_unfold)
  next
    case False
    then show ?thesis
      by (auto simp: BUF_strlcpy.simps [of dst])
  qed
qed

section \<open>Properties\<close>

text \<open>
  An append that succeeds keeps the buffer's invariant and adds exactly the given bytes
  to its contents; one that fails leaves the buffer as it was.  The sum of the lengths stays below
  \<open>2^63\<close>, so that the rounded allocation size does not wrap in \<open>OPENSSL_malloc\<close>.
\<close>

lemma BUF_MEM_append_contents:
  assumes "buf_ok buf" "unat (length_b buf) + length inp < 2 ^ 63"
  shows "case BUF_MEM_append sys buf inp of
      (True, buf') \<Rightarrow> buf_ok buf' \<and> buf_contents buf' = buf_contents buf @ inp
    | (False, buf') \<Rightarrow> buf' = buf"
proof -
  define new_len where "new_len = length_b buf + of_nat (length inp)"
  have u: "unat (of_nat (length inp) :: usize) = length inp"
    using assms(2) by (intro unat_of_nat_small) simp
  have n: "unat new_len = unat (length_b buf) + length inp"
    using assms(2) unat_add64 [of "length_b buf" "of_nat (length inp)"] by (simp add: new_len_def u)
  have "new_len < 9223372036854775808" and "\<not> new_len < of_nat (length inp)"
    using assms(2) n u by (simp_all add: word_less_nat_alt)
  obtain ok buf' where res: "BUF_MEM_reserve sys buf new_len = (ok, buf')"
    by (cases "BUF_MEM_reserve sys buf new_len")
  note ok = BUF_MEM_reserve_ok [OF assms(1) \<open>new_len < 9223372036854775808\<close> res]
  show ?thesis
  proof (cases ok)
    case False
    then show ?thesis
      using ok res \<open>\<not> new_len < of_nat (length inp)\<close>
      by (simp add: BUF_MEM_append_def Let_def flip: new_len_def)
  next
    case True
    then have "unat (length_b buf') + length inp \<le> unat (max_b buf')" "unat new_len \<le> unat (max_b buf')"
      using ok n by (auto simp: word_le_nat_alt)
    note w = buf_write_ok [OF _ this(1) this(2)]
    show ?thesis
      using ok res True w n \<open>\<not> new_len < of_nat (length inp)\<close>
      by (simp add: BUF_MEM_append_def Let_def flip: new_len_def)
  qed
qed

lemma BUF_MEM_append_contents_witness:
  "case BUF_MEM_append (\<lambda>_. Some (\<lambda>_. 0)) \<lparr>length_b = 0, data_b = None, max_b = 0\<rparr> [5, 6] of
      (True, buf') \<Rightarrow> buf_ok buf' \<and>
        buf_contents buf' = buf_contents \<lparr>length_b = 0, data_b = None, max_b = 0\<rparr> @ [5, 6]
    | (False, buf') \<Rightarrow> buf' = \<lparr>length_b = 0, data_b = None, max_b = 0\<rparr>"
  by (rule BUF_MEM_append_contents) (simp_all add: buf_ok_def)

text \<open>
  \<open>BUF_strlcpy\<close> into \<open>dst_size\<close> bytes stores the first \<open>dst_size - 1\<close> characters of the
  string and a NUL, leaves the rest of the destination alone, and returns the length of the source.
\<close>

theorem BUF_strlcpy_truncates:
  assumes "0 < dst_size" "dst_size \<le> length dst"
  shows "BUF_strlcpy dst src dst_size =
    (take (dst_size - 1) (cstr src) @ [0] @ drop (min (dst_size - 1) (strlen src) + 1) dst,
     of_nat (strlen src))"
  using strlcpy_text [OF assms] strlcpy_ret by (intro prod_eqI) simp_all

lemma BUF_strlcpy_truncates_witness:
  "BUF_strlcpy [9, 9, 9, 9] [65, 66, 67, 0, 68] 3 = ([65, 66, 0, 9], 3)"
  using BUF_strlcpy_truncates [of 3 "[9, 9, 9, 9]" "[65, 66, 67, 0, 68]"]
  by (simp add: cstr_def strlen_def)

end
