(* ===== verification/DER.thy ===== *)
theory DER
  imports Prelude
begin

text \<open>
  The distinguished encoding (ITU-T X.690) that the parser of \<open>cbs.c\<close> accepts and the builder of
  \<open>cbb.c\<close> writes: base-128 integers, identifier octets for the library's 32-bit tags, length
  octets and elements.  The definitions here are the specification both sides are proved against.
\<close>

section \<open>Base-128 integers\<close>

text \<open>The groups of seven bits with the continuation bit, most significant first; none for zero.\<close>

fun b128_cont :: "nat \<Rightarrow> bytes" where
  "b128_cont n = (if n = 0 then [] else b128_cont (n div 128) @ [of_nat (128 + n mod 128)])"

declare b128_cont.simps [simp del]

definition base128 :: "nat \<Rightarrow> bytes" where
  "base128 n = b128_cont (n div 128) @ [of_nat (n mod 128)]"

lemma b128_cont_0 [simp]: "b128_cont 0 = []"
  by (simp add: b128_cont.simps)

lemma b128_cont_step:
  "n \<noteq> 0 \<or> r \<noteq> 0 \<Longrightarrow> r < 128 \<Longrightarrow> b128_cont (n * 128 + r) = b128_cont n @ [of_nat (128 + r)]"
  by (subst b128_cont.simps) simp

lemma base128_step: "r < 128 \<Longrightarrow> base128 (n * 128 + r) = b128_cont n @ [of_nat r]"
  by (simp add: base128_def)

lemma length_b128_cont: "n < 128 ^ k \<Longrightarrow> length (b128_cont n) \<le> k"
proof (induction n arbitrary: k rule: b128_cont.induct)
  case (1 n)
  show ?case
  proof (cases "n = 0")
    case False
    then obtain k' where "k = Suc k'"
      using "1.prems" by (cases k) auto
    then have "n div 128 < 128 ^ k'"
      using "1.prems" by (simp add: less_mult_imp_div_less mult.commute)
    then show ?thesis
      using "1.IH" False \<open>k = Suc k'\<close> by (simp add: b128_cont.simps [of n])
  qed simp
qed

section \<open>Identifier octets\<close>

text \<open>
  The library holds class and constructed bit in the top three bits of a tag, and the tag number
  in the lower 29.
\<close>

definition tag_bits :: "u32 \<Rightarrow> u8" where
  "tag_bits tag = ucast (drop_bit 24 tag) AND 0xe0"

definition tag_num :: "u32 \<Rightarrow> u32" where
  "tag_num tag = tag AND 0x1fffffff"

definition der_tag :: "u32 \<Rightarrow> bytes" where
  "der_tag tag =
     (if unat (tag_num tag) < 31 then [tag_bits tag OR ucast (tag_num tag)]
      else (tag_bits tag OR 31) # base128 (unat (tag_num tag)))"

lemma and_e0: "(x :: u8) AND 0xe0 = push_bit 5 (drop_bit 5 x)"
  by (rule u8_eqI; simp add: bit_simps)

lemma and_1f: "(x :: u8) AND 0x1f = take_bit 5 x"
  by (simp add: take_bit_eq_mask mask_numeral)

lemma and_mask29: "(x :: u32) AND 0x1fffffff = take_bit 29 x"
  by (simp add: take_bit_eq_mask mask_numeral)

lemma and_e0_32: "(ucast (b :: u8) :: u32) AND 0xe0 = ucast (b AND 0xe0)"
  by (simp add: unsigned_and_eq)

lemma tag_num_less: "unat (tag_num tag) < 2 ^ 29"
proof -
  have "unat (tag_num tag) = take_bit 29 (unat tag)"
    by (simp add: tag_num_def and_mask29 unsigned_take_bit_eq)
  then show ?thesis
    using take_bit_nat_less_exp [of 29 "unat tag"] by simp
qed

text \<open>Assembling a tag from its identifier octet and its number, and taking it apart.\<close>

definition mk_tag :: "u8 \<Rightarrow> u32 \<Rightarrow> u32" where
  "mk_tag b num = push_bit 24 (ucast (b AND 0xe0)) OR num"

lemma bit_u32_ge: "bit (x :: u32) n \<Longrightarrow> n < 32"
  using bit_imp_le_length [of x n] by simp

lemma take_bit_29_bound: "take_bit 29 (num :: u32) = num \<longleftrightarrow> unat num < 2 ^ 29"
proof -
  have "take_bit 29 num = num \<longleftrightarrow> take_bit 29 (unat num) = unat num"
    by (simp add: word_unat_eq_iff unsigned_take_bit_eq)
  then show ?thesis
    using take_bit_nat_eq_self_iff [of 29 "unat num"] by simp
qed

lemma mk_tag_parts:
  assumes "unat num < 2 ^ 29"
  shows "tag_bits (mk_tag b num) = (b AND 0xe0)" "tag_num (mk_tag b num) = num"
proof -
  have num: "bit num n \<Longrightarrow> n < 29" for n
    using assms by (metis bit_take_bit_iff take_bit_29_bound)
  show "tag_bits (mk_tag b num) = (b AND 0xe0)"
    unfolding tag_bits_def mk_tag_def and_e0
    by (rule bit_word_eqI) (auto simp: bit_simps dest: num)
  show "tag_num (mk_tag b num) = num"
    unfolding tag_num_def mk_tag_def and_e0 and_mask29
    by (rule bit_word_eqI) (auto simp: bit_simps dest: num)
qed

lemma mk_tag_of_parts:
  assumes "take_bit 5 x = x"
  shows "mk_tag (tag_bits tag OR x) (tag_num tag) = tag"
proof (rule bit_word_eqI)
  fix n
  assume "n < LENGTH(32)"
  have x: "bit x n \<Longrightarrow> n < 5" for n
    using assms by (metis bit_take_bit_iff)
  show "bit (mk_tag (tag_bits tag OR x) (tag_num tag)) n = bit tag n"
    unfolding tag_bits_def mk_tag_def and_e0 and_mask29 tag_num_def
    using \<open>n < LENGTH(32)\<close> by (auto simp: bit_simps dest: x)
qed

lemma tag_bits_low:
  assumes "take_bit 5 x = x"
  shows "(tag_bits tag OR x) AND 0x1f = x" "(tag_bits tag OR x) AND 0xe0 = tag_bits tag"
proof -
  have x: "bit x n \<Longrightarrow> n < 5" for n
    using assms by (metis bit_take_bit_iff)
  show "(tag_bits tag OR x) AND 0x1f = x"
    unfolding tag_bits_def and_e0 and_1f by (rule bit_word_eqI) (auto simp: bit_simps dest: x)
  show "(tag_bits tag OR x) AND 0xe0 = tag_bits tag"
    unfolding tag_bits_def and_e0 by (rule bit_word_eqI) (auto simp: bit_simps dest: x)
qed

lemma and_parts_u8: "(b AND 0xe0) OR (b AND 0x1f) = (b :: u8)"
  unfolding and_e0 and_1f by (rule bit_word_eqI) (auto simp: bit_simps)

section \<open>Length octets and elements\<close>

text \<open>The number of octets of the long form (lengths up to \<open>2^32 - 1\<close>).\<close>

definition len_octets :: "nat \<Rightarrow> nat" where
  "len_octets n = (if n < 2 ^ 8 then 1 else if n < 2 ^ 16 then 2 else if n < 2 ^ 24 then 3 else 4)"

definition der_len :: "nat \<Rightarrow> bytes" where
  "der_len n = (if n < 128 then [of_nat n] else of_nat (128 + len_octets n) # be_bytes (len_octets n) n)"

definition der_header :: "u32 \<Rightarrow> nat \<Rightarrow> bytes" where
  "der_header tag n = der_tag tag @ der_len n"

definition der_element :: "u32 \<Rightarrow> bytes \<Rightarrow> bytes" where
  "der_element tag content = der_header tag (length content) @ content"

lemma length_der_tag: "1 \<le> length (der_tag tag)" "length (der_tag tag) \<le> 6"
proof -
  have "unat (tag_num tag) div 128 < 128 ^ 4"
    using tag_num_less [of tag] by simp
  from length_b128_cont [OF this] show "length (der_tag tag) \<le> 6"
    by (simp add: der_tag_def base128_def)
qed (simp add: der_tag_def)

lemma length_der_len: "1 \<le> length (der_len n)" "length (der_len n) \<le> 5"
  by (simp_all add: der_len_def len_octets_def)

lemma length_der_header: "length (der_header tag n) \<le> 11" "2 \<le> length (der_header tag n)"
  using length_der_tag [of tag] length_der_len [of n] by (simp_all add: der_header_def)

text \<open>Unsigned integers as the contents of an INTEGER: no superfluous zeros, no sign bit.\<close>

fun sig_bytes :: "nat \<Rightarrow> bytes" where
  "sig_bytes n = (if n = 0 then [] else sig_bytes (n div 256) @ [of_nat n])"

declare sig_bytes.simps [simp del]

definition uint_content :: "nat \<Rightarrow> bytes" where
  "uint_content n = (case sig_bytes n of [] \<Rightarrow> [0] | b # bs \<Rightarrow> if b AND 0x80 \<noteq> 0 then 0 # b # bs else b # bs)"

lemma sig_bytes_0 [simp]: "sig_bytes 0 = []"
  by (simp add: sig_bytes.simps)

lemma be_val_sig_bytes: "be_val (sig_bytes n) = n"
proof (induction n rule: sig_bytes.induct)
  case (1 n)
  then show ?case
    by (cases "n = 0") (simp_all add: sig_bytes.simps [of n] unat_of_nat_u8)
qed

lemma hd_sig_bytes: "n \<noteq> 0 \<Longrightarrow> sig_bytes n \<noteq> [] \<and> hd (sig_bytes n) \<noteq> 0"
proof (induction n rule: sig_bytes.induct)
  case (1 n)
  show ?case
  proof (cases "n div 256 = 0")
    case True
    then have "n < 256"
      by (simp add: div_eq_0_iff)
    then have "unat (of_nat n :: u8) = n"
      by (simp add: unat_of_nat_u8)
    then have "(of_nat n :: u8) \<noteq> 0"
      using "1.prems" by auto
    then show ?thesis
      using True "1.prems" by (simp add: sig_bytes.simps [of n])
  next
    case False
    then show ?thesis
      using 1 by (simp add: sig_bytes.simps [of n] hd_append)
  qed
qed

text \<open>A byte string without leading zeros is the encoding of its value.\<close>

lemma sig_bytes_be_val: "bs = [] \<or> hd bs \<noteq> 0 \<Longrightarrow> sig_bytes (be_val bs) = bs"
proof (induction bs rule: rev_induct)
  case (snoc b bs)
  have "be_val (bs @ [b]) \<noteq> 0"
  proof (cases bs)
    case Nil
    then show ?thesis
      using snoc.prems be_val_simps(2) [of "[]" b] by (simp add: unsigned_eq_0_iff del: be_val_simps)
  next
    case (Cons c cs)
    then have "unat c \<noteq> 0"
      using snoc.prems by (simp add: unsigned_eq_0_iff)
    then show ?thesis
      using Cons by (simp add: be_val_Cons)
  qed
  moreover have "(256 * be_val bs + unat b) div 256 = be_val bs"
    by simp
  moreover have "(of_nat (256 * be_val bs + unat b) :: u8) = b"
    by (simp add: word_unat_eq_iff unat_of_nat_u8 del: of_nat_add of_nat_mult)
  moreover have "sig_bytes (be_val bs) = bs"
    using snoc by (cases bs) simp_all
  ultimately show ?case
    by (simp add: sig_bytes.simps [of "256 * be_val bs + unat b"] del: of_nat_add of_nat_mult)
qed simp

lemma length_sig_bytes: "n < 256 ^ k \<Longrightarrow> length (sig_bytes n) \<le> k"
proof (induction n arbitrary: k rule: sig_bytes.induct)
  case (1 n)
  show ?case
  proof (cases "n = 0")
    case False
    then obtain k' where "k = Suc k'"
      using "1.prems" by (cases k) auto
    then have "n div 256 < 256 ^ k'"
      using "1.prems" by (simp add: less_mult_imp_div_less mult.commute)
    then show ?thesis
      using "1.IH" False \<open>k = Suc k'\<close> by (simp add: sig_bytes.simps [of n])
  qed simp
qed

end
