(* ===== verification/CBS.thy ===== *)
theory CBS
  imports DER Mem Buf
begin

text \<open>
  \<open>crypto/bytestring/cbs.c\<close> (BoringSSL): the byte-string reader and the DER parser.

  A \<open>CBS\<close> (a pointer and a length) is the list of the bytes it spans.  A reading function maps the
  old \<open>CBS\<close> to its result (\<open>None\<close> for the return value 0) and the \<open>CBS\<close> as the call leaves it;
  output parameters hold their value only when the call succeeds, and an output that the caller
  may pass as \<open>NULL\<close> is always returned.
\<close>

type_synonym CBS = bytes

section \<open>Bytes and fixed-width integers\<close>

definition CBS_init :: "bytes \<Rightarrow> usize \<Rightarrow> CBS" where
  "CBS_init dat n = take (unat n) dat"

definition CBS_len :: "CBS \<Rightarrow> usize" where
  "CBS_len cbs = of_nat (length cbs)"

definition CBS_data :: "CBS \<Rightarrow> bytes" where
  "CBS_data cbs = cbs"

definition cbs_get :: "usize \<Rightarrow> CBS \<Rightarrow> bytes option \<times> CBS" where
  "cbs_get n cbs =
     (if CBS_len cbs < n then (None, cbs) else (Some (take (unat n) cbs), drop (unat n) cbs))"

definition CBS_skip :: "usize \<Rightarrow> CBS \<Rightarrow> unit option \<times> CBS" where
  "CBS_skip n = andthen (cbs_get n) (\<lambda>_ cbs. (Some (), cbs))"

text \<open>\<open>CBS_stow\<close>: the new block and its length; the old block is freed first.\<close>

definition CBS_stow :: "system_malloc \<Rightarrow> CBS \<Rightarrow> (heap_ptr option \<times> usize) option" where
  "CBS_stow sys cbs =
     (if CBS_len cbs = 0 then Some (None, 0)
      else case BUF_memdup sys cbs of None \<Rightarrow> None | Some p \<Rightarrow> Some (Some p, CBS_len cbs))"

definition CBS_strdup :: "system_malloc \<Rightarrow> CBS \<Rightarrow> heap_ptr option" where
  "CBS_strdup sys cbs = BUF_strndup sys (Some cbs) (CBS_len cbs)"

definition CBS_contains_zero_byte :: "CBS \<Rightarrow> bool" where
  "CBS_contains_zero_byte cbs \<longleftrightarrow> (\<exists>b \<in> set cbs. b = 0)"

definition CBS_mem_equal :: "CBS \<Rightarrow> bytes \<Rightarrow> usize \<Rightarrow> bool" where
  "CBS_mem_equal cbs dat n = (if n \<noteq> CBS_len cbs then False else CRYPTO_memcmp cbs dat n = 0)"

definition cbs_get_u :: "usize \<Rightarrow> CBS \<Rightarrow> u32 option \<times> CBS" where
  "cbs_get_u n = andthen (cbs_get n)
     (\<lambda>dat cbs. (Some (foldl (\<lambda>result b. push_bit 8 result OR ucast b) 0 dat), cbs))"

definition CBS_get_u8 :: "CBS \<Rightarrow> u8 option \<times> CBS" where
  "CBS_get_u8 = andthen (cbs_get 1) (\<lambda>v cbs. (Some (v ! 0), cbs))"

definition CBS_get_u16 :: "CBS \<Rightarrow> u16 option \<times> CBS" where
  "CBS_get_u16 = andthen (cbs_get_u 2) (\<lambda>v cbs. (Some (ucast v), cbs))"

definition CBS_get_u24 :: "CBS \<Rightarrow> u32 option \<times> CBS" where
  "CBS_get_u24 = cbs_get_u 3"

definition CBS_get_u32 :: "CBS \<Rightarrow> u32 option \<times> CBS" where
  "CBS_get_u32 = cbs_get_u 4"

definition CBS_get_last_u8 :: "CBS \<Rightarrow> u8 option \<times> CBS" where
  "CBS_get_last_u8 cbs = (if CBS_len cbs = 0 then (None, cbs) else (Some (last cbs), butlast cbs))"

definition CBS_get_bytes :: "usize \<Rightarrow> CBS \<Rightarrow> CBS option \<times> CBS" where
  "CBS_get_bytes n = andthen (cbs_get n) (\<lambda>v cbs. (Some (CBS_init v n), cbs))"

definition CBS_copy_bytes :: "usize \<Rightarrow> CBS \<Rightarrow> bytes option \<times> CBS" where
  "CBS_copy_bytes n = andthen (cbs_get n) (\<lambda>v cbs. (Some v, cbs))"

definition cbs_get_length_prefixed :: "usize \<Rightarrow> CBS \<Rightarrow> CBS option \<times> CBS" where
  "cbs_get_length_prefixed len_len = andthen (cbs_get_u len_len) (\<lambda>n. CBS_get_bytes (ucast n))"

definition CBS_get_u8_length_prefixed :: "CBS \<Rightarrow> CBS option \<times> CBS" where
  "CBS_get_u8_length_prefixed = cbs_get_length_prefixed 1"

definition CBS_get_u16_length_prefixed :: "CBS \<Rightarrow> CBS option \<times> CBS" where
  "CBS_get_u16_length_prefixed = cbs_get_length_prefixed 2"

definition CBS_get_u24_length_prefixed :: "CBS \<Rightarrow> CBS option \<times> CBS" where
  "CBS_get_u24_length_prefixed = cbs_get_length_prefixed 3"

section \<open>Identifiers and elements\<close>

text \<open>The loop of \<open>parse_base128_integer\<close> with the value \<open>v\<close> read so far.\<close>

fun parse_base128_loop :: "u64 \<Rightarrow> CBS \<Rightarrow> u64 option \<times> CBS" where
  "parse_base128_loop v [] = (None, [])"
| "parse_base128_loop v (b # cbs) =
     (if drop_bit (64 - 7) v \<noteq> 0 then (None, cbs)
      else if v = 0 \<and> b = 0x80 then (None, cbs)
      else let v = push_bit 7 v OR ucast (b AND 0x7f)
           in if b AND 0x80 \<noteq> 0 then parse_base128_loop v cbs else (Some v, cbs))"

definition parse_base128_integer :: "CBS \<Rightarrow> u64 option \<times> CBS" where
  "parse_base128_integer = parse_base128_loop 0"

definition CBS_ASN1_TAG_SHIFT :: nat where
  "CBS_ASN1_TAG_SHIFT = 24"

definition CBS_ASN1_CONSTRUCTED :: u32 where
  "CBS_ASN1_CONSTRUCTED = 0x20000000"

definition CBS_ASN1_TAG_NUMBER_MASK :: u32 where
  "CBS_ASN1_TAG_NUMBER_MASK = 0x1fffffff"

definition parse_asn1_tag :: "CBS \<Rightarrow> u32 option \<times> CBS" where
  "parse_asn1_tag = andthen CBS_get_u8 (\<lambda>tag_byte cbs.
     let tag = push_bit CBS_ASN1_TAG_SHIFT ((ucast tag_byte :: u32) AND 0xe0);
         tag_number = (ucast tag_byte :: u32) AND 0x1f
     in if tag_number = 0x1f then
          andthen parse_base128_integer (\<lambda>v cbs.
            if v > ucast CBS_ASN1_TAG_NUMBER_MASK \<or> v < 0x1f then (None, cbs)
            else (Some (tag OR ucast v), cbs)) cbs
        else (Some (tag OR tag_number), cbs))"

text \<open>
  \<open>cbs_get_any_asn1_element\<close>: the element with its header, its tag and the length of the header.
  The header is parsed on a copy, so a failing call leaves the \<open>CBS\<close> alone.
\<close>

definition cbs_get_any_asn1_element :: "bool \<Rightarrow> CBS \<Rightarrow> (CBS \<times> u32 \<times> usize) option \<times> CBS" where
  "cbs_get_any_asn1_element ber_ok cbs =
     (case parse_asn1_tag cbs of
        (None, _) \<Rightarrow> (None, cbs)
      | (Some tag, header) \<Rightarrow>
        (case CBS_get_u8 header of
           (None, _) \<Rightarrow> (None, cbs)
         | (Some length_byte, header) \<Rightarrow>
           let header_len = CBS_len cbs - CBS_len header
           in if length_byte AND 0x80 = 0 then
                let n = ucast length_byte + header_len
                in andthen (CBS_get_bytes n) (\<lambda>out cbs. (Some (out, tag, header_len), cbs)) cbs
              else
                let num_bytes = ucast (length_byte AND 0x7f) :: usize
                in if ber_ok \<and> tag AND CBS_ASN1_CONSTRUCTED \<noteq> 0 \<and> num_bytes = 0 then
                     andthen (CBS_get_bytes header_len) (\<lambda>out cbs. (Some (out, tag, header_len), cbs)) cbs
                   else if num_bytes = 0 \<or> num_bytes > 4 then (None, cbs)
                   else case cbs_get_u num_bytes header of
                     (None, _) \<Rightarrow> (None, cbs)
                   | (Some len32, _) \<Rightarrow>
                       if len32 < 128 then (None, cbs)
                       else if drop_bit (unat ((num_bytes - 1) * 8)) len32 = 0 then (None, cbs)
                       else let n = ucast len32 :: usize
                         in if n + header_len + num_bytes < n then (None, cbs)
                            else andthen (CBS_get_bytes (n + (header_len + num_bytes)))
                              (\<lambda>out cbs. (Some (out, tag, header_len + num_bytes), cbs)) cbs))"

definition CBS_get_any_asn1_element :: "CBS \<Rightarrow> (CBS \<times> u32 \<times> usize) option \<times> CBS" where
  "CBS_get_any_asn1_element = cbs_get_any_asn1_element False"

definition CBS_get_any_ber_asn1_element :: "CBS \<Rightarrow> (CBS \<times> u32 \<times> usize) option \<times> CBS" where
  "CBS_get_any_ber_asn1_element = cbs_get_any_asn1_element True"

definition CBS_get_any_asn1 :: "CBS \<Rightarrow> (CBS \<times> u32) option \<times> CBS" where
  "CBS_get_any_asn1 = andthen CBS_get_any_asn1_element (\<lambda>(out, tag, header_len) cbs.
     case CBS_skip header_len out of
       (None, _) \<Rightarrow> (None, cbs)
     | (Some _, out) \<Rightarrow> (Some (out, tag), cbs))"

text \<open>On a tag mismatch the element has been consumed.\<close>

definition cbs_get_asn1 :: "u32 \<Rightarrow> bool \<Rightarrow> CBS \<Rightarrow> CBS option \<times> CBS" where
  "cbs_get_asn1 tag_value skip_header = andthen CBS_get_any_asn1_element (\<lambda>(out, tag, header_len) cbs.
     if tag \<noteq> tag_value then (None, cbs)
     else if skip_header then
       (case CBS_skip header_len out of (None, _) \<Rightarrow> (None, cbs) | (Some _, out) \<Rightarrow> (Some out, cbs))
     else (Some out, cbs))"

definition CBS_get_asn1 :: "u32 \<Rightarrow> CBS \<Rightarrow> CBS option \<times> CBS" where
  "CBS_get_asn1 tag_value = cbs_get_asn1 tag_value True"

definition CBS_get_asn1_element :: "u32 \<Rightarrow> CBS \<Rightarrow> CBS option \<times> CBS" where
  "CBS_get_asn1_element tag_value = cbs_get_asn1 tag_value False"

definition CBS_peek_asn1_tag :: "u32 \<Rightarrow> CBS \<Rightarrow> bool" where
  "CBS_peek_asn1_tag tag_value cbs =
     (if CBS_len cbs < 1 then False
      else case parse_asn1_tag cbs of (None, _) \<Rightarrow> False | (Some actual_tag, _) \<Rightarrow> tag_value = actual_tag)"

section \<open>Typed contents\<close>

definition CBS_ASN1_BOOLEAN :: u32 where "CBS_ASN1_BOOLEAN = 1"
definition CBS_ASN1_INTEGER :: u32 where "CBS_ASN1_INTEGER = 2"
definition CBS_ASN1_OCTETSTRING :: u32 where "CBS_ASN1_OCTETSTRING = 4"

text \<open>The accumulating loop of \<open>CBS_get_asn1_uint64\<close>.\<close>

fun uint64_loop :: "u64 \<Rightarrow> bytes \<Rightarrow> u64 option" where
  "uint64_loop v [] = Some v"
| "uint64_loop v (b # bs) =
     (if drop_bit 56 v \<noteq> 0 then None else uint64_loop (push_bit 8 v OR ucast b) bs)"

definition CBS_get_asn1_uint64 :: "CBS \<Rightarrow> u64 option \<times> CBS" where
  "CBS_get_asn1_uint64 = andthen (CBS_get_asn1 CBS_ASN1_INTEGER) (\<lambda>dat cbs.
     if CBS_len dat = 0 then (None, cbs)
     else if dat ! 0 AND 0x80 \<noteq> 0 then (None, cbs)
     else if dat ! 0 = 0 \<and> CBS_len dat > 1 \<and> dat ! 1 AND 0x80 = 0 then (None, cbs)
     else (uint64_loop 0 dat, cbs))"

definition CBS_get_asn1_bool :: "CBS \<Rightarrow> bool option \<times> CBS" where
  "CBS_get_asn1_bool = andthen (CBS_get_asn1 CBS_ASN1_BOOLEAN) (\<lambda>dat cbs.
     if CBS_len dat \<noteq> 1 then (None, cbs)
     else let val = dat ! 0
       in if val \<noteq> 0 \<and> val \<noteq> 0xff then (None, cbs) else (Some (val \<noteq> 0), cbs))"

text \<open>\<open>CBS_get_optional_asn1\<close>: \<open>Some None\<close> when the element is absent.\<close>

definition CBS_get_optional_asn1 :: "u32 \<Rightarrow> CBS \<Rightarrow> CBS option option \<times> CBS" where
  "CBS_get_optional_asn1 tag cbs =
     (if CBS_peek_asn1_tag tag cbs then andthen (CBS_get_asn1 tag) (\<lambda>out cbs. (Some (Some out), cbs)) cbs
      else (Some None, cbs))"

text \<open>The element and whether it was present; an absent one reads as empty.\<close>

definition CBS_get_optional_asn1_octet_string :: "u32 \<Rightarrow> CBS \<Rightarrow> (CBS \<times> bool) option \<times> CBS" where
  "CBS_get_optional_asn1_octet_string tag = andthen (CBS_get_optional_asn1 tag) (\<lambda>child cbs.
     case child of
       None \<Rightarrow> (Some (CBS_init [] 0, False), cbs)
     | Some child \<Rightarrow>
         (case CBS_get_asn1 CBS_ASN1_OCTETSTRING child of
            (None, _) \<Rightarrow> (None, cbs)
          | (Some out, child) \<Rightarrow> if CBS_len child \<noteq> 0 then (None, cbs) else (Some (out, True), cbs)))"

definition CBS_get_optional_asn1_uint64 :: "u32 \<Rightarrow> u64 \<Rightarrow> CBS \<Rightarrow> u64 option \<times> CBS" where
  "CBS_get_optional_asn1_uint64 tag default_value = andthen (CBS_get_optional_asn1 tag) (\<lambda>child cbs.
     case child of
       None \<Rightarrow> (Some default_value, cbs)
     | Some child \<Rightarrow>
         (case CBS_get_asn1_uint64 child of
            (None, _) \<Rightarrow> (None, cbs)
          | (Some out, child) \<Rightarrow> if CBS_len child \<noteq> 0 then (None, cbs) else (Some out, cbs)))"

definition CBS_get_optional_asn1_bool :: "u32 \<Rightarrow> int \<Rightarrow> CBS \<Rightarrow> int option \<times> CBS" where
  "CBS_get_optional_asn1_bool tag default_value = andthen (CBS_get_optional_asn1 tag) (\<lambda>child cbs.
     case child of
       None \<Rightarrow> (Some default_value, cbs)
     | Some child \<Rightarrow>
         (case CBS_get_asn1 CBS_ASN1_BOOLEAN child of
            (None, _) \<Rightarrow> (None, cbs)
          | (Some child2, child) \<Rightarrow>
              if CBS_len child2 \<noteq> 1 \<or> CBS_len child \<noteq> 0 then (None, cbs)
              else let boolean = child2 ! 0
                in if boolean = 0 then (Some 0, cbs)
                   else if boolean = 0xff then (Some 1, cbs)
                   else (None, cbs)))"

definition CBS_is_valid_asn1_bitstring :: "CBS \<Rightarrow> bool" where
  "CBS_is_valid_asn1_bitstring cbs =
     (case CBS_get_u8 cbs of
        (None, _) \<Rightarrow> False
      | (Some num_unused_bits, inp) \<Rightarrow>
          if num_unused_bits > 7 then False
          else if num_unused_bits = 0 then True
          else case CBS_get_last_u8 inp of
            (None, _) \<Rightarrow> False
          | (Some last_byte, _) \<Rightarrow> last_byte AND (push_bit (unat num_unused_bits) 1 - 1) = 0)"

definition CBS_asn1_bitstring_has_bit :: "CBS \<Rightarrow> u32 \<Rightarrow> bool" where
  "CBS_asn1_bitstring_has_bit cbs bit_no =
     (if \<not> CBS_is_valid_asn1_bitstring cbs then False
      else let byte_num = drop_bit 3 bit_no + 1;
               bit_num = 7 - (bit_no AND 7)
        in ucast byte_num < CBS_len cbs \<and>
           cbs ! unat byte_num AND push_bit (unat bit_num) 1 \<noteq> 0)"

section \<open>Reading as splitting\<close>

text \<open>Every length of a real \<open>CBS\<close> is a \<open>size_t\<close>.\<close>

abbreviation fits :: "bytes \<Rightarrow> bool" where
  "fits cbs \<equiv> length cbs < 18446744073709551616"

lemma unat_CBS_len: "fits cbs \<Longrightarrow> unat (CBS_len cbs) = length cbs"
  unfolding CBS_len_def by (rule unat_of_nat_small) simp

lemma cbs_get_eq:
  assumes "fits cbs"
  shows "cbs_get n cbs = (if length cbs < unat n then (None, cbs) else (Some (take (unat n) cbs), drop (unat n) cbs))"
  using assms by (simp add: cbs_get_def word_less_nat_alt unat_CBS_len)

lemma cbs_get_Some:
  assumes "fits cbs"
  shows "cbs_get n cbs = (Some p, rest) \<longleftrightarrow> cbs = p @ rest \<and> length p = unat n"
  using assms by (auto simp: cbs_get_eq)

lemma cbs_get_append [simp]: "fits (p @ rest) \<Longrightarrow> length p = unat n \<Longrightarrow> cbs_get n (p @ rest) = (Some p, rest)"
  by (simp add: cbs_get_Some)

lemma CBS_init_take [simp]: "length p = unat n \<Longrightarrow> CBS_init p n = p"
  by (simp add: CBS_init_def)

lemma CBS_get_bytes_Some:
  assumes "fits cbs"
  shows "CBS_get_bytes n cbs = (Some p, rest) \<longleftrightarrow> cbs = p @ rest \<and> length p = unat n"
proof -
  have "CBS_get_bytes n cbs = (Some p, rest) \<longleftrightarrow> (\<exists>q. cbs_get n cbs = (Some q, rest) \<and> CBS_init q n = p)"
    by (auto simp: CBS_get_bytes_def andthen_eq_Some)
  also have "\<dots> \<longleftrightarrow> cbs = p @ rest \<and> length p = unat n"
    using cbs_get_Some [OF assms] by auto
  finally show ?thesis .
qed

lemma CBS_get_bytes_append [simp]:
  "fits (p @ rest) \<Longrightarrow> length p = unat n \<Longrightarrow> CBS_get_bytes n (p @ rest) = (Some p, rest)"
  by (simp add: CBS_get_bytes_Some)

lemma CBS_skip_Some:
  assumes "fits cbs"
  shows "CBS_skip n cbs = (Some u, rest) \<longleftrightarrow> (\<exists>p. cbs = p @ rest \<and> length p = unat n)"
  using cbs_get_Some [OF assms] by (auto simp: CBS_skip_def andthen_eq_Some)

lemma CBS_get_u8_Cons [simp]: "fits (b # cbs) \<Longrightarrow> CBS_get_u8 (b # cbs) = (Some b, cbs)"
  by (simp add: CBS_get_u8_def cbs_get_eq andthen_def)

lemma CBS_get_u8_Nil [simp]: "CBS_get_u8 [] = (None, [])"
  by (simp add: CBS_get_u8_def cbs_get_eq andthen_def)

lemma CBS_get_u8_Some: "fits cbs \<Longrightarrow> CBS_get_u8 cbs = (Some b, rest) \<longleftrightarrow> cbs = b # rest"
  by (cases cbs) auto

lemma cbs_get_u_Some:
  assumes "fits cbs"
  shows "cbs_get_u n cbs = (Some v, rest) \<longleftrightarrow>
    (\<exists>p. cbs = p @ rest \<and> length p = unat n \<and> v = of_nat (be_val p))"
  using foldl_be_val [of 0, where 'a = 32] cbs_get_Some [OF assms]
  by (auto simp: cbs_get_u_def andthen_eq_Some)

text \<open>A read never grows what is left.\<close>

lemma fits_append: "fits (p @ rest) \<Longrightarrow> fits rest"
  by simp

end
