(* ===== verification/CBB.thy ===== *)
theory CBB
  imports CBS
begin

text \<open>
  \<open>crypto/bytestring/cbb.c\<close> (BoringSSL): the byte builder with nested length prefixes.

  A top-level \<open>CBB\<close> and the \<open>CBB\<close>s of its pending length prefixes form a chain through their
  \<open>child\<close> pointers and share one \<open>cbb_buffer_st\<close>.  The model keeps the shared buffer once, and the
  chain as the list of the pending children, outermost first.  A call on the \<open>CBB\<close> that is \<open>d\<close>
  steps down the chain is a call on the handle \<open>d\<close>: 0 is the top-level \<open>CBB\<close>, and a handle beyond
  the chain is a \<open>CBB\<close> that has been flushed and whose \<open>base\<close> is \<open>NULL\<close>.
\<close>

section \<open>The shared buffer\<close>

record cbb_buffer_st =
  bb_buf :: "heap_ptr option"
  bb_len :: usize
  bb_cap :: usize
  bb_can_resize :: bool
  bb_error :: bool

record cbb_child =
  c_offset :: usize
  c_pending_len_len :: u8
  c_pending_is_asn1 :: bool

record CBB =
  cbb_base :: "cbb_buffer_st option"
  cbb_children :: "cbb_child list"

definition CBB_zero :: CBB where
  "CBB_zero = \<lparr>cbb_base = None, cbb_children = []\<rparr>"

text \<open>\<open>sizeof(struct cbb_buffer_st)\<close> is 32.\<close>

definition cbb_init :: "system_malloc \<Rightarrow> heap_ptr option \<Rightarrow> usize \<Rightarrow> CBB \<Rightarrow> unit option \<times> CBB" where
  "cbb_init sys b cap cbb =
     (case OPENSSL_malloc sys 32 of
        None \<Rightarrow> (None, cbb)
      | Some _ \<Rightarrow> (Some (), cbb\<lparr>cbb_base :=
          Some \<lparr>bb_buf = b, bb_len = 0, bb_cap = cap, bb_can_resize = True, bb_error = False\<rparr>\<rparr>))"

definition CBB_init :: "system_malloc \<Rightarrow> usize \<Rightarrow> unit option \<times> CBB" where
  "CBB_init sys initial_capacity =
     (let b = OPENSSL_malloc sys initial_capacity
      in if initial_capacity > 0 \<and> b = None then (None, CBB_zero)
         else cbb_init sys b initial_capacity CBB_zero)"

text \<open>A fixed buffer is the caller's memory; nothing is stored in front of it.\<close>

definition CBB_init_fixed :: "system_malloc \<Rightarrow> bytes \<Rightarrow> unit option \<times> CBB" where
  "CBB_init_fixed sys fixed =
     andthen (cbb_init sys (Some \<lparr>size_prefix = 0, mem = fixed\<rparr>) (of_nat (length fixed)))
       (\<lambda>_ cbb. (Some (), cbb\<lparr>cbb_base := map_option (bb_can_resize_update (\<lambda>_. False)) (cbb_base cbb)\<rparr>))
       CBB_zero"

definition CBB_cleanup :: "CBB \<Rightarrow> CBB" where
  "CBB_cleanup cbb = cbb\<lparr>cbb_base := None\<rparr>"

definition bb_mem :: "cbb_buffer_st \<Rightarrow> bytes" where
  "bb_mem b = (case bb_buf b of None \<Rightarrow> [] | Some p \<Rightarrow> mem p)"

definition bb_write :: "cbb_buffer_st \<Rightarrow> usize \<Rightarrow> bytes \<Rightarrow> cbb_buffer_st" where
  "bb_write b off src = b\<lparr>bb_buf := map_option (mem_update (\<lambda>m. mem_write m (unat off) src)) (bb_buf b)\<rparr>"

text \<open>\<open>cbb_buffer_reserve\<close>: the offset of the reserved bytes.\<close>

definition cbb_buffer_reserve ::
  "system_malloc \<Rightarrow> usize \<Rightarrow> cbb_buffer_st \<Rightarrow> usize option \<times> cbb_buffer_st" where
  "cbb_buffer_reserve sys n b =
     (let newlen = bb_len b + n
      in if newlen < bb_len b then (None, b\<lparr>bb_error := True\<rparr>)
         else if newlen > bb_cap b then
           let newcap = bb_cap b * 2
           in if \<not> bb_can_resize b then (None, b\<lparr>bb_error := True\<rparr>)
              else let newcap = (if newcap < bb_cap b \<or> newcap < newlen then newlen else newcap)
                in case OPENSSL_realloc sys (bb_buf b) newcap of
                     None \<Rightarrow> (None, b\<lparr>bb_error := True\<rparr>)
                   | Some newbuf \<Rightarrow> (Some (bb_len b), b\<lparr>bb_buf := Some newbuf, bb_cap := newcap\<rparr>)
         else (Some (bb_len b), b))"

definition cbb_buffer_add ::
  "system_malloc \<Rightarrow> usize \<Rightarrow> cbb_buffer_st \<Rightarrow> usize option \<times> cbb_buffer_st" where
  "cbb_buffer_add sys n = andthen (cbb_buffer_reserve sys n)
     (\<lambda>out b. (Some out, b\<lparr>bb_len := bb_len b + n\<rparr>))"

text \<open>
  The loops that store the \<open>k\<close> low-order bytes of \<open>v\<close> from the last position backwards: the bytes
  in order, and what is left of \<open>v\<close>.
\<close>

primrec store_be :: "nat \<Rightarrow> 'a::len word \<Rightarrow> bytes \<times> 'a word" where
  "store_be 0 v = ([], v)"
| "store_be (Suc k) v = (let (bs, v') = store_be k (drop_bit 8 v) in (bs @ [ucast v], v'))"

definition cbb_buffer_add_u ::
  "system_malloc \<Rightarrow> u32 \<Rightarrow> usize \<Rightarrow> cbb_buffer_st \<Rightarrow> unit option \<times> cbb_buffer_st" where
  "cbb_buffer_add_u sys v len_len b =
     (if len_len = 0 then (Some (), b)
      else andthen (cbb_buffer_add sys len_len) (\<lambda>off b.
        let (bs, v) = store_be (unat len_len) v;
            b = bb_write b off bs
        in if v \<noteq> 0 then (None, b\<lparr>bb_error := True\<rparr>) else (Some (), b)) b)"

section \<open>Flushing pending length prefixes\<close>

text \<open>
  The part of \<open>CBB_flush\<close> after the recursive call: writing the length prefix of the flushed
  child.  For ASN.1 the contents move up when the length needs more than its one byte; the
  choice of the number of length bytes, the first of them, and the length still to store:
\<close>

definition len_choice :: "usize \<Rightarrow> u8 \<times> u8 \<times> usize" where
  "len_choice n =
     (if n > 0xffffff then (5, 0x80 OR 4, n)
      else if n > 0xffff then (4, 0x80 OR 3, n)
      else if n > 0xff then (3, 0x80 OR 2, n)
      else if n > 0x7f then (2, 0x80 OR 1, n)
      else (1, ucast n, 0))"

text \<open>Storing the \<open>k\<close>-byte length \<open>n\<close> at \<open>off\<close>: an error if it does not fit.\<close>

definition store_len :: "nat \<Rightarrow> usize \<Rightarrow> usize \<Rightarrow> cbb_buffer_st \<Rightarrow> unit option \<times> cbb_buffer_st" where
  "store_len k off n b =
     (let (bs, rest) = store_be k n;
          b = bb_write b off bs
      in if rest \<noteq> 0 then (None, b\<lparr>bb_error := True\<rparr>) else (Some (), b))"

text \<open>Moving the contents \<open>extra\<close> bytes up.\<close>

definition make_room ::
  "system_malloc \<Rightarrow> usize \<Rightarrow> usize \<Rightarrow> usize \<Rightarrow> cbb_buffer_st \<Rightarrow> unit option \<times> cbb_buffer_st" where
  "make_room sys child_start n extra =
     andthen (cbb_buffer_add sys extra) (\<lambda>_ b.
       (Some (), bb_write b (child_start + extra) (take (unat n) (drop (unat child_start) (bb_mem b)))))"

definition flush_child ::
  "system_malloc \<Rightarrow> cbb_child \<Rightarrow> cbb_buffer_st \<Rightarrow> unit option \<times> cbb_buffer_st" where
  "flush_child sys c b =
     (let child_start = c_offset c + ucast (c_pending_len_len c)
      in if child_start < c_offset c \<or> bb_len b < child_start then (None, b\<lparr>bb_error := True\<rparr>)
         else
           let n = bb_len b - child_start
           in if c_pending_is_asn1 c then
                if n > 0xfffffffe then (None, b\<lparr>bb_error := True\<rparr>)
                else
                  let (len_len, initial_length_byte, n') = len_choice n
                  in case (if len_len \<noteq> 1 then make_room sys child_start n (ucast (len_len - 1)) b
                           else (Some (), b)) of
                       (None, b) \<Rightarrow> (None, b\<lparr>bb_error := True\<rparr>)
                     | (Some _, b) \<Rightarrow>
                         store_len (unat (len_len - 1)) (c_offset c + 1) n'
                           (bb_write b (c_offset c) [initial_length_byte])
              else store_len (unat (c_pending_len_len c)) (c_offset c) n b)"

text \<open>
  \<open>CBB_flush\<close> on a \<open>CBB\<close> with the chain \<open>cs\<close> below it: whether it succeeds, the chain left, and
  the buffer.
\<close>

fun flush_chain ::
  "system_malloc \<Rightarrow> cbb_child list \<Rightarrow> cbb_buffer_st \<Rightarrow> bool \<times> cbb_child list \<times> cbb_buffer_st" where
  "flush_chain sys [] b = (\<not> bb_error b, [], b)"
| "flush_chain sys (c # cs) b =
     (if bb_error b then (False, c # cs, b)
      else if c_pending_len_len c = 0 then (True, c # cs, b)
      else case flush_chain sys cs b of
        (False, cs, b) \<Rightarrow> (False, c # cs, b\<lparr>bb_error := True\<rparr>)
      | (True, cs, b) \<Rightarrow>
          (case flush_child sys c b of
             (None, b) \<Rightarrow> (False, c # cs, b)
           | (Some _, b) \<Rightarrow> (True, [], b)))"

definition CBB_flush :: "system_malloc \<Rightarrow> nat \<Rightarrow> CBB \<Rightarrow> unit option \<times> CBB" where
  "CBB_flush sys d cbb =
     (case cbb_base cbb of
        None \<Rightarrow> (None, cbb)
      | Some b \<Rightarrow>
          if length (cbb_children cbb) < d then (None, cbb)
          else case flush_chain sys (drop d (cbb_children cbb)) b of
            (ok, cs, b) \<Rightarrow>
              (if ok then Some () else None,
               cbb\<lparr>cbb_base := Some b, cbb_children := take d (cbb_children cbb) @ cs\<rparr>))"

text \<open>Running a buffer operation on the shared buffer.\<close>

definition on_base ::
  "(cbb_buffer_st \<Rightarrow> 'a option \<times> cbb_buffer_st) \<Rightarrow> CBB \<Rightarrow> 'a option \<times> CBB" where
  "on_base f cbb =
     (case cbb_base cbb of
        None \<Rightarrow> (None, cbb)
      | Some b \<Rightarrow> (case f b of (r, b) \<Rightarrow> (r, cbb\<lparr>cbb_base := Some b\<rparr>)))"

text \<open>
  \<open>CBB_finish\<close> with output pointers that are not \<open>NULL\<close>, which a resizable buffer requires.
\<close>

definition CBB_finish :: "system_malloc \<Rightarrow> nat \<Rightarrow> CBB \<Rightarrow> (heap_ptr option \<times> usize) option \<times> CBB" where
  "CBB_finish sys d cbb =
     (if d \<noteq> 0 then (None, cbb)
      else andthen (CBB_flush sys 0) (\<lambda>_ cbb.
        case cbb_base cbb of
          None \<Rightarrow> (None, cbb)
        | Some b \<Rightarrow> (Some (bb_buf b, bb_len b), CBB_cleanup cbb)) cbb)"

definition handle_start :: "nat \<Rightarrow> CBB \<Rightarrow> usize" where
  "handle_start d cbb =
     (if d = 0 then 0
      else let c = cbb_children cbb ! (d - 1) in c_offset c + ucast (c_pending_len_len c))"

text \<open>\<open>CBB_len\<close> and \<open>CBB_data\<close> (the bytes from that address to the end of the buffer).\<close>

definition CBB_len :: "nat \<Rightarrow> CBB \<Rightarrow> usize" where
  "CBB_len d cbb = (case cbb_base cbb of None \<Rightarrow> 0 | Some b \<Rightarrow> bb_len b - handle_start d cbb)"

definition CBB_data :: "nat \<Rightarrow> CBB \<Rightarrow> bytes" where
  "CBB_data d cbb = (case cbb_base cbb of None \<Rightarrow> [] | Some b \<Rightarrow> drop (unat (handle_start d cbb)) (bb_mem b))"

section \<open>Adding data\<close>

definition cbb_add_length_prefixed :: "system_malloc \<Rightarrow> nat \<Rightarrow> u8 \<Rightarrow> CBB \<Rightarrow> unit option \<times> CBB" where
  "cbb_add_length_prefixed sys d len_len =
     andthen (CBB_flush sys d) (\<lambda>_.
     andthen (on_base (cbb_buffer_add sys (ucast len_len))) (\<lambda>offset.
     andthen (on_base (\<lambda>b. (Some (), bb_write b offset (replicate (unat len_len) 0)))) (\<lambda>_ cbb.
       (Some (), cbb\<lparr>cbb_children := cbb_children cbb @
          [\<lparr>c_offset = offset, c_pending_len_len = len_len, c_pending_is_asn1 = False\<rparr>]\<rparr>))))"

definition CBB_add_u8_length_prefixed :: "system_malloc \<Rightarrow> nat \<Rightarrow> CBB \<Rightarrow> unit option \<times> CBB" where
  "CBB_add_u8_length_prefixed sys d = cbb_add_length_prefixed sys d 1"

definition CBB_add_u16_length_prefixed :: "system_malloc \<Rightarrow> nat \<Rightarrow> CBB \<Rightarrow> unit option \<times> CBB" where
  "CBB_add_u16_length_prefixed sys d = cbb_add_length_prefixed sys d 2"

definition CBB_add_u24_length_prefixed :: "system_malloc \<Rightarrow> nat \<Rightarrow> CBB \<Rightarrow> unit option \<times> CBB" where
  "CBB_add_u24_length_prefixed sys d = cbb_add_length_prefixed sys d 3"

definition CBB_add_u8 :: "system_malloc \<Rightarrow> nat \<Rightarrow> u8 \<Rightarrow> CBB \<Rightarrow> unit option \<times> CBB" where
  "CBB_add_u8 sys d val = andthen (CBB_flush sys d) (\<lambda>_. on_base (cbb_buffer_add_u sys (ucast val) 1))"

definition CBB_add_u16 :: "system_malloc \<Rightarrow> nat \<Rightarrow> u16 \<Rightarrow> CBB \<Rightarrow> unit option \<times> CBB" where
  "CBB_add_u16 sys d val = andthen (CBB_flush sys d) (\<lambda>_. on_base (cbb_buffer_add_u sys (ucast val) 2))"

definition CBB_add_u24 :: "system_malloc \<Rightarrow> nat \<Rightarrow> u32 \<Rightarrow> CBB \<Rightarrow> unit option \<times> CBB" where
  "CBB_add_u24 sys d val = andthen (CBB_flush sys d) (\<lambda>_. on_base (cbb_buffer_add_u sys val 3))"

definition CBB_add_u32 :: "system_malloc \<Rightarrow> nat \<Rightarrow> u32 \<Rightarrow> CBB \<Rightarrow> unit option \<times> CBB" where
  "CBB_add_u32 sys d val = andthen (CBB_flush sys d) (\<lambda>_. on_base (cbb_buffer_add_u sys val 4))"

text \<open>The number of base-128 digits: the \<open>while (copy > 0)\<close> loop.\<close>

function base128_len :: "u64 \<Rightarrow> nat" where
  "base128_len copy = (if copy > 0 then Suc (base128_len (drop_bit 7 copy)) else 0)"
  by auto

termination
proof (relation "measure unat")
  fix copy :: u64
  assume "copy > 0"
  then have "0 < unat copy"
    by (simp add: word_less_nat_alt)
  then have "unat copy div 128 < unat copy"
    by (intro div_less_dividend) simp_all
  then show "(drop_bit 7 copy, copy) \<in> measure unat"
    by (simp add: drop_bit_eq_div unat_div)
qed simp

declare base128_len.simps [simp del]

text \<open>The loop from digit \<open>i - 1\<close> down to digit 0.\<close>

primrec add_base128_loop :: "system_malloc \<Rightarrow> nat \<Rightarrow> u64 \<Rightarrow> nat \<Rightarrow> CBB \<Rightarrow> unit option \<times> CBB" where
  "add_base128_loop sys d v 0 = (\<lambda>cbb. (Some (), cbb))"
| "add_base128_loop sys d v (Suc i) =
     (let byte = ucast (drop_bit (7 * i) v) AND 0x7f;
          byte = (if i \<noteq> 0 then byte OR 0x80 else byte)
      in andthen (CBB_add_u8 sys d byte) (\<lambda>_. add_base128_loop sys d v i))"

definition add_base128_integer :: "system_malloc \<Rightarrow> nat \<Rightarrow> u64 \<Rightarrow> CBB \<Rightarrow> unit option \<times> CBB" where
  "add_base128_integer sys d v =
     (let len_len = base128_len v;
          len_len = (if len_len = 0 then 1 else len_len)
      in add_base128_loop sys d v len_len)"

definition CBB_add_asn1 :: "system_malloc \<Rightarrow> nat \<Rightarrow> u32 \<Rightarrow> CBB \<Rightarrow> unit option \<times> CBB" where
  "CBB_add_asn1 sys d tag =
     andthen (CBB_flush sys d) (\<lambda>_.
     let tag_bits = ucast (drop_bit CBS_ASN1_TAG_SHIFT tag) AND 0xe0 :: u8;
         tag_number = tag AND CBS_ASN1_TAG_NUMBER_MASK
     in andthen
       (if tag_number \<ge> 0x1f then
          andthen (CBB_add_u8 sys d (tag_bits OR 0x1f)) (\<lambda>_. add_base128_integer sys d (ucast tag_number))
        else CBB_add_u8 sys d (tag_bits OR ucast tag_number)) (\<lambda>_ cbb.
     let offset = (case cbb_base cbb of None \<Rightarrow> 0 | Some b \<Rightarrow> bb_len b)
     in andthen (CBB_add_u8 sys d 0) (\<lambda>_ cbb.
       (Some (), cbb\<lparr>cbb_children := cbb_children cbb @
          [\<lparr>c_offset = offset, c_pending_len_len = 1, c_pending_is_asn1 = True\<rparr>]\<rparr>)) cbb))"

definition CBB_add_bytes :: "system_malloc \<Rightarrow> nat \<Rightarrow> bytes \<Rightarrow> CBB \<Rightarrow> unit option \<times> CBB" where
  "CBB_add_bytes sys d dat =
     andthen (CBB_flush sys d) (\<lambda>_.
     andthen (on_base (cbb_buffer_add sys (of_nat (length dat)))) (\<lambda>dest.
       on_base (\<lambda>b. (Some (), bb_write b dest dat))))"

text \<open>\<open>CBB_add_space\<close> and \<open>CBB_reserve\<close>: the offset of the space in the buffer.\<close>

definition CBB_add_space :: "system_malloc \<Rightarrow> nat \<Rightarrow> usize \<Rightarrow> CBB \<Rightarrow> usize option \<times> CBB" where
  "CBB_add_space sys d n = andthen (CBB_flush sys d) (\<lambda>_. on_base (cbb_buffer_add sys n))"

definition CBB_reserve :: "system_malloc \<Rightarrow> nat \<Rightarrow> usize \<Rightarrow> CBB \<Rightarrow> usize option \<times> CBB" where
  "CBB_reserve sys d n = andthen (CBB_flush sys d) (\<lambda>_. on_base (cbb_buffer_reserve sys n))"

definition CBB_did_write :: "nat \<Rightarrow> usize \<Rightarrow> CBB \<Rightarrow> unit option \<times> CBB" where
  "CBB_did_write d n cbb = on_base (\<lambda>b.
     let newlen = bb_len b + n
     in if d < length (cbb_children cbb) \<or> newlen < bb_len b \<or> newlen > bb_cap b then (None, b)
        else (Some (), b\<lparr>bb_len := newlen\<rparr>)) cbb"

definition CBB_discard_child :: "nat \<Rightarrow> CBB \<Rightarrow> CBB" where
  "CBB_discard_child d cbb =
     (if length (cbb_children cbb) \<le> d then cbb
      else cbb\<lparr>cbb_base := map_option (bb_len_update (\<lambda>_. c_offset (cbb_children cbb ! d))) (cbb_base cbb),
               cbb_children := take d (cbb_children cbb)\<rparr>)"

section \<open>Typed elements\<close>

text \<open>
  The loop of \<open>CBB_add_asn1_uint64\<close> over \<open>i\<close>, with \<open>k = 8 - i\<close> bytes still to do: whether a byte
  has been written.
\<close>

primrec asn1_uint64_loop :: "system_malloc \<Rightarrow> nat \<Rightarrow> u64 \<Rightarrow> nat \<Rightarrow> bool \<Rightarrow> CBB \<Rightarrow> bool option \<times> CBB" where
  "asn1_uint64_loop sys d val 0 started = (\<lambda>cbb. (Some started, cbb))"
| "asn1_uint64_loop sys d val (Suc k) started =
     (let byte = ucast (drop_bit (8 * k) val AND 0xff) :: u8
      in if \<not> started \<and> byte = 0 then asn1_uint64_loop sys d val k started
         else andthen
           (if \<not> started \<and> byte AND 0x80 \<noteq> 0 then CBB_add_u8 sys d 0 else (\<lambda>cbb. (Some (), cbb)))
           (\<lambda>_. andthen (CBB_add_u8 sys d byte) (\<lambda>_. asn1_uint64_loop sys d val k True)))"

definition CBB_add_asn1_uint64 :: "system_malloc \<Rightarrow> nat \<Rightarrow> u64 \<Rightarrow> CBB \<Rightarrow> unit option \<times> CBB" where
  "CBB_add_asn1_uint64 sys d val =
     andthen (CBB_add_asn1 sys d CBS_ASN1_INTEGER) (\<lambda>_.
     andthen (asn1_uint64_loop sys (d + 1) val 8 False) (\<lambda>started.
     andthen (if \<not> started then CBB_add_u8 sys (d + 1) 0 else (\<lambda>cbb. (Some (), cbb))) (\<lambda>_.
       CBB_flush sys d)))"

definition CBB_add_asn1_octet_string :: "system_malloc \<Rightarrow> nat \<Rightarrow> bytes \<Rightarrow> CBB \<Rightarrow> unit option \<times> CBB" where
  "CBB_add_asn1_octet_string sys d dat =
     andthen (CBB_add_asn1 sys d CBS_ASN1_OCTETSTRING) (\<lambda>_.
     andthen (CBB_add_bytes sys (d + 1) dat) (\<lambda>_. CBB_flush sys d))"

definition CBB_add_asn1_bool :: "system_malloc \<Rightarrow> nat \<Rightarrow> int \<Rightarrow> CBB \<Rightarrow> unit option \<times> CBB" where
  "CBB_add_asn1_bool sys d val =
     andthen (CBB_add_asn1 sys d CBS_ASN1_BOOLEAN) (\<lambda>_.
     andthen (CBB_add_u8 sys (d + 1) (if val \<noteq> 0 then 0xff else 0)) (\<lambda>_. CBB_flush sys d))"

section \<open>Object identifiers\<close>

text \<open>The loop of \<open>parse_dotted_decimal\<close>; \<open>UINT64_MAX\<close> is \<open>- 1\<close>.\<close>

fun parse_dotted_loop :: "u64 \<Rightarrow> bool \<Rightarrow> CBS \<Rightarrow> u64 option \<times> CBS" where
  "parse_dotted_loop out seen_digit [] = (if seen_digit then Some out else None, [])"
| "parse_dotted_loop out seen_digit (u # cbs) =
     (if u = 46 \<and> CBS_len cbs > 0 then (if seen_digit then Some out else None, cbs)
      else if u < 48 \<or> u > 57 \<or> (seen_digit \<and> out = 0) \<or> out > (- 1) div 10 \<or> out * 10 > (- 1) - ucast (u - 48)
      then (None, cbs)
      else parse_dotted_loop (out * 10 + ucast (u - 48)) True cbs)"

definition parse_dotted_decimal :: "CBS \<Rightarrow> u64 option \<times> CBS" where
  "parse_dotted_decimal = parse_dotted_loop 0 False"

lemma parse_dotted_shorter:
  "cbs \<noteq> [] \<Longrightarrow> length (snd (parse_dotted_loop out seen cbs)) < length cbs"
proof (induction out seen cbs rule: parse_dotted_loop.induct)
  case (2 out seen u cbs)
  then show ?case
    by (cases "cbs = []") (auto simp: less_SucI)
qed simp

text \<open>The loop over the remaining components.\<close>

function oid_components :: "system_malloc \<Rightarrow> nat \<Rightarrow> CBS \<Rightarrow> CBB \<Rightarrow> unit option \<times> CBB" where
  "oid_components sys d cbs cbb =
     (if cbs = [] then (Some (), cbb)
      else case parse_dotted_decimal cbs of
        (None, _) \<Rightarrow> (None, cbb)
      | (Some a, cbs') \<Rightarrow>
          (case add_base128_integer sys d a cbb of
             (None, cbb) \<Rightarrow> (None, cbb)
           | (Some _, cbb) \<Rightarrow> oid_components sys d cbs' cbb))"
  by auto

termination
  by (relation "measure (\<lambda>(_, _, cbs, _). length cbs)")
    (simp, auto simp: parse_dotted_decimal_def, metis parse_dotted_shorter snd_conv)

declare oid_components.simps [simp del]

definition CBB_add_asn1_oid_from_text :: "system_malloc \<Rightarrow> nat \<Rightarrow> bytes \<Rightarrow> CBB \<Rightarrow> unit option \<times> CBB" where
  "CBB_add_asn1_oid_from_text sys d txt =
     andthen (CBB_flush sys d) (\<lambda>_ cbb.
       case parse_dotted_decimal (CBS_init txt (of_nat (length txt))) of
         (None, _) \<Rightarrow> (None, cbb)
       | (Some a, cbs) \<Rightarrow>
         (case parse_dotted_decimal cbs of
            (None, _) \<Rightarrow> (None, cbb)
          | (Some b, cbs) \<Rightarrow>
              if a > 2 \<or> (a < 2 \<and> b > 39) \<or> b > (- 1) - 80 then (None, cbb)
              else andthen (add_base128_integer sys d (40 * a + b)) (\<lambda>_. oid_components sys d cbs) cbb))"

text \<open>
  The decimal digits that \<open>printf\<close> writes for an unsigned value, and \<open>CBS_asn1_oid_to_text\<close>
  (\<open>cbs.c\<close>): the block with the NUL-terminated text and its length.
\<close>

fun decimal :: "nat \<Rightarrow> bytes" where
  "decimal n = (if n < 10 then [of_nat (48 + n)] else decimal (n div 10) @ [of_nat (48 + n mod 10)])"

declare decimal.simps [simp del]

definition add_decimal :: "system_malloc \<Rightarrow> u64 \<Rightarrow> CBB \<Rightarrow> unit option \<times> CBB" where
  "add_decimal sys v = CBB_add_bytes sys 0 (decimal (unat v))"

lemma parse_base128_shorter:
  "cbs \<noteq> [] \<Longrightarrow> length (snd (parse_base128_loop v cbs)) < length cbs"
proof (induction v cbs rule: parse_base128_loop.induct)
  case (2 v b cbs)
  then show ?case
    by (cases "cbs = []") (auto simp: Let_def less_SucI)
qed simp

function oid_text_loop :: "system_malloc \<Rightarrow> CBS \<Rightarrow> CBB \<Rightarrow> unit option \<times> CBB" where
  "oid_text_loop sys cbs cbb =
     (if cbs = [] then (Some (), cbb)
      else case parse_base128_integer cbs of
        (None, _) \<Rightarrow> (None, cbb)
      | (Some v, cbs') \<Rightarrow>
          (case andthen (CBB_add_u8 sys 0 46) (\<lambda>_. add_decimal sys v) cbb of
             (None, cbb) \<Rightarrow> (None, cbb)
           | (Some _, cbb) \<Rightarrow> oid_text_loop sys cbs' cbb))"
  by auto

termination
  by (relation "measure (\<lambda>(_, cbs, _). length cbs)")
    (simp, auto simp: parse_base128_integer_def, metis parse_base128_shorter snd_conv)

declare oid_text_loop.simps [simp del]

definition CBS_asn1_oid_to_text :: "system_malloc \<Rightarrow> CBS \<Rightarrow> (heap_ptr option \<times> usize) option" where
  "CBS_asn1_oid_to_text sys cbs =
     (case CBB_init sys 32 of
        (None, _) \<Rightarrow> None
      | (Some _, cbb) \<Rightarrow>
        (case parse_base128_integer cbs of
           (None, _) \<Rightarrow> None
         | (Some v, copy) \<Rightarrow>
             fst (andthen
               (if v \<ge> 80 then andthen (CBB_add_bytes sys 0 [50, 46]) (\<lambda>_. add_decimal sys (v - 80))
                else andthen (add_decimal sys (v div 40)) (\<lambda>_.
                  andthen (CBB_add_u8 sys 0 46) (\<lambda>_. add_decimal sys (v mod 40)))) (\<lambda>_.
               andthen (oid_text_loop sys copy) (\<lambda>_.
               andthen (CBB_add_u8 sys 0 0) (\<lambda>_. CBB_finish sys 0))) cbb)))"

section \<open>Sorting a SET OF\<close>

text \<open>\<open>OPENSSL_memcmp\<close> of the common prefix, as the sign of the first difference.\<close>

fun memcmp_sign :: "bytes \<Rightarrow> bytes \<Rightarrow> int" where
  "memcmp_sign (a # as) (b # bs) = (if a < b then - 1 else if b < a then 1 else memcmp_sign as bs)"
| "memcmp_sign _ _ = 0"

definition compare_set_of_element :: "CBS \<Rightarrow> CBS \<Rightarrow> int" where
  "compare_set_of_element a b =
     (let a_len = CBS_len a; b_len = CBS_len b;
          min_len = (if a_len < b_len then a_len else b_len);
          ret = memcmp_sign (take (unat min_len) a) (take (unat min_len) b)
      in if ret \<noteq> 0 then ret
         else if a_len = b_len then 0
         else if a_len < b_len then - 1 else 1)"

text \<open>
  The two parsing passes, which succeed or fail together: the elements of the contents.  The
  test on the lengths holds for every parsed element and makes the recursion well-founded.
\<close>

function set_of_children :: "CBS \<Rightarrow> CBS list option" where
  "set_of_children cbs =
     (if cbs = [] then Some []
      else case CBS_get_any_asn1_element cbs of
        (None, _) \<Rightarrow> None
      | (Some (child, _, _), cbs') \<Rightarrow>
          if length cbs' < length cbs then map_option ((#) child) (set_of_children cbs') else None)"
  by auto

termination
  by (relation "measure length") auto

declare set_of_children.simps [simp del]

text \<open>\<open>sort\<close> stands for the C library's \<open>qsort\<close> with \<open>compare_set_of_element\<close>.\<close>

primrec set_of_write :: "system_malloc \<Rightarrow> nat \<Rightarrow> CBS list \<Rightarrow> CBB \<Rightarrow> unit option \<times> CBB" where
  "set_of_write sys d [] = (\<lambda>cbb. (Some (), cbb))"
| "set_of_write sys d (c # cs) = andthen (CBB_add_bytes sys d c) (\<lambda>_. set_of_write sys d cs)"

definition CBB_flush_asn1_set_of ::
  "system_malloc \<Rightarrow> ((CBS \<Rightarrow> CBS \<Rightarrow> int) \<Rightarrow> CBS list \<Rightarrow> CBS list) \<Rightarrow> nat \<Rightarrow> CBB \<Rightarrow> unit option \<times> CBB" where
  "CBB_flush_asn1_set_of sys qsort d =
     andthen (CBB_flush sys d) (\<lambda>_ cbb.
       case set_of_children (CBS_init (CBB_data d cbb) (CBB_len d cbb)) of
         None \<Rightarrow> (None, cbb)
       | Some children \<Rightarrow>
           let num_children = of_nat (length children) :: usize
           in if num_children < 2 then (Some (), cbb)
              else if num_children > (- 1) div 16 then (None, cbb)
              else if BUF_memdup sys (take (unat (CBB_len d cbb)) (CBB_data d cbb)) = None \<or>
                OPENSSL_malloc sys (num_children * 16) = None then (None, cbb)
              else set_of_write sys d (qsort compare_set_of_element children)
                (cbb\<lparr>cbb_base := map_option (bb_len_update (\<lambda>_. handle_start d cbb)) (cbb_base cbb)\<rparr>))"

end
