(* ===== verification/CBS_DER.thy ===== *)
theory CBS_DER
  imports CBS
begin

text \<open>
  The DER parser of \<open>cbs.c\<close> against the encodings of \<open>DER\<close>: every reader accepts exactly the
  canonical encodings of its values, and leaves the bytes behind them.
\<close>

section \<open>Base-128 integers\<close>

lemma byte_parts:
  "128 \<le> unat b \<Longrightarrow> of_nat (128 + unat b mod 128) = (b :: u8)"
  "unat b < 128 \<Longrightarrow> of_nat (unat b mod 128) = (b :: u8)"
proof -
  assume "128 \<le> unat b"
  then have "128 + unat b mod 128 = unat b"
    using unat_u8_less [of b] le_mod_geq [of 128 "unat b"] mod_less [of "unat b - 128" 128] by linarith
  then show "of_nat (128 + unat b mod 128) = b"
    by simp
qed simp

lemma drop_bit_57: "drop_bit 57 (v :: u64) = 0 \<longleftrightarrow> unat v < 2 ^ 57"
  by (simp add: word_unat_eq_iff drop_bit_eq_div unat_div div_eq_0_iff)

lemma unat_push7:
  assumes "unat (v :: u64) < 2 ^ 57"
  shows "unat (push_bit 7 v OR ucast (b AND 0x7f :: u8)) = unat v * 128 + unat b mod 128"
proof -
  have "take_bit 7 (ucast (b AND 0x7f) :: u64) = ucast (b AND 0x7f)"
    unfolding and_7f by (rule bit_word_eqI) (auto simp: bit_simps)
  then have "push_bit 7 v OR ucast (b AND 0x7f) = v * 128 + ucast (b AND 0x7f)"
    using push_bit_or_add [of 7 "ucast (b AND 0x7f)" v] by simp
  moreover have "unat (ucast (b AND 0x7f) :: u64) = unat b mod 128"
    by (simp add: unsigned_ucast_eq unat_and_7f take_bit_nat_eq_self)
  ultimately show ?thesis
    using assms by (simp add: unat_word_ariths)
qed

lemma parse_base128_sound:
  "parse_base128_loop v cbs = (Some w, rest) \<Longrightarrow>
     \<exists>gs. cbs = gs @ rest \<and> base128 (unat w) = b128_cont (unat v) @ gs"
proof (induction v cbs rule: parse_base128_loop.induct)
  case (2 v b cbs)
  define v' where "v' = push_bit 7 v OR ucast (b AND 0x7f)"
  have ok: "drop_bit (64 - 7) v = 0" "\<not> (v = 0 \<and> b = 0x80)"
    using "2.prems" by (auto split: if_splits)
  then have v': "unat v' = unat v * 128 + unat b mod 128"
    unfolding v'_def by (intro unat_push7) (simp add: drop_bit_57)
  show ?case
  proof (cases "b AND 0x80 = 0")
    case True
    then have "w = v'" "rest = cbs" "unat b < 128"
      using "2.prems" ok and_80 [of b] by (auto simp: v'_def Let_def split: if_splits)
    then have "base128 (unat w) = b128_cont (unat v) @ [b]"
      using v' byte_parts(2) [of b] base128_step [of "unat b mod 128" "unat v"] by simp
    then show ?thesis
      using \<open>rest = cbs\<close> by (intro exI [of _ "[b]"]) simp
  next
    case False
    then have "parse_base128_loop v' cbs = (Some w, rest)" and hi: "128 \<le> unat b"
      using "2.prems" ok and_80 [of b] by (auto simp: v'_def Let_def split: if_splits)
    then obtain gs where gs: "cbs = gs @ rest" "base128 (unat w) = b128_cont (unat v') @ gs"
      using "2.IH" ok False v'_def by (auto simp: Let_def)
    have "unat v \<noteq> 0 \<or> unat b mod 128 \<noteq> 0"
    proof (rule ccontr)
      assume *: "\<not> ?thesis"
      then have "unat b = 128"
        using hi unat_u8_less [of b] by presburger
      then have "b = 0x80"
        by (simp add: word_unat_eq_iff)
      then show False
        using * ok(2) by (simp add: unsigned_eq_0_iff)
    qed
    then have "b128_cont (unat v') = b128_cont (unat v) @ [b]"
      unfolding v' using b128_cont_step [of "unat v" "unat b mod 128"] byte_parts(1) [OF hi] by simp
    then show ?thesis
      using gs by (intro exI [of _ "b # gs"]) simp
  qed
qed simp

lemma parse_base128_cont:
  "n < 2 ^ 57 \<Longrightarrow> parse_base128_loop 0 (b128_cont n @ bs) = parse_base128_loop (of_nat n) bs"
proof (induction n arbitrary: bs rule: b128_cont.induct)
  case (1 n)
  show ?case
  proof (cases "n = 0")
    case False
    define m where "m = n div 128"
    define b :: u8 where "b = of_nat (128 + n mod 128)"
    have ub: "unat b = 128 + n mod 128"
      unfolding b_def by (intro unat_of_nat_small) simp
    have um: "unat (of_nat m :: u64) = m"
      using "1.prems" by (intro unat_of_nat_small) (simp add: m_def)
    have "m < 2 ^ 57"
      using "1.prems" by (simp add: m_def)
    then have "parse_base128_loop 0 (b128_cont n @ bs) = parse_base128_loop (of_nat m) (b # bs)"
      using "1.IH" [of "b # bs"] False by (simp add: b128_cont.simps [of n] m_def b_def)
    also have "\<dots> = parse_base128_loop (of_nat n) bs"
    proof -
      have "drop_bit 57 (of_nat m :: u64) = 0"
        unfolding drop_bit_57 um by (rule \<open>m < 2 ^ 57\<close>)
      moreover have "\<not> ((of_nat m :: u64) = 0 \<and> b = 0x80)"
      proof
        assume *: "(of_nat m :: u64) = 0 \<and> b = 0x80"
        then have "m = 0" "128 + n mod 128 = 128"
          using um ub by auto
        then show False
          using False by (simp add: m_def div_eq_0_iff)
      qed
      moreover have "push_bit 7 (of_nat m) OR ucast (b AND 0x7f) = (of_nat n :: u64)"
        unfolding word_unat_eq_iff
        using unat_push7 [of "of_nat m" b] \<open>m < 2 ^ 57\<close> "1.prems"
        by (simp add: um ub unat_of_nat_small m_def)
      moreover have "b AND 0x80 \<noteq> 0"
        unfolding and_80 ub by simp
      ultimately show ?thesis
        by auto
    qed
    finally show ?thesis .
  qed simp
qed

lemma parse_base128_complete:
  assumes "n < 2 ^ 64"
  shows "parse_base128_integer (base128 n @ rest) = (Some (of_nat n), rest)"
proof -
  define m where "m = n div 128"
  define b :: u8 where "b = of_nat (n mod 128)"
  have "m < 2 ^ 57"
    using assms by (simp add: m_def)
  have ub: "unat b = n mod 128"
    unfolding b_def by (intro unat_of_nat_small) (simp add: less_trans [of _ 128])
  have um: "unat (of_nat m :: u64) = m"
    using \<open>m < 2 ^ 57\<close> by (intro unat_of_nat_small) simp
  have "parse_base128_integer (base128 n @ rest) = parse_base128_loop (of_nat m) (b # rest)"
    using parse_base128_cont [OF \<open>m < 2 ^ 57\<close>, of "b # rest"]
    by (simp add: parse_base128_integer_def base128_def m_def b_def)
  also have "\<dots> = (Some (of_nat n), rest)"
  proof -
    have "drop_bit 57 (of_nat m :: u64) = 0"
      unfolding drop_bit_57 um by (rule \<open>m < 2 ^ 57\<close>)
    moreover have "b \<noteq> 0x80"
      using ub by (auto simp: word_unat_eq_iff)
    moreover have "push_bit 7 (of_nat m) OR ucast (b AND 0x7f) = (of_nat n :: u64)"
      unfolding word_unat_eq_iff
      using unat_push7 [of "of_nat m" b] \<open>m < 2 ^ 57\<close> assms
      by (simp add: um ub unat_of_nat_small m_def)
    moreover have "b AND 0x80 = 0"
      using and_80 [of b] ub mod_less_divisor [of 128 n] by linarith
    ultimately show ?thesis
      by simp
  qed
  finally show ?thesis .
qed

text \<open>The reader accepts exactly the minimal base-128 encodings.\<close>

lemma parse_base128_iff:
  "parse_base128_integer cbs = (Some w, rest) \<longleftrightarrow> cbs = base128 (unat w) @ rest"
proof
  assume "parse_base128_integer cbs = (Some w, rest)"
  then show "cbs = base128 (unat w) @ rest"
    using parse_base128_sound [of 0 cbs w rest] by (auto simp: parse_base128_integer_def)
next
  assume "cbs = base128 (unat w) @ rest"
  then show "parse_base128_integer cbs = (Some w, rest)"
    using parse_base128_complete [of "unat w" rest] unat_lt64 [of w] by simp
qed

section \<open>Identifiers\<close>

lemma ucast_1f: "(ucast (b :: u8) :: u32) AND 0x1f = ucast (b AND 0x1f)"
  by (simp add: unsigned_and_eq)

lemma unat_1f: "unat ((b :: u8) AND 0x1f) < 32"
proof -
  have "unat (b AND 0x1f) = take_bit 5 (unat b)"
    by (simp add: and_1f unsigned_take_bit_eq)
  then show ?thesis
    using take_bit_nat_less_exp [of 5 "unat b"] by simp
qed

lemma unat_ucast_u8_u32: "unat (ucast (b :: u8) :: u32) = unat b"
  using unat_u8_less [of b] by (simp add: unsigned_ucast_eq take_bit_nat_eq_self del: unat_u8_less)

lemma ucast_ucast_u8_u32 [simp]: "ucast (ucast (b :: u8) :: u32) = b"
  by (rule bit_word_eqI) (auto simp: bit_simps)

text \<open>The parser in terms of the parts of the tag.\<close>

lemma parse_asn1_tag_Cons:
  assumes "fits (b # cs)"
  shows "parse_asn1_tag (b # cs) =
    (if b AND 0x1f = 0x1f then
       andthen parse_base128_integer (\<lambda>v cbs.
         if v > 0x1fffffff \<or> v < 0x1f then (None, cbs) else (Some (mk_tag b (ucast v)), cbs)) cs
     else (Some (mk_tag b (ucast (b AND 0x1f))), cs))"
proof -
  have "(ucast (b AND 0x1f) :: u32) = 0x1f \<longleftrightarrow> b AND 0x1f = 0x1f"
    unfolding word_unat_eq_iff unat_ucast_u8_u32 by simp
  moreover have "(ucast (0x1fffffff :: u32) :: u64) = 0x1fffffff"
    by simp
  ultimately show ?thesis
    using assms unfolding mk_tag_def
    by (simp add: parse_asn1_tag_def CBS_ASN1_TAG_SHIFT_def CBS_ASN1_TAG_NUMBER_MASK_def
        ucast_1f and_e0_32)
qed

lemma parse_asn1_tag_sound:
  assumes "fits cbs" "parse_asn1_tag cbs = (Some tag, rest)"
  shows "cbs = der_tag tag @ rest"
proof (cases cbs)
  case Nil
  then show ?thesis
    using assms by (simp add: parse_asn1_tag_def)
next
  case (Cons b cs)
  show ?thesis
  proof (cases "b AND 0x1f = 0x1f")
    case False
    then have tag: "tag = mk_tag b (ucast (b AND 0x1f))" and rest: "rest = cs"
      using assms Cons by (simp_all add: parse_asn1_tag_Cons)
    have "unat (b AND 0x1f) \<noteq> 31"
      using False by (simp add: word_unat_eq_iff)
    then have "unat (b AND 0x1f) < 31"
      using unat_1f [of b] by simp
    moreover have "tag_bits tag = (b AND 0xe0)" "tag_num tag = ucast (b AND 0x1f)"
      using mk_tag_parts [of "ucast (b AND 0x1f)" b] unat_1f [of b]
      by (simp_all add: tag unat_ucast_u8_u32)
    ultimately show ?thesis
      using Cons rest and_parts_u8 [of b] by (simp add: der_tag_def unat_ucast_u8_u32)
  next
    case True
    obtain v where v: "parse_base128_integer cs = (Some v, rest)" "\<not> v > 0x1fffffff" "\<not> v < 0x1f"
      and tag: "tag = mk_tag b (ucast v)"
      using assms Cons True
      by (auto simp: parse_asn1_tag_Cons andthen_eq_Some split: if_splits)
    have vn: "31 \<le> unat v" "unat v < 2 ^ 29"
      using v(2,3) by (simp_all add: word_less_nat_alt)
    then have uv: "unat (ucast v :: u32) = unat v"
      by (simp add: unsigned_ucast_eq take_bit_nat_eq_self)
    have "tag_bits tag = (b AND 0xe0)" "tag_num tag = ucast v"
      using mk_tag_parts [of "ucast v" b] vn by (simp_all add: tag uv)
    moreover have "cs = base128 (unat v) @ rest"
      using v(1) by (simp add: parse_base128_iff)
    moreover have "(b AND 0xe0) OR 31 = b"
      using and_parts_u8 [of b] True by simp
    ultimately show ?thesis
      using Cons vn by (simp add: der_tag_def uv)
  qed
qed

lemma parse_asn1_tag_complete:
  assumes "fits (der_tag tag @ rest)"
  shows "parse_asn1_tag (der_tag tag @ rest) = (Some tag, rest)"
proof (cases "unat (tag_num tag) < 31")
  case True
  define x where "x = (ucast (tag_num tag) :: u8)"
  have ux: "unat x = unat (tag_num tag)"
    using True by (simp add: x_def unsigned_ucast_eq take_bit_nat_eq_self)
  have x5: "take_bit 5 x = x"
    using True by (simp add: word_unat_eq_iff unsigned_take_bit_eq ux take_bit_nat_eq_self)
  have "ucast x = tag_num tag"
    by (simp add: word_unat_eq_iff unat_ucast_u8_u32 ux)
  moreover have "x \<noteq> 0x1f"
    using True ux by auto
  ultimately show ?thesis
    using True assms mk_tag_of_parts [OF x5, of tag] tag_bits_low [OF x5, of tag]
    by (simp add: der_tag_def parse_asn1_tag_Cons flip: x_def)
next
  case False
  define v :: u64 where "v = ucast (tag_num tag)"
  have uv: "unat v = unat (tag_num tag)"
    by (simp add: v_def unsigned_ucast_eq take_bit_nat_eq_self less_trans [OF tag_num_less])
  have "parse_base128_integer (base128 (unat (tag_num tag)) @ rest) = (Some v, rest)"
    by (simp add: parse_base128_iff uv)
  moreover have "\<not> v > 0x1fffffff" "\<not> v < 0x1f"
    using False tag_num_less [of tag] by (simp_all add: word_less_nat_alt uv)
  moreover have "ucast v = tag_num tag"
    using tag_num_less [of tag]
    by (simp add: word_unat_eq_iff unsigned_ucast_eq uv take_bit_nat_eq_self)
  moreover have "mk_tag (tag_bits tag OR 31) (tag_num tag) = tag"
    by (rule mk_tag_of_parts) (simp add: word_unat_eq_iff)
  moreover have "(tag_bits tag OR 31) AND 0x1f = 0x1f"
    by (rule tag_bits_low) (simp add: word_unat_eq_iff)
  ultimately show ?thesis
    using False assms by (simp add: der_tag_def parse_asn1_tag_Cons)
qed

lemma parse_asn1_tag_iff:
  "fits cbs \<Longrightarrow> parse_asn1_tag cbs = (Some tag, rest) \<longleftrightarrow> cbs = der_tag tag @ rest"
  using parse_asn1_tag_sound parse_asn1_tag_complete by blast

section \<open>Elements\<close>

lemma drop_bit_zero32: "drop_bit m (w :: u32) = 0 \<longleftrightarrow> unat w < 2 ^ m"
proof -
  have "unat (drop_bit m w) = unat w div 2 ^ m"
    by (simp only: unsigned_drop_bit_eq drop_bit_eq_div [where 'a = nat]) simp
  then show ?thesis
    by (simp add: word_unat_eq_iff div_eq_0_iff)
qed

lemma power_256_8: "(256 :: nat) ^ k = 2 ^ (k * 8)"
proof -
  have "(2 :: nat) ^ (k * 8) = (2 ^ 8) ^ k"
    by (simp only: mult.commute [of k 8] power_mult)
  then show ?thesis
    by simp
qed

text \<open>The number of octets of the long form is the one with a non-zero leading octet.\<close>

lemma len_octets_unique:
  assumes "1 \<le> k" "k \<le> 4" "256 ^ (k - 1) \<le> n" "n < 256 ^ k" "128 \<le> n"
  shows "len_octets n = k"
proof -
  consider "k = 1" | "k = 2" | "k = 3" | "k = 4"
    using assms(1,2) by linarith
  then show ?thesis
    using assms by cases (simp_all add: len_octets_def)
qed

lemma len_octets_range:
  assumes "128 \<le> n" "n < 2 ^ 32"
  shows "1 \<le> len_octets n" "len_octets n \<le> 4" "256 ^ (len_octets n - 1) \<le> n" "n < 256 ^ len_octets n"
  using assms by (simp_all add: len_octets_def)

lemma long_form_der_len:
  assumes "length p = k" "1 \<le> k" "k \<le> 4" "128 \<le> be_val p" "256 ^ (k - 1) \<le> be_val p"
  shows "der_len (be_val p) = of_nat (128 + k) # p" "be_val p < 2 ^ 32"
proof -
  have b: "be_val p < 256 ^ k"
    using be_val_bound [of p] assms(1) by simp
  then have "len_octets (be_val p) = k"
    using assms by (intro len_octets_unique) simp_all
  then show "der_len (be_val p) = of_nat (128 + k) # p"
    using assms be_bytes_be_val [OF assms(1)] by (simp add: der_len_def)
  have "(256 :: nat) ^ k \<le> 256 ^ 4"
    using assms(3) by (intro power_increasing) simp_all
  then show "be_val p < 2 ^ 32"
    using b by simp
qed

text \<open>
  The parser after the identifier: the length octets it accepts, for the definite forms.  \<open>hl\<close> is
  the number of bytes up to and including the first length octet.
\<close>

definition parse_len :: "u8 \<Rightarrow> CBS \<Rightarrow> (nat \<times> nat) option" where
  "parse_len lb h =
     (if lb AND 0x80 = 0 then Some (unat lb, 0)
      else let k = unat lb - 128
        in if k = 0 \<or> k > 4 \<or> length h < k then None
           else let n = be_val (take k h)
             in if n < 128 \<or> n < 256 ^ (k - 1) then None else Some (n, k))"

lemma parse_len_sound:
  assumes "parse_len lb h = Some (n, k)"
  shows "\<exists>p rest. h = p @ rest \<and> length p = k \<and> der_len n = lb # p \<and> n < 2 ^ 32"
proof (cases "lb AND 0x80 = 0")
  case True
  then have "unat lb < 128" "n = unat lb" "k = 0"
    using assms and_80 [of lb] by (auto simp: parse_len_def)
  then show ?thesis
    by (simp add: der_len_def)
next
  case False
  define p where "p = take k h"
  have k: "k = unat lb - 128" "1 \<le> k" "k \<le> 4" "length p = k" "n = be_val p" "128 \<le> n" "256 ^ (k - 1) \<le> n"
    using assms False by (auto simp: parse_len_def Let_def p_def split: if_splits)
  have "128 + k = unat lb"
    using False and_80 [of lb] k(1) by simp
  then have "of_nat (128 + k) = lb"
    by (simp del: of_nat_add)
  moreover have "h = p @ drop k h"
    by (simp add: p_def)
  ultimately show ?thesis
    using long_form_der_len [OF k(4,2,3)] k by metis
qed

lemma parse_len_complete:
  assumes "n < 2 ^ 32" "der_len n = lb # p"
  shows "parse_len lb (p @ rest) = Some (n, length p)"
proof (cases "n < 128")
  case True
  then have "p = []" "lb = of_nat n"
    using assms by (simp_all add: der_len_def)
  moreover have "unat (of_nat n :: u8) = n"
    using True by (intro unat_of_nat_small) simp
  ultimately show ?thesis
    using True and_80 [of lb] by (simp add: parse_len_def)
next
  case False
  then have n: "128 \<le> n"
    by simp
  note r = len_octets_range [OF n assms(1)]
  have p: "p = be_bytes (len_octets n) n" and lb: "lb = of_nat (128 + len_octets n)"
    using assms(2) n by (simp_all add: der_len_def)
  have ulb: "unat lb = 128 + len_octets n"
    unfolding lb using r by (intro unat_of_nat_small) simp
  have "be_val p = n"
    using r(4) by (simp add: p be_val_be_bytes)
  then show ?thesis
    using r n ulb and_80 [of lb] by (simp add: parse_len_def p)
qed

lemma CBS_get_bytes_out:
  assumes "fits cbs" "unat n = m"
  shows "andthen (CBS_get_bytes n) (\<lambda>out cbs. (Some (out, tag, hl), cbs)) cbs =
    (if length cbs < m then (None, cbs) else (Some (take m cbs, tag, hl), drop m cbs))"
  using assms by (auto simp: andthen_def CBS_get_bytes_def cbs_get_eq)

text \<open>The parser of elements with its machine arithmetic removed.\<close>

lemma any_element_eq:
  assumes fits: "fits cbs" and cbs: "cbs = der_tag tag @ lb # h"
    and definite: "\<not> (ber_ok \<and> tag AND CBS_ASN1_CONSTRUCTED \<noteq> 0 \<and> lb = 0x80)"
  shows "cbs_get_any_asn1_element ber_ok cbs =
    (case parse_len lb h of
       None \<Rightarrow> (None, cbs)
     | Some (n, k) \<Rightarrow>
         let hl = length (der_tag tag) + 1 + k
         in if length cbs < hl + n then (None, cbs)
            else (Some (take (hl + n) cbs, tag, of_nat hl), drop (hl + n) cbs))"
proof -
  define t where "t = length (der_tag tag) + 1"
  have t: "t \<le> 7" "length cbs = t + length h"
    using length_der_tag [of tag] cbs by (simp_all add: t_def)
  have tag: "parse_asn1_tag cbs = (Some tag, lb # h)"
    using parse_asn1_tag_iff [OF fits, of tag "lb # h"] cbs by simp
  have lb: "CBS_get_u8 (lb # h) = (Some lb, h)" and fh: "fits h"
    using fits cbs by simp_all
  have hl: "CBS_len cbs - CBS_len h = of_nat t"
    by (simp add: CBS_len_def t(2))
  have ut: "unat (of_nat t :: usize) = t"
    using t by (intro unat_of_nat_small) simp
  show ?thesis
  proof (cases "lb AND 0x80 = 0")
    case True
    have "unat (ucast lb + of_nat t :: usize) = unat lb + t"
      using t unat_u8_less [of lb]
      by (simp add: unat_add64 ut unsigned_ucast_eq take_bit_nat_eq_self del: unat_u8_less)
    note bytes = CBS_get_bytes_out [OF fits this, of tag "of_nat t"]
    have "cbs_get_any_asn1_element ber_ok cbs =
        (if length cbs < unat lb + t then (None, cbs)
         else (Some (take (unat lb + t) cbs, tag, of_nat t), drop (unat lb + t) cbs))"
      using True tag lb bytes by (simp add: cbs_get_any_asn1_element_def hl Let_def)
    moreover have "parse_len lb h = Some (unat lb, 0)"
      using True by (simp add: parse_len_def)
    ultimately show ?thesis
      unfolding Let_def t_def [symmetric] by (simp add: add.commute)
  next
    case False
    define k where "k = unat lb - 128"
    define nb :: usize where "nb = ucast (lb AND 0x7f)"
    have "128 \<le> unat lb"
      using False and_80 [of lb] by simp
    have "unat lb mod 128 = k"
      using \<open>128 \<le> unat lb\<close> unat_u8_less [of lb] le_mod_geq [of 128 "unat lb"]
        mod_less [of "unat lb - 128" 128] unfolding k_def by linarith
    then have nb: "unat nb = k"
      by (simp add: nb_def unsigned_ucast_eq unat_and_7f take_bit_nat_eq_self)
    have k0: "lb = 0x80 \<longleftrightarrow> k = 0"
      using \<open>128 \<le> unat lb\<close> by (simp add: word_unat_eq_iff k_def)
    have nb0: "nb = 0 \<longleftrightarrow> k = 0" "nb > 4 \<longleftrightarrow> k > 4"
      using nb by (simp_all add: word_unat_eq_iff word_less_nat_alt)
    note defs = cbs_get_any_asn1_element_def hl nb_def [symmetric] parse_len_def Let_def k_def [symmetric]
    show ?thesis
    proof (cases "k = 0 \<or> k > 4 \<or> length h < k")
      case bad: True
      have "cbs_get_u nb h = (None, h)" if "length h < k"
        using that fh nb by (simp add: cbs_get_u_def cbs_get_eq andthen_def)
      then show ?thesis
        using bad False tag lb definite k0 nb0 by (auto simp: defs)
    next
      case ok: False
      define L where "L = be_val (take k h)"
      have Lb: "L < 256 ^ k"
        using be_val_bound [of "take k h"] ok by (simp add: L_def min_absorb2)
      have "(256 :: nat) ^ k \<le> 256 ^ 4"
        using ok by (intro power_increasing) simp_all
      then have L32: "L < 4294967296"
        using Lb by simp
      have uL: "unat (of_nat L :: u32) = L" "unat (of_nat L :: usize) = L"
        using L32 by (simp_all add: unat_of_nat_small)
      have get: "cbs_get_u nb h = (Some (of_nat L), drop k h)"
        using cbs_get_u_Some [OF fh, of nb "of_nat L" "drop k h"] nb ok
        by (auto simp: L_def intro!: exI [of _ "take k h"])
      have "unat ((nb - 1) * 8) = (k - 1) * 8"
      proof -
        have "nb - 1 = of_nat (k - 1)"
          using ok unfolding nb [symmetric] by (simp add: of_nat_diff)
        moreover have "unat (of_nat ((k - 1) * 8) :: usize) = (k - 1) * 8"
          using ok by (intro unat_of_nat_small) (simp, linarith)
        ultimately show ?thesis
          by simp
      qed
      then have top: "drop_bit (unat ((nb - 1) * 8)) (of_nat L :: u32) = 0 \<longleftrightarrow> L < 256 ^ (k - 1)"
        by (simp add: drop_bit_zero32 uL power_256_8)
      have small: "(of_nat L :: u32) < 128 \<longleftrightarrow> L < 128"
        by (simp add: word_less_nat_alt uL)
      have ucL: "(ucast (of_nat L :: u32) :: usize) = of_nat L"
        using L32 by (simp add: word_unat_eq_iff unsigned_ucast_eq uL take_bit_nat_eq_self)
      have ulen: "unat (of_nat L + (of_nat t + nb) :: usize) = t + k + L"
        using L32 t ok by (simp add: unat_add64 uL ut nb)
      have "unat (of_nat L + of_nat t + nb :: usize) = L + t + k"
        using L32 t ok by (simp add: unat_add64 uL ut nb)
      then have nowrap: "\<not> (of_nat L + of_nat t + nb :: usize) < of_nat L"
        by (simp add: word_less_nat_alt uL)
      have hk: "of_nat t + nb = of_nat (t + k)"
        unfolding nb [symmetric] by simp
      have "cbs_get_any_asn1_element ber_ok cbs =
          (if L < 128 \<or> L < 256 ^ (k - 1) then (None, cbs)
           else if length cbs < t + k + L then (None, cbs)
           else (Some (take (t + k + L) cbs, tag, of_nat (t + k)), drop (t + k + L) cbs))"
        using CBS_get_bytes_out [OF fits ulen, of tag "of_nat t + nb"] tag lb False definite k0 nb0 ok top
        by (simp add: cbs_get_any_asn1_element_def hl nb_def [symmetric] get small ucL nowrap hk Let_def)
      moreover have "parse_len lb h = (if L < 128 \<or> L < 256 ^ (k - 1) then None else Some (L, k))"
        using False ok by (simp add: parse_len_def Let_def flip: k_def L_def)
      ultimately show ?thesis
        unfolding Let_def t_def [symmetric] by simp
    qed
  qed
qed

text \<open>A successful parse has read an identifier and a length octet.\<close>

lemma any_element_header:
  assumes "fits cbs" "cbs_get_any_asn1_element ber_ok cbs = (Some r, rest)"
  shows "\<exists>tag lb h. cbs = der_tag tag @ lb # h"
proof -
  obtain tag h where h: "parse_asn1_tag cbs = (Some tag, h)"
    using assms(2) by (auto simp: cbs_get_any_asn1_element_def split: prod.splits option.splits)
  then have cbs: "cbs = der_tag tag @ h"
    using parse_asn1_tag_iff [OF assms(1)] by simp
  have "h \<noteq> []"
    using assms(2) h by (auto simp: cbs_get_any_asn1_element_def)
  then show ?thesis
    using cbs by (cases h) auto
qed

lemma get_bytes_None:
  "fst (andthen (CBS_get_bytes n) (\<lambda>out cbs. (Some (out, tag, hl), cbs)) cbs) = None \<Longrightarrow>
     snd (andthen (CBS_get_bytes n) (\<lambda>out cbs. (Some (out, tag, hl), cbs)) cbs) = cbs"
  by (auto simp: andthen_def CBS_get_bytes_def cbs_get_def split: if_splits)

lemma any_element_None:
  assumes "fst (cbs_get_any_asn1_element ber_ok cbs) = None"
  shows "snd (cbs_get_any_asn1_element ber_ok cbs) = cbs"
proof -
  obtain tag h where 1: "parse_asn1_tag cbs = (tag, h)"
    by force
  obtain lb h2 where 2: "CBS_get_u8 h = (lb, h2)"
    by force
  obtain l h3 where 3: "cbs_get_u (ucast (the lb AND 0x7f)) h2 = (l, h3)"
    by force
  show ?thesis
    using assms 1 2 3
    by (cases tag; cases lb; cases l)
      (auto simp: cbs_get_any_asn1_element_def Let_def get_bytes_None split: if_split_asm)
qed

lemma any_element_sound:
  assumes "fits cbs" "CBS_get_any_asn1_element cbs = (Some (out, tag, hl), rest)"
  shows "\<exists>content. out = der_element tag content \<and> cbs = out @ rest \<and> length content < 2 ^ 32 \<and>
    hl = of_nat (length (der_header tag (length content)))"
proof -
  obtain tag' lb h where cbs: "cbs = der_tag tag' @ lb # h"
    using any_element_header assms unfolding CBS_get_any_asn1_element_def by blast
  note eq = any_element_eq [OF assms(1) cbs, of False, folded CBS_get_any_asn1_element_def]
  obtain n k where nk: "parse_len lb h = Some (n, k)"
    using eq assms(2) by (auto split: option.splits)
  define m where "m = length (der_tag tag') + 1 + k"
  have r: "out = take (m + n) cbs" "tag' = tag" "hl = of_nat m" "rest = drop (m + n) cbs" "m + n \<le> length cbs"
    using eq assms(2) unfolding nk by (auto simp: Let_def m_def split: if_splits)
  obtain p h2 where p: "h = p @ h2" "length p = k" "der_len n = lb # p" "n < 2 ^ 32"
    using parse_len_sound [OF nk] by blast
  have hdr: "cbs = der_header tag n @ h2" "length (der_header tag n) = m"
    using cbs p r(2) by (simp_all add: der_header_def m_def)
  have "n \<le> length h2"
    using hdr r(5) by simp
  then have len: "length (take n h2) = n"
    by simp
  have "out = der_element tag (take n h2)"
    unfolding der_element_def len using r(1) hdr by simp
  moreover have "cbs = out @ rest"
    using r by simp
  moreover have "hl = of_nat (length (der_header tag n))" "n < 2 ^ 32"
    using r(3) hdr(2) p(4) by simp_all
  ultimately show ?thesis
    using len by (intro exI [of _ "take n h2"]) metis
qed

lemma any_element_complete:
  assumes "fits (der_element tag content @ rest)" "length content < 2 ^ 32"
  shows "CBS_get_any_asn1_element (der_element tag content @ rest) =
    (Some (der_element tag content, tag, of_nat (length (der_header tag (length content)))), rest)"
proof -
  obtain lb p where lp: "der_len (length content) = lb # p"
    using length_der_len(1) [of "length content"] by (cases "der_len (length content)") auto
  have cbs: "der_element tag content @ rest = der_tag tag @ lb # p @ content @ rest"
    by (simp add: der_element_def der_header_def lp)
  have "length (der_element tag content) = length (der_tag tag) + 1 + length p + length content"
    by (simp add: der_element_def der_header_def lp)
  then show ?thesis
    using any_element_eq [OF assms(1) cbs, of False] parse_len_complete [OF assms(2) lp, of "content @ rest"]
    by (simp add: CBS_get_any_asn1_element_def der_header_def lp Let_def)
qed

text \<open>The reader of elements accepts exactly the distinguished encodings.\<close>

lemma any_element_iff:
  assumes "fits cbs"
  shows "CBS_get_any_asn1_element cbs = (Some (out, tag, hl), rest) \<longleftrightarrow>
    (\<exists>content. out = der_element tag content \<and> cbs = out @ rest \<and> length content < 2 ^ 32 \<and>
      hl = of_nat (length (der_header tag (length content))))"
  using any_element_sound [OF assms] any_element_complete assms by blast

lemma cbs_get_asn1_Some:
  assumes "fits cbs"
  shows "CBS_get_asn1 tag cbs = (Some content, rest) \<longleftrightarrow>
    cbs = der_element tag content @ rest \<and> length content < 2 ^ 32"
proof -
  have skip: "CBS_skip (of_nat (length (der_header tag (length c)))) (der_element tag c) = (Some (), c)"
    if "fits (der_element tag c)" for c
    using that CBS_skip_Some [OF that] length_der_header(1) [of tag "length c"]
    by (auto simp: der_element_def unat_of_nat_small less_trans)
  show ?thesis
  proof
    assume "CBS_get_asn1 tag cbs = (Some content, rest)"
    then obtain out hl where e: "CBS_get_any_asn1_element cbs = (Some (out, tag, hl), rest)"
      and s: "fst (CBS_skip hl out) = Some ()" "snd (CBS_skip hl out) = content"
      by (auto simp: CBS_get_asn1_def cbs_get_asn1_def andthen_eq_Some split: if_splits prod.splits option.splits)
    obtain c where c: "out = der_element tag c" "cbs = out @ rest" "length c < 2 ^ 32"
      "hl = of_nat (length (der_header tag (length c)))"
      using any_element_sound [OF assms e] by blast
    then have "c = content"
      using skip [of c] s assms by simp
    then show "cbs = der_element tag content @ rest \<and> length content < 2 ^ 32"
      using c by simp
  next
    assume *: "cbs = der_element tag content @ rest \<and> length content < 2 ^ 32"
    then show "CBS_get_asn1 tag cbs = (Some content, rest)"
      using any_element_complete [of tag content rest] skip [of content] assms
      by (simp add: CBS_get_asn1_def cbs_get_asn1_def)
  qed
qed

section \<open>Integers and booleans\<close>

lemma be_val_uint_content: "be_val (uint_content n) = n"
  using be_val_sig_bytes [of n] by (auto simp: uint_content_def be_val_Cons split: list.splits)

lemma be_val_zero_Cons [simp]: "be_val (0 # bs) = be_val bs"
  by (simp add: be_val_Cons)

lemma length_uint_content: "n < 2 ^ 64 \<Longrightarrow> length (uint_content n) \<le> 9"
  using length_sig_bytes [of n 8] by (auto simp: uint_content_def split: list.splits)

text \<open>The checks of the reader on the contents describe the canonical contents.\<close>

definition uint_content_ok :: "bytes \<Rightarrow> bool" where
  "uint_content_ok dat \<longleftrightarrow> dat \<noteq> [] \<and> dat ! 0 AND 0x80 = 0 \<and>
     \<not> (dat ! 0 = 0 \<and> 1 < length dat \<and> dat ! 1 AND 0x80 = 0)"

lemma uint_content_ok_iff: "uint_content_ok dat \<longleftrightarrow> dat = uint_content (be_val dat)"
proof
  assume ok: "uint_content_ok dat"
  then obtain b bs where dat: "dat = b # bs"
    by (cases dat) (auto simp: uint_content_ok_def)
  show "dat = uint_content (be_val dat)"
  proof (cases "b = 0")
    case False
    then have "sig_bytes (be_val dat) = dat"
      by (intro sig_bytes_be_val) (simp add: dat)
    then show ?thesis
      using ok by (simp add: uint_content_def dat uint_content_ok_def)
  next
    case True
    show ?thesis
    proof (cases bs)
      case Nil
      then show ?thesis
        using True be_val_zero_Cons [of "[]"] by (simp add: dat uint_content_def del: be_val_zero_Cons)
    next
      case (Cons c cs)
      then have c: "c AND 0x80 \<noteq> 0"
        using ok True by (simp add: uint_content_ok_def dat)
      then have "sig_bytes (be_val bs) = bs"
        by (intro sig_bytes_be_val) (auto simp: Cons)
      then show ?thesis
        using c True Cons by (simp add: dat uint_content_def)
    qed
  qed
next
  assume dat: "dat = uint_content (be_val dat)"
  show "uint_content_ok dat"
    using hd_sig_bytes [of "be_val dat"]
    by (subst dat, cases "be_val dat = 0") (auto simp: uint_content_ok_def uint_content_def split: list.splits)
qed

lemma drop_bit_56: "drop_bit 56 (v :: u64) = 0 \<longleftrightarrow> unat v < 2 ^ 56"
  by (simp add: word_unat_eq_iff drop_bit_eq_div unat_div div_eq_0_iff)

lemma uint64_loop_eq:
  assumes "n < 2 ^ 64"
  shows "uint64_loop (of_nat n) bs =
    (if n * 256 ^ length bs + be_val bs < 2 ^ 64 then Some (of_nat (n * 256 ^ length bs + be_val bs)) else None)"
  using assms
proof (induction bs arbitrary: n)
  case (Cons b bs)
  have un: "unat (of_nat n :: u64) = n"
    using Cons.prems by (intro unat_of_nat_small) simp
  have total: "n * 256 ^ length (b # bs) + be_val (b # bs) = (n * 256 + unat b) * 256 ^ length bs + be_val bs"
    by (simp add: be_val_Cons algebra_simps)
  show ?case
  proof (cases "n < 2 ^ 56")
    case True
    have "push_bit 8 (of_nat n) OR ucast b = (of_nat (n * 256 + unat b) :: u64)"
      unfolding push8_or by simp
    then have "uint64_loop (of_nat n) (b # bs) = uint64_loop (of_nat (n * 256 + unat b)) bs"
      using True un by (simp add: drop_bit_56 del: of_nat_add of_nat_mult)
    moreover have "n * 256 + unat b < 2 ^ 64"
      using True unat_u8_less [of b] by (simp del: unat_u8_less; linarith)
    ultimately show ?thesis
      unfolding total using Cons.IH [of "n * 256 + unat b"] by (simp only:)
  next
    case False
    have "2 ^ 64 \<le> (n * 256 + unat b) * 1"
      using False by simp
    also have "\<dots> \<le> (n * 256 + unat b) * 256 ^ length bs"
      by (intro mult_le_mono2) simp
    finally have "\<not> n * 256 ^ length (b # bs) + be_val (b # bs) < 2 ^ 64"
      unfolding total by simp
    then show ?thesis
      using False un by (simp add: drop_bit_56)
  qed
qed simp

lemma uint64_reader:
  assumes "fits cbs"
  shows "CBS_get_asn1_uint64 cbs = (Some v, rest) \<longleftrightarrow>
    cbs = der_element CBS_ASN1_INTEGER (uint_content (unat v)) @ rest"
proof -
  have reader: "(if CBS_len dat = 0 then (None, rest)
     else if dat ! 0 AND 0x80 \<noteq> 0 then (None, rest)
     else if dat ! 0 = 0 \<and> CBS_len dat > 1 \<and> dat ! 1 AND 0x80 = 0 then (None, rest)
     else (uint64_loop 0 dat, rest)) = (Some v, rest') \<longleftrightarrow>
       rest' = rest \<and> dat = uint_content (unat v)" if "fits dat" for dat rest rest' :: bytes
  proof -
    have "CBS_len dat = 0 \<longleftrightarrow> dat = []" "CBS_len dat > 1 \<longleftrightarrow> 1 < length dat"
      using unat_CBS_len [OF that] by (auto simp: word_unat_eq_iff word_less_nat_alt)
    moreover have "uint64_loop 0 dat = (if be_val dat < 2 ^ 64 then Some (of_nat (be_val dat)) else None)"
      using uint64_loop_eq [of 0 dat] by simp
    ultimately have "?thesis \<longleftrightarrow> (uint_content_ok dat \<and> be_val dat < 2 ^ 64 \<and> v = of_nat (be_val dat) \<and> rest' = rest
        \<longleftrightarrow> rest' = rest \<and> dat = uint_content (unat v))"
      by (auto simp: uint_content_ok_def)
    moreover have "uint_content_ok dat \<and> be_val dat < 2 ^ 64 \<and> v = of_nat (be_val dat) \<longleftrightarrow> dat = uint_content (unat v)"
      using uint_content_ok_iff [of dat] be_val_uint_content [of "unat v"] unat_lt64 [of v]
        unat_of_nat_small [of "be_val dat", where 'a = 64] by auto
    ultimately show ?thesis
      by blast
  qed
  have "length (uint_content (unat v)) < 2 ^ 32"
    using length_uint_content [of "unat v"] unat_lt64 [of v] by simp
  have get: "CBS_get_asn1 CBS_ASN1_INTEGER cbs = (Some dat, r) \<longleftrightarrow>
      cbs = der_element CBS_ASN1_INTEGER dat @ r \<and> length dat < 2 ^ 32" for dat r
    using cbs_get_asn1_Some [OF assms] .
  show ?thesis
  proof
    assume "CBS_get_asn1_uint64 cbs = (Some v, rest)"
    then obtain dat r where d: "CBS_get_asn1 CBS_ASN1_INTEGER cbs = (Some dat, r)"
      and "(if CBS_len dat = 0 then (None, r)
         else if dat ! 0 AND 0x80 \<noteq> 0 then (None, r)
         else if dat ! 0 = 0 \<and> CBS_len dat > 1 \<and> dat ! 1 AND 0x80 = 0 then (None, r)
         else (uint64_loop 0 dat, r)) = (Some v, rest)"
      unfolding CBS_get_asn1_uint64_def andthen_eq_Some by blast
    then show "cbs = der_element CBS_ASN1_INTEGER (uint_content (unat v)) @ rest"
      using reader [of dat r rest] get [of dat r] by simp
  next
    assume cbs: "cbs = der_element CBS_ASN1_INTEGER (uint_content (unat v)) @ rest"
    then have d: "CBS_get_asn1 CBS_ASN1_INTEGER cbs = (Some (uint_content (unat v)), rest)"
      using get \<open>length (uint_content (unat v)) < 2 ^ 32\<close> by simp
    show "CBS_get_asn1_uint64 cbs = (Some v, rest)"
      unfolding CBS_get_asn1_uint64_def andthen_def d
      using reader [of "uint_content (unat v)" rest rest] length_uint_content [of "unat v"] unat_lt64 [of v] by simp
  qed
qed

lemma bool_reader:
  assumes "fits cbs"
  shows "CBS_get_asn1_bool cbs = (Some v, rest) \<longleftrightarrow>
    cbs = der_element CBS_ASN1_BOOLEAN [if v then 0xff else 0] @ rest"
proof -
  have one: "CBS_len dat = 1 \<longleftrightarrow> (\<exists>b. dat = [b])" if "length dat < 2 ^ 32" for dat
    using that unat_CBS_len [of dat] by (auto simp: word_unat_eq_iff length_Suc_conv)
  have get: "CBS_get_asn1 CBS_ASN1_BOOLEAN cbs = (Some dat, r) \<longleftrightarrow>
      cbs = der_element CBS_ASN1_BOOLEAN dat @ r \<and> length dat < 2 ^ 32" for dat r
    using cbs_get_asn1_Some [OF assms] .
  show ?thesis
  proof
    assume "CBS_get_asn1_bool cbs = (Some v, rest)"
    then obtain dat r where d: "cbs = der_element CBS_ASN1_BOOLEAN dat @ r" "length dat < 2 ^ 32"
      and "CBS_len dat = 1" "dat ! 0 = 0 \<or> dat ! 0 = 0xff" "v = (dat ! 0 \<noteq> 0)" "rest = r"
      unfolding CBS_get_asn1_bool_def andthen_eq_Some get by (auto simp: Let_def split: if_splits)
    then show "cbs = der_element CBS_ASN1_BOOLEAN [if v then 0xff else 0] @ rest"
      using one [OF d(2)] by auto
  next
    assume cbs: "cbs = der_element CBS_ASN1_BOOLEAN [if v then 0xff else 0] @ rest"
    then have d: "CBS_get_asn1 CBS_ASN1_BOOLEAN cbs = (Some [if v then 0xff else 0], rest)"
      using get by simp
    show "CBS_get_asn1_bool cbs = (Some v, rest)"
      unfolding CBS_get_asn1_bool_def andthen_def d by (simp add: CBS_len_def)
  qed
qed

section \<open>Fixed-width integers and length prefixes\<close>

lemma get_u_reader:
  assumes "fits cbs" "unat n = k" "k \<le> 4"
  shows "cbs_get_u n cbs = (Some v, rest) \<longleftrightarrow> cbs = be_bytes k (unat v) @ rest \<and> unat v < 256 ^ k"
proof -
  have le4: "(256 :: nat) ^ k \<le> 256 ^ 4"
    using assms(3) by (intro power_increasing) simp_all
  show ?thesis
  proof
    assume "cbs_get_u n cbs = (Some v, rest)"
    then obtain p where p: "cbs = p @ rest" "length p = k" "v = of_nat (be_val p)"
      using cbs_get_u_Some [OF assms(1)] assms(2) by auto
    then have "be_val p < 256 ^ k"
      using be_val_bound [of p] by simp
    moreover have "unat v = be_val p"
      unfolding p(3) using calculation le4 by (intro unat_of_nat_small) simp
    ultimately show "cbs = be_bytes k (unat v) @ rest \<and> unat v < 256 ^ k"
      using p be_bytes_be_val [OF p(2)] by simp
  next
    assume "cbs = be_bytes k (unat v) @ rest \<and> unat v < 256 ^ k"
    then show "cbs_get_u n cbs = (Some v, rest)"
      using cbs_get_u_Some [OF assms(1), of n v rest] assms(2)
      by (auto simp: be_val_be_bytes intro!: exI [of _ "be_bytes k (unat v)"])
  qed
qed

lemma length_prefixed_reader:
  assumes "fits cbs" "unat n = k" "k \<le> 4"
  shows "cbs_get_length_prefixed n cbs = (Some c, rest) \<longleftrightarrow>
    cbs = be_bytes k (length c) @ c @ rest \<and> length c < 256 ^ k"
proof -
  have u: "unat (ucast (m :: u32) :: usize) = unat m" for m
    by (simp add: unsigned_ucast_eq take_bit_nat_eq_self less_trans [OF unat_lt32])
  have le4: "(256 :: nat) ^ k \<le> 256 ^ 4"
    using assms(3) by (intro power_increasing) simp_all
  show ?thesis
  proof
    assume "cbs_get_length_prefixed n cbs = (Some c, rest)"
    then obtain m r where m: "cbs_get_u n cbs = (Some m, r)" and c: "CBS_get_bytes (ucast m) r = (Some c, rest)"
      by (auto simp: cbs_get_length_prefixed_def andthen_eq_Some)
    have r: "cbs = be_bytes k (unat m) @ r" "unat m < 256 ^ k"
      using m get_u_reader [OF assms] by simp_all
    then show "cbs = be_bytes k (length c) @ c @ rest \<and> length c < 256 ^ k"
      using c CBS_get_bytes_Some [of r "ucast m" c rest] u assms(1) by simp
  next
    assume *: "cbs = be_bytes k (length c) @ c @ rest \<and> length c < 256 ^ k"
    have uc: "unat (of_nat (length c) :: u32) = length c"
      using * le4 by (intro unat_of_nat_small) simp
    have "cbs_get_u n cbs = (Some (of_nat (length c)), c @ rest)"
      using get_u_reader [OF assms, of "of_nat (length c)" "c @ rest"] * uc by simp
    moreover have "CBS_get_bytes (ucast (of_nat (length c) :: u32)) (c @ rest) = (Some c, rest)"
      using CBS_get_bytes_Some [of "c @ rest" "ucast (of_nat (length c) :: u32)" c rest] u
        [of "of_nat (length c)"] * assms(1) uc by simp
    ultimately show "cbs_get_length_prefixed n cbs = (Some c, rest)"
      by (simp add: cbs_get_length_prefixed_def)
  qed
qed

text \<open>No distinguished encoding is a prefix of another.\<close>

lemma der_element_prefix_free:
  assumes "der_element tag c @ r = der_element tag' c' @ r'"
    and "length c < 2 ^ 32" "length c' < 2 ^ 32" "fits (der_element tag c @ r)"
  shows "tag = tag' \<and> c = c' \<and> r = r'"
proof -
  have e: "CBS_get_any_asn1_element (der_element tag c @ r) =
      (Some (der_element tag c, tag, of_nat (length (der_header tag (length c)))), r)"
    by (rule any_element_complete [OF assms(4,2)])
  have e': "CBS_get_any_asn1_element (der_element tag c @ r) =
      (Some (der_element tag' c', tag', of_nat (length (der_header tag' (length c')))), r')"
    unfolding assms(1) using any_element_complete [OF _ assms(3)] assms(1,4) by simp
  have tag: "tag = tag'" "r = r'"
    using e e' by simp_all
  then have "CBS_get_asn1 tag (der_element tag c @ r) = (Some c, r)"
    "CBS_get_asn1 tag (der_element tag c @ r) = (Some c', r)"
    using cbs_get_asn1_Some [OF assms(4)] assms by simp_all
  then show ?thesis
    using tag by simp
qed

section \<open>Properties\<close>



text \<open>
  Claim C4: \<open>CBS_get_asn1_uint64\<close> accepts exactly the INTEGER elements whose contents are the
  minimal big-endian encoding of a value below \<open>2^64\<close>, with a zero octet in front when the top bit
  is set, and returns that value: negative, padded and oversized integers are refused.
\<close>

theorem CBS_get_asn1_uint64_iff:
  assumes "length cbs < 2 ^ 64"
  shows "CBS_get_asn1_uint64 cbs = (Some v, rest) \<longleftrightarrow>
    cbs = der_element CBS_ASN1_INTEGER (uint_content (unat v)) @ rest"
  using uint64_reader [of cbs] assms by simp

lemma CBS_get_asn1_uint64_iff_witness:
  "CBS_get_asn1_uint64 (der_element CBS_ASN1_INTEGER (uint_content (unat (128 :: u64)))) = (Some 128, [])"
proof -
  have "length (der_element CBS_ASN1_INTEGER (uint_content (unat (128 :: u64)))) < 2 ^ 64"
    using length_uint_content [of 128] length_der_header [of CBS_ASN1_INTEGER "length (uint_content 128)"]
    by (simp add: der_element_def)
  then show ?thesis
    using CBS_get_asn1_uint64_iff [of "der_element CBS_ASN1_INTEGER (uint_content (unat (128 :: u64)))" 128 "[]"]
    by simp
qed

text \<open>
  A reader of a length-prefixed string (one, two or three octets of length) succeeds
  exactly on the big-endian length, the string and a rest.
\<close>

lemma CBS_length_prefixed_iff:
  assumes "length cbs < 2 ^ 64"
  shows "(CBS_get_u8_length_prefixed cbs = (Some c, rest) \<longleftrightarrow>
      cbs = be_bytes 1 (length c) @ c @ rest \<and> length c < 2 ^ 8) \<and>
    (CBS_get_u16_length_prefixed cbs = (Some c, rest) \<longleftrightarrow>
      cbs = be_bytes 2 (length c) @ c @ rest \<and> length c < 2 ^ 16) \<and>
    (CBS_get_u24_length_prefixed cbs = (Some c, rest) \<longleftrightarrow>
      cbs = be_bytes 3 (length c) @ c @ rest \<and> length c < 2 ^ 24)"
  using length_prefixed_reader [of cbs 1 1 c rest] length_prefixed_reader [of cbs 2 2 c rest]
    length_prefixed_reader [of cbs 3 3 c rest] assms
  by (simp add: CBS_get_u8_length_prefixed_def CBS_get_u16_length_prefixed_def CBS_get_u24_length_prefixed_def)

lemma CBS_length_prefixed_iff_witness:
  "CBS_get_u16_length_prefixed [0, 2, 5, 6, 7] = (Some [5, 6], [7])"
proof -
  have "be_bytes 2 (Suc (Suc 0)) = [0, 2]"
    by (simp add: be_bytes_def numeral_2_eq_2)
  then show ?thesis
    using CBS_length_prefixed_iff [of "[0, 2, 5, 6, 7]" "[5, 6]" "[7]"] by simp
qed

text \<open>
  A failed \<open>CBS_get_any_asn1_element\<close> (or its BER variant) has not moved the \<open>CBS\<close>,
  while \<open>CBS_get_asn1\<close> on a well-formed element of another tag fails with the element consumed.
\<close>

theorem CBS_failed_reads:
  assumes "length content < 2 ^ 32" "tag \<noteq> tag_value" "length (der_element tag content @ rest) < 2 ^ 64"
  shows "(fst (CBS_get_any_asn1_element cbs) = None \<longrightarrow> snd (CBS_get_any_asn1_element cbs) = cbs) \<and>
    (fst (CBS_get_any_ber_asn1_element cbs) = None \<longrightarrow> snd (CBS_get_any_ber_asn1_element cbs) = cbs) \<and>
    CBS_get_asn1 tag_value (der_element tag content @ rest) = (None, rest)"
  using assms any_element_None [of False cbs] any_element_None [of True cbs] any_element_complete [of tag content rest]
  by (simp add: CBS_get_any_asn1_element_def CBS_get_any_ber_asn1_element_def CBS_get_asn1_def cbs_get_asn1_def)

lemma CBS_failed_reads_witness:
  "CBS_get_asn1 2 (der_element 4 [] @ [7]) = (None, [7])"
  using CBS_failed_reads [of "[]" 4 2 "[7]" "[]"] length_der_header(1) [of 4 0]
  by (simp add: der_element_def)

end
