(* ===== verification/CBB_Spec.thy ===== *)
theory CBB_Spec
  imports CBB CBS_DER
begin

text \<open>
  What the builder of \<open>cbb.c\<close> promises, as operations on nested byte strings, and the proof that
  the buffer with its patched-up length prefixes implements it.
\<close>

section \<open>The buffer as the bytes it holds\<close>

text \<open>
  No system has a block of \<open>2^62\<close> bytes: the addresses of 64-bit processors have fewer bits.
\<close>

definition sys_bounded :: "system_malloc \<Rightarrow> bool" where
  "sys_bounded sys \<longleftrightarrow> (\<forall>n. 2 ^ 62 \<le> unat n \<longrightarrow> sys n = None)"

definition buffer_ok :: "cbb_buffer_st \<Rightarrow> bool" where
  "buffer_ok b \<longleftrightarrow> length (bb_mem b) = unat (bb_cap b) \<and> bb_len b \<le> bb_cap b \<and>
     unat (bb_cap b) < 2 ^ 62 \<and> (bb_can_resize b \<longrightarrow> openssl.sized_opt (bb_buf b))"

definition holds :: "cbb_buffer_st \<Rightarrow> bytes \<Rightarrow> bool" where
  "holds b D \<longleftrightarrow> buffer_ok b \<and> \<not> bb_error b \<and> take (unat (bb_len b)) (bb_mem b) = D"

lemma holds_length: "holds b D \<Longrightarrow> unat (bb_len b) = length D"
  by (auto simp: holds_def buffer_ok_def word_le_nat_alt)

lemma block_of_bb_mem: "openssl.block_of (bb_buf b) = bb_mem b"
  by (simp add: bb_mem_def openssl.block_of_def)

lemma OPENSSL_realloc_bounded:
  assumes "sys_bounded sys" "OPENSSL_realloc sys p n = Some q" "n \<le> malloc_max"
  shows "unat n < 2 ^ 62"
proof -
  have "OPENSSL_malloc sys n \<noteq> None"
    using assms(2) by (auto simp: OPENSSL_realloc_def Let_def split: option.splits)
  then have "sys (n + OPENSSL_MALLOC_PREFIX) \<noteq> None"
    by (auto simp: OPENSSL_malloc_def split: option.splits)
  then have "unat (n + OPENSSL_MALLOC_PREFIX) < 2 ^ 62"
    using assms(1) by (meson not_le sys_bounded_def)
  then show ?thesis
    using unat_add_prefix [OF assms(3)] by simp
qed

text \<open>Outcomes of a step on the buffer: an error is sticky.\<close>

definition step_ok ::
  "('a \<Rightarrow> cbb_buffer_st \<Rightarrow> bool) \<Rightarrow> 'a option \<times> cbb_buffer_st \<Rightarrow> bool" where
  "step_ok Q r = (case r of (None, b) \<Rightarrow> bb_error b | (Some x, b) \<Rightarrow> Q x b)"

lemma step_ok_simps [simp]:
  "step_ok Q (None, b) = bb_error b" "step_ok Q (Some x, b) = Q x b"
  by (simp_all add: step_ok_def)

lemma step_ok_andthen:
  assumes "step_ok Q (m b)" "\<And>x b'. Q x b' \<Longrightarrow> step_ok R (f x b')"
  shows "step_ok R (andthen m f b)"
  using assms by (cases "m b"; cases "fst (m b)") (auto simp: andthen_def)

lemma reserve_holds:
  assumes sys: "sys_bounded sys" and b: "holds b D" and n: "unat n < 2 ^ 62"
  shows "step_ok (\<lambda>off b'. holds b' D \<and> unat off = length D \<and> length D + unat n \<le> unat (bb_cap b') \<and>
      bb_len b' = bb_len b \<and> bb_cap b \<le> bb_cap b') (cbb_buffer_reserve sys n b)"
proof -
  have ok: "length (bb_mem b) = unat (bb_cap b)" "unat (bb_len b) \<le> unat (bb_cap b)" "unat (bb_cap b) < 2 ^ 62"
    and D: "unat (bb_len b) = length D" "take (length D) (bb_mem b) = D"
    using b holds_length [OF b] by (auto simp: holds_def buffer_ok_def word_le_nat_alt)
  have newlen: "unat (bb_len b + n) = length D + unat n"
    using ok n D by (simp add: unat_add64)
  then have nowrap: "\<not> bb_len b + n < bb_len b"
    by (simp add: word_less_nat_alt D)
  have dbl: "unat (bb_cap b * 2) = unat (bb_cap b) * 2"
    using ok by (simp add: unat_word_ariths)
  define newcap where "newcap = (if bb_cap b * 2 < bb_cap b \<or> bb_cap b * 2 < bb_len b + n
      then bb_len b + n else bb_cap b * 2)"
  have nc: "unat newcap = max (unat (bb_cap b) * 2) (length D + unat n)"
    using newlen dbl by (auto simp: newcap_def word_less_nat_alt max_def)
  then have max: "newcap \<le> malloc_max"
    using ok n D by (simp add: malloc_max_def word_le_nat_alt)
  show ?thesis
  proof (cases "bb_len b + n > bb_cap b")
    case False
    then show ?thesis
      using b nowrap newlen D by (simp add: cbb_buffer_reserve_def Let_def word_less_nat_alt)
  next
    case True
    show ?thesis
    proof (cases "bb_can_resize b \<and> OPENSSL_realloc sys (bb_buf b) newcap \<noteq> None")
      case False
      then show ?thesis
        using True nowrap by (auto simp: cbb_buffer_reserve_def Let_def newcap_def)
    next
      case res: True
      then obtain q where q: "OPENSSL_realloc sys (bb_buf b) newcap = Some q"
        by auto
      have r: "cbb_buffer_reserve sys n b = (Some (bb_len b), b\<lparr>bb_buf := Some q, bb_cap := newcap\<rparr>)"
        using True nowrap res q by (simp add: cbb_buffer_reserve_def Let_def newcap_def)
      have sized: "openssl.sized_opt (bb_buf b)"
        using b res by (simp add: holds_def buffer_ok_def)
      have "length D \<le> length (openssl.block_of (bb_buf b))" "length D \<le> unat newcap"
        using ok D nc by (simp_all add: block_of_bb_mem)
      note grow = openssl.realloc_grow [OF q sized max this]
      have "unat newcap < 2 ^ 62"
        by (rule OPENSSL_realloc_bounded [OF sys q max])
      then show ?thesis
        using grow b D nc unfolding r
        by (simp add: holds_def buffer_ok_def bb_mem_def openssl.block_of_def word_le_nat_alt le_max_iff_disj)
    qed
  qed
qed

text \<open>With room in the buffer the call succeeds and does nothing.\<close>

lemma reserve_room:
  assumes "holds b D" "length D + unat n \<le> unat (bb_cap b)" "unat n < 2 ^ 62"
  shows "cbb_buffer_reserve sys n b = (Some (bb_len b), b)"
proof -
  have "unat (bb_len b + n) = length D + unat n"
    using assms unat_lt64 [of "bb_cap b"] holds_length [OF assms(1)] by (simp add: unat_add64)
  then show ?thesis
    using assms holds_length [OF assms(1)] by (simp add: cbb_buffer_reserve_def Let_def word_less_nat_alt)
qed

text \<open>Claiming \<open>n\<close> bytes that lie in the capacity appends as many bytes of unknown value.\<close>

lemma holds_claim:
  assumes "holds b D" "length D + n \<le> unat (bb_cap b)"
  shows "\<exists>junk. length junk = n \<and> holds (b\<lparr>bb_len := bb_len b + of_nat n\<rparr>) (D @ junk)"
proof -
  have b: "length (bb_mem b) = unat (bb_cap b)" "unat (bb_cap b) < 2 ^ 62" "unat (bb_len b) = length D"
    "take (length D) (bb_mem b) = D"
    using assms(1) holds_length [OF assms(1)] by (auto simp: holds_def buffer_ok_def)
  have "unat (of_nat n :: usize) = n"
    using assms(2) b by (intro unat_of_nat_small) simp
  then have "unat (bb_len b + of_nat n) = length D + n"
    using assms(2) b by (simp add: unat_add64)
  moreover have "take (length D + n) (bb_mem b) = D @ take n (drop (length D) (bb_mem b))"
    using b(4) by (simp add: take_add)
  ultimately show ?thesis
    using assms b
    by (intro exI [of _ "take n (drop (length D) (bb_mem b))"])
      (auto simp: holds_def buffer_ok_def word_le_nat_alt bb_mem_def)
qed

lemma add_holds:
  assumes "sys_bounded sys" "holds b D" "unat n < 2 ^ 62"
  shows "step_ok (\<lambda>off b'. unat off = length D \<and> (\<exists>junk. length junk = unat n \<and> holds b' (D @ junk)) \<and>
      bb_cap b \<le> bb_cap b') (cbb_buffer_add sys n b)"
  unfolding cbb_buffer_add_def
proof (rule step_ok_andthen, rule reserve_holds [OF assms], elim conjE)
  fix off b'
  assume "holds b' D" "unat off = length D" "length D + unat n \<le> unat (bb_cap b')" "bb_cap b \<le> bb_cap b'"
  then show "step_ok (\<lambda>off b'. unat off = length D \<and> (\<exists>junk. length junk = unat n \<and> holds b' (D @ junk)) \<and>
      bb_cap b \<le> bb_cap b') (Some off, b'\<lparr>bb_len := bb_len b' + n\<rparr>)"
    using holds_claim [of b' D "unat n"] by simp
qed

lemma add_room:
  assumes "holds b D" "length D + unat n \<le> unat (bb_cap b)" "unat n < 2 ^ 62"
  shows "cbb_buffer_add sys n b = (Some (bb_len b), b\<lparr>bb_len := bb_len b + n\<rparr>)"
  using reserve_room [OF assms] by (simp add: cbb_buffer_add_def)

lemma bb_mem_write:
  assumes "unat off + length src \<le> length (bb_mem b)"
  shows "bb_mem (bb_write b off src) = mem_write (bb_mem b) (unat off) src"
  using assms by (cases "bb_buf b") (simp_all add: bb_mem_def bb_write_def mem_write_def)

lemma write_holds:
  assumes "holds b D" "unat off + length src \<le> length D"
  shows "holds (bb_write b off src) (mem_write D (unat off) src)" "bb_cap (bb_write b off src) = bb_cap b"
proof -
  have b: "length D \<le> length (bb_mem b)" "take (length D) (bb_mem b) = D" "unat (bb_len b) = length D"
    using assms(1) holds_length [OF assms(1)] by (auto simp: holds_def buffer_ok_def word_le_nat_alt)
  have "take (length D) (mem_write (bb_mem b) (unat off) src) = mem_write (take (length D) (bb_mem b)) (unat off) src"
    using assms(2) b(1) by (simp add: mem_write_def take_drop min_absorb1)
  moreover have "openssl.sized_opt (bb_buf b) \<Longrightarrow> openssl.sized_opt (bb_buf (bb_write b off src))"
    using assms b by (cases "bb_buf b") (simp_all add: bb_write_def heap_ok_def bb_mem_def)
  ultimately show "holds (bb_write b off src) (mem_write D (unat off) src)"
    using assms b bb_mem_write [of off src b]
    by (auto simp: holds_def buffer_ok_def bb_write_def)
  show "bb_cap (bb_write b off src) = bb_cap b"
    by (simp add: bb_write_def)
qed

lemma mem_write_append [simp]:
  "length old = length new \<Longrightarrow> mem_write (P @ old @ Q) (length P) new = P @ new @ Q"
  by (simp add: mem_write_def)

lemma mem_write_end [simp]: "length old = length new \<Longrightarrow> mem_write (P @ old) (length P) new = P @ new"
  by (simp add: mem_write_def)

section \<open>Integers and length prefixes\<close>

lemma drop_bit_zero_iff: "drop_bit m (w :: 'a::len word) = 0 \<longleftrightarrow> unat w < 2 ^ m"
proof -
  have "unat (drop_bit m w) = unat w div 2 ^ m"
    by (simp only: unsigned_drop_bit_eq drop_bit_eq_div [where 'a = nat])
      (simp add: take_bit_nat_eq_self)
  then show ?thesis
    by (simp add: word_unat_eq_iff div_eq_0_iff)
qed

lemma be_bytes_Suc: "be_bytes (Suc k) n = be_bytes k (n div 256) @ [of_nat n]"
  by (simp add: be_bytes_def)

lemma store_be_eq: "store_be k v = (be_bytes k (unat v), drop_bit (8 * k) v)"
proof (induction k arbitrary: v)
  case (Suc k)
  have "unat (drop_bit 8 v) = unat v div 256"
    by (simp only: unsigned_drop_bit_eq drop_bit_eq_div [where 'a = nat])
      (simp add: take_bit_nat_eq_self)
  then show ?case
    using Suc [of "drop_bit 8 v"] by (simp add: be_bytes_Suc add.commute)
qed (simp add: be_bytes_def)

lemma store_be_rest: "snd (store_be k v) = 0 \<longleftrightarrow> unat v < 256 ^ k"
  by (simp add: store_be_eq drop_bit_zero_iff power_256_8 mult.commute [of 8])

lemma add_u_holds:
  assumes "sys_bounded sys" "holds b D" "unat n = k" "1 \<le> k" "k \<le> 4"
  shows "step_ok (\<lambda>_ b'. unat v < 256 ^ k \<and> holds b' (D @ be_bytes k (unat v)) \<and> bb_cap b \<le> bb_cap b')
    (cbb_buffer_add_u sys v n b)"
proof -
  have n0: "n \<noteq> 0" and n62: "unat n < 2 ^ 62"
    using assms by auto
  have eq: "cbb_buffer_add_u sys v n b = andthen (cbb_buffer_add sys n) (\<lambda>off b.
      let (bs, v) = store_be (unat n) v; b = bb_write b off bs
      in if v \<noteq> 0 then (None, b\<lparr>bb_error := True\<rparr>) else (Some (), b)) b"
    using n0 by (simp add: cbb_buffer_add_u_def)
  show ?thesis
    unfolding eq
  proof (rule step_ok_andthen, rule add_holds [OF assms(1,2) n62], elim conjE exE)
    fix off :: usize and b' junk
    assume *: "unat off = length D" "length junk = unat n" "holds b' (D @ junk)" "bb_cap b \<le> bb_cap b'"
    have w: "holds (bb_write b' off (be_bytes k (unat v))) (D @ be_bytes k (unat v))"
      "bb_cap (bb_write b' off (be_bytes k (unat v))) = bb_cap b'"
      using write_holds [OF *(3), of off "be_bytes k (unat v)"] * assms(3) by simp_all
    show "step_ok (\<lambda>_ b'. unat v < 256 ^ k \<and> holds b' (D @ be_bytes k (unat v)) \<and> bb_cap b \<le> bb_cap b')
       (let (bs, v) = store_be (unat n) v; b = bb_write b' off bs
        in if v \<noteq> 0 then (None, b\<lparr>bb_error := True\<rparr>) else (Some (), b))"
      using w * store_be_rest [of k v] by (simp add: Let_def store_be_eq assms(3))
  qed
qed

lemma add_u_room:
  assumes "holds b D" "unat n = k" "1 \<le> k" "k \<le> 4" "length D + k \<le> unat (bb_cap b)" "unat v < 256 ^ k"
  shows "fst (cbb_buffer_add_u sys v n b) = Some ()"
  using add_room [OF assms(1), of n sys] assms store_be_rest [of k v]
  by (auto simp: cbb_buffer_add_u_def Let_def split: prod.splits)

section \<open>The abstract builder\<close>

text \<open>A pending length prefix: of a fixed number of octets, or the length octets of an element.\<close>

datatype frame_kind = Prefix nat | Asn1

fun close_frame :: "frame_kind \<Rightarrow> bytes \<Rightarrow> bytes option" where
  "close_frame (Prefix k) c = (if length c < 256 ^ k then Some (be_bytes k (length c) @ c) else None)"
| "close_frame Asn1 c = (if length c \<le> 0xfffffffe then Some (der_len (length c) @ c) else None)"

fun close_all :: "(frame_kind \<times> bytes) list \<Rightarrow> bytes option" where
  "close_all [] = Some []"
| "close_all ((k, c) # fs) =
     (case close_all fs of None \<Rightarrow> None | Some x \<Rightarrow> close_frame k (c @ x))"

text \<open>The number of octets a pending prefix occupies, and the layout of the pending frames.\<close>

fun prefix_len :: "frame_kind \<Rightarrow> nat" where
  "prefix_len (Prefix k) = k"
| "prefix_len Asn1 = 1"

fun kind_ok :: "frame_kind \<Rightarrow> bool" where
  "kind_ok (Prefix k) \<longleftrightarrow> 1 \<le> k \<and> k \<le> 3"
| "kind_ok Asn1 \<longleftrightarrow> True"

fun layout :: "(frame_kind \<times> bytes) list \<Rightarrow> bytes" where
  "layout [] = []"
| "layout ((k, c) # fs) = replicate (prefix_len k) 0 @ c @ layout fs"

fun children_of :: "nat \<Rightarrow> (frame_kind \<times> bytes) list \<Rightarrow> cbb_child list" where
  "children_of pos [] = []"
| "children_of pos ((k, c) # fs) =
     \<lparr>c_offset = of_nat pos, c_pending_len_len = of_nat (prefix_len k), c_pending_is_asn1 = (k = Asn1)\<rparr> #
     children_of (pos + prefix_len k + length c) fs"

lemma kind_ok_prefix_len: "kind_ok k \<Longrightarrow> 1 \<le> prefix_len k \<and> prefix_len k \<le> 3"
  by (cases k) auto

lemma unat_prefix_len: "kind_ok k \<Longrightarrow> unat (of_nat (prefix_len k) :: u8) = prefix_len k"
  using kind_ok_prefix_len [of k] by (intro unat_of_nat_small) simp

text \<open>The length octets that the flush picks.\<close>

lemma der_len_cases:
  assumes "n \<le> 0xfffffffe"
  shows "der_len n =
    (if n > 0xffffff then of_nat (0x80 + 4) # be_bytes 4 n
     else if n > 0xffff then of_nat (0x80 + 3) # be_bytes 3 n
     else if n > 0xff then of_nat (0x80 + 2) # be_bytes 2 n
     else if n > 0x7f then of_nat (0x80 + 1) # be_bytes 1 n
     else [of_nat n])"
  by (simp add: der_len_def len_octets_def)

section \<open>Flushing one prefix\<close>

lemma holds_bound:
  assumes "holds b D"
  shows "length D \<le> unat (bb_cap b)" "length D < 2 ^ 62"
proof -
  have "unat (bb_len b) \<le> unat (bb_cap b)" "unat (bb_cap b) < 2 ^ 62"
    using assms by (simp_all add: holds_def buffer_ok_def word_le_nat_alt)
  then show "length D \<le> unat (bb_cap b)" "length D < 2 ^ 62"
    using holds_length [OF assms] by linarith+
qed

lemma take_prefix_parts:
  assumes "take n xs = D @ E" "n = length D + length E"
  shows "take (length D) xs = D" "take (length E) (drop (length D) xs) = E"
proof -
  have "take (length D) xs = take (length D) (take n xs)"
    using assms(2) by (simp add: min_absorb1)
  then show "take (length D) xs = D"
    unfolding assms(1) by simp
  have "take (length E) (drop (length D) xs) = drop (length D) (take n xs)"
    unfolding assms(2) by (simp only: take_drop add.commute)
  then show "take (length E) (drop (length D) xs) = E"
    unfolding assms(1) by simp
qed

lemma holds_prefix:
  assumes "holds b (D @ E)"
  shows "take (length D) (bb_mem b) = D" "take (length E) (drop (length D) (bb_mem b)) = E"
  using take_prefix_parts [of "unat (bb_len b)" "bb_mem b" D E] assms holds_length [OF assms]
  by (simp_all add: holds_def)

text \<open>Making room for a long length and writing it, in the order of the code.\<close>

definition long_len :: "system_malloc \<Rightarrow> u8 \<Rightarrow> u8 \<Rightarrow> usize \<Rightarrow> usize \<Rightarrow> cbb_buffer_st \<Rightarrow> unit option \<times> cbb_buffer_st" where
  "long_len sys len_len ilb off n b =
     (case make_room sys (off + 1) n (ucast (len_len - 1)) b of
        (None, b) \<Rightarrow> (None, b\<lparr>bb_error := True\<rparr>)
      | (Some _, b) \<Rightarrow> store_len (unat (len_len - 1)) (off + 1) n (bb_write b off [ilb]))"

lemma long_len_holds:
  assumes sys: "sys_bounded sys" and b: "holds b (P @ [0] @ y)"
    and off: "unat off = length P" and n: "unat n = length y"
    and e: "len_len = of_nat (e + 1)" "1 \<le> e" "e \<le> 4" and fits: "length y < 256 ^ e"
  shows "step_ok (\<lambda>_ b'. holds b' (P @ ilb # be_bytes e (length y) @ y) \<and> bb_cap b \<le> bb_cap b')
    (long_len sys len_len ilb off n b)"
    and "length P + 1 + e + length y \<le> unat (bb_cap b) \<Longrightarrow> fst (long_len sys len_len ilb off n b) = Some ()"
proof -
  have "len_len - 1 = of_nat e"
    using e by simp
  moreover have "unat (of_nat e :: u8) = e"
    using e by (intro unat_of_nat_small) simp
  ultimately have ue: "unat (len_len - 1) = e" "unat (ucast (len_len - 1) :: usize) = e"
    using e by (simp_all add: unsigned_ucast_eq take_bit_nat_eq_self)
  have PL: "length P + 1 + length y < 2 ^ 62"
    using holds_bound(2) [OF b] by simp
  have o1: "unat (off + 1) = length P + 1"
    using PL by (simp add: unat_add64 off)
  have oe: "unat (off + 1 + ucast (len_len - 1)) = length P + 1 + e"
    using unat_add64 [of "off + 1" "ucast (len_len - 1)"] o1 ue(2) PL e(3) by simp
  have rest: "snd (store_be e n) = 0"
    using fits n by (simp add: store_be_rest)
  have finish: "holds b' ((P @ [0] @ y) @ junk) \<Longrightarrow> length junk = e \<Longrightarrow>
    (let b = bb_write b' (off + 1 + ucast (len_len - 1)) (take (unat n) (drop (unat (off + 1)) (bb_mem b')));
         b = bb_write b off [ilb];
         (bs, rest) = store_be (unat (len_len - 1)) n;
         b = bb_write b (off + 1) bs
     in holds b (P @ ilb # be_bytes e (length y) @ y) \<and> bb_cap b = bb_cap b')" for b' junk
  proof -
    assume h: "holds b' ((P @ [0] @ y) @ junk)" and junk: "length junk = e"
    define X where "X = drop (length P + 1) (bb_mem b')"
    have "take (length (y @ junk)) X = y @ junk"
      using holds_prefix(2) [of b' "P @ [0]" "y @ junk"] h by (simp add: X_def)
    then have "take (length y) X = take (length y) (y @ junk)"
      by (metis length_append le_add1 min_absorb1 take_take)
    then have y: "take (unat n) (drop (unat (off + 1)) (bb_mem b')) = y"
      by (simp add: o1 n X_def)
    define gap where "gap = take e (y @ junk)"
    have gap: "length gap = e" "take (e + length y) (y @ junk) = y @ junk"
      using junk by (simp_all add: gap_def)
    have "mem_write ((P @ [0] @ y) @ junk) (length P + 1 + e) y = P @ [0] @ gap @ y"
      using junk by (simp add: mem_write_def gap_def take_add)
    then have 1: "holds (bb_write b' (off + 1 + ucast (len_len - 1)) y) (P @ [0] @ gap @ y)"
      using write_holds(1) [OF h, of "off + 1 + ucast (len_len - 1)" y] by (simp add: oe junk)
    define b1 where "b1 = bb_write b' (off + 1 + ucast (len_len - 1)) y"
    have 2: "holds (bb_write b1 off [ilb]) (P @ [ilb] @ gap @ y)"
      using write_holds(1) [OF 1, of off "[ilb]"] off by (simp add: b1_def mem_write_append [of "[0]" "[ilb]" P "gap @ y", simplified])
    define b2 where "b2 = bb_write b1 off [ilb]"
    have "mem_write ((P @ [ilb]) @ gap @ y) (length (P @ [ilb])) (be_bytes e (length y)) = (P @ [ilb]) @ be_bytes e (length y) @ y"
      by (rule mem_write_append) (simp add: gap)
    then have 3: "holds (bb_write b2 (off + 1) (be_bytes e (length y))) (P @ ilb # be_bytes e (length y) @ y)"
      using write_holds(1) [OF 2, of "off + 1" "be_bytes e (length y)"] by (simp add: o1 gap b2_def)
    show ?thesis
      using 3 by (simp add: Let_def y [unfolded n] ue store_be_eq n b1_def b2_def bb_write_def)
  qed
  have "unat (ucast (len_len - 1) :: usize) < 2 ^ 62"
    using ue e by simp
  note add = add_holds [OF sys b this]
  show "step_ok (\<lambda>_ b'. holds b' (P @ ilb # be_bytes e (length y) @ y) \<and> bb_cap b \<le> bb_cap b')
    (long_len sys len_len ilb off n b)"
  proof (cases "cbb_buffer_add sys (ucast (len_len - 1)) b")
    case (Pair r b')
    show ?thesis
    proof (cases r)
      case None
      then show ?thesis
        using Pair add by (simp add: long_len_def make_room_def)
    next
      case (Some x)
      then obtain junk where "length junk = e" "holds b' ((P @ [0] @ y) @ junk)" "bb_cap b \<le> bb_cap b'"
        using add Pair ue by auto
      then show ?thesis
        using finish [of b' junk] Pair Some rest by (simp add: long_len_def make_room_def store_len_def Let_def store_be_eq ue)
    qed
  qed
  show "fst (long_len sys len_len ilb off n b) = Some ()"
    if "length P + 1 + e + length y \<le> unat (bb_cap b)"
    using add_room [OF b, of "ucast (len_len - 1)" sys] that ue e rest
    by (simp add: long_len_def make_room_def store_len_def Let_def store_be_eq add.commute add.left_commute)
qed

text \<open>The arithmetic of a flush: where the contents of the child start, and how long they are.\<close>

lemma flush_child_sizes:
  assumes b: "holds b (P @ replicate (prefix_len k) 0 @ y)" and k: "kind_ok k"
    and c: "c_offset c = of_nat (length P)" "c_pending_len_len c = of_nat (prefix_len k)"
  shows "unat (c_offset c) = length P" "\<not> c_offset c + ucast (c_pending_len_len c) < c_offset c"
    "\<not> bb_len b < c_offset c + ucast (c_pending_len_len c)"
    "unat (c_offset c + ucast (c_pending_len_len c)) = length P + prefix_len k"
    "unat (bb_len b - (c_offset c + ucast (c_pending_len_len c))) = length y"
proof -
  note len = holds_length [OF b] holds_bound(2) [OF b] kind_ok_prefix_len [OF k]
  show off: "unat (c_offset c) = length P"
    unfolding c(1) using len by (intro unat_of_nat_small) simp
  have u: "unat (ucast (c_pending_len_len c) :: usize) = prefix_len k"
    using len unat_prefix_len [OF k] by (simp add: c(2) unsigned_ucast_eq take_bit_nat_eq_self)
  show start: "unat (c_offset c + ucast (c_pending_len_len c)) = length P + prefix_len k"
    using len u off unat_add64 [of "c_offset c" "ucast (c_pending_len_len c)"] by simp
  show "\<not> c_offset c + ucast (c_pending_len_len c) < c_offset c"
    using start off by (simp add: word_less_nat_alt)
  show le: "\<not> bb_len b < c_offset c + ucast (c_pending_len_len c)"
    using start len(1) by (simp add: word_less_nat_alt)
  show "unat (bb_len b - (c_offset c + ucast (c_pending_len_len c))) = length y"
    using le start len(1) by (simp add: unat_sub not_less word_le_nat_alt)
qed

lemma flush_prefix_holds:
  assumes b: "holds b (P @ replicate k 0 @ y)" and k: "1 \<le> k" "k \<le> 3"
    and c: "c = \<lparr>c_offset = of_nat (length P), c_pending_len_len = of_nat k, c_pending_is_asn1 = False\<rparr>"
  shows "step_ok (\<lambda>_ b'. \<exists>x. close_frame (Prefix k) y = Some x \<and> holds b' (P @ x) \<and> bb_cap b \<le> bb_cap b')
    (flush_child sys c b)"
    and "close_frame (Prefix k) y \<noteq> None \<Longrightarrow> fst (flush_child sys c b) = Some ()"
proof -
  have ok: "kind_ok (Prefix k)"
    using k by simp
  note s = flush_child_sizes [of b P "Prefix k" y c, unfolded prefix_len.simps, OF b ok]
  have c': "c_offset c = of_nat (length P)" "c_pending_len_len c = of_nat k"
    using c by simp_all
  have uk: "unat (of_nat k :: u8) = k"
    using unat_prefix_len [OF ok] by simp
  define n where "n = bb_len b - (c_offset c + ucast (c_pending_len_len c))"
  have n: "unat n = length y"
    using s(5) c by (simp add: n_def)
  have "mem_write (P @ replicate k 0 @ y) (length P) (be_bytes k (length y)) = P @ be_bytes k (length y) @ y"
    by (rule mem_write_append) simp
  then have w: "holds (bb_write b (c_offset c) (be_bytes k (length y))) (P @ be_bytes k (length y) @ y)"
    using write_holds(1) [OF b, of "c_offset c" "be_bytes k (length y)"] s(1) c by simp
  have rest: "drop_bit (8 * k) n = 0 \<longleftrightarrow> length y < 256 ^ k"
    using store_be_rest [of k n] by (simp add: store_be_eq n)
  have eq: "flush_child sys c b =
    (let b = bb_write b (c_offset c) (be_bytes k (length y))
     in if drop_bit (8 * k) n \<noteq> 0 then (None, b\<lparr>bb_error := True\<rparr>) else (Some (), b))"
    using s(2,3) c' uk n c
    unfolding flush_child_def Let_def n_def [symmetric] by (simp add: store_len_def store_be_eq flip: n_def)
  show "step_ok (\<lambda>_ b'. \<exists>x. close_frame (Prefix k) y = Some x \<and> holds b' (P @ x) \<and> bb_cap b \<le> bb_cap b')
    (flush_child sys c b)"
    using w rest by (simp add: eq Let_def bb_write_def)
  show "fst (flush_child sys c b) = Some ()" if "close_frame (Prefix k) y \<noteq> None"
    using that rest by (simp add: eq Let_def split: if_splits)
qed

text \<open>The choice of the length octets is that of the distinguished encoding.\<close>

lemma len_choice_long:
  assumes "unat n = L" "128 \<le> L" "L \<le> 0xfffffffe"
  shows "\<exists>e. len_choice n = (of_nat (e + 1), of_nat (128 + e), n) \<and> 1 \<le> e \<and> e \<le> 4 \<and> L < 256 ^ e \<and>
    der_len L = of_nat (128 + e) # be_bytes e L"
proof -
  have cmp: "n > 0xffffff \<longleftrightarrow> L > 0xffffff" "n > 0xffff \<longleftrightarrow> L > 0xffff" "n > 0xff \<longleftrightarrow> L > 0xff"
    "n > 0x7f \<longleftrightarrow> L > 0x7f"
    using assms(1) by (simp_all add: word_less_nat_alt)
  consider "L > 0xffffff" | "L \<le> 0xffffff" "L > 0xffff" | "L \<le> 0xffff" "L > 0xff" | "L \<le> 0xff"
    by linarith
  then show ?thesis
  proof cases
    case 1
    then show ?thesis
      using assms cmp by (intro exI [of _ 4]) (simp add: len_choice_def der_len_def len_octets_def)
  next
    case 2
    then show ?thesis
      using assms cmp by (intro exI [of _ 3]) (simp add: len_choice_def der_len_def len_octets_def)
  next
    case 3
    then show ?thesis
      using assms cmp by (intro exI [of _ 2]) (simp add: len_choice_def der_len_def len_octets_def)
  next
    case 4
    then show ?thesis
      using assms cmp by (intro exI [of _ 1]) (simp add: len_choice_def der_len_def len_octets_def)
  qed
qed

lemma len_choice_short:
  assumes "unat n = L" "L < 128"
  shows "len_choice n = (1, of_nat L, 0)" "der_len L = [of_nat L]"
proof -
  have "\<not> n > 0x7f" "\<not> n > 0xff" "\<not> n > 0xffff" "\<not> n > 0xffffff"
    using assms by (simp_all add: word_less_nat_alt)
  moreover have "ucast n = (of_nat L :: u8)"
    using assms(1) by (metis of_nat_unat)
  ultimately show "len_choice n = (1, of_nat L, 0)"
    by (simp add: len_choice_def)
  show "der_len L = [of_nat L]"
    using assms(2) by (simp add: der_len_def)
qed

lemma flush_asn1_holds:
  assumes sys: "sys_bounded sys" and b: "holds b (P @ [0] @ y)"
    and c: "c = \<lparr>c_offset = of_nat (length P), c_pending_len_len = 1, c_pending_is_asn1 = True\<rparr>"
  shows "step_ok (\<lambda>_ b'. \<exists>x. close_frame Asn1 y = Some x \<and> holds b' (P @ x) \<and> bb_cap b \<le> bb_cap b')
    (flush_child sys c b)"
    and "close_frame Asn1 y = Some x \<Longrightarrow> length P + length x \<le> unat (bb_cap b) \<Longrightarrow>
      fst (flush_child sys c b) = Some ()"
proof -
  define n where "n = bb_len b - (c_offset c + 1)"
  have c': "c_offset c = of_nat (length P)" "c_pending_len_len c = 1" "c_pending_is_asn1 c"
    using c by simp_all
  have "holds b (P @ replicate (prefix_len Asn1) 0 @ y)" "c_pending_len_len c = of_nat (prefix_len Asn1)"
    using b c by simp_all
  note s = flush_child_sizes [OF this(1) _ c'(1) this(2), unfolded c'(2) unsigned_1, simplified kind_ok.simps, OF TrueI]
  have n: "unat n = length y" and off: "unat (c_offset c) = length P"
    using s(1,5) by (simp_all add: n_def)
  have big: "n > 0xfffffffe \<longleftrightarrow> length y > 0xfffffffe"
    by (simp add: word_less_nat_alt n)
  have step: "flush_child sys c b = (if length y > 0xfffffffe then (None, b\<lparr>bb_error := True\<rparr>)
      else case len_choice n of (len_len, ilb, n') \<Rightarrow>
        (case (if len_len \<noteq> 1 then make_room sys (c_offset c + 1) n (ucast (len_len - 1)) b else (Some (), b)) of
           (None, b) \<Rightarrow> (None, b\<lparr>bb_error := True\<rparr>)
         | (Some _, b) \<Rightarrow> store_len (unat (len_len - 1)) (c_offset c + 1) n' (bb_write b (c_offset c) [ilb])))"
    using s(2,3) big unfolding flush_child_def Let_def c'(2) unsigned_1 n_def [symmetric]
    by (simp add: c'(3))
  have both: "step_ok (\<lambda>_ b'. \<exists>x. close_frame Asn1 y = Some x \<and> holds b' (P @ x) \<and> bb_cap b \<le> bb_cap b')
      (flush_child sys c b) \<and>
    (\<forall>x. close_frame Asn1 y = Some x \<longrightarrow> length P + length x \<le> unat (bb_cap b) \<longrightarrow>
      fst (flush_child sys c b) = Some ())"
  proof -
    consider "length y > 0xfffffffe" | "length y < 128" | "128 \<le> length y" "length y \<le> 0xfffffffe"
      by linarith
    then show ?thesis
    proof cases
      case 1
      then show ?thesis
        by (simp add: step)
    next
      case 2
      note ch = len_choice_short [OF n 2]
      have "mem_write (P @ [0] @ y) (length P) [of_nat (length y)] = P @ [of_nat (length y)] @ y"
        by (rule mem_write_append) simp
      then have w: "holds (bb_write b (c_offset c) [of_nat (length y)]) (P @ [of_nat (length y)] @ y)"
        using write_holds(1) [OF b, of "c_offset c" "[of_nat (length y)]"] off by simp
      have "unat (c_offset c + 1) = length P + 1"
        using off holds_bound(2) [OF b] by (simp add: unat_add64)
      then have "holds (bb_write (bb_write b (c_offset c) [of_nat (length y)]) (c_offset c + 1) [])
          (P @ [of_nat (length y)] @ y)"
        using write_holds(1) [OF w, of "c_offset c + 1" "[]"] by (simp add: mem_write_def)
      then show ?thesis
        using 2 ch by (simp add: step store_len_def bb_write_def)
    next
      case 3
      obtain e where e: "len_choice n = (of_nat (e + 1), of_nat (128 + e), n)" "1 \<le> e" "e \<le> 4"
          "length y < 256 ^ e" "der_len (length y) = of_nat (128 + e) # be_bytes e (length y)"
        using len_choice_long [OF n 3] by blast
      have "unat (of_nat (e + 1) :: u8) = e + 1"
        using e by (intro unat_of_nat_small) simp
      then have "(of_nat (e + 1) :: u8) \<noteq> 1"
        using e(2) by (simp add: word_unat_eq_iff del: of_nat_add)
      then have eq: "flush_child sys c b = long_len sys (of_nat (e + 1)) (of_nat (128 + e)) (c_offset c) n b"
        using 3 by (simp add: step e(1) long_len_def del: of_nat_add of_nat_Suc)
      note long = long_len_holds [OF sys b off n refl e(2,3,4), of "of_nat (128 + e)"]
      have room: "length P + 1 + e + length y \<le> unat (bb_cap b)"
        if "close_frame Asn1 y = Some x" "length P + length x \<le> unat (bb_cap b)" for x
        using that 3 e(5) by auto
      show ?thesis
        unfolding eq using long room 3 e(5) by (auto simp: step_ok_def split: prod.splits option.splits)
    qed
  qed
  show "step_ok (\<lambda>_ b'. \<exists>x. close_frame Asn1 y = Some x \<and> holds b' (P @ x) \<and> bb_cap b \<le> bb_cap b')
      (flush_child sys c b)"
    using both by simp
  show "fst (flush_child sys c b) = Some ()" if "close_frame Asn1 y = Some x" "length P + length x \<le> unat (bb_cap b)"
    using both that by blast
qed

section \<open>Flushing the chain\<close>

lemma close_frame_length: "close_frame k c = Some x \<Longrightarrow> prefix_len k + length c \<le> length x"
  using length_der_len(1) [of "length c"] by (cases k) (auto split: if_splits)

lemma flush_child_holds:
  assumes "sys_bounded sys" "holds b (P @ replicate (prefix_len k) 0 @ y)" "kind_ok k"
    and "c = \<lparr>c_offset = of_nat (length P), c_pending_len_len = of_nat (prefix_len k), c_pending_is_asn1 = (k = Asn1)\<rparr>"
  shows "step_ok (\<lambda>_ b'. \<exists>x. close_frame k y = Some x \<and> holds b' (P @ x) \<and> bb_cap b \<le> bb_cap b')
      (flush_child sys c b)"
    and "close_frame k y = Some x \<Longrightarrow> length P + length x \<le> unat (bb_cap b) \<Longrightarrow>
      fst (flush_child sys c b) = Some ()"
proof -
  have "step_ok (\<lambda>_ b'. \<exists>x. close_frame k y = Some x \<and> holds b' (P @ x) \<and> bb_cap b \<le> bb_cap b')
      (flush_child sys c b) \<and>
    (\<forall>x. close_frame k y = Some x \<longrightarrow> length P + length x \<le> unat (bb_cap b) \<longrightarrow>
      fst (flush_child sys c b) = Some ())"
  proof (cases k)
    case (Prefix j)
    then show ?thesis
      using flush_prefix_holds [of b P j y c sys] assms by simp
  next
    case Asn1
    then show ?thesis
      using flush_asn1_holds [of sys b P y c] assms by simp
  qed
  then show "step_ok (\<lambda>_ b'. \<exists>x. close_frame k y = Some x \<and> holds b' (P @ x) \<and> bb_cap b \<le> bb_cap b')
      (flush_child sys c b)"
    and "close_frame k y = Some x \<Longrightarrow> length P + length x \<le> unat (bb_cap b) \<Longrightarrow>
      fst (flush_child sys c b) = Some ()"
    by blast+
qed

lemma flush_chain_holds:
  assumes "sys_bounded sys" "holds b (P @ layout fs)" "\<forall>f \<in> set fs. kind_ok (fst f)"
  shows "case flush_chain sys (children_of (length P) fs) b of (ok, cs, b') \<Rightarrow>
    (if ok then cs = [] \<and> (\<exists>x. close_all fs = Some x \<and> holds b' (P @ x)) \<and> bb_cap b \<le> bb_cap b' else bb_error b') \<and>
    (\<forall>x. close_all fs = Some x \<longrightarrow> length P + length x \<le> unat (bb_cap b) \<longrightarrow> ok)"
  using assms(2,3)
proof (induction fs arbitrary: P b)
  case Nil
  then show ?case
    by (simp add: holds_def)
next
  case (Cons f fs)
  obtain k c where f: "f = (k, c)"
    by force
  define child :: cbb_child where "child = \<lparr>c_offset = of_nat (length P), c_pending_len_len = of_nat (prefix_len k),
    c_pending_is_asn1 = (k = Asn1)\<rparr>"
  define P' where "P' = P @ replicate (prefix_len k) 0 @ c"
  have k: "kind_ok k" and fs: "\<forall>f \<in> set fs. kind_ok (fst f)"
    using Cons.prems(2) f by simp_all
  have kids: "children_of (length P) (f # fs) = child # children_of (length P') fs"
    by (simp add: f child_def P'_def add.assoc)
  have ne: "c_pending_len_len child \<noteq> 0"
    using unat_prefix_len [OF k] kind_ok_prefix_len [OF k] by (auto simp: child_def)
  have err: "\<not> bb_error b"
    using Cons.prems(1) by (simp add: holds_def)
  have h: "holds b (P' @ layout fs)"
    using Cons.prems(1) by (simp add: f P'_def)
  obtain ok1 cs1 b1 where r1: "flush_chain sys (children_of (length P') fs) b = (ok1, cs1, b1)"
    by (cases "flush_chain sys (children_of (length P') fs) b") auto
  note IH = Cons.IH [OF h fs, unfolded r1 prod.case]
  have inner: "close_all (f # fs) = Some x \<Longrightarrow> length P + length x \<le> unat (bb_cap b) \<Longrightarrow> ok1" for x
    using IH close_frame_length [of k] by (fastforce simp: f P'_def split: option.splits)
  show ?case
  proof (cases ok1)
    case False
    then show ?thesis
      using err ne r1 inner by (auto simp: kids)
  next
    case True
    then obtain x1 where x1: "close_all fs = Some x1" "holds b1 (P' @ x1)" "bb_cap b \<le> bb_cap b1"
      using IH by auto
    have "holds b1 (P @ replicate (prefix_len k) 0 @ (c @ x1))"
      using x1(2) by (simp add: P'_def)
    note child = flush_child_holds [OF assms(1) this k child_def]
    have cap: "unat (bb_cap b) \<le> unat (bb_cap b1)"
      using x1(3) by (simp add: word_le_nat_alt)
    obtain r2 b2 where r2: "flush_child sys child b1 = (r2, b2)"
      by force
    have res: "flush_chain sys (children_of (length P) (f # fs)) b =
        (case r2 of None \<Rightarrow> (False, child # cs1, b2) | Some _ \<Rightarrow> (True, [], b2))"
      using True err ne r1 r2 by (simp add: kids split: option.splits)
    show ?thesis
      unfolding res using child r2 x1 cap by (cases r2) (auto simp: f)
  qed
qed

section \<open>Builder states\<close>

type_synonym builder = "bytes \<times> (frame_kind \<times> bytes) list"

fun flat :: "builder \<Rightarrow> bytes" where
  "flat (t, fs) = t @ layout fs"

fun kids :: "builder \<Rightarrow> cbb_child list" where
  "kids (t, fs) = children_of (length t) fs"

fun frames_ok :: "builder \<Rightarrow> bool" where
  "frames_ok (t, fs) \<longleftrightarrow> (\<forall>f \<in> set fs. kind_ok (fst f))"

definition reps :: "CBB \<Rightarrow> builder \<Rightarrow> bool" where
  "reps cbb s \<longleftrightarrow> frames_ok s \<and> cbb_children cbb = kids s \<and>
     (\<exists>b. cbb_base cbb = Some b \<and> holds b (flat s))"

text \<open>Appending to the innermost pending contents; flushing down to handle \<open>d\<close>; a new prefix.\<close>

fun b_extend :: "bytes \<Rightarrow> builder \<Rightarrow> builder" where
  "b_extend x (t, fs) =
     (if fs = [] then (t @ x, []) else (t, butlast fs @ [(fst (last fs), snd (last fs) @ x)]))"

fun b_flush :: "nat \<Rightarrow> builder \<Rightarrow> builder option" where
  "b_flush d (t, fs) =
     (if length fs < d then None
      else case close_all (drop d fs) of None \<Rightarrow> None | Some x \<Rightarrow> Some (b_extend x (t, take d fs)))"

fun b_open :: "frame_kind \<Rightarrow> builder \<Rightarrow> builder" where
  "b_open k (t, fs) = (t, fs @ [(k, [])])"

lemma layout_append [simp]: "layout (fs @ gs) = layout fs @ layout gs"
  by (induction fs) auto

lemma children_of_append [simp]:
  "children_of pos (fs @ gs) = children_of pos fs @ children_of (pos + length (layout fs)) gs"
  by (induction fs arbitrary: pos) (auto simp: add.assoc)

lemma length_children_of [simp]: "length (children_of pos fs) = length fs"
  by (induction fs arbitrary: pos) auto

lemma b_extend_simps [simp]:
  "flat (b_extend x s) = flat s @ x" "kids (b_extend x s) = kids s"
  "frames_ok (b_extend x s) = frames_ok s"
proof -
  obtain t fs where s: "s = (t, fs)"
    by force
  have "flat (b_extend x s) = flat s @ x \<and> kids (b_extend x s) = kids s \<and> frames_ok (b_extend x s) = frames_ok s"
    unfolding s by (cases fs rule: rev_cases) auto
  then show "flat (b_extend x s) = flat s @ x" "kids (b_extend x s) = kids s"
    "frames_ok (b_extend x s) = frames_ok s"
    by simp_all
qed

section \<open>Refinement of the operations\<close>

definition room :: "CBB \<Rightarrow> nat" where
  "room cbb = (case cbb_base cbb of None \<Rightarrow> 0 | Some b \<Rightarrow> unat (bb_cap b))"

text \<open>
  \<open>m\<close> refines \<open>f\<close>: from a state that represents \<open>s\<close>, a successful \<open>m\<close> has done what \<open>f\<close> does; and
  \<open>m\<close> succeeds whenever \<open>f\<close> does and the result fits the capacity, with or without a \<open>malloc\<close>.
\<close>

definition refines_on ::
  "(builder \<Rightarrow> bool) \<Rightarrow> (CBB \<Rightarrow> unit option \<times> CBB) \<Rightarrow> (builder \<Rightarrow> builder option) \<Rightarrow> bool" where
  "refines_on Q m f \<longleftrightarrow>
     (\<forall>s s'. Q s \<longrightarrow> f s = Some s' \<longrightarrow> length (flat s) \<le> length (flat s')) \<and>
     (\<forall>cbb s. Q s \<longrightarrow> reps cbb s \<longrightarrow>
        (fst (m cbb) \<noteq> None \<longrightarrow> (\<exists>s'. f s = Some s' \<and> reps (snd (m cbb)) s' \<and> room cbb \<le> room (snd (m cbb)))) \<and>
        (\<forall>s'. f s = Some s' \<longrightarrow> length (flat s') \<le> room cbb \<longrightarrow> fst (m cbb) \<noteq> None))"

abbreviation refines :: "(CBB \<Rightarrow> unit option \<times> CBB) \<Rightarrow> (builder \<Rightarrow> builder option) \<Rightarrow> bool" where
  "refines \<equiv> refines_on (\<lambda>_. True)"

lemma refinesD:
  assumes "refines_on Q m f" "Q s"
  shows "f s = Some s' \<Longrightarrow> length (flat s) \<le> length (flat s')"
    and "reps cbb s \<Longrightarrow> m cbb = (Some u, cbb') \<Longrightarrow> \<exists>s'. f s = Some s' \<and> reps cbb' s' \<and> room cbb \<le> room cbb'"
    and "reps cbb s \<Longrightarrow> f s = Some s' \<Longrightarrow> length (flat s') \<le> room cbb \<Longrightarrow> \<exists>cbb'. m cbb = (Some (), cbb')"
proof -
  have 1: "f s = Some s' \<longrightarrow> length (flat s) \<le> length (flat s')"
    using assms unfolding refines_on_def by blast
  have 2: "reps cbb s \<longrightarrow>
      (fst (m cbb) \<noteq> None \<longrightarrow> (\<exists>s'. f s = Some s' \<and> reps (snd (m cbb)) s' \<and> room cbb \<le> room (snd (m cbb)))) \<and>
      (f s = Some s' \<longrightarrow> length (flat s') \<le> room cbb \<longrightarrow> fst (m cbb) \<noteq> None)"
    using assms unfolding refines_on_def by blast
  show "f s = Some s' \<Longrightarrow> length (flat s) \<le> length (flat s')"
    using 1 by blast
  show "reps cbb s \<Longrightarrow> m cbb = (Some u, cbb') \<Longrightarrow> \<exists>s'. f s = Some s' \<and> reps cbb' s' \<and> room cbb \<le> room cbb'"
    using 2 by simp
  show "reps cbb s \<Longrightarrow> f s = Some s' \<Longrightarrow> length (flat s') \<le> room cbb \<Longrightarrow> \<exists>cbb'. m cbb = (Some (), cbb')"
    using 2 by (cases "m cbb") auto
qed

lemma refinesI:
  assumes "\<And>s s'. Q s \<Longrightarrow> f s = Some s' \<Longrightarrow> length (flat s) \<le> length (flat s')"
    and "\<And>cbb s u cbb'. Q s \<Longrightarrow> reps cbb s \<Longrightarrow> m cbb = (Some u, cbb') \<Longrightarrow>
      \<exists>s'. f s = Some s' \<and> reps cbb' s' \<and> room cbb \<le> room cbb'"
    and "\<And>cbb s s'. Q s \<Longrightarrow> reps cbb s \<Longrightarrow> f s = Some s' \<Longrightarrow> length (flat s') \<le> room cbb \<Longrightarrow> fst (m cbb) \<noteq> None"
  shows "refines_on Q m f"
  unfolding refines_on_def
proof (intro conjI allI impI)
  fix cbb s
  assume "Q s" "reps cbb s" "fst (m cbb) \<noteq> None"
  moreover then obtain u where "m cbb = (Some u, snd (m cbb))"
    by (metis not_None_eq prod.collapse)
  ultimately show "\<exists>s'. f s = Some s' \<and> reps (snd (m cbb)) s' \<and> room cbb \<le> room (snd (m cbb))"
    using assms(2) by blast
qed (use assms(1,3) in blast)+

lemma refines_on_True: "refines m f \<Longrightarrow> refines_on Q m f"
  unfolding refines_on_def by blast

lemma refines_andthen_on:
  assumes m: "refines_on Q m f" and n: "refines_on R n g" and QR: "\<And>s s'. Q s \<Longrightarrow> f s = Some s' \<Longrightarrow> R s'"
  shows "refines_on Q (andthen m (\<lambda>_. n)) (\<lambda>s. Option.bind (f s) g)"
proof (rule refinesI)
  fix s s'
  assume Q: "Q s" and "Option.bind (f s) g = Some s'"
  then obtain s1 where "f s = Some s1" "g s1 = Some s'"
    by (auto simp: bind_eq_Some_conv)
  then show "length (flat s) \<le> length (flat s')"
    using refinesD(1) [OF m Q] refinesD(1) [OF n QR [OF Q]] le_trans by blast
next
  fix cbb s u cbb'
  assume Q: "Q s" and r: "reps cbb s" and "andthen m (\<lambda>_. n) cbb = (Some u, cbb')"
  then obtain x c1 where 1: "m cbb = (Some x, c1)" and 2: "n c1 = (Some u, cbb')"
    by (auto simp: andthen_eq_Some)
  obtain s1 where s1: "f s = Some s1" "reps c1 s1" "room cbb \<le> room c1"
    using refinesD(2) [OF m Q r 1] by blast
  obtain s2 where "g s1 = Some s2" "reps cbb' s2" "room c1 \<le> room cbb'"
    using refinesD(2) [OF n QR [OF Q s1(1)] s1(2) 2] by blast
  then show "\<exists>s'. Option.bind (f s) g = Some s' \<and> reps cbb' s' \<and> room cbb \<le> room cbb'"
    using s1 by auto
next
  fix cbb s s'
  assume Q: "Q s" and r: "reps cbb s" and "Option.bind (f s) g = Some s'" and fit: "length (flat s') \<le> room cbb"
  then obtain s1 where s1: "f s = Some s1" "g s1 = Some s'"
    by (auto simp: bind_eq_Some_conv)
  note R = QR [OF Q s1(1)]
  have "length (flat s1) \<le> room cbb"
    using refinesD(1) [OF n R s1(2)] fit by simp
  then obtain c1 where c1: "m cbb = (Some (), c1)"
    using refinesD(3) [OF m Q r s1(1)] by blast
  obtain s1' where "f s = Some s1'" "reps c1 s1'" "room cbb \<le> room c1"
    using refinesD(2) [OF m Q r c1] by blast
  then have "reps c1 s1" "length (flat s') \<le> room c1"
    using s1 fit by auto
  then obtain c2 where "n c1 = (Some (), c2)"
    using refinesD(3) [OF n R _ s1(2)] by blast
  then show "fst (andthen m (\<lambda>_. n) cbb) \<noteq> None"
    using c1 by simp
qed

lemmas refines_andthen = refines_andthen_on [where Q = "\<lambda>_. True" and R = "\<lambda>_. True", OF _ _ TrueI]

lemma refines_skip: "refines (\<lambda>cbb. (Some (), cbb)) Some"
  by (rule refinesI) simp_all

text \<open>A state and the flush down to handle \<open>d\<close>.\<close>

lemma flush_length: "b_flush d s = Some s' \<Longrightarrow> length (flat s) \<le> length (flat s')"
proof -
  assume s': "b_flush d s = Some s'"
  have "close_all fs = Some x \<Longrightarrow> length (layout fs) \<le> length x" for fs x
  proof (induction fs arbitrary: x)
    case (Cons f fs)
    obtain k c where f: "f = (k, c)"
      by force
    then obtain x1 where "close_all fs = Some x1" "close_frame k (c @ x1) = Some x"
      using Cons.prems by (auto split: option.splits)
    then show ?case
      using Cons.IH [of x1] close_frame_length [of k "c @ x1" x] f by simp
  qed simp
  note layout = this
  obtain t fs where s: "s = (t, fs)"
    by force
  then obtain x where x: "close_all (drop d fs) = Some x" "s' = b_extend x (t, take d fs)"
    using s' by (auto split: if_splits option.splits)
  have "flat s = flat (t, take d fs) @ layout (drop d fs)"
    by (simp add: s flip: layout_append)
  then show ?thesis
    using layout [OF x(1)] x(2) by (simp del: b_extend.simps flat.simps)
qed

lemma refines_flush:
  assumes "sys_bounded sys"
  shows "refines (CBB_flush sys d) (b_flush d)"
proof (rule refinesI [OF flush_length])
  fix cbb s
  assume r: "reps cbb s"
  obtain t fs where s: "s = (t, fs)"
    by force
  obtain b where b: "cbb_base cbb = Some b" "holds b (t @ layout fs)" "cbb_children cbb = children_of (length t) fs"
    and k: "\<forall>f \<in> set fs. kind_ok (fst f)"
    using r by (auto simp: reps_def s)
  define P where "P = flat (t, take d fs)"
  have fs: "fs = take d fs @ drop d fs"
    by simp
  have "t @ layout fs = P @ layout (drop d fs)"
    by (simp add: P_def flip: layout_append)
  with b(2) have h: "holds b (P @ layout (drop d fs))"
    by simp
  have kd: "\<forall>f \<in> set (drop d fs). kind_ok (fst f)" and kt: "\<forall>f \<in> set (take d fs). kind_ok (fst f)"
    using k by (auto dest: in_set_dropD in_set_takeD)
  have kids: "children_of (length t) fs = children_of (length t) (take d fs) @ children_of (length P) (drop d fs)"
    by (subst fs, simp only: children_of_append) (simp add: P_def)
  obtain ok cs b' where run: "flush_chain sys (children_of (length P) (drop d fs)) b = (ok, cs, b')"
    by (cases "flush_chain sys (children_of (length P) (drop d fs)) b") auto
  note chain = flush_chain_holds [OF assms h kd, unfolded run prod.case]
  have flush: "CBB_flush sys d cbb = (if length fs < d then (None, cbb) else
      (if ok then Some () else None, cbb\<lparr>cbb_base := Some b', cbb_children := children_of (length t) (take d fs) @ cs\<rparr>))"
    using run by (simp add: CBB_flush_def b kids)
  {
    fix u cbb'
    assume "CBB_flush sys d cbb = (Some u, cbb')"
    then have le: "\<not> length fs < d" and "ok"
      and cbb': "cbb' = cbb\<lparr>cbb_base := Some b', cbb_children := children_of (length t) (take d fs) @ cs\<rparr>"
      by (auto simp: flush split: if_splits)
    then obtain x where x: "close_all (drop d fs) = Some x" "holds b' (P @ x)" "cs = []" "bb_cap b \<le> bb_cap b'"
      using chain by auto
    have "reps cbb' (b_extend x (t, take d fs))"
      using x kt by (simp add: reps_def cbb' P_def del: b_extend.simps flat.simps)
    then show "\<exists>s'. b_flush d s = Some s' \<and> reps cbb' s' \<and> room cbb \<le> room cbb'"
      using le x(1,4) by (simp add: s room_def b cbb' word_le_nat_alt del: b_extend.simps)
  next
    fix s'
    assume "b_flush d s = Some s'" "length (flat s') \<le> room cbb"
    then obtain x where "close_all (drop d fs) = Some x" "\<not> length fs < d" "length P + length x \<le> unat (bb_cap b)"
      by (auto simp: s room_def b P_def simp del: b_extend.simps flat.simps split: if_splits option.splits)
    then show "fst (CBB_flush sys d cbb) \<noteq> None"
      using chain by (simp add: flush)
  }
qed

text \<open>A buffer operation that appends \<open>x\<close> when \<open>p\<close> holds.\<close>

lemma refines_buffer:
  assumes "\<And>b D. holds b D \<Longrightarrow> step_ok (\<lambda>_ b'. p \<and> holds b' (D @ x) \<and> bb_cap b \<le> bb_cap b') (g b)"
    and "\<And>b D. holds b D \<Longrightarrow> p \<Longrightarrow> length D + length x \<le> unat (bb_cap b) \<Longrightarrow> fst (g b) \<noteq> None"
  shows "refines (on_base g) (\<lambda>s. if p then Some (b_extend x s) else None)"
proof (rule refinesI)
  fix s s'
  show "(if p then Some (b_extend x s) else None) = Some s' \<Longrightarrow> length (flat s) \<le> length (flat s')"
    by (auto split: if_splits)
next
  fix cbb s u cbb'
  assume "reps cbb s" and run: "on_base g cbb = (Some u, cbb')"
  then obtain b where b: "cbb_base cbb = Some b" "holds b (flat s)" "cbb_children cbb = kids s" "frames_ok s"
    by (auto simp: reps_def)
  obtain b' where b': "g b = (Some u, b')" "cbb' = cbb\<lparr>cbb_base := Some b'\<rparr>"
    using run b(1) by (auto simp: on_base_def split: prod.splits)
  have "p \<and> holds b' (flat s @ x) \<and> bb_cap b \<le> bb_cap b'"
    using assms(1) [OF b(2)] b' by simp
  then show "\<exists>s'. (if p then Some (b_extend x s) else None) = Some s' \<and> reps cbb' s' \<and> room cbb \<le> room cbb'"
    using b b' by (auto simp: reps_def room_def word_le_nat_alt simp del: b_extend.simps)
next
  fix cbb s s'
  assume r: "reps cbb s" and s': "(if p then Some (b_extend x s) else None) = Some s'"
    and fit: "length (flat s') \<le> room cbb"
  obtain b where b: "cbb_base cbb = Some b" "holds b (flat s)"
    using r by (auto simp: reps_def)
  have "fst (g b) \<noteq> None"
    using assms(2) [OF b(2)] s' fit b(1) by (auto simp: room_def split: if_splits simp del: b_extend.simps)
  then show "fst (on_base g cbb) \<noteq> None"
    by (simp add: on_base_def b case_prod_unfold)
qed

section \<open>The operations\<close>

text \<open>Appending through a handle: flush what is below it, then extend.\<close>

definition b_add :: "nat \<Rightarrow> bytes \<Rightarrow> builder \<Rightarrow> builder option" where
  "b_add d x s = map_option (b_extend x) (b_flush d s)"

abbreviation depth :: "builder \<Rightarrow> nat" where
  "depth s \<equiv> length (snd s)"

lemma depth_extend [simp]: "depth (b_extend x s) = depth s"
  by (cases s) simp

lemma b_extend_twice [simp]: "b_extend y (b_extend x s) = b_extend (x @ y) s"
  by (cases s) (auto simp: butlast_append)

lemma b_extend_Nil [simp]: "b_extend [] s = s"
  by (cases s; cases "snd s" rule: rev_cases) auto

lemma b_flush_depth: "b_flush d s = Some s' \<Longrightarrow> depth s' = d"
  by (cases s) (auto split: if_splits option.splits)

lemma b_flush_noop: "depth s = d \<Longrightarrow> b_flush d s = Some s"
  by (cases s; cases "snd s" rule: rev_cases) auto

declare b_extend.simps [simp del] b_flush.simps [simp del] flat.simps [simp del]

lemma b_add_depth: "b_add d x s = Some s' \<Longrightarrow> depth s' = d"
  by (auto simp: b_add_def dest!: b_flush_depth)

lemma b_add_at: "depth s = d \<Longrightarrow> b_add d x s = Some (b_extend x s)"
  by (simp add: b_add_def b_flush_noop)

lemma b_add_append: "Option.bind (b_add d x s) (b_add d y) = b_add d (x @ y) s"
proof (cases "b_flush d s")
  case (Some s1)
  then show ?thesis
    using b_add_at [of "b_extend x s1" d y] b_flush_depth [OF Some] by (simp add: b_add_def)
qed (simp add: b_add_def)

lemma refines_add:
  assumes "sys_bounded sys"
    and "\<And>b D. holds b D \<Longrightarrow> step_ok (\<lambda>_ b'. p \<and> holds b' (D @ x) \<and> bb_cap b \<le> bb_cap b') (g b)"
    and "\<And>b D. holds b D \<Longrightarrow> p \<Longrightarrow> length D + length x \<le> unat (bb_cap b) \<Longrightarrow> fst (g b) \<noteq> None"
  shows "refines (andthen (CBB_flush sys d) (\<lambda>_. on_base g)) (\<lambda>s. if p then b_add d x s else None)"
proof -
  have "refines (andthen (CBB_flush sys d) (\<lambda>_. on_base g))
      (\<lambda>s. Option.bind (b_flush d s) (\<lambda>s. if p then Some (b_extend x s) else None))"
    by (rule refines_andthen [OF refines_flush [OF assms(1)] refines_buffer [OF assms(2,3)]])
  moreover have "(\<lambda>s. Option.bind (b_flush d s) (\<lambda>s. if p then Some (b_extend x s) else None)) =
      (\<lambda>s. if p then b_add d x s else None)"
    by (auto simp: fun_eq_iff b_add_def map_conv_bind_option comp_def)
  ultimately show ?thesis
    by simp
qed

lemma refines_add_u:
  assumes "sys_bounded sys" "unat n = k" "1 \<le> k" "k \<le> 4"
  shows "refines (andthen (CBB_flush sys d) (\<lambda>_. on_base (cbb_buffer_add_u sys v n)))
    (\<lambda>s. if unat v < 256 ^ k then b_add d (be_bytes k (unat v)) s else None)"
  using add_u_holds [OF assms(1) _ assms(2,3,4)] add_u_room [OF _ assms(2,3,4)]
  by (intro refines_add [OF assms(1)]) auto

lemma refines_ints:
  assumes "sys_bounded sys"
  shows "refines (CBB_add_u8 sys d v8) (b_add d [v8])"
    and "refines (CBB_add_u16 sys d v16) (b_add d (be_bytes 2 (unat v16)))"
    and "refines (CBB_add_u24 sys d v) (\<lambda>s. if unat v < 2 ^ 24 then b_add d (be_bytes 3 (unat v)) s else None)"
    and "refines (CBB_add_u32 sys d v) (b_add d (be_bytes 4 (unat v)))"
proof -
  have u8: "unat (ucast v8 :: u32) = unat v8" "unat v8 < 256 ^ 1"
    by (simp_all add: unat_ucast_u8_u32)
  have "be_bytes 1 (unat v8) = [v8]"
    by (simp add: be_bytes_def)
  then show "refines (CBB_add_u8 sys d v8) (b_add d [v8])"
    using refines_add_u [OF assms, of 1 1 d "ucast v8"] u8 by (simp add: CBB_add_u8_def)
  have "unat (ucast v16 :: u32) = unat v16" "unat v16 < 65536"
    using unsigned_less [of v16, where 'a = nat] by (simp_all add: unsigned_ucast_eq take_bit_nat_eq_self)
  then show "refines (CBB_add_u16 sys d v16) (b_add d (be_bytes 2 (unat v16)))"
    using refines_add_u [OF assms, of 2 2 d "ucast v16"] by (simp add: CBB_add_u16_def)
  show "refines (CBB_add_u24 sys d v) (\<lambda>s. if unat v < 2 ^ 24 then b_add d (be_bytes 3 (unat v)) s else None)"
    using refines_add_u [OF assms, of 3 3 d v] by (simp add: CBB_add_u24_def)
  show "refines (CBB_add_u32 sys d v) (b_add d (be_bytes 4 (unat v)))"
    using refines_add_u [OF assms, of 4 4 d v] unat_lt32 [of v] by (simp add: CBB_add_u32_def)
qed

text \<open>Two steps on the buffer are one step.\<close>

lemma on_base_andthen: "andthen (on_base f) (\<lambda>x. on_base (g x)) = on_base (andthen f g)"
proof
  fix cbb
  show "andthen (on_base f) (\<lambda>x. on_base (g x)) cbb = on_base (andthen f g) cbb"
    by (auto simp: andthen_def on_base_def split: prod.splits option.splits)
qed

lemma write_end_holds:
  assumes "holds b (D @ junk)" "unat off = length D" "length junk = length x"
  shows "holds (bb_write b off x) (D @ x)" "bb_cap (bb_write b off x) = bb_cap b"
  using write_holds [OF assms(1), of off x] assms(2,3) by simp_all

lemma add_write_holds:
  assumes "sys_bounded sys" "holds b D" "unat n = length x" "length x < 2 ^ 62"
  shows "step_ok (\<lambda>_ b'. holds b' (D @ x) \<and> bb_cap b \<le> bb_cap b')
      (andthen (cbb_buffer_add sys n) (\<lambda>off b. (Some (), bb_write b off x)) b)"
    and "length D + length x \<le> unat (bb_cap b) \<Longrightarrow>
      fst (andthen (cbb_buffer_add sys n) (\<lambda>off b. (Some (), bb_write b off x)) b) \<noteq> None"
proof -
  have n: "unat n < 2 ^ 62"
    using assms by simp
  show "step_ok (\<lambda>_ b'. holds b' (D @ x) \<and> bb_cap b \<le> bb_cap b')
      (andthen (cbb_buffer_add sys n) (\<lambda>off b. (Some (), bb_write b off x)) b)"
  proof (rule step_ok_andthen, rule add_holds [OF assms(1,2) n], elim conjE exE)
    fix off :: usize and b' junk
    assume *: "unat off = length D" "length junk = unat n" "holds b' (D @ junk)" "bb_cap b \<le> bb_cap b'"
    show "step_ok (\<lambda>_ b'. holds b' (D @ x) \<and> bb_cap b \<le> bb_cap b') (Some (), bb_write b' off x)"
      using write_end_holds [OF *(3,1)] * assms(3) by simp
  qed
  show "length D + length x \<le> unat (bb_cap b) \<Longrightarrow>
      fst (andthen (cbb_buffer_add sys n) (\<lambda>off b. (Some (), bb_write b off x)) b) \<noteq> None"
    using add_room [OF assms(2), of n sys] n assms(3) by simp
qed

lemma refines_bytes:
  assumes "sys_bounded sys" "length dat < 2 ^ 62"
  shows "refines (CBB_add_bytes sys d dat) (b_add d dat)"
proof -
  have n: "unat (of_nat (length dat) :: usize) = length dat"
    using assms(2) by (intro unat_of_nat_small) simp
  show ?thesis
    unfolding CBB_add_bytes_def on_base_andthen
    using refines_add [OF assms(1), of True dat, simplified] add_write_holds [OF assms(1) _ n assms(2)]
    by simp
qed

section \<open>Opening a prefix\<close>

definition new_child :: "frame_kind \<Rightarrow> usize \<Rightarrow> cbb_child" where
  "new_child k off =
     \<lparr>c_offset = off, c_pending_len_len = of_nat (prefix_len k), c_pending_is_asn1 = (k = Asn1)\<rparr>"

lemma b_open_simps [simp]:
  "flat (b_open k s) = flat s @ replicate (prefix_len k) 0" "frames_ok (b_open k s) \<longleftrightarrow> frames_ok s \<and> kind_ok k"
  "kids (b_open k s) = kids s @ [new_child k (of_nat (length (flat s)))]" "depth (b_open k s) = Suc (depth s)"
  by (cases s; auto simp: flat.simps new_child_def)+

lemma reps_open:
  assumes "cbb_base cbb = Some b" "holds b (flat s @ replicate (prefix_len k) 0)" "cbb_children cbb = kids s"
    and "frames_ok s" "kind_ok k" "unat off = length (flat s)"
  shows "reps (cbb\<lparr>cbb_children := cbb_children cbb @ [new_child k off]\<rparr>) (b_open k s)"
  using assms unfolding reps_def by (simp flip: assms(6))

lemma refines_open:
  assumes g: "\<And>b D. holds b D \<Longrightarrow> step_ok (\<lambda>off b'. unat off = length D \<and>
      holds b' (D @ replicate (prefix_len k) 0) \<and> bb_cap b \<le> bb_cap b') (g b)"
    and room: "\<And>b D. holds b D \<Longrightarrow> length D + prefix_len k \<le> unat (bb_cap b) \<Longrightarrow> fst (g b) \<noteq> None"
    and k: "kind_ok k"
  shows "refines (andthen (on_base g) (\<lambda>off cbb. (Some (), cbb\<lparr>cbb_children := cbb_children cbb @ [new_child k off]\<rparr>)))
    (\<lambda>s. Some (b_open k s))"
proof (rule refinesI)
  fix s s'
  show "Some (b_open k s) = Some s' \<Longrightarrow> length (flat s) \<le> length (flat s')"
    by auto
next
  fix cbb s u cbb'
  assume "reps cbb s"
    and run: "andthen (on_base g) (\<lambda>off cbb. (Some (), cbb\<lparr>cbb_children := cbb_children cbb @ [new_child k off]\<rparr>)) cbb = (Some u, cbb')"
  then obtain b where b: "cbb_base cbb = Some b" "holds b (flat s)" "cbb_children cbb = kids s" "frames_ok s"
    by (auto simp: reps_def)
  obtain off b' where g': "g b = (Some off, b')"
    and cbb': "cbb' = cbb\<lparr>cbb_base := Some b', cbb_children := cbb_children cbb @ [new_child k off]\<rparr>"
    using run b(1) by (auto simp: andthen_eq_Some on_base_def split: prod.splits)
  have "unat off = length (flat s)" "holds b' (flat s @ replicate (prefix_len k) 0)" "bb_cap b \<le> bb_cap b'"
    using g [OF b(2)] g' by simp_all
  then have "reps cbb' (b_open k s)" "room cbb \<le> room cbb'"
    using reps_open [of "cbb\<lparr>cbb_base := Some b'\<rparr>" b' s k off] b k by (simp_all add: cbb' room_def word_le_nat_alt)
  then show "\<exists>s'. Some (b_open k s) = Some s' \<and> reps cbb' s' \<and> room cbb \<le> room cbb'"
    by simp
next
  fix cbb s s'
  assume r: "reps cbb s" and s': "Some (b_open k s) = Some s'" "length (flat s') \<le> room cbb"
  obtain b where b: "cbb_base cbb = Some b" "holds b (flat s)"
    using r by (auto simp: reps_def)
  have "fst (g b) \<noteq> None"
    using room [OF b(2)] s' b(1) by (auto simp: room_def)
  then show "fst (andthen (on_base g) (\<lambda>off cbb. (Some (), cbb\<lparr>cbb_children := cbb_children cbb @ [new_child k off]\<rparr>)) cbb) \<noteq> None"
    by (cases "g b") (auto simp: on_base_def b andthen_def)
qed

lemma on_base_andthen2:
  "andthen (on_base f) (\<lambda>x. andthen (on_base (g x)) (\<lambda>_. h x)) =
   andthen (on_base (andthen f (\<lambda>x. andthen (g x) (\<lambda>_ b. (Some x, b))))) h"
proof
  fix cbb
  show "andthen (on_base f) (\<lambda>x. andthen (on_base (g x)) (\<lambda>_. h x)) cbb =
      andthen (on_base (andthen f (\<lambda>x. andthen (g x) (\<lambda>_ b. (Some x, b))))) h cbb"
    by (auto simp: andthen_def on_base_def split: prod.splits option.splits)
qed

definition b_prefix :: "nat \<Rightarrow> nat \<Rightarrow> builder \<Rightarrow> builder option" where
  "b_prefix d k s = map_option (b_open (Prefix k)) (b_flush d s)"

lemma refines_prefix:
  assumes "sys_bounded sys" "1 \<le> k" "k \<le> 3" "len_len = of_nat k"
  shows "refines (cbb_add_length_prefixed sys d len_len) (b_prefix d k)"
proof -
  have uk: "unat len_len = k" "unat (ucast len_len :: usize) = k"
    using assms unat_of_nat_small [of k, where 'a = 8] by (simp_all add: unsigned_ucast_eq take_bit_nat_eq_self)
  let ?g = "andthen (cbb_buffer_add sys (ucast len_len)) (\<lambda>off.
      andthen (\<lambda>b. (Some (), bb_write b off (replicate (unat len_len) 0))) (\<lambda>_ b. (Some off, b)))"
  have "refines (andthen (on_base ?g) (\<lambda>off cbb. (Some (), cbb\<lparr>cbb_children := cbb_children cbb @ [new_child (Prefix k) off]\<rparr>)))
      (\<lambda>s. Some (b_open (Prefix k) s))"
  proof (rule refines_open)
    fix b D
    assume h: "holds b D"
    have n: "unat (ucast len_len :: usize) < 2 ^ 62"
      using uk assms(3) by simp
    show "step_ok (\<lambda>off b'. unat off = length D \<and> holds b' (D @ replicate (prefix_len (Prefix k)) 0) \<and> bb_cap b \<le> bb_cap b') (?g b)"
    proof (rule step_ok_andthen, rule add_holds [OF assms(1) h n], elim conjE exE)
      fix off :: usize and b' junk
      assume *: "unat off = length D" "length junk = unat (ucast len_len :: usize)" "holds b' (D @ junk)" "bb_cap b \<le> bb_cap b'"
      show "step_ok (\<lambda>off b'. unat off = length D \<and> holds b' (D @ replicate (prefix_len (Prefix k)) 0) \<and> bb_cap b \<le> bb_cap b')
          (andthen (\<lambda>b. (Some (), bb_write b off (replicate (unat len_len) 0))) (\<lambda>_ b. (Some off, b)) b')"
        using write_end_holds [OF *(3,1), of "replicate k 0"] * uk by simp
    qed
    show "fst (?g b) \<noteq> None" if "length D + prefix_len (Prefix k) \<le> unat (bb_cap b)"
      using add_room [OF h, of "ucast len_len" sys] that uk n by simp
  qed (use assms in simp)
  then have "refines (andthen (CBB_flush sys d) (\<lambda>_. andthen (on_base ?g)
      (\<lambda>off cbb. (Some (), cbb\<lparr>cbb_children := cbb_children cbb @ [new_child (Prefix k) off]\<rparr>))))
      (\<lambda>s. Option.bind (b_flush d s) (\<lambda>s. Some (b_open (Prefix k) s)))"
    by (rule refines_andthen [OF refines_flush [OF assms(1)]])
  then show ?thesis
    unfolding cbb_add_length_prefixed_def on_base_andthen2
    by (simp add: b_prefix_def [abs_def] map_conv_bind_option comp_def new_child_def assms(4))
qed

section \<open>Appending at a handle that has no child\<close>

abbreviation adds :: "nat \<Rightarrow> (CBB \<Rightarrow> unit option \<times> CBB) \<Rightarrow> bytes \<Rightarrow> bool" where
  "adds d m x \<equiv> refines_on (\<lambda>s. depth s = d) m (\<lambda>s. Some (b_extend x s))"

lemma refines_on_cong: "refines_on Q m f \<Longrightarrow> (\<And>s. Q s \<Longrightarrow> f s = g s) \<Longrightarrow> refines_on Q m g"
  by (simp add: refines_on_def)

lemma adds_of_add: "refines m (b_add d x) \<Longrightarrow> adds d m x"
  by (rule refines_on_cong [where f = "b_add d x"], erule refines_on_True) (simp add: b_add_at)

lemma adds_skip: "adds d (\<lambda>cbb. (Some (), cbb)) []"
  by (rule refines_on_cong [OF refines_on_True [OF refines_skip]]) simp

lemma adds_andthen:
  assumes "adds d m x" "adds d n y"
  shows "adds d (andthen m (\<lambda>_. n)) (x @ y)"
proof -
  have "refines_on (\<lambda>s. depth s = d) (andthen m (\<lambda>_. n))
      (\<lambda>s. Option.bind (Some (b_extend x s)) (\<lambda>s. Some (b_extend y s)))"
    by (rule refines_andthen_on [OF assms]) (metis depth_extend option.inject)
  then show ?thesis
    by simp
qed

text \<open>Flushing first, or having flushed already.\<close>

lemma refines_flush_then:
  assumes "sys_bounded sys" "refines_on (\<lambda>s. depth s = d) m f"
  shows "refines (andthen (CBB_flush sys d) (\<lambda>_. m)) (\<lambda>s. Option.bind (b_flush d s) f)"
  by (rule refines_andthen_on [OF refines_flush [OF assms(1)] assms(2)]) (rule b_flush_depth)

lemma adds_u8: "sys_bounded sys \<Longrightarrow> adds d (CBB_add_u8 sys d v) [v]"
  by (rule adds_of_add [OF refines_ints(1)])

section \<open>Base-128 integers and tags\<close>

lemma unat_drop_bit: "unat (drop_bit m (w :: 'a::len word)) = unat w div 2 ^ m"
  by (simp only: unsigned_drop_bit_eq drop_bit_eq_div [where 'a = nat]) (simp add: take_bit_nat_eq_self)

text \<open>The digits of the loop: all but the last with the continuation bit.\<close>

primrec cont_bytes :: "u64 \<Rightarrow> nat \<Rightarrow> bytes" where
  "cont_bytes v 0 = []"
| "cont_bytes v (Suc i) = ((ucast (drop_bit (7 * i) v) AND 0x7f) OR 0x80) # cont_bytes v i"

primrec loop_bytes :: "u64 \<Rightarrow> nat \<Rightarrow> bytes" where
  "loop_bytes v 0 = []"
| "loop_bytes v (Suc i) =
     (if i \<noteq> 0 then (ucast (drop_bit (7 * i) v) AND 0x7f) OR 0x80 else ucast (drop_bit (7 * i) v) AND 0x7f) # loop_bytes v i"

lemma cont_bytes_shift: "cont_bytes v (Suc i) = cont_bytes (drop_bit 7 v) i @ [(ucast v AND 0x7f) OR 0x80]"
proof (induction i)
  case (Suc i)
  have "drop_bit (7 * i) (drop_bit 7 v) = drop_bit (7 * Suc i) v"
    by (simp add: add.commute)
  then show ?case
    using Suc by (simp only: cont_bytes.simps append_Cons)
qed simp

lemma loop_bytes_shift: "loop_bytes v (Suc i) = cont_bytes (drop_bit 7 v) i @ [ucast v AND 0x7f]"
proof (induction i)
  case (Suc i)
  have "drop_bit (7 * i) (drop_bit 7 v) = drop_bit (7 * Suc i) v"
    by (simp add: add.commute)
  then show ?case
    using Suc by (simp only: loop_bytes.simps cont_bytes.simps append_Cons) simp
qed simp

lemma low_digit: "(ucast (v :: u64) AND 0x7f :: u8) = of_nat (unat v mod 128)"
proof -
  have "ucast v AND 0x7f = (ucast (take_bit 7 v) :: u8)"
    unfolding and_7f by (rule bit_word_eqI) (auto simp: bit_simps)
  also have "\<dots> = of_nat (unat (take_bit 7 v))"
    by simp
  finally show ?thesis
    by (simp only: unsigned_take_bit_eq) (simp add: take_bit_eq_mod)
qed

lemma cont_digit: "(ucast (v :: u64) AND 0x7f :: u8) OR 0x80 = of_nat (128 + unat v mod 128)"
proof -
  have "(ucast v AND 0x7f :: u8) AND 0x80 = 0"
    by (rule u8_eqI; simp add: bit_simps)
  then have "(ucast v AND 0x7f :: u8) OR 0x80 = (ucast v AND 0x7f) + 0x80"
    by (simp add: disjunctive_add_eq_or)
  then show ?thesis
    by (simp add: low_digit)
qed

lemma cont_bytes_len: "cont_bytes v (base128_len v) = b128_cont (unat v)"
proof (induction v rule: base128_len.induct)
  case (1 v)
  show ?case
  proof (cases "v > 0")
    case True
    have "unat (drop_bit 7 v) = unat v div 128"
      by (simp add: unat_drop_bit)
    moreover have "unat v \<noteq> 0"
      using True by (simp add: word_less_nat_alt)
    ultimately show ?thesis
      using 1 True cont_digit [of v]
      by (simp add: base128_len.simps [of v] cont_bytes_shift b128_cont.simps [of "unat v"] del: cont_bytes.simps)
  qed (simp add: base128_len.simps [of v] word_less_nat_alt)
qed

lemma loop_bytes_len:
  "loop_bytes v (if base128_len v = 0 then 1 else base128_len v) = base128 (unat v)"
proof -
  have "(if base128_len v = 0 then 1 else base128_len v) = Suc (base128_len (drop_bit 7 v))"
    by (cases "v > 0") (simp_all add: base128_len.simps [of v] base128_len.simps [of 0] word_less_nat_alt unsigned_eq_0_iff)
  then show ?thesis
    by (simp only: loop_bytes_shift cont_bytes_len) (simp add: base128_def unat_drop_bit low_digit)
qed

lemma adds_base128:
  assumes "sys_bounded sys"
  shows "adds d (add_base128_integer sys d v) (base128 (unat v))"
proof -
  have "adds d (add_base128_loop sys d v i) (loop_bytes v i)" for i
  proof (induction i)
    case (Suc i)
    show ?case
      using adds_andthen [OF adds_u8 [OF assms] Suc] by (simp add: Let_def)
  next
    case 0
    show ?case
      using adds_skip [of d] by simp
  qed
  then show ?thesis
    unfolding add_base128_integer_def Let_def using loop_bytes_len [of v] by metis
qed

definition b_asn1 :: "nat \<Rightarrow> u32 \<Rightarrow> builder \<Rightarrow> builder option" where
  "b_asn1 d tag s = map_option (\<lambda>s. b_open Asn1 (b_extend (der_tag tag) s)) (b_flush d s)"

lemma adds_tag:
  assumes "sys_bounded sys"
  shows "adds d (if tag AND CBS_ASN1_TAG_NUMBER_MASK \<ge> 0x1f then
       andthen (CBB_add_u8 sys d ((ucast (drop_bit CBS_ASN1_TAG_SHIFT tag) AND 0xe0) OR 0x1f))
         (\<lambda>_. add_base128_integer sys d (ucast (tag AND CBS_ASN1_TAG_NUMBER_MASK)))
     else CBB_add_u8 sys d ((ucast (drop_bit CBS_ASN1_TAG_SHIFT tag) AND 0xe0) OR ucast (tag AND CBS_ASN1_TAG_NUMBER_MASK)))
    (der_tag tag)"
proof -
  have parts: "ucast (drop_bit CBS_ASN1_TAG_SHIFT tag) AND 0xe0 = tag_bits tag"
    "tag AND CBS_ASN1_TAG_NUMBER_MASK = tag_num tag"
    by (simp_all add: tag_bits_def tag_num_def CBS_ASN1_TAG_SHIFT_def CBS_ASN1_TAG_NUMBER_MASK_def)
  have u: "unat (ucast (tag_num tag) :: u64) = unat (tag_num tag)"
    by (simp add: unsigned_ucast_eq take_bit_nat_eq_self less_trans [OF unat_lt32])
  show ?thesis
    unfolding parts
    using adds_u8 [OF assms, of d "tag_bits tag OR ucast (tag_num tag)"]
      adds_andthen [OF adds_u8 [OF assms, of d "tag_bits tag OR 31"] adds_base128 [OF assms, of d "ucast (tag_num tag)"]]
    by (auto simp: der_tag_def word_le_nat_alt u)
qed

lemma refines_open_asn1:
  assumes "sys_bounded sys"
  shows "refines_on (\<lambda>s. depth s = d)
    (\<lambda>cbb. let offset = (case cbb_base cbb of None \<Rightarrow> 0 | Some b \<Rightarrow> bb_len b)
       in andthen (CBB_add_u8 sys d 0) (\<lambda>_ cbb.
         (Some (), cbb\<lparr>cbb_children := cbb_children cbb @
            [\<lparr>c_offset = offset, c_pending_len_len = 1, c_pending_is_asn1 = True\<rparr>]\<rparr>)) cbb)
    (\<lambda>s. Some (b_open Asn1 s))"
    (is "refines_on _ ?m _")
proof -
  note add0 = adds_u8 [OF assms, of d 0]
  have child: "\<lparr>c_offset = off, c_pending_len_len = 1, c_pending_is_asn1 = True\<rparr> = new_child Asn1 off" for off
    by (simp add: new_child_def)
  show ?thesis
  proof (rule refinesI)
    fix s s'
    show "Some (b_open Asn1 s) = Some s' \<Longrightarrow> length (flat s) \<le> length (flat s')"
      by auto
  next
    fix cbb s u cbb'
    assume d: "depth s = d" and r: "reps cbb s" and run: "?m cbb = (Some u, cbb')"
    obtain b where b: "cbb_base cbb = Some b" "holds b (flat s)" "frames_ok s"
      using r by (auto simp: reps_def)
    obtain c1 where c1: "CBB_add_u8 sys d 0 cbb = (Some (), c1)"
      and cbb': "cbb' = c1\<lparr>cbb_children := cbb_children c1 @ [new_child Asn1 (bb_len b)]\<rparr>"
      using run by (auto simp: Let_def b(1) andthen_eq_Some child)
    obtain s1 where "Some (b_extend [0] s) = Some s1" "reps c1 s1" "room cbb \<le> room c1"
      using refinesD(2) [OF add0 d r c1] by blast
    then have r1: "reps c1 (b_extend [0] s)" and rm: "room cbb \<le> room c1"
      by simp_all
    obtain b1 where b1: "cbb_base c1 = Some b1" "holds b1 (flat s @ [0])" "cbb_children c1 = kids s"
      using r1 by (auto simp: reps_def)
    have "reps cbb' (b_open Asn1 s)"
      unfolding cbb' using reps_open [of c1 b1 s Asn1 "bb_len b"] b1 b holds_length [OF b(2)] by simp
    then show "\<exists>s'. Some (b_open Asn1 s) = Some s' \<and> reps cbb' s' \<and> room cbb \<le> room cbb'"
      using rm by (simp add: cbb' room_def)
  next
    fix cbb s s'
    assume d: "depth s = d" and r: "reps cbb s" and s': "Some (b_open Asn1 s) = Some s'" "length (flat s') \<le> room cbb"
    have "length (flat (b_extend [0] s)) \<le> room cbb"
      using s' by auto
    then obtain c1 where "CBB_add_u8 sys d 0 cbb = (Some (), c1)"
      using refinesD(3) [OF add0 d r refl] by blast
    then show "fst (?m cbb) \<noteq> None"
      by (simp add: Let_def)
  qed
qed

lemma refines_asn1:
  assumes "sys_bounded sys"
  shows "refines (CBB_add_asn1 sys d tag) (b_asn1 d tag)"
proof -
  note tag = adds_tag [OF assms, of d tag]
  have "refines (CBB_add_asn1 sys d tag)
      (\<lambda>s. Option.bind (b_flush d s) (\<lambda>s. Option.bind (Some (b_extend (der_tag tag) s)) (\<lambda>s. Some (b_open Asn1 s))))"
    unfolding CBB_add_asn1_def Let_def
    by (rule refines_flush_then [OF assms refines_andthen_on [OF tag refines_open_asn1 [OF assms, unfolded Let_def]]])
      (metis depth_extend option.inject)
  then show ?thesis
    by (simp add: b_asn1_def [abs_def] map_conv_bind_option comp_def)
qed

section \<open>Typed elements\<close>

text \<open>Contents added inside a fresh element, closed by a flush of the parent.\<close>

definition b_element :: "nat \<Rightarrow> u32 \<Rightarrow> bytes \<Rightarrow> builder \<Rightarrow> builder option" where
  "b_element d tag c s =
     (if length c \<le> 0xfffffffe then map_option (b_extend (der_element tag c)) (b_flush d s) else None)"

lemma b_flush_open:
  assumes "depth s = d"
  shows "b_flush d (b_extend c (b_open Asn1 s)) =
    (if length c \<le> 0xfffffffe then Some (b_extend (der_len (length c) @ c) s) else None)"
  using assms by (cases s) (simp add: b_flush.simps b_extend.simps)

lemma b_asn1_depth:
  assumes "b_asn1 d tag s = Some s'"
  shows "depth s' = d + 1"
proof -
  obtain s1 where s1: "b_flush d s = Some s1" "s' = b_open Asn1 (b_extend (der_tag tag) s1)"
    using assms unfolding b_asn1_def map_option_eq_Some by blast
  show ?thesis
    unfolding s1(2) using b_flush_depth [OF s1(1)] by (simp only: b_open_simps depth_extend)
qed

lemma refines_element:
  assumes "sys_bounded sys" "adds (d + 1) m c"
  shows "refines (andthen (CBB_add_asn1 sys d tag) (\<lambda>_. andthen m (\<lambda>_. CBB_flush sys d))) (b_element d tag c)"
proof -
  let ?f = "\<lambda>s. Option.bind (Some (b_extend c s)) (b_flush d)"
  have "refines_on (\<lambda>s. depth s = d + 1) (andthen m (\<lambda>_. CBB_flush sys d)) ?f"
    by (rule refines_andthen_on [OF assms(2) refines_on_True [OF refines_flush [OF assms(1)]] TrueI])
  then have "refines (andthen (CBB_add_asn1 sys d tag) (\<lambda>_. andthen m (\<lambda>_. CBB_flush sys d)))
      (\<lambda>s. Option.bind (b_asn1 d tag s) ?f)"
    by (rule refines_andthen_on [OF refines_asn1 [OF assms(1)]]) (rule b_asn1_depth)
  moreover have "Option.bind (b_asn1 d tag s) ?f = b_element d tag c s" for s
  proof (cases "b_flush d s")
    case (Some s1)
    then show ?thesis
      using b_flush_open [of "b_extend (der_tag tag) s1" d c] b_flush_depth [OF Some]
      by (simp add: b_asn1_def b_element_def der_element_def der_header_def)
  qed (simp add: b_asn1_def b_element_def)
  ultimately show ?thesis
    by simp
qed

lemma refines_octet_string:
  assumes "sys_bounded sys" "length dat < 2 ^ 62"
  shows "refines (CBB_add_asn1_octet_string sys d dat) (b_element d CBS_ASN1_OCTETSTRING dat)"
  unfolding CBB_add_asn1_octet_string_def
  by (rule refines_element [OF assms(1) adds_of_add [OF refines_bytes [OF assms]]])

lemma refines_bool:
  assumes "sys_bounded sys"
  shows "refines (CBB_add_asn1_bool sys d val) (b_element d CBS_ASN1_BOOLEAN [if val \<noteq> 0 then 0xff else 0])"
  unfolding CBB_add_asn1_bool_def by (rule refines_element [OF assms adds_u8 [OF assms]])

text \<open>The bytes that the loop of \<open>CBB_add_asn1_uint64\<close> writes, and whether it writes any.\<close>

primrec u64_bytes :: "nat \<Rightarrow> nat \<Rightarrow> bool \<Rightarrow> bytes" where
  "u64_bytes n 0 st = []"
| "u64_bytes n (Suc k) st =
     (let b = of_nat (n div 256 ^ k) :: u8
      in if \<not> st \<and> b = 0 then u64_bytes n k st
         else (if \<not> st \<and> b AND 0x80 \<noteq> 0 then [0] else []) @ [b] @ u64_bytes n k True)"

primrec u64_started :: "nat \<Rightarrow> nat \<Rightarrow> bool \<Rightarrow> bool" where
  "u64_started n 0 st = st"
| "u64_started n (Suc k) st = u64_started n k (st \<or> (of_nat (n div 256 ^ k) :: u8) \<noteq> 0)"

lemma be_bytes_Cons: "be_bytes (Suc k) n = of_nat (n div 256 ^ k) # be_bytes k n"
proof (induction k arbitrary: n)
  case (Suc k)
  have "n div 256 div 256 ^ k = n div 256 ^ Suc k"
    by (simp add: div_mult2_eq)
  then show ?case
    using Suc [of "n div 256"] by (simp only: be_bytes_Suc [of "Suc k" n] append_Cons be_bytes_Suc [of k n])
qed (simp add: be_bytes_def)

lemma u64_started_True [simp]: "u64_started n k True"
  by (induction k) simp_all

lemma u64_bytes_started: "u64_bytes n k True = be_bytes k n"
  by (induction k) (simp_all add: be_bytes_Cons, simp add: be_bytes_def)

lemma sig_bytes_be_bytes:
  assumes "n < 256 ^ Suc k" "n div 256 ^ k \<noteq> 0"
  shows "sig_bytes n = be_bytes (Suc k) n"
proof -
  have "n div 256 ^ k < 256"
    using assms(1) by (simp add: div_less_iff_less_mult mult.commute)
  then have "unat (of_nat (n div 256 ^ k) :: u8) = n div 256 ^ k"
    by (simp add: unat_of_nat_u8)
  then have "hd (be_bytes (Suc k) n) \<noteq> 0"
    using assms(2) by (auto simp: be_bytes_Cons)
  then have "sig_bytes (be_val (be_bytes (Suc k) n)) = be_bytes (Suc k) n"
    by (intro sig_bytes_be_val) simp
  then show ?thesis
    using assms(1) by (simp add: be_val_be_bytes del: power_Suc)
qed

lemma u64_bytes_uint_content:
  "n < 256 ^ k \<Longrightarrow> u64_bytes n k False @ (if u64_started n k False then [] else [0]) = uint_content n"
proof (induction k)
  case (Suc k)
  define b :: u8 where "b = of_nat (n div 256 ^ k)"
  have small: "n div 256 ^ k < 256"
    using Suc.prems by (simp add: div_less_iff_less_mult mult.commute)
  then have ub: "unat b = n div 256 ^ k"
    unfolding b_def by (simp add: unat_of_nat_u8)
  show ?case
  proof (cases "b = 0")
    case True
    then have "n div 256 ^ k = 0"
      using ub by simp
    then have "n < 256 ^ k"
      by (simp add: div_eq_0_iff)
    then show ?thesis
      using Suc.IH True by (simp add: Let_def flip: b_def)
  next
    case False
    then have "n div 256 ^ k \<noteq> 0"
      using ub by (metis unsigned_eq_0_iff)
    then have "sig_bytes n = b # be_bytes k n"
      using sig_bytes_be_bytes [OF Suc.prems] by (simp add: be_bytes_Cons b_def)
    then show ?thesis
      using False by (simp add: uint_content_def Let_def u64_bytes_started flip: b_def)
  qed
qed (simp add: uint_content_def)

text \<open>The loop returns a value that does not depend on the buffer.\<close>

definition forget :: "(CBB \<Rightarrow> 'a option \<times> CBB) \<Rightarrow> CBB \<Rightarrow> unit option \<times> CBB" where
  "forget m = andthen m (\<lambda>_ cbb. (Some (), cbb))"

lemma uint64_byte: "(ucast (drop_bit (8 * k) (val :: u64) AND 0xff) :: u8) = of_nat (unat val div 256 ^ k)"
proof -
  have "(ucast (drop_bit (8 * k) val AND 0xff) :: u8) = ucast (drop_bit (8 * k) val)"
    unfolding and_ff by (rule bit_word_eqI) (auto simp: bit_simps)
  also have "\<dots> = of_nat (unat (drop_bit (8 * k) val))"
    by (simp only: of_nat_unat)
  also have "unat (drop_bit (8 * k) val) = unat val div 256 ^ k"
    by (simp only: unat_drop_bit power_256_8 mult.commute [of 8 k])
  finally show ?thesis .
qed

lemma uint64_loop_result:
  "asn1_uint64_loop sys d val k st cbb = (Some r, cbb') \<Longrightarrow> r = u64_started (unat val) k st"
proof (induction k arbitrary: st cbb)
  case (Suc k)
  from Suc.prems show ?case
    by (auto simp: Let_def andthen_eq_Some uint64_byte split: if_splits dest!: Suc.IH)
qed simp

lemma andthen_assoc: "andthen (andthen m f) g = andthen m (\<lambda>x. andthen (f x) g)"
  by (rule ext) (auto simp: andthen_def split: prod.splits option.splits)

lemma andthen_skip: "andthen (\<lambda>cbb. (Some x, cbb)) f = f x"
  by (rule ext) (simp add: andthen_def)

lemma uint64_loop_adds:
  assumes "sys_bounded sys"
  shows "adds d (forget (asn1_uint64_loop sys d val k st)) (u64_bytes (unat val) k st)"
proof (induction k arbitrary: st)
  case 0
  show ?case
    using adds_skip [of d] by (simp add: forget_def andthen_skip)
next
  case (Suc k)
  let ?b = "of_nat (unat val div 256 ^ k) :: u8"
  have pad: "adds d (if \<not> st \<and> ?b AND 0x80 \<noteq> 0 then CBB_add_u8 sys d 0 else (\<lambda>cbb. (Some (), cbb)))
      (if \<not> st \<and> ?b AND 0x80 \<noteq> 0 then [0] else [])"
    using adds_u8 [OF assms, of d 0] adds_skip [of d] by simp
  show ?case
  proof (cases "\<not> st \<and> ?b = 0")
    case True
    then show ?thesis
      using Suc [of st] by (simp add: Let_def uint64_byte)
  next
    case False
    have "adds d (andthen (if \<not> st \<and> ?b AND 0x80 \<noteq> 0 then CBB_add_u8 sys d 0 else (\<lambda>cbb. (Some (), cbb)))
        (\<lambda>_. andthen (CBB_add_u8 sys d ?b) (\<lambda>_. forget (asn1_uint64_loop sys d val k True))))
      ((if \<not> st \<and> ?b AND 0x80 \<noteq> 0 then [0] else []) @ [?b] @ u64_bytes (unat val) k True)"
      by (intro adds_andthen pad adds_u8 [OF assms] Suc)
    moreover have "forget (asn1_uint64_loop sys d val (Suc k) st) =
        andthen (if \<not> st \<and> ?b AND 0x80 \<noteq> 0 then CBB_add_u8 sys d 0 else (\<lambda>cbb. (Some (), cbb)))
        (\<lambda>_. andthen (CBB_add_u8 sys d ?b) (\<lambda>_. forget (asn1_uint64_loop sys d val k True)))"
      using False by (auto simp: forget_def Let_def uint64_byte andthen_assoc)
    moreover have "u64_bytes (unat val) (Suc k) st =
        (if \<not> st \<and> ?b AND 0x80 \<noteq> 0 then [0] else []) @ [?b] @ u64_bytes (unat val) k True"
      using False by (auto simp: Let_def)
    ultimately show ?thesis
      by (simp only:)
  qed
qed

lemma refines_uint64:
  assumes "sys_bounded sys"
  shows "refines (CBB_add_asn1_uint64 sys d val) (b_element d CBS_ASN1_INTEGER (uint_content (unat val)))"
proof -
  let ?st = "u64_started (unat val) 8 False"
  let ?loop = "asn1_uint64_loop sys (d + 1) val 8 False"
  have fin: "adds (d + 1) (if \<not> ?st then CBB_add_u8 sys (d + 1) 0 else (\<lambda>cbb. (Some (), cbb))) (if ?st then [] else [0])"
    using adds_u8 [OF assms, of "d + 1" 0] adds_skip [of "d + 1"] by simp
  have "adds (d + 1) (andthen (forget ?loop) (\<lambda>_. if \<not> ?st then CBB_add_u8 sys (d + 1) 0 else (\<lambda>cbb. (Some (), cbb))))
      (u64_bytes (unat val) 8 False @ (if ?st then [] else [0]))"
    by (rule adds_andthen [OF uint64_loop_adds [OF assms] fin])
  moreover have "unat val < 256 ^ 8"
    using unat_lt64 [of val] by simp
  ultimately have content: "adds (d + 1) (andthen (forget ?loop)
      (\<lambda>_. if \<not> ?st then CBB_add_u8 sys (d + 1) 0 else (\<lambda>cbb. (Some (), cbb)))) (uint_content (unat val))"
    by (simp only: u64_bytes_uint_content)
  have loop: "andthen ?loop f = andthen (forget ?loop) (\<lambda>_. f ?st)" for f :: "bool \<Rightarrow> CBB \<Rightarrow> unit option \<times> CBB"
  proof
    fix cbb
    show "andthen ?loop f cbb = andthen (forget ?loop) (\<lambda>_. f ?st) cbb"
      using uint64_loop_result [of sys "d + 1" val 8 False cbb]
      by (cases "?loop cbb"; cases "fst (?loop cbb)") (auto simp: forget_def andthen_def)
  qed
  show ?thesis
    using refines_element [OF assms content, of CBS_ASN1_INTEGER]
    unfolding CBB_add_asn1_uint64_def loop andthen_assoc .
qed

end
