(* ===== verification/CBB_Build.thy ===== *)
theory CBB_Build
  imports CBB_Spec
begin

text \<open>
  Whole uses of the builder: a sequence of calls on any handles between \<open>CBB_init\<close> (or
  \<open>CBB_init_fixed\<close>) and \<open>CBB_finish\<close>, and what the caller gets.
\<close>

datatype cbb_op =
    Op_u8 nat u8 | Op_u16 nat u16 | Op_u24 nat u32 | Op_u32 nat u32 | Op_bytes nat bytes
  | Op_u8_prefixed nat | Op_u16_prefixed nat | Op_u24_prefixed nat | Op_asn1 nat u32
  | Op_uint64 nat u64 | Op_octets nat bytes | Op_bool nat int | Op_flush nat

fun run_op :: "system_malloc \<Rightarrow> cbb_op \<Rightarrow> CBB \<Rightarrow> unit option \<times> CBB" where
  "run_op sys (Op_u8 d v) = CBB_add_u8 sys d v"
| "run_op sys (Op_u16 d v) = CBB_add_u16 sys d v"
| "run_op sys (Op_u24 d v) = CBB_add_u24 sys d v"
| "run_op sys (Op_u32 d v) = CBB_add_u32 sys d v"
| "run_op sys (Op_bytes d x) = CBB_add_bytes sys d x"
| "run_op sys (Op_u8_prefixed d) = CBB_add_u8_length_prefixed sys d"
| "run_op sys (Op_u16_prefixed d) = CBB_add_u16_length_prefixed sys d"
| "run_op sys (Op_u24_prefixed d) = CBB_add_u24_length_prefixed sys d"
| "run_op sys (Op_asn1 d tag) = CBB_add_asn1 sys d tag"
| "run_op sys (Op_uint64 d v) = CBB_add_asn1_uint64 sys d v"
| "run_op sys (Op_octets d x) = CBB_add_asn1_octet_string sys d x"
| "run_op sys (Op_bool d v) = CBB_add_asn1_bool sys d v"
| "run_op sys (Op_flush d) = CBB_flush sys d"

fun spec_op :: "cbb_op \<Rightarrow> builder \<Rightarrow> builder option" where
  "spec_op (Op_u8 d v) = b_add d [v]"
| "spec_op (Op_u16 d v) = b_add d (be_bytes 2 (unat v))"
| "spec_op (Op_u24 d v) = (\<lambda>s. if unat v < 2 ^ 24 then b_add d (be_bytes 3 (unat v)) s else None)"
| "spec_op (Op_u32 d v) = b_add d (be_bytes 4 (unat v))"
| "spec_op (Op_bytes d x) = b_add d x"
| "spec_op (Op_u8_prefixed d) = b_prefix d 1"
| "spec_op (Op_u16_prefixed d) = b_prefix d 2"
| "spec_op (Op_u24_prefixed d) = b_prefix d 3"
| "spec_op (Op_asn1 d tag) = b_asn1 d tag"
| "spec_op (Op_uint64 d v) = b_element d CBS_ASN1_INTEGER (uint_content (unat v))"
| "spec_op (Op_octets d x) = b_element d CBS_ASN1_OCTETSTRING x"
| "spec_op (Op_bool d v) = b_element d CBS_ASN1_BOOLEAN [if v \<noteq> 0 then 0xff else 0]"
| "spec_op (Op_flush d) = b_flush d"

text \<open>Byte strings in memory are shorter than \<open>2^62\<close>.\<close>

fun op_ok :: "cbb_op \<Rightarrow> bool" where
  "op_ok (Op_bytes d x) \<longleftrightarrow> length x < 2 ^ 62"
| "op_ok (Op_octets d x) \<longleftrightarrow> length x < 2 ^ 62"
| "op_ok _ \<longleftrightarrow> True"

primrec run_ops :: "system_malloc \<Rightarrow> cbb_op list \<Rightarrow> CBB \<Rightarrow> unit option \<times> CBB" where
  "run_ops sys [] = (\<lambda>cbb. (Some (), cbb))"
| "run_ops sys (op # ops) = andthen (run_op sys op) (\<lambda>_. run_ops sys ops)"

primrec spec_ops :: "cbb_op list \<Rightarrow> builder \<Rightarrow> builder option" where
  "spec_ops [] = Some"
| "spec_ops (op # ops) = (\<lambda>s. Option.bind (spec_op op s) (spec_ops ops))"

lemma refines_op: "sys_bounded sys \<Longrightarrow> op_ok op \<Longrightarrow> refines (run_op sys op) (spec_op op)"
  using refines_ints refines_bytes refines_prefix [of sys 1 1] refines_prefix [of sys 2 2]
    refines_prefix [of sys 3 3] refines_asn1 refines_uint64 refines_octet_string
    refines_bool refines_flush
  by (cases op) (auto simp: CBB_add_u8_length_prefixed_def CBB_add_u16_length_prefixed_def
      CBB_add_u24_length_prefixed_def)

lemma refines_ops: "sys_bounded sys \<Longrightarrow> \<forall>op \<in> set ops. op_ok op \<Longrightarrow> refines (run_ops sys ops) (spec_ops ops)"
proof (induction ops)
  case (Cons op ops)
  then show ?case
    using refines_andthen [OF refines_op Cons.IH] by simp
qed (simp add: refines_skip)

text \<open>The bytes of a finished builder: all prefixes closed.\<close>

definition spec_build :: "cbb_op list \<Rightarrow> bytes option" where
  "spec_build ops = Option.bind (spec_ops ops ([], [])) (\<lambda>s. map_option flat (b_flush 0 s))"

text \<open>Initialise, run the calls, finish; the bytes at \<open>*out_data\<close>.\<close>

definition out_bytes :: "(heap_ptr option \<times> usize) option \<Rightarrow> bytes option" where
  "out_bytes r = map_option (\<lambda>(p, n). take (unat n) (case p of None \<Rightarrow> [] | Some p \<Rightarrow> mem p)) r"

definition run_build :: "system_malloc \<Rightarrow> unit option \<times> CBB \<Rightarrow> cbb_op list \<Rightarrow> bytes option" where
  "run_build sys start ops =
     (case start of
        (None, _) \<Rightarrow> None
      | (Some _, cbb) \<Rightarrow> out_bytes (fst (andthen (run_ops sys ops) (\<lambda>_. CBB_finish sys 0) cbb)))"

lemma reps_start:
  assumes "buffer_ok b" "\<not> bb_error b" "bb_len b = 0"
  shows "reps \<lparr>cbb_base = Some b, cbb_children = []\<rparr> ([], [])"
  using assms by (simp add: reps_def holds_def flat.simps)

lemma CBB_init_reps:
  assumes "CBB_init sys cap = (Some u, cbb)" "unat cap < 2 ^ 62"
  shows "reps cbb ([], [])"
proof -
  have max: "cap \<le> malloc_max"
    using assms(2) by (simp add: malloc_max_def word_le_nat_alt)
  define b where "b = \<lparr>bb_buf = OPENSSL_malloc sys cap, bb_len = 0, bb_cap = cap,
      bb_can_resize = True, bb_error = False\<rparr>"
  have cbb: "cbb = \<lparr>cbb_base = Some b, cbb_children = []\<rparr>" and c: "cap = 0 \<or> OPENSSL_malloc sys cap \<noteq> None"
    using assms(1)
    by (auto simp: CBB_init_def cbb_init_def CBB_zero_def b_def Let_def word_gt_0 split: if_splits option.splits)
  have "buffer_ok b"
  proof (cases "OPENSSL_malloc sys cap")
    case None
    then show ?thesis
      using c by (simp add: b_def buffer_ok_def bb_mem_def)
  next
    case (Some p)
    then show ?thesis
      using OPENSSL_malloc_ok [OF Some max] assms(2) by (simp add: b_def buffer_ok_def bb_mem_def)
  qed
  then show ?thesis
    unfolding cbb by (rule reps_start) (simp_all add: b_def)
qed

lemma CBB_init_fixed_reps:
  assumes "sys 40 \<noteq> None" "length fixed < 2 ^ 62"
  shows "\<exists>cbb. CBB_init_fixed sys fixed = (Some (), cbb) \<and> reps cbb ([], []) \<and> room cbb = length fixed"
proof -
  define b where "b = \<lparr>bb_buf = Some \<lparr>size_prefix = 0, mem = fixed\<rparr>, bb_len = 0, bb_cap = of_nat (length fixed),
      bb_can_resize = False, bb_error = False\<rparr>"
  have u: "unat (of_nat (length fixed) :: usize) = length fixed"
    using assms(2) by (intro unat_of_nat_small) simp
  have "buffer_ok b"
    using assms(2) u by (simp add: b_def buffer_ok_def bb_mem_def)
  then have "reps \<lparr>cbb_base = Some b, cbb_children = []\<rparr> ([], [])"
    by (rule reps_start) (simp_all add: b_def)
  moreover have "OPENSSL_malloc sys 32 \<noteq> None"
    using assms(1) by (auto simp: OPENSSL_malloc_def OPENSSL_MALLOC_PREFIX_def)
  then have "CBB_init_fixed sys fixed = (Some (), \<lparr>cbb_base = Some b, cbb_children = []\<rparr>)"
    by (auto simp: CBB_init_fixed_def cbb_init_def CBB_zero_def b_def andthen_def)
  ultimately show ?thesis
    using u by (simp add: room_def b_def)
qed

lemma run_build_sound:
  assumes "sys_bounded sys" "\<forall>op \<in> set ops. op_ok op" "reps cbb ([], [])"
    and "run_build sys (Some (), cbb) ops = Some out"
  shows "spec_build ops = Some out"
proof -
  note fl = refines_flush [OF assms(1), of 0]
  obtain c1 c2 b where run: "run_ops sys ops cbb = (Some (), c1)" "CBB_flush sys 0 c1 = (Some (), c2)"
    and b: "cbb_base c2 = Some b" "out = take (unat (bb_len b)) (bb_mem b)"
  proof -
    obtain p n c3 where fin: "andthen (run_ops sys ops) (\<lambda>_. CBB_finish sys 0) cbb = (Some (p, n), c3)"
      and out: "out = take (unat n) (case p of None \<Rightarrow> [] | Some p \<Rightarrow> mem p)"
      using assms(4) by (cases "andthen (run_ops sys ops) (\<lambda>_. CBB_finish sys 0) cbb")
        (auto simp: run_build_def out_bytes_def)
    show ?thesis
      using fin out that
      by (auto simp: andthen_eq_Some CBB_finish_def bb_mem_def split: option.splits)
  qed
  obtain s1 where s1: "spec_ops ops ([], []) = Some s1" "reps c1 s1"
    using refinesD(2) [OF refines_ops [OF assms(1,2)] TrueI assms(3) run(1)] by blast
  obtain s2 where s2: "b_flush 0 s1 = Some s2" "reps c2 s2"
    using refinesD(2) [OF fl TrueI s1(2) run(2)] by blast
  have "out = flat s2"
    using s2(2) b by (auto simp: reps_def holds_def)
  then show ?thesis
    using s1 s2 by (simp add: spec_build_def)
qed

lemma run_build_complete:
  assumes "sys_bounded sys" "\<forall>op \<in> set ops. op_ok op" "reps cbb ([], [])"
    and "spec_build ops = Some out" "length out \<le> room cbb"
  shows "run_build sys (Some (), cbb) ops = Some out"
proof -
  note ro = refines_ops [OF assms(1,2)] and fl = refines_flush [OF assms(1), of 0]
  obtain s1 s2 where s: "spec_ops ops ([], []) = Some s1" "b_flush 0 s1 = Some s2" "out = flat s2"
    using assms(4) by (auto simp: spec_build_def bind_eq_Some_conv)
  have "length (flat s1) \<le> room cbb"
    using refinesD(1) [OF fl TrueI s(2)] s(3) assms(5) by simp
  then obtain c1 where c1: "run_ops sys ops cbb = (Some (), c1)"
    using refinesD(3) [OF ro TrueI assms(3) s(1)] by blast
  then have r1: "reps c1 s1" "room cbb \<le> room c1"
    using refinesD(2) [OF ro TrueI assms(3) c1] s(1) by auto
  then obtain c2 where c2: "CBB_flush sys 0 c1 = (Some (), c2)"
    using refinesD(3) [OF fl TrueI r1(1) s(2)] s(3) assms(5) by auto
  then have "reps c2 s2"
    using refinesD(2) [OF fl TrueI r1(1) c2] s(2) by auto
  then obtain b where b: "cbb_base c2 = Some b" "take (unat (bb_len b)) (bb_mem b) = out"
    using s(3) by (auto simp: reps_def holds_def)
  then show ?thesis
    using c1 c2 by (simp add: run_build_def out_bytes_def CBB_finish_def bb_mem_def)
qed

section \<open>Errors are sticky\<close>

lemma flush_error:
  assumes "cbb_base cbb = Some b" "bb_error b"
  shows "CBB_flush sys d cbb = (None, cbb)"
proof -
  have "flush_chain sys cs b = (False, cs, b)" for cs
    using assms(2) by (cases cs) simp_all
  then show ?thesis
    using assms(1) by (cases cbb) (auto simp: CBB_flush_def)
qed

lemma andthen_flush_error:
  assumes "cbb_base cbb = Some b" "bb_error b"
  shows "andthen (CBB_flush sys d) f cbb = (None, cbb)"
  by (simp add: flush_error [OF assms])

section \<open>Properties\<close>

text \<open>
  Claim C1: whatever sequence of calls a caller makes on the handles of a growing \<open>CBB\<close>, if it
  finishes, the output is the one of the abstract builder: the bytes added through each handle in
  order, every prefix being the big-endian length, or the minimal DER length, of exactly the
  contents added below it, for every placement and success of the reallocations.
\<close>

theorem CBB_build_sound:
  assumes "sys_bounded sys" "\<forall>op \<in> set ops. op_ok op" "unat cap < 2 ^ 62"
    and "run_build sys (CBB_init sys cap) ops = Some out"
  shows "spec_build ops = Some out"
proof -
  obtain cbb where "CBB_init sys cap = (Some (), cbb)"
    using assms(4) by (cases "CBB_init sys cap") (auto simp: run_build_def split: option.splits)
  then show ?thesis
    using run_build_sound [OF assms(1,2) CBB_init_reps [OF _ assms(3)]] assms(4) by simp
qed

text \<open>A system whose \<open>malloc\<close> succeeds below \<open>2^62\<close> bytes.\<close>

definition sys_small :: system_malloc where
  "sys_small n = (if unat n < 4611686018427387904 then Some (\<lambda>_. 0) else None)"

lemma sys_small_bounded: "sys_bounded sys_small"
  by (simp add: sys_bounded_def sys_small_def)

lemmas builder_simps = spec_build_def b_add_def b_prefix_def b_asn1_def b_flush.simps b_extend.simps flat.simps
  be_bytes_def bind_eq_Some_conv

lemma init_small:
  "\<exists>cbb. CBB_init sys_small 16 = (Some (), cbb) \<and> reps cbb ([], []) \<and> room cbb = 16"
proof -
  have "OPENSSL_malloc sys_small 16 \<noteq> None" "OPENSSL_malloc sys_small 32 \<noteq> None"
    by (simp_all add: OPENSSL_malloc_def sys_small_def OPENSSL_MALLOC_PREFIX_def)
  then obtain cbb where c: "CBB_init sys_small 16 = (Some (), cbb)" "room cbb = 16"
    by (auto simp: CBB_init_def cbb_init_def room_def Let_def)
  then show ?thesis
    using CBB_init_reps [of sys_small 16 "()" cbb] by auto
qed

lemma CBB_build_sound_witness:
  "run_build sys_small (CBB_init sys_small 16) [Op_u8_prefixed 0, Op_u8 1 7, Op_u8 0 9] = Some [1, 7, 9] \<and>
   spec_build [Op_u8_prefixed 0, Op_u8 1 7, Op_u8 0 9] = Some [1, 7, 9]"
proof -
  obtain cbb where c: "CBB_init sys_small 16 = (Some (), cbb)" "reps cbb ([], [])" "room cbb = 16"
    using init_small by blast
  have spec: "spec_build [Op_u8_prefixed 0, Op_u8 1 7, Op_u8 0 9] = Some [1, 7, 9]"
    by (simp add: builder_simps)
  have run: "run_build sys_small (CBB_init sys_small 16) [Op_u8_prefixed 0, Op_u8 1 7, Op_u8 0 9] = Some [1, 7, 9]"
    unfolding c(1) by (rule run_build_complete [OF sys_small_bounded _ c(2) spec]) (simp_all add: c(3))
  show ?thesis
    using run CBB_build_sound [OF sys_small_bounded _ _ run] by simp
qed

text \<open>
  Claim C29: a \<open>CBB\<close> on a fixed buffer never needs the allocator again: if the abstract output
  fits the buffer, the calls succeed and produce it, and in any case nothing else is produced.
\<close>

theorem CBB_fixed_exact:
  assumes "sys_bounded sys" "\<forall>op \<in> set ops. op_ok op" "sys 40 \<noteq> None" "length fixed < 2 ^ 62"
  shows "(case run_build sys (CBB_init_fixed sys fixed) ops of
      Some out \<Rightarrow> spec_build ops = Some out
    | None \<Rightarrow> (\<forall>out. spec_build ops = Some out \<longrightarrow> length fixed < length out))"
proof -
  obtain cbb where c: "CBB_init_fixed sys fixed = (Some (), cbb)" "reps cbb ([], [])" "room cbb = length fixed"
    using CBB_init_fixed_reps [of sys fixed] assms(3,4) by blast
  show ?thesis
  proof (cases "run_build sys (CBB_init_fixed sys fixed) ops")
    case None
    then show ?thesis
      using run_build_complete [OF assms(1,2) c(2)] c(1,3) by (auto simp: not_le [symmetric])
  next
    case (Some out)
    then show ?thesis
      using run_build_sound [OF assms(1,2) c(2)] c(1) by simp
  qed
qed

lemma CBB_fixed_exact_witness:
  "run_build sys_small (CBB_init_fixed sys_small [0, 0, 0]) [Op_u8_prefixed 0, Op_u8 1 7] = Some [1, 7]"
proof -
  have spec: "spec_build [Op_u8_prefixed 0, Op_u8 1 7] = Some [1, 7]"
    by (simp add: builder_simps)
  show ?thesis
    using CBB_fixed_exact [OF sys_small_bounded, of "[Op_u8_prefixed 0, Op_u8 1 7]" "[0, 0, 0]"] spec
    by (cases "run_build sys_small (CBB_init_fixed sys_small [0, 0, 0]) [Op_u8_prefixed 0, Op_u8 1 7]")
      (simp_all add: sys_small_def)
qed


definition failed_cbb :: CBB where
  "failed_cbb = \<lparr>cbb_base = Some \<lparr>bb_buf = None, bb_len = 0, bb_cap = 0, bb_can_resize = True, bb_error = True\<rparr>,
     cbb_children = []\<rparr>"


end
