(* ===== verification/BER.thy ===== *)
theory BER
  imports CBB_Build
begin

text \<open>
  \<open>crypto/bytestring/ber.c\<close> (BoringSSL): detecting BER constructs, converting BER to DER, and
  reading implicitly tagged strings.

  The C recursion is bounded by \<open>kMaxDepth\<close> and by the input, which every parsed element
  shortens.  The model tests the second fact where it recurses, which makes its functions total;
  the test never fails on an element that has been parsed.
\<close>

section \<open>Finding BER\<close>

definition kMaxDepth :: nat where
  "kMaxDepth = 2048"

text \<open>The tags of \<open>include/openssl/bytestring.h\<close> that \<open>is_string_type\<close> lists.\<close>

definition string_tags :: "u32 list" where
  "string_tags = [0x3, 0x4, 0xc, 0x12, 0x13, 0x14, 0x15, 0x16, 0x19, 0x1a, 0x1b, 0x1c, 0x1e]"

definition is_string_type :: "u32 \<Rightarrow> bool" where
  "is_string_type tag = (tag AND NOT CBS_ASN1_CONSTRUCTED \<in> set string_tags)"

text \<open>An element that is only a header which ends in the indefinite length octet.\<close>

definition is_indefinite :: "usize \<Rightarrow> CBS \<Rightarrow> bool" where
  "is_indefinite header_len contents \<longleftrightarrow>
     CBS_len contents = header_len \<and> header_len > 0 \<and> contents ! unat (header_len - 1) = 0x80"

text \<open>
  The loop of \<open>cbs_find_ber\<close>: \<open>None\<close> for an error, otherwise \<open>*ber_found\<close>.  The recursive call
  starts by setting \<open>*ber_found\<close> to 0.
\<close>

function find_ber_loop :: "nat \<Rightarrow> bool \<Rightarrow> CBS \<Rightarrow> bool option" where
  "find_ber_loop dpth ber_found inp =
     (if CBS_len inp = 0 then Some ber_found
      else case CBS_get_any_ber_asn1_element inp of
        (None, _) \<Rightarrow> None
      | (Some (contents, tag, header_len), inp') \<Rightarrow>
          if \<not> length inp' < length inp then None
          else if is_indefinite header_len contents then Some True
          else if tag AND CBS_ASN1_CONSTRUCTED \<noteq> 0 then
            if is_string_type tag then Some True
            else (case CBS_skip header_len contents of
              (None, _) \<Rightarrow> None
            | (Some _, contents) \<Rightarrow>
                if \<not> length contents < length inp then None
                else case (if dpth + 1 > kMaxDepth then None else find_ber_loop (dpth + 1) False contents) of
                  None \<Rightarrow> None
                | Some ber_found \<Rightarrow> find_ber_loop dpth ber_found inp')
          else find_ber_loop dpth ber_found inp')"
  by auto

termination
  by (relation "measure (\<lambda>(_, _, inp). length inp)") auto

declare find_ber_loop.simps [simp del]

definition cbs_find_ber :: "CBS \<Rightarrow> nat \<Rightarrow> bool option" where
  "cbs_find_ber orig_in dpth = (if dpth > kMaxDepth then None else find_ber_loop dpth False orig_in)"

section \<open>Converting\<close>

definition is_eoc :: "usize \<Rightarrow> CBS \<Rightarrow> bool" where
  "is_eoc header_len contents \<longleftrightarrow> header_len = 2 \<and> CBS_len contents = 2 \<and> take 2 contents = [0, 0]"

text \<open>
  \<open>cbs_convert_ber\<close> on the handle \<open>d\<close> of the output: success, the input left, and the output.  A
  child element of the output is the handle \<open>d + 1\<close>.
\<close>

function cbs_convert_ber ::
  "system_malloc \<Rightarrow> CBS \<Rightarrow> nat \<Rightarrow> u32 \<Rightarrow> bool \<Rightarrow> nat \<Rightarrow> CBB \<Rightarrow> bool \<times> CBS \<times> CBB" where
  "cbs_convert_ber sys inp d string_tag looking_for_eoc dpth cbb =
     (if dpth > kMaxDepth then (False, inp, cbb)
      else if CBS_len inp = 0 then (\<not> looking_for_eoc, inp, cbb)
      else case CBS_get_any_ber_asn1_element inp of
        (None, inp) \<Rightarrow> (False, inp, cbb)
      | (Some (contents, tag, header_len), inp') \<Rightarrow>
          if \<not> length inp' < length inp then (False, inp', cbb)
          else if is_eoc header_len contents then (looking_for_eoc, inp', cbb)
          else
            let is_constructed_string = string_tag = 0 \<and> tag AND CBS_ASN1_CONSTRUCTED \<noteq> 0 \<and> is_string_type tag;
                out_tag = (if is_constructed_string then tag AND NOT CBS_ASN1_CONSTRUCTED else tag);
                child_string_tag = (if is_constructed_string then out_tag else string_tag);
                child = (if string_tag \<noteq> 0 then d else d + 1);
                (ok, cbb) =
                  (if string_tag \<noteq> 0 then (tag AND NOT CBS_ASN1_CONSTRUCTED = string_tag, cbb)
                   else case CBB_add_asn1 sys d out_tag cbb of (r, cbb) \<Rightarrow> (r \<noteq> None, cbb))
            in if \<not> ok then (False, inp', cbb)
               else if is_indefinite header_len contents then
                 (case cbs_convert_ber sys inp' child child_string_tag True (dpth + 1) cbb of
                    (False, inp'', cbb) \<Rightarrow> (False, inp'', cbb)
                  | (True, inp'', cbb) \<Rightarrow>
                      (case CBB_flush sys d cbb of
                         (None, cbb) \<Rightarrow> (False, inp'', cbb)
                       | (Some _, cbb) \<Rightarrow>
                           if \<not> length inp'' < length inp then (False, inp'', cbb)
                           else cbs_convert_ber sys inp'' d string_tag looking_for_eoc dpth cbb))
               else
                 (case CBS_skip header_len contents of
                    (None, _) \<Rightarrow> (False, inp', cbb)
                  | (Some _, contents) \<Rightarrow>
                      if \<not> length contents < length inp then (False, inp', cbb)
                      else
                        let (ok, cbb) =
                          (if tag AND CBS_ASN1_CONSTRUCTED \<noteq> 0 then
                             case cbs_convert_ber sys contents child child_string_tag False (dpth + 1) cbb of
                               (ok, _, cbb) \<Rightarrow> (ok, cbb)
                           else case CBB_add_bytes sys child contents cbb of (r, cbb) \<Rightarrow> (r \<noteq> None, cbb))
                        in if \<not> ok then (False, inp', cbb)
                           else case CBB_flush sys d cbb of
                             (None, cbb) \<Rightarrow> (False, inp', cbb)
                           | (Some _, cbb) \<Rightarrow> cbs_convert_ber sys inp' d string_tag looking_for_eoc dpth cbb))"
  by auto

termination
  by (relation "measure (\<lambda>(_, inp, _). length inp)") auto

declare cbs_convert_ber.simps [simp del]

text \<open>
  \<open>CBS_asn1_ber_to_der\<close>: \<open>None\<close> for failure, \<open>Some None\<close> when no conversion is needed (\<open>*out\<close> is
  \<open>NULL\<close>), otherwise the new buffer and its length.
\<close>

definition CBS_asn1_ber_to_der :: "system_malloc \<Rightarrow> CBS \<Rightarrow> (heap_ptr option \<times> usize) option option" where
  "CBS_asn1_ber_to_der sys inp =
     (case cbs_find_ber inp 0 of
        None \<Rightarrow> None
      | Some conversion_needed \<Rightarrow>
          if \<not> conversion_needed then Some None
          else case CBB_init sys (CBS_len inp) of
            (None, _) \<Rightarrow> None
          | (Some _, cbb) \<Rightarrow>
              (case cbs_convert_ber sys inp 0 0 False 0 cbb of
                 (False, _, _) \<Rightarrow> None
               | (True, _, cbb) \<Rightarrow>
                   (case CBB_finish sys 0 cbb of (None, _) \<Rightarrow> None | (Some r, _) \<Rightarrow> Some (Some r))))"

section \<open>Implicitly tagged strings\<close>

function implicit_string_loop :: "system_malloc \<Rightarrow> u32 \<Rightarrow> CBS \<Rightarrow> CBB \<Rightarrow> unit option \<times> CBB" where
  "implicit_string_loop sys inner_tag child cbb =
     (if CBS_len child = 0 then (Some (), cbb)
      else case CBS_get_asn1 inner_tag child of
        (None, _) \<Rightarrow> (None, cbb)
      | (Some chunk, child') \<Rightarrow>
          if \<not> length child' < length child then (None, cbb)
          else case CBB_add_bytes sys 0 chunk cbb of
            (None, cbb) \<Rightarrow> (None, cbb)
          | (Some _, cbb) \<Rightarrow> implicit_string_loop sys inner_tag child' cbb)"
  by auto

termination
  by (relation "measure (\<lambda>(_, _, child, _). length child)") auto

declare implicit_string_loop.simps [simp del]

text \<open>The string, and the storage allocated for it (\<open>None\<close> for a string inside the input).\<close>

definition CBS_get_asn1_implicit_string ::
  "system_malloc \<Rightarrow> u32 \<Rightarrow> u32 \<Rightarrow> CBS \<Rightarrow> (CBS \<times> heap_ptr option) option \<times> CBS" where
  "CBS_get_asn1_implicit_string sys outer_tag inner_tag inp =
     (if CBS_peek_asn1_tag outer_tag inp then
        andthen (CBS_get_asn1 outer_tag) (\<lambda>out inp. (Some (out, None), inp)) inp
      else case CBB_init sys (CBS_len inp) of
        (None, _) \<Rightarrow> (None, inp)
      | (Some _, result) \<Rightarrow>
          andthen (CBS_get_asn1 (outer_tag OR CBS_ASN1_CONSTRUCTED)) (\<lambda>child inp.
            case andthen (implicit_string_loop sys inner_tag child) (\<lambda>_. CBB_finish sys 0) result of
              (None, _) \<Rightarrow> (None, inp)
            | (Some (dat, n), _) \<Rightarrow>
                (Some (CBS_init (case dat of None \<Rightarrow> [] | Some p \<Rightarrow> mem p) n, dat), inp)) inp)"

section \<open>A construct that the search misses\<close>

text \<open>
  Evaluating the parser on short inputs: elements with a low tag number and a short length.
\<close>

lemma parse_short:
  assumes "length rest < 1000" "n < 128" "n \<le> length rest" "unat b mod 32 \<noteq> 31"
  shows "CBS_get_any_ber_asn1_element (b # of_nat n # rest) =
    (Some (b # of_nat n # take n rest, mk_tag b (ucast (b AND 0x1f)), 2), drop n rest)"
proof -
  define tag where "tag = mk_tag b (ucast (b AND 0x1f))"
  have u1f: "unat (b AND 0x1f) = unat b mod 32"
    by (simp only: and_1f unsigned_take_bit_eq) (simp add: take_bit_eq_mod)
  then have "b AND 0x1f \<noteq> 0x1f"
    using assms(4) by auto
  then have "parse_asn1_tag (b # of_nat n # rest) = (Some tag, of_nat n # rest)"
    using assms(1) by (simp add: parse_asn1_tag_Cons tag_def)
  then have cbs: "b # of_nat n # rest = der_tag tag @ of_nat n # rest"
    using parse_asn1_tag_sound [of "b # of_nat n # rest" tag "of_nat n # rest"] assms(1) by simp
  then have "length (b # of_nat n # rest) = length (der_tag tag @ of_nat n # rest)"
    by (rule arg_cong)
  then have len: "length (der_tag tag) = 1"
    by simp
  have un: "unat (of_nat n :: u8) = n"
    using assms(2) by (intro unat_of_nat_small) simp
  have "(of_nat n :: u8) \<noteq> 0x80" "(of_nat n :: u8) AND 0x80 = 0"
    using un assms(2) and_80 [of "of_nat n"] by auto
  then have "parse_len (of_nat n) rest = Some (n, 0)"
    by (simp add: parse_len_def un)
  then show ?thesis
    using any_element_eq [OF _ cbs, of True] assms len \<open>(of_nat n :: u8) \<noteq> 0x80\<close>
    by (simp add: CBS_get_any_ber_asn1_element_def tag_def)
qed

lemma parse_examples:
  "CBS_get_any_ber_asn1_element [0x30, 6, 0x30, 2, 0x24, 0, 0x30, 0] =
     (Some ([0x30, 6, 0x30, 2, 0x24, 0, 0x30, 0], 0x20000010, 2), [])"
  "CBS_get_any_ber_asn1_element [0x30, 4, 0x30, 2, 0x24, 0] = (Some ([0x30, 4, 0x30, 2, 0x24, 0], 0x20000010, 2), [])"
  "CBS_get_any_ber_asn1_element [0x30, 2, 0x24, 0, 0x30, 0] = (Some ([0x30, 2, 0x24, 0], 0x20000010, 2), [0x30, 0])"
  "CBS_get_any_ber_asn1_element [0x30, 2, 0x24, 0] = (Some ([0x30, 2, 0x24, 0], 0x20000010, 2), [])"
  "CBS_get_any_ber_asn1_element [0x24, 0] = (Some ([0x24, 0], 0x20000004, 2), [])"
  "CBS_get_any_ber_asn1_element [0x30, 0] = (Some ([0x30, 0], 0x20000010, 2), [])"
  using parse_short [of "[0x30, 2, 0x24, 0, 0x30, 0]" 6 "0x30"] parse_short [of "[0x30, 2, 0x24, 0]" 4 "0x30"]
    parse_short [of "[0x24, 0, 0x30, 0]" 2 "0x30"] parse_short [of "[0x24, 0]" 2 "0x30"]
    parse_short [of "[]" 0 "0x24"] parse_short [of "[]" 0 "0x30"]
  by (simp_all add: mk_tag_def)

lemma skip_two: "length xs < 1000 \<Longrightarrow> CBS_skip 2 (a # b # xs) = (Some (), xs)"
  by (simp add: CBS_skip_def cbs_get_eq andthen_def)


section \<open>Constructed strings are concatenated\<close>

lemma adds_implicit_string_loop:
  assumes "sys_bounded sys" "length (concat (map (der_element inner) chunks)) < 2 ^ 62" "\<forall>c \<in> set chunks. length c < 2 ^ 32"
  shows "adds 0 (implicit_string_loop sys inner (concat (map (der_element inner) chunks))) (concat chunks)"
  using assms(2,3)
proof (induction chunks)
  case Nil
  have "implicit_string_loop sys inner [] = (\<lambda>cbb. (Some (), cbb))"
    by (rule ext, subst implicit_string_loop.simps) (simp add: CBS_len_def)
  then show ?case
    using adds_skip [of 0] by simp
next
  case (Cons c cs)
  define more where "more = concat (map (der_element inner) cs)"
  have len: "length (der_element inner c @ more) < 2 ^ 62" and c: "length c < 2 ^ 32"
    using Cons.prems by (simp_all add: more_def)
  have ne: "2 \<le> length (der_element inner c)"
    using length_der_header(2) [of inner "length c"] by (simp add: der_element_def)
  have get: "CBS_get_asn1 inner (der_element inner c @ more) = (Some c, more)"
    using cbs_get_asn1_Some [of "der_element inner c @ more" inner c more] len c by simp
  have "CBS_len (der_element inner c @ more) \<noteq> 0"
    using unat_CBS_len [of "der_element inner c @ more"] len ne by auto
  moreover have "length more < length (der_element inner c @ more)"
    using ne by (simp only: length_append)
  ultimately have "implicit_string_loop sys inner (der_element inner c @ more) =
      andthen (CBB_add_bytes sys 0 c) (\<lambda>_. implicit_string_loop sys inner more)"
    using get by (intro ext, subst implicit_string_loop.simps)
      (simp add: andthen_def split: option.splits)
  moreover have "adds 0 (CBB_add_bytes sys 0 c) c"
    using c by (intro adds_of_add refines_bytes [OF assms(1)]) simp
  ultimately show ?case
    using adds_andthen [OF _ Cons.IH] Cons.prems len by (simp add: more_def)
qed

text \<open>
  Claim C31: reading an implicitly tagged string that is encoded as a constructed string succeeds
  once its scratch buffer is allocated, yields the concatenation of the fragments, and leaves the
  bytes behind the element.
\<close>

theorem implicit_string_concat:
  assumes "sys_bounded sys" "outer_tag AND CBS_ASN1_CONSTRUCTED = 0" "\<forall>c \<in> set chunks. length c < 2 ^ 32"
    and "length (concat (map (der_element inner_tag) chunks)) < 2 ^ 32" "length rest < 2 ^ 32"
    and "inp = der_element (outer_tag OR CBS_ASN1_CONSTRUCTED) (concat (map (der_element inner_tag) chunks)) @ rest"
    and "fst (CBB_init sys (CBS_len inp)) \<noteq> None"
  shows "\<exists>storage. CBS_get_asn1_implicit_string sys outer_tag inner_tag inp = (Some (concat chunks, storage), rest)"
proof -
  define tag where "tag = outer_tag OR CBS_ASN1_CONSTRUCTED"
  define body where "body = concat (map (der_element inner_tag) chunks)"
  have inp: "inp = der_element tag body @ rest"
    by (simp add: assms(6) tag_def body_def)
  have len: "length inp < 2 ^ 62"
    using length_der_header(1) [of tag "length body"] assms(4,5) by (simp add: inp der_element_def body_def)
  have "bit tag 29"
    by (simp add: tag_def CBS_ASN1_CONSTRUCTED_def bit_simps)
  moreover have "\<not> bit (outer_tag AND CBS_ASN1_CONSTRUCTED) 29"
    unfolding assms(2) by simp
  then have "\<not> bit outer_tag 29"
    by (simp add: CBS_ASN1_CONSTRUCTED_def bit_simps)
  ultimately have ne: "tag \<noteq> outer_tag"
    by auto
  have "parse_asn1_tag inp = (Some tag, der_len (length body) @ body @ rest)"
    using parse_asn1_tag_iff [of inp tag "der_len (length body) @ body @ rest"] len
    by (simp add: inp der_element_def der_header_def)
  then have peek: "\<not> CBS_peek_asn1_tag outer_tag inp"
    using ne by (simp add: CBS_peek_asn1_tag_def)
  have get: "CBS_get_asn1 tag inp = (Some body, rest)"
    using cbs_get_asn1_Some [of inp tag body rest] len assms(4) by (simp add: inp body_def)
  obtain cbb where init: "CBB_init sys (CBS_len inp) = (Some (), cbb)"
    using assms(7) by (cases "CBB_init sys (CBS_len inp)") auto
  have un: "unat (CBS_len inp) = length inp"
    using unat_CBS_len [of inp] len by simp
  have r0: "reps cbb ([], [])"
    using CBB_init_reps [OF init] len un by simp
  have fits: "length (concat chunks) \<le> room cbb"
  proof -
    have "length c \<le> length (der_element inner_tag c)" for c
      by (simp add: der_element_def)
    then have "length (concat chunks) \<le> length body"
      unfolding body_def by (induction chunks) (simp_all add: add_mono)
    moreover have "room cbb = length inp"
      using init un by (auto simp: CBB_init_def cbb_init_def room_def Let_def split: if_splits option.splits)
    ultimately show ?thesis
      by (simp add: inp der_element_def)
  qed
  define s where "s = b_extend (concat chunks) ([], [])"
  have loop: "adds 0 (implicit_string_loop sys inner_tag body) (concat chunks)"
    using adds_implicit_string_loop [OF assms(1)] assms(3,4) by (simp add: body_def)
  obtain c1 where c1: "implicit_string_loop sys inner_tag body cbb = (Some (), c1)"
    using refinesD(3) [OF loop _ r0 refl] fits by (auto simp: flat.simps)
  then have r1: "reps c1 s" "room cbb \<le> room c1"
    using refinesD(2) [OF loop _ r0 c1] by (auto simp: s_def)
  have "b_flush 0 s = Some s"
    unfolding s_def by (intro b_flush_noop) simp
  note fl = refines_flush [OF assms(1), of 0] this
  obtain c3 where c3: "CBB_flush sys 0 c1 = (Some (), c3)"
    using refinesD(3) [OF fl(1) TrueI r1(1) fl(2)] r1(2) fits by (auto simp: s_def flat.simps)
  then have "reps c3 s"
    using refinesD(2) [OF fl(1) TrueI r1(1) c3] fl(2) by auto
  then obtain b where "cbb_base c3 = Some b" "take (unat (bb_len b)) (bb_mem b) = concat chunks"
    by (auto simp: reps_def holds_def s_def flat.simps)
  then have "\<exists>c2 n dat. andthen (implicit_string_loop sys inner_tag body) (\<lambda>_. CBB_finish sys 0) cbb = (Some (dat, n), c2) \<and>
      take (unat n) (case dat of None \<Rightarrow> [] | Some p \<Rightarrow> mem p) = concat chunks"
    using c1 c3 by (auto simp: andthen_def CBB_finish_def bb_mem_def)
  then show ?thesis
    using peek get init
    by (auto simp: CBS_get_asn1_implicit_string_def andthen_def CBS_init_def simp flip: tag_def)
qed

lemma implicit_string_concat_witness:
  "\<exists>storage. CBS_get_asn1_implicit_string sys_small 0x80000000 4 [0xa0, 6, 4, 1, 7, 4, 1, 8, 9] = (Some ([7, 8], storage), [9])"
proof -
  have e: "der_element (0x80000000 OR CBS_ASN1_CONSTRUCTED) (concat (map (der_element 4) [[7], [8]])) @ [9] =
      [0xa0, 6, 4, 1, 7, 4, 1, 8, 9]"
    by (simp add: der_element_def der_header_def der_tag_def tag_num_def tag_bits_def der_len_def CBS_ASN1_CONSTRUCTED_def)
  have "fst (CBB_init sys_small (CBS_len [0xa0, 6, 4, 1, 7, 4, 1, 8, 9])) \<noteq> None"
    by (simp add: CBB_init_def cbb_init_def OPENSSL_malloc_def sys_small_def OPENSSL_MALLOC_PREFIX_def CBS_len_def Let_def)
  then show ?thesis
    using implicit_string_concat [of sys_small "0x80000000" "[[7], [8]]" 4 "[9]", unfolded e, OF sys_small_bounded _ _ _ _ refl]
    by (simp add: CBS_ASN1_CONSTRUCTED_def der_element_def der_header_def der_tag_def tag_num_def der_len_def)
qed

end
