(* ===== verification/Sorting.thy ===== *)
theory Sorting
  imports "HOL-Library.Multiset" Prelude
begin

text \<open>
  The comparison functions of C's \<open>qsort\<close> and \<open>bsearch\<close>, and what the C standard promises of the
  two.  Both are parameters of the models that call them: the standard does not fix which of several
  equal elements comes first.  The locales state the promises, \<open>sort_ref\<close> and \<open>search_ref\<close> are
  one library that keeps them.
\<close>

section \<open>Comparison functions\<close>

locale comparator =
  fixes cmp :: "'a \<Rightarrow> 'a \<Rightarrow> int"
  assumes cmp_swap: "sgn (cmp b a) = - sgn (cmp a b)"
    and cmp_trans: "cmp a b \<le> 0 \<Longrightarrow> cmp b c \<le> 0 \<Longrightarrow> cmp a c \<le> 0"
begin

lemma cmp_swap_iff:
  shows cmp_gt: "cmp a b > 0 \<longleftrightarrow> cmp b a < 0" and cmp_eq: "cmp a b = 0 \<longleftrightarrow> cmp b a = 0"
    and cmp_ge: "cmp a b \<ge> 0 \<longleftrightarrow> cmp b a \<le> 0"
  using cmp_swap [of b a] by (auto simp: sgn_if split: if_splits)

lemma cmp_refl [simp]: "cmp a a = 0"
  using cmp_swap [of a a] by (auto simp: sgn_if split: if_splits)

lemma cmp_less_trans: "cmp a b < 0 \<Longrightarrow> cmp b c \<le> 0 \<Longrightarrow> cmp a c < 0"
  using cmp_trans [of b c a] cmp_swap_iff [of a c] cmp_swap_iff [of b a] by fastforce

lemma cmp_trans_less: "cmp a b \<le> 0 \<Longrightarrow> cmp b c < 0 \<Longrightarrow> cmp a c < 0"
  using cmp_trans [of c a b] cmp_swap_iff [of a c] cmp_swap_iff [of c b] by fastforce

lemma cmp_equal_cong:
  assumes "cmp a b = 0"
  shows "sgn (cmp a c) = sgn (cmp b c)"
proof -
  have "cmp a c < 0 \<longleftrightarrow> cmp b c < 0" "cmp a c \<le> 0 \<longleftrightarrow> cmp b c \<le> 0"
    using cmp_trans [of a b c] cmp_trans [of b a c] cmp_trans_less [of a b c] cmp_trans_less [of b a c]
      assms cmp_eq [of a b] by auto
  then show ?thesis
    by (auto simp: sgn_if)
qed

end

definition ordered_by :: "('a \<Rightarrow> 'a \<Rightarrow> int) \<Rightarrow> 'a list \<Rightarrow> bool" where
  "ordered_by cmp xs \<longleftrightarrow> sorted_wrt (\<lambda>a b. cmp a b \<le> 0) xs"

section \<open>The library's promises\<close>

locale c_sort =
  fixes qsort :: "('a \<Rightarrow> 'a \<Rightarrow> int) \<Rightarrow> 'a list \<Rightarrow> 'a list"
  assumes qsort_mset: "comparator cmp \<Longrightarrow> mset (qsort cmp xs) = mset xs"
    and qsort_ordered: "comparator cmp \<Longrightarrow> ordered_by cmp (qsort cmp xs)"
begin

lemma qsort_set: "comparator cmp \<Longrightarrow> set (qsort cmp xs) = set xs"
  by (rule mset_eq_setD [OF qsort_mset])

lemma qsort_length: "comparator cmp \<Longrightarrow> length (qsort cmp xs) = length xs"
  by (rule mset_eq_length [OF qsort_mset])

end

locale c_search = c_sort +
  fixes bsearch :: "('a \<Rightarrow> 'a \<Rightarrow> int) \<Rightarrow> 'a \<Rightarrow> 'a list \<Rightarrow> nat option"
  assumes bsearch_Some: "comparator cmp \<Longrightarrow> ordered_by cmp xs \<Longrightarrow> bsearch cmp key xs = Some i \<Longrightarrow>
      i < length xs \<and> cmp key (xs ! i) = 0"
    and bsearch_None: "comparator cmp \<Longrightarrow> ordered_by cmp xs \<Longrightarrow> bsearch cmp key xs = None \<Longrightarrow>
      \<forall>x \<in> set xs. cmp key x \<noteq> 0"

section \<open>A library that keeps them\<close>

primrec insert_ref :: "('a \<Rightarrow> 'a \<Rightarrow> int) \<Rightarrow> 'a \<Rightarrow> 'a list \<Rightarrow> 'a list" where
  "insert_ref cmp x [] = [x]"
| "insert_ref cmp x (y # ys) = (if cmp x y \<le> 0 then x # y # ys else y # insert_ref cmp x ys)"

primrec sort_ref :: "('a \<Rightarrow> 'a \<Rightarrow> int) \<Rightarrow> 'a list \<Rightarrow> 'a list" where
  "sort_ref cmp [] = []"
| "sort_ref cmp (x # xs) = insert_ref cmp x (sort_ref cmp xs)"

text \<open>Binary search in the half-open range from \<open>l\<close> to \<open>u\<close>.\<close>

function search_range :: "('a \<Rightarrow> 'a \<Rightarrow> int) \<Rightarrow> 'a \<Rightarrow> 'a list \<Rightarrow> nat \<Rightarrow> nat \<Rightarrow> nat option" where
  "search_range cmp key xs l u =
     (if l < u then
        let i = (l + u) div 2; c = cmp key (xs ! i)
        in if c < 0 then search_range cmp key xs l i
           else if c > 0 then search_range cmp key xs (i + 1) u
           else Some i
      else None)"
  by auto

termination
  by (relation "measure (\<lambda>(_, _, _, l, u). u - l)") auto

declare search_range.simps [simp del]

definition search_ref :: "('a \<Rightarrow> 'a \<Rightarrow> int) \<Rightarrow> 'a \<Rightarrow> 'a list \<Rightarrow> nat option" where
  "search_ref cmp key xs = search_range cmp key xs 0 (length xs)"

lemma mset_insert_ref [simp]: "mset (insert_ref cmp x xs) = add_mset x (mset xs)"
  by (induction xs) auto

lemma mset_sort_ref [simp]: "mset (sort_ref cmp xs) = mset xs"
  by (induction xs) auto

lemma set_insert_ref [simp]: "set (insert_ref cmp x xs) = insert x (set xs)"
  by (induction xs) auto

context comparator
begin

lemma ordered_insert: "ordered_by cmp xs \<Longrightarrow> ordered_by cmp (insert_ref cmp x xs)"
proof (induction xs)
  case (Cons y ys)
  then show ?case
    using cmp_trans [of x y] cmp_ge [of x y] by (auto simp: ordered_by_def)
qed (simp add: ordered_by_def)

lemma ordered_sort: "ordered_by cmp (sort_ref cmp xs)"
  by (induction xs) (simp_all add: ordered_by_def [of cmp "[]"] ordered_insert)

lemma ordered_nth: "ordered_by cmp xs \<Longrightarrow> i \<le> j \<Longrightarrow> j < length xs \<Longrightarrow> cmp (xs ! i) (xs ! j) \<le> 0"
  by (cases "i = j") (simp_all add: ordered_by_def sorted_wrt_iff_nth_less)

lemma search_range_sound:
  "search_range cmp key xs l u = Some i \<Longrightarrow> l \<le> i \<and> i < u \<and> cmp key (xs ! i) = 0"
proof (induction cmp key xs l u rule: search_range.induct)
  case (1 cmp key xs l u)
  from 1(3) show ?case
    using 1(1,2) by (subst (asm) search_range.simps) (fastforce simp: Let_def split: if_splits)
qed

lemma search_range_complete:
  "ordered_by cmp xs \<Longrightarrow> u \<le> length xs \<Longrightarrow> search_range cmp key xs l u = None \<Longrightarrow> l \<le> j \<Longrightarrow> j < u \<Longrightarrow>
    cmp key (xs ! j) \<noteq> 0"
proof (induction "u - l" arbitrary: l u rule: less_induct)
  case less
  define i where "i = (l + u) div 2"
  have i: "l \<le> i" "i < u"
    using less.prems(4,5) by (simp_all add: i_def)
  consider (lt) "cmp key (xs ! i) < 0" "search_range cmp key xs l i = None"
    | (gt) "cmp key (xs ! i) > 0" "search_range cmp key xs (i + 1) u = None"
    using less.prems(3) i less.prems(4,5)
    by (subst (asm) search_range.simps) (auto simp: Let_def i_def split: if_splits)
  then show ?case
  proof cases
    case lt
    have "cmp key (xs ! j) < 0" if "i \<le> j"
      using cmp_less_trans [OF lt(1)] ordered_nth [OF less.prems(1) that] less.prems(2,5) by simp
    then show ?thesis
      using less.hyps [of i l] lt(2) less.prems i by (cases "i \<le> j") auto
  next
    case gt
    have "cmp (xs ! j) key < 0" if "j \<le> i"
      using cmp_trans_less [OF ordered_nth [OF less.prems(1) that]] gt(1) cmp_gt less.prems(2) i by simp
    then show ?thesis
      using less.hyps [of u "i + 1"] gt(2) less.prems i cmp_eq [of key "xs ! j"] by (cases "j \<le> i") auto
  qed
qed

end

lemma search_ref_sound:
  "comparator cmp \<Longrightarrow> search_ref cmp key xs = Some i \<Longrightarrow> i < length xs \<and> cmp key (xs ! i) = 0"
  using comparator.search_range_sound [of cmp key xs 0 "length xs" i] by (auto simp: search_ref_def)

lemma search_ref_complete:
  "comparator cmp \<Longrightarrow> ordered_by cmp xs \<Longrightarrow> search_ref cmp key xs = None \<Longrightarrow> \<forall>x \<in> set xs. cmp key x \<noteq> 0"
  using comparator.search_range_complete [of cmp xs "length xs" key 0]
  by (auto simp: search_ref_def in_set_conv_nth)

interpretation sort_ref: c_search sort_ref search_ref
  by unfold_locales (simp_all add: comparator.ordered_sort search_ref_sound search_ref_complete)

text \<open>The orders of words and of integers, as a comparison by subtraction or by tests.\<close>

definition three_way :: "'a :: linorder \<Rightarrow> 'a \<Rightarrow> int" where
  "three_way a b = (if a < b then - 1 else if b < a then 1 else 0)"

interpretation three_way: comparator three_way
  by unfold_locales (auto simp: three_way_def split: if_splits)

end
