(* ===== verification/Stack.thy ===== *)
theory Stack
  imports "HOL-Library.Option_ord" Sorting Mem
begin

text \<open>
  \<open>crypto/stack/stack.c\<close> (BoringSSL): the growable array of pointers behind every \<open>STACK_OF\<close>.

  A pointer is \<open>'p option\<close>, with \<open>None\<close> for \<open>NULL\<close>, and so is the pointer to the stack itself.  The
  comparison function is a code address; \<open>call\<close> gives the function at an address.  \<open>qsort\<close>
  and \<open>bsearch\<close> are the C library's, parameters with the laws of \<open>Sorting\<close>.  \<open>junk\<close> is what
  the slots of a reallocated array hold before they are written.
\<close>

section \<open>The structure and its operations\<close>

record 'p STACK =
  st_num :: usize
  st_data :: "'p option list"
  st_sorted :: bool
  st_num_alloc :: usize
  st_comp :: "nat option"

type_synonym 'p sk = "'p STACK option"

definition kMinSize :: usize where
  "kMinSize = 4"

definition sk_new :: "system_malloc \<Rightarrow> nat option \<Rightarrow> 'p sk" where
  "sk_new sys cmp =
     (if OPENSSL_malloc sys 40 = None then None
      else if OPENSSL_malloc sys (8 * kMinSize) = None then None
      else Some \<lparr>st_num = 0, st_data = replicate (unat kMinSize) None, st_sorted = False,
                 st_num_alloc = kMinSize, st_comp = cmp\<rparr>)"

definition sk_new_null :: "system_malloc \<Rightarrow> 'p sk" where
  "sk_new_null sys = sk_new sys None"

fun sk_num :: "'p sk \<Rightarrow> usize" where
  "sk_num None = 0"
| "sk_num (Some sk) = st_num sk"

fun sk_zero :: "'p sk \<Rightarrow> 'p sk" where
  "sk_zero None = None"
| "sk_zero (Some sk) =
     Some (if st_num sk = 0 then sk
           else sk\<lparr>st_data := mem_write (st_data sk) 0 (replicate (unat (st_num sk)) None),
                   st_num := 0, st_sorted := False\<rparr>)"

fun sk_value :: "'p sk \<Rightarrow> usize \<Rightarrow> 'p option" where
  "sk_value None i = None"
| "sk_value (Some sk) i = (if i \<ge> st_num sk then None else st_data sk ! unat i)"

fun sk_set :: "'p sk \<Rightarrow> usize \<Rightarrow> 'p option \<Rightarrow> 'p option \<times> 'p sk" where
  "sk_set None i v = (None, None)"
| "sk_set (Some sk) i v =
     (if i \<ge> st_num sk then (None, Some sk)
      else (v, Some (sk\<lparr>st_data := (st_data sk)[unat i := v]\<rparr>)))"

text \<open>\<open>sk_pop_free\<close>: the state after \<open>func\<close> has been called on every element that is not \<open>NULL\<close>.\<close>

fun call_each :: "('p \<Rightarrow> 's \<Rightarrow> 's) \<Rightarrow> 'p option list \<Rightarrow> 's \<Rightarrow> 's" where
  "call_each func [] s = s"
| "call_each func (None # xs) s = call_each func xs s"
| "call_each func (Some p # xs) s = call_each func xs (func p s)"

fun sk_pop_free :: "'p sk \<Rightarrow> ('p \<Rightarrow> 's \<Rightarrow> 's) \<Rightarrow> 's \<Rightarrow> 's" where
  "sk_pop_free None func s = s"
| "sk_pop_free (Some sk) func s = call_each func (take (unat (st_num sk)) (st_data sk)) s"

text \<open>
  The size computation of \<open>sk_insert\<close>: double, or else add one; \<open>None\<close> when both overflow.
\<close>

definition grow_alloc :: "usize \<Rightarrow> usize option" where
  "grow_alloc num_alloc =
     (let new_alloc = push_bit 1 num_alloc;
          alloc_size = new_alloc * 8;
          new_alloc = (if new_alloc < num_alloc \<or> alloc_size div 8 \<noteq> new_alloc then num_alloc + 1 else new_alloc);
          alloc_size = new_alloc * 8
      in if new_alloc < num_alloc \<or> alloc_size div 8 \<noteq> new_alloc then None else Some new_alloc)"

definition realloc_ptrs :: "'p option \<Rightarrow> 'p option list \<Rightarrow> usize \<Rightarrow> 'p option list" where
  "realloc_ptrs junk xs n = take (unat n) xs @ replicate (unat n - length xs) junk"

fun sk_insert :: "system_malloc \<Rightarrow> 'p option \<Rightarrow> 'p sk \<Rightarrow> 'p option \<Rightarrow> usize \<Rightarrow> usize \<times> 'p sk" where
  "sk_insert sys junk None p pos = (0, None)"
| "sk_insert sys junk (Some sk) p pos =
     (let grown =
        (if st_num_alloc sk \<le> st_num sk + 1 then
           (case grow_alloc (st_num_alloc sk) of
              None \<Rightarrow> None
            | Some new_alloc \<Rightarrow>
                if OPENSSL_malloc sys (new_alloc * 8) = None then None
                else Some (sk\<lparr>st_data := realloc_ptrs junk (st_data sk) new_alloc, st_num_alloc := new_alloc\<rparr>))
         else Some sk)
      in case grown of
           None \<Rightarrow> (0, Some sk)
         | Some sk \<Rightarrow>
             let n = unat (st_num sk); w = unat pos;
                 dat = (if pos \<ge> st_num sk then (st_data sk)[n := p]
                        else (mem_write (st_data sk) (w + 1) (take (n - w) (drop w (st_data sk))))[w := p]);
                 sk = sk\<lparr>st_data := dat, st_num := st_num sk + 1, st_sorted := False\<rparr>
             in (st_num sk, Some sk))"

fun sk_delete :: "'p sk \<Rightarrow> usize \<Rightarrow> 'p option \<times> 'p sk" where
  "sk_delete None pos = (None, None)"
| "sk_delete (Some sk) pos =
     (if pos \<ge> st_num sk then (None, Some sk)
      else
        let w = unat pos; n = unat (st_num sk); ret = st_data sk ! w;
            dat = (if pos \<noteq> st_num sk - 1 then mem_write (st_data sk) w (take (n - w - 1) (drop (w + 1) (st_data sk)))
                   else st_data sk)
        in (ret, Some (sk\<lparr>st_data := dat, st_num := st_num sk - 1\<rparr>)))"

text \<open>The first index that holds the pointer \<open>p\<close>.\<close>

fun find_ptr :: "'p option list \<Rightarrow> 'p option \<Rightarrow> nat option" where
  "find_ptr [] p = None"
| "find_ptr (x # xs) p = (if x = p then Some 0 else map_option Suc (find_ptr xs p))"

fun sk_delete_ptr :: "'p sk \<Rightarrow> 'p option \<Rightarrow> 'p option \<times> 'p sk" where
  "sk_delete_ptr None p = (None, None)"
| "sk_delete_ptr (Some sk) p =
     (case find_ptr (take (unat (st_num sk)) (st_data sk)) p of
        None \<Rightarrow> (None, Some sk)
      | Some i \<Rightarrow> sk_delete (Some sk) (of_nat i))"

type_synonym 'a qsort_fun = "('a \<Rightarrow> 'a \<Rightarrow> int) \<Rightarrow> 'a list \<Rightarrow> 'a list"
type_synonym 'a bsearch_fun = "('a \<Rightarrow> 'a \<Rightarrow> int) \<Rightarrow> 'a \<Rightarrow> 'a list \<Rightarrow> nat option"
type_synonym 'p calls = "nat \<Rightarrow> 'p option \<Rightarrow> 'p option \<Rightarrow> int"

fun sk_sort :: "'p option qsort_fun \<Rightarrow> 'p calls \<Rightarrow> 'p sk \<Rightarrow> 'p sk" where
  "sk_sort qsort call None = None"
| "sk_sort qsort call (Some sk) =
     Some (case st_comp sk of
             None \<Rightarrow> sk
           | Some cmp \<Rightarrow>
               if st_sorted sk then sk
               else sk\<lparr>st_data := mem_write (st_data sk) 0 (qsort (call cmp) (take (unat (st_num sk)) (st_data sk))),
                       st_sorted := True\<rparr>)"

fun sk_is_sorted :: "'p sk \<Rightarrow> bool" where
  "sk_is_sorted None = True"
| "sk_is_sorted (Some sk) = st_sorted sk"

text \<open>The loop of \<open>sk_find\<close> back to the first of the equal elements.\<close>

fun first_match :: "('a \<Rightarrow> 'a \<Rightarrow> int) \<Rightarrow> 'a \<Rightarrow> 'a list \<Rightarrow> nat \<Rightarrow> nat" where
  "first_match cmp p xs 0 = 0"
| "first_match cmp p xs (Suc i) = (if cmp p (xs ! i) = 0 then first_match cmp p xs i else Suc i)"

fun sk_find :: "'p option qsort_fun \<Rightarrow> 'p option bsearch_fun \<Rightarrow> 'p calls \<Rightarrow> 'p sk \<Rightarrow> 'p option \<Rightarrow> nat option \<times> 'p sk" where
  "sk_find qsort bsearch call None p = (None, None)"
| "sk_find qsort bsearch call (Some sk) p =
     (case st_comp sk of
        None \<Rightarrow> (find_ptr (take (unat (st_num sk)) (st_data sk)) p, Some sk)
      | Some cmp \<Rightarrow>
          if p = None then (None, Some sk)
          else case sk_sort qsort call (Some sk) of
            None \<Rightarrow> (None, None)
          | Some sk \<Rightarrow>
              let xs = take (unat (st_num sk)) (st_data sk)
              in case bsearch (call cmp) p xs of
                   None \<Rightarrow> (None, Some sk)
                 | Some idx \<Rightarrow> (Some (first_match (call cmp) p (st_data sk) idx), Some sk))"

fun sk_shift :: "'p sk \<Rightarrow> 'p option \<times> 'p sk" where
  "sk_shift None = (None, None)"
| "sk_shift (Some sk) = (if st_num sk = 0 then (None, Some sk) else sk_delete (Some sk) 0)"

definition sk_push :: "system_malloc \<Rightarrow> 'p option \<Rightarrow> 'p sk \<Rightarrow> 'p option \<Rightarrow> usize \<times> 'p sk" where
  "sk_push sys junk sk p = sk_insert sys junk sk p (sk_num sk)"

fun sk_pop :: "'p sk \<Rightarrow> 'p option \<times> 'p sk" where
  "sk_pop None = (None, None)"
| "sk_pop (Some sk) = (if st_num sk = 0 then (None, Some sk) else sk_delete (Some sk) (st_num sk - 1))"

definition sk_dup :: "system_malloc \<Rightarrow> 'p option \<Rightarrow> 'p sk \<Rightarrow> 'p sk" where
  "sk_dup sys junk sk =
     (case sk of
        None \<Rightarrow> None
      | Some sk \<Rightarrow>
        (case sk_new sys (st_comp sk) of
           None \<Rightarrow> None
         | Some ret \<Rightarrow>
             if OPENSSL_malloc sys (8 * st_num_alloc sk) = None then None
             else Some (ret\<lparr>st_num := st_num sk,
               st_data := mem_write (realloc_ptrs junk (st_data ret) (st_num_alloc sk)) 0
                 (take (unat (st_num sk)) (st_data sk)),
               st_sorted := st_sorted sk, st_num_alloc := st_num_alloc sk, st_comp := st_comp sk\<rparr>)))"

definition sk_set_cmp_func :: "'p STACK \<Rightarrow> nat option \<Rightarrow> nat option \<times> 'p STACK" where
  "sk_set_cmp_func sk cmp =
     (st_comp sk, sk\<lparr>st_sorted := (if st_comp sk \<noteq> cmp then False else st_sorted sk), st_comp := cmp\<rparr>)"

text \<open>
  \<open>sk_deep_copy\<close>: the copies made so far, then the elements to copy.  \<open>copy_func\<close> and \<open>free_func\<close>
  act on a state of their own.
\<close>

fun deep_copy_loop ::
  "('p \<Rightarrow> 's \<Rightarrow> 'p option \<times> 's) \<Rightarrow> ('p \<Rightarrow> 's \<Rightarrow> 's) \<Rightarrow> 'p option list \<Rightarrow> 'p option list \<Rightarrow> 's \<Rightarrow> 'p option list option \<times> 's"
where
  "deep_copy_loop copy_func free_func copied [] s = (Some copied, s)"
| "deep_copy_loop copy_func free_func copied (None # xs) s = deep_copy_loop copy_func free_func (copied @ [None]) xs s"
| "deep_copy_loop copy_func free_func copied (Some p # xs) s =
     (case copy_func p s of
        (None, s) \<Rightarrow> (None, call_each free_func copied s)
      | (Some q, s) \<Rightarrow> deep_copy_loop copy_func free_func (copied @ [Some q]) xs s)"

definition sk_deep_copy ::
  "system_malloc \<Rightarrow> 'p option \<Rightarrow> 'p sk \<Rightarrow> ('p \<Rightarrow> 's \<Rightarrow> 'p option \<times> 's) \<Rightarrow> ('p \<Rightarrow> 's \<Rightarrow> 's) \<Rightarrow> 's \<Rightarrow> 'p sk \<times> 's" where
  "sk_deep_copy sys junk sk copy_func free_func s =
     (case sk_dup sys junk sk of
        None \<Rightarrow> (None, s)
      | Some ret \<Rightarrow>
        (case deep_copy_loop copy_func free_func [] (take (unat (st_num ret)) (st_data ret)) s of
           (None, s) \<Rightarrow> (None, s)
         | (Some copies, s) \<Rightarrow> (Some (ret\<lparr>st_data := mem_write (st_data ret) 0 copies\<rparr>), s)))"

section \<open>The invariant and the contents\<close>

definition contents :: "'p STACK \<Rightarrow> 'p option list" where
  "contents sk = take (unat (st_num sk)) (st_data sk)"

definition stack_ok :: "'p STACK \<Rightarrow> bool" where
  "stack_ok sk \<longleftrightarrow> length (st_data sk) = unat (st_num_alloc sk) \<and> st_num sk < st_num_alloc sk \<and>
     unat (st_num_alloc sk) < 2 ^ 61"

lemma stack_okD:
  assumes "stack_ok sk"
  shows "unat (st_num sk) < length (st_data sk)" "length (st_data sk) < 2 ^ 61"
    "length (contents sk) = unat (st_num sk)"
  using assms by (auto simp: stack_ok_def contents_def word_less_nat_alt)

lemma mul8_div8: "n * 8 div 8 = (n :: usize) \<longleftrightarrow> unat n < 2 ^ 61"
proof -
  have "unat (n * 8 div 8) = unat n mod 2 ^ 61"
    using mod_mult_mult2 [of "unat n" 8 "2 ^ 61"] by (simp add: unat_div_distrib unat_word_ariths)
  then show ?thesis
    using unat_lt64 [of n] by (auto simp: word_unat_eq_iff mod_eq_self_iff_div_eq_0)
qed

lemma grow_alloc_Some:
  assumes "grow_alloc n = Some m" "unat n < 2 ^ 61" "n \<noteq> 0"
  shows "n < m \<and> unat m < 2 ^ 61"
proof -
  have d: "unat (push_bit 1 n) = 2 * unat n" and i: "unat (n + 1) = unat n + 1"
    using assms(2) by (simp_all add: push_bit_eq_mult unat_word_ariths)
  have "unat m < 2 ^ 61 \<and> (m = push_bit 1 n \<or> m = n + 1)"
    using assms(1) unfolding grow_alloc_def Let_def mul8_div8 by (auto split: if_splits)
  then show ?thesis
    using d i assms(3) by (auto simp: word_less_nat_alt unat_gt_0)
qed

lemma length_realloc_ptrs [simp]: "length (realloc_ptrs junk xs n) = unat n"
  by (simp add: realloc_ptrs_def)

lemma take_realloc_ptrs: "k \<le> length xs \<Longrightarrow> k \<le> unat n \<Longrightarrow> take k (realloc_ptrs junk xs n) = take k xs"
  by (simp add: realloc_ptrs_def)

section \<open>Every operation on the contents\<close>

lemma sk_new_ok: "sk_new sys cmp = Some sk \<Longrightarrow> stack_ok sk \<and> contents sk = [] \<and> st_comp sk = cmp"
  by (auto simp: sk_new_def stack_ok_def contents_def kMinSize_def split: if_splits)

lemma sk_zero_ok: "stack_ok sk \<Longrightarrow> \<exists>sk'. sk_zero (Some sk) = Some sk' \<and> stack_ok sk' \<and> contents sk' = []"
  using stack_okD [of sk] by (auto simp: stack_ok_def contents_def word_less_nat_alt)

lemma sk_value_ok:
  "stack_ok sk \<Longrightarrow> sk_value (Some sk) i = (if unat i < length (contents sk) then contents sk ! unat i else None)"
  using stack_okD [of sk] by (auto simp: contents_def word_le_nat_alt)

lemma sk_set_ok:
  assumes "stack_ok sk"
  shows "\<exists>sk'. sk_set (Some sk) i v = (if unat i < length (contents sk) then v else None, Some sk') \<and> stack_ok sk' \<and>
    contents sk' = (contents sk)[unat i := v]"
  using stack_okD [OF assms] assms
  by (auto simp: contents_def stack_ok_def word_le_nat_alt take_update_swap list_update_beyond)

lemma insert_at:
  assumes "n < length xs" "w \<le> n"
  shows "take (Suc n) ((mem_write xs (Suc w) (take (n - w) (drop w xs)))[w := p]) =
    take w xs @ p # drop w (take n xs)"
proof -
  have "length (take (n - w) (drop w xs)) = n - w"
    using assms by simp
  then have "take (Suc n) (mem_write xs (Suc w) (take (n - w) (drop w xs))) = take (Suc w) xs @ take (n - w) (drop w xs)"
    using assms by (intro take_mem_write) auto
  then show ?thesis
    using assms by (simp add: take_update_swap list_update_append take_Suc_conv_app_nth drop_take)
qed

lemma insert_slots:
  fixes p :: 'a and w :: nat
  assumes "Suc n < length xs"
  defines "ys \<equiv> (if n \<le> w then xs[n := p] else (mem_write xs (w + 1) (take (n - w) (drop w xs)))[w := p])"
  shows "length ys = length xs" "take (Suc n) ys = take w (take n xs) @ p # drop w (take n xs)"
proof -
  have len: "length (mem_write xs (w + 1) (take (n - w) (drop w xs))) = length xs" if "w < n"
  proof (rule length_mem_write)
    have "length (take (n - w) (drop w xs)) \<le> n - w"
      by simp
    then show "w + 1 + length (take (n - w) (drop w xs)) \<le> length xs"
      using assms(1) that by linarith
  qed
  then show "length ys = length xs"
    by (simp add: ys_def)
  show "take (Suc n) ys = take w (take n xs) @ p # drop w (take n xs)"
  proof (cases "n \<le> w")
    case True
    then show ?thesis
      using assms(1) by (simp add: ys_def take_Suc_conv_app_nth)
  next
    case False
    then have "ys = (mem_write xs (Suc w) (take (n - w) (drop w xs)))[w := p]"
      by (simp add: ys_def)
    then show ?thesis
      using False assms(1) insert_at [of n xs w p] by (simp only: take_take min_def) simp
  qed
qed

text \<open>
  When an insertion may fail: the array is full and cannot be doubled, which takes sixteen bytes for
  each element and the new one.
\<close>

definition insert_fails :: "system_malloc \<Rightarrow> nat \<Rightarrow> bool" where
  "insert_fails sys n \<longleftrightarrow> OPENSSL_malloc sys (of_nat (16 * Suc n)) = None \<or> 2 ^ 60 \<le> Suc n"

lemma grow_alloc_double: "unat n < 2 ^ 60 \<Longrightarrow> grow_alloc n = Some (2 * n)"
proof -
  assume n: "unat n < 2 ^ 60"
  then have "unat (push_bit 1 n) = 2 * unat n"
    by (simp add: push_bit_eq_mult unat_word_ariths)
  then show ?thesis
    using n unfolding grow_alloc_def Let_def mul8_div8
    by (simp add: word_less_nat_alt push_bit_eq_mult mult.commute)
qed

lemma sk_insert_ok:
  assumes "stack_ok sk"
  obtains "sk_insert sys junk (Some sk) p pos = (0, Some sk)" "insert_fails sys (length (contents sk))"
  | sk' where "sk_insert sys junk (Some sk) p pos = (of_nat (Suc (length (contents sk))), Some sk')" "stack_ok sk'"
    "contents sk' = take (unat pos) (contents sk) @ p # drop (unat pos) (contents sk)"
    "st_comp sk' = st_comp sk" "\<not> st_sorted sk'"
proof -
  define n where "n = unat (st_num sk)"
  have n: "n < length (st_data sk)" "length (st_data sk) = unat (st_num_alloc sk)" "unat (st_num_alloc sk) < 2 ^ 61"
    using stack_okD [OF assms] assms by (simp_all add: n_def stack_ok_def)
  have num1: "unat (st_num sk + 1) = Suc n"
    using n by (simp add: n_def unat_word_ariths)
  define grown where "grown =
     (if st_num_alloc sk \<le> st_num sk + 1 then
        (case grow_alloc (st_num_alloc sk) of
           None \<Rightarrow> None
         | Some new_alloc \<Rightarrow>
             if OPENSSL_malloc sys (new_alloc * 8) = None then None
             else Some (sk\<lparr>st_data := realloc_ptrs junk (st_data sk) new_alloc, st_num_alloc := new_alloc\<rparr>))
      else Some sk)"
  have grown: "Suc n < unat (st_num_alloc g) \<and> unat (st_num_alloc g) < 2 ^ 61 \<and> length (st_data g) = unat (st_num_alloc g) \<and>
      st_num g = st_num sk \<and> take n (st_data g) = contents sk \<and> st_comp g = st_comp sk" if some: "grown = Some g" for g
  proof (cases "st_num_alloc sk \<le> st_num sk + 1")
    case True
    then obtain m where m: "grow_alloc (st_num_alloc sk) = Some m"
        "g = sk\<lparr>st_data := realloc_ptrs junk (st_data sk) m, st_num_alloc := m\<rparr>"
      using some by (auto simp: grown_def split: option.splits if_splits)
    have "st_num_alloc sk \<noteq> 0"
      using n by auto
    then have "st_num_alloc sk < m" "unat m < 2 ^ 61"
      using grow_alloc_Some [OF m(1)] n by auto
    then show ?thesis
      using n by (simp add: m(2) word_less_nat_alt take_realloc_ptrs contents_def n_def)
  next
    case False
    then show ?thesis
      using some n num1 by (auto simp: grown_def contents_def n_def word_le_nat_alt)
  qed
  show thesis
  proof (cases grown)
    case None
    have "insert_fails sys n"
    proof (rule ccontr)
      assume f: "\<not> insert_fails sys n"
      have full: "st_num_alloc sk \<le> st_num sk + 1"
        using None by (simp add: grown_def split: if_splits)
      then have "st_num_alloc sk = st_num sk + 1"
        using num1 n by (simp add: word_le_nat_alt word_unat_eq_iff)
      moreover have "of_nat (16 * Suc n) = 2 * (st_num sk + 1) * 8"
        by (simp add: n_def algebra_simps)
      ultimately show False
        using None full f num1 grow_alloc_double [of "st_num sk + 1"] by (auto simp: grown_def insert_fails_def ac_simps split: if_splits)
    qed
    then show thesis
      using None stack_okD(3) [OF assms] by (intro that(1)) (simp_all add: grown_def n_def)
  next
    case (Some g)
    note g = grown [OF Some]
    define dat where "dat = (if pos \<ge> st_num g then (st_data g)[n := p]
        else (mem_write (st_data g) (unat pos + 1) (take (n - unat pos) (drop (unat pos) (st_data g))))[unat pos := p])"
    define sk' where "sk' = g\<lparr>st_data := dat, st_num := st_num g + 1, st_sorted := False\<rparr>"
    have eq: "sk_insert sys junk (Some sk) p pos = (st_num sk + 1, Some sk')"
      using Some g by (simp add: sk'_def dat_def n_def Let_def flip: grown_def)
    have len: "length dat = length (st_data g)"
      and dat: "take (Suc n) dat = take (unat pos) (contents sk) @ p # drop (unat pos) (contents sk)"
      using insert_slots [of n "st_data g" "unat pos" p] g
      by (simp_all only: dat_def word_le_nat_alt n_def)
    have "st_num sk + 1 = of_nat (Suc (length (contents sk)))"
      using num1 stack_okD(3) [OF assms] by (simp add: n_def)
    moreover have "stack_ok sk'" "contents sk' = take (unat pos) (contents sk) @ p # drop (unat pos) (contents sk)"
      using g num1 len dat by (simp_all add: sk'_def stack_ok_def contents_def word_less_nat_alt)
    ultimately show thesis
      using eq g by (intro that(2) [of sk']) (simp_all only: sk'_def, simp_all)
  qed
qed

declare sk_insert.simps [simp del]

lemma sk_delete_ok:
  assumes "stack_ok sk"
  obtains "sk_delete (Some sk) pos = (None, Some sk)" "length (contents sk) \<le> unat pos"
  | sk' where "sk_delete (Some sk) pos = (contents sk ! unat pos, Some sk')" "unat pos < length (contents sk)" "stack_ok sk'"
    "contents sk' = take (unat pos) (contents sk) @ drop (Suc (unat pos)) (contents sk)"
    "st_comp sk' = st_comp sk" "st_sorted sk' = st_sorted sk"
proof (cases "pos \<ge> st_num sk")
  case True
  then show thesis
    using stack_okD [OF assms] by (intro that(1)) (auto simp: word_le_nat_alt)
next
  case False
  define n where "n = unat (st_num sk)"
  define w where "w = unat pos"
  have n: "w < n" "n < length (st_data sk)" "unat (st_num sk - 1) = n - 1" "length (contents sk) = n"
    using False stack_okD [OF assms] unat_sub [of 1 "st_num sk"] by (auto simp: n_def w_def word_le_nat_alt word_less_nat_alt)
  define dat where "dat = (if pos \<noteq> st_num sk - 1 then mem_write (st_data sk) w (take (n - w - 1) (drop (w + 1) (st_data sk)))
    else st_data sk)"
  define sk' where "sk' = sk\<lparr>st_data := dat, st_num := st_num sk - 1\<rparr>"
  have "take (n - 1) dat = take w (contents sk) @ drop (Suc w) (contents sk)"
  proof (cases "pos = st_num sk - 1")
    case True
    then have "w = n - 1"
      using n by (simp add: w_def)
    then show ?thesis
      using True n by (simp add: dat_def contents_def n_def)
  next
    case False
    then show ?thesis
      using n take_mem_write [of w "take (n - w - 1) (drop (w + 1) (st_data sk))" "st_data sk" "n - 1"]
      by (simp add: dat_def contents_def drop_take flip: n_def)
  qed
  moreover have "length dat = length (st_data sk)"
    using n by (simp add: dat_def)
  ultimately have "stack_ok sk'" "contents sk' = take w (contents sk) @ drop (Suc w) (contents sk)"
    using assms n by (auto simp: sk'_def stack_ok_def contents_def word_less_nat_alt)
  then show thesis
    using False n by (intro that(2) [of sk']) (auto simp: sk'_def dat_def n_def w_def contents_def Let_def)
qed

declare sk_delete.simps [simp del]

section \<open>Programs of operations against lists\<close>

datatype 'p sk_op =
  Insert "'p option" usize | Push "'p option" | Pop | Shift | Delete usize | Delete_ptr "'p option"
  | Set usize "'p option" | Value usize | Num | Zero

datatype 'p sk_out = Count usize | Pointer "'p option" | Done

fun sk_step :: "system_malloc \<Rightarrow> 'p option \<Rightarrow> 'p sk_op \<Rightarrow> 'p sk \<Rightarrow> 'p sk_out \<times> 'p sk" where
  "sk_step sys junk (Insert p pos) sk = apfst Count (sk_insert sys junk sk p pos)"
| "sk_step sys junk (Push p) sk = apfst Count (sk_push sys junk sk p)"
| "sk_step sys junk Pop sk = apfst Pointer (sk_pop sk)"
| "sk_step sys junk Shift sk = apfst Pointer (sk_shift sk)"
| "sk_step sys junk (Delete pos) sk = apfst Pointer (sk_delete sk pos)"
| "sk_step sys junk (Delete_ptr p) sk = apfst Pointer (sk_delete_ptr sk p)"
| "sk_step sys junk (Set i v) sk = apfst Pointer (sk_set sk i v)"
| "sk_step sys junk (Value i) sk = (Pointer (sk_value sk i), sk)"
| "sk_step sys junk Num sk = (Count (sk_num sk), sk)"
| "sk_step sys junk Zero sk = (Done, sk_zero sk)"

fun sk_run :: "system_malloc \<Rightarrow> 'p option \<Rightarrow> 'p sk_op list \<Rightarrow> 'p sk \<Rightarrow> 'p sk_out list \<times> 'p sk" where
  "sk_run sys junk [] sk = ([], sk)"
| "sk_run sys junk (op # ops) sk =
     (case sk_step sys junk op sk of (out, sk) \<Rightarrow> apfst ((#) out) (sk_run sys junk ops sk))"

text \<open>
  The same operations on a list.  An insertion may fail, and then changes nothing, only when
  the memory for a doubled array is not available.
\<close>

inductive list_step :: "system_malloc \<Rightarrow> 'p sk_op \<Rightarrow> 'p option list \<Rightarrow> 'p sk_out \<Rightarrow> 'p option list \<Rightarrow> bool"
  for sys
where
  insert: "list_step sys (Insert p pos) xs (Count (of_nat (Suc (length xs))))
     (take (unat pos) xs @ p # drop (unat pos) xs)"
| insert_fail: "insert_fails sys (length xs) \<Longrightarrow> list_step sys (Insert p pos) xs (Count 0) xs"
| push: "list_step sys (Push p) xs (Count (of_nat (Suc (length xs)))) (xs @ [p])"
| push_fail: "insert_fails sys (length xs) \<Longrightarrow> list_step sys (Push p) xs (Count 0) xs"
| pop: "list_step sys Pop (xs @ [x]) (Pointer x) xs"
| pop_empty: "list_step sys Pop [] (Pointer None) []"
| shift: "list_step sys Shift (x # xs) (Pointer x) xs"
| shift_empty: "list_step sys Shift [] (Pointer None) []"
| delete: "unat pos = length xs \<Longrightarrow> list_step sys (Delete pos) (xs @ x # ys) (Pointer x) (xs @ ys)"
| delete_out: "length xs \<le> unat pos \<Longrightarrow> list_step sys (Delete pos) xs (Pointer None) xs"
| delete_ptr: "list_step sys (Delete_ptr p) xs (Pointer (if p \<in> set xs then p else None)) (remove1 p xs)"
| set_in: "unat i < length xs \<Longrightarrow> list_step sys (Set i v) xs (Pointer v) (xs[unat i := v])"
| set_out: "length xs \<le> unat i \<Longrightarrow> list_step sys (Set i v) xs (Pointer None) xs"
| value_in: "unat i < length xs \<Longrightarrow> list_step sys (Value i) xs (Pointer (xs ! unat i)) xs"
| value_out: "length xs \<le> unat i \<Longrightarrow> list_step sys (Value i) xs (Pointer None) xs"
| num: "list_step sys Num xs (Count (of_nat (length xs))) xs"
| zero: "list_step sys Zero xs Done []"

inductive_cases push_cases: "list_step sys (Push p) xs out ys"
inductive_cases pop_cases: "list_step sys Pop xs out ys"

inductive list_steps ::
  "system_malloc \<Rightarrow> 'p sk_op list \<Rightarrow> 'p option list \<Rightarrow> 'p sk_out list \<Rightarrow> 'p option list \<Rightarrow> bool"
  for sys
where
  none: "list_steps sys [] xs [] xs"
| some: "list_step sys op xs out ys \<Longrightarrow> list_steps sys ops ys outs zs \<Longrightarrow> list_steps sys (op # ops) xs (out # outs) zs"

lemma find_ptr_None: "find_ptr xs p = None \<longleftrightarrow> p \<notin> set xs"
  by (induction xs) auto

lemma find_ptr_Some:
  "find_ptr xs p = Some i \<Longrightarrow> i < length xs \<and> xs ! i = p \<and> take i xs @ drop (Suc i) xs = remove1 p xs \<and> p \<notin> set (take i xs)"
  by (induction xs arbitrary: i) (auto split: if_splits)

lemma delete_rule:
  assumes "unat pos < length xs"
  shows "list_step sys (Delete pos) xs (Pointer (xs ! unat pos)) (take (unat pos) xs @ drop (Suc (unat pos)) xs)"
proof -
  have "xs = take (unat pos) xs @ xs ! unat pos # drop (Suc (unat pos)) xs"
    using assms by (simp add: id_take_nth_drop)
  then show ?thesis
    using list_step.delete [of pos "take (unat pos) xs" sys "xs ! unat pos" "drop (Suc (unat pos)) xs"] assms by simp
qed

lemma sk_step_refines:
  assumes "stack_ok sk"
  shows "\<exists>out sk'. sk_step sys junk op (Some sk) = (out, Some sk') \<and> stack_ok sk' \<and> list_step sys op (contents sk) out (contents sk')"
proof -
  note len = stack_okD [OF assms]
  show ?thesis
  proof (cases op)
    case (Insert p pos)
    show ?thesis
      by (rule sk_insert_ok [OF assms, of sys junk p pos])
        (use Insert assms list_step.insert [of sys p pos "contents sk"] in \<open>auto intro: list_step.insert_fail\<close>)
  next
    case (Push p)
    have "list_step sys (Push p) (contents sk) (Count (of_nat (Suc (length (contents sk)))))
        (take (unat (st_num sk)) (contents sk) @ p # drop (unat (st_num sk)) (contents sk))"
      using list_step.push [of sys p "contents sk"] len by simp
    then show ?thesis
      by (rule_tac sk_insert_ok [OF assms, of sys junk p "st_num sk"])
        (use Push assms in \<open>auto simp: sk_push_def intro: list_step.push_fail\<close>)
  next
    case Pop
    show ?thesis
    proof (cases "st_num sk = 0")
      case True
      then show ?thesis
        using Pop assms len by (auto intro: list_step.pop_empty)
    next
      case False
      then have "0 < unat (st_num sk)"
        by (simp add: unat_gt_0)
      then have n: "contents sk \<noteq> []" "unat (st_num sk - 1) = length (contents sk) - 1"
        using len unat_sub [of 1 "st_num sk"] by (auto simp only: word_le_nat_alt unat_1 Suc_le_eq One_nat_def list.size)
      obtain xs x where xs: "contents sk = xs @ [x]"
        using n(1) by (cases "contents sk" rule: rev_cases) auto
      show ?thesis
        by (rule sk_delete_ok [OF assms, of "st_num sk - 1"])
          (use Pop False n xs in \<open>auto intro: list_step.pop\<close>)
    qed
  next
    case Shift
    show ?thesis
    proof (cases "st_num sk = 0")
      case True
      then show ?thesis
        using Shift assms len by (auto intro: list_step.shift_empty)
    next
      case False
      then obtain x xs where xs: "contents sk = x # xs"
        using len unat_gt_0 [of "st_num sk"] by (cases "contents sk") auto
      show ?thesis
        by (rule sk_delete_ok [OF assms, of 0]) (use Shift False xs in \<open>auto intro: list_step.shift\<close>)
    qed
  next
    case (Delete pos)
    show ?thesis
      by (rule sk_delete_ok [OF assms, of pos]) (use Delete assms in \<open>auto intro: delete_rule list_step.delete_out\<close>)
  next
    case (Delete_ptr p)
    show ?thesis
    proof (cases "find_ptr (contents sk) p")
      case None
      then have "p \<notin> set (contents sk)"
        by (simp add: find_ptr_None)
      then have "list_step sys (Delete_ptr p) (contents sk) (Pointer None) (contents sk)"
        using list_step.delete_ptr [of sys p "contents sk"] by (simp add: remove1_idem)
      then show ?thesis
        using Delete_ptr assms by (simp add: None flip: contents_def)
    next
      case (Some i)
      note i = find_ptr_Some [OF Some]
      then have u: "unat (of_nat i :: usize) = i"
        using len by (intro unat_of_nat_small) simp
      have "p \<in> set (contents sk)"
        using i nth_mem by blast
      then show ?thesis
        by (rule_tac sk_delete_ok [OF assms, of "of_nat i"])
          (use Delete_ptr Some i u list_step.delete_ptr [of sys p "contents sk"] in \<open>auto simp flip: contents_def\<close>)
    qed
  next
    case (Set i v)
    obtain sk' where s: "sk_set (Some sk) i v = (if unat i < length (contents sk) then v else None, Some sk')"
        "stack_ok sk'" "contents sk' = (contents sk)[unat i := v]"
      using sk_set_ok [OF assms] by blast
    then have "list_step sys op (contents sk) (Pointer (if unat i < length (contents sk) then v else None)) (contents sk')"
      using list_step.set_in [of i "contents sk" sys v] list_step.set_out [of "contents sk" i sys v]
      by (cases "unat i < length (contents sk)") (simp_all add: Set list_update_beyond)
    then show ?thesis
      using s by (simp add: Set del: sk_set.simps)
  next
    case (Value i)
    then show ?thesis
      using sk_value_ok [OF assms, of i] assms by (auto intro: list_step.value_in list_step.value_out simp: not_less)
  next
    case Num
    have "of_nat (length (contents sk)) = st_num sk"
      using len by simp
    then show ?thesis
      using Num assms list_step.num [of sys "contents sk"] by simp
  next
    case Zero
    then show ?thesis
      using sk_zero_ok [OF assms] by (auto intro: list_step.zero)
  qed
qed

text \<open>
  Claim C5: every program of stack operations does to the array what the same operations do to a
  list, whatever the initial capacity and whatever the allocator grants: same results, same
  contents, the representation invariant kept; an insertion fails only without memory for twice
  the elements, and then leaves the stack as it was.
\<close>

theorem sk_run_refines:
  assumes "stack_ok sk"
  shows "\<exists>outs sk'. sk_run sys junk ops (Some sk) = (outs, Some sk') \<and> stack_ok sk' \<and>
    list_steps sys ops (contents sk) outs (contents sk')"
  using assms
proof (induction ops arbitrary: sk)
  case Nil
  then show ?case
    by (auto intro: list_steps.none)
next
  case (Cons op ops)
  obtain out sk1 where s: "sk_step sys junk op (Some sk) = (out, Some sk1)" "stack_ok sk1"
      "list_step sys op (contents sk) out (contents sk1)"
    using sk_step_refines [OF Cons.prems] by blast
  obtain outs sk2 where "sk_run sys junk ops (Some sk1) = (outs, Some sk2)" "stack_ok sk2"
      "list_steps sys ops (contents sk1) outs (contents sk2)"
    using Cons.IH [OF s(2)] by blast
  then show ?case
    using s by (auto intro: list_steps.some)
qed

definition small_stack :: "nat STACK" where
  "small_stack = \<lparr>st_num = 2, st_data = [Some 5, Some 6, None], st_sorted = False, st_num_alloc = 3, st_comp = None\<rparr>"

lemma small_stack_ok: "stack_ok small_stack" "contents small_stack = [Some 5, Some 6]"
  by (simp_all add: small_stack_def stack_ok_def contents_def)

lemma sk_run_refines_witness:
  "\<exists>outs sk'. sk_run (\<lambda>_. Some (\<lambda>_. 0)) None [Insert (Some 7) 1, Pop, Delete_ptr (Some 5)] (Some small_stack) = (outs, Some sk') \<and>
    stack_ok sk' \<and> outs = [Count 3, Pointer (Some 6), Pointer (Some 5)] \<and> contents sk' = [Some 7]"
proof -
  have grow: "grow_alloc 3 = Some 6"
    by (simp add: grow_alloc_double)
  have rep: "replicate 3 x = [x, x, x]" for x :: "nat option"
    by (simp add: numeral_3_eq_3)
  have run: "sk_run (\<lambda>_. Some (\<lambda>_. 0)) None [Insert (Some 7) 1, Pop, Delete_ptr (Some 5)] (Some small_stack) =
     ([Count 3, Pointer (Some 6), Pointer (Some 5)],
      Some \<lparr>st_num = 1, st_data = [Some 7, Some 7, Some 6, None, None, None], st_sorted = False, st_num_alloc = 6, st_comp = None\<rparr>)"
    by (simp add: small_stack_def grow OPENSSL_malloc_def realloc_ptrs_def mem_write_def sk_insert.simps sk_delete.simps
        word_le_nat_alt rep)
  show ?thesis
    using sk_run_refines [OF small_stack_ok(1), of "\<lambda>_. Some (\<lambda>_. 0)" None "[Insert (Some 7) 1, Pop, Delete_ptr (Some 5)]"] run
    by (simp add: contents_def)
qed

section \<open>Searching\<close>

text \<open>What the flag \<open>sorted\<close> claims.\<close>

definition sorted_ok :: "'p calls \<Rightarrow> 'p STACK \<Rightarrow> bool" where
  "sorted_ok call sk \<longleftrightarrow>
     (st_sorted sk \<longrightarrow> (case st_comp sk of None \<Rightarrow> True | Some cmp \<Rightarrow> ordered_by (call cmp) (contents sk)))"

lemma ordered_by_delete: "ordered_by cmp xs \<Longrightarrow> ordered_by cmp (take i xs @ drop (Suc i) xs)"
proof -
  assume a: "ordered_by cmp xs"
  show ?thesis
  proof (cases "i < length xs")
    case True
    then have "sorted_wrt (\<lambda>a b. cmp a b \<le> 0) (take i xs @ xs ! i # drop (Suc i) xs)"
      using a by (simp add: ordered_by_def flip: id_take_nth_drop)
    then show ?thesis
      by (auto simp: ordered_by_def sorted_wrt_append)
  qed (use a in simp)
qed

lemma first_match_le: "first_match cmp p xs i \<le> i"
  by (induction i) auto

lemma first_match_hits: "cmp p (xs ! i) = 0 \<Longrightarrow> cmp p (xs ! first_match cmp p xs i) = 0"
  by (induction i) auto

lemma first_match_first:
  assumes "comparator cmp" "ordered_by cmp xs"
  shows "i < length xs \<Longrightarrow> cmp p (xs ! i) = 0 \<Longrightarrow> j < first_match cmp p xs i \<Longrightarrow> cmp p (xs ! j) \<noteq> 0"
proof (induction i)
  case (Suc i)
  show ?case
  proof (cases "cmp p (xs ! i) = 0")
    case False
    note c = comparator.ordered_nth [OF assms]
    have j: "j \<le> i"
      using Suc.prems(3) False by simp
    have "cmp (xs ! i) p \<le> 0"
      using comparator.cmp_trans [OF assms(1) c [of i "Suc i"]] comparator.cmp_ge [OF assms(1), of p "xs ! Suc i"] Suc.prems
      by simp
    moreover have "cmp p (xs ! i) \<le> 0" if "cmp p (xs ! j) = 0"
      using comparator.cmp_trans [OF assms(1) _ c [of j i], of p] that j Suc.prems by simp
    ultimately show ?thesis
      using False comparator.cmp_ge [OF assms(1), of p "xs ! i"] by fastforce
  qed (use Suc in auto)
qed simp

lemma sk_sort_ok:
  assumes "c_sort qsort" "comparator (call cmp)" "stack_ok sk" "sorted_ok call sk" "st_comp sk = Some cmp"
  shows "\<exists>sk'. sk_sort qsort call (Some sk) = Some sk' \<and> stack_ok sk' \<and> mset (contents sk') = mset (contents sk) \<and>
    ordered_by (call cmp) (contents sk')"
proof (cases "st_sorted sk")
  case True
  then have "sk_sort qsort call (Some sk) = Some sk"
    using assms(5) by simp
  then show ?thesis
    using True assms(3-5) unfolding sorted_ok_def by force
next
  case False
  define xs where "xs = qsort (call cmp) (contents sk)"
  have len: "length xs = unat (st_num sk)"
    unfolding xs_def c_sort.qsort_length [OF assms(1,2)] by (rule stack_okD [OF assms(3)])
  define sk' where "sk' = sk\<lparr>st_data := mem_write (st_data sk) 0 xs, st_sorted := True\<rparr>"
  have le: "0 + length xs \<le> length (st_data sk)"
    using stack_okD(1) [OF assms(3)] len by simp
  have "contents sk' = xs"
    using take_mem_write [OF le, of "unat (st_num sk)"] len by (simp add: sk'_def contents_def)
  moreover have "sk_sort qsort call (Some sk) = Some sk'"
    using assms(5) False by (simp add: sk'_def xs_def contents_def)
  moreover have "stack_ok sk'"
    using assms(3) length_mem_write [OF le] by (simp add: sk'_def stack_ok_def)
  moreover have "mset xs = mset (contents sk)" "ordered_by (call cmp) xs"
    unfolding xs_def by (rule c_sort.qsort_mset [OF assms(1,2)], rule c_sort.qsort_ordered [OF assms(1,2)])
  ultimately show ?thesis
    by metis
qed

text \<open>
  Claim C6: when the \<open>sorted\<close> flag is truthful, \<open>sk_find\<close> answers for the elements the stack
  holds: it sorts them without adding or losing any, and reports the first one that compares equal,
  or that there is none.
\<close>

theorem sk_find_first:
  assumes "c_search qsort bsearch" "comparator (call cmp)" "stack_ok sk" "sorted_ok call sk" "st_comp sk = Some cmp"
  shows "\<exists>r sk'. sk_find qsort bsearch call (Some sk) (Some p) = (r, Some sk') \<and> stack_ok sk' \<and>
    mset (contents sk') = mset (contents sk) \<and> ordered_by (call cmp) (contents sk') \<and>
    (case r of
       None \<Rightarrow> \<forall>x \<in> set (contents sk). call cmp (Some p) x \<noteq> 0
     | Some i \<Rightarrow> i < length (contents sk') \<and> call cmp (Some p) (contents sk' ! i) = 0 \<and>
         (\<forall>j < i. call cmp (Some p) (contents sk' ! j) \<noteq> 0))"
proof -
  have sort: "c_sort qsort"
    using assms(1) by (simp add: c_search_def)
  obtain sk' where s: "sk_sort qsort call (Some sk) = Some sk'" "stack_ok sk'"
      "mset (contents sk') = mset (contents sk)" "ordered_by (call cmp) (contents sk')"
    using sk_sort_ok [OF sort assms(2-5)] by blast
  define xs where "xs = contents sk'"
  have xs: "take (unat (st_num sk')) (st_data sk') = xs"
    by (simp add: xs_def contents_def)
  note ord = s(4) [folded xs_def]
  show ?thesis
  proof (cases "bsearch (call cmp) (Some p) xs")
    case None
    then have "\<forall>x \<in> set xs. call cmp (Some p) x \<noteq> 0"
      by (rule c_search.bsearch_None [OF assms(1,2) ord])
    then show ?thesis
      using None s assms(5) mset_eq_setD [OF s(3)] by (simp add: xs flip: xs_def)
  next
    case (Some i)
    have i: "i < length xs" "call cmp (Some p) (xs ! i) = 0"
      using c_search.bsearch_Some [OF assms(1,2) ord Some] by auto
    have nth: "st_data sk' ! k = xs ! k" if "k \<le> i" for k
      using i that by (simp flip: xs)
    define k where "k = first_match (call cmp) (Some p) xs i"
    have "first_match (call cmp) (Some p) (st_data sk') j = first_match (call cmp) (Some p) xs j" if "j \<le> i" for j
      using that by (induction j) (simp_all add: nth)
    then have "sk_find qsort bsearch call (Some sk) (Some p) = (Some k, Some sk')"
      using Some s(1) assms(5) by (simp add: xs k_def)
    moreover have "k < length xs" "call cmp (Some p) (xs ! k) = 0" "\<forall>j < k. call cmp (Some p) (xs ! j) \<noteq> 0"
      using i first_match_le [of "call cmp" "Some p" xs i] first_match_hits [of "call cmp" "Some p" xs i]
        first_match_first [OF assms(2) ord i] by (auto simp: k_def)
    ultimately show ?thesis
      using s by (simp add: xs_def)
  qed
qed

definition nat_calls :: "nat calls" where
  "nat_calls _ = three_way"

definition cmp_stack :: "nat STACK" where
  "cmp_stack = \<lparr>st_num = 3, st_data = [Some 6, Some 5, Some 6, None], st_sorted = False, st_num_alloc = 4, st_comp = Some 0\<rparr>"

lemma cmp_stack_ok: "stack_ok cmp_stack" "contents cmp_stack = [Some 6, Some 5, Some 6]" "sorted_ok nat_calls cmp_stack"
  by (simp_all add: cmp_stack_def stack_ok_def contents_def sorted_ok_def)


lemma sk_find_first_witness:
  "\<exists>sk'. sk_find sort_ref search_ref nat_calls (Some cmp_stack) (Some 6) = (Some 1, Some sk') \<and>
    contents sk' = [Some 5, Some 6, Some 6]"
proof -
  have "st_comp cmp_stack = Some 0" "comparator (nat_calls 0)"
    using three_way.comparator_axioms by (simp_all add: cmp_stack_def nat_calls_def)
  note sk_find_first [OF sort_ref.c_search_axioms this(2) cmp_stack_ok(1,3) this(1), of 6]
  moreover have "sk_find sort_ref search_ref nat_calls (Some cmp_stack) (Some 6) = (Some 1, Some
      \<lparr>st_num = 3, st_data = [Some 5, Some 6, Some 6, None], st_sorted = True, st_num_alloc = 4, st_comp = Some 0\<rparr>)"
    by (simp add: cmp_stack_def nat_calls_def three_way_def mem_write_def search_ref_def search_range.simps)
  ultimately show ?thesis
    by (simp add: contents_def)
qed


section \<open>Copying elements\<close>

text \<open>The objects that the pointers of an array refer to.\<close>

primrec objects :: "'p option list \<Rightarrow> 'p multiset" where
  "objects [] = {#}"
| "objects (x # xs) = (case x of None \<Rightarrow> objects xs | Some p \<Rightarrow> add_mset p (objects xs))"

lemma objects_append [simp]: "objects (xs @ ys) = objects xs + objects ys"
  by (induction xs) (auto split: option.splits)

text \<open>
  \<open>live\<close> counts the objects that exist: \<open>copy_func\<close> makes the one it returns, and nothing when it
  fails, and \<open>free_func\<close> removes the one it is given.
\<close>

locale object_pool =
  fixes live :: "'s \<Rightarrow> 'p multiset" and copy_func :: "'p \<Rightarrow> 's \<Rightarrow> 'p option \<times> 's" and free_func :: "'p \<Rightarrow> 's \<Rightarrow> 's"
  assumes copy_None: "copy_func p s = (None, s') \<Longrightarrow> live s' = live s"
    and copy_Some: "copy_func p s = (Some q, s') \<Longrightarrow> live s' = add_mset q (live s)"
    and free_live: "live (free_func p s) = live s - {#p#}"
begin

lemma call_each_free: "live (call_each free_func xs s) = live s - objects xs"
  by (induction xs arbitrary: s) (auto simp: free_live split: option.splits)

lemma deep_copy_live:
  "deep_copy_loop copy_func free_func copied xs s = (r, s') \<Longrightarrow> live s = base + objects copied \<Longrightarrow>
    (case r of
       None \<Rightarrow> live s' = base
     | Some ys \<Rightarrow> live s' = base + objects ys \<and>
         (\<exists>zs. ys = copied @ zs \<and> list_all2 (\<lambda>x z. (x = None) = (z = None)) xs zs))"
proof (induction xs arbitrary: copied s)
  case (Cons x xs)
  show ?case
  proof (cases x)
    case None
    then show ?thesis
      using Cons.IH [of "copied @ [None]" s] Cons.prems by (auto split: option.splits)
  next
    case (Some p)
    obtain q s1 where c: "copy_func p s = (q, s1)"
      by force
    show ?thesis
    proof (cases q)
      case None
      then show ?thesis
        using Cons.prems c Some copy_None [of p s s1] by (auto simp: call_each_free)
    next
      case (Some q')
      then show ?thesis
        using Cons.prems c \<open>x = Some p\<close> copy_Some [of p s q' s1] Cons.IH [of "copied @ [Some q']" s1]
        by (auto split: option.splits)
    qed
  qed
qed auto

end

lemma sk_dup_ok:
  assumes "stack_ok sk" "sk_dup sys junk (Some sk) = Some ret"
  shows "stack_ok ret \<and> contents ret = contents sk"
proof -
  obtain ret0 where r: "sk_new sys (st_comp sk) = Some ret0"
      "ret = ret0\<lparr>st_num := st_num sk,
         st_data := mem_write (realloc_ptrs junk (st_data ret0) (st_num_alloc sk)) 0 (contents sk),
         st_sorted := st_sorted sk, st_num_alloc := st_num_alloc sk, st_comp := st_comp sk\<rparr>"
    using assms(2) by (auto simp: sk_dup_def contents_def split: option.splits if_splits)
  have len: "length (contents sk) = unat (st_num sk)"
    by (rule stack_okD [OF assms(1)])
  then have le: "0 + length (contents sk) \<le> length (realloc_ptrs junk (st_data ret0) (st_num_alloc sk))"
    using assms(1) by (simp add: stack_ok_def word_less_nat_alt)
  have "contents ret = contents sk"
    unfolding contents_def [of ret] using take_mem_write [OF le, of "unat (st_num sk)"] len by (simp add: r(2))
  then show ?thesis
    using assms(1) length_mem_write [OF le] by (simp add: r(2) stack_ok_def)
qed

text \<open>
  Claim C32: \<open>sk_deep_copy\<close> neither leaks nor frees twice.  If the copy of an element fails, exactly
  the copies made before it are released and the objects that exist are those that existed before
  the call; if the call succeeds, exactly the elements of the new stack have been added to them,
  with \<open>NULL\<close> where the original has \<open>NULL\<close>.
\<close>

theorem sk_deep_copy_balanced:
  assumes "object_pool live copy_func free_func" "stack_ok sk"
    and "sk_deep_copy sys junk (Some sk) copy_func free_func s = (r, s')"
  shows "case r of
      None \<Rightarrow> live s' = live s
    | Some ret \<Rightarrow> live s' = live s + objects (contents ret) \<and> stack_ok ret \<and>
        list_all2 (\<lambda>x z. (x = None) = (z = None)) (contents sk) (contents ret)"
proof (cases "sk_dup sys junk (Some sk)")
  case None
  then show ?thesis
    using assms(3) by (simp add: sk_deep_copy_def)
next
  case (Some dup)
  note dup = sk_dup_ok [OF assms(2) Some]
  obtain c s1 where loop: "deep_copy_loop copy_func free_func [] (contents sk) s = (c, s1)"
    by force
  have live: "case c of None \<Rightarrow> live s1 = live s
      | Some ys \<Rightarrow> live s1 = live s + objects ys \<and> list_all2 (\<lambda>x z. (x = None) = (z = None)) (contents sk) ys"
    using object_pool.deep_copy_live [OF assms(1) loop, of "live s"] by (simp split: option.splits)
  have step: "sk_deep_copy sys junk (Some sk) copy_func free_func s =
      (case c of None \<Rightarrow> (None, s1) | Some copies \<Rightarrow> (Some (dup\<lparr>st_data := mem_write (st_data dup) 0 copies\<rparr>), s1))"
    using Some loop dup by (simp add: sk_deep_copy_def flip: contents_def)
  show ?thesis
  proof (cases c)
    case None
    then show ?thesis
      using live step assms(3) by simp
  next
    case (Some ys)
    define ret where "ret = dup\<lparr>st_data := mem_write (st_data dup) 0 ys\<rparr>"
    have len: "length ys = unat (st_num dup)"
      using live Some dup stack_okD(3) [of dup] list_all2_lengthD by fastforce
    then have le: "0 + length ys \<le> length (st_data dup)"
      using stack_okD(1) [of dup] dup by simp
    have "contents ret = ys"
      using take_mem_write [OF le, of "unat (st_num dup)"] len by (simp add: ret_def contents_def)
    moreover have "stack_ok ret"
      using dup length_mem_write [OF le] by (simp add: ret_def stack_ok_def)
    ultimately show ?thesis
      using live step assms(3) Some by (auto simp flip: ret_def)
  qed
qed

text \<open>Objects identified by numbers: a copy takes the next number, and there may be at most \<open>limit\<close> copies.\<close>

definition pool_copy :: "nat \<Rightarrow> nat \<Rightarrow> nat \<times> nat multiset \<Rightarrow> nat option \<times> (nat \<times> nat multiset)" where
  "pool_copy limit p s = (if fst s < limit then (Some (fst s), (fst s + 1, add_mset (fst s) (snd s))) else (None, s))"

definition pool_free :: "nat \<Rightarrow> nat \<times> nat multiset \<Rightarrow> nat \<times> nat multiset" where
  "pool_free p s = (fst s, snd s - {#p#})"

interpretation pool: object_pool snd "pool_copy limit" pool_free for limit
  by unfold_locales (auto simp: pool_copy_def pool_free_def split: if_splits)

lemma sk_deep_copy_balanced_witness:
  "(case sk_deep_copy (\<lambda>_. Some (\<lambda>_. 0)) None (Some small_stack) (pool_copy 8) pool_free (7, {#}) of
      (r, s) \<Rightarrow> r = None \<and> snd s = {#}) \<and>
   (case sk_deep_copy (\<lambda>_. Some (\<lambda>_. 0)) None (Some small_stack) (pool_copy 9) pool_free (7, {#}) of
      (r, s) \<Rightarrow> r \<noteq> None \<and> snd s = {#7, 8#})"
proof -
  let ?sys = "\<lambda>_. Some (\<lambda>_. 0) :: (nat \<Rightarrow> u8) option"
  have "fst (sk_deep_copy ?sys None (Some small_stack) (pool_copy 8) pool_free (7, {#})) = None"
    "fst (sk_deep_copy ?sys None (Some small_stack) (pool_copy 9) pool_free (7, {#})) \<noteq> None"
    "snd (snd (sk_deep_copy ?sys None (Some small_stack) (pool_copy 9) pool_free (7, {#}))) = {#7, 8#}"
    by (simp_all add: sk_deep_copy_def sk_dup_def sk_new_def small_stack_def OPENSSL_malloc_def kMinSize_def
        realloc_ptrs_def mem_write_def pool_copy_def)
  moreover have "case sk_deep_copy ?sys None (Some small_stack) (pool_copy 8) pool_free (7, {#}) of
      (None, s') \<Rightarrow> snd s' = {#} | (Some ret, s') \<Rightarrow> True"
    using sk_deep_copy_balanced [OF pool.object_pool_axioms [of 8] small_stack_ok(1), of ?sys None "(7, {#})"]
    by (auto split: prod.splits option.splits)
  ultimately show ?thesis
    by (auto split: prod.splits option.splits)
qed

end
