(* ===== verification/LHash.thy ===== *)
theory LHash
  imports "HOL-Library.Multiset" Mem
begin

text \<open>
  \<open>crypto/lhash/lhash.c\<close> (BoringSSL): the chained hash table behind every \<open>LHASH_OF\<close>.

  A chain is the list of its items, from the head of the bucket.  The table holds its hash and
  comparison functions.  The functions passed to \<open>lh_doall\<close> act on a state of their own; the model
  does not cover callbacks that change the table they are called from.
\<close>

section \<open>The table and its operations\<close>

record 'p LHASH_ITEM =
  it_data :: 'p
  it_hash :: u32

record 'p LHASH =
  lh_num :: usize
  lh_buckets :: "'p LHASH_ITEM list list"
  lh_num_buckets :: usize
  lh_callback_depth :: u32
  lh_comp :: "'p \<Rightarrow> 'p \<Rightarrow> int"
  lh_hash :: "'p \<Rightarrow> u32"

definition kMinNumBuckets :: usize where
  "kMinNumBuckets = 16"

definition kMaxAverageChainLength :: usize where
  "kMaxAverageChainLength = 2"

definition kMinAverageChainLength :: usize where
  "kMinAverageChainLength = 1"

definition lh_new :: "system_malloc \<Rightarrow> ('p \<Rightarrow> u32) \<Rightarrow> ('p \<Rightarrow> 'p \<Rightarrow> int) \<Rightarrow> 'p LHASH option" where
  "lh_new sys hash cmp =
     (if OPENSSL_malloc sys 48 = None then None
      else if OPENSSL_malloc sys (8 * kMinNumBuckets) = None then None
      else Some \<lparr>lh_num = 0, lh_buckets = replicate (unat kMinNumBuckets) [], lh_num_buckets = kMinNumBuckets,
                 lh_callback_depth = 0, lh_comp = cmp, lh_hash = hash\<rparr>)"

definition lh_num_items :: "'p LHASH \<Rightarrow> usize" where
  "lh_num_items lh = lh_num lh"

text \<open>
  \<open>get_next_ptr_and_hash\<close>: the hash, the bucket, the items in front of the pointer that is
  returned, and the chain that pointer points to.
\<close>

fun find_next :: "('p \<Rightarrow> 'p \<Rightarrow> int) \<Rightarrow> 'p \<Rightarrow> 'p LHASH_ITEM list \<Rightarrow> 'p LHASH_ITEM list \<times> 'p LHASH_ITEM list" where
  "find_next cmp dat [] = ([], [])"
| "find_next cmp dat (cur # rest) =
     (if cmp (it_data cur) dat = 0 then ([], cur # rest) else apfst ((#) cur) (find_next cmp dat rest))"

definition bucket_of :: "u32 \<Rightarrow> usize \<Rightarrow> nat" where
  "bucket_of hash num_buckets = unat (ucast hash mod num_buckets)"

definition get_next_ptr_and_hash ::
  "'p LHASH \<Rightarrow> 'p \<Rightarrow> u32 \<times> nat \<times> 'p LHASH_ITEM list \<times> 'p LHASH_ITEM list" where
  "get_next_ptr_and_hash lh dat =
     (let hash = lh_hash lh dat; i = bucket_of hash (lh_num_buckets lh)
      in (hash, i, find_next (lh_comp lh) dat (lh_buckets lh ! i)))"

definition lh_retrieve :: "'p LHASH \<Rightarrow> 'p \<Rightarrow> 'p option" where
  "lh_retrieve lh dat =
     (case get_next_ptr_and_hash lh dat of (_, _, _, next_ptr) \<Rightarrow>
        (case next_ptr of [] \<Rightarrow> None | item # _ \<Rightarrow> Some (it_data item)))"

text \<open>The two loops of \<open>lh_rebucket\<close>: each item goes to the front of its new chain.\<close>

definition move_item :: "usize \<Rightarrow> 'p LHASH_ITEM \<Rightarrow> 'p LHASH_ITEM list list \<Rightarrow> 'p LHASH_ITEM list list" where
  "move_item new_num_buckets cur new_buckets =
     (let new_bucket = bucket_of (it_hash cur) new_num_buckets
      in new_buckets[new_bucket := cur # new_buckets ! new_bucket])"

definition lh_rebucket :: "system_malloc \<Rightarrow> usize \<Rightarrow> 'p LHASH \<Rightarrow> 'p LHASH" where
  "lh_rebucket sys new_num_buckets lh =
     (let alloc_size = 8 * new_num_buckets
      in if alloc_size div 8 \<noteq> new_num_buckets then lh
         else if OPENSSL_malloc sys alloc_size = None then lh
         else lh\<lparr>lh_num_buckets := new_num_buckets,
                 lh_buckets := fold (fold (move_item new_num_buckets)) (lh_buckets lh)
                   (replicate (unat new_num_buckets) [])\<rparr>)"

definition lh_maybe_resize :: "system_malloc \<Rightarrow> 'p LHASH \<Rightarrow> 'p LHASH" where
  "lh_maybe_resize sys lh =
     (if lh_callback_depth lh > 0 then lh
      else
        let avg_chain_length = lh_num lh div lh_num_buckets lh
        in if avg_chain_length > kMaxAverageChainLength then
             let new_num_buckets = lh_num_buckets lh * 2
             in if new_num_buckets > lh_num_buckets lh then lh_rebucket sys new_num_buckets lh else lh
           else if avg_chain_length < kMinAverageChainLength \<and> lh_num_buckets lh > kMinNumBuckets then
             let new_num_buckets = lh_num_buckets lh div 2;
                 new_num_buckets = (if new_num_buckets < kMinNumBuckets then kMinNumBuckets else new_num_buckets)
             in lh_rebucket sys new_num_buckets lh
           else lh)"

text \<open>\<open>lh_insert\<close>: success, \<open>*old_data\<close> and the table.\<close>

definition lh_insert :: "system_malloc \<Rightarrow> 'p LHASH \<Rightarrow> 'p \<Rightarrow> bool \<times> 'p option \<times> 'p LHASH" where
  "lh_insert sys lh dat =
     (case get_next_ptr_and_hash lh dat of (hash, i, before, next_ptr) \<Rightarrow>
        (case next_ptr of
           item # rest \<Rightarrow>
             (True, Some (it_data item), lh\<lparr>lh_buckets := (lh_buckets lh)[i := before @ item\<lparr>it_data := dat\<rparr> # rest]\<rparr>)
         | [] \<Rightarrow>
             if OPENSSL_malloc sys 24 = None then (False, None, lh)
             else (True, None, lh_maybe_resize sys
               (lh\<lparr>lh_buckets := (lh_buckets lh)[i := before @ [\<lparr>it_data = dat, it_hash = hash\<rparr>]],
                   lh_num := lh_num lh + 1\<rparr>))))"

definition lh_delete :: "system_malloc \<Rightarrow> 'p LHASH \<Rightarrow> 'p \<Rightarrow> 'p option \<times> 'p LHASH" where
  "lh_delete sys lh dat =
     (case get_next_ptr_and_hash lh dat of (_, i, before, next_ptr) \<Rightarrow>
        (case next_ptr of
           [] \<Rightarrow> (None, lh)
         | item # rest \<Rightarrow>
             (Some (it_data item), lh_maybe_resize sys
               (lh\<lparr>lh_buckets := (lh_buckets lh)[i := before @ rest], lh_num := lh_num lh - 1\<rparr>))))"

definition lh_doall_internal :: "system_malloc \<Rightarrow> 'p LHASH option \<Rightarrow> ('p \<Rightarrow> 's \<Rightarrow> 's) \<Rightarrow> 's \<Rightarrow> 'p LHASH option \<times> 's" where
  "lh_doall_internal sys lh func s =
     (case lh of
        None \<Rightarrow> (None, s)
      | Some lh \<Rightarrow>
          let lh = (if lh_callback_depth lh < 0xffffffff then lh\<lparr>lh_callback_depth := lh_callback_depth lh + 1\<rparr> else lh);
              s = fold (fold (\<lambda>cur. func (it_data cur))) (lh_buckets lh) s;
              lh = (if lh_callback_depth lh < 0xffffffff then lh\<lparr>lh_callback_depth := lh_callback_depth lh - 1\<rparr> else lh)
          in (Some (lh_maybe_resize sys lh), s))"

definition lh_doall :: "system_malloc \<Rightarrow> 'p LHASH option \<Rightarrow> ('p \<Rightarrow> 's \<Rightarrow> 's) \<Rightarrow> 's \<Rightarrow> 'p LHASH option \<times> 's" where
  "lh_doall sys lh func s = lh_doall_internal sys lh func s"

definition lh_doall_arg :: "system_malloc \<Rightarrow> 'p LHASH option \<Rightarrow> ('p \<Rightarrow> 'a \<Rightarrow> 's \<Rightarrow> 's) \<Rightarrow> 'a \<Rightarrow> 's \<Rightarrow> 'p LHASH option \<times> 's" where
  "lh_doall_arg sys lh func arg s = lh_doall_internal sys lh (\<lambda>dat. func dat arg) s"

definition lh_strhash :: "bytes option \<Rightarrow> u32" where
  "lh_strhash c = (case c of None \<Rightarrow> 0 | Some c \<Rightarrow> OPENSSL_hash32 (take (strlen c) c))"

section \<open>Chains and buckets\<close>

lemma find_next_split:
  "find_next cmp dat chain = (before, next_ptr) \<Longrightarrow>
    chain = before @ next_ptr \<and> (\<forall>it \<in> set before. cmp (it_data it) dat \<noteq> 0) \<and>
    (next_ptr = [] \<or> cmp (it_data (hd next_ptr)) dat = 0)"
  by (induction chain arbitrary: before) (auto simp: apfst_def map_prod_def split: if_splits prod.splits)

lemma bucket_of_less: "n \<noteq> 0 \<Longrightarrow> bucket_of h n < unat n"
  by (simp add: bucket_of_def unat_mod_distrib unat_gt_0 [symmetric] del: unat_gt_0)

lemma mset_update:
  "i < length bs \<Longrightarrow> mset (concat (bs[i := c])) + mset (bs ! i) = mset (concat bs) + mset c"
  by (induction bs arbitrary: i) (auto split: nat.splits)

lemma fold_fold_concat: "fold (fold f) xss s = fold f (concat xss) s"
  by (induction xss arbitrary: s) auto

text \<open>Every item is in the bucket of its hash.\<close>

definition placed :: "usize \<Rightarrow> 'p LHASH_ITEM list list \<Rightarrow> bool" where
  "placed n bs \<longleftrightarrow> length bs = unat n \<and> (\<forall>i < length bs. \<forall>it \<in> set (bs ! i). bucket_of (it_hash it) n = i)"

lemma chain_placed: "placed n bs \<Longrightarrow> i < length bs \<Longrightarrow> \<forall>it \<in> set (bs ! i). bucket_of (it_hash it) n = i"
  by (simp add: placed_def)

lemma placed_update:
  "placed n bs \<Longrightarrow> \<forall>it \<in> set c. bucket_of (it_hash it) n = i \<Longrightarrow> placed n (bs[i := c])"
  unfolding placed_def by (metis length_list_update nth_list_update_eq nth_list_update_neq)

lemma move_item_placed:
  assumes "placed n bs" "n \<noteq> 0"
  shows "placed n (move_item n it bs)" "mset (concat (move_item n it bs)) = add_mset it (mset (concat bs))"
proof -
  have i: "bucket_of (it_hash it) n < length bs"
    using assms bucket_of_less by (simp add: placed_def)
  show "placed n (move_item n it bs)"
    using assms(1) i unfolding move_item_def Let_def by (intro placed_update) (auto simp: placed_def)
  show "mset (concat (move_item n it bs)) = add_mset it (mset (concat bs))"
    using mset_update [OF i, of "it # bs ! bucket_of (it_hash it) n"] by (simp add: move_item_def Let_def)
qed

lemma move_items:
  "placed n bs \<Longrightarrow> n \<noteq> 0 \<Longrightarrow>
    placed n (fold (move_item n) its bs) \<and> mset (concat (fold (move_item n) its bs)) = mset its + mset (concat bs)"
  by (induction its arbitrary: bs) (simp_all add: move_item_placed)

lemma rebuckets:
  assumes "n \<noteq> 0"
  shows "placed n (fold (fold (move_item n)) bs (replicate (unat n) []))"
    and "mset (concat (fold (fold (move_item n)) bs (replicate (unat n) []))) = mset (concat bs)"
proof -
  have "placed n (replicate (unat n) [])" "concat (replicate (unat n) []) = []"
    by (simp_all add: placed_def)
  note move_items [OF this(1) assms, of "concat bs"] this(2)
  then show "placed n (fold (fold (move_item n)) bs (replicate (unat n) []))"
    "mset (concat (fold (fold (move_item n)) bs (replicate (unat n) []))) = mset (concat bs)"
    by (simp_all add: fold_fold_concat)
qed

section \<open>What a table needs of its functions\<close>

locale hashing =
  fixes hash :: "'p \<Rightarrow> u32" and cmp :: "'p \<Rightarrow> 'p \<Rightarrow> int"
  assumes same_refl: "cmp a a = 0"
    and same_sym: "cmp a b = 0 \<Longrightarrow> cmp b a = 0"
    and same_trans: "cmp a b = 0 \<Longrightarrow> cmp b c = 0 \<Longrightarrow> cmp a c = 0"
    and same_hash: "cmp a b = 0 \<Longrightarrow> hash a = hash b"
begin

definition separate :: "'p LHASH_ITEM multiset \<Rightarrow> bool" where
  "separate M \<longleftrightarrow> (\<forall>a b. {#a, b#} \<subseteq># M \<longrightarrow> cmp (it_data a) (it_data b) \<noteq> 0)"

lemma separate_mono: "separate M \<Longrightarrow> N \<subseteq># M \<Longrightarrow> separate N"
  unfolding separate_def by (meson subset_mset.order_trans)

lemma separate_add:
  assumes "separate M" "\<forall>y \<in># M. cmp (it_data y) (it_data x) \<noteq> 0"
  shows "separate (add_mset x M)"
  unfolding separate_def
proof (intro allI impI)
  fix a b
  assume s: "{#a, b#} \<subseteq># add_mset x M"
  show "cmp (it_data a) (it_data b) \<noteq> 0"
  proof (cases "a = x \<or> b = x")
    case True
    then consider "a = x" "b \<in># M" | "b = x" "a \<in># M"
      using s by (auto simp: add_mset_commute [of _ x])
    then show ?thesis
      using assms(2) same_sym by cases blast+
  next
    case False
    then have "{#a, b#} \<subseteq># M"
    proof (intro mset_subset_eqI)
      fix y
      show "count {#a, b#} y \<le> count M y"
        using mset_subset_eq_count [OF s, of y] False by (auto split: if_splits)
    qed
    then show ?thesis
      using assms(1) by (simp add: separate_def)
  qed
qed

text \<open>The abstract table: the element that equals a key.\<close>

definition lookup :: "'p LHASH_ITEM list \<Rightarrow> 'p \<Rightarrow> 'p option" where
  "lookup its key = map_option it_data (find (\<lambda>it. cmp (it_data it) key = 0) its)"

lemma lookup_None: "lookup its key = None \<longleftrightarrow> (\<forall>it \<in> set its. cmp (it_data it) key \<noteq> 0)"
  by (auto simp: lookup_def find_None_iff)

lemma separate_unique:
  assumes "separate (mset its)" "a \<in> set its" "b \<in> set its" "cmp (it_data a) (it_data b) = 0"
  shows "a = b"
proof (rule ccontr)
  assume "a \<noteq> b"
  then have "{#a, b#} \<subseteq># mset its"
    using assms(2,3) by (simp add: insert_subset_eq_iff in_diff_count)
  then show False
    using assms(1,4) by (simp add: separate_def)
qed

lemma lookup_SomeD: "lookup its key = Some x \<Longrightarrow> \<exists>it \<in> set its. it_data it = x \<and> cmp x key = 0"
  by (auto simp: lookup_def find_Some_iff)

lemma lookup_Some:
  assumes "separate (mset its)"
  shows "lookup its key = Some x \<longleftrightarrow> (\<exists>it \<in> set its. it_data it = x \<and> cmp x key = 0)"
proof
  assume "lookup its key = Some x"
  then show "\<exists>it \<in> set its. it_data it = x \<and> cmp x key = 0"
    by (rule lookup_SomeD)
next
  assume "\<exists>it \<in> set its. it_data it = x \<and> cmp x key = 0"
  then obtain it where it: "it \<in> set its" "it_data it = x" "cmp x key = 0"
    by blast
  then obtain y where "lookup its key = Some y"
    using lookup_None [of its key] by (cases "lookup its key") auto
  moreover from this obtain it' where it': "it' \<in> set its" "it_data it' = y" "cmp y key = 0"
    using lookup_SomeD by blast
  ultimately show "lookup its key = Some x"
    using separate_unique [OF assms it(1) it'(1)] same_trans same_sym it it' by metis
qed

lemma lookup_mset_cong: "separate (mset its) \<Longrightarrow> mset its = mset its' \<Longrightarrow> lookup its = lookup its'"
proof
  fix key
  assume a: "separate (mset its)" "mset its = mset its'"
  then show "lookup its key = lookup its' key"
    using lookup_Some [of its key] lookup_Some [of its' key] mset_eq_setD [OF a(2)] lookup_None [of its key] lookup_None [of its' key]
    by (cases "lookup its key"; cases "lookup its' key") auto
qed

section \<open>The invariant\<close>

definition items :: "'p LHASH \<Rightarrow> 'p LHASH_ITEM list" where
  "items lh = concat (lh_buckets lh)"

definition table_ok :: "'p LHASH \<Rightarrow> bool" where
  "table_ok lh \<longleftrightarrow> lh_comp lh = cmp \<and> lh_hash lh = hash \<and> 16 \<le> lh_num_buckets lh \<and>
     placed (lh_num_buckets lh) (lh_buckets lh) \<and> (\<forall>it \<in> set (items lh). it_hash it = hash (it_data it)) \<and>
     separate (mset (items lh)) \<and> lh_num lh = of_nat (length (items lh))"

lemma table_okD:
  assumes "table_ok lh"
  shows "lh_comp lh = cmp" "lh_hash lh = hash" "16 \<le> lh_num_buckets lh" "placed (lh_num_buckets lh) (lh_buckets lh)"
    "\<forall>it \<in> set (items lh). it_hash it = hash (it_data it)" "separate (mset (items lh))" "lh_num lh = of_nat (length (items lh))"
  using assms by (simp_all add: table_ok_def)

lemma get_next:
  assumes "table_ok lh" "get_next_ptr_and_hash lh dat = (h, i, before, next_ptr)"
  shows "h = hash dat" "i = bucket_of h (lh_num_buckets lh)" "i < length (lh_buckets lh)" "lh_buckets lh ! i = before @ next_ptr"
    "lookup (items lh) dat = (case next_ptr of [] \<Rightarrow> None | it # _ \<Rightarrow> Some (it_data it))"
    "next_ptr = [] \<or> cmp (it_data (hd next_ptr)) dat = 0"
proof -
  note ok = table_okD [OF assms(1)]
  show h: "h = hash dat" and i: "i = bucket_of h (lh_num_buckets lh)"
    using assms(2) ok by (auto simp: get_next_ptr_and_hash_def Let_def)
  have fn: "find_next cmp dat (lh_buckets lh ! i) = (before, next_ptr)"
    using assms(2) ok by (auto simp: get_next_ptr_and_hash_def Let_def)
  note split = find_next_split [OF fn]
  then show "lh_buckets lh ! i = before @ next_ptr" and hd: "next_ptr = [] \<or> cmp (it_data (hd next_ptr)) dat = 0"
    by auto
  have "lh_num_buckets lh \<noteq> 0"
    using ok(3) by (auto simp: word_le_nat_alt)
  then show il: "i < length (lh_buckets lh)"
    using bucket_of_less ok(4) by (simp add: i placed_def)
  show "lookup (items lh) dat = (case next_ptr of [] \<Rightarrow> None | it # _ \<Rightarrow> Some (it_data it))"
  proof (cases next_ptr)
    case Nil
    have "cmp (it_data it) dat \<noteq> 0" if it: "it \<in> set (items lh)" for it
    proof
      assume c: "cmp (it_data it) dat = 0"
      obtain j where j: "j < length (lh_buckets lh)" "it \<in> set (lh_buckets lh ! j)"
        using it unfolding items_def set_concat UN_iff by (metis in_set_conv_nth)
      have "it_hash it = h"
        using ok(5) it same_hash [OF c] h by simp
      then have "j = i"
        using ok(4) j i by (auto simp: placed_def)
      then show False
        using j split c Nil by auto
    qed
    then show ?thesis
      using Nil by (simp add: lookup_None)
  next
    case (Cons it rest)
    have "it \<in> set (lh_buckets lh ! i)"
      using split Cons by simp
    then have "it \<in> set (items lh)"
      using nth_mem [OF il] unfolding items_def by auto
    then show ?thesis
      using lookup_Some [OF ok(6), of dat "it_data it"] hd Cons by auto
  qed
qed

lemma rebucket_ok:
  assumes "table_ok lh" "16 \<le> n"
  shows "table_ok (lh_rebucket sys n lh) \<and> mset (items (lh_rebucket sys n lh)) = mset (items lh)"
proof -
  have n: "n \<noteq> 0"
    using assms(2) by (auto simp: word_le_nat_alt)
  define bs where "bs = fold (fold (move_item n)) (lh_buckets lh) (replicate (unat n) [])"
  have bs: "placed n bs" "mset (concat bs) = mset (items lh)"
    using rebuckets [OF n] by (simp_all add: bs_def items_def)
  then have "set (concat bs) = set (items lh)" "length (concat bs) = length (items lh)"
    using mset_eq_setD mset_eq_length by blast+
  then have "table_ok (lh\<lparr>lh_num_buckets := n, lh_buckets := bs\<rparr>)"
    using assms bs by (simp add: table_ok_def items_def [of "lh\<lparr>lh_num_buckets := n, lh_buckets := bs\<rparr>"])
  then show ?thesis
    using assms(1) bs(2) by (simp add: lh_rebucket_def Let_def items_def flip: bs_def)
qed

lemma maybe_resize_ok:
  assumes "table_ok lh"
  shows "table_ok (lh_maybe_resize sys lh) \<and> mset (items (lh_maybe_resize sys lh)) = mset (items lh)"
proof -
  have "16 \<le> lh_num_buckets lh * 2" if "lh_num_buckets lh < lh_num_buckets lh * 2"
    using that table_okD(3) [OF assms] by (meson order.strict_implies_order order.trans)
  then show ?thesis
    using assms rebucket_ok [OF assms] by (auto simp: lh_maybe_resize_def Let_def kMinNumBuckets_def not_less)
qed

lemma resize_lookup:
  assumes "table_ok lh"
  shows "table_ok (lh_maybe_resize sys lh)" "lookup (items (lh_maybe_resize sys lh)) = lookup (items lh)"
    "length (items (lh_maybe_resize sys lh)) = length (items lh)"
  using maybe_resize_ok [OF assms, of sys] table_okD(6) [OF assms] lookup_mset_cong mset_eq_length by metis+

lemma lookup_Cons: "lookup (x # its) key = (if cmp (it_data x) key = 0 then Some (it_data x) else lookup its key)"
  by (simp add: lookup_def)

section \<open>The operations on the abstract table\<close>

lemma retrieve_lookup: "table_ok lh \<Longrightarrow> lh_retrieve lh key = lookup (items lh) key"
  using get_next(5) [of lh key] by (cases "get_next_ptr_and_hash lh key") (auto simp: lh_retrieve_def)

lemma delete_ok:
  assumes "table_ok lh" "lh_delete sys lh dat = (r, lh')"
  shows "table_ok lh' \<and> r = lookup (items lh) dat \<and> length (items lh') \<le> length (items lh) \<and>
    lookup (items lh') = (\<lambda>key. if cmp dat key = 0 then None else lookup (items lh) key)"
proof -
  obtain h i before next_ptr where g: "get_next_ptr_and_hash lh dat = (h, i, before, next_ptr)"
    by (metis prod_cases4)
  note nx = get_next [OF assms(1) g] and ok = table_okD [OF assms(1)]
  show ?thesis
  proof (cases next_ptr)
    case Nil
    then have none: "lookup (items lh) dat = None"
      using nx(5) by simp
    have "lookup (items lh) key = None" if "cmp dat key = 0" for key
      using none same_trans [OF _ same_sym [OF that]] unfolding lookup_None by blast
    moreover have "r = None" "lh' = lh"
      using assms(2) g Nil by (simp_all add: lh_delete_def)
    ultimately show ?thesis
      using assms(1) none by auto
  next
    case (Cons it rest)
    define lh1 where "lh1 = lh\<lparr>lh_buckets := (lh_buckets lh)[i := before @ rest], lh_num := lh_num lh - 1\<rparr>"
    have r: "r = Some (it_data it)" "lh' = lh_maybe_resize sys lh1"
      using assms(2) g Cons by (simp_all add: lh_delete_def lh1_def)
    have m: "mset (items lh) = add_mset it (mset (items lh1))"
      using mset_update [OF nx(3), of "before @ rest"] nx(4) Cons by (simp add: items_def lh1_def)
    have sep: "separate (mset (it # items lh1))"
      using ok(6) m by simp
    have len: "length (items lh) = Suc (length (items lh1))"
      using arg_cong [OF m, of size] by simp
    moreover have "set (items lh1) \<subseteq> set (items lh)"
      using arg_cong [OF m, of set_mset] by auto
    moreover have "\<forall>x \<in> set (before @ rest). bucket_of (it_hash x) (lh_num_buckets lh) = i"
      using chain_placed [OF ok(4) nx(3)] nx(4) Cons by simp
    then have "placed (lh_num_buckets lh1) (lh_buckets lh1)"
      using placed_update [OF ok(4)] by (simp add: lh1_def)
    moreover have "separate (mset (items lh1))"
      using separate_mono [OF sep] by simp
    moreover have "\<forall>x \<in> set (items lh1). it_hash x = hash (it_data x)"
      using calculation(2) ok(5) by blast
    moreover have "lh_num lh1 = lh_num lh - 1" "lh_comp lh1 = cmp" "lh_hash lh1 = hash" "lh_num_buckets lh1 = lh_num_buckets lh"
      using ok by (simp_all add: lh1_def)
    ultimately have "table_ok lh1"
      unfolding table_ok_def using ok(3,7) by simp
    note res = resize_lookup [OF this, of sys]
    have look: "lookup (items lh) = lookup (it # items lh1)"
      using lookup_mset_cong [OF ok(6)] m by simp
    have eq: "cmp (it_data it) dat = 0"
      using nx(6) Cons by simp
    have "lookup (items lh1) key = (if cmp dat key = 0 then None else lookup (items lh) key)" for key
    proof (cases "cmp dat key = 0")
      case True
      have "cmp (it_data y) key \<noteq> 0" if y: "y \<in> set (items lh1)" for y
      proof
        assume "cmp (it_data y) key = 0"
        then have "cmp (it_data it) (it_data y) = 0"
          using same_trans [OF same_trans [OF eq True]] same_sym by blast
        moreover have "{#it, y#} \<subseteq># mset (it # items lh1)"
          using y by simp
        ultimately show False
          using sep by (simp only: separate_def)
      qed
      then show ?thesis
        using True by (simp add: lookup_None)
    next
      case False
      then have "cmp (it_data it) key \<noteq> 0"
        using same_trans [OF same_sym [OF eq]] by blast
      then show ?thesis
        using False by (simp add: look lookup_Cons)
    qed
    then show ?thesis
      using res r nx(5) Cons len by auto
  qed
qed

lemma insert_ok:
  assumes "table_ok lh" "lh_insert sys lh dat = (ok, old, lh')"
  shows "table_ok lh' \<and> old = lookup (items lh) dat \<and> (ok \<longleftrightarrow> old \<noteq> None \<or> OPENSSL_malloc sys 24 \<noteq> None) \<and>
    length (items lh') \<le> Suc (length (items lh)) \<and>
    lookup (items lh') = (\<lambda>key. if ok \<and> cmp dat key = 0 then Some dat else lookup (items lh) key)"
proof -
  obtain h i before next_ptr where g: "get_next_ptr_and_hash lh dat = (h, i, before, next_ptr)"
    by (metis prod_cases4)
  note nx = get_next [OF assms(1) g] and inv = table_okD [OF assms(1)]
  note chain = chain_placed [OF inv(4) nx(3)]
  show ?thesis
  proof (cases next_ptr)
    case Nil
    then have none: "lookup (items lh) dat = None"
      using nx(5) by simp
    show ?thesis
    proof (cases "OPENSSL_malloc sys 24 = None")
      case True
      then show ?thesis
        using assms g Nil none by (auto simp: lh_insert_def)
    next
      case False
      define x where "x = \<lparr>it_data = dat, it_hash = h\<rparr>"
      define lh1 where "lh1 = lh\<lparr>lh_buckets := (lh_buckets lh)[i := before @ [x]], lh_num := lh_num lh + 1\<rparr>"
      have r: "ok" "old = None" "lh' = lh_maybe_resize sys lh1"
        using assms(2) g Nil False by (simp_all add: lh_insert_def lh1_def x_def)
      have m: "mset (items lh1) = mset (x # items lh)"
        using mset_update [OF nx(3), of "before @ [x]"] nx(4) Nil by (simp add: items_def lh1_def)
      have sep: "separate (mset (items lh1))"
        unfolding m mset.simps using none inv(6) by (intro separate_add) (auto simp: lookup_None x_def)
      have len: "length (items lh1) = Suc (length (items lh))"
        using arg_cong [OF m, of size] by simp
      moreover have "set (items lh1) = insert x (set (items lh))"
        using arg_cong [OF m, of set_mset] by simp
      then have "\<forall>y \<in> set (items lh1). it_hash y = hash (it_data y)"
        using inv(5) nx(1) by (simp add: x_def)
      moreover have "\<forall>y \<in> set (before @ [x]). bucket_of (it_hash y) (lh_num_buckets lh) = i"
        using chain nx(2,4) Nil by (simp add: x_def)
      then have "placed (lh_num_buckets lh1) (lh_buckets lh1)"
        using placed_update [OF inv(4)] by (simp add: lh1_def)
      moreover have "lh_num lh1 = lh_num lh + 1" "lh_comp lh1 = cmp" "lh_hash lh1 = hash" "lh_num_buckets lh1 = lh_num_buckets lh"
        using inv by (simp_all add: lh1_def)
      ultimately have "table_ok lh1"
        unfolding table_ok_def using inv(3,7) sep by simp
      note res = resize_lookup [OF this, of sys]
      have "lookup (items lh1) = lookup (x # items lh)"
        using lookup_mset_cong [OF sep m] .
      then show ?thesis
        using res r none False len by (auto simp: lookup_Cons x_def)
    qed
  next
    case (Cons it rest)
    define x where "x = it\<lparr>it_data := dat\<rparr>"
    define lh1 where "lh1 = lh\<lparr>lh_buckets := (lh_buckets lh)[i := before @ x # rest]\<rparr>"
    define others where "others = concat ((lh_buckets lh)[i := before @ rest])"
    have r: "ok" "old = Some (it_data it)" "lh' = lh1"
      using assms(2) g Cons by (simp_all add: lh_insert_def lh1_def x_def)
    have m1: "mset (items lh) = mset (it # others)"
      using mset_update [OF nx(3), of "before @ rest"] nx(4) Cons by (simp add: items_def others_def)
    moreover have "add_mset it (mset (items lh1)) = add_mset x (mset (items lh))"
      using mset_update [OF nx(3), of "before @ x # rest"] nx(4) Cons by (simp add: items_def lh1_def)
    ultimately have "mset (items lh1) = mset (x # others)"
      by (simp add: add_mset_commute [of x])
    note m = m1 this
    have eq: "cmp (it_data it) dat = 0"
      using nx(6) Cons by simp
    have apart: "cmp (it_data y) (it_data it) \<noteq> 0" if "y \<in> set others" for y
    proof -
      have "{#y, it#} \<subseteq># mset (it # others)"
        using that by (simp add: add_mset_commute [of y])
      then show ?thesis
        using inv(6) m(1) unfolding separate_def by metis
    qed
    have "separate (mset others)"
      using separate_mono [OF inv(6)] m(1) by simp
    moreover have "cmp (it_data y) (it_data x) \<noteq> 0" if "y \<in> set others" for y
      using apart [OF that] same_trans [OF _ same_sym [OF eq]] by (auto simp: x_def)
    ultimately have sep: "separate (mset (items lh1))"
      unfolding m mset.simps by (intro separate_add) auto
    have "it \<in> set (items lh)"
      using arg_cong [OF m(1), of set_mset] by simp
    then have hx: "it_hash x = hash (it_data x)"
      using inv(5) same_hash [OF eq] by (simp add: x_def)
    have "set (items lh1) \<subseteq> insert x (set (items lh))"
      using arg_cong [OF m(1), of set_mset] arg_cong [OF m(2), of set_mset] by auto
    then have "\<forall>y \<in> set (items lh1). it_hash y = hash (it_data y)"
      using inv(5) hx by blast
    moreover have "\<forall>y \<in> set (before @ x # rest). bucket_of (it_hash y) (lh_num_buckets lh) = i"
      using chain nx(4) Cons by (simp add: x_def)
    then have "placed (lh_num_buckets lh1) (lh_buckets lh1)"
      using placed_update [OF inv(4)] by (simp add: lh1_def)
    moreover have len: "length (items lh1) = length (items lh)"
      using arg_cong [OF m(1), of size] arg_cong [OF m(2), of size] by simp
    moreover have "lh_num lh1 = lh_num lh" "lh_comp lh1 = cmp" "lh_hash lh1 = hash" "lh_num_buckets lh1 = lh_num_buckets lh"
      using inv by (simp_all add: lh1_def)
    ultimately have ok1: "table_ok lh1"
      unfolding table_ok_def using inv(3,7) sep by simp
    have "lookup (items lh) = lookup (it # others)" "lookup (items lh1) = lookup (x # others)"
      using lookup_mset_cong [OF inv(6) m(1)] lookup_mset_cong [OF sep m(2)] .
    moreover have "cmp (it_data it) key = 0 \<longleftrightarrow> cmp dat key = 0" for key
      using same_trans [OF eq] same_trans [OF same_sym [OF eq]] by blast
    ultimately have "lookup (items lh1) = (\<lambda>key. if cmp dat key = 0 then Some dat else lookup (items lh) key)"
      by (auto simp: lookup_Cons x_def)
    then show ?thesis
      using ok1 r nx(5) Cons len by auto
  qed
qed

lemma new_ok: "lh_new sys hash cmp = Some lh \<Longrightarrow> table_ok lh \<and> items lh = [] \<and> lh_callback_depth lh = 0"
  by (auto simp: lh_new_def table_ok_def items_def placed_def kMinNumBuckets_def separate_def split: if_splits)

end

section \<open>Programs of operations against maps\<close>

datatype 'p lh_op = Lh_insert 'p | Lh_delete 'p | Lh_retrieve 'p

datatype 'p lh_out = Inserted bool "'p option" | Found "'p option"

fun lh_step :: "system_malloc \<Rightarrow> 'p lh_op \<Rightarrow> 'p LHASH \<Rightarrow> 'p lh_out \<times> 'p LHASH" where
  "lh_step sys (Lh_insert x) lh = (case lh_insert sys lh x of (ok, old, lh) \<Rightarrow> (Inserted ok old, lh))"
| "lh_step sys (Lh_delete x) lh = apfst Found (lh_delete sys lh x)"
| "lh_step sys (Lh_retrieve x) lh = (Found (lh_retrieve lh x), lh)"

fun lh_run :: "system_malloc \<Rightarrow> 'p lh_op list \<Rightarrow> 'p LHASH \<Rightarrow> 'p lh_out list \<times> 'p LHASH" where
  "lh_run sys [] lh = ([], lh)"
| "lh_run sys (op # ops) lh = (case lh_step sys op lh of (out, lh) \<Rightarrow> apfst ((#) out) (lh_run sys ops lh))"

text \<open>
  The same operations on a map that gives all equal keys the same element.  Inserting a new key
  fails when there is no memory for its item, whatever happens to the buckets.
\<close>

fun map_step :: "bool \<Rightarrow> ('p \<Rightarrow> 'p \<Rightarrow> int) \<Rightarrow> 'p lh_op \<Rightarrow> ('p \<rightharpoonup> 'p) \<Rightarrow> 'p lh_out \<times> ('p \<rightharpoonup> 'p)" where
  "map_step avail cmp (Lh_insert x) m =
     (if m x = None \<and> \<not> avail then (Inserted False None, m)
      else (Inserted True (m x), \<lambda>key. if cmp x key = 0 then Some x else m key))"
| "map_step avail cmp (Lh_delete x) m = (Found (m x), \<lambda>key. if cmp x key = 0 then None else m key)"
| "map_step avail cmp (Lh_retrieve x) m = (Found (m x), m)"

fun map_run :: "bool \<Rightarrow> ('p \<Rightarrow> 'p \<Rightarrow> int) \<Rightarrow> 'p lh_op list \<Rightarrow> ('p \<rightharpoonup> 'p) \<Rightarrow> 'p lh_out list \<times> ('p \<rightharpoonup> 'p)" where
  "map_run avail cmp [] m = ([], m)"
| "map_run avail cmp (op # ops) m = (case map_step avail cmp op m of (out, m) \<Rightarrow> apfst ((#) out) (map_run avail cmp ops m))"

context hashing
begin

lemma lh_step_refines:
  assumes "table_ok lh"
  shows "table_ok (snd (lh_step sys op lh)) \<and>
    map_step (OPENSSL_malloc sys 24 \<noteq> None) cmp op (lookup (items lh)) =
      (fst (lh_step sys op lh), lookup (items (snd (lh_step sys op lh))))"
proof (cases op)
  case (Lh_insert x)
  obtain ok old lh' where i: "lh_insert sys lh x = (ok, old, lh')"
    by (metis prod_cases3)
  show ?thesis
    using insert_ok [OF assms i] Lh_insert i by auto
next
  case (Lh_delete x)
  obtain r lh' where d: "lh_delete sys lh x = (r, lh')"
    by force
  show ?thesis
    using delete_ok [OF assms d] Lh_delete d by auto
next
  case (Lh_retrieve x)
  then show ?thesis
    using assms retrieve_lookup [OF assms] by simp
qed

lemma lh_run_refines:
  "table_ok lh \<Longrightarrow>
    table_ok (snd (lh_run sys ops lh)) \<and>
    map_run (OPENSSL_malloc sys 24 \<noteq> None) cmp ops (lookup (items lh)) =
      (fst (lh_run sys ops lh), lookup (items (snd (lh_run sys ops lh))))"
proof (induction ops arbitrary: lh)
  case (Cons op ops)
  obtain out lh1 where s: "lh_step sys op lh = (out, lh1)"
    by force
  show ?case
    using lh_step_refines [OF Cons.prems, of sys op] Cons.IH [of lh1] s by (simp add: split_beta)
qed simp

lemma run_from_new:
  assumes "lh_new sys hash cmp = Some lh"
  shows "fst (lh_run sys ops lh) = fst (map_run (OPENSSL_malloc sys 24 \<noteq> None) cmp ops (\<lambda>_. None))"
    "lh_retrieve (snd (lh_run sys ops lh)) = snd (map_run (OPENSSL_malloc sys 24 \<noteq> None) cmp ops (\<lambda>_. None))"
proof -
  note new = new_ok [OF assms]
  have "lookup (items lh) = (\<lambda>_. None)"
    using new by (simp add: fun_eq_iff lookup_None)
  note run = lh_run_refines [OF conjunct1 [OF new], of sys ops, unfolded this]
  then show "fst (lh_run sys ops lh) = fst (map_run (OPENSSL_malloc sys 24 \<noteq> None) cmp ops (\<lambda>_. None))"
    "lh_retrieve (snd (lh_run sys ops lh)) = snd (map_run (OPENSSL_malloc sys 24 \<noteq> None) cmp ops (\<lambda>_. None))"
    using retrieve_lookup [OF conjunct1 [OF run]] by (simp_all add: fun_eq_iff)
qed

end

section \<open>Strings as keys\<close>

text \<open>\<open>strcmp\<close> of C strings: the first characters that differ, as \<open>unsigned char\<close>.\<close>

definition first_char :: "bytes \<Rightarrow> u8" where
  "first_char s = (case s of [] \<Rightarrow> 0 | c # _ \<Rightarrow> c)"

function c_strcmp :: "bytes \<Rightarrow> bytes \<Rightarrow> int" where
  "c_strcmp a b =
     (if first_char a \<noteq> first_char b then uint (first_char a) - uint (first_char b)
      else if first_char a = 0 then 0 else c_strcmp (tl a) (tl b))"
  by auto

termination
  by (relation "measure (\<lambda>(a, b). length a)") (auto simp: first_char_def split: list.splits)

declare c_strcmp.simps [simp del]

abbreviation c_string :: "bytes \<Rightarrow> bytes" where
  "c_string \<equiv> takeWhile (\<lambda>c. c \<noteq> 0)"

lemma c_string_first: "c_string s = (if first_char s = 0 then [] else first_char s # c_string (tl s))"
  by (cases s) (auto simp: first_char_def)

lemma c_strcmp_zero: "c_strcmp a b = 0 \<longleftrightarrow> c_string a = c_string b"
proof (induction a b rule: c_strcmp.induct)
  case (1 a b)
  show ?case
    using 1 by (subst c_strcmp.simps, subst c_string_first [of a], subst c_string_first [of b])
      (auto simp: uint_0_iff simp flip: word_uint_eq_iff)
qed

lemma strhash_c_string: "lh_strhash (Some c) = OPENSSL_hash32 (c_string c)"
  by (simp add: lh_strhash_def strlen_def takeWhile_eq_take [symmetric])

interpretation str: hashing "\<lambda>c. lh_strhash (Some c)" c_strcmp
  by unfold_locales (simp_all add: c_strcmp_zero strhash_c_string)

section \<open>A hash table is a map\<close>

text \<open>
  Claim C7: for every hash function that gives equal keys equal hashes, every program of insertions,
  deletions and look-ups on a new table answers as it does on an empty map, and leaves the
  table with the contents of that map, however the buckets are resized and whether or not there
  is memory for resizing.
\<close>

theorem lh_run_map:
  assumes "hashing hash cmp" "lh_new sys hash cmp = Some lh"
  shows "fst (lh_run sys ops lh) = fst (map_run (OPENSSL_malloc sys 24 \<noteq> None) cmp ops (\<lambda>_. None)) \<and>
    lh_retrieve (snd (lh_run sys ops lh)) = snd (map_run (OPENSSL_malloc sys 24 \<noteq> None) cmp ops (\<lambda>_. None))"
  using hashing.run_from_new [OF assms] by blast

lemma lh_run_map_witness:
  "\<exists>lh. lh_new (\<lambda>_. Some (\<lambda>_. 0)) (\<lambda>c. lh_strhash (Some c)) c_strcmp = Some lh \<and>
    fst (lh_run (\<lambda>_. Some (\<lambda>_. 0)) [Lh_insert [97, 0, 1], Lh_insert [97], Lh_retrieve [97, 0, 2], Lh_delete [97], Lh_retrieve [97]] lh) =
      [Inserted True None, Inserted True (Some [97, 0, 1]), Found (Some [97]), Found (Some [97]), Found None]"
proof -
  let ?sys = "\<lambda>_. Some (\<lambda>_. 0) :: (nat \<Rightarrow> u8) option"
  obtain lh where lh: "lh_new ?sys (\<lambda>c. lh_strhash (Some c)) c_strcmp = Some lh"
    by (simp add: lh_new_def OPENSSL_malloc_def)
  then show ?thesis
    using lh_run_map [OF str.hashing_axioms lh, of "[Lh_insert [97, 0, 1], Lh_insert [97], Lh_retrieve [97, 0, 2], Lh_delete [97], Lh_retrieve [97]]"]
    by (simp add: OPENSSL_malloc_def c_strcmp_zero)
qed

section \<open>The length of the chains\<close>

text \<open>The table is full to at most three items for each bucket, and small or full to at least one.\<close>

definition load_ok :: "'p LHASH \<Rightarrow> bool" where
  "load_ok lh \<longleftrightarrow> unat (lh_num lh) < 3 * unat (lh_num_buckets lh) \<and>
     (lh_num_buckets lh = 16 \<or> unat (lh_num_buckets lh) \<le> unat (lh_num lh))"

definition grants :: "system_malloc \<Rightarrow> bool" where
  "grants sys \<longleftrightarrow> (\<forall>n. unat n < 2 ^ 62 \<longrightarrow> OPENSSL_malloc sys n \<noteq> None)"

lemma rebucket_num:
  assumes "grants sys" "unat n < 2 ^ 58"
  shows "lh_num (lh_rebucket sys n lh) = lh_num lh" "lh_num_buckets (lh_rebucket sys n lh) = n"
proof -
  have u: "unat (8 * n) = 8 * unat n"
    using assms(2) by (simp add: unat_word_ariths)
  then have "8 * n div 8 = n" "OPENSSL_malloc sys (8 * n) \<noteq> None"
    using assms by (simp_all add: word_unat_eq_iff unat_div_distrib grants_def)
  then show "lh_num (lh_rebucket sys n lh) = lh_num lh" "lh_num_buckets (lh_rebucket sys n lh) = n"
    by (auto simp: lh_rebucket_def)
qed

lemma maybe_resize_load:
  assumes "grants sys" "lh_callback_depth lh = 0" "unat (lh_num lh) < 2 ^ 56" "16 \<le> lh_num_buckets lh"
    and "unat (lh_num lh) \<le> 3 * unat (lh_num_buckets lh)"
    and "lh_num_buckets lh = 16 \<or> unat (lh_num_buckets lh) \<le> unat (lh_num lh) + 1"
  shows "load_ok (lh_maybe_resize sys lh) \<and> lh_num (lh_maybe_resize sys lh) = lh_num lh"
proof -
  define n where "n = unat (lh_num lh)"
  define b where "b = unat (lh_num_buckets lh)"
  have b: "16 \<le> b" "b < 2 ^ 57" "n \<le> 3 * b" "b = 16 \<or> b \<le> n + 1" "n < 2 ^ 56"
    using assms(3-6) by (auto simp: b_def n_def word_le_nat_alt)
  have avg: "unat (lh_num lh div lh_num_buckets lh) = n div b"
    by (simp add: unat_div_distrib n_def b_def)
  have twice: "unat (lh_num_buckets lh * 2) = 2 * b" and half: "unat (lh_num_buckets lh div 2) = b div 2"
    using b by (simp_all add: b_def unat_word_ariths unat_div_distrib)
  consider (grow) "n = 3 * b" | (shrink) "n < b" "16 < b" | (stay) "n < 3 * b" "b \<le> n \<or> b = 16"
    using b by linarith
  then show ?thesis
  proof cases
    case grow
    then have "n div b = 3"
      using b by simp
    then have "lh_maybe_resize sys lh = lh_rebucket sys (lh_num_buckets lh * 2) lh"
      using assms(2) avg twice b by (simp add: lh_maybe_resize_def Let_def kMaxAverageChainLength_def word_less_nat_alt flip: b_def)
    then show ?thesis
      using rebucket_num [OF assms(1), of "lh_num_buckets lh * 2" lh] twice b grow by (simp add: load_ok_def flip: n_def)
  next
    case shrink
    define m where "m = (if lh_num_buckets lh div 2 < 16 then 16 else lh_num_buckets lh div 2)"
    have m: "unat m = max 16 (b div 2)"
      using half by (auto simp: m_def word_less_nat_alt max_def)
    have "n div b = 0"
      using shrink by simp
    then have "lh_maybe_resize sys lh = lh_rebucket sys m lh"
      using assms(2) avg shrink
      by (simp add: lh_maybe_resize_def Let_def kMaxAverageChainLength_def kMinAverageChainLength_def kMinNumBuckets_def
          word_less_nat_alt m_def flip: b_def)
    then show ?thesis
      using rebucket_num [OF assms(1), of m lh] m b shrink by (auto simp: load_ok_def word_unat_eq_iff simp flip: n_def)
  next
    case stay
    have "n div b < 3"
      using stay(1) b by (simp add: div_less_iff_less_mult mult.commute)
    moreover have "\<not> (n div b < 1 \<and> 16 < b)"
      using stay(2) b by (auto simp: div_eq_0_iff)
    ultimately have "lh_maybe_resize sys lh = lh"
      using avg
      by (auto simp: lh_maybe_resize_def Let_def kMaxAverageChainLength_def kMinAverageChainLength_def kMinNumBuckets_def
          word_less_nat_alt simp flip: b_def)
    then show ?thesis
      using stay by (auto simp: load_ok_def n_def b_def word_unat_eq_iff)
  qed
qed

lemma resize_depth [simp]: "lh_callback_depth (lh_maybe_resize sys lh) = lh_callback_depth lh"
  by (simp add: lh_maybe_resize_def lh_rebucket_def Let_def)

text \<open>A step changes the number of items by one and then resizes, or keeps it.\<close>

definition stepped :: "system_malloc \<Rightarrow> 'p LHASH \<Rightarrow> 'p LHASH \<Rightarrow> bool" where
  "stepped sys lh lh' \<longleftrightarrow>
     (lh_num lh' = lh_num lh \<and> lh_num_buckets lh' = lh_num_buckets lh \<and> lh_callback_depth lh' = lh_callback_depth lh) \<or>
     (\<exists>lh1. lh' = lh_maybe_resize sys lh1 \<and> lh_num_buckets lh1 = lh_num_buckets lh \<and>
        lh_callback_depth lh1 = lh_callback_depth lh \<and>
        (lh_num lh1 = lh_num lh + 1 \<or> lh_num lh \<noteq> 0 \<and> lh_num lh1 = lh_num lh - 1))"

lemma stepped_load:
  assumes "stepped sys lh lh'" "grants sys" "load_ok lh" "lh_callback_depth lh = 0" "16 \<le> lh_num_buckets lh"
    and "unat (lh_num lh) < 2 ^ 56 - 1"
  shows "load_ok lh' \<and> lh_callback_depth lh' = 0 \<and> unat (lh_num lh') \<le> unat (lh_num lh) + 1"
proof -
  consider (same) "lh_num lh' = lh_num lh" "lh_num_buckets lh' = lh_num_buckets lh" "lh_callback_depth lh' = lh_callback_depth lh"
    | (resized) lh1 where "lh' = lh_maybe_resize sys lh1" "lh_num_buckets lh1 = lh_num_buckets lh"
      "lh_callback_depth lh1 = lh_callback_depth lh" "lh_num lh1 = lh_num lh + 1 \<or> lh_num lh \<noteq> 0 \<and> lh_num lh1 = lh_num lh - 1"
    using assms(1) unfolding stepped_def by blast
  then show ?thesis
  proof cases
    case same
    then show ?thesis
      using assms(3,4) by (simp add: load_ok_def)
  next
    case resized
    define n where "n = unat (lh_num lh)"
    have "unat (lh_num lh1) = n + 1 \<or> 0 < n \<and> unat (lh_num lh1) = n - 1"
      using resized(4) assms(6) unat_sub [of 1 "lh_num lh"] unat_gt_0 [of "lh_num lh"]
      by (auto simp: n_def unat_word_ariths word_le_nat_alt Suc_le_eq)
    then have n: "unat (lh_num lh1) \<le> n + 1" "n \<le> unat (lh_num lh1) + 1"
      by auto
    have "n < 3 * unat (lh_num_buckets lh)" "lh_num_buckets lh = 16 \<or> unat (lh_num_buckets lh) \<le> n" "n < 2 ^ 56 - 1"
      using assms(3,6) by (simp_all add: load_ok_def n_def)
    then have "load_ok lh' \<and> lh_num lh' = lh_num lh1"
      unfolding resized(1) using n assms(4,5) resized(2,3) by (intro maybe_resize_load [OF assms(2)]) auto
    then show ?thesis
      using n(1) resized(1,3) assms(4) by (simp add: n_def)
  qed
qed

context hashing
begin

lemma step_stepped:
  assumes "table_ok lh" "length (items lh) < 2 ^ 60"
  shows "stepped sys lh (snd (lh_step sys op lh))"
proof (cases op)
  case (Lh_delete x)
  obtain h i before next_ptr where g: "get_next_ptr_and_hash lh x = (h, i, before, next_ptr)"
    by (metis prod_cases4)
  have "lh_num lh \<noteq> 0" if "next_ptr \<noteq> []"
  proof -
    have "items lh \<noteq> []"
      using get_next(3,4) [OF assms(1) g] that nth_mem by (fastforce simp: items_def)
    moreover have "unat (lh_num lh) = length (items lh)"
      using table_okD(7) [OF assms(1)] assms(2) by (simp add: unat_of_nat_small)
    ultimately show ?thesis
      by auto
  qed
  then show ?thesis
    using g Lh_delete by (auto simp: stepped_def lh_delete_def split: list.splits)
qed (auto simp: stepped_def lh_insert_def split: prod.splits list.splits)

lemma step_length: "table_ok lh \<Longrightarrow> length (items (snd (lh_step sys op lh))) \<le> Suc (length (items lh))"
proof (cases op)
  case (Lh_insert x)
  then show "table_ok lh \<Longrightarrow> ?thesis"
    using insert_ok [of lh sys x] by (cases "lh_insert sys lh x") auto
next
  case (Lh_delete x)
  then show "table_ok lh \<Longrightarrow> ?thesis"
    using delete_ok [of lh sys x] by (cases "lh_delete sys lh x") (auto intro: le_SucI)
qed simp

lemma run_load:
  assumes "grants sys"
  shows "table_ok lh \<Longrightarrow> load_ok lh \<Longrightarrow> lh_callback_depth lh = 0 \<Longrightarrow> length (items lh) + length ops < 2 ^ 56 \<Longrightarrow>
    load_ok (snd (lh_run sys ops lh))"
proof (induction ops arbitrary: lh)
  case (Cons op ops)
  define lh1 where "lh1 = snd (lh_step sys op lh)"
  have len: "length (items lh) < 2 ^ 60" "unat (lh_num lh) = length (items lh)"
    using table_okD(7) [OF Cons.prems(1)] Cons.prems(4) by (simp_all add: unat_of_nat_small)
  have "load_ok lh1 \<and> lh_callback_depth lh1 = 0"
    using stepped_load [OF step_stepped [OF Cons.prems(1) len(1)] assms Cons.prems(2,3) table_okD(3) [OF Cons.prems(1)]]
      len(2) Cons.prems(4) by (simp add: lh1_def)
  then have "load_ok (snd (lh_run sys ops lh1))"
    using lh_step_refines [OF Cons.prems(1), of sys op] step_length [OF Cons.prems(1), of sys op] Cons.prems(4)
    by (intro Cons.IH) (simp_all add: lh1_def)
  then show ?case
    by (simp add: lh1_def split_beta)
qed simp

lemma new_run_load:
  assumes "grants sys" "lh_new sys hash cmp = Some lh" "length ops < 2 ^ 56"
  shows "load_ok (snd (lh_run sys ops lh))"
proof -
  have "load_ok lh"
    using assms(2) by (auto simp: lh_new_def load_ok_def kMinNumBuckets_def split: if_splits)
  then show ?thesis
    using run_load [OF assms(1)] new_ok [OF assms(2)] assms(3) by simp
qed

end

text \<open>
  Claim C35: while there is memory, the average chain stays short and the table does not stay large:
  after every program of fewer than \<open>2 ^ 56\<close> operations on a new table there are fewer than three
  items for each bucket, and at least one unless the table has its minimal sixteen buckets.
\<close>

theorem lh_load_bounded:
  assumes "hashing hash cmp" "grants sys" "lh_new sys hash cmp = Some lh" "length ops < 2 ^ 56"
  shows "let lh' = snd (lh_run sys ops lh) in
    unat (lh_num_items lh') < 3 * unat (lh_num_buckets lh') \<and>
    (lh_num_buckets lh' = 16 \<or> unat (lh_num_buckets lh') \<le> unat (lh_num_items lh'))"
  using hashing.new_run_load [OF assms] by (simp add: load_ok_def lh_num_items_def Let_def)

lemma lh_load_bounded_witness:
  "\<exists>lh. lh_new (\<lambda>_. Some (\<lambda>_. 0)) (\<lambda>c. lh_strhash (Some c)) c_strcmp = Some lh \<and>
    (let lh' = snd (lh_run (\<lambda>_. Some (\<lambda>_. 0)) [Lh_insert [97], Lh_insert [98]] lh) in
      unat (lh_num_items lh') < 3 * unat (lh_num_buckets lh') \<and>
      (lh_num_buckets lh' = 16 \<or> unat (lh_num_buckets lh') \<le> unat (lh_num_items lh')))"
proof -
  let ?sys = "\<lambda>_. Some (\<lambda>_. 0) :: (nat \<Rightarrow> u8) option"
  have "grants ?sys"
    by (simp add: grants_def OPENSSL_malloc_def)
  moreover obtain lh where "lh_new ?sys (\<lambda>c. lh_strhash (Some c)) c_strcmp = Some lh"
    by (simp add: lh_new_def OPENSSL_malloc_def)
  ultimately show ?thesis
    using lh_load_bounded [OF str.hashing_axioms, of ?sys lh "[Lh_insert [97], Lh_insert [98]]"] by simp
qed

section \<open>Visiting every element\<close>

lemma fold_add_mset: "fold (fold (\<lambda>it. add_mset (f it))) bs M = mset (map f (concat bs)) + M"
proof -
  have "fold (\<lambda>it. add_mset (f it)) xs M = mset (map f xs) + M" for xs M
    by (induction xs arbitrary: M) auto
  then show ?thesis
    by (simp add: fold_fold_concat)
qed

text \<open>
  \<open>lh_doall\<close> calls its function exactly once for every element of the table, and leaves
  the contents, the resize suppression counter and the invariant as they were.
\<close>

lemma lh_doall_visits:
  assumes "hashing hash cmp" "hashing.table_ok hash cmp lh" "lh_callback_depth lh < 0xfffffffe"
  shows "\<exists>lh'. lh_doall sys (Some lh) add_mset {#} = (Some lh', mset (map it_data (concat (lh_buckets lh)))) \<and>
    hashing.table_ok hash cmp lh' \<and> lh_callback_depth lh' = lh_callback_depth lh \<and> lh_retrieve lh' = lh_retrieve lh"
proof -
  have depth: "lh_callback_depth lh < 0xffffffff" "lh_callback_depth lh + 1 < 0xffffffff"
    using assms(3) by (auto simp: word_less_nat_alt unat_word_ariths)
  have "lh\<lparr>lh_callback_depth := lh_callback_depth lh + 1, lh_callback_depth := lh_callback_depth lh + 1 - 1\<rparr> = lh"
    by simp
  then have "lh_doall sys (Some lh) add_mset {#} = (Some (lh_maybe_resize sys lh), mset (map it_data (concat (lh_buckets lh))))"
    using depth fold_add_mset [of it_data "lh_buckets lh" "{#}"]
    by (simp add: lh_doall_def lh_doall_internal_def)
  moreover have "lh_retrieve (lh_maybe_resize sys lh) = lh_retrieve lh"
    using hashing.resize_lookup [OF assms(1,2)] hashing.retrieve_lookup [OF assms(1)] assms(2) by (simp add: fun_eq_iff)
  ultimately show ?thesis
    using hashing.resize_lookup(1) [OF assms(1,2)] by simp
qed

lemma lh_doall_visits_witness:
  "\<exists>lh lh'. snd (snd (lh_insert (\<lambda>_. Some (\<lambda>_. 0)) (the (lh_new (\<lambda>_. Some (\<lambda>_. 0)) (\<lambda>c. lh_strhash (Some c)) c_strcmp)) [97])) = lh \<and>
    lh_doall (\<lambda>_. None) (Some lh) add_mset {#} = (Some lh', {#[97]#})"
proof -
  let ?sys = "\<lambda>_. Some (\<lambda>_. 0) :: (nat \<Rightarrow> u8) option"
  obtain lh0 where new: "lh_new ?sys (\<lambda>c. lh_strhash (Some c)) c_strcmp = Some lh0"
    by (simp add: lh_new_def OPENSSL_malloc_def)
  define h where "h = lh_strhash (Some [97])"
  define lh where "lh = \<lparr>lh_num = 1, lh_buckets = (replicate 16 [])[bucket_of h 16 := [\<lparr>it_data = [97], it_hash = h\<rparr>]],
    lh_num_buckets = 16, lh_callback_depth = 0, lh_comp = c_strcmp, lh_hash = \<lambda>c. lh_strhash (Some c)\<rparr>"
  have b: "bucket_of h 16 < length (replicate 16 ([] :: bytes LHASH_ITEM list))"
    using bucket_of_less [of 16 h] by simp
  have ins: "lh_insert ?sys lh0 [97] = (True, None, lh)"
    using new b by (auto simp: lh_new_def OPENSSL_malloc_def lh_insert_def get_next_ptr_and_hash_def h_def [symmetric]
        kMinNumBuckets_def lh_maybe_resize_def kMaxAverageChainLength_def lh_def Let_def word_less_nat_alt unat_div_distrib)
  have "str.table_ok lh"
    using str.insert_ok [OF conjunct1 [OF str.new_ok [OF new]] ins] by simp
  note lh_doall_visits [OF str.hashing_axioms this, of "\<lambda>_. None"]
  moreover have "mset (concat (lh_buckets lh)) = {#\<lparr>it_data = [97], it_hash = h\<rparr>#}"
    using mset_update [OF b] b by (simp add: lh_def)
  then have "mset (map it_data (concat (lh_buckets lh))) = {#[97]#}"
    by (simp flip: mset_map)
  ultimately show ?thesis
    using new ins by (auto simp: lh_def)
qed

end
