(* ===== verification/Blocks.thy ===== *)
theory Blocks
  imports Prelude
begin

text \<open>
  What the digests of BoringSSL share below their collectors: a message cut into blocks of \<open>b\<close> bytes, a
  compression function chained over them, sizes of type \<open>size_t\<close>, writes into a block, and the message
  schedule that the block functions keep in a ring of sixteen words.
\<close>

section \<open>A message in blocks\<close>

text \<open>The compression function chained over the first \<open>n\<close> blocks of some data.\<close>

primrec chain :: "nat \<Rightarrow> ('s \<Rightarrow> bytes \<Rightarrow> 's) \<Rightarrow> nat \<Rightarrow> 's \<Rightarrow> bytes \<Rightarrow> 's" where
  "chain b compress 0 st data = st"
| "chain b compress (Suc n) st data = chain b compress n (compress st (take b data)) (drop b data)"

text \<open>The part of a message after its last whole block.\<close>

definition open_block :: "nat \<Rightarrow> bytes \<Rightarrow> bytes" where
  "open_block b msg = drop (b * (length msg div b)) msg"

lemma blocks_add: "(m + n) div b = m div b + (m mod b + n) div b" for m n b :: nat
proof (cases "b = 0")
  case False
  have "m + n = (m mod b + n) + b * (m div b)"
    by simp
  with False show ?thesis
    by (metis add.commute div_mult_self2)
qed simp

lemma length_open_block [simp]: "length (open_block b msg) = length msg mod b"
  by (simp add: open_block_def minus_mult_div_eq_mod)

lemma open_block_split: "take (b * (length msg div b)) msg @ open_block b msg = msg"
  by (simp add: open_block_def)

lemma open_block_short: "length msg < b \<Longrightarrow> open_block b msg = msg"
  by (simp add: open_block_def)

lemma chain_prefix: "b * n \<le> length xs \<Longrightarrow> chain b compress n st (xs @ ys) = chain b compress n st xs"
  by (induction n arbitrary: st xs) simp_all

lemma chain_take: "b * n \<le> length xs \<Longrightarrow> chain b compress n st (take (b * n) xs) = chain b compress n st xs"
  using chain_prefix [of b n "take (b * n) xs" compress st "drop (b * n) xs"] by simp

lemma chain_append:
  "length xs = b * n \<Longrightarrow> chain b compress (n + k) st (xs @ ys) = chain b compress k (chain b compress n st xs) ys"
  by (induction n arbitrary: st xs) simp_all

lemma chain_one [simp]: "length data = b \<Longrightarrow> chain b compress 1 st data = compress st data"
  by simp

text \<open>Appending to a message is hashing the open block together with the new bytes.\<close>

lemma open_block_append:
  assumes "0 < b"
  shows "open_block b (msg @ data) = open_block b (open_block b msg @ data)"
proof -
  let ?q = "length msg div b"
  have len: "length (msg @ data) div b = ?q + length (open_block b msg @ data) div b"
    by (simp add: blocks_add [of "length msg"])
  have "open_block b (msg @ data) =
      drop (b * (?q + length (open_block b msg @ data) div b))
        (take (b * ?q) msg @ (open_block b msg @ data))"
    unfolding open_block_def [of b "msg @ data"] len
    by (metis append.assoc open_block_split)
  also have "\<dots> = open_block b (open_block b msg @ data)"
    unfolding open_block_def [of b "open_block b msg @ data"] by (simp add: distrib_left)
  finally show ?thesis .
qed

lemma open_block_none: "length xs mod b = 0 \<Longrightarrow> open_block b xs = []"
  by (simp flip: length_0_conv)

lemma open_block_blocks: "0 < b \<Longrightarrow> length xs mod b = 0 \<Longrightarrow> open_block b (xs @ ys) = open_block b ys"
  using open_block_append [of b xs ys] by (simp add: open_block_none)

lemma chain_append_open:
  assumes "0 < b"
  shows "chain b compress (length (msg @ data) div b) st (msg @ data) =
     chain b compress (length (open_block b msg @ data) div b)
       (chain b compress (length msg div b) st msg) (open_block b msg @ data)"
proof -
  let ?q = "length msg div b" and ?pd = "open_block b msg @ data"
  have len: "length (msg @ data) div b = ?q + length ?pd div b"
    by (simp add: blocks_add [of "length msg"])
  have full: "length (take (b * ?q) msg) = b * ?q"
    by simp
  have "chain b compress (length (msg @ data) div b) st (msg @ data) =
      chain b compress (?q + length ?pd div b) st (take (b * ?q) msg @ ?pd)"
    unfolding len by (metis append.assoc open_block_split)
  also have "\<dots> = chain b compress (length ?pd div b) (chain b compress ?q st (take (b * ?q) msg)) ?pd"
    by (rule chain_append [OF full])
  also have "chain b compress ?q st (take (b * ?q) msg) = chain b compress ?q st msg"
    by (rule chain_take) simp
  finally show ?thesis .
qed

lemma length_chain:
  "\<lbrakk>length st = k; \<And>st block. length st = k \<Longrightarrow> length (compress st block) = k\<rbrakk> \<Longrightarrow> length (chain b compress n st data) = k"
  by (induction n arbitrary: st data) simp_all

section \<open>Sizes\<close>

lemma ucast_size [simp]: "ucast (of_nat n :: usize) = (of_nat n :: u32)"
  by (rule bit_word_eqI) (simp add: bit_simps)

lemma unat_size: "n < 2 ^ 64 \<Longrightarrow> unat (of_nat n :: usize) = n"
  by (rule unat_of_nat_small) simp

lemma size_eq_0: "n < 2 ^ 64 \<Longrightarrow> (of_nat n :: usize) = 0 \<longleftrightarrow> n = 0"
  using unat_size [of n] by (auto simp: word_unat_eq_iff)

lemma div_carry: "(x + y) div k = x div k + y div k + of_bool (k \<le> x mod k + y mod k)" if "0 < k" for k :: nat
proof -
  have "x mod k < k" "y mod k < k"
    using that by simp_all
  then have "(x mod k + y mod k) div k = of_bool (k \<le> x mod k + y mod k)"
    by (auto intro!: div_nat_eqI add_strict_mono)
  then show ?thesis
    by (simp add: div_add1_eq [of x y k])
qed

section \<open>Writes into a block\<close>

lemma mem_write_at: "length xs = k \<Longrightarrow> mem_write (xs @ ys) k zs = xs @ zs @ drop (length zs) ys"
  by (simp add: mem_write_def)

lemma mem_write_last: "length xs = k \<Longrightarrow> length zs = length ys \<Longrightarrow> mem_write (xs @ ys) k zs = xs @ zs"
  by (simp add: mem_write_def)

section \<open>A message schedule in a ring of sixteen words\<close>

text \<open>The last sixteen of the first \<open>i\<close> words of the schedule \<open>W\<close>, each at its index modulo 16.\<close>

definition ring :: "(nat \<Rightarrow> 'a) \<Rightarrow> nat \<Rightarrow> 'a list \<Rightarrow> bool" where
  "ring W i X \<longleftrightarrow> length X = 16 \<and> (\<forall>j < i. i \<le> j + 16 \<longrightarrow> X ! (j mod 16) = W j)"

lemma ring_nth: "ring W i X \<Longrightarrow> j < i \<Longrightarrow> i \<le> j + 16 \<Longrightarrow> j mod 16 = k \<Longrightarrow> X ! k = W j"
  by (auto simp: ring_def)

lemma ring_step: "ring W i X \<Longrightarrow> k = i mod 16 \<Longrightarrow> ring W (Suc i) (X[k := W i])"
  unfolding ring_def
proof (intro conjI allI impI)
  fix j assume X: "length X = 16 \<and> (\<forall>j<i. i \<le> j + 16 \<longrightarrow> X ! (j mod 16) = W j)" and k: "k = i mod 16"
    and j: "j < Suc i" "Suc i \<le> j + 16"
  show "X[k := W i] ! (j mod 16) = W j"
  proof (cases "j = i")
    case False
    then have "j mod 16 \<noteq> i mod 16"
      using j mod_eq_dvd_iff_nat [of j i 16] by (auto dest: dvd_imp_le)
    then show ?thesis
      using X k j False by simp
  qed (use X k in simp)
qed simp

end
