(* ===== verification/MD32.thy ===== *)
theory MD32
  imports Blocks
begin

text \<open>
  \<open>crypto/fipsmodule/digest/md32_common.h\<close> (BoringSSL): the collector that MD4, MD5, SHA-1 and SHA-256
  instantiate by macros.  The macros of an instance are arguments here: \<open>DATA_ORDER_IS_BIG_ENDIAN\<close> or
  \<open>DATA_ORDER_IS_LITTLE_ENDIAN\<close>, the block function \<open>HASH_BLOCK_DATA_ORDER\<close> and \<open>HASH_MAKE_STRING\<close>; the
  members that \<open>HASH_CTX\<close> must have are a record that an instance may extend.

  The collector's promise is stated with \<open>collected\<close>, the context that a message leaves behind
  however it was cut into calls of \<open>HASH_UPDATE\<close>, and \<open>padded\<close>, the message with its Merkle-Damgard padding.
\<close>

section \<open>The context\<close>

record md32_ctx =
  ctx_h :: "u32 list"
  ctx_Nl :: u32
  ctx_Nh :: u32
  ctx_data :: bytes
  ctx_num :: u32

definition HASH_CBLOCK :: usize where
  "HASH_CBLOCK = 64"

datatype data_order = BIG_ENDIAN | LITTLE_ENDIAN

section \<open>32-bit words in the byte order of the digest\<close>

text \<open>\<open>HOST_c2l(c, l)\<close> on the four bytes at the cursor, and \<open>HOST_l2c(l, c)\<close> as the bytes it writes.\<close>

definition HOST_c2l :: "data_order \<Rightarrow> bytes \<Rightarrow> u32" where
  "HOST_c2l order c =
     (case order of
        BIG_ENDIAN \<Rightarrow>
          push_bit 24 (ucast (c ! 0)) OR push_bit 16 (ucast (c ! 1)) OR push_bit 8 (ucast (c ! 2)) OR ucast (c ! 3)
      | LITTLE_ENDIAN \<Rightarrow>
          ucast (c ! 0) OR push_bit 8 (ucast (c ! 1)) OR push_bit 16 (ucast (c ! 2)) OR push_bit 24 (ucast (c ! 3)))"

definition HOST_l2c :: "data_order \<Rightarrow> u32 \<Rightarrow> bytes" where
  "HOST_l2c order l =
     (case order of
        BIG_ENDIAN \<Rightarrow>
          [ucast (drop_bit 24 l AND 0xff), ucast (drop_bit 16 l AND 0xff), ucast (drop_bit 8 l AND 0xff), ucast (l AND 0xff)]
      | LITTLE_ENDIAN \<Rightarrow>
          [ucast (l AND 0xff), ucast (drop_bit 8 l AND 0xff), ucast (drop_bit 16 l AND 0xff), ucast (drop_bit 24 l AND 0xff)])"

text \<open>The word that the \<open>i\<close>-th \<open>HOST_c2l(data, l)\<close> of a block reads.\<close>

definition block_word :: "data_order \<Rightarrow> bytes \<Rightarrow> nat \<Rightarrow> u32" where
  "block_word order data i = HOST_c2l order (take 4 (drop (4 * i) data))"

text \<open>The left rotation that the block functions share.\<close>

definition ROTATE :: "u32 \<Rightarrow> nat \<Rightarrow> u32" where
  "ROTATE a n = push_bit n a OR drop_bit (32 - n) a"

section \<open>Update, transform and final\<close>

text \<open>
  A block function takes the state \<open>h\<close>, the data and the number of blocks.  \<open>HASH_UPDATE\<close> always
  returns 1 and \<open>HASH_TRANSFORM\<close> nothing, so that the model gives the context they leave.
\<close>

type_synonym block_function = "u32 list \<Rightarrow> bytes \<Rightarrow> usize \<Rightarrow> u32 list"

text \<open>The end of \<open>HASH_UPDATE\<close>: the whole blocks of the data, then the bytes that remain.\<close>

definition HASH_UPDATE_blocks ::
  "block_function \<Rightarrow> bytes \<Rightarrow> usize \<Rightarrow> 'a md32_ctx_scheme \<Rightarrow> 'a md32_ctx_scheme" where
  "HASH_UPDATE_blocks block data len c =
     (let n = len div HASH_CBLOCK;
          (c, data, len) =
            (if 0 < n
             then let c = c\<lparr>ctx_h := block (ctx_h c) data n\<rparr>;
                      n = n * HASH_CBLOCK
                  in (c, drop (unat n) data, len - n)
             else (c, data, len))
      in if len \<noteq> 0
         then c\<lparr>ctx_num := ucast len, ctx_data := mem_write (ctx_data c) 0 (take (unat len) data)\<rparr>
         else c)"

definition HASH_UPDATE :: "block_function \<Rightarrow> bytes \<Rightarrow> 'a md32_ctx_scheme \<Rightarrow> 'a md32_ctx_scheme" where
  "HASH_UPDATE block data c =
     (let len = (of_nat (length data) :: usize)
      in if len = 0 then c
         else
           let l = ctx_Nl c + push_bit 3 (ucast len);
               c = (if l < ctx_Nl c then c\<lparr>ctx_Nh := ctx_Nh c + 1\<rparr> else c);
               c = c\<lparr>ctx_Nh := ctx_Nh c + ucast (drop_bit 29 len)\<rparr>;
               c = c\<lparr>ctx_Nl := l\<rparr>;
               n = (ucast (ctx_num c) :: usize)
           in if n \<noteq> 0
              then if HASH_CBLOCK \<le> len \<or> HASH_CBLOCK \<le> len + n
                   then let d = mem_write (ctx_data c) (unat n) (take (unat (HASH_CBLOCK - n)) data);
                            c = c\<lparr>ctx_h := block (ctx_h c) d 1\<rparr>;
                            n = HASH_CBLOCK - n;
                            data = drop (unat n) data;
                            len = len - n;
                            c = c\<lparr>ctx_num := 0\<rparr>;
                            c = c\<lparr>ctx_data := replicate (unat HASH_CBLOCK) 0\<rparr>
                        in HASH_UPDATE_blocks block data len c
                   else c\<lparr>ctx_data := mem_write (ctx_data c) (unat n) data, ctx_num := ctx_num c + ucast len\<rparr>
              else HASH_UPDATE_blocks block data len c)"

definition HASH_TRANSFORM :: "block_function \<Rightarrow> bytes \<Rightarrow> 'a md32_ctx_scheme \<Rightarrow> 'a md32_ctx_scheme" where
  "HASH_TRANSFORM block data c = c\<lparr>ctx_h := block (ctx_h c) data 1\<rparr>"

text \<open>
  \<open>HASH_MAKE_STRING\<close> may return 0 from \<open>HASH_FINAL\<close>, which is \<open>None\<close>.  The two \<open>assert\<close>s say \<open>num < 64\<close>
  and that eight bytes of length end the block.
\<close>

definition HASH_FINAL ::
  "data_order \<Rightarrow> block_function \<Rightarrow> ('a md32_ctx_scheme \<Rightarrow> bytes option) \<Rightarrow> 'a md32_ctx_scheme \<Rightarrow>
     bytes option \<times> 'a md32_ctx_scheme" where
  "HASH_FINAL order block make_string c =
     (let n = (ucast (ctx_num c) :: usize);
          d = (ctx_data c)[unat n := 0x80];
          n = n + 1;
          (c, d, n) =
            (if HASH_CBLOCK - 8 < n
             then let d = mem_write d (unat n) (replicate (unat (HASH_CBLOCK - n)) 0);
                      n = 0;
                      c = c\<lparr>ctx_h := block (ctx_h c) d 1\<rparr>
                  in (c, d, n)
             else (c, d, n));
          d = mem_write d (unat n) (replicate (unat (HASH_CBLOCK - 8 - n)) 0);
          p = unat (HASH_CBLOCK - 8);
          d = (case order of
                 BIG_ENDIAN \<Rightarrow> mem_write d p (HOST_l2c order (ctx_Nh c) @ HOST_l2c order (ctx_Nl c))
               | LITTLE_ENDIAN \<Rightarrow> mem_write d p (HOST_l2c order (ctx_Nl c) @ HOST_l2c order (ctx_Nh c)));
          c = c\<lparr>ctx_h := block (ctx_h c) d 1\<rparr>;
          c = c\<lparr>ctx_num := 0\<rparr>;
          c = c\<lparr>ctx_data := replicate (unat HASH_CBLOCK) 0\<rparr>
      in (make_string c, c))"

section \<open>What the collector promises\<close>

text \<open>The compression function chained over the first \<open>n\<close> blocks of some data.\<close>

abbreviation chained :: "(u32 list \<Rightarrow> bytes \<Rightarrow> u32 list) \<Rightarrow> nat \<Rightarrow> u32 list \<Rightarrow> bytes \<Rightarrow> u32 list" where
  "chained \<equiv> chain 64"

text \<open>The part of a message after its last whole block.\<close>

abbreviation partial_block :: "bytes \<Rightarrow> bytes" where
  "partial_block \<equiv> open_block 64"

lemmas partial_block_def = open_block_def [of 64]

text \<open>The context \<open>c\<close>, fresh with the chaining value \<open>iv\<close>, after the bytes \<open>msg\<close>.\<close>

definition collected ::
  "(u32 list \<Rightarrow> bytes \<Rightarrow> u32 list) \<Rightarrow> 'a md32_ctx_scheme \<Rightarrow> bytes \<Rightarrow> 'a md32_ctx_scheme" where
  "collected compress c msg =
     c\<lparr>ctx_h := chained compress (length msg div 64) (ctx_h c) msg,
       ctx_Nl := of_nat (8 * length msg),
       ctx_Nh := of_nat (8 * length msg div 4294967296),
       ctx_data := partial_block msg @ replicate (64 - length msg mod 64) 0,
       ctx_num := of_nat (length msg mod 64)\<rparr>"

definition fresh :: "'a md32_ctx_scheme \<Rightarrow> bool" where
  "fresh c \<longleftrightarrow> ctx_Nl c = 0 \<and> ctx_Nh c = 0 \<and> ctx_data c = replicate 64 0 \<and> ctx_num c = 0"

text \<open>The sizes of the arrays in a context whose chaining value has \<open>n\<close> words; the open block is not full.\<close>

definition typed_ctx :: "nat \<Rightarrow> 'a md32_ctx_scheme \<Rightarrow> bool" where
  "typed_ctx n c \<longleftrightarrow> length (ctx_h c) = n \<and> length (ctx_data c) = 64 \<and> unat (ctx_num c) < 64"

text \<open>The padding of RFC 1321, RFC 3174 and FIPS 180-4: a one bit, zeros, and the length in bits.\<close>

definition length64 :: "data_order \<Rightarrow> nat \<Rightarrow> bytes" where
  "length64 order bits = (case order of BIG_ENDIAN \<Rightarrow> be_bytes 8 bits | LITTLE_ENDIAN \<Rightarrow> le_bytes 8 bits)"

definition padded :: "data_order \<Rightarrow> bytes \<Rightarrow> bytes" where
  "padded order msg =
     msg @ [0x80] @ replicate ((119 - length msg mod 64) mod 64) 0 @ length64 order (8 * length msg)"

definition digested ::
  "data_order \<Rightarrow> (u32 list \<Rightarrow> bytes \<Rightarrow> u32 list) \<Rightarrow> u32 list \<Rightarrow> bytes \<Rightarrow> u32 list" where
  "digested order compress iv msg = chained compress (length (padded order msg) div 64) iv (padded order msg)"

section \<open>Blocks\<close>

lemma collected_sel [simp]:
  "ctx_h (collected compress c msg) = chained compress (length msg div 64) (ctx_h c) msg"
  "ctx_Nl (collected compress c msg) = of_nat (8 * length msg)"
  "ctx_Nh (collected compress c msg) = of_nat (8 * length msg div 4294967296)"
  "ctx_data (collected compress c msg) = partial_block msg @ replicate (64 - length msg mod 64) 0"
  "ctx_num (collected compress c msg) = of_nat (length msg mod 64)"
  by (simp_all add: collected_def)

lemma cblock_pos: "0 < (64 :: nat)"
  by simp

lemmas chained_append = chain_append [where b = 64]
  and partial_block_append = open_block_append [OF cblock_pos]
  and partial_block_none = open_block_none [where b = 64]
  and partial_block_blocks = open_block_blocks [OF cblock_pos]
  and chained_append_partial = chain_append_open [OF cblock_pos]

lemma fresh_collected: "fresh c \<Longrightarrow> collected compress c [] = c"
  by (cases c) (simp add: fresh_def collected_def partial_block_def)

section \<open>The 64-bit count of bits\<close>

lemma add_carry32: "(x :: u32) + y < x \<longleftrightarrow> 4294967296 \<le> unat x + unat y"
  using unat_lt32 [of x] unat_lt32 [of y] by (auto simp: word_less_nat_alt unat_word_ariths mod_if)

lemma size_blocks:
  assumes "n < 2 ^ 64"
  shows "(of_nat n :: usize) div HASH_CBLOCK = of_nat (n div 64)"
    "(of_nat n :: usize) - of_nat (n div 64) * HASH_CBLOCK = of_nat (n mod 64)"
    "unat (of_nat (n div 64) :: usize) = n div 64"
    "unat (of_nat (n div 64) * HASH_CBLOCK) = 64 * (n div 64)"
    "unat (of_nat (n mod 64) :: usize) = n mod 64"
proof -
  have small: "m < 2 ^ 64" if "m \<le> n" for m
    using that assms by simp
  show d: "unat (of_nat (n div 64) :: usize) = n div 64" and m: "unat (of_nat (n mod 64) :: usize) = n mod 64"
    by (rule unat_size, rule small, simp)+
  have t: "(of_nat (n div 64) * HASH_CBLOCK :: usize) = of_nat (64 * (n div 64))"
    by (simp add: HASH_CBLOCK_def)
  show "unat (of_nat (n div 64) * HASH_CBLOCK) = 64 * (n div 64)"
    unfolding t by (rule unat_size, rule small, simp)
  show "(of_nat n :: usize) div HASH_CBLOCK = of_nat (n div 64)"
    by (simp add: word_unat_eq_iff unat_div unat_size [OF assms] d HASH_CBLOCK_def)
  show "(of_nat n :: usize) - of_nat (n div 64) * HASH_CBLOCK = of_nat (n mod 64)"
    unfolding t by (metis add_diff_cancel_left' mult_div_mod_eq of_nat_add)
qed

lemma size_room:
  assumes "n < 2 ^ 64" "r < 64"
  shows "(HASH_CBLOCK \<le> of_nat n \<or> HASH_CBLOCK \<le> of_nat n + of_nat r) \<longleftrightarrow> 64 \<le> r + n"
    "unat (HASH_CBLOCK - of_nat r) = 64 - r"
    "64 \<le> r + n \<Longrightarrow> of_nat n - (HASH_CBLOCK - of_nat r) = of_nat (n - (64 - r))"
    "(ucast (of_nat r :: u32) :: usize) = of_nat r"
    "unat (of_nat r :: usize) = r" "(of_nat r :: usize) = 0 \<longleftrightarrow> r = 0"
proof -
  have r: "unat (of_nat r :: usize) = r"
    using assms(2) by (intro unat_size) simp
  show "unat (of_nat r :: usize) = r" "(of_nat r :: usize) = 0 \<longleftrightarrow> r = 0"
    using r by (auto simp: word_unat_eq_iff)
  show "(HASH_CBLOCK \<le> of_nat n \<or> HASH_CBLOCK \<le> of_nat n + of_nat r) \<longleftrightarrow> 64 \<le> r + n"
    using assms unat_size [OF assms(1)] r by (auto simp: word_le_nat_alt HASH_CBLOCK_def unat_add64)
  have t: "HASH_CBLOCK - of_nat r = of_nat (64 - r)"
    using assms(2) by (simp add: HASH_CBLOCK_def of_nat_diff)
  show "unat (HASH_CBLOCK - of_nat r) = 64 - r"
    unfolding t by (rule unat_size) simp
  show "of_nat n - (HASH_CBLOCK - of_nat r) = of_nat (n - (64 - r))" if "64 \<le> r + n"
    unfolding t using that by (simp add: of_nat_diff)
  show "(ucast (of_nat r :: u32) :: usize) = of_nat r"
    using assms(2) by (simp add: unsigned_of_nat take_bit_nat_eq_self)
qed

lemma count_low: "(of_nat (8 * m) :: u32) + push_bit 3 (of_nat n) = of_nat (8 * (m + n))"
  by (simp add: push_bit_eq_mult algebra_simps)

lemma count_carry:
  "unat (of_nat (8 * m) :: u32) + unat (push_bit 3 (of_nat n) :: u32) = 8 * m mod 4294967296 + 8 * n mod 4294967296"
proof -
  have "(push_bit 3 (of_nat n) :: u32) = of_nat (8 * n)"
    by (simp add: push_bit_eq_mult)
  then show ?thesis
    by (simp only: unat_of_nat) (simp add: take_bit_eq_mod)
qed

lemma div_shift: "n div 536870912 = 8 * n div 4294967296" for n :: nat
  using div_mult_mult1 [of 8 n 536870912] by simp

lemma count_size:
  assumes "n < 2 ^ 64"
  shows "ucast (drop_bit 29 (of_nat n :: usize)) = (of_nat (8 * n div 4294967296) :: u32)"
proof -
  have "unat (of_nat n :: usize) = n"
    by (rule unat_of_nat_small) (use assms in simp)
  then have "unat (drop_bit 29 (of_nat n :: usize)) = n div 536870912"
    by (simp add: drop_bit_eq_div unat_div)
  moreover have "drop_bit 29 (of_nat n :: usize) = of_nat (unat (drop_bit 29 (of_nat n :: usize)))"
    by simp
  ultimately have "drop_bit 29 (of_nat n :: usize) = of_nat (8 * n div 4294967296)"
    by (simp only: div_shift)
  then show ?thesis
    by simp
qed

lemma count_high:
  assumes "n < 2 ^ 64"
  shows "(of_nat (8 * m div 4294967296) :: u32)
      + of_bool (4294967296 \<le> unat (of_nat (8 * m) :: u32) + unat (push_bit 3 (of_nat n) :: u32))
      + ucast (drop_bit 29 (of_nat n :: usize)) = of_nat (8 * (m + n) div 4294967296)"
  unfolding count_carry count_size [OF assms] distrib_left
  by (subst div_carry) (simp_all only: of_nat_add of_nat_of_bool zero_less_numeral ac_simps)

section \<open>The padding\<close>

lemma le_bytes_4: "le_bytes 4 n = [of_nat n, of_nat (n div 256), of_nat (n div 65536), of_nat (n div 16777216)]"
proof -
  have "n div 256 div 256 = n div 65536" "n div 256 div 256 div 256 = n div 16777216"
    by (simp_all flip: div_mult2_eq)
  then have "le_bytes (Suc (Suc (Suc (Suc 0)))) n =
      [of_nat n, of_nat (n div 256), of_nat (n div 65536), of_nat (n div 16777216)]"
    by (simp only: le_bytes.simps)
  moreover have "4 = Suc (Suc (Suc (Suc 0)))"
    by simp
  ultimately show ?thesis
    by (simp only:)
qed

lemma HOST_l2c_eq: "HOST_l2c BIG_ENDIAN l = be_bytes 4 (unat l)" "HOST_l2c LITTLE_ENDIAN l = le_bytes 4 (unat l)"
proof -
  have low: "(ucast (drop_bit k l AND 0xff) :: u8) = of_nat (unat l div 2 ^ k)" for k
  proof -
    have "(ucast (drop_bit k l AND 0xff) :: u8) = ucast (drop_bit k l)"
      unfolding and_ff by (rule bit_word_eqI) (simp add: bit_simps)
    also have "\<dots> = of_nat (unat (drop_bit k l))"
      by (simp only: of_nat_unat)
    also have "unat (drop_bit k l) = unat l div 2 ^ k"
      by (metis drop_bit_eq_div unat_drop_bit_eq)
    finally show ?thesis .
  qed
  from low [of 0] low [of 8] low [of 16] low [of 24]
  show "HOST_l2c BIG_ENDIAN l = be_bytes 4 (unat l)" "HOST_l2c LITTLE_ENDIAN l = le_bytes 4 (unat l)"
    by (simp_all add: HOST_l2c_def be_bytes_def le_bytes_4)
qed

lemma length_HOST_l2c [simp]: "length (HOST_l2c order l) = 4"
  by (simp add: HOST_l2c_def split: data_order.splits)

lemma length64_words:
  "length64 BIG_ENDIAN n =
     HOST_l2c BIG_ENDIAN (of_nat (n div 4294967296)) @ HOST_l2c BIG_ENDIAN (of_nat n)"
  "length64 LITTLE_ENDIAN n =
     HOST_l2c LITTLE_ENDIAN (of_nat n) @ HOST_l2c LITTLE_ENDIAN (of_nat (n div 4294967296))"
proof -
  have "le_bytes 8 n = le_bytes 4 n @ le_bytes 4 (n div 4294967296)"
    using le_bytes_add [of 4 4 n] by simp
  moreover have "le_bytes 4 (unat (of_nat k :: u32)) = le_bytes 4 k" for k
    using le_bytes_mod [of 4 k] by (simp add: unat_of_nat take_bit_eq_mod)
  ultimately show "length64 BIG_ENDIAN n =
     HOST_l2c BIG_ENDIAN (of_nat (n div 4294967296)) @ HOST_l2c BIG_ENDIAN (of_nat n)"
    "length64 LITTLE_ENDIAN n =
     HOST_l2c LITTLE_ENDIAN (of_nat n) @ HOST_l2c LITTLE_ENDIAN (of_nat (n div 4294967296))"
    by (simp_all add: length64_def HOST_l2c_eq be_bytes_def)
qed

lemma length_length64 [simp]: "length (length64 order n) = 8"
  by (simp add: length64_def split: data_order.splits)

text \<open>The last block or the last two of a message, as \<open>HASH_FINAL\<close> builds them in the open block.\<close>

lemma pad_short: "(119 - r) mod 64 = 55 - r" if "r < 56" for r :: nat
proof -
  have "119 - r = (55 - r) + 64"
    using that by simp
  then show ?thesis
    by (simp only: mod_add_self2) simp
qed

lemma last_block_short:
  assumes "length rs = r" "r < 56" "length l = 8"
  shows "mem_write (mem_write (rs @ x # replicate (63 - r) 0) (Suc r) (replicate (55 - r) 0)) 56 l =
      rs @ x # replicate (55 - r) 0 @ l"
proof -
  have "rs @ x # replicate (63 - r) 0 = (rs @ [x]) @ replicate (63 - r) 0"
    by simp
  then have "mem_write (rs @ x # replicate (63 - r) 0) (Suc r) (replicate (55 - r) 0) =
      (rs @ x # replicate (55 - r) 0) @ replicate 8 0"
    using assms mem_write_at [of "rs @ [x]" "Suc r" "replicate (63 - r) 0" "replicate (55 - r) 0"] by simp
  then show ?thesis
    using assms mem_write_last [of "rs @ x # replicate (55 - r) 0" 56 l "replicate 8 0"] by simp
qed

lemma last_block_long:
  assumes "length rs = r" "56 \<le> r" "r < 64"
  shows "mem_write (rs @ x # replicate (63 - r) 0) (Suc r) (replicate (63 - r) 0) = rs @ x # replicate (63 - r) 0"
  using assms mem_write_last [of "rs @ [x]" "Suc r" "replicate (63 - r) 0" "replicate (63 - r) 0"] by simp

lemma last_block_length:
  assumes "length d = 64" "length l = 8"
  shows "mem_write (mem_write d 0 (replicate 56 0)) 56 l = replicate 56 0 @ l"
  using assms mem_write_last [of "replicate 56 0" 56 l "drop 56 d"] by (simp add: mem_write_def)

section \<open>Rotations\<close>

lemma ROTATE_rotl: "0 < n \<Longrightarrow> n < 32 \<Longrightarrow> ROTATE a n = word_rotl n a"
proof (rule bit_word_eqI)
  fix k assume n: "0 < n" "n < 32" and k: "k < LENGTH(32)"
  have rotl: "bit (word_rotl n a) k = bit a ((k + (32 - n)) mod 32)"
    using n k by (simp only: bit_word_rotl_iff) simp
  have rotate: "bit (ROTATE a n) k = (n \<le> k \<and> bit a (k - n) \<or> bit a (k + (32 - n)))"
    using n k by (auto simp add: ROTATE_def bit_simps add.commute)
  show "bit (ROTATE a n) k = bit (word_rotl n a) k"
  proof (cases "k < n")
    case True
    then have "(k + (32 - n)) mod 32 = k + (32 - n)"
      using n by simp
    with True show ?thesis
      unfolding rotl rotate by simp
  next
    case False
    then have "k + (32 - n) = (k - n) + 32"
      using n by simp
    moreover have "\<not> bit a ((k - n) + 32)"
      using bit_imp_le_length [of a "(k - n) + 32"] by auto
    moreover have "((k - n) + 32) mod 32 = k - n"
      using k by simp
    ultimately show ?thesis
      unfolding rotl rotate using False by simp
  qed
qed

lemma block_word_take: "i < 16 \<Longrightarrow> block_word order (take 64 data) i = block_word order data i"
  by (simp add: block_word_def take_drop min_def)

section \<open>Interface: a block function that chains a compression function\<close>

text \<open>
  What \<open>HASH_BLOCK_DATA_ORDER\<close> must do on at least one block.  It is called with no less, and the one of
  SHA-1 would not stop at zero.
\<close>

locale block_chaining =
  fixes block :: block_function
    and compress :: "u32 list \<Rightarrow> bytes \<Rightarrow> u32 list"
  assumes block_chained:
    "\<lbrakk>0 < num; 64 * unat num \<le> length data\<rbrakk> \<Longrightarrow> block st data num = chained compress (unat num) st data"
begin

lemma block_one: "length data = 64 \<Longrightarrow> block st data 1 = compress st data"
  using block_chained [of 1 data st] by simp

lemma update_blocks:
  assumes n: "length data < 2 ^ 64" and num: "ctx_num c = 0" and zero: "ctx_data c = replicate 64 0"
  shows "HASH_UPDATE_blocks block data (of_nat (length data)) c =
    c\<lparr>ctx_h := chained compress (length data div 64) (ctx_h c) data,
      ctx_data := partial_block data @ replicate (64 - length data mod 64) 0,
      ctx_num := of_nat (length data mod 64)\<rparr>"
proof (cases "length data div 64 = 0")
  case True
  then have "partial_block data = data" "length data mod 64 = length data"
    by (simp_all add: partial_block_def)
  with True zero num show ?thesis
    by (cases c) (auto simp: HASH_UPDATE_blocks_def size_blocks [OF n] size_eq_0 [OF n] unat_size [OF n] mem_write_def)
next
  case False
  have blocks: "block st data (of_nat (length data div 64)) = chained compress (length data div 64) st data" for st
    using block_chained [of "of_nat (length data div 64)" data st] False
    by (simp add: size_blocks [OF n] word_less_nat_alt)
  have drop: "drop (64 * (length data div 64)) data = partial_block data"
    by (simp add: partial_block_def)
  have take: "take (length data mod 64) (partial_block data) = partial_block data"
    by simp
  have none: "(of_nat (length data mod 64) :: usize) = 0 \<longleftrightarrow> length data mod 64 = 0"
    by (rule size_eq_0) (simp add: less_le_trans [of _ 64])
  note empty = partial_block_none [of data]
  from False zero num show ?thesis
    by (cases c) (auto simp: HASH_UPDATE_blocks_def size_blocks [OF n] blocks drop take none empty mem_write_def word_less_nat_alt Let_def)
qed

text \<open>\<open>HASH_UPDATE\<close> appends to the message collected so far.\<close>

lemma update:
  assumes "length data < 2 ^ 64"
  shows "HASH_UPDATE block data (collected compress c msg) = collected compress c (msg @ data)"
proof (cases "data = []")
  case True
  then show ?thesis
    by (simp add: HASH_UPDATE_def)
next
  case False
  let ?n = "length data" and ?r = "length msg mod 64" and ?p = "partial_block msg"
  define c1 where "c1 = (collected compress c msg)
      \<lparr>ctx_Nl := of_nat (8 * length (msg @ data)), ctx_Nh := of_nat (8 * length (msg @ data) div 4294967296)\<rparr>"
  have l: "ctx_Nl (collected compress c msg) + push_bit 3 (ucast (of_nat ?n :: usize)) = of_nat (8 * length (msg @ data))"
    by (simp add: count_low [of "length msg" ?n, simplified])
  have high: "(if (of_nat (8 * length (msg @ data)) :: u32) < ctx_Nl (collected compress c msg)
       then ctx_Nh (collected compress c msg) + 1 else ctx_Nh (collected compress c msg))
      + ucast (drop_bit 29 (of_nat ?n :: usize)) = of_nat (8 * length (msg @ data) div 4294967296)"
    using count_high [OF assms, of "length msg"] add_carry32 [of "of_nat (8 * length msg)" "push_bit 3 (of_nat ?n)"]
      count_low [of "length msg" ?n]
    by (auto simp: of_bool_def split: if_splits)
  have r: "?r < 64" by simp
  have c1: "(if (of_nat (8 * length (msg @ data)) :: u32) < ctx_Nl (collected compress c msg)
        then (collected compress c msg)\<lparr>ctx_Nh := ctx_Nh (collected compress c msg) + 1\<rparr>
        else collected compress c msg)
      \<lparr>ctx_Nh := ctx_Nh (if (of_nat (8 * length (msg @ data)) :: u32) < ctx_Nl (collected compress c msg)
        then (collected compress c msg)\<lparr>ctx_Nh := ctx_Nh (collected compress c msg) + 1\<rparr>
        else collected compress c msg) + ucast (drop_bit 29 (of_nat ?n :: usize)),
        ctx_Nl := of_nat (8 * length (msg @ data))\<rparr> = c1"
    using high unfolding c1_def by (simp only: md32_ctx.simps split: if_splits) simp_all
  have c1_sel: "ctx_num c1 = of_nat ?r" "ctx_data c1 = ?p @ replicate (64 - ?r) 0"
    by (simp_all add: c1_def)
  have to_c1: "HASH_UPDATE block data (collected compress c msg) =
     (if ?r \<noteq> 0
      then if 64 \<le> ?r + ?n
           then HASH_UPDATE_blocks block (drop (64 - ?r) data) (of_nat (?n - (64 - ?r)))
             (c1\<lparr>ctx_h := block (ctx_h c1) (?p @ take (64 - ?r) data) 1, ctx_num := 0, ctx_data := replicate 64 0\<rparr>)
           else c1\<lparr>ctx_data := ?p @ data @ replicate (64 - ?r - ?n) 0, ctx_num := of_nat (?r + ?n)\<rparr>
      else HASH_UPDATE_blocks block data (of_nat ?n) c1)"
    unfolding HASH_UPDATE_def Let_def l c1
    using False
    by (simp add: size_room [OF assms r] size_eq_0 [OF assms] c1_sel mem_write_def HASH_CBLOCK_def [THEN arg_cong, of unat])
  note parts = chained_append_partial [of compress msg data] partial_block_append [of msg data]
  have collect: "collected compress c (msg @ data) = c1
     \<lparr>ctx_h := chained compress (length (?p @ data) div 64) (ctx_h c1) (?p @ data),
      ctx_data := partial_block (?p @ data) @ replicate (64 - length (?p @ data) mod 64) 0,
      ctx_num := of_nat (length (?p @ data) mod 64)\<rparr>"
  proof -
    have "length (msg @ data) mod 64 = length (?p @ data) mod 64"
      by (simp add: mod_simps)
    then show ?thesis
      unfolding collected_def [of _ _ "msg @ data"] parts by (simp add: c1_def collected_def)
  qed
  consider (aligned) "?r = 0" | (full) "?r \<noteq> 0" "64 \<le> ?r + ?n" | (unfilled) "?r \<noteq> 0" "?r + ?n < 64"
    by linarith
  then show ?thesis
  proof cases
    case aligned
    then have "?p = []"
      by (rule partial_block_none)
    with aligned show ?thesis
      unfolding to_c1 collect by (simp add: update_blocks [OF assms] c1_sel)
  next
    case full
    let ?d = "drop (64 - ?r) data"
    have shorter: "length ?d < 2 ^ 64"
      using assms by simp
    have block: "length (?p @ take (64 - ?r) data) = 64"
      using full by simp
    have split: "?p @ data = (?p @ take (64 - ?r) data) @ ?d"
      by simp
    have len: "length (?p @ data) = 64 + length ?d"
      using full by simp
    have "partial_block (?p @ data) = partial_block ?d"
      unfolding split using block by (intro partial_block_blocks) simp
    moreover have count: "length (?p @ data) div 64 = 1 + length ?d div 64"
      unfolding len by simp
    have "chained compress (length (?p @ data) div 64) st (?p @ data) =
        chained compress (length ?d div 64) (compress st (?p @ take (64 - ?r) data)) ?d" for st
      unfolding count unfolding split
      using chained_append [of "?p @ take (64 - ?r) data" 1 compress "length ?d div 64" st ?d] block by simp
    moreover have "length (?p @ data) mod 64 = length ?d mod 64"
      unfolding len by simp
    moreover have "HASH_UPDATE_blocks block ?d (of_nat (?n - (64 - ?r)))
          (c1\<lparr>ctx_h := h, ctx_num := 0, ctx_data := replicate 64 0\<rparr>) =
        c1\<lparr>ctx_h := chained compress (length ?d div 64) h ?d,
          ctx_data := partial_block ?d @ replicate (64 - length ?d mod 64) 0,
          ctx_num := of_nat (length ?d mod 64)\<rparr>" for h
      using update_blocks [OF shorter, of "c1\<lparr>ctx_h := h, ctx_num := 0, ctx_data := replicate 64 0\<rparr>"]
      by (simp only: length_drop) simp
    ultimately show ?thesis
      using full unfolding to_c1 collect block_one [OF block] by (simp only: if_True simp_thms)
  next
    case unfilled
    define pd where "pd = ?p @ data"
    have len: "length pd = ?r + ?n"
      by (simp add: pd_def)
    then have "length pd div 64 = 0" "length pd mod 64 = ?r + ?n" "partial_block pd = pd"
      using unfilled by (simp_all add: partial_block_def)
    with unfilled show ?thesis
      unfolding to_c1 collect pd_def [symmetric] by (simp add: pd_def)
  qed
qed

lemma final_room:
  assumes "r < 64"
  shows "(ucast (of_nat r :: u32) :: usize) = of_nat r" "unat (of_nat r :: usize) = r"
    "unat (of_nat r + 1 :: usize) = Suc r"
    "HASH_CBLOCK - 8 < of_nat r + 1 \<longleftrightarrow> 56 \<le> r"
    "unat (HASH_CBLOCK - (of_nat r + 1)) = 63 - r"
    "r < 56 \<Longrightarrow> unat (HASH_CBLOCK - 8 - (of_nat r + 1)) = 55 - r"
    "unat (HASH_CBLOCK - 8) = 56" "unat (HASH_CBLOCK - 8 - 0) = 56" "unat HASH_CBLOCK = 64"
proof -
  have n: "(of_nat r + 1 :: usize) = of_nat (Suc r)"
    by simp
  have u: "unat (of_nat (Suc r) :: usize) = Suc r"
    using assms by (intro unat_size) simp
  show "(ucast (of_nat r :: u32) :: usize) = of_nat r" "unat (of_nat r :: usize) = r"
    using size_room(4,5) [of 0 r] assms by simp_all
  show "unat (of_nat r + 1 :: usize) = Suc r"
    unfolding n by (rule u)
  show "HASH_CBLOCK - 8 < of_nat r + 1 \<longleftrightarrow> 56 \<le> r"
    unfolding n word_less_nat_alt u by (auto simp: HASH_CBLOCK_def)
  have "HASH_CBLOCK - (of_nat r + 1) = of_nat (63 - r)"
    unfolding n using assms by (simp add: HASH_CBLOCK_def of_nat_diff)
  then show "unat (HASH_CBLOCK - (of_nat r + 1)) = 63 - r"
    by (simp only:) (rule unat_size, simp)
  show "unat (HASH_CBLOCK - 8 - (of_nat r + 1)) = 55 - r" if "r < 56"
  proof -
    have "HASH_CBLOCK - 8 - (of_nat r + 1) = of_nat (55 - r)"
      unfolding n using that by (simp add: HASH_CBLOCK_def of_nat_diff)
    then show ?thesis
      by (simp only:) (rule unat_size, simp)
  qed
qed (simp_all add: HASH_CBLOCK_def)

text \<open>\<open>HASH_FINAL\<close> is the digest of the whole message, and leaves the open block empty.\<close>

lemma final_data:
  assumes "r < 64" "length rs = r"
  shows "(rs @ replicate (64 - r) 0)[r := x] = rs @ x # replicate (63 - r) 0"
proof -
  have zeros: "replicate (64 - r) 0 = 0 # replicate (63 - r) 0"
    using assms(1) by (simp flip: replicate_Suc)
  show ?thesis
    unfolding zeros using assms(2) by (simp add: list_update_append)
qed

lemma final:
  "HASH_FINAL order block make_string (collected compress c msg) =
     (let c = (collected compress c msg)
            \<lparr>ctx_h := digested order compress (ctx_h c) msg, ctx_num := 0, ctx_data := replicate 64 0\<rparr>
      in (make_string c, c))"
proof -
  let ?r = "length msg mod 64" and ?p = "partial_block msg" and ?l = "length64 order (8 * length msg)"
  let ?c = "collected compress c msg"
  define tail where "tail = [0x80] @ replicate ((119 - ?r) mod 64) 0 @ ?l"
  have r: "?r < 64"
    by simp
  have digested: "digested order compress st msg =
      chained compress (length (?p @ tail) div 64) (chained compress (length msg div 64) st msg) (?p @ tail)" for st
    unfolding digested_def padded_def tail_def [symmetric] by (rule chained_append_partial)
  have len: "(case order of
          BIG_ENDIAN \<Rightarrow> mem_write d p (HOST_l2c order (ctx_Nh ?c) @ HOST_l2c order (ctx_Nl ?c))
        | LITTLE_ENDIAN \<Rightarrow> mem_write d p (HOST_l2c order (ctx_Nl ?c) @ HOST_l2c order (ctx_Nh ?c))) =
      mem_write d p ?l" for d p
    using length64_words [of "8 * length msg"] by (cases order) simp_all
  have d: "(ctx_data ?c)[?r := 0x80] = ?p @ 0x80 # replicate (63 - ?r) 0"
    by (simp add: final_data)
  note room = final_room [OF r]
  show ?thesis
  proof (cases "?r < 56")
    case True
    let ?b = "?p @ 0x80 # replicate (55 - ?r) 0 @ ?l"
    have pad: "(119 - ?r) mod 64 = 55 - ?r"
      using True by (intro pad_short)
    have b: "?p @ tail = ?b" "length ?b = 64"
      using True by (simp_all add: tail_def pad)
    have w: "mem_write (mem_write (?p @ 0x80 # replicate (63 - ?r) 0) (Suc ?r) (replicate (55 - ?r) 0)) 56 ?l = ?b"
      using True by (intro last_block_short) simp_all
    have n: "(56 \<le> ?r) = False"
      using True by simp
    have one: "digested order compress st msg = block (chained compress (length msg div 64) st msg) ?b 1" for st
      unfolding digested b(1) using block_one [OF b(2)] b(2) by simp
    show ?thesis
      unfolding HASH_FINAL_def Let_def one
      using True by (simp only: collected_sel(1,5) room(1-5,7-9) room(6) [OF True] d w len n if_False prod.case
          md32_ctx.simps)
  next
    case False
    let ?b = "?p @ 0x80 # replicate (63 - ?r) 0" and ?e = "replicate 56 0 @ ?l"
    have b: "length ?b = 64" "length ?e = 64"
      using r by simp_all
    have pad: "(119 - ?r) mod 64 = (63 - ?r) + 56"
      using False by simp
    have split: "?p @ tail = ?b @ ?e"
      unfolding tail_def pad replicate_add by simp
    have w: "mem_write ?b (Suc ?r) (replicate (63 - ?r) 0) = ?b"
      using False by (intro last_block_long) simp_all
    have v: "mem_write (mem_write ?b (unat (0 :: usize)) (replicate 56 0)) 56 ?l = ?e"
      using b(1) by (simp add: last_block_length)
    have "chained compress 2 st (?b @ ?e) = compress (compress st ?b) ?e" for st
      using b chained_append [of ?b 1 compress 1 st ?e] by (simp add: numeral_2_eq_2 del: append.simps append_assoc)
    then have two: "digested order compress st msg =
        block (block (chained compress (length msg div 64) st msg) ?b 1) ?e 1" for st
      unfolding digested split using b by (simp add: block_one del: append.simps append_assoc)
    have n: "(56 \<le> ?r) = True"
      using False by simp
    have sel: "ctx_h (?c\<lparr>ctx_h := h\<rparr>) = h" "ctx_Nl (?c\<lparr>ctx_h := h\<rparr>) = ctx_Nl ?c"
      "ctx_Nh (?c\<lparr>ctx_h := h\<rparr>) = ctx_Nh ?c" "?c\<lparr>ctx_h := h, ctx_h := h'\<rparr> = ?c\<lparr>ctx_h := h'\<rparr>" for h h'
      by simp_all
    show ?thesis
      unfolding HASH_FINAL_def Let_def two
      by (simp only: collected_sel(1,5) room(1-5,7-9) d w v sel len n if_True prod.case)
  qed
qed

text \<open>From a fresh context, however the message is cut into updates.\<close>

lemma updates:
  "\<forall>d \<in> set ds. length d < 2 ^ 64 \<Longrightarrow>
     fold (HASH_UPDATE block) ds (collected compress c msg) = collected compress c (msg @ concat ds)"
  by (induction ds arbitrary: msg) (simp_all add: update)

lemma fresh_updates:
  assumes "fresh c" "\<forall>d \<in> set ds. length d < 2 ^ 64"
  shows "fold (HASH_UPDATE block) ds c = collected compress c (concat ds)"
  using updates [OF assms(2), of c "[]"] fresh_collected [OF assms(1)] by simp

lemma fresh_final:
  assumes "fresh c" "\<forall>d \<in> set ds. length d < 2 ^ 64"
  shows "HASH_FINAL order block make_string (fold (HASH_UPDATE block) ds c) =
    (let c = (collected compress c (concat ds))
            \<lparr>ctx_h := digested order compress (ctx_h c) (concat ds), ctx_num := 0, ctx_data := replicate 64 0\<rparr>
      in (make_string c, c))"
  unfolding fresh_updates [OF assms] by (rule final)

text \<open>Every update keeps the arrays of a context at their lengths and the open block open.\<close>

lemma blocks_typed:
  assumes c: "typed_ctx n c" and len: "unat len \<le> length data"
    and compress: "\<And>st b. length st = n \<Longrightarrow> length (compress st b) = n"
  shows "typed_ctx n (HASH_UPDATE_blocks block data len c)"
proof -
  have room: "64 * (unat len div 64) \<le> length data" "unat len mod 64 < 64" "unat len mod 64 \<le> length data"
    using len mult_div_mod_eq [of 64 "unat len"] by linarith+
  have cblock: "unat HASH_CBLOCK = 64"
    by (simp add: HASH_CBLOCK_def)
  have n: "unat (len div HASH_CBLOCK) = unat len div 64" "unat (len - len div HASH_CBLOCK * HASH_CBLOCK) = unat len mod 64"
    by (simp_all add: unat_div cblock minus_div_mult_eq_mod unat_mod)
  have rest: "unat (ucast (len - len div HASH_CBLOCK * HASH_CBLOCK) :: u32) < 64"
    unfolding unsigned_ucast_eq n using room(2) by (simp add: take_bit_nat_eq_self)
  have less: "unat len < 64" if "\<not> 0 < len div HASH_CBLOCK"
    using that n(1) by (simp add: word_less_nat_alt div_eq_0_iff)
  have short: "unat (ucast len :: u32) < 64" if "\<not> 0 < len div HASH_CBLOCK"
    using less [OF that] by (simp add: unsigned_ucast_eq take_bit_nat_eq_self)
  have h: "length (block (ctx_h c) data (len div HASH_CBLOCK)) = n" if "0 < len div HASH_CBLOCK"
    using that c room(1) compress
    by (simp add: block_chained n(1) typed_ctx_def length_chain)
  have w: "length (mem_write (ctx_data c) 0 (take k xs)) = 64" if "k < 64" for k xs
    using c that by (simp add: typed_ctx_def mem_write_def)
  show ?thesis
    using c h rest short w room(2) less n
    by (auto simp: HASH_UPDATE_blocks_def Let_def typed_ctx_def)
qed

lemma update_typed:
  assumes c: "typed_ctx n c" and len: "length data < 2 ^ 64"
    and compress: "\<And>st b. length st = n \<Longrightarrow> length (compress st b) = n"
  shows "typed_ctx n (HASH_UPDATE block data c)"
proof -
  let ?len = "of_nat (length data) :: usize" and ?n = "ucast (ctx_num c) :: usize"
  have sel: "length (ctx_h c) = n" "length (ctx_data c) = 64" "unat (ctx_num c) < 64"
    using c by (simp_all add: typed_ctx_def)
  have num: "unat ?n = unat (ctx_num c)"
    using unat_lt32 [of "ctx_num c"] by (simp add: unsigned_ucast_eq take_bit_nat_eq_self)
  have room: "unat (HASH_CBLOCK - ?n) = 64 - unat (ctx_num c)"
    using sel(3) num by (simp add: HASH_CBLOCK_def unat_sub word_le_nat_alt)
  have sum: "HASH_CBLOCK \<le> ?len \<or> HASH_CBLOCK \<le> ?len + ?n \<longleftrightarrow> 64 \<le> length data + unat (ctx_num c)"
    using sel(3) num unat_size [OF len] len by (auto simp: word_le_nat_alt HASH_CBLOCK_def unat_add64)
  have "typed_ctx n (HASH_UPDATE_blocks block (drop (64 - unat (ctx_num c)) data) (?len - (HASH_CBLOCK - ?n))
      (c'\<lparr>ctx_h := block (ctx_h c) (mem_write (ctx_data c) (unat (ctx_num c)) (take (64 - unat (ctx_num c)) data)) 1,
        ctx_num := 0, ctx_data := replicate (unat HASH_CBLOCK) 0\<rparr>))"
    if "64 \<le> length data + unat (ctx_num c)" for c' :: "'a md32_ctx_scheme"
  proof (rule blocks_typed [OF _ _ compress])
    have le: "HASH_CBLOCK - ?n \<le> ?len"
      using that by (simp add: word_le_nat_alt room unat_size [OF len])
    then show "unat (?len - (HASH_CBLOCK - ?n)) \<le> length (drop (64 - unat (ctx_num c)) data)"
      by (simp add: unat_sub room unat_size [OF len])
    have "length (mem_write (ctx_data c) (unat (ctx_num c)) (take (64 - unat (ctx_num c)) data)) = 64"
      using sel that by (simp add: mem_write_def)
    then show "typed_ctx n (c'\<lparr>ctx_h := block (ctx_h c)
        (mem_write (ctx_data c) (unat (ctx_num c)) (take (64 - unat (ctx_num c)) data)) 1,
        ctx_num := 0, ctx_data := replicate (unat HASH_CBLOCK) 0\<rparr>)"
      using sel compress by (simp add: typed_ctx_def block_one HASH_CBLOCK_def)
  qed
  moreover have "typed_ctx n (HASH_UPDATE_blocks block data ?len c')" if "typed_ctx n c'" for c' :: "'a md32_ctx_scheme"
    by (rule blocks_typed [OF that _ compress]) (simp_all add: unat_size [OF len])
  moreover have "typed_ctx n (c'\<lparr>ctx_data := mem_write (ctx_data c) (unat (ctx_num c)) data,
      ctx_num := ctx_num c + ucast ?len\<rparr>)"
    if "\<not> 64 \<le> length data + unat (ctx_num c)" "ctx_h c' = ctx_h c" for c' :: "'a md32_ctx_scheme"
  proof -
    have "unat (ctx_num c + ucast ?len) = unat (ctx_num c) + length data"
      using that by (simp add: unat_word_ariths unat_of_nat take_bit_nat_eq_self)
    then show ?thesis
      using that sel by (simp add: typed_ctx_def mem_write_def)
  qed
  moreover have "\<exists>c'. ctx_h c' = ctx_h c \<and> typed_ctx n c' \<and>
      HASH_UPDATE block data c =
       (if ?len = 0 then c
        else if ?n \<noteq> 0
        then if 64 \<le> length data + unat (ctx_num c)
             then HASH_UPDATE_blocks block (drop (64 - unat (ctx_num c)) data) (?len - (HASH_CBLOCK - ?n))
               (c'\<lparr>ctx_h := block (ctx_h c) (mem_write (ctx_data c) (unat (ctx_num c)) (take (64 - unat (ctx_num c)) data)) 1,
                 ctx_num := 0, ctx_data := replicate (unat HASH_CBLOCK) 0\<rparr>)
             else c'\<lparr>ctx_data := mem_write (ctx_data c) (unat (ctx_num c)) data, ctx_num := ctx_num c + ucast ?len\<rparr>
        else HASH_UPDATE_blocks block data ?len c')"
  proof -
    define c1 where "c1 = (if ctx_Nl c + push_bit 3 (ucast ?len) < ctx_Nl c then c\<lparr>ctx_Nh := ctx_Nh c + 1\<rparr> else c)"
    define c2 where "c2 = c1\<lparr>ctx_Nh := ctx_Nh c1 + ucast (drop_bit 29 ?len), ctx_Nl := ctx_Nl c + push_bit 3 (ucast ?len)\<rparr>"
    have c2: "ctx_h c2 = ctx_h c" "ctx_data c2 = ctx_data c" "ctx_num c2 = ctx_num c"
      by (simp_all add: c2_def c1_def)
    show ?thesis
      unfolding HASH_UPDATE_def Let_def c1_def [symmetric] c2_def [symmetric] c2 sum room num
      using c c2 by (intro exI [of _ c2]) (simp add: typed_ctx_def)
  qed
  ultimately show ?thesis
    using c by auto
qed

end

end
