(* ===== verification/MD5.thy ===== *)
theory MD5
  imports MD32
begin

text \<open>
  \<open>crypto/fipsmodule/md5/md5.c\<close> and \<open>crypto/fipsmodule/md4/md4.c\<close> (BoringSSL): MD5 and MD4 as instances of
  the collector of \<open>md32_common.h\<close>, with the low-order byte first.  Each block function is a sequence of macro
  calls; call \<open>i\<close> passes the variables \<open>A, B, C, D\<close> rotated by \<open>i\<close> places, and a word of the block, a rotation
  and a constant that the tables below list in the order of the calls.  The references are RFC 1321 and RFC 1320,
  with the order of the words and the rotations by formula and the auxiliary functions in the RFCs' form.
\<close>

section \<open>Calls on four rotating variables\<close>

text \<open>The variable in place \<open>k\<close> of call \<open>i\<close>; the call assigns to the one in place 0.\<close>

definition place :: "nat \<Rightarrow> nat \<Rightarrow> nat" where
  "place i k = (k + 3 * i) mod 4"

definition call4 :: "(u32 \<Rightarrow> u32 \<Rightarrow> u32 \<Rightarrow> u32 \<Rightarrow> u32) \<Rightarrow> nat \<Rightarrow> u32 list \<Rightarrow> u32 list" where
  "call4 R i V = V[place i 0 := R (V ! place i 0) (V ! place i 1) (V ! place i 2) (V ! place i 3)]"

section \<open>MD5\<close>

definition MD5_Init :: md32_ctx where
  "MD5_Init = \<lparr>ctx_h = [0x67452301, 0xefcdab89, 0x98badcfe, 0x10325476],
     ctx_Nl = 0, ctx_Nh = 0, ctx_data = replicate 64 0, ctx_num = 0\<rparr>"

definition MD5_F :: "u32 \<Rightarrow> u32 \<Rightarrow> u32 \<Rightarrow> u32" where "MD5_F b c d = ((c XOR d) AND b) XOR d"
definition MD5_G :: "u32 \<Rightarrow> u32 \<Rightarrow> u32 \<Rightarrow> u32" where "MD5_G b c d = ((b XOR c) AND d) XOR c"
definition MD5_H :: "u32 \<Rightarrow> u32 \<Rightarrow> u32 \<Rightarrow> u32" where "MD5_H b c d = b XOR c XOR d"
definition MD5_I :: "u32 \<Rightarrow> u32 \<Rightarrow> u32 \<Rightarrow> u32" where "MD5_I b c d = (NOT d OR b) XOR c"

definition MD5_R0 :: "u32 \<Rightarrow> nat \<Rightarrow> u32 \<Rightarrow> u32 \<Rightarrow> u32 \<Rightarrow> u32 \<Rightarrow> u32 \<Rightarrow> u32" where
  "MD5_R0 k s t a b c d = (let a = a + (k + t + MD5_F b c d); a = ROTATE a s; a = a + b in a)"

definition MD5_R1 :: "u32 \<Rightarrow> nat \<Rightarrow> u32 \<Rightarrow> u32 \<Rightarrow> u32 \<Rightarrow> u32 \<Rightarrow> u32 \<Rightarrow> u32" where
  "MD5_R1 k s t a b c d = (let a = a + (k + t + MD5_G b c d); a = ROTATE a s; a = a + b in a)"

definition MD5_R2 :: "u32 \<Rightarrow> nat \<Rightarrow> u32 \<Rightarrow> u32 \<Rightarrow> u32 \<Rightarrow> u32 \<Rightarrow> u32 \<Rightarrow> u32" where
  "MD5_R2 k s t a b c d = (let a = a + (k + t + MD5_H b c d); a = ROTATE a s; a = a + b in a)"

definition MD5_R3 :: "u32 \<Rightarrow> nat \<Rightarrow> u32 \<Rightarrow> u32 \<Rightarrow> u32 \<Rightarrow> u32 \<Rightarrow> u32 \<Rightarrow> u32" where
  "MD5_R3 k s t a b c d = (let a = a + (k + t + MD5_I b c d); a = ROTATE a s; a = a + b in a)"

definition MD5_calls :: "(nat \<times> nat \<times> u32) list" where
  "MD5_calls =
   [(0, 7, 0xd76aa478), (1, 12, 0xe8c7b756), (2, 17, 0x242070db), (3, 22, 0xc1bdceee),
    (4, 7, 0xf57c0faf), (5, 12, 0x4787c62a), (6, 17, 0xa8304613), (7, 22, 0xfd469501),
    (8, 7, 0x698098d8), (9, 12, 0x8b44f7af), (10, 17, 0xffff5bb1), (11, 22, 0x895cd7be),
    (12, 7, 0x6b901122), (13, 12, 0xfd987193), (14, 17, 0xa679438e), (15, 22, 0x49b40821),
    (1, 5, 0xf61e2562), (6, 9, 0xc040b340), (11, 14, 0x265e5a51), (0, 20, 0xe9b6c7aa),
    (5, 5, 0xd62f105d), (10, 9, 0x02441453), (15, 14, 0xd8a1e681), (4, 20, 0xe7d3fbc8),
    (9, 5, 0x21e1cde6), (14, 9, 0xc33707d6), (3, 14, 0xf4d50d87), (8, 20, 0x455a14ed),
    (13, 5, 0xa9e3e905), (2, 9, 0xfcefa3f8), (7, 14, 0x676f02d9), (12, 20, 0x8d2a4c8a),
    (5, 4, 0xfffa3942), (8, 11, 0x8771f681), (11, 16, 0x6d9d6122), (14, 23, 0xfde5380c),
    (1, 4, 0xa4beea44), (4, 11, 0x4bdecfa9), (7, 16, 0xf6bb4b60), (10, 23, 0xbebfbc70),
    (13, 4, 0x289b7ec6), (0, 11, 0xeaa127fa), (3, 16, 0xd4ef3085), (6, 23, 0x04881d05),
    (9, 4, 0xd9d4d039), (12, 11, 0xe6db99e5), (15, 16, 0x1fa27cf8), (2, 23, 0xc4ac5665),
    (0, 6, 0xf4292244), (7, 10, 0x432aff97), (14, 15, 0xab9423a7), (5, 21, 0xfc93a039),
    (12, 6, 0x655b59c3), (3, 10, 0x8f0ccc92), (10, 15, 0xffeff47d), (1, 21, 0x85845dd1),
    (8, 6, 0x6fa87e4f), (15, 10, 0xfe2ce6e0), (6, 15, 0xa3014314), (13, 21, 0x4e0811a1),
    (4, 6, 0xf7537e82), (11, 10, 0xbd3af235), (2, 15, 0x2ad7d2bb), (9, 21, 0xeb86d391)]"

definition MD5_call :: "bytes \<Rightarrow> nat \<Rightarrow> u32 \<Rightarrow> u32 \<Rightarrow> u32 \<Rightarrow> u32 \<Rightarrow> u32" where
  "MD5_call data i =
     (let (k, s, t) = MD5_calls ! i;
          X = block_word LITTLE_ENDIAN data k
      in if i < 16 then MD5_R0 X s t else if i < 32 then MD5_R1 X s t
         else if i < 48 then MD5_R2 X s t else MD5_R3 X s t)"

text \<open>One turn of \<open>for (; num--;)\<close>: \<open>A\<close> to \<open>D\<close> end it equal to the state.\<close>

definition md5_block :: "u32 list \<Rightarrow> bytes \<Rightarrow> u32 list" where
  "md5_block state data =
     (let V = fold (\<lambda>i. call4 (MD5_call data i) i) [0..<64] [state ! 0, state ! 1, state ! 2, state ! 3]
      in [state ! 0 + V ! 0, state ! 1 + V ! 1, state ! 2 + V ! 2, state ! 3 + V ! 3])"

function md5_block_data_order :: block_function where
  "md5_block_data_order state data num =
     (if num = 0 then state
      else md5_block_data_order (md5_block state data) (drop 64 data) (num - 1))"
  by pat_completeness auto
termination
  by (relation "measure (\<lambda>(_, _, num). unat num)") (auto simp: unat_minus_one unat_gt_0)

declare md5_block_data_order.simps [simp del]

definition MD5_Update :: "bytes \<Rightarrow> md32_ctx \<Rightarrow> md32_ctx" where
  "MD5_Update = HASH_UPDATE md5_block_data_order"

definition MD5_Transform :: "bytes \<Rightarrow> md32_ctx \<Rightarrow> md32_ctx" where
  "MD5_Transform = HASH_TRANSFORM md5_block_data_order"

definition MD5_make_string :: "md32_ctx \<Rightarrow> bytes option" where
  "MD5_make_string c = Some
     (HOST_l2c LITTLE_ENDIAN (ctx_h c ! 0) @ HOST_l2c LITTLE_ENDIAN (ctx_h c ! 1) @
      HOST_l2c LITTLE_ENDIAN (ctx_h c ! 2) @ HOST_l2c LITTLE_ENDIAN (ctx_h c ! 3))"

definition MD5_Final :: "md32_ctx \<Rightarrow> bytes option \<times> md32_ctx" where
  "MD5_Final = HASH_FINAL LITTLE_ENDIAN md5_block_data_order MD5_make_string"

definition MD5 :: "bytes \<Rightarrow> bytes option" where
  "MD5 data = fst (MD5_Final (MD5_Update data MD5_Init))"

section \<open>MD4\<close>

definition MD4_Init :: md32_ctx where
  "MD4_Init = \<lparr>ctx_h = [0x67452301, 0xefcdab89, 0x98badcfe, 0x10325476],
     ctx_Nl = 0, ctx_Nh = 0, ctx_data = replicate 64 0, ctx_num = 0\<rparr>"

definition MD4_F :: "u32 \<Rightarrow> u32 \<Rightarrow> u32 \<Rightarrow> u32" where "MD4_F b c d = ((c XOR d) AND b) XOR d"
definition MD4_G :: "u32 \<Rightarrow> u32 \<Rightarrow> u32 \<Rightarrow> u32" where "MD4_G b c d = (b AND c) OR (b AND d) OR (c AND d)"
definition MD4_H :: "u32 \<Rightarrow> u32 \<Rightarrow> u32 \<Rightarrow> u32" where "MD4_H b c d = b XOR c XOR d"

definition MD4_R0 :: "u32 \<Rightarrow> nat \<Rightarrow> u32 \<Rightarrow> u32 \<Rightarrow> u32 \<Rightarrow> u32 \<Rightarrow> u32 \<Rightarrow> u32" where
  "MD4_R0 k s t a b c d = (let a = a + (k + t + MD4_F b c d); a = ROTATE a s in a)"

definition MD4_R1 :: "u32 \<Rightarrow> nat \<Rightarrow> u32 \<Rightarrow> u32 \<Rightarrow> u32 \<Rightarrow> u32 \<Rightarrow> u32 \<Rightarrow> u32" where
  "MD4_R1 k s t a b c d = (let a = a + (k + t + MD4_G b c d); a = ROTATE a s in a)"

definition MD4_R2 :: "u32 \<Rightarrow> nat \<Rightarrow> u32 \<Rightarrow> u32 \<Rightarrow> u32 \<Rightarrow> u32 \<Rightarrow> u32 \<Rightarrow> u32" where
  "MD4_R2 k s t a b c d = (let a = a + (k + t + MD4_H b c d); a = ROTATE a s in a)"

definition MD4_calls :: "(nat \<times> nat \<times> u32) list" where
  "MD4_calls =
   [(0, 3, 0), (1, 7, 0), (2, 11, 0), (3, 19, 0),
    (4, 3, 0), (5, 7, 0), (6, 11, 0), (7, 19, 0),
    (8, 3, 0), (9, 7, 0), (10, 11, 0), (11, 19, 0),
    (12, 3, 0), (13, 7, 0), (14, 11, 0), (15, 19, 0),
    (0, 3, 0x5A827999), (4, 5, 0x5A827999), (8, 9, 0x5A827999), (12, 13, 0x5A827999),
    (1, 3, 0x5A827999), (5, 5, 0x5A827999), (9, 9, 0x5A827999), (13, 13, 0x5A827999),
    (2, 3, 0x5A827999), (6, 5, 0x5A827999), (10, 9, 0x5A827999), (14, 13, 0x5A827999),
    (3, 3, 0x5A827999), (7, 5, 0x5A827999), (11, 9, 0x5A827999), (15, 13, 0x5A827999),
    (0, 3, 0x6ED9EBA1), (8, 9, 0x6ED9EBA1), (4, 11, 0x6ED9EBA1), (12, 15, 0x6ED9EBA1),
    (2, 3, 0x6ED9EBA1), (10, 9, 0x6ED9EBA1), (6, 11, 0x6ED9EBA1), (14, 15, 0x6ED9EBA1),
    (1, 3, 0x6ED9EBA1), (9, 9, 0x6ED9EBA1), (5, 11, 0x6ED9EBA1), (13, 15, 0x6ED9EBA1),
    (3, 3, 0x6ED9EBA1), (11, 9, 0x6ED9EBA1), (7, 11, 0x6ED9EBA1), (15, 15, 0x6ED9EBA1)]"

definition MD4_call :: "bytes \<Rightarrow> nat \<Rightarrow> u32 \<Rightarrow> u32 \<Rightarrow> u32 \<Rightarrow> u32 \<Rightarrow> u32" where
  "MD4_call data i =
     (let (k, s, t) = MD4_calls ! i;
          X = block_word LITTLE_ENDIAN data k
      in if i < 16 then MD4_R0 X s t else if i < 32 then MD4_R1 X s t else MD4_R2 X s t)"

definition md4_block :: "u32 list \<Rightarrow> bytes \<Rightarrow> u32 list" where
  "md4_block state data =
     (let V = fold (\<lambda>i. call4 (MD4_call data i) i) [0..<48] [state ! 0, state ! 1, state ! 2, state ! 3]
      in [state ! 0 + V ! 0, state ! 1 + V ! 1, state ! 2 + V ! 2, state ! 3 + V ! 3])"

function md4_block_data_order :: block_function where
  "md4_block_data_order state data num =
     (if num = 0 then state
      else md4_block_data_order (md4_block state data) (drop 64 data) (num - 1))"
  by pat_completeness auto
termination
  by (relation "measure (\<lambda>(_, _, num). unat num)") (auto simp: unat_minus_one unat_gt_0)

declare md4_block_data_order.simps [simp del]

definition MD4_Update :: "bytes \<Rightarrow> md32_ctx \<Rightarrow> md32_ctx" where
  "MD4_Update = HASH_UPDATE md4_block_data_order"

definition MD4_Transform :: "bytes \<Rightarrow> md32_ctx \<Rightarrow> md32_ctx" where
  "MD4_Transform = HASH_TRANSFORM md4_block_data_order"

definition MD4_make_string :: "md32_ctx \<Rightarrow> bytes option" where
  "MD4_make_string c = Some
     (HOST_l2c LITTLE_ENDIAN (ctx_h c ! 0) @ HOST_l2c LITTLE_ENDIAN (ctx_h c ! 1) @
      HOST_l2c LITTLE_ENDIAN (ctx_h c ! 2) @ HOST_l2c LITTLE_ENDIAN (ctx_h c ! 3))"

definition MD4_Final :: "md32_ctx \<Rightarrow> bytes option \<times> md32_ctx" where
  "MD4_Final = HASH_FINAL LITTLE_ENDIAN md4_block_data_order MD4_make_string"

definition MD4 :: "bytes \<Rightarrow> bytes option" where
  "MD4 data = fst (MD4_Final (MD4_Update data MD4_Init))"

section \<open>The references: RFC 1321 and RFC 1320\<close>

type_synonym regs4 = "u32 \<times> u32 \<times> u32 \<times> u32"

text \<open>An operation \<open>[abcd k s i]\<close> of the RFCs assigns to \<open>a\<close>, and the next one has the registers one place on.\<close>

definition turn4 :: "(u32 \<Rightarrow> u32 \<Rightarrow> u32 \<Rightarrow> u32 \<Rightarrow> u32) \<Rightarrow> regs4 \<Rightarrow> regs4" where
  "turn4 R s = (let (a, b, c, d) = s in (d, R a b c d, b, c))"

definition rfc1321_row :: "nat \<Rightarrow> nat \<times> nat" where
  "rfc1321_row i =
     (if i < 16 then i else if i < 32 then (5 * i + 1) mod 16
      else if i < 48 then (3 * i + 5) mod 16 else (7 * i) mod 16,
      [7, 12, 17, 22, 5, 9, 14, 20, 4, 11, 16, 23, 6, 10, 15, 21] ! (4 * (i div 16) + i mod 4))"

definition rfc1321_op :: "(nat \<Rightarrow> u32) \<Rightarrow> nat \<Rightarrow> u32 \<Rightarrow> u32 \<Rightarrow> u32 \<Rightarrow> u32 \<Rightarrow> u32" where
  "rfc1321_op X i a b c d =
     (let f = (if i < 16 then (b AND c) OR (NOT b AND d) else if i < 32 then (b AND d) OR (c AND NOT d)
               else if i < 48 then b XOR c XOR d else c XOR (b OR NOT d));
          (k, s) = rfc1321_row i;
          T = snd (snd (MD5_calls ! i))
      in b + word_rotl s (a + f + X k + T))"

definition rfc1320_row :: "nat \<Rightarrow> nat \<times> nat" where
  "rfc1320_row i =
     (let j = i mod 16
      in (if i < 16 then i else if i < 32 then 4 * (j mod 4) + j div 4
          else 8 * (j mod 2) + 4 * (j div 2 mod 2) + 2 * (j div 4 mod 2) + j div 8,
          [3, 7, 11, 19, 3, 5, 9, 13, 3, 9, 11, 15] ! (4 * (i div 16) + i mod 4)))"

definition rfc1320_op :: "(nat \<Rightarrow> u32) \<Rightarrow> nat \<Rightarrow> u32 \<Rightarrow> u32 \<Rightarrow> u32 \<Rightarrow> u32 \<Rightarrow> u32" where
  "rfc1320_op X i a b c d =
     (let f = (if i < 16 then (b AND c) OR (NOT b AND d) else if i < 32 then (b AND c) OR (b AND d) OR (c AND d)
               else b XOR c XOR d);
          (k, s) = rfc1320_row i;
          C = (if i < 16 then 0 else if i < 32 then 0x5A827999 else 0x6ED9EBA1)
      in word_rotl s (a + f + X k + C))"

definition rfc_compress4 :: "((nat \<Rightarrow> u32) \<Rightarrow> nat \<Rightarrow> u32 \<Rightarrow> u32 \<Rightarrow> u32 \<Rightarrow> u32 \<Rightarrow> u32) \<Rightarrow> nat \<Rightarrow> u32 list \<Rightarrow> bytes \<Rightarrow> u32 list" where
  "rfc_compress4 op n H block =
     (let (a, b, c, d) = fold (\<lambda>i. turn4 (op (block_word LITTLE_ENDIAN block) i)) [0..<n] (H ! 0, H ! 1, H ! 2, H ! 3)
      in [H ! 0 + a, H ! 1 + b, H ! 2 + c, H ! 3 + d])"

definition rfc1321_digest :: "bytes \<Rightarrow> bytes" where
  "rfc1321_digest msg = concat (map (\<lambda>w. le_bytes 4 (unat w))
     (digested LITTLE_ENDIAN (rfc_compress4 rfc1321_op 64) [0x67452301, 0xefcdab89, 0x98badcfe, 0x10325476] msg))"

definition rfc1320_digest :: "bytes \<Rightarrow> bytes" where
  "rfc1320_digest msg = concat (map (\<lambda>w. le_bytes 4 (unat w))
     (digested LITTLE_ENDIAN (rfc_compress4 rfc1320_op 48) [0x67452301, 0xefcdab89, 0x98badcfe, 0x10325476] msg))"

section \<open>Rotating variables are a rotating state\<close>

lemma place_less [simp]: "place i k < 4"
  by (simp add: place_def)

lemma place_Suc: "0 < k \<Longrightarrow> place (Suc i) k = place i (k - 1)" "place (Suc i) 0 = place i 3"
proof -
  have "k + 3 * Suc i = (k - 1 + 3 * i) + 4" if "0 < k"
    using that by simp
  then show "0 < k \<Longrightarrow> place (Suc i) k = place i (k - 1)"
    unfolding place_def by (metis mod_add_self2)
qed (simp add: place_def)

lemma place_eq: "j < 4 \<Longrightarrow> k < 4 \<Longrightarrow> place i j = place i k \<longleftrightarrow> j = k"
proof -
  have le: "place i j = place i k \<Longrightarrow> j = k" if "j \<le> k" "k < 4" for j k
  proof -
    assume "place i j = place i k"
    then have "4 dvd (k + 3 * i) - (j + 3 * i)"
      unfolding place_def using that by (metis add_le_cancel_right mod_eq_dvd_iff_nat)
    then show "j = k"
      using that by (auto dest: dvd_imp_le)
  qed
  show "j < 4 \<Longrightarrow> k < 4 \<Longrightarrow> place i j = place i k \<longleftrightarrow> j = k"
    using le [of j k] le [of k j] by (cases "j \<le> k") auto
qed

definition in_place :: "nat \<Rightarrow> regs4 \<Rightarrow> u32 list \<Rightarrow> bool" where
  "in_place i s V = (length V = 4 \<and> s = (V ! place i 0, V ! place i 1, V ! place i 2, V ! place i 3))"

lemma call4_turn4: "in_place i s V \<Longrightarrow> in_place (Suc i) (turn4 R s) (call4 R i V)"
  by (auto simp: in_place_def turn4_def call4_def place_Suc place_eq)

lemma calls_turns:
  "length V = 4 \<Longrightarrow> in_place n (fold (\<lambda>i. turn4 (R i)) [0..<n] (V ! 0, V ! 1, V ! 2, V ! 3)) (fold (\<lambda>i. call4 (R i) i) [0..<n] V)"
  by (induction n) (simp_all add: call4_turn4, simp add: in_place_def place_def)

section \<open>The tables and the auxiliary functions are those of the RFCs\<close>

definition row_ok :: "nat \<times> nat \<Rightarrow> nat \<times> nat \<times> u32 \<Rightarrow> bool" where
  "row_ok r c \<longleftrightarrow> (case c of (k, s, t) \<Rightarrow> k < 16 \<and> 0 < s \<and> s < 32 \<and> (k, s) = r)"

lemma MD5_rows: "list_all (\<lambda>i. row_ok (rfc1321_row i) (MD5_calls ! i)) [0..<64]"
  by code_simp

lemma MD4_rows:
  "list_all (\<lambda>i. row_ok (rfc1320_row i) (MD4_calls ! i) \<and>
     snd (snd (MD4_calls ! i)) = (if i < 16 then 0 else if i < 32 then 0x5A827999 else 0x6ED9EBA1)) [0..<48]"
  by code_simp

lemma MD5_aux:
  "MD5_F b c d = (b AND c) OR (NOT b AND d)" "MD5_G b c d = (b AND d) OR (c AND NOT d)"
  "MD5_I b c d = c XOR (b OR NOT d)" "MD4_F b c d = (b AND c) OR (NOT b AND d)"
  by (rule bit_word_eqI; auto simp: MD5_F_def MD5_G_def MD5_I_def MD4_F_def bit_simps)+

lemma list_all_upt: "list_all P [0..<n] \<Longrightarrow> i < n \<Longrightarrow> P i"
  by (simp only: list_all_iff set_upt) auto

lemma MD5_call_rfc:
  assumes "i < 64"
  shows "MD5_call data i = rfc1321_op (block_word LITTLE_ENDIAN data) i"
proof -
  have "row_ok (rfc1321_row i) (MD5_calls ! i)"
    by (rule list_all_upt [OF MD5_rows assms])
  then obtain k s t where "MD5_calls ! i = (k, s, t)" "rfc1321_row i = (k, s)" "0 < s" "s < 32"
    by (auto simp: row_ok_def)
  then show ?thesis
    by (auto simp: MD5_call_def rfc1321_op_def MD5_R0_def MD5_R1_def MD5_R2_def MD5_R3_def MD5_H_def MD5_aux
        ROTATE_rotl Let_def ac_simps fun_eq_iff)
qed

lemma MD4_call_rfc:
  assumes "i < 48"
  shows "MD4_call data i = rfc1320_op (block_word LITTLE_ENDIAN data) i"
proof -
  have "row_ok (rfc1320_row i) (MD4_calls ! i) \<and>
     snd (snd (MD4_calls ! i)) = (if i < 16 then 0 else if i < 32 then 0x5A827999 else 0x6ED9EBA1)"
    by (rule list_all_upt [OF MD4_rows assms])
  then obtain k s t where "MD4_calls ! i = (k, s, t)" "rfc1320_row i = (k, s)" "0 < s" "s < 32"
      "t = (if i < 16 then 0 else if i < 32 then 0x5A827999 else 0x6ED9EBA1)"
    by (auto simp: row_ok_def)
  then show ?thesis
    by (auto simp: MD4_call_def rfc1320_op_def MD4_R0_def MD4_R1_def MD4_R2_def MD4_G_def MD4_H_def MD5_aux
        ROTATE_rotl Let_def ac_simps fun_eq_iff)
qed

section \<open>The block functions chain the compression functions of the RFCs\<close>

lemma fold_upt_cong: "(\<And>i. i < n \<Longrightarrow> f i = g i) \<Longrightarrow> fold f [0..<n] = fold g [0..<n]"
  by (rule ext, rule fold_cong) simp_all

lemma calls_compress:
  assumes "\<And>i. i < n \<Longrightarrow> R i = op (block_word LITTLE_ENDIAN data) i" "n mod 4 = 0"
  shows "(let V = fold (\<lambda>i. call4 (R i) i) [0..<n] [st ! 0, st ! 1, st ! 2, st ! 3]
      in [st ! 0 + V ! 0, st ! 1 + V ! 1, st ! 2 + V ! 2, st ! 3 + V ! 3]) = rfc_compress4 op n st data"
proof -
  let ?V = "fold (\<lambda>i. call4 (R i) i) [0..<n] [st ! 0, st ! 1, st ! 2, st ! 3]"
  have "place n k = k mod 4" for k
  proof -
    obtain m where "n = 4 * m"
      using assms(2) by (auto simp: mod_eq_0_iff_dvd)
    then have "k + 3 * n = k + (3 * m) * 4"
      by simp
    then show ?thesis
      unfolding place_def by (metis mod_mult_self1)
  qed
  moreover have "in_place n (fold (\<lambda>i. turn4 (R i)) [0..<n] (st ! 0, st ! 1, st ! 2, st ! 3)) ?V"
    using calls_turns [of "[st ! 0, st ! 1, st ! 2, st ! 3]" n R] by simp
  ultimately have "fold (\<lambda>i. turn4 (R i)) [0..<n] (st ! 0, st ! 1, st ! 2, st ! 3) = (?V ! 0, ?V ! 1, ?V ! 2, ?V ! 3)"
    by (simp add: in_place_def)
  moreover have "fold (\<lambda>i. turn4 (R i)) [0..<n] = fold (\<lambda>i. turn4 (op (block_word LITTLE_ENDIAN data) i)) [0..<n]"
    by (rule fold_upt_cong) (simp add: assms(1))
  ultimately show ?thesis
    by (simp add: rfc_compress4_def Let_def)
qed

lemma rfc_compress4_take:
  assumes "\<And>i X Y. i < n \<Longrightarrow> (\<And>k. k < 16 \<Longrightarrow> X k = Y k) \<Longrightarrow> op X i = op Y i"
  shows "rfc_compress4 op n st (take 64 data) = rfc_compress4 op n st data"
proof -
  have "fold (\<lambda>i. turn4 (op (block_word LITTLE_ENDIAN (take 64 data)) i)) [0..<n] =
      fold (\<lambda>i. turn4 (op (block_word LITTLE_ENDIAN data) i)) [0..<n]"
    by (rule fold_upt_cong) (subst assms [of _ "block_word LITTLE_ENDIAN (take 64 data)"], simp_all add: block_word_take)
  then show ?thesis
    by (simp only: rfc_compress4_def)
qed

lemma rfc1321_op_cong: "i < 64 \<Longrightarrow> (\<And>k. k < 16 \<Longrightarrow> X k = Y k) \<Longrightarrow> rfc1321_op X i = rfc1321_op Y i"
  by (auto simp: rfc1321_op_def rfc1321_row_def fun_eq_iff Let_def)

lemma rfc1320_op_cong: "i < 48 \<Longrightarrow> (\<And>k. k < 16 \<Longrightarrow> X k = Y k) \<Longrightarrow> rfc1320_op X i = rfc1320_op Y i"
  using list_all_upt [OF MD4_rows, of i]
  by (auto simp: rfc1320_op_def row_ok_def fun_eq_iff Let_def split: prod.splits)

lemma md5_block_rfc: "md5_block st data = rfc_compress4 rfc1321_op 64 st data"
  unfolding md5_block_def by (rule calls_compress) (simp_all add: MD5_call_rfc)

lemma md5_block_data_order_chained:
  "md5_block_data_order st data num = chained (rfc_compress4 rfc1321_op 64) (unat num) st data"
proof (induction st data num rule: md5_block_data_order.induct)
  case (1 st data num)
  show ?case
  proof (cases "num = 0")
    case False
    then have "unat num = Suc (unat (num - 1))"
      by (metis Suc_pred' unat_gt_0 unat_minus_one)
    with 1 False show ?thesis
      by (simp add: md5_block_data_order.simps [of st data num] md5_block_rfc rfc_compress4_take [OF rfc1321_op_cong])
  qed (simp add: md5_block_data_order.simps [of st data 0])
qed

interpretation md5: block_chaining md5_block_data_order "rfc_compress4 rfc1321_op 64"
  by unfold_locales (rule md5_block_data_order_chained)

lemma md4_block_rfc: "md4_block st data = rfc_compress4 rfc1320_op 48 st data"
  unfolding md4_block_def by (rule calls_compress) (simp_all add: MD4_call_rfc)

lemma md4_block_data_order_chained:
  "md4_block_data_order st data num = chained (rfc_compress4 rfc1320_op 48) (unat num) st data"
proof (induction st data num rule: md4_block_data_order.induct)
  case (1 st data num)
  show ?case
  proof (cases "num = 0")
    case False
    then have "unat num = Suc (unat (num - 1))"
      by (metis Suc_pred' unat_gt_0 unat_minus_one)
    with 1 False show ?thesis
      by (simp add: md4_block_data_order.simps [of st data num] md4_block_rfc rfc_compress4_take [OF rfc1320_op_cong])
  qed (simp add: md4_block_data_order.simps [of st data 0])
qed

interpretation md4: block_chaining md4_block_data_order "rfc_compress4 rfc1320_op 48"
  by unfold_locales (rule md4_block_data_order_chained)

section \<open>The digests\<close>

lemma length_chained4: "length H = 4 \<Longrightarrow> length (chained (rfc_compress4 op n) k H data) = 4"
  by (induction k arbitrary: H data) (simp_all add: rfc_compress4_def Let_def split_beta)

lemma make_string_words:
  assumes "length (ctx_h c) = 4"
  shows "MD5_make_string c = Some (concat (map (\<lambda>w. le_bytes 4 (unat w)) (ctx_h c)))"
    "MD4_make_string c = Some (concat (map (\<lambda>w. le_bytes 4 (unat w)) (ctx_h c)))"
proof -
  obtain x y z w where "ctx_h c = [x, y, z, w]"
    using assms by (auto simp: length_Suc_conv eval_nat_numeral)
  then show "MD5_make_string c = Some (concat (map (\<lambda>w. le_bytes 4 (unat w)) (ctx_h c)))"
    "MD4_make_string c = Some (concat (map (\<lambda>w. le_bytes 4 (unat w)) (ctx_h c)))"
    by (simp_all add: MD5_make_string_def MD4_make_string_def HOST_l2c_eq nth_Cons_numeral)
qed

text \<open>
  Hashing a message in any number of updates, cut anywhere, gives the MD5 digest of RFC 1321 and
  the MD4 digest of RFC 1320 of the whole message.
\<close>

lemma MD5_MD4_streamed:
  assumes "\<forall>d \<in> set ds. length d < 2 ^ 64"
  shows "fst (MD5_Final (fold MD5_Update ds MD5_Init)) = Some (rfc1321_digest (concat ds))"
    and "fst (MD4_Final (fold MD4_Update ds MD4_Init)) = Some (rfc1320_digest (concat ds))"
proof -
  have fresh: "fresh MD5_Init" "fresh MD4_Init"
    by (simp_all add: fresh_def MD5_Init_def MD4_Init_def)
  show "fst (MD5_Final (fold MD5_Update ds MD5_Init)) = Some (rfc1321_digest (concat ds))"
    unfolding MD5_Final_def MD5_Update_def md5.fresh_final [OF fresh(1) assms] Let_def fst_conv rfc1321_digest_def
    by (subst make_string_words) (simp_all add: digested_def length_chained4 MD5_Init_def)
  show "fst (MD4_Final (fold MD4_Update ds MD4_Init)) = Some (rfc1320_digest (concat ds))"
    unfolding MD4_Final_def MD4_Update_def md4.fresh_final [OF fresh(2) assms] Let_def fst_conv rfc1320_digest_def
    by (subst make_string_words) (simp_all add: digested_def length_chained4 MD4_Init_def)
qed

end
