(* ===== verification/SHA1.thy ===== *)
theory SHA1
  imports MD32
begin

text \<open>
  \<open>crypto/fipsmodule/sha/sha1.c\<close> (BoringSSL): SHA-1 as an instance of the collector of \<open>md32_common.h\<close>.
  The block function is eighty macro calls.  Call \<open>i\<close> passes the six variables \<open>A, B, C, D, E, T\<close> rotated by
  \<open>i\<close> places, and from call 16 on the words \<open>X(i)\<close>, \<open>X(i + 2)\<close>, \<open>X(i + 8)\<close> and \<open>X(i + 13)\<close> of a ring of sixteen;
  the model makes the calls in that order with the arguments computed from \<open>i\<close>.  The reference is
  RFC 3174, method 1.
\<close>

section \<open>The context\<close>

definition SHA1_Init :: md32_ctx where
  "SHA1_Init = \<lparr>ctx_h = [0x67452301, 0xefcdab89, 0x98badcfe, 0x10325476, 0xc3d2e1f0],
     ctx_Nl = 0, ctx_Nh = 0, ctx_data = replicate 64 0, ctx_num = 0\<rparr>"

section \<open>The rounds\<close>

definition K_00_19 :: u32 where "K_00_19 = 0x5a827999"
definition K_20_39 :: u32 where "K_20_39 = 0x6ed9eba1"
definition K_40_59 :: u32 where "K_40_59 = 0x8f1bbcdc"
definition K_60_79 :: u32 where "K_60_79 = 0xca62c1d6"

definition F_00_19 :: "u32 \<Rightarrow> u32 \<Rightarrow> u32 \<Rightarrow> u32" where "F_00_19 b c d = ((c XOR d) AND b) XOR d"
definition F_20_39 :: "u32 \<Rightarrow> u32 \<Rightarrow> u32 \<Rightarrow> u32" where "F_20_39 b c d = b XOR c XOR d"
definition F_40_59 :: "u32 \<Rightarrow> u32 \<Rightarrow> u32 \<Rightarrow> u32" where "F_40_59 b c d = (b AND c) OR ((b OR c) AND d)"
definition F_60_79 :: "u32 \<Rightarrow> u32 \<Rightarrow> u32 \<Rightarrow> u32" where "F_60_79 b c d = F_20_39 b c d"

text \<open>
  The macros assign to \<open>f\<close>, \<open>b\<close> and, through \<open>Xupdate\<close>, to a word of the ring: the new values of the three.
\<close>

definition Xupdate :: "u32 \<Rightarrow> u32 \<Rightarrow> u32 \<Rightarrow> u32 \<Rightarrow> u32" where
  "Xupdate xa xb xc xd = ROTATE (xa XOR xb XOR xc XOR xd) 1"

definition BODY_00_15 :: "u32 \<Rightarrow> u32 \<Rightarrow> u32 \<Rightarrow> u32 \<Rightarrow> u32 \<Rightarrow> u32 \<Rightarrow> u32 \<times> u32 \<times> u32" where
  "BODY_00_15 a b c d e xi = (xi + e + K_00_19 + ROTATE a 5 + F_00_19 b c d, ROTATE b 30, xi)"

definition BODY_16_19 ::
  "u32 \<Rightarrow> u32 \<Rightarrow> u32 \<Rightarrow> u32 \<Rightarrow> u32 \<Rightarrow> u32 \<Rightarrow> u32 \<Rightarrow> u32 \<Rightarrow> u32 \<Rightarrow> u32 \<times> u32 \<times> u32" where
  "BODY_16_19 a b c d e xa xb xc xd =
     (let f = Xupdate xa xb xc xd; xi = f;
          f = f + (e + K_00_19 + ROTATE a 5 + F_00_19 b c d);
          b = ROTATE b 30
      in (f, b, xi))"

definition BODY_20_31 ::
  "u32 \<Rightarrow> u32 \<Rightarrow> u32 \<Rightarrow> u32 \<Rightarrow> u32 \<Rightarrow> u32 \<Rightarrow> u32 \<Rightarrow> u32 \<Rightarrow> u32 \<Rightarrow> u32 \<times> u32 \<times> u32" where
  "BODY_20_31 a b c d e xa xb xc xd =
     (let f = Xupdate xa xb xc xd; xi = f;
          f = f + (e + K_20_39 + ROTATE a 5 + F_20_39 b c d);
          b = ROTATE b 30
      in (f, b, xi))"

definition BODY_32_39 ::
  "u32 \<Rightarrow> u32 \<Rightarrow> u32 \<Rightarrow> u32 \<Rightarrow> u32 \<Rightarrow> u32 \<Rightarrow> u32 \<Rightarrow> u32 \<Rightarrow> u32 \<Rightarrow> u32 \<times> u32 \<times> u32" where
  "BODY_32_39 a b c d e xa xb xc xd =
     (let f = Xupdate xa xb xc xd; xa = f;
          f = f + (e + K_20_39 + ROTATE a 5 + F_20_39 b c d);
          b = ROTATE b 30
      in (f, b, xa))"

definition BODY_40_59 ::
  "u32 \<Rightarrow> u32 \<Rightarrow> u32 \<Rightarrow> u32 \<Rightarrow> u32 \<Rightarrow> u32 \<Rightarrow> u32 \<Rightarrow> u32 \<Rightarrow> u32 \<Rightarrow> u32 \<times> u32 \<times> u32" where
  "BODY_40_59 a b c d e xa xb xc xd =
     (let f = Xupdate xa xb xc xd; xa = f;
          f = f + (e + K_40_59 + ROTATE a 5 + F_40_59 b c d);
          b = ROTATE b 30
      in (f, b, xa))"

definition BODY_60_79 ::
  "u32 \<Rightarrow> u32 \<Rightarrow> u32 \<Rightarrow> u32 \<Rightarrow> u32 \<Rightarrow> u32 \<Rightarrow> u32 \<Rightarrow> u32 \<Rightarrow> u32 \<Rightarrow> u32 \<times> u32 \<times> u32" where
  "BODY_60_79 a b c d e xa xb xc xd =
     (let f = Xupdate xa xb xc xd; xa = f;
          f = xa + e + K_60_79 + ROTATE a 5 + F_60_79 b c d;
          b = ROTATE b 30
      in (f, b, xa))"

text \<open>Call \<open>i\<close>: the variable in place \<open>k\<close> of the macro, and the call on the variables and the ring.\<close>

definition var :: "nat \<Rightarrow> nat \<Rightarrow> nat" where
  "var i k = (k + 5 * i) mod 6"

definition sha1_call :: "bytes \<Rightarrow> nat \<Rightarrow> u32 list \<times> u32 list \<Rightarrow> u32 list \<times> u32 list" where
  "sha1_call data i s =
     (let (V, X) = s;
          a = V ! var i 0; b = V ! var i 1; c = V ! var i 2; d = V ! var i 3; e = V ! var i 4;
          xa = X ! (i mod 16); xb = X ! ((i + 2) mod 16); xc = X ! ((i + 8) mod 16); xd = X ! ((i + 13) mod 16);
          (f, b, x) =
            (if i < 16 then BODY_00_15 a b c d e (block_word BIG_ENDIAN data i)
             else if i < 20 then BODY_16_19 a b c d e xa xb xc xd
             else if i < 32 then BODY_20_31 a b c d e xa xb xc xd
             else if i < 40 then BODY_32_39 a b c d e xa xb xc xd
             else if i < 60 then BODY_40_59 a b c d e xa xb xc xd
             else BODY_60_79 a b c d e xa xb xc xd)
      in (V[var i 5 := f, var i 1 := b], X[i mod 16 := x]))"

text \<open>One turn of \<open>for (;;)\<close>; the ring and \<open>T\<close> are uninitialised before they are written.\<close>

definition sha1_block :: "u32 list \<Rightarrow> bytes \<Rightarrow> u32 list" where
  "sha1_block state data =
     (let V = [state ! 0, state ! 1, state ! 2, state ! 3, state ! 4, 0];
          (V, X) = fold (sha1_call data) [0..<80] (V, replicate 16 0)
      in [(state ! 0 + V ! 4) AND 0xffffffff, (state ! 1 + V ! 5) AND 0xffffffff, (state ! 2 + V ! 0) AND 0xffffffff,
          (state ! 3 + V ! 1) AND 0xffffffff, (state ! 4 + V ! 2) AND 0xffffffff])"

lemma unat_count_down: "num \<noteq> 1 \<Longrightarrow> unat (num - 2 :: usize) < unat (num - 1)"
  using unat_minus_one [of "num - 1"] by (simp add: unat_gt_0)

function sha1_block_data_order :: block_function where
  "sha1_block_data_order state data num =
     (let state = sha1_block state data;
          num = num - 1
      in if num = 0 then state else sha1_block_data_order state (drop 64 data) num)"
  by pat_completeness auto
termination
  by (relation "measure (\<lambda>(_, _, num). unat (num - 1))") (auto simp: unat_count_down)

declare sha1_block_data_order.simps [simp del]

section \<open>Update, final and the digest\<close>

definition SHA1_Update :: "bytes \<Rightarrow> md32_ctx \<Rightarrow> md32_ctx" where
  "SHA1_Update = HASH_UPDATE sha1_block_data_order"

definition SHA1_Transform :: "bytes \<Rightarrow> md32_ctx \<Rightarrow> md32_ctx" where
  "SHA1_Transform = HASH_TRANSFORM sha1_block_data_order"

definition SHA1_make_string :: "md32_ctx \<Rightarrow> bytes option" where
  "SHA1_make_string c = Some
     (HOST_l2c BIG_ENDIAN (ctx_h c ! 0) @ HOST_l2c BIG_ENDIAN (ctx_h c ! 1) @ HOST_l2c BIG_ENDIAN (ctx_h c ! 2) @
      HOST_l2c BIG_ENDIAN (ctx_h c ! 3) @ HOST_l2c BIG_ENDIAN (ctx_h c ! 4))"

definition SHA1_Final :: "md32_ctx \<Rightarrow> bytes option \<times> md32_ctx" where
  "SHA1_Final = HASH_FINAL BIG_ENDIAN sha1_block_data_order SHA1_make_string"

definition SHA1 :: "bytes \<Rightarrow> bytes option" where
  "SHA1 data = fst (SHA1_Final (SHA1_Update data SHA1_Init))"

section \<open>The reference: RFC 3174\<close>

fun rfc_schedule :: "(nat \<Rightarrow> u32) \<Rightarrow> nat \<Rightarrow> u32" where
  "rfc_schedule M t =
     (if t < 16 then M t
      else word_rotl 1 (rfc_schedule M (t - 3) XOR rfc_schedule M (t - 8) XOR
             rfc_schedule M (t - 14) XOR rfc_schedule M (t - 16)))"

declare rfc_schedule.simps [simp del]

definition rfc_f :: "nat \<Rightarrow> u32 \<Rightarrow> u32 \<Rightarrow> u32 \<Rightarrow> u32" where
  "rfc_f t B C D =
     (if t < 20 then (B AND C) OR (NOT B AND D)
      else if t < 40 then B XOR C XOR D
      else if t < 60 then (B AND C) OR (B AND D) OR (C AND D)
      else B XOR C XOR D)"

definition rfc_K :: "nat \<Rightarrow> u32" where
  "rfc_K t = (if t < 20 then 0x5A827999 else if t < 40 then 0x6ED9EBA1 else if t < 60 then 0x8F1BBCDC else 0xCA62C1D6)"

type_synonym regs5 = "u32 \<times> u32 \<times> u32 \<times> u32 \<times> u32"

definition rfc_round :: "(nat \<Rightarrow> u32) \<Rightarrow> nat \<Rightarrow> regs5 \<Rightarrow> regs5" where
  "rfc_round M t s =
     (let (A, B, C, D, E) = s;
          TEMP = word_rotl 5 A + rfc_f t B C D + E + rfc_schedule M t + rfc_K t
      in (TEMP, A, word_rotl 30 B, C, D))"

definition rfc_compress :: "u32 list \<Rightarrow> bytes \<Rightarrow> u32 list" where
  "rfc_compress H block =
     (let (A, B, C, D, E) =
            fold (rfc_round (block_word BIG_ENDIAN block)) [0..<80] (H ! 0, H ! 1, H ! 2, H ! 3, H ! 4)
      in [H ! 0 + A, H ! 1 + B, H ! 2 + C, H ! 3 + D, H ! 4 + E])"

definition rfc_digest :: "bytes \<Rightarrow> bytes" where
  "rfc_digest msg = concat (map (\<lambda>w. be_bytes 4 (unat w))
     (digested BIG_ENDIAN rfc_compress [0x67452301, 0xEFCDAB89, 0x98BADCFE, 0x10325476, 0xC3D2E1F0] msg))"

section \<open>A macro call is a round of the reference\<close>

lemma var_less [simp]: "var i k < 6"
  by (simp add: var_def)

lemma var_Suc: "0 < k \<Longrightarrow> var (Suc i) k = var i (k - 1)" "var (Suc i) 0 = var i 5"
proof -
  have "k + 5 * Suc i = (k - 1 + 5 * i) + 6" if "0 < k"
    using that by simp
  then show "0 < k \<Longrightarrow> var (Suc i) k = var i (k - 1)"
    unfolding var_def by (metis mod_add_self2)
qed (simp add: var_def)

lemma var_eq: "j < 6 \<Longrightarrow> k < 6 \<Longrightarrow> var i j = var i k \<longleftrightarrow> j = k"
proof -
  have le: "var i j = var i k \<Longrightarrow> j = k" if "j \<le> k" "k < 6" for j k
  proof -
    assume "var i j = var i k"
    then have "6 dvd (k + 5 * i) - (j + 5 * i)"
      unfolding var_def using that by (metis add_le_cancel_right mod_eq_dvd_iff_nat)
    then show "j = k"
      using that by (auto dest: dvd_imp_le)
  qed
  show "j < 6 \<Longrightarrow> k < 6 \<Longrightarrow> var i j = var i k \<longleftrightarrow> j = k"
    using le [of j k] le [of k j] by (cases "j \<le> k") auto
qed

lemma F_rfc:
  "F_00_19 b c d = (b AND c) OR (NOT b AND d)"
  "F_40_59 b c d = (b AND c) OR (b AND d) OR (c AND d)"
  by (rule bit_word_eqI; auto simp: F_00_19_def F_40_59_def bit_simps)+

definition in_step :: "(nat \<Rightarrow> u32) \<Rightarrow> nat \<Rightarrow> regs5 \<Rightarrow> u32 list \<times> u32 list \<Rightarrow> bool" where
  "in_step M i st s =
     (length (fst s) = 6 \<and> ring (rfc_schedule M) i (snd s) \<and>
      st = (fst s ! var i 0, fst s ! var i 1, fst s ! var i 2, fst s ! var i 3, fst s ! var i 4))"

lemmas rotations = ROTATE_rotl [of 1, simplified] ROTATE_rotl [of 5, simplified] ROTATE_rotl [of 30, simplified]

lemma schedule_ring:
  assumes "ring (rfc_schedule M) i X" "\<not> i < 16"
  shows "X ! (i mod 16) = rfc_schedule M (i - 16)" "X ! ((i + 2) mod 16) = rfc_schedule M (i - 14)"
    "X ! ((i + 8) mod 16) = rfc_schedule M (i - 8)" "X ! ((i + 13) mod 16) = rfc_schedule M (i - 3)"
    "word_rotl 1 (rfc_schedule M (i - 16) XOR rfc_schedule M (i - 14) XOR
       rfc_schedule M (i - 8) XOR rfc_schedule M (i - 3)) = rfc_schedule M i"
proof -
  have "i - 16 + 16 = i" "i - 14 + 16 = i + 2" "i - 8 + 16 = i + 8" "i - 3 + 16 = i + 13"
    using assms(2) by simp_all
  then have mod: "(i - 16) mod 16 = i mod 16" "(i - 14) mod 16 = (i + 2) mod 16"
    "(i - 8) mod 16 = (i + 8) mod 16" "(i - 3) mod 16 = (i + 13) mod 16"
    by (metis mod_add_self2)+
  show "X ! (i mod 16) = rfc_schedule M (i - 16)" "X ! ((i + 2) mod 16) = rfc_schedule M (i - 14)"
    "X ! ((i + 8) mod 16) = rfc_schedule M (i - 8)" "X ! ((i + 13) mod 16) = rfc_schedule M (i - 3)"
    using assms(2) by (intro ring_nth [OF assms(1)] mod; simp)+
  show "word_rotl 1 (rfc_schedule M (i - 16) XOR rfc_schedule M (i - 14) XOR
       rfc_schedule M (i - 8) XOR rfc_schedule M (i - 3)) = rfc_schedule M i"
    using assms(2) by (simp add: rfc_schedule.simps [of M i] ac_simps)
qed

lemma sha1_call_round:
  assumes "in_step M i st s" "M = block_word BIG_ENDIAN data"
  shows "in_step M (Suc i) (rfc_round M i st) (sha1_call data i s)"
proof -
  obtain V X where s: "s = (V, X)"
    by (cases s)
  let ?v = "\<lambda>k. V ! var i k" and ?W = "rfc_schedule M"
  have V: "length V = 6" and X: "ring ?W i X" and st: "st = (?v 0, ?v 1, ?v 2, ?v 3, ?v 4)"
    using assms(1) by (simp_all add: in_step_def s)
  define f where "f = word_rotl 5 (?v 0) + rfc_f i (?v 1) (?v 2) (?v 3) + ?v 4 + ?W i + rfc_K i"
  have round: "rfc_round M i st = (f, ?v 0, word_rotl 30 (?v 1), ?v 2, ?v 3)"
    by (simp add: rfc_round_def st f_def)
  have call: "sha1_call data i s = (V[var i 5 := f, var i 1 := word_rotl 30 (?v 1)], X[i mod 16 := ?W i])"
  proof (cases "i < 16")
    case True
    then have "block_word BIG_ENDIAN data i = ?W i"
      by (subst rfc_schedule.simps) (simp add: assms(2))
    then show ?thesis
      using True by (simp add: sha1_call_def s BODY_00_15_def f_def rfc_f_def rfc_K_def F_rfc K_00_19_def rotations Let_def ac_simps)
  next
    case False
    have update: "Xupdate (X ! (i mod 16)) (X ! ((i + 2) mod 16)) (X ! ((i + 8) mod 16)) (X ! ((i + 13) mod 16)) = ?W i"
      unfolding Xupdate_def schedule_ring(1-4) [OF X False]
      using schedule_ring(5) [OF X False] by (simp add: rotations)
    show ?thesis
      using False unfolding sha1_call_def s Let_def prod.case BODY_16_19_def BODY_20_31_def BODY_32_39_def
        BODY_40_59_def BODY_60_79_def update
      by (simp add: f_def rfc_f_def rfc_K_def F_rfc F_20_39_def F_60_79_def K_00_19_def K_20_39_def K_40_59_def
          K_60_79_def rotations ac_simps)
  qed
  have vars: "V[var i 5 := x, var i 1 := y] ! var (Suc i) 0 = x"
    "V[var i 5 := x, var i 1 := y] ! var (Suc i) 1 = ?v 0"
    "V[var i 5 := x, var i 1 := y] ! var (Suc i) 2 = y"
    "V[var i 5 := x, var i 1 := y] ! var (Suc i) 3 = ?v 2"
    "V[var i 5 := x, var i 1 := y] ! var (Suc i) 4 = ?v 3" for x y
    using V by (simp_all add: var_Suc var_eq)
  show ?thesis
    unfolding in_step_def call round fst_conv snd_conv vars using V ring_step [OF X refl] by simp
qed

lemma sha1_calls_rounds:
  assumes "in_step M 0 st s" "M = block_word BIG_ENDIAN data"
  shows "in_step M n (fold (rfc_round M) [0..<n] st) (fold (sha1_call data) [0..<n] s)"
  using assms by (induction n) (simp_all add: sha1_call_round)

section \<open>The block function chains the compression function of RFC 3174\<close>

lemma sha1_block_rfc: "sha1_block st data = rfc_compress st data"
proof -
  define M where "M = block_word BIG_ENDIAN data"
  define s where "s = (st ! 0, st ! 1, st ! 2, st ! 3, st ! 4)"
  define V where "V = [st ! 0, st ! 1, st ! 2, st ! 3, st ! 4, 0]"
  obtain V' X' where calls: "fold (sha1_call data) [0..<80] (V, replicate 16 0) = (V', X')"
    by (cases "fold (sha1_call data) [0..<80] (V, replicate 16 0)")
  have "in_step M 0 s (V, replicate 16 0)"
    by (simp add: in_step_def ring_def var_def s_def V_def)
  then have "in_step M 80 (fold (rfc_round M) [0..<80] s) (V', X')"
    unfolding calls [symmetric] by (rule sha1_calls_rounds [OF _ M_def])
  then have rounds: "fold (rfc_round M) [0..<80] s = (V' ! 4, V' ! 5, V' ! 0, V' ! 1, V' ! 2)"
    by (simp only: in_step_def) (simp add: var_def)
  have "(0xffffffff :: u32) = - 1"
    by simp
  then have mask: "x AND 0xffffffff = x" for x :: u32
    by (simp only: and_minus_numerals and.right_neutral)
  show ?thesis
    unfolding sha1_block_def rfc_compress_def Let_def V_def [symmetric] s_def [symmetric] M_def [symmetric]
      calls rounds prod.case mask ..
qed

lemma sha1_call_take: "sha1_call (take 64 data) i s = sha1_call data i s"
  by (cases "i < 16") (simp_all only: sha1_call_def block_word_take if_True if_False)

lemma sha1_block_take: "sha1_block st (take 64 data) = sha1_block st data"
proof -
  have "sha1_call (take 64 data) = sha1_call data"
    by (intro ext sha1_call_take)
  then show ?thesis
    by (simp only: sha1_block_def)
qed

lemma sha1_block_data_order_chained:
  "0 < num \<Longrightarrow> sha1_block_data_order st data num = chained rfc_compress (unat num) st data"
proof (induction st data num rule: sha1_block_data_order.induct)
  case (1 st data num)
  have num: "unat num = Suc (unat (num - 1))"
    using 1(2) by (metis Suc_pred' unat_gt_0 unat_minus_one word_gt_0)
  show ?case
  proof (cases "num - 1 = 0")
    case True
    then show ?thesis
      using num by (simp add: sha1_block_data_order.simps [of _ _ 1] sha1_block_take flip: sha1_block_rfc)
  next
    case False
    then show ?thesis
      using 1(1) [OF refl refl False] num
      by (simp add: sha1_block_data_order.simps [of st data num] sha1_block_take word_gt_0 flip: sha1_block_rfc)
  qed
qed

interpretation sha1: block_chaining sha1_block_data_order rfc_compress
  by unfold_locales (rule sha1_block_data_order_chained)

lemma length_chained_rfc: "length H = 5 \<Longrightarrow> length (chained rfc_compress n H data) = 5"
  by (induction n arbitrary: H data) (simp_all add: rfc_compress_def Let_def split_beta)

lemma SHA1_make_string_words:
  assumes "length (ctx_h c) = 5"
  shows "SHA1_make_string c = Some (concat (map (\<lambda>w. be_bytes 4 (unat w)) (ctx_h c)))"
proof -
  obtain a b c' d e where "ctx_h c = [a, b, c', d, e]"
    using assms by (auto simp: length_Suc_conv eval_nat_numeral)
  then show ?thesis
    by (simp add: SHA1_make_string_def HOST_l2c_eq nth_Cons_numeral)
qed

text \<open>
  Hashing a message in any number of updates, cut anywhere, gives the SHA-1 digest that RFC 3174 defines for
  the whole message.
\<close>

lemma SHA1_streamed:
  assumes "\<forall>d \<in> set ds. length d < 2 ^ 64"
  shows "fst (SHA1_Final (fold SHA1_Update ds SHA1_Init)) = Some (rfc_digest (concat ds))"
proof -
  have fresh: "fresh SHA1_Init"
    by (simp add: fresh_def SHA1_Init_def)
  show ?thesis
    unfolding SHA1_Final_def SHA1_Update_def sha1.fresh_final [OF fresh assms] Let_def fst_conv rfc_digest_def
    by (subst SHA1_make_string_words) (simp_all add: digested_def length_chained_rfc SHA1_Init_def)
qed

end
