(* ===== verification/SHA256.thy ===== *)
theory SHA256
  imports MD32
begin

text \<open>
  \<open>crypto/fipsmodule/sha/sha256.c\<close> (BoringSSL): SHA-224 and SHA-256 as instances of the collector of
  \<open>md32_common.h\<close>.  The application builds BoringSSL with \<open>OPENSSL_NO_ASM\<close>, so that the block function
  is the one in C: a message schedule kept in a ring of sixteen words, and eight variables whose
  names rotate from one round to the next.  The reference is FIPS 180-4, with the schedule as an
  unbounded recursion, right rotations and one uniform round.
\<close>

section \<open>The contexts\<close>

record SHA256_CTX = md32_ctx +
  ctx_md_len :: u32

definition SHA224_DIGEST_LENGTH :: u32 where "SHA224_DIGEST_LENGTH = 28"
definition SHA256_DIGEST_LENGTH :: u32 where "SHA256_DIGEST_LENGTH = 32"

text \<open>\<open>OPENSSL_memset(sha, 0, sizeof(SHA256_CTX))\<close>, then the initial hash value.\<close>

definition zero_ctx :: SHA256_CTX where
  "zero_ctx = \<lparr>ctx_h = replicate 8 0, ctx_Nl = 0, ctx_Nh = 0, ctx_data = replicate 64 0, ctx_num = 0, ctx_md_len = 0\<rparr>"

definition SHA224_Init :: SHA256_CTX where
  "SHA224_Init = zero_ctx
     \<lparr>ctx_h := [0xc1059ed8, 0x367cd507, 0x3070dd17, 0xf70e5939, 0xffc00b31, 0x68581511, 0x64f98fa7, 0xbefa4fa4],
       ctx_md_len := SHA224_DIGEST_LENGTH\<rparr>"

definition SHA256_Init :: SHA256_CTX where
  "SHA256_Init = zero_ctx
     \<lparr>ctx_h := [0x6a09e667, 0xbb67ae85, 0x3c6ef372, 0xa54ff53a, 0x510e527f, 0x9b05688c, 0x1f83d9ab, 0x5be0cd19],
       ctx_md_len := SHA256_DIGEST_LENGTH\<rparr>"

section \<open>The block function\<close>

definition K256 :: "u32 list" where
  "K256 =
   concat
    [[0x428a2f98, 0x71374491, 0xb5c0fbcf, 0xe9b5dba5, 0x3956c25b],
     [0x59f111f1, 0x923f82a4, 0xab1c5ed5, 0xd807aa98, 0x12835b01],
     [0x243185be, 0x550c7dc3, 0x72be5d74, 0x80deb1fe, 0x9bdc06a7],
     [0xc19bf174, 0xe49b69c1, 0xefbe4786, 0x0fc19dc6, 0x240ca1cc],
     [0x2de92c6f, 0x4a7484aa, 0x5cb0a9dc, 0x76f988da, 0x983e5152],
     [0xa831c66d, 0xb00327c8, 0xbf597fc7, 0xc6e00bf3, 0xd5a79147],
     [0x06ca6351, 0x14292967, 0x27b70a85, 0x2e1b2138, 0x4d2c6dfc],
     [0x53380d13, 0x650a7354, 0x766a0abb, 0x81c2c92e, 0x92722c85],
     [0xa2bfe8a1, 0xa81a664b, 0xc24b8b70, 0xc76c51a3, 0xd192e819],
     [0xd6990624, 0xf40e3585, 0x106aa070, 0x19a4c116, 0x1e376c08],
     [0x2748774c, 0x34b0bcb5, 0x391c0cb3, 0x4ed8aa4a, 0x5b9cca4f],
     [0x682e6ff3, 0x748f82ee, 0x78a5636f, 0x84c87814, 0x8cc70208],
     [0x90befffa, 0xa4506ceb, 0xbef9a3f7, 0xc67178f2]]"

definition Sigma0 :: "u32 \<Rightarrow> u32" where "Sigma0 x = ROTATE x 30 XOR ROTATE x 19 XOR ROTATE x 10"
definition Sigma1 :: "u32 \<Rightarrow> u32" where "Sigma1 x = ROTATE x 26 XOR ROTATE x 21 XOR ROTATE x 7"
definition sigma0 :: "u32 \<Rightarrow> u32" where "sigma0 x = ROTATE x 25 XOR ROTATE x 14 XOR drop_bit 3 x"
definition sigma1 :: "u32 \<Rightarrow> u32" where "sigma1 x = ROTATE x 15 XOR ROTATE x 13 XOR drop_bit 10 x"

definition Ch :: "u32 \<Rightarrow> u32 \<Rightarrow> u32 \<Rightarrow> u32" where
  "Ch x y z = (x AND y) XOR (NOT x AND z)"
definition Maj :: "u32 \<Rightarrow> u32 \<Rightarrow> u32 \<Rightarrow> u32" where
  "Maj x y z = (x AND y) XOR (x AND z) XOR (y AND z)"

text \<open>The macro \<open>ROUND_00_15\<close> assigns to its arguments \<open>d\<close> and \<open>h\<close>.\<close>

definition ROUND_00_15 ::
  "u32 \<Rightarrow> nat \<Rightarrow> u32 \<Rightarrow> u32 \<Rightarrow> u32 \<Rightarrow> u32 \<Rightarrow> u32 \<Rightarrow> u32 \<Rightarrow> u32 \<Rightarrow> u32 \<Rightarrow> u32 \<times> u32" where
  "ROUND_00_15 T1 i a b c d e f g h =
     (let T1 = T1 + (h + Sigma1 e + Ch e f g + K256 ! i);
          h = Sigma0 a + Maj a b c;
          d = d + T1;
          h = h + T1
      in (d, h))"

text \<open>\<open>ROUND_16_63\<close> also assigns to \<open>X[i & 0x0f]\<close>.\<close>

definition ROUND_16_63 ::
  "nat \<Rightarrow> u32 \<Rightarrow> u32 \<Rightarrow> u32 \<Rightarrow> u32 \<Rightarrow> u32 \<Rightarrow> u32 \<Rightarrow> u32 \<Rightarrow> u32 \<Rightarrow> u32 list \<Rightarrow> u32 \<times> u32 \<times> u32 list" where
  "ROUND_16_63 i a b c d e f g h X =
     (let s0 = X ! ((i + 1) mod 16);
          s0 = sigma0 s0;
          s1 = X ! ((i + 14) mod 16);
          s1 = sigma1 s1;
          X = X[i mod 16 := X ! (i mod 16) + (s0 + s1 + X ! ((i + 9) mod 16))];
          (d, h) = ROUND_00_15 (X ! (i mod 16)) i a b c d e f g h
      in (d, h, X))"

type_synonym regs8 = "u32 \<times> u32 \<times> u32 \<times> u32 \<times> u32 \<times> u32 \<times> u32 \<times> u32"

text \<open>Eight of the first sixteen rounds, from round \<open>i\<close>: the variables have their own names again.\<close>

definition rounds_read :: "bytes \<Rightarrow> nat \<Rightarrow> regs8 \<times> u32 list \<Rightarrow> regs8 \<times> u32 list" where
  "rounds_read data i s =
     (let ((a, b, c, d, e, f, g, h), X) = s;
          l = block_word BIG_ENDIAN data (i + 0); X = X[i + 0 := l]; (d, h) = ROUND_00_15 l (i + 0) a b c d e f g h;
          l = block_word BIG_ENDIAN data (i + 1); X = X[i + 1 := l]; (c, g) = ROUND_00_15 l (i + 1) h a b c d e f g;
          l = block_word BIG_ENDIAN data (i + 2); X = X[i + 2 := l]; (b, f) = ROUND_00_15 l (i + 2) g h a b c d e f;
          l = block_word BIG_ENDIAN data (i + 3); X = X[i + 3 := l]; (a, e) = ROUND_00_15 l (i + 3) f g h a b c d e;
          l = block_word BIG_ENDIAN data (i + 4); X = X[i + 4 := l]; (h, d) = ROUND_00_15 l (i + 4) e f g h a b c d;
          l = block_word BIG_ENDIAN data (i + 5); X = X[i + 5 := l]; (g, c) = ROUND_00_15 l (i + 5) d e f g h a b c;
          l = block_word BIG_ENDIAN data (i + 6); X = X[i + 6 := l]; (f, b) = ROUND_00_15 l (i + 6) c d e f g h a b;
          l = block_word BIG_ENDIAN data (i + 7); X = X[i + 7 := l]; (e, a) = ROUND_00_15 l (i + 7) b c d e f g h a
      in ((a, b, c, d, e, f, g, h), X))"

text \<open>The body of \<open>for (i = 16; i < 64; i += 8)\<close>.\<close>

definition rounds_ring :: "nat \<Rightarrow> regs8 \<times> u32 list \<Rightarrow> regs8 \<times> u32 list" where
  "rounds_ring i s =
     (let ((a, b, c, d, e, f, g, h), X) = s;
          (d, h, X) = ROUND_16_63 (i + 0) a b c d e f g h X;
          (c, g, X) = ROUND_16_63 (i + 1) h a b c d e f g X;
          (b, f, X) = ROUND_16_63 (i + 2) g h a b c d e f X;
          (a, e, X) = ROUND_16_63 (i + 3) f g h a b c d e X;
          (h, d, X) = ROUND_16_63 (i + 4) e f g h a b c d X;
          (g, c, X) = ROUND_16_63 (i + 5) d e f g h a b c X;
          (f, b, X) = ROUND_16_63 (i + 6) c d e f g h a b X;
          (e, a, X) = ROUND_16_63 (i + 7) b c d e f g h a X
      in ((a, b, c, d, e, f, g, h), X))"

text \<open>One turn of \<open>while (num--)\<close>; the ring is uninitialised before its sixteen words are read.\<close>

definition sha256_block :: "u32 list \<Rightarrow> bytes \<Rightarrow> u32 list" where
  "sha256_block state data =
     (let s = ((state ! 0, state ! 1, state ! 2, state ! 3, state ! 4, state ! 5, state ! 6, state ! 7), replicate 16 0);
          s = rounds_read data 0 s;
          s = rounds_read data 8 s;
          ((a, b, c, d, e, f, g, h), X) = fold rounds_ring [16, 24, 32, 40, 48, 56] s
      in [state ! 0 + a, state ! 1 + b, state ! 2 + c, state ! 3 + d,
          state ! 4 + e, state ! 5 + f, state ! 6 + g, state ! 7 + h])"

function sha256_block_data_order :: block_function where
  "sha256_block_data_order state data num =
     (if num = 0 then state
      else sha256_block_data_order (sha256_block state data) (drop 64 data) (num - 1))"
  by pat_completeness auto
termination
  by (relation "measure (\<lambda>(_, _, num). unat num)") (auto simp: unat_minus_one unat_gt_0)

declare sha256_block_data_order.simps [simp del]

section \<open>Update, final and the digests\<close>

definition SHA256_Update :: "bytes \<Rightarrow> SHA256_CTX \<Rightarrow> SHA256_CTX" where
  "SHA256_Update = HASH_UPDATE sha256_block_data_order"

definition SHA256_Transform :: "bytes \<Rightarrow> SHA256_CTX \<Rightarrow> SHA256_CTX" where
  "SHA256_Transform = HASH_TRANSFORM sha256_block_data_order"

text \<open>\<open>HASH_MAKE_STRING\<close> with its three cases; the last one can fail.\<close>

definition SHA256_make_string :: "SHA256_CTX \<Rightarrow> bytes option" where
  "SHA256_make_string c =
     (if ctx_md_len c = SHA224_DIGEST_LENGTH
      then Some (concat (map (\<lambda>nn. HOST_l2c BIG_ENDIAN (ctx_h c ! nn)) [0..<unat (SHA224_DIGEST_LENGTH div 4)]))
      else if ctx_md_len c = SHA256_DIGEST_LENGTH
      then Some (concat (map (\<lambda>nn. HOST_l2c BIG_ENDIAN (ctx_h c ! nn)) [0..<unat (SHA256_DIGEST_LENGTH div 4)]))
      else if SHA256_DIGEST_LENGTH < ctx_md_len c then None
      else Some (concat (map (\<lambda>nn. HOST_l2c BIG_ENDIAN (ctx_h c ! nn)) [0..<unat (ctx_md_len c div 4)])))"

definition SHA256_Final :: "SHA256_CTX \<Rightarrow> bytes option \<times> SHA256_CTX" where
  "SHA256_Final = HASH_FINAL BIG_ENDIAN sha256_block_data_order SHA256_make_string"

definition SHA224_Update :: "bytes \<Rightarrow> SHA256_CTX \<Rightarrow> SHA256_CTX" where
  "SHA224_Update = SHA256_Update"

definition SHA224_Final :: "SHA256_CTX \<Rightarrow> bytes option \<times> SHA256_CTX" where
  "SHA224_Final = SHA256_Final"

text \<open>
  The one-shot functions ignore what \<open>Final\<close> returns; \<open>None\<close> is an output buffer left as it was.
\<close>

definition SHA224 :: "bytes \<Rightarrow> bytes option" where
  "SHA224 data = fst (SHA224_Final (SHA224_Update data SHA224_Init))"

definition SHA256 :: "bytes \<Rightarrow> bytes option" where
  "SHA256 data = fst (SHA256_Final (SHA256_Update data SHA256_Init))"

section \<open>The reference: FIPS 180-4\<close>

fun fips_schedule :: "(nat \<Rightarrow> u32) \<Rightarrow> nat \<Rightarrow> u32" where
  "fips_schedule M t =
     (if t < 16 then M t
      else (let s1 = (\<lambda>x. word_rotr 17 x XOR word_rotr 19 x XOR drop_bit 10 x);
                s0 = (\<lambda>x. word_rotr 7 x XOR word_rotr 18 x XOR drop_bit 3 x)
            in s1 (fips_schedule M (t - 2)) + fips_schedule M (t - 7) +
               s0 (fips_schedule M (t - 15)) + fips_schedule M (t - 16)))"

declare fips_schedule.simps [simp del]

definition fips_round :: "u32 \<Rightarrow> u32 \<Rightarrow> regs8 \<Rightarrow> regs8" where
  "fips_round K W s =
     (let (a, b, c, d, e, f, g, h) = s;
          S1 = word_rotr 6 e XOR word_rotr 11 e XOR word_rotr 25 e;
          S0 = word_rotr 2 a XOR word_rotr 13 a XOR word_rotr 22 a;
          T1 = h + S1 + ((e AND f) XOR (NOT e AND g)) + K + W;
          T2 = S0 + ((a AND b) XOR (a AND c) XOR (b AND c))
      in (T1 + T2, a, b, c, d + T1, e, f, g))"

definition fips_compress :: "u32 list \<Rightarrow> bytes \<Rightarrow> u32 list" where
  "fips_compress H block =
     (let (a, b, c, d, e, f, g, h) =
            fold (\<lambda>t. fips_round (K256 ! t) (fips_schedule (block_word BIG_ENDIAN block) t)) [0..<64]
              (H ! 0, H ! 1, H ! 2, H ! 3, H ! 4, H ! 5, H ! 6, H ! 7)
      in [a + H ! 0, b + H ! 1, c + H ! 2, d + H ! 3, e + H ! 4, f + H ! 5, g + H ! 6, h + H ! 7])"

definition fips_digest :: "u32 list \<Rightarrow> nat \<Rightarrow> bytes \<Rightarrow> bytes" where
  "fips_digest IV len msg = take len (concat (map (\<lambda>w. be_bytes 4 (unat w)) (digested BIG_ENDIAN fips_compress IV msg)))"

text \<open>
  The constants are those that FIPS 180-4 prescribes: the first 32 bits of the fractional parts of the cube
  roots of the first 64 primes, and of the square roots of the first eight.
\<close>

definition root_bits :: "nat \<Rightarrow> nat \<times> nat \<Rightarrow> 'w :: len word \<Rightarrow> bool" where
  "root_bits e pc w \<longleftrightarrow>
     (case pc of (p, c) \<Rightarrow>
        let n = LENGTH('w); r = c * 2 ^ n + unat w
        in r ^ e \<le> p * 2 ^ (n * e) \<and> p * 2 ^ (n * e) < (r + 1) ^ e)"

text \<open>The primes, each with the integer part of its cube root.\<close>

definition primes64 :: "(nat \<times> nat) list" where
  "primes64 =
   [(2, 1), (3, 1), (5, 1), (7, 1), (11, 2), (13, 2), (17, 2), (19, 2),
    (23, 2), (29, 3), (31, 3), (37, 3), (41, 3), (43, 3), (47, 3), (53, 3),
    (59, 3), (61, 3), (67, 4), (71, 4), (73, 4), (79, 4), (83, 4), (89, 4),
    (97, 4), (101, 4), (103, 4), (107, 4), (109, 4), (113, 4), (127, 5), (131, 5),
    (137, 5), (139, 5), (149, 5), (151, 5), (157, 5), (163, 5), (167, 5), (173, 5),
    (179, 5), (181, 5), (191, 5), (193, 5), (197, 5), (199, 5), (211, 5), (223, 6),
    (227, 6), (229, 6), (233, 6), (239, 6), (241, 6), (251, 6), (257, 6), (263, 6),
    (269, 6), (271, 6), (277, 6), (281, 6), (283, 6), (293, 6), (307, 6), (311, 6)]"

lemma K256_cube_roots: "list_all2 (root_bits 3) primes64 K256"
  unfolding primes64_def K256_def concat.simps append.simps append_Nil2
  by (intro list.rel_intros; simp add: root_bits_def)

lemma SHA256_square_roots:
  "list_all2 (root_bits 2) [(2, 1), (3, 1), (5, 2), (7, 2), (11, 3), (13, 3), (17, 4), (19, 4)] (ctx_h SHA256_Init)"
  by (simp add: SHA256_Init_def root_bits_def)

section \<open>The ring of sixteen words is the schedule\<close>

lemma Sigma_rotr:
  "Sigma0 x = word_rotr 2 x XOR word_rotr 13 x XOR word_rotr 22 x"
  "Sigma1 x = word_rotr 6 x XOR word_rotr 11 x XOR word_rotr 25 x"
  "sigma0 x = word_rotr 7 x XOR word_rotr 18 x XOR drop_bit 3 x"
  "sigma1 x = word_rotr 17 x XOR word_rotr 19 x XOR drop_bit 10 x"
  by (simp_all add: Sigma0_def Sigma1_def sigma0_def sigma1_def ROTATE_rotl word_rotl_eq_word_rotr)

lemma round_fips:
  "ROUND_00_15 W i a b c d e f g h = (d', h') \<Longrightarrow>
     fips_round (K256 ! i) W (a, b, c, d, e, f, g, h) = (h', a, b, c, d', e, f, g)"
  by (auto simp: ROUND_00_15_def fips_round_def Sigma_rotr Ch_def Maj_def Let_def algebra_simps)

lemma round_ring:
  assumes "ring (fips_schedule M) i X" "16 \<le> i" "ROUND_16_63 i a b c d e f g h X = (d', h', X')"
  shows "fips_round (K256 ! i) (fips_schedule M i) (a, b, c, d, e, f, g, h) = (h', a, b, c, d', e, f, g)"
    "ring (fips_schedule M) (Suc i) X'"
proof -
  let ?W = "fips_schedule M"
  have len: "length X = 16"
    using assms(1) by (simp add: ring_def)
  have add16: "i - 15 + 16 = i + 1" "i - 2 + 16 = i + 14" "i - 7 + 16 = i + 9" "i - 16 + 16 = i"
    using assms(2) by simp_all
  have mod: "(i - 15) mod 16 = (i + 1) mod 16" "(i - 2) mod 16 = (i + 14) mod 16"
    "(i - 7) mod 16 = (i + 9) mod 16" "(i - 16) mod 16 = i mod 16"
    using add16 by (metis mod_add_self2)+
  have ring: "X ! ((i + 1) mod 16) = ?W (i - 15)" "X ! ((i + 14) mod 16) = ?W (i - 2)"
    "X ! ((i + 9) mod 16) = ?W (i - 7)" "X ! (i mod 16) = ?W (i - 16)"
    using assms(2) by (intro ring_nth [OF assms(1)] mod; simp)+
  have W: "?W (i - 16) + (sigma0 (?W (i - 15)) + sigma1 (?W (i - 2)) + ?W (i - 7)) = ?W i"
    using assms(2) by (simp add: fips_schedule.simps [of M i] Sigma_rotr algebra_simps)
  have X': "X' = X[i mod 16 := ?W i]" "ROUND_00_15 (?W i) i a b c d e f g h = (d', h')"
    using assms(3) len unfolding ROUND_16_63_def Let_def ring W by (auto split: prod.splits)
  show "ring ?W (Suc i) X'"
    unfolding X' by (rule ring_step [OF assms(1) refl])
  show "fips_round (K256 ! i) (?W i) (a, b, c, d, e, f, g, h) = (h', a, b, c, d', e, f, g)"
    by (rule round_fips [OF X'(2)])
qed

section \<open>Eight rounds\<close>

text \<open>A round of the reference on the schedule of the block \<open>M\<close>.\<close>

abbreviation fips_step :: "(nat \<Rightarrow> u32) \<Rightarrow> nat \<Rightarrow> regs8 \<Rightarrow> regs8" where
  "fips_step M i \<equiv> fips_round (K256 ! i) (fips_schedule M i)"

lemma upto8: "[i..<i + 8] = [i + 0, i + 1, i + 2, i + 3, i + 4, i + 5, i + 6, i + 7]"
  by (simp add: upt_rec)

lemma regs8_cases: "\<exists>a b c d e f g h. s = (a, b, c, d, e, f, g, h)" for s :: regs8
  by (cases s) auto

lemma rounds_ring_fips:
  assumes "ring (fips_schedule M) i X" and i: "16 \<le> i"
  shows "\<exists>X'. rounds_ring i (s, X) = (fold (fips_step M) [i..<i + 8] s, X') \<and> ring (fips_schedule M) (i + 8) X'"
proof -
  obtain a b c d e f g h where s: "s = (a, b, c, d, e, f, g, h)"
    using regs8_cases by blast
  have X: "ring (fips_schedule M) (i + 0) X"
    using assms by simp
  obtain d' h' X1 where r0: "ROUND_16_63 (i + 0) a b c d e f g h X = (d', h', X1)"
    by (metis prod_cases3)
  have f0: "fips_step M (i + 0) (a, b, c, d, e, f, g, h) = (h', a, b, c, d', e, f, g)"
    and X1: "ring (fips_schedule M) (i + 1) X1"
    using round_ring [OF X _ r0] i by (simp_all add: eval_nat_numeral)
  obtain c' g' X2 where r1: "ROUND_16_63 (i + 1) h' a b c d' e f g X1 = (c', g', X2)"
    by (metis prod_cases3)
  have f1: "fips_step M (i + 1) (h', a, b, c, d', e, f, g) = (g', h', a, b, c', d', e, f)"
    and X2: "ring (fips_schedule M) (i + 2) X2"
    using round_ring [OF X1 _ r1] i by (simp_all add: eval_nat_numeral)
  obtain b' f' X3 where r2: "ROUND_16_63 (i + 2) g' h' a b c' d' e f X2 = (b', f', X3)"
    by (metis prod_cases3)
  have f2: "fips_step M (i + 2) (g', h', a, b, c', d', e, f) = (f', g', h', a, b', c', d', e)"
    and X3: "ring (fips_schedule M) (i + 3) X3"
    using round_ring [OF X2 _ r2] i by (simp_all add: eval_nat_numeral)
  obtain a' e' X4 where r3: "ROUND_16_63 (i + 3) f' g' h' a b' c' d' e X3 = (a', e', X4)"
    by (metis prod_cases3)
  have f3: "fips_step M (i + 3) (f', g', h', a, b', c', d', e) = (e', f', g', h', a', b', c', d')"
    and X4: "ring (fips_schedule M) (i + 4) X4"
    using round_ring [OF X3 _ r3] i by (simp_all add: eval_nat_numeral)
  obtain h'' d'' X5 where r4: "ROUND_16_63 (i + 4) e' f' g' h' a' b' c' d' X4 = (h'', d'', X5)"
    by (metis prod_cases3)
  have f4: "fips_step M (i + 4) (e', f', g', h', a', b', c', d') = (d'', e', f', g', h'', a', b', c')"
    and X5: "ring (fips_schedule M) (i + 5) X5"
    using round_ring [OF X4 _ r4] i by (simp_all add: eval_nat_numeral)
  obtain g'' c'' X6 where r5: "ROUND_16_63 (i + 5) d'' e' f' g' h'' a' b' c' X5 = (g'', c'', X6)"
    by (metis prod_cases3)
  have f5: "fips_step M (i + 5) (d'', e', f', g', h'', a', b', c') = (c'', d'', e', f', g'', h'', a', b')"
    and X6: "ring (fips_schedule M) (i + 6) X6"
    using round_ring [OF X5 _ r5] i by (simp_all add: eval_nat_numeral)
  obtain f'' b'' X7 where r6: "ROUND_16_63 (i + 6) c'' d'' e' f' g'' h'' a' b' X6 = (f'', b'', X7)"
    by (metis prod_cases3)
  have f6: "fips_step M (i + 6) (c'', d'', e', f', g'', h'', a', b') = (b'', c'', d'', e', f'', g'', h'', a')"
    and X7: "ring (fips_schedule M) (i + 7) X7"
    using round_ring [OF X6 _ r6] i by (simp_all add: eval_nat_numeral)
  obtain e'' a'' X8 where r7: "ROUND_16_63 (i + 7) b'' c'' d'' e' f'' g'' h'' a' X7 = (e'', a'', X8)"
    by (metis prod_cases3)
  have f7: "fips_step M (i + 7) (b'', c'', d'', e', f'', g'', h'', a') = (a'', b'', c'', d'', e'', f'', g'', h'')"
    and X8: "ring (fips_schedule M) (i + 8) X8"
    using round_ring [OF X7 _ r7] i by (simp_all add: eval_nat_numeral)
  have "fold (fips_step M) [i..<i + 8] s = (a'', b'', c'', d'', e'', f'', g'', h'')"
    by (simp only: upto8 s fold_simps f0 f1 f2 f3 f4 f5 f6 f7)
  moreover have "rounds_ring i (s, X) = ((a'', b'', c'', d'', e'', f'', g'', h''), X8)"
    by (simp only: rounds_ring_def s Let_def prod.case r0 r1 r2 r3 r4 r5 r6 r7)
  ultimately show ?thesis
    using X8 by simp
qed

lemma rounds_read_fips:
  assumes "ring (fips_schedule M) i X" and i: "i + 8 \<le> 16" and M: "M = block_word BIG_ENDIAN data"
  shows "\<exists>X'. rounds_read data i (s, X) = (fold (fips_step M) [i..<i + 8] s, X') \<and> ring (fips_schedule M) (i + 8) X'"
proof -
  obtain a b c d e f g h where s: "s = (a, b, c, d, e, f, g, h)"
    using regs8_cases by blast
  have Wk: "fips_schedule M (i + k) = M (i + k)" if "k < 8" for k
    using that i by (simp add: fips_schedule.simps [of M "i + k"])
  have W: "fips_schedule M (i + 0) = M (i + 0)"
    "fips_schedule M (i + 1) = M (i + 1)"
    "fips_schedule M (i + 2) = M (i + 2)"
    "fips_schedule M (i + 3) = M (i + 3)"
    "fips_schedule M (i + 4) = M (i + 4)"
    "fips_schedule M (i + 5) = M (i + 5)"
    "fips_schedule M (i + 6) = M (i + 6)"
    "fips_schedule M (i + 7) = M (i + 7)"
    by (rule Wk, simp)+
  obtain d' h' where r0: "ROUND_00_15 (M (i + 0)) (i + 0) a b c d e f g h = (d', h')"
    by fastforce
  have f0: "fips_step M (i + 0) (a, b, c, d, e, f, g, h) = (h', a, b, c, d', e, f, g)"
    unfolding W by (rule round_fips [OF r0])
  obtain c' g' where r1: "ROUND_00_15 (M (i + 1)) (i + 1) h' a b c d' e f g = (c', g')"
    by fastforce
  have f1: "fips_step M (i + 1) (h', a, b, c, d', e, f, g) = (g', h', a, b, c', d', e, f)"
    unfolding W by (rule round_fips [OF r1])
  obtain b' f' where r2: "ROUND_00_15 (M (i + 2)) (i + 2) g' h' a b c' d' e f = (b', f')"
    by fastforce
  have f2: "fips_step M (i + 2) (g', h', a, b, c', d', e, f) = (f', g', h', a, b', c', d', e)"
    unfolding W by (rule round_fips [OF r2])
  obtain a' e' where r3: "ROUND_00_15 (M (i + 3)) (i + 3) f' g' h' a b' c' d' e = (a', e')"
    by fastforce
  have f3: "fips_step M (i + 3) (f', g', h', a, b', c', d', e) = (e', f', g', h', a', b', c', d')"
    unfolding W by (rule round_fips [OF r3])
  obtain h'' d'' where r4: "ROUND_00_15 (M (i + 4)) (i + 4) e' f' g' h' a' b' c' d' = (h'', d'')"
    by fastforce
  have f4: "fips_step M (i + 4) (e', f', g', h', a', b', c', d') = (d'', e', f', g', h'', a', b', c')"
    unfolding W by (rule round_fips [OF r4])
  obtain g'' c'' where r5: "ROUND_00_15 (M (i + 5)) (i + 5) d'' e' f' g' h'' a' b' c' = (g'', c'')"
    by fastforce
  have f5: "fips_step M (i + 5) (d'', e', f', g', h'', a', b', c') = (c'', d'', e', f', g'', h'', a', b')"
    unfolding W by (rule round_fips [OF r5])
  obtain f'' b'' where r6: "ROUND_00_15 (M (i + 6)) (i + 6) c'' d'' e' f' g'' h'' a' b' = (f'', b'')"
    by fastforce
  have f6: "fips_step M (i + 6) (c'', d'', e', f', g'', h'', a', b') = (b'', c'', d'', e', f'', g'', h'', a')"
    unfolding W by (rule round_fips [OF r6])
  obtain e'' a'' where r7: "ROUND_00_15 (M (i + 7)) (i + 7) b'' c'' d'' e' f'' g'' h'' a' = (e'', a'')"
    by fastforce
  have f7: "fips_step M (i + 7) (b'', c'', d'', e', f'', g'', h'', a') = (a'', b'', c'', d'', e'', f'', g'', h'')"
    unfolding W by (rule round_fips [OF r7])
  have step: "ring (fips_schedule M) (i + Suc k) (Z[i + k := M (i + k)])"
    if "ring (fips_schedule M) (i + k) Z" "k < 8" for k Z
    using ring_step [OF that(1), of "i + k"] that(2) i by (simp add: Wk)
  have ring0: "ring (fips_schedule M) (i + 0) X"
    using assms(1) by simp
  define X1 where "X1 = X[i + 0 := M (i + 0)]"
  have ring1: "ring (fips_schedule M) (i + 1) X1"
    using step [OF ring0] unfolding X1_def by (simp add: eval_nat_numeral)
  define X2 where "X2 = X1[i + 1 := M (i + 1)]"
  have ring2: "ring (fips_schedule M) (i + 2) X2"
    using step [OF ring1] unfolding X2_def by (simp add: eval_nat_numeral)
  define X3 where "X3 = X2[i + 2 := M (i + 2)]"
  have ring3: "ring (fips_schedule M) (i + 3) X3"
    using step [OF ring2] unfolding X3_def by (simp add: eval_nat_numeral)
  define X4 where "X4 = X3[i + 3 := M (i + 3)]"
  have ring4: "ring (fips_schedule M) (i + 4) X4"
    using step [OF ring3] unfolding X4_def by (simp add: eval_nat_numeral)
  define X5 where "X5 = X4[i + 4 := M (i + 4)]"
  have ring5: "ring (fips_schedule M) (i + 5) X5"
    using step [OF ring4] unfolding X5_def by (simp add: eval_nat_numeral)
  define X6 where "X6 = X5[i + 5 := M (i + 5)]"
  have ring6: "ring (fips_schedule M) (i + 6) X6"
    using step [OF ring5] unfolding X6_def by (simp add: eval_nat_numeral)
  define X7 where "X7 = X6[i + 6 := M (i + 6)]"
  have ring7: "ring (fips_schedule M) (i + 7) X7"
    using step [OF ring6] unfolding X7_def by (simp add: eval_nat_numeral)
  define X8 where "X8 = X7[i + 7 := M (i + 7)]"
  have ring8: "ring (fips_schedule M) (i + 8) X8"
    using step [OF ring7] unfolding X8_def by (simp add: eval_nat_numeral)
  have "fold (fips_step M) [i..<i + 8] s = (a'', b'', c'', d'', e'', f'', g'', h'')"
    by (simp only: upto8 s fold_simps f0 f1 f2 f3 f4 f5 f6 f7)
  moreover have "rounds_read data i (s, X) = ((a'', b'', c'', d'', e'', f'', g'', h''), X8)"
    by (simp only: rounds_read_def s Let_def prod.case M [symmetric] r0 r1 r2 r3 r4 r5 r6 r7
        X1_def [symmetric] X2_def [symmetric] X3_def [symmetric] X4_def [symmetric]
        X5_def [symmetric] X6_def [symmetric] X7_def [symmetric] X8_def [symmetric])
  ultimately show ?thesis
    using ring8 by simp
qed

section \<open>The block function computes the compression function of FIPS 180-4\<close>

definition fips_upto :: "(nat \<Rightarrow> u32) \<Rightarrow> nat \<Rightarrow> regs8 \<Rightarrow> regs8" where
  "fips_upto M n s = fold (fips_step M) [0..<n] s"

lemma fips_upto_8: "fold (fips_step M) [i..<i + 8] (fips_upto M i s) = fips_upto M (i + 8) s"
  by (simp only: fips_upto_def upt_add_eq_append [OF le0, of i 8] fold_append comp_apply)

lemmas rounds_upto =
  rounds_ring_fips [where s = "fips_upto M i s" and M = M and i = i for M i s, unfolded fips_upto_8]
  rounds_read_fips [where s = "fips_upto M i s" and M = M and i = i for M i s, unfolded fips_upto_8]

lemma sha256_block_fips: "sha256_block st data = fips_compress st data"
proof -
  define M where "M = block_word BIG_ENDIAN data"
  define s where "s = (st ! 0, st ! 1, st ! 2, st ! 3, st ! 4, st ! 5, st ! 6, st ! 7)"
  let ?F = "\<lambda>n. fips_upto M n s"
  note read = rounds_upto(2) [OF _ _ M_def, where s = s] and turn = rounds_upto(1) [where M = M and s = s]
  have "ring (fips_schedule M) 0 (replicate 16 0)"
    by (simp add: ring_def)
  moreover have "?F 0 = s"
    by (simp add: fips_upto_def)
  ultimately obtain X1 where X1: "rounds_read data 0 (s, replicate 16 0) = (?F 8, X1)" "ring (fips_schedule M) 8 X1"
    using read [of 0] by auto
  obtain X2 where X2: "rounds_read data 8 (?F 8, X1) = (?F 16, X2)" "ring (fips_schedule M) 16 X2"
    using read [OF X1(2)] by auto
  obtain X3 where X3: "rounds_ring 16 (?F 16, X2) = (?F 24, X3)" "ring (fips_schedule M) 24 X3"
    using turn [OF X2(2)] by auto
  obtain X4 where X4: "rounds_ring 24 (?F 24, X3) = (?F 32, X4)" "ring (fips_schedule M) 32 X4"
    using turn [OF X3(2)] by auto
  obtain X5 where X5: "rounds_ring 32 (?F 32, X4) = (?F 40, X5)" "ring (fips_schedule M) 40 X5"
    using turn [OF X4(2)] by auto
  obtain X6 where X6: "rounds_ring 40 (?F 40, X5) = (?F 48, X6)" "ring (fips_schedule M) 48 X6"
    using turn [OF X5(2)] by auto
  obtain X7 where X7: "rounds_ring 48 (?F 48, X6) = (?F 56, X7)" "ring (fips_schedule M) 56 X7"
    using turn [OF X6(2)] by auto
  obtain X8 where X8: "rounds_ring 56 (?F 56, X7) = (?F 64, X8)" "ring (fips_schedule M) 64 X8"
    using turn [OF X7(2)] by auto
  have F64: "?F 64 = fold (fips_step M) [0..<64] s"
    by (simp only: fips_upto_def)
  show ?thesis
    unfolding sha256_block_def fips_compress_def Let_def fold_simps s_def [symmetric] M_def [symmetric]
      X1(1) X2(1) X3(1) X4(1) X5(1) X6(1) X7(1) X8(1)
      F64 [symmetric]
    by (simp only: split_beta fst_conv add.commute)
qed

lemma sha256_block_take: "sha256_block st (take 64 data) = sha256_block st data"
  unfolding sha256_block_def rounds_read_def by (simp only: block_word_take)

lemma sha256_block_data_order_chained:
  "sha256_block_data_order st data num = chained fips_compress (unat num) st data"
proof (induction st data num rule: sha256_block_data_order.induct)
  case (1 st data num)
  show ?case
  proof (cases "num = 0")
    case False
    then have "unat num = Suc (unat (num - 1))"
      by (metis Suc_pred' unat_gt_0 unat_minus_one)
    with 1 False show ?thesis
      by (simp add: sha256_block_data_order.simps [of st data num] sha256_block_take flip: sha256_block_fips)
  qed (simp add: sha256_block_data_order.simps [of st data 0])
qed

interpretation sha256: block_chaining sha256_block_data_order fips_compress
  by unfold_locales (rule sha256_block_data_order_chained)

section \<open>The digests\<close>

lemma SHA256_Init_fresh: "fresh SHA256_Init" "fresh SHA224_Init"
  by (simp_all add: fresh_def SHA256_Init_def SHA224_Init_def zero_ctx_def)

lemma length_fips_compress [simp]: "length (fips_compress H b) = 8"
  by (simp add: fips_compress_def Let_def split_beta)

lemma length_chained_fips: "length H = 8 \<Longrightarrow> length (chained fips_compress n H data) = 8"
  by (induction n arbitrary: H data) simp_all

lemma length_digested_fips: "length H = 8 \<Longrightarrow> length (digested BIG_ENDIAN fips_compress H msg) = 8"
  by (simp add: digested_def length_chained_fips)

lemma concat_words:
  "length H = 8 \<Longrightarrow> n \<le> 8 \<Longrightarrow>
     concat (map (\<lambda>nn. HOST_l2c BIG_ENDIAN (H ! nn)) [0..<n]) = take (4 * n) (concat (map (\<lambda>w. be_bytes 4 (unat w)) H))"
proof (induction n)
  case (Suc n)
  have t: "take (4 * k) (concat (map (\<lambda>w. be_bytes 4 (unat w)) ws)) = concat (map (\<lambda>w. be_bytes 4 (unat w)) (take k ws))"
    for k and ws :: "u32 list"
    by (induction ws arbitrary: k) (auto simp: take_Cons split: nat.split)
  show ?case
    using Suc t [of "Suc n" H] t [of n H] by (simp add: HOST_l2c_eq take_Suc_conv_app_nth)
qed simp

lemma make_string_fips:
  assumes "length (ctx_h c) = 8"
  shows "ctx_md_len c = SHA256_DIGEST_LENGTH \<Longrightarrow>
      SHA256_make_string c = Some (take 32 (concat (map (\<lambda>w. be_bytes 4 (unat w)) (ctx_h c))))"
    "ctx_md_len c = SHA224_DIGEST_LENGTH \<Longrightarrow>
      SHA256_make_string c = Some (take 28 (concat (map (\<lambda>w. be_bytes 4 (unat w)) (ctx_h c))))"
  using concat_words [OF assms, of 8] concat_words [OF assms, of 7]
  by (simp_all add: SHA256_make_string_def SHA256_DIGEST_LENGTH_def SHA224_DIGEST_LENGTH_def del: upt_conv_Cons)

lemma SHA256_finished:
  assumes "\<forall>d \<in> set ds. length d < 2 ^ 64" "fresh c" "length (ctx_h c) = 8"
  shows "ctx_md_len c = SHA256_DIGEST_LENGTH \<Longrightarrow>
      fst (SHA256_Final (fold SHA256_Update ds c)) = Some (fips_digest (ctx_h c) 32 (concat ds))"
    "ctx_md_len c = SHA224_DIGEST_LENGTH \<Longrightarrow>
      fst (SHA256_Final (fold SHA256_Update ds c)) = Some (fips_digest (ctx_h c) 28 (concat ds))"
  unfolding SHA256_Final_def SHA256_Update_def sha256.fresh_final [OF assms(2,1)] Let_def fst_conv fips_digest_def
  by (subst make_string_fips; simp add: assms(3) length_digested_fips collected_def)+

lemma SHA256_updates:
  assumes "\<forall>d \<in> set ds. length d < 2 ^ 64"
  shows "fst (SHA256_Final (fold SHA256_Update ds SHA256_Init)) = Some (fips_digest (ctx_h SHA256_Init) 32 (concat ds))"
    and "fst (SHA224_Final (fold SHA224_Update ds SHA224_Init)) = Some (fips_digest (ctx_h SHA224_Init) 28 (concat ds))"
  using SHA256_finished [OF assms SHA256_Init_fresh(1)] SHA256_finished [OF assms SHA256_Init_fresh(2)]
  by (simp_all add: SHA224_Final_def SHA224_Update_def SHA256_Init_def SHA224_Init_def)



end
