(* ===== verification/SHA512.thy ===== *)
theory SHA512
  imports SHA256
begin

text \<open>
  \<open>crypto/fipsmodule/sha/sha512.c\<close> (BoringSSL): SHA-384 and SHA-512, which have a collector of their own, with
  128-byte blocks, 64-bit words and a 128-bit count of bits.  The file has two block functions in C: the one
  of all targets but 32-bit x86, with its schedule in a ring of sixteen words, and the one of 32-bit x86, with
  a window that slides down an array of 89 words.  The reference is FIPS 180-4.
\<close>

section \<open>The context\<close>

text \<open>\<open>struct sha512_state_st\<close>; the union \<open>u\<close> is only used as its bytes \<open>p\<close>.\<close>

record SHA512_CTX =
  h512 :: "u64 list"
  Nl512 :: u64
  Nh512 :: u64
  p512 :: bytes
  num512 :: u32
  md_len512 :: u32

definition SHA384_DIGEST_LENGTH :: u32 where "SHA384_DIGEST_LENGTH = 48"
definition SHA512_DIGEST_LENGTH :: u32 where "SHA512_DIGEST_LENGTH = 64"

text \<open>\<open>sizeof(c->u)\<close>\<close>

definition sizeof_u :: usize where "sizeof_u = 128"

text \<open>The two \<open>Init\<close>s leave the bytes of the block as they find them.\<close>

definition SHA384_Init :: "SHA512_CTX \<Rightarrow> SHA512_CTX" where
  "SHA384_Init sha = sha
     \<lparr>h512 :=
        [0xcbbb9d5dc1059ed8, 0x629a292a367cd507, 0x9159015a3070dd17, 0x152fecd8f70e5939,
         0x67332667ffc00b31, 0x8eb44a8768581511, 0xdb0c2e0d64f98fa7, 0x47b5481dbefa4fa4],
       Nl512 := 0, Nh512 := 0, num512 := 0, md_len512 := SHA384_DIGEST_LENGTH\<rparr>"

definition SHA512_Init :: "SHA512_CTX \<Rightarrow> SHA512_CTX" where
  "SHA512_Init sha = sha
     \<lparr>h512 :=
        [0x6a09e667f3bcc908, 0xbb67ae8584caa73b, 0x3c6ef372fe94f82b, 0xa54ff53a5f1d36f1,
         0x510e527fade682d1, 0x9b05688c2b3e6c1f, 0x1f83d9abfb41bd6b, 0x5be0cd19137e2179],
       Nl512 := 0, Nh512 := 0, num512 := 0, md_len512 := SHA512_DIGEST_LENGTH\<rparr>"

section \<open>The block function\<close>

text \<open>\<open>K512[80]\<close>, in four parts.\<close>

definition K512_0 :: "u64 list" where
  "K512_0 =
   concat
    [[0x428a2f98d728ae22, 0x7137449123ef65cd, 0xb5c0fbcfec4d3b2f, 0xe9b5dba58189dbbc],
     [0x3956c25bf348b538, 0x59f111f1b605d019, 0x923f82a4af194f9b, 0xab1c5ed5da6d8118],
     [0xd807aa98a3030242, 0x12835b0145706fbe, 0x243185be4ee4b28c, 0x550c7dc3d5ffb4e2],
     [0x72be5d74f27b896f, 0x80deb1fe3b1696b1, 0x9bdc06a725c71235, 0xc19bf174cf692694],
     [0xe49b69c19ef14ad2, 0xefbe4786384f25e3, 0x0fc19dc68b8cd5b5, 0x240ca1cc77ac9c65]]"

definition K512_1 :: "u64 list" where
  "K512_1 =
   concat
    [[0x2de92c6f592b0275, 0x4a7484aa6ea6e483, 0x5cb0a9dcbd41fbd4, 0x76f988da831153b5],
     [0x983e5152ee66dfab, 0xa831c66d2db43210, 0xb00327c898fb213f, 0xbf597fc7beef0ee4],
     [0xc6e00bf33da88fc2, 0xd5a79147930aa725, 0x06ca6351e003826f, 0x142929670a0e6e70],
     [0x27b70a8546d22ffc, 0x2e1b21385c26c926, 0x4d2c6dfc5ac42aed, 0x53380d139d95b3df],
     [0x650a73548baf63de, 0x766a0abb3c77b2a8, 0x81c2c92e47edaee6, 0x92722c851482353b]]"

definition K512_2 :: "u64 list" where
  "K512_2 =
   concat
    [[0xa2bfe8a14cf10364, 0xa81a664bbc423001, 0xc24b8b70d0f89791, 0xc76c51a30654be30],
     [0xd192e819d6ef5218, 0xd69906245565a910, 0xf40e35855771202a, 0x106aa07032bbd1b8],
     [0x19a4c116b8d2d0c8, 0x1e376c085141ab53, 0x2748774cdf8eeb99, 0x34b0bcb5e19b48a8],
     [0x391c0cb3c5c95a63, 0x4ed8aa4ae3418acb, 0x5b9cca4f7763e373, 0x682e6ff3d6b2b8a3],
     [0x748f82ee5defb2fc, 0x78a5636f43172f60, 0x84c87814a1f0ab72, 0x8cc702081a6439ec]]"

definition K512_3 :: "u64 list" where
  "K512_3 =
   concat
    [[0x90befffa23631e28, 0xa4506cebde82bde9, 0xbef9a3f7b2c67915, 0xc67178f2e372532b],
     [0xca273eceea26619c, 0xd186b8c721c0c207, 0xeada7dd6cde0eb1e, 0xf57d4f7fee6ed178],
     [0x06f067aa72176fba, 0x0a637dc5a2c898a6, 0x113f9804bef90dae, 0x1b710b35131c471b],
     [0x28db77f523047d84, 0x32caab7b40c72493, 0x3c9ebe0a15c9bebc, 0x431d67c49c100d4c],
     [0x4cc5d4becb3e42b6, 0x597f299cfc657e2a, 0x5fcb6fab3ad6faec, 0x6c44198c4a475817]]"

definition K512 :: "u64 list" where
  "K512 = K512_0 @ K512_1 @ K512_2 @ K512_3"

text \<open>\<open>PULL64\<close> of a word of the block, byte by byte, with the macro \<open>B\<close> written out.\<close>

definition PULL64 :: "bytes \<Rightarrow> u64" where
  "PULL64 x =
     push_bit 56 (ucast (x ! 0)) OR push_bit 48 (ucast (x ! 1)) OR push_bit 40 (ucast (x ! 2)) OR
     push_bit 32 (ucast (x ! 3)) OR push_bit 24 (ucast (x ! 4)) OR push_bit 16 (ucast (x ! 5)) OR
     push_bit 8 (ucast (x ! 6)) OR push_bit 0 (ucast (x ! 7))"

definition block_word64 :: "bytes \<Rightarrow> nat \<Rightarrow> u64" where
  "block_word64 W i = PULL64 (take 8 (drop (8 * i) W))"

definition ROTR :: "u64 \<Rightarrow> nat \<Rightarrow> u64" where "ROTR x s = drop_bit s x OR push_bit (64 - s) x"

definition Sigma0_64 :: "u64 \<Rightarrow> u64" where "Sigma0_64 x = ROTR x 28 XOR ROTR x 34 XOR ROTR x 39"
definition Sigma1_64 :: "u64 \<Rightarrow> u64" where "Sigma1_64 x = ROTR x 14 XOR ROTR x 18 XOR ROTR x 41"
definition sigma0_64 :: "u64 \<Rightarrow> u64" where "sigma0_64 x = ROTR x 1 XOR ROTR x 8 XOR drop_bit 7 x"
definition sigma1_64 :: "u64 \<Rightarrow> u64" where "sigma1_64 x = ROTR x 19 XOR ROTR x 61 XOR drop_bit 6 x"

definition Ch_64 :: "u64 \<Rightarrow> u64 \<Rightarrow> u64 \<Rightarrow> u64" where
  "Ch_64 x y z = (x AND y) XOR (NOT x AND z)"
definition Maj_64 :: "u64 \<Rightarrow> u64 \<Rightarrow> u64 \<Rightarrow> u64" where
  "Maj_64 x y z = (x AND y) XOR (x AND z) XOR (y AND z)"

definition ROUND_00_15_64 ::
  "u64 \<Rightarrow> nat \<Rightarrow> u64 \<Rightarrow> u64 \<Rightarrow> u64 \<Rightarrow> u64 \<Rightarrow> u64 \<Rightarrow> u64 \<Rightarrow> u64 \<Rightarrow> u64 \<Rightarrow> u64 \<times> u64" where
  "ROUND_00_15_64 T1 i a b c d e f g h =
     (let T1 = T1 + (h + Sigma1_64 e + Ch_64 e f g + K512 ! i);
          h = Sigma0_64 a + Maj_64 a b c;
          d = d + T1;
          h = h + T1
      in (d, h))"

definition ROUND_16_80 ::
  "nat \<Rightarrow> nat \<Rightarrow> u64 \<Rightarrow> u64 \<Rightarrow> u64 \<Rightarrow> u64 \<Rightarrow> u64 \<Rightarrow> u64 \<Rightarrow> u64 \<Rightarrow> u64 \<Rightarrow> u64 list \<Rightarrow> u64 \<times> u64 \<times> u64 list" where
  "ROUND_16_80 i j a b c d e f g h X =
     (let s0 = X ! ((j + 1) mod 16);
          s0 = sigma0_64 s0;
          s1 = X ! ((j + 14) mod 16);
          s1 = sigma1_64 s1;
          X = X[j mod 16 := X ! (j mod 16) + (s0 + s1 + X ! ((j + 9) mod 16))];
          (d, h) = ROUND_00_15_64 (X ! (j mod 16)) (i + j) a b c d e f g h
      in (d, h, X))"

type_synonym regs8_64 = "u64 \<times> u64 \<times> u64 \<times> u64 \<times> u64 \<times> u64 \<times> u64 \<times> u64"

text \<open>Eight of the first sixteen rounds, from round \<open>i\<close>.\<close>

definition rounds_read64 :: "bytes \<Rightarrow> nat \<Rightarrow> regs8_64 \<times> u64 list \<Rightarrow> regs8_64 \<times> u64 list" where
  "rounds_read64 W i s =
     (let ((a, b, c, d, e, f, g, h), X) = s;
          l = block_word64 W (i + 0); X = X[i + 0 := l]; (d, h) = ROUND_00_15_64 l (i + 0) a b c d e f g h;
          l = block_word64 W (i + 1); X = X[i + 1 := l]; (c, g) = ROUND_00_15_64 l (i + 1) h a b c d e f g;
          l = block_word64 W (i + 2); X = X[i + 2 := l]; (b, f) = ROUND_00_15_64 l (i + 2) g h a b c d e f;
          l = block_word64 W (i + 3); X = X[i + 3 := l]; (a, e) = ROUND_00_15_64 l (i + 3) f g h a b c d e;
          l = block_word64 W (i + 4); X = X[i + 4 := l]; (h, d) = ROUND_00_15_64 l (i + 4) e f g h a b c d;
          l = block_word64 W (i + 5); X = X[i + 5 := l]; (g, c) = ROUND_00_15_64 l (i + 5) d e f g h a b c;
          l = block_word64 W (i + 6); X = X[i + 6 := l]; (f, b) = ROUND_00_15_64 l (i + 6) c d e f g h a b;
          l = block_word64 W (i + 7); X = X[i + 7 := l]; (e, a) = ROUND_00_15_64 l (i + 7) b c d e f g h a
      in ((a, b, c, d, e, f, g, h), X))"

text \<open>Eight rounds of the body of \<open>for (i = 16; i < 80; i += 16)\<close>, from \<open>j\<close>, then the body.\<close>

definition rounds_ring64 :: "nat \<Rightarrow> nat \<Rightarrow> regs8_64 \<times> u64 list \<Rightarrow> regs8_64 \<times> u64 list" where
  "rounds_ring64 i j s =
     (let ((a, b, c, d, e, f, g, h), X) = s;
          (d, h, X) = ROUND_16_80 i (j + 0) a b c d e f g h X;
          (c, g, X) = ROUND_16_80 i (j + 1) h a b c d e f g X;
          (b, f, X) = ROUND_16_80 i (j + 2) g h a b c d e f X;
          (a, e, X) = ROUND_16_80 i (j + 3) f g h a b c d e X;
          (h, d, X) = ROUND_16_80 i (j + 4) e f g h a b c d X;
          (g, c, X) = ROUND_16_80 i (j + 5) d e f g h a b c X;
          (f, b, X) = ROUND_16_80 i (j + 6) c d e f g h a b X;
          (e, a, X) = ROUND_16_80 i (j + 7) b c d e f g h a X
      in ((a, b, c, d, e, f, g, h), X))"

definition rounds_16_80 :: "nat \<Rightarrow> regs8_64 \<times> u64 list \<Rightarrow> regs8_64 \<times> u64 list" where
  "rounds_16_80 i s = (let s = rounds_ring64 i 0 s; s = rounds_ring64 i 8 s in s)"

text \<open>One turn of \<open>while (num--)\<close>; the ring is uninitialised before its sixteen words are read.\<close>

definition sha512_block :: "u64 list \<Rightarrow> bytes \<Rightarrow> u64 list" where
  "sha512_block state W =
     (let s = ((state ! 0, state ! 1, state ! 2, state ! 3, state ! 4, state ! 5, state ! 6, state ! 7), replicate 16 0);
          s = rounds_read64 W 0 s;
          s = rounds_read64 W 8 s;
          ((a, b, c, d, e, f, g, h), X) = fold rounds_16_80 [16, 32, 48, 64] s
      in [state ! 0 + a, state ! 1 + b, state ! 2 + c, state ! 3 + d,
          state ! 4 + e, state ! 5 + f, state ! 6 + g, state ! 7 + h])"

function sha512_block_data_order :: "u64 list \<Rightarrow> bytes \<Rightarrow> usize \<Rightarrow> u64 list" where
  "sha512_block_data_order state W num =
     (if num = 0 then state
      else sha512_block_data_order (sha512_block state W) (drop 128 W) (num - 1))"
  by pat_completeness auto
termination
  by (relation "measure (\<lambda>(_, _, num). unat num)") (auto simp: unat_minus_one unat_gt_0)

declare sha512_block_data_order.simps [simp del]

section \<open>The block function of 32-bit x86\<close>

text \<open>
  \<open>F\<close> is an index into the 89 words of \<open>X\<close>, which start uninitialised.  A round gets \<open>T\<close>, its word of the
  schedule, and stores it with the two registers that are about to move.
\<close>

definition window_round :: "nat \<Rightarrow> u64 \<Rightarrow> nat \<Rightarrow> u64 \<times> u64 \<times> u64 list \<Rightarrow> u64 \<times> u64 \<times> u64 list" where
  "window_round i T F s =
     (let (A, E, X) = s;
          X = X[F + 0 := A];
          X = X[F + 4 := E];
          X = X[F + 8 := T];
          T = T + (X ! (F + 7) + Sigma1_64 E + Ch_64 E (X ! (F + 5)) (X ! (F + 6)) + K512 ! i);
          E = X ! (F + 3) + T;
          A = T + Sigma0_64 A + Maj_64 A (X ! (F + 1)) (X ! (F + 2))
      in (A, E, X))"

text \<open>One turn of each of the two loops, with \<open>F = X + (80 - i)\<close>.\<close>

definition window_read :: "bytes \<Rightarrow> nat \<Rightarrow> u64 \<times> u64 \<times> u64 list \<Rightarrow> u64 \<times> u64 \<times> u64 list" where
  "window_read W i s = window_round i (block_word64 W i) (80 - i) s"

definition window_slide :: "nat \<Rightarrow> u64 \<times> u64 \<times> u64 list \<Rightarrow> u64 \<times> u64 \<times> u64 list" where
  "window_slide i s =
     (let (A, E, X) = s;
          F = 80 - i;
          T = sigma0_64 (X ! (F + 8 + 16 - 1));
          T = T + sigma1_64 (X ! (F + 8 + 16 - 14));
          T = T + (X ! (F + 8 + 16) + X ! (F + 8 + 16 - 9))
      in window_round i T F s)"

definition sha512_block_x86 :: "u64 list \<Rightarrow> bytes \<Rightarrow> u64 list" where
  "sha512_block_x86 state W =
     (let X = replicate 89 0;
          F = 80;
          A = state ! 0;
          X = X[F + 1 := state ! 1];
          X = X[F + 2 := state ! 2];
          X = X[F + 3 := state ! 3];
          E = state ! 4;
          X = X[F + 5 := state ! 5];
          X = X[F + 6 := state ! 6];
          X = X[F + 7 := state ! 7];
          s = fold (window_read W) [0..<16] (A, E, X);
          (A, E, X) = fold window_slide [16..<80] s;
          F = 0
      in [state ! 0 + A, state ! 1 + X ! (F + 1), state ! 2 + X ! (F + 2), state ! 3 + X ! (F + 3),
          state ! 4 + E, state ! 5 + X ! (F + 5), state ! 6 + X ! (F + 6), state ! 7 + X ! (F + 7)])"

function sha512_block_data_order_x86 :: "u64 list \<Rightarrow> bytes \<Rightarrow> usize \<Rightarrow> u64 list" where
  "sha512_block_data_order_x86 state W num =
     (if num = 0 then state
      else sha512_block_data_order_x86 (sha512_block_x86 state W) (drop 128 W) (num - 1))"
  by pat_completeness auto
termination
  by (relation "measure (\<lambda>(_, _, num). unat num)") (auto simp: unat_minus_one unat_gt_0)

declare sha512_block_data_order_x86.simps [simp del]

section \<open>Transform, update and final\<close>

text \<open>
  \<open>SHA512_Transform\<close> and \<open>SHA512_Update\<close> copy blocks that are not aligned where the block function cannot
  manage such data.  The argument \<open>address\<close> is \<open>None\<close> where \<open>SHA512_BLOCK_CAN_MANAGE_UNALIGNED_DATA\<close> is
  defined (x86, x86-64, and the ARM targets of the application), else the address of the data.
\<close>

definition must_copy :: "usize option \<Rightarrow> bool" where
  "must_copy address = (case address of None \<Rightarrow> False | Some a \<Rightarrow> a mod 8 \<noteq> 0)"

definition SHA512_Transform :: "usize option \<Rightarrow> bytes \<Rightarrow> SHA512_CTX \<Rightarrow> SHA512_CTX" where
  "SHA512_Transform address block c =
     (let (c, block) =
            (if must_copy address
             then let c = c\<lparr>p512 := mem_write (p512 c) 0 (take (unat sizeof_u) block)\<rparr> in (c, p512 c)
             else (c, block))
      in c\<lparr>h512 := sha512_block_data_order (h512 c) block 1\<rparr>)"

text \<open>The loop that copies block after block.\<close>

function SHA512_Update_copies :: "bytes \<Rightarrow> usize \<Rightarrow> SHA512_CTX \<Rightarrow> SHA512_CTX \<times> bytes \<times> usize" where
  "SHA512_Update_copies data len c =
     (if sizeof_u \<le> len
      then let c = c\<lparr>p512 := mem_write (p512 c) 0 (take (unat sizeof_u) data)\<rparr>;
               c = c\<lparr>h512 := sha512_block_data_order (h512 c) (p512 c) 1\<rparr>
           in SHA512_Update_copies (drop (unat sizeof_u) data) (len - sizeof_u) c
      else (c, data, len))"
  by pat_completeness auto
termination
  by (relation "measure (\<lambda>(_, len, _). unat len)") (auto simp: sizeof_u_def word_le_nat_alt unat_sub)

declare SHA512_Update_copies.simps [simp del]

text \<open>The end of \<open>SHA512_Update\<close>, from \<open>if (len >= sizeof(c->u))\<close>.\<close>

definition SHA512_Update_blocks :: "usize option \<Rightarrow> bytes \<Rightarrow> usize \<Rightarrow> SHA512_CTX \<Rightarrow> SHA512_CTX" where
  "SHA512_Update_blocks address data len c =
     (let (c, data, len) =
            (if sizeof_u \<le> len
             then if must_copy address then SHA512_Update_copies data len c
                  else let c = c\<lparr>h512 := sha512_block_data_order (h512 c) data (len div sizeof_u)\<rparr>;
                           pos = unat len;
                           len = len mod sizeof_u
                       in (c, drop (pos - unat len) data, len)
             else (c, data, len))
      in if len \<noteq> 0
         then c\<lparr>p512 := mem_write (p512 c) 0 (take (unat len) data), num512 := ucast len\<rparr>
         else c)"

text \<open>\<open>SHA512_Update\<close> always returns 1.\<close>

definition SHA512_Update :: "usize option \<Rightarrow> bytes \<Rightarrow> SHA512_CTX \<Rightarrow> SHA512_CTX" where
  "SHA512_Update address data c =
     (let len = (of_nat (length data) :: usize)
      in if len = 0 then c
         else
           let l = (Nl512 c + push_bit 3 len) AND 0xffffffffffffffff;
               c = (if l < Nl512 c then c\<lparr>Nh512 := Nh512 c + 1\<rparr> else c);
               c = c\<lparr>Nh512 := Nh512 c + drop_bit 61 len\<rparr>;
               c = c\<lparr>Nl512 := l\<rparr>
           in if num512 c \<noteq> 0
              then let n = sizeof_u - ucast (num512 c)
                   in if len < n
                      then let c = c\<lparr>p512 := mem_write (p512 c) (unat (num512 c)) data\<rparr>
                           in c\<lparr>num512 := num512 c + ucast len\<rparr>
                      else let c = c\<lparr>p512 := mem_write (p512 c) (unat (num512 c)) (take (unat n) data), num512 := 0\<rparr>;
                               len = len - n;
                               data = drop (unat n) data;
                               c = c\<lparr>h512 := sha512_block_data_order (h512 c) (p512 c) 1\<rparr>
                           in SHA512_Update_blocks (map_option (\<lambda>a. a + n) address) data len c
              else SHA512_Update_blocks address data len c)"

text \<open>The bytes that the loops of \<open>SHA512_Final\<close> write for a word.\<close>

definition store64 :: "u64 \<Rightarrow> bytes" where
  "store64 t =
     [ucast (drop_bit 56 t), ucast (drop_bit 48 t), ucast (drop_bit 40 t), ucast (drop_bit 32 t),
      ucast (drop_bit 24 t), ucast (drop_bit 16 t), ucast (drop_bit 8 t), ucast t]"

text \<open>
  The first argument says whether \<open>md\<close> is not null.  The result \<open>None\<close> is a return of 0, after a null \<open>md\<close> or
  a \<open>md_len\<close> that is neither digest's.
\<close>

definition SHA512_Final :: "bool \<Rightarrow> SHA512_CTX \<Rightarrow> bytes option \<times> SHA512_CTX" where
  "SHA512_Final md sha =
     (let n = (ucast (num512 sha) :: usize);
          sha = sha\<lparr>p512 := (p512 sha)[unat n := 0x80]\<rparr>;
          n = n + 1;
          (sha, n) =
            (if sizeof_u - 16 < n
             then let sha = sha\<lparr>p512 := mem_write (p512 sha) (unat n) (replicate (unat (sizeof_u - n)) 0)\<rparr>;
                      n = 0;
                      sha = sha\<lparr>h512 := sha512_block_data_order (h512 sha) (p512 sha) 1\<rparr>
                  in (sha, n)
             else (sha, n));
          sha = sha\<lparr>p512 := mem_write (p512 sha) (unat n) (replicate (unat (sizeof_u - 16 - n)) 0)\<rparr>;
          sha = sha\<lparr>p512 := mem_write (p512 sha) (unat (sizeof_u - 16)) (store64 (Nh512 sha) @ store64 (Nl512 sha))\<rparr>;
          sha = sha\<lparr>h512 := sha512_block_data_order (h512 sha) (p512 sha) 1\<rparr>
      in if \<not> md then (None, sha)
         else if md_len512 sha = SHA384_DIGEST_LENGTH
         then (Some (concat (map (\<lambda>n. store64 (h512 sha ! n)) [0..<unat (SHA384_DIGEST_LENGTH div 8)])), sha)
         else if md_len512 sha = SHA512_DIGEST_LENGTH
         then (Some (concat (map (\<lambda>n. store64 (h512 sha ! n)) [0..<unat (SHA512_DIGEST_LENGTH div 8)])), sha)
         else (None, sha))"

definition SHA384_Update :: "usize option \<Rightarrow> bytes \<Rightarrow> SHA512_CTX \<Rightarrow> SHA512_CTX" where
  "SHA384_Update = SHA512_Update"

definition SHA384_Final :: "bool \<Rightarrow> SHA512_CTX \<Rightarrow> bytes option \<times> SHA512_CTX" where
  "SHA384_Final = SHA512_Final"

text \<open>The one-shot functions; \<open>ctx\<close> is the uninitialised local, and \<open>None\<close> an output buffer left as it was.\<close>

definition SHA384 :: "usize option \<Rightarrow> bool \<Rightarrow> SHA512_CTX \<Rightarrow> bytes \<Rightarrow> bytes option" where
  "SHA384 address out ctx data = fst (SHA384_Final out (SHA384_Update address data (SHA384_Init ctx)))"

definition SHA512 :: "usize option \<Rightarrow> bool \<Rightarrow> SHA512_CTX \<Rightarrow> bytes \<Rightarrow> bytes option" where
  "SHA512 address out ctx data = fst (SHA512_Final out (SHA512_Update address data (SHA512_Init ctx)))"

section \<open>The reference: FIPS 180-4\<close>

fun fips512_schedule :: "(nat \<Rightarrow> u64) \<Rightarrow> nat \<Rightarrow> u64" where
  "fips512_schedule M t =
     (if t < 16 then M t
      else (let s1 = (\<lambda>x. word_rotr 19 x XOR word_rotr 61 x XOR drop_bit 6 x);
                s0 = (\<lambda>x. word_rotr 1 x XOR word_rotr 8 x XOR drop_bit 7 x)
            in s1 (fips512_schedule M (t - 2)) + fips512_schedule M (t - 7) +
               s0 (fips512_schedule M (t - 15)) + fips512_schedule M (t - 16)))"

declare fips512_schedule.simps [simp del]

definition fips512_round :: "u64 \<Rightarrow> u64 \<Rightarrow> regs8_64 \<Rightarrow> regs8_64" where
  "fips512_round K W s =
     (let (a, b, c, d, e, f, g, h) = s;
          S1 = word_rotr 14 e XOR word_rotr 18 e XOR word_rotr 41 e;
          S0 = word_rotr 28 a XOR word_rotr 34 a XOR word_rotr 39 a;
          T1 = h + S1 + ((e AND f) XOR (NOT e AND g)) + K + W;
          T2 = S0 + ((a AND b) XOR (a AND c) XOR (b AND c))
      in (T1 + T2, a, b, c, d + T1, e, f, g))"

text \<open>A round on the schedule of the block \<open>M\<close>, and the first \<open>n\<close> rounds.\<close>

definition fips512_step :: "(nat \<Rightarrow> u64) \<Rightarrow> nat \<Rightarrow> regs8_64 \<Rightarrow> regs8_64" where
  "fips512_step M i = fips512_round (K512 ! i) (fips512_schedule M i)"

definition fips512_upto :: "(nat \<Rightarrow> u64) \<Rightarrow> nat \<Rightarrow> regs8_64 \<Rightarrow> regs8_64" where
  "fips512_upto M n s = fold (fips512_step M) [0..<n] s"

definition fips512_compress :: "u64 list \<Rightarrow> bytes \<Rightarrow> u64 list" where
  "fips512_compress H block =
     (let (a, b, c, d, e, f, g, h) =
            fips512_upto (\<lambda>i. of_nat (be_val (take 8 (drop (8 * i) block)))) 80
              (H ! 0, H ! 1, H ! 2, H ! 3, H ! 4, H ! 5, H ! 6, H ! 7)
      in [a + H ! 0, b + H ! 1, c + H ! 2, d + H ! 3, e + H ! 4, f + H ! 5, g + H ! 6, h + H ! 7])"

text \<open>The message, a one bit, zeros, and its length in bits as a 128-bit number.\<close>

definition padded128 :: "bytes \<Rightarrow> bytes" where
  "padded128 msg = msg @ [0x80] @ replicate ((239 - length msg mod 128) mod 128) 0 @ be_bytes 16 (8 * length msg)"

definition digested128 :: "u64 list \<Rightarrow> bytes \<Rightarrow> u64 list" where
  "digested128 H msg = chain 128 fips512_compress (length (padded128 msg) div 128) H (padded128 msg)"

definition fips512_digest :: "u64 list \<Rightarrow> nat \<Rightarrow> bytes \<Rightarrow> bytes" where
  "fips512_digest IV len msg = take len (concat (map (\<lambda>w. be_bytes 8 (unat w)) (digested128 IV msg)))"

text \<open>
  The constants are the first 64 bits of the fractional parts of the cube roots of the first 80 primes, and
  of the square roots of the first eight (SHA-512) and the next eight (SHA-384).
\<close>

definition primes80 :: "(nat \<times> nat) list" where
  "primes80 = primes64 @
   [(313, 6), (317, 6), (331, 6), (337, 6), (347, 7), (349, 7), (353, 7), (359, 7),
    (367, 7), (373, 7), (379, 7), (383, 7), (389, 7), (397, 7), (401, 7), (409, 7)]"

lemma cube_roots:
  "list_all2 (root_bits 3) (take 20 primes64) K512_0"
  by (simp add: primes64_def K512_0_def root_bits_def)

lemma cube_roots_20: "list_all2 (root_bits 3) (take 20 (drop 20 primes64)) K512_1"
  by (simp add: primes64_def K512_1_def root_bits_def)

lemma cube_roots_40: "list_all2 (root_bits 3) (take 20 (drop 40 primes64)) K512_2"
  by (simp add: primes64_def K512_2_def root_bits_def)

lemma cube_roots_60: "list_all2 (root_bits 3) (drop 60 primes80) K512_3"
  by (simp add: primes80_def primes64_def K512_3_def root_bits_def)

lemma list_all2_drop: "list_all2 P (take n (drop k xs)) ys \<Longrightarrow> list_all2 P (drop (k + n) xs) zs \<Longrightarrow> list_all2 P (drop k xs) (ys @ zs)"
  by (metis append_take_drop_id add.commute drop_drop list_all2_appendI)

lemma K512_cube_roots: "list_all2 (root_bits 3) primes80 K512"
proof -
  have len: "length primes64 = 64"
    by (simp add: primes64_def)
  have "list_all2 (root_bits 3) (drop 0 primes80) K512"
    unfolding K512_def
    by (intro list_all2_drop [of _ 20];
        use cube_roots cube_roots_20 cube_roots_40 cube_roots_60 in \<open>simp add: primes80_def len\<close>)
  then show ?thesis
    by simp
qed

lemma SHA512_square_roots:
  "list_all2 (root_bits 2) [(2, 1), (3, 1), (5, 2), (7, 2), (11, 3), (13, 3), (17, 4), (19, 4)] (h512 (SHA512_Init c))"
  "list_all2 (root_bits 2) [(23, 4), (29, 5), (31, 5), (37, 6), (41, 6), (43, 6), (47, 6), (53, 7)] (h512 (SHA384_Init c))"
  by (simp_all add: SHA512_Init_def SHA384_Init_def root_bits_def)

end
