(* ===== verification/SHA512_Correct.thy ===== *)
theory SHA512_Correct
  imports SHA512
begin

text \<open>
  The two block functions of \<open>sha512.c\<close> compute the compression function of FIPS 180-4, and the collector hands
  them the padded message, however it was cut into updates.
\<close>

section \<open>Words\<close>

lemma ROTR_rotr: "0 < n \<Longrightarrow> n < 64 \<Longrightarrow> ROTR x n = word_rotr n x"
proof (rule bit_word_eqI)
  fix k assume n: "0 < n" "n < 64" and k: "k < LENGTH(64)"
  have rotr: "bit (word_rotr n x) k = bit x ((k + n) mod 64)"
    using n k by (simp only: bit_word_rotr_iff) simp
  have ROTR: "bit (ROTR x n) k = (bit x (k + n) \<or> 64 - n \<le> k \<and> bit x (k - (64 - n)))"
    using n k by (auto simp: ROTR_def bit_simps add.commute)
  show "bit (ROTR x n) k = bit (word_rotr n x) k"
  proof (cases "k + n < 64")
    case False
    then have "(k + n) mod 64 = k - (64 - n)"
      using n k le_mod_geq [of 64 "k + n"] by simp
    moreover have "\<not> bit x (k + n)"
      using False bit_imp_le_length [of x "k + n"] by auto
    ultimately show ?thesis
      unfolding rotr ROTR using False by auto
  qed (use n in \<open>auto simp: rotr ROTR\<close>)
qed

lemma Sigma64_rotr:
  "Sigma0_64 x = word_rotr 28 x XOR word_rotr 34 x XOR word_rotr 39 x"
  "Sigma1_64 x = word_rotr 14 x XOR word_rotr 18 x XOR word_rotr 41 x"
  "sigma0_64 x = word_rotr 1 x XOR word_rotr 8 x XOR drop_bit 7 x"
  "sigma1_64 x = word_rotr 19 x XOR word_rotr 61 x XOR drop_bit 6 x"
  by (simp_all add: Sigma0_64_def Sigma1_64_def sigma0_64_def sigma1_64_def ROTR_rotr)

lemma PULL64_be:
  assumes "length x = 8"
  shows "PULL64 x = of_nat (be_val x)"
proof -
  obtain b0 b1 b2 b3 b4 b5 b6 b7 where x: "x = [b0, b1, b2, b3, b4, b5, b6, b7]"
    using assms by (auto simp: numeral_eq_Suc length_Suc_conv)
  have "PULL64 x = foldl (\<lambda>v b. push_bit 8 v OR ucast b) 0 x"
    unfolding x PULL64_def by (simp add: or.assoc)
  then show ?thesis
    using foldl_be_val [of 0 x, where 'a = 64] by simp
qed

lemma store64_be: "store64 t = be_bytes 8 (unat t)"
proof -
  have low: "(ucast (drop_bit k t) :: u8) = of_nat (unat t div 2 ^ k)" for k
    by (metis drop_bit_eq_div of_nat_unat unat_drop_bit_eq)
  have le: "le_bytes 8 n = [of_nat n, of_nat (n div 2 ^ 8), of_nat (n div 2 ^ 16), of_nat (n div 2 ^ 24),
      of_nat (n div 2 ^ 32), of_nat (n div 2 ^ 40), of_nat (n div 2 ^ 48), of_nat (n div 2 ^ 56)]" for n
    using le_bytes_add [of 4 4 n] by (simp add: le_bytes_4 div_mult2_eq [symmetric])
  show ?thesis
    using low [of 0] by (simp add: store64_def be_bytes_def le low)
qed

lemma length_store64 [simp]: "length (store64 t) = 8"
  by (simp add: store64_def)

text \<open>The words of a block as the reference reads them.\<close>

abbreviation fips_words :: "bytes \<Rightarrow> nat \<Rightarrow> u64" where
  "fips_words block \<equiv> (\<lambda>i. of_nat (be_val (take 8 (drop (8 * i) block))))"

lemma block_word64_fips: "128 \<le> length data \<Longrightarrow> i < 16 \<Longrightarrow> block_word64 data i = fips_words data i"
  unfolding block_word64_def by (rule PULL64_be) simp

section \<open>The ring of sixteen words is the schedule\<close>

lemma round64_fips:
  "ROUND_00_15_64 W i a b c d e f g h = (d', h') \<Longrightarrow>
     fips512_round (K512 ! i) W (a, b, c, d, e, f, g, h) = (h', a, b, c, d', e, f, g)"
  by (auto simp: ROUND_00_15_64_def fips512_round_def Sigma64_rotr Ch_64_def Maj_64_def Let_def algebra_simps)

lemma schedule64_step:
  "16 \<le> i \<Longrightarrow> fips512_schedule M (i - 16) + (sigma0_64 (fips512_schedule M (i - 15)) +
     sigma1_64 (fips512_schedule M (i - 2)) + fips512_schedule M (i - 7)) = fips512_schedule M i"
  by (simp add: fips512_schedule.simps [of M i] Sigma64_rotr algebra_simps)

lemma schedule64_read: "i < 16 \<Longrightarrow> fips512_schedule M i = M i"
  by (simp add: fips512_schedule.simps [of M i])

lemma round_ring64:
  assumes "ring (fips512_schedule M) k X" "k = i + j" "16 \<le> i \<and> i mod 16 = 0" "ROUND_16_80 i j a b c d e f g h X = (d', h', X')"
  shows "fips512_step M k (a, b, c, d, e, f, g, h) = (h', a, b, c, d', e, f, g)"
    "ring (fips512_schedule M) (Suc k) X'"
proof -
  let ?W = "fips512_schedule M"
  have len: "length X = 16"
    using assms(1) by (simp add: ring_def)
  have k: "16 \<le> k"
    using assms(2,3) by simp
  have at: "X ! ((j + m) mod 16) = ?W (k - (16 - m))" if "m < 16" for m
  proof (rule ring_nth [OF assms(1)])
    have "k - (16 - m) + 16 = i + (j + m)"
      using that k assms(2) by simp
    moreover have "(i + (j + m)) mod 16 = (j + m) mod 16"
      using assms(3) by (simp add: mod_add_eq [of i 16 "j + m", symmetric])
    ultimately show "(k - (16 - m)) mod 16 = (j + m) mod 16"
      by (metis mod_add_self2)
  qed (use that k in simp_all)
  have kj: "j mod 16 = k mod 16"
    using assms(2,3) by (simp add: mod_add_eq [of i 16 j, symmetric])
  have at0: "X ! (k mod 16) = ?W (k - 16)"
    using at [of 0] kj by simp
  have X': "X' = X[k mod 16 := ?W k]" "ROUND_00_15_64 (?W k) k a b c d e f g h = (d', h')"
    using assms(4) len at0 at [of 1] at [of 14] at [of 9] schedule64_step [OF k, of M]
    unfolding ROUND_16_80_def Let_def kj assms(2) [symmetric] by (auto split: prod.splits)
  show "ring ?W (Suc k) X'"
    unfolding X' by (rule ring_step [OF assms(1) refl])
  show "fips512_step M k (a, b, c, d, e, f, g, h) = (h', a, b, c, d', e, f, g)"
    unfolding fips512_step_def by (rule round64_fips [OF X'(2)])
qed

section \<open>Eight rounds\<close>

lemma regs8_64_cases: "\<exists>a b c d e f g h. s = (a, b, c, d, e, f, g, h)" for s :: regs8_64
  by (cases s) auto

lemma rounds_ring64_fips:
  assumes "ring (fips512_schedule M) (i + j) X" and i: "16 \<le> i \<and> i mod 16 = 0"
  shows "\<exists>X'. rounds_ring64 i j (s, X) = (fold (fips512_step M) [i + j..<i + j + 8] s, X') \<and>
    ring (fips512_schedule M) (i + j + 8) X'"
proof -
  let ?W = "fips512_schedule M" and ?step = "fips512_step M"
  obtain a b c d e f g h where s: "s = (a, b, c, d, e, f, g, h)"
    using regs8_64_cases by blast
  have X0: "ring ?W (i + j + 0) X"
    using assms by simp
  obtain d' h' X1 where r0: "ROUND_16_80 i (j + 0) a b c d e f g h X = (d', h', X1)"
    by (metis prod_cases3)
  have f0: "?step (i + j + 0) (a, b, c, d, e, f, g, h) = (h', a, b, c, d', e, f, g)"
    and X1: "ring ?W (i + j + 1) X1"
    using round_ring64 [OF X0 _ i r0] by (simp_all add: eval_nat_numeral)
  obtain c' g' X2 where r1: "ROUND_16_80 i (j + 1) h' a b c d' e f g X1 = (c', g', X2)"
    by (metis prod_cases3)
  have f1: "?step (i + j + 1) (h', a, b, c, d', e, f, g) = (g', h', a, b, c', d', e, f)"
    and X2: "ring ?W (i + j + 2) X2"
    using round_ring64 [OF X1 _ i r1] by (simp_all add: eval_nat_numeral)
  obtain b' f' X3 where r2: "ROUND_16_80 i (j + 2) g' h' a b c' d' e f X2 = (b', f', X3)"
    by (metis prod_cases3)
  have f2: "?step (i + j + 2) (g', h', a, b, c', d', e, f) = (f', g', h', a, b', c', d', e)"
    and X3: "ring ?W (i + j + 3) X3"
    using round_ring64 [OF X2 _ i r2] by (simp_all add: eval_nat_numeral)
  obtain a' e' X4 where r3: "ROUND_16_80 i (j + 3) f' g' h' a b' c' d' e X3 = (a', e', X4)"
    by (metis prod_cases3)
  have f3: "?step (i + j + 3) (f', g', h', a, b', c', d', e) = (e', f', g', h', a', b', c', d')"
    and X4: "ring ?W (i + j + 4) X4"
    using round_ring64 [OF X3 _ i r3] by (simp_all add: eval_nat_numeral)
  obtain h'' d'' X5 where r4: "ROUND_16_80 i (j + 4) e' f' g' h' a' b' c' d' X4 = (h'', d'', X5)"
    by (metis prod_cases3)
  have f4: "?step (i + j + 4) (e', f', g', h', a', b', c', d') = (d'', e', f', g', h'', a', b', c')"
    and X5: "ring ?W (i + j + 5) X5"
    using round_ring64 [OF X4 _ i r4] by (simp_all add: eval_nat_numeral)
  obtain g'' c'' X6 where r5: "ROUND_16_80 i (j + 5) d'' e' f' g' h'' a' b' c' X5 = (g'', c'', X6)"
    by (metis prod_cases3)
  have f5: "?step (i + j + 5) (d'', e', f', g', h'', a', b', c') = (c'', d'', e', f', g'', h'', a', b')"
    and X6: "ring ?W (i + j + 6) X6"
    using round_ring64 [OF X5 _ i r5] by (simp_all add: eval_nat_numeral)
  obtain f'' b'' X7 where r6: "ROUND_16_80 i (j + 6) c'' d'' e' f' g'' h'' a' b' X6 = (f'', b'', X7)"
    by (metis prod_cases3)
  have f6: "?step (i + j + 6) (c'', d'', e', f', g'', h'', a', b') = (b'', c'', d'', e', f'', g'', h'', a')"
    and X7: "ring ?W (i + j + 7) X7"
    using round_ring64 [OF X6 _ i r6] by (simp_all add: eval_nat_numeral)
  obtain e'' a'' X8 where r7: "ROUND_16_80 i (j + 7) b'' c'' d'' e' f'' g'' h'' a' X7 = (e'', a'', X8)"
    by (metis prod_cases3)
  have f7: "?step (i + j + 7) (b'', c'', d'', e', f'', g'', h'', a') = (a'', b'', c'', d'', e'', f'', g'', h'')"
    and X8: "ring ?W (i + j + 8) X8"
    using round_ring64 [OF X7 _ i r7] by (simp_all add: eval_nat_numeral)
  have "fold ?step [i + j..<i + j + 8] s = (a'', b'', c'', d'', e'', f'', g'', h'')"
    by (simp only: upto8 s fold_simps f0 f1 f2 f3 f4 f5 f6 f7)
  moreover have "rounds_ring64 i j (s, X) = ((a'', b'', c'', d'', e'', f'', g'', h''), X8)"
    by (simp only: rounds_ring64_def s Let_def prod.case r0 r1 r2 r3 r4 r5 r6 r7)
  ultimately show ?thesis
    using X8 by simp
qed

lemma rounds_read64_fips:
  assumes "ring (fips512_schedule M) i X" and i: "i + 8 \<le> 16" and M: "\<And>k. k < 16 \<Longrightarrow> block_word64 data k = M k"
  shows "\<exists>X'. rounds_read64 data i (s, X) = (fold (fips512_step M) [i..<i + 8] s, X') \<and>
    ring (fips512_schedule M) (i + 8) X'"
proof -
  let ?W = "fips512_schedule M" and ?step = "fips512_step M"
  obtain a b c d e f g h where s: "s = (a, b, c, d, e, f, g, h)"
    using regs8_64_cases by blast
  have words: "block_word64 data (i + k) = M (i + k)" if "k < 8" for k
    using that i by (intro M) simp
  have data: "block_word64 data (i + 0) = M (i + 0)" "block_word64 data (i + 1) = M (i + 1)"
    "block_word64 data (i + 2) = M (i + 2)" "block_word64 data (i + 3) = M (i + 3)"
    "block_word64 data (i + 4) = M (i + 4)" "block_word64 data (i + 5) = M (i + 5)"
    "block_word64 data (i + 6) = M (i + 6)" "block_word64 data (i + 7) = M (i + 7)"
    by (rule words, simp)+
  have read_step: "?step (i + k) (a, b, c, d, e, f, g, h) = (h', a, b, c, d', e, f, g)"
    if "k < 8" "ROUND_00_15_64 (M (i + k)) (i + k) a b c d e f g h = (d', h')" for k a b c d e f g h d' h'
    using round64_fips [OF that(2)] that(1) i by (simp add: fips512_step_def schedule64_read)
  have ring_read: "ring ?W (Suc (i + k)) (Z[i + k := M (i + k)])" if "ring ?W (i + k) Z" "k < 8" for k Z
    using ring_step [OF that(1), of "i + k"] that(2) i by (simp add: schedule64_read)
  have ring0: "ring ?W (i + 0) X"
    using assms(1) by simp
  obtain d' h' where r0: "ROUND_00_15_64 (M (i + 0)) (i + 0) a b c d e f g h = (d', h')"
    by fastforce
  have f0: "?step (i + 0) (a, b, c, d, e, f, g, h) = (h', a, b, c, d', e, f, g)"
    by (rule read_step [OF _ r0]) simp
  define X1 where "X1 = X[i + 0 := M (i + 0)]"
  have ring1: "ring ?W (i + 1) X1"
    using ring_read [OF ring0] unfolding X1_def by (simp add: eval_nat_numeral)
  obtain c' g' where r1: "ROUND_00_15_64 (M (i + 1)) (i + 1) h' a b c d' e f g = (c', g')"
    by fastforce
  have f1: "?step (i + 1) (h', a, b, c, d', e, f, g) = (g', h', a, b, c', d', e, f)"
    by (rule read_step [OF _ r1]) simp
  define X2 where "X2 = X1[i + 1 := M (i + 1)]"
  have ring2: "ring ?W (i + 2) X2"
    using ring_read [OF ring1] unfolding X2_def by (simp add: eval_nat_numeral)
  obtain b' f' where r2: "ROUND_00_15_64 (M (i + 2)) (i + 2) g' h' a b c' d' e f = (b', f')"
    by fastforce
  have f2: "?step (i + 2) (g', h', a, b, c', d', e, f) = (f', g', h', a, b', c', d', e)"
    by (rule read_step [OF _ r2]) simp
  define X3 where "X3 = X2[i + 2 := M (i + 2)]"
  have ring3: "ring ?W (i + 3) X3"
    using ring_read [OF ring2] unfolding X3_def by (simp add: eval_nat_numeral)
  obtain a' e' where r3: "ROUND_00_15_64 (M (i + 3)) (i + 3) f' g' h' a b' c' d' e = (a', e')"
    by fastforce
  have f3: "?step (i + 3) (f', g', h', a, b', c', d', e) = (e', f', g', h', a', b', c', d')"
    by (rule read_step [OF _ r3]) simp
  define X4 where "X4 = X3[i + 3 := M (i + 3)]"
  have ring4: "ring ?W (i + 4) X4"
    using ring_read [OF ring3] unfolding X4_def by (simp add: eval_nat_numeral)
  obtain h'' d'' where r4: "ROUND_00_15_64 (M (i + 4)) (i + 4) e' f' g' h' a' b' c' d' = (h'', d'')"
    by fastforce
  have f4: "?step (i + 4) (e', f', g', h', a', b', c', d') = (d'', e', f', g', h'', a', b', c')"
    by (rule read_step [OF _ r4]) simp
  define X5 where "X5 = X4[i + 4 := M (i + 4)]"
  have ring5: "ring ?W (i + 5) X5"
    using ring_read [OF ring4] unfolding X5_def by (simp add: eval_nat_numeral)
  obtain g'' c'' where r5: "ROUND_00_15_64 (M (i + 5)) (i + 5) d'' e' f' g' h'' a' b' c' = (g'', c'')"
    by fastforce
  have f5: "?step (i + 5) (d'', e', f', g', h'', a', b', c') = (c'', d'', e', f', g'', h'', a', b')"
    by (rule read_step [OF _ r5]) simp
  define X6 where "X6 = X5[i + 5 := M (i + 5)]"
  have ring6: "ring ?W (i + 6) X6"
    using ring_read [OF ring5] unfolding X6_def by (simp add: eval_nat_numeral)
  obtain f'' b'' where r6: "ROUND_00_15_64 (M (i + 6)) (i + 6) c'' d'' e' f' g'' h'' a' b' = (f'', b'')"
    by fastforce
  have f6: "?step (i + 6) (c'', d'', e', f', g'', h'', a', b') = (b'', c'', d'', e', f'', g'', h'', a')"
    by (rule read_step [OF _ r6]) simp
  define X7 where "X7 = X6[i + 6 := M (i + 6)]"
  have ring7: "ring ?W (i + 7) X7"
    using ring_read [OF ring6] unfolding X7_def by (simp add: eval_nat_numeral)
  obtain e'' a'' where r7: "ROUND_00_15_64 (M (i + 7)) (i + 7) b'' c'' d'' e' f'' g'' h'' a' = (e'', a'')"
    by fastforce
  have f7: "?step (i + 7) (b'', c'', d'', e', f'', g'', h'', a') = (a'', b'', c'', d'', e'', f'', g'', h'')"
    by (rule read_step [OF _ r7]) simp
  define X8 where "X8 = X7[i + 7 := M (i + 7)]"
  have ring8: "ring ?W (i + 8) X8"
    using ring_read [OF ring7] unfolding X8_def by (simp add: eval_nat_numeral)
  have "fold ?step [i..<i + 8] s = (a'', b'', c'', d'', e'', f'', g'', h'')"
    by (simp only: upto8 s fold_simps f0 f1 f2 f3 f4 f5 f6 f7)
  moreover have "rounds_read64 data i (s, X) = ((a'', b'', c'', d'', e'', f'', g'', h''), X8)"
    by (simp only: rounds_read64_def s Let_def prod.case data r0 r1 r2 r3 r4 r5 r6 r7
        X1_def [symmetric] X2_def [symmetric] X3_def [symmetric] X4_def [symmetric]
        X5_def [symmetric] X6_def [symmetric] X7_def [symmetric] X8_def [symmetric])
  ultimately show ?thesis
    using ring8 by simp
qed

section \<open>Both block functions compute the compression function of FIPS 180-4\<close>

lemma fips512_upto_8: "fold (fips512_step M) [i..<i + 8] (fips512_upto M i s) = fips512_upto M (i + 8) s"
  by (simp only: fips512_upto_def upt_add_eq_append [OF le0, of i 8] fold_append comp_apply)

lemmas rounds64_upto =
  rounds_ring64_fips [where s = "fips512_upto M (i + j) s" and M = M and i = i and j = j for M i j s, unfolded fips512_upto_8]
  rounds_read64_fips [where s = "fips512_upto M i s" and M = M and i = i for M i s, unfolded fips512_upto_8]

lemma rounds_16_80_upto:
  assumes "ring (fips512_schedule M) i X" "16 \<le> i \<and> i mod 16 = 0"
  shows "\<exists>X'. rounds_16_80 i (fips512_upto M i s, X) = (fips512_upto M (i + 16) s, X') \<and>
    ring (fips512_schedule M) (i + 16) X'"
proof -
  have "ring (fips512_schedule M) (i + 0) X"
    using assms(1) by simp
  then obtain X1 where X1: "rounds_ring64 i 0 (fips512_upto M i s, X) = (fips512_upto M (i + 8) s, X1)"
      "ring (fips512_schedule M) (i + 8) X1"
    using rounds64_upto(1) [of M i 0 X s] assms(2) by (auto simp only: add_0_right)
  obtain X2 where X2: "rounds_ring64 i 8 (fips512_upto M (i + 8) s, X1) = (fips512_upto M (i + 8 + 8) s, X2)"
      "ring (fips512_schedule M) (i + 8 + 8) X2"
    using rounds64_upto(1) [OF X1(2) assms(2), of s] by auto
  have "i + 8 + 8 = i + 16"
    by simp
  with X2 show ?thesis
    unfolding rounds_16_80_def Let_def X1(1) by auto
qed

lemma sha512_block_fips:
  assumes "128 \<le> length data"
  shows "sha512_block st data = fips512_compress st data"
proof -
  define M where "M = fips_words data"
  define s where "s = (st ! 0, st ! 1, st ! 2, st ! 3, st ! 4, st ! 5, st ! 6, st ! 7)"
  let ?F = "\<lambda>n. fips512_upto M n s"
  have word: "block_word64 data k = M k" if "k < 16" for k
    unfolding M_def by (rule block_word64_fips [OF assms that])
  note read = rounds64_upto(2) [OF _ _ word, where s = s] and turn = rounds_16_80_upto [where M = M and s = s]
  have "ring (fips512_schedule M) 0 (replicate 16 0)"
    by (simp add: ring_def)
  moreover have "?F 0 = s"
    by (simp add: fips512_upto_def)
  ultimately obtain X1 where X1: "rounds_read64 data 0 (s, replicate 16 0) = (?F 8, X1)" "ring (fips512_schedule M) 8 X1"
    using read [of 0] by auto
  obtain X2 where X2: "rounds_read64 data 8 (?F 8, X1) = (?F 16, X2)" "ring (fips512_schedule M) 16 X2"
    using read [OF X1(2)] by auto
  obtain X3 where X3: "rounds_16_80 16 (?F 16, X2) = (?F 32, X3)" "ring (fips512_schedule M) 32 X3"
    using turn [OF X2(2)] by auto
  obtain X4 where X4: "rounds_16_80 32 (?F 32, X3) = (?F 48, X4)" "ring (fips512_schedule M) 48 X4"
    using turn [OF X3(2)] by auto
  obtain X5 where X5: "rounds_16_80 48 (?F 48, X4) = (?F 64, X5)" "ring (fips512_schedule M) 64 X5"
    using turn [OF X4(2)] by auto
  obtain X6 where X6: "rounds_16_80 64 (?F 64, X5) = (?F 80, X6)" "ring (fips512_schedule M) 80 X6"
    using turn [OF X5(2)] by auto
  show ?thesis
    unfolding sha512_block_def fips512_compress_def Let_def fold_simps s_def [symmetric] M_def [symmetric]
      X1(1) X2(1) X3(1) X4(1) X5(1) X6(1)
    by (simp only: split_beta fst_conv add.commute)
qed

text \<open>
  The window of 32-bit x86 before round \<open>i\<close>: six of the registers and, above them, all words of the schedule so
  far.  The words between are dead.
\<close>

definition window :: "(nat \<Rightarrow> u64) \<Rightarrow> nat \<Rightarrow> regs8_64 \<Rightarrow> u64 \<times> u64 \<times> u64 list \<Rightarrow> bool" where
  "window W i r s \<longleftrightarrow>
     (case r of (a, b, c, d, e, f, g, h) \<Rightarrow> case s of (A, E, X) \<Rightarrow>
        length X = 89 \<and> A = a \<and> E = e \<and>
        (let F = 80 - i in X ! (F + 1) = b \<and> X ! (F + 2) = c \<and> X ! (F + 3) = d \<and>
           X ! (F + 5) = f \<and> X ! (F + 6) = g \<and> X ! (F + 7) = h) \<and>
        (\<forall>t < i. X ! (88 - t) = W t))"

lemma window_round:
  assumes "window W i r s" "i < 80"
  shows "window W (Suc i) (fips512_round (K512 ! i) (W i) r) (window_round i (W i) (80 - i) s)"
proof -
  obtain a b c d e f g h where r: "r = (a, b, c, d, e, f, g, h)"
    using regs8_64_cases by blast
  obtain A E X where s: "s = (A, E, X)"
    by (cases s) auto
  obtain F where F: "80 - i = Suc F" "80 - Suc i = F" "i = 79 - F" "F < 80"
    using that [of "79 - i"] assms(2) by simp
  have at: "Suc F + 0 = F + 1" "Suc F + 1 = F + 2" "Suc F + 2 = F + 3" "Suc F + 3 = F + 4" "Suc F + 4 = F + 5"
    "Suc F + 5 = F + 6" "Suc F + 6 = F + 7" "Suc F + 7 = F + 8" "Suc F + 8 = F + 9"
    by simp_all
  have X: "length X = 89" "A = a" "E = e" "X ! (F + 2) = b" "X ! (F + 3) = c" "X ! (F + 4) = d"
    "X ! (F + 6) = f" "X ! (F + 7) = g" "X ! (F + 8) = h" "\<forall>t < i. X ! (88 - t) = W t"
    using assms(1) unfolding window_def r s F(1) Let_def prod.case at by blast+
  define Y where "Y = X[F + 1 := a, F + 5 := e, F + 9 := W i]"
  have Y: "length Y = 89" "Y ! (F + 1) = a" "Y ! (F + 2) = b" "Y ! (F + 3) = c" "Y ! (F + 4) = d"
    "Y ! (F + 5) = e" "Y ! (F + 6) = f" "Y ! (F + 7) = g" "Y ! (F + 8) = h"
    using X F(4) by (simp_all add: Y_def nth_list_update)
  have W: "Y ! (88 - t) = W t" if "t < Suc i" for t
  proof (cases "t = i")
    case True
    then have "88 - t = F + 9"
      using F by simp
    then show ?thesis
      using True F(4) X(1) by (simp add: Y_def)
  next
    case False
    then have "t < i" "88 - t \<noteq> F + 1" "88 - t \<noteq> F + 5" "88 - t \<noteq> F + 9"
      using that F by simp_all
    then show ?thesis
      using X(10) by (simp add: Y_def)
  qed
  have "window_round i (W i) (80 - i) s =
      (let T = W i + (h + Sigma1_64 e + Ch_64 e f g + K512 ! i)
       in (T + Sigma0_64 a + Maj_64 a b c, d + T, Y))"
    using Y unfolding window_round_def s F(1) X(2,3) Let_def prod.case at Y_def [symmetric]
    by (simp only:)
  with Y W show ?thesis
    unfolding window_def r F(2)
    by (simp add: fips512_round_def Let_def Sigma64_rotr Ch_64_def Maj_64_def algebra_simps)
qed

lemma window_word:
  assumes "window (fips512_schedule M) i r (A, E, X)" "16 \<le> i" "i < 80"
  shows "window_slide i (A, E, X) = window_round i (fips512_schedule M i) (80 - i) (A, E, X)"
proof -
  have X: "X ! (88 - t) = fips512_schedule M t" if "t < i" for t
    using assms(1) that by (auto simp: window_def split: prod.splits)
  have at: "80 - i + 8 + 16 - 1 = 88 - (i - 15)" "80 - i + 8 + 16 - 14 = 88 - (i - 2)"
    "80 - i + 8 + 16 = 88 - (i - 16)" "80 - i + 8 + 16 - 9 = 88 - (i - 7)"
    using assms(2,3) by simp_all
  have below: "i - 15 < i" "i - 2 < i" "i - 16 < i" "i - 7 < i"
    using assms(2) by simp_all
  have "sigma0_64 (fips512_schedule M (i - 15)) + sigma1_64 (fips512_schedule M (i - 2)) +
      (fips512_schedule M (i - 16) + fips512_schedule M (i - 7)) = fips512_schedule M i"
    using schedule64_step [OF assms(2), of M] by (simp add: algebra_simps)
  then show ?thesis
    unfolding window_slide_def Let_def prod.case at(1,2,4) unfolding at(3) X [OF below(1)] X [OF below(2)] X [OF below(3)] X [OF below(4)]
    by (simp only:)
qed

lemma fips512_upto_Suc: "fips512_upto M (Suc n) s = fips512_round (K512 ! n) (fips512_schedule M n) (fips512_upto M n s)"
  by (simp add: fips512_upto_def fips512_step_def)

lemma window_read_upto:
  assumes "128 \<le> length data" "n \<le> 16" "window (fips512_schedule (fips_words data)) 0 r s"
  shows "window (fips512_schedule (fips_words data)) n (fips512_upto (fips_words data) n r) (fold (window_read data) [0..<n] s)"
  using assms(2)
proof (induction n)
  case 0
  then show ?case
    using assms(3) by (simp add: fips512_upto_def)
next
  case (Suc n)
  then have "block_word64 data n = fips512_schedule (fips_words data) n"
    using block_word64_fips [OF assms(1), of n] by (simp add: schedule64_read)
  then show ?case
    using window_round [OF Suc.IH] Suc.prems by (simp add: window_read_def fips512_upto_Suc)
qed

lemma window_slide_upto:
  assumes "window (fips512_schedule M) 16 (fips512_upto M 16 r) s" "n \<le> 64"
  shows "window (fips512_schedule M) (16 + n) (fips512_upto M (16 + n) r) (fold window_slide [16..<16 + n] s)"
  using assms(2)
proof (induction n)
  case (Suc n)
  let ?s = "fold window_slide [16..<16 + n] s"
  have IH: "window (fips512_schedule M) (16 + n) (fips512_upto M (16 + n) r) ?s"
    using Suc by simp
  obtain A E X where s: "?s = (A, E, X)"
    by (cases ?s) auto
  have slide: "fold window_slide [16..<Suc (16 + n)] s = window_slide (16 + n) ?s"
    by (simp only: upt_Suc_append le_add1 fold_append fold_simps comp_apply)
  have "window_slide (16 + n) ?s = window_round (16 + n) (fips512_schedule M (16 + n)) (80 - (16 + n)) ?s"
    unfolding s by (rule window_word [OF IH [unfolded s]]) (use Suc.prems in simp_all)
  then show ?case
    unfolding add_Suc_right fips512_upto_Suc slide using window_round [OF IH] Suc.prems by simp
qed (use assms(1) in simp)

lemma sha512_block_x86_fips:
  assumes "128 \<le> length data"
  shows "sha512_block_x86 st data = fips512_compress st data"
proof -
  let ?M = "fips_words data" and ?W = "fips512_schedule (fips_words data)"
  define r where "r = (st ! 0, st ! 1, st ! 2, st ! 3, st ! 4, st ! 5, st ! 6, st ! 7)"
  define X where "X = (replicate 89 0)[80 + 1 := st ! 1, 80 + 2 := st ! 2, 80 + 3 := st ! 3,
      80 + 5 := st ! 5, 80 + 6 := st ! 6, 80 + 7 := st ! 7]"
  have "window ?W 0 r (st ! 0, st ! 4, X)"
    by (simp add: window_def r_def X_def)
  then have "window ?W 16 (fips512_upto ?M 16 r) (fold (window_read data) [0..<16] (st ! 0, st ! 4, X))"
    by (rule window_read_upto [OF assms order_refl])
  then have "window ?W (16 + 64) (fips512_upto ?M (16 + 64) r)
      (fold window_slide [16..<16 + 64] (fold (window_read data) [0..<16] (st ! 0, st ! 4, X)))"
    by (rule window_slide_upto) (rule order_refl)
  moreover have "16 + 64 = (80 :: nat)"
    by simp
  ultimately have w: "window ?W 80 (fips512_upto ?M 80 r)
      (fold window_slide [16..<80] (fold (window_read data) [0..<16] (st ! 0, st ! 4, X)))"
    by (simp only:)
  obtain A E Y where Y: "fold window_slide [16..<80] (fold (window_read data) [0..<16] (st ! 0, st ! 4, X)) = (A, E, Y)"
    by (cases "fold window_slide [16..<80] (fold (window_read data) [0..<16] (st ! 0, st ! 4, X))") auto
  obtain a b c d e f g h where u: "fips512_upto ?M 80 r = (a, b, c, d, e, f, g, h)"
    using regs8_64_cases by blast
  have sel: "A = a" "E = e" "Y ! (0 + 1) = b" "Y ! (0 + 2) = c" "Y ! (0 + 3) = d"
    "Y ! (0 + 5) = f" "Y ! (0 + 6) = g" "Y ! (0 + 7) = h"
    using w unfolding Y u window_def Let_def prod.case by simp_all
  show ?thesis
    unfolding sha512_block_x86_def fips512_compress_def Let_def X_def [symmetric] r_def [symmetric] Y u prod.case sel
    by (simp only: add.commute)
qed


lemma block_word64_take: "i < 16 \<Longrightarrow> block_word64 (take 128 data) i = block_word64 data i"
  by (simp add: block_word64_def take_drop min_def)

lemma sha512_block_take: "sha512_block st (take 128 data) = sha512_block st data"
  unfolding sha512_block_def rounds_read64_def by (simp only: block_word64_take)

lemma fips512_compress_take: "128 \<le> length data \<Longrightarrow> fips512_compress st (take 128 data) = fips512_compress st data"
  using sha512_block_take [of st data] by (simp add: sha512_block_fips)

lemma blocks_chain:
  assumes "\<And>st data num. f st data num = (if num = 0 then st else f (block st data) (drop 128 data) (num - 1))"
    and "\<And>st data. 128 \<le> length data \<Longrightarrow> block st data = fips512_compress st data"
  shows "128 * unat num \<le> length data \<Longrightarrow> f st data (num :: usize) = chain 128 fips512_compress (unat num) st data"
proof (induction "unat num" arbitrary: st data num)
  case 0
  then have "num = 0"
    by (metis unsigned_eq_0_iff)
  then show ?case
    using assms(1) [of st data num] by simp
next
  case (Suc n)
  then have num: "num \<noteq> 0" "n = unat (num - 1)"
    by (metis Suc_inject Suc_pred' unat_gt_0 unat_minus_one nat.distinct(1) unat_0)+
  with Suc show ?case
    using assms(1) [of st data num] Suc.hyps(1) [OF num(2), of "drop 128 data"] Suc.hyps(2) [symmetric]
    by (simp add: assms(2) fips512_compress_take)
qed

lemma sha512_block_data_order_chain:
  "128 * unat num \<le> length data \<Longrightarrow> sha512_block_data_order st data num = chain 128 fips512_compress (unat num) st data"
  "128 * unat num \<le> length data \<Longrightarrow> sha512_block_data_order_x86 st data num = chain 128 fips512_compress (unat num) st data"
  by (rule blocks_chain [OF sha512_block_data_order.simps sha512_block_fips]
      blocks_chain [OF sha512_block_data_order_x86.simps sha512_block_x86_fips]; assumption)+

lemma block512_one: "length data = 128 \<Longrightarrow> sha512_block_data_order st data 1 = fips512_compress st data"
  using sha512_block_data_order_chain(1) [of 1 data st] by simp

section \<open>The collector\<close>

text \<open>The context with chaining value \<open>iv\<close> at the start, after the bytes \<open>msg\<close>.\<close>

definition gathered :: "u64 list \<Rightarrow> bytes \<Rightarrow> SHA512_CTX \<Rightarrow> bool" where
  "gathered iv msg c \<longleftrightarrow>
     h512 c = chain 128 fips512_compress (length msg div 128) iv msg \<and>
     Nl512 c = of_nat (8 * length msg) \<and> Nh512 c = of_nat (8 * length msg div 18446744073709551616) \<and>
     length (p512 c) = 128 \<and> take (length msg mod 128) (p512 c) = open_block 128 msg \<and>
     num512 c = of_nat (length msg mod 128)"

lemma gathered_init:
  assumes "length (p512 c) = 128"
  shows "gathered (h512 (SHA512_Init c)) [] (SHA512_Init c)" "gathered (h512 (SHA384_Init c)) [] (SHA384_Init c)"
  using assms by (simp_all add: gathered_def SHA512_Init_def SHA384_Init_def open_block_def)

lemma size_blocks128:
  assumes "n < 2 ^ 64"
  shows "(of_nat n :: usize) div sizeof_u = of_nat (n div 128)" "(of_nat n :: usize) mod sizeof_u = of_nat (n mod 128)"
    "unat (of_nat (n div 128) :: usize) = n div 128" "unat (of_nat (n mod 128) :: usize) = n mod 128"
    "sizeof_u \<le> of_nat n \<longleftrightarrow> 128 \<le> n"
proof -
  have small: "m < 2 ^ 64" if "m \<le> n" for m
    using that assms by simp
  show d: "unat (of_nat (n div 128) :: usize) = n div 128" and m: "unat (of_nat (n mod 128) :: usize) = n mod 128"
    by (rule unat_size, rule small, simp)+
  show "(of_nat n :: usize) div sizeof_u = of_nat (n div 128)"
    by (simp add: word_unat_eq_iff unat_div unat_size [OF assms] d sizeof_u_def)
  show "(of_nat n :: usize) mod sizeof_u = of_nat (n mod 128)"
    by (simp add: word_unat_eq_iff unat_mod unat_size [OF assms] m sizeof_u_def)
  show "sizeof_u \<le> of_nat n \<longleftrightarrow> 128 \<le> n"
    by (simp add: word_le_nat_alt unat_size [OF assms] sizeof_u_def)
qed

lemma Update_copies:
  "\<lbrakk>length data < 2 ^ 64; length (p512 c) = 128\<rbrakk> \<Longrightarrow>
     \<exists>p. SHA512_Update_copies data (of_nat (length data)) c =
       (c\<lparr>h512 := chain 128 fips512_compress (length data div 128) (h512 c) data, p512 := p\<rparr>,
        open_block 128 data, of_nat (length data mod 128)) \<and> length p = 128"
proof (induction "length data div 128" arbitrary: data c)
  case 0
  then have "length data < 128"
    by (simp add: div_eq_0_iff)
  with 0 show ?case
    by (simp add: SHA512_Update_copies.simps [of data "of_nat (length data)"] size_blocks128(5) [OF 0(2)] open_block_short
        exI [of _ "p512 c"])
next
  case (Suc n)
  let ?d = "drop 128 data"
  define c' where "c' = c\<lparr>p512 := take 128 data, h512 := fips512_compress (h512 c) data\<rparr>"
  have len: "128 \<le> length data"
    using Suc(2) by (metis div_less nat.distinct(1) not_le)
  then have n: "length data div 128 = Suc (length ?d div 128)" "length data mod 128 = length ?d mod 128"
    by (simp_all add: le_div_geq le_mod_geq)
  have p: "mem_write (p512 c) 0 (take 128 data) = take 128 data"
    using len Suc.prems(2) by (simp add: mem_write_def)
  have sub: "(of_nat (length data) - sizeof_u :: usize) = of_nat (length ?d)" "unat sizeof_u = 128"
    using len by (simp_all add: sizeof_u_def of_nat_diff)
  have le: "sizeof_u \<le> of_nat (length data)"
    using len size_blocks128(5) [OF Suc.prems(1)] by simp
  have step: "SHA512_Update_copies data (of_nat (length data)) c = SHA512_Update_copies ?d (of_nat (length ?d)) c'"
    unfolding SHA512_Update_copies.simps [of data "of_nat (length data)" c] sub
    using le p len by (simp add: Let_def c'_def block512_one fips512_compress_take del: length_drop)
  have "open_block 128 data = open_block 128 ?d"
    using open_block_blocks [of 128 "take 128 data" ?d] len by simp
  moreover have "chain 128 fips512_compress (length data div 128) (h512 c) data =
      chain 128 fips512_compress (length ?d div 128) (h512 c') ?d"
    unfolding n(1) by (simp add: c'_def fips512_compress_take [OF len])
  ultimately show ?case
    unfolding step using Suc.hyps(1) [of ?d c'] Suc.hyps(2) Suc.prems(1) len n by (auto simp: c'_def)
qed

lemma Update_blocks:
  assumes n: "length data < 2 ^ 64" and p: "length (p512 c) = 128" and num: "num512 c = 0"
  shows "\<exists>p. SHA512_Update_blocks address data (of_nat (length data)) c =
      c\<lparr>h512 := chain 128 fips512_compress (length data div 128) (h512 c) data, p512 := p,
        num512 := of_nat (length data mod 128)\<rparr> \<and>
    length p = 128 \<and> take (length data mod 128) p = open_block 128 data"
proof -
  note size = size_blocks128 [OF n]
  have chain: "sha512_block_data_order st data (of_nat (length data div 128)) =
      chain 128 fips512_compress (length data div 128) st data" for st
    using sha512_block_data_order_chain(1) [of "of_nat (length data div 128)" data st] by (simp add: size)
  obtain q where q: "length q = 128" and copies: "SHA512_Update_copies data (of_nat (length data)) c =
      (c\<lparr>h512 := chain 128 fips512_compress (length data div 128) (h512 c) data, p512 := q\<rparr>,
        open_block 128 data, of_nat (length data mod 128))"
    using Update_copies [OF n p] by blast
  have rest: "drop (length data - length data mod 128) data = open_block 128 data"
    by (simp add: open_block_def minus_mod_eq_mult_div)
  have whole: "\<exists>r. (if sizeof_u \<le> of_nat (length data)
        then if must_copy address then SHA512_Update_copies data (of_nat (length data)) c
             else let c = c\<lparr>h512 := sha512_block_data_order (h512 c) data (of_nat (length data) div sizeof_u)\<rparr>;
                      pos = unat (of_nat (length data) :: usize);
                      len = of_nat (length data) mod sizeof_u
                  in (c, drop (pos - unat len) data, len)
        else (c, data, of_nat (length data))) =
      (c\<lparr>h512 := chain 128 fips512_compress (length data div 128) (h512 c) data, p512 := r\<rparr>,
        open_block 128 data, of_nat (length data mod 128)) \<and> length r = 128"
  proof (cases "128 \<le> length data")
    case True
    then have le: "sizeof_u \<le> of_nat (length data)"
      using size by simp
    show ?thesis
      by (intro exI [of _ "if must_copy address then q else p512 c"])
        (use q p le rest in \<open>simp add: copies chain size Let_def unat_size [OF n]\<close>)
  next
    case False
    then have le: "\<not> sizeof_u \<le> of_nat (length data)"
      using size by simp
    show ?thesis
      by (intro exI [of _ "p512 c"]) (use False le p in \<open>simp add: open_block_short\<close>)
  qed
  then obtain r where r: "length r = 128" and whole: "(if sizeof_u \<le> of_nat (length data)
        then if must_copy address then SHA512_Update_copies data (of_nat (length data)) c
             else let c = c\<lparr>h512 := sha512_block_data_order (h512 c) data (of_nat (length data) div sizeof_u)\<rparr>;
                      pos = unat (of_nat (length data) :: usize);
                      len = of_nat (length data) mod sizeof_u
                  in (c, drop (pos - unat len) data, len)
        else (c, data, of_nat (length data))) =
      (c\<lparr>h512 := chain 128 fips512_compress (length data div 128) (h512 c) data, p512 := r\<rparr>,
        open_block 128 data, of_nat (length data mod 128))"
    by blast
  have none: "(of_nat (length data mod 128) :: usize) = 0 \<longleftrightarrow> length data mod 128 = 0"
    by (rule size_eq_0) (simp add: less_le_trans [of _ 128])
  have "length data mod 128 < 128"
    by simp
  then have w: "length (mem_write r 0 (open_block 128 data)) = 128"
    "take (length data mod 128) (mem_write r 0 (open_block 128 data)) = open_block 128 data"
    using r by (simp_all add: mem_write_def)
  have "SHA512_Update_blocks address data (of_nat (length data)) c =
      (if length data mod 128 \<noteq> 0
       then c\<lparr>h512 := chain 128 fips512_compress (length data div 128) (h512 c) data,
          p512 := mem_write r 0 (open_block 128 data), num512 := of_nat (length data mod 128)\<rparr>
       else c\<lparr>h512 := chain 128 fips512_compress (length data div 128) (h512 c) data, p512 := r\<rparr>)"
    unfolding SHA512_Update_blocks_def whole by (simp add: none size)
  then show ?thesis
    using w r num open_block_none [of data 128] by (cases c) auto
qed

lemma add_carry64: "(x :: u64) + y < x \<longleftrightarrow> 18446744073709551616 \<le> unat x + unat y"
  using unat_lt64 [of x] unat_lt64 [of y] by (auto simp: word_less_nat_alt unat_add64)

text \<open>The counting at the start of \<open>SHA512_Update\<close>.\<close>

lemma count64:
  assumes "n < 2 ^ 64" and l: "l = (of_nat (8 * m) :: u64) + push_bit 3 (of_nat n)"
  shows "l = of_nat (8 * (m + n))"
    "of_nat (8 * m div 18446744073709551616) + of_bool (l < of_nat (8 * m)) + drop_bit 61 (of_nat n :: usize) =
      (of_nat (8 * (m + n) div 18446744073709551616) :: u64)"
proof -
  have push: "push_bit 3 (of_nat n) = (of_nat (8 * n) :: u64)"
    by (simp add: push_bit_eq_mult)
  show "l = of_nat (8 * (m + n))"
    unfolding l push by (simp add: algebra_simps)
  have "unat (drop_bit 61 (of_nat n :: usize)) = n div 2305843009213693952"
    using unat_size [OF assms(1)] by (simp add: drop_bit_eq_div unat_div)
  then have "drop_bit 61 (of_nat n :: usize) = of_nat (n div 2305843009213693952)"
    by (metis of_nat_unat unat_size ucast_id)
  moreover have "n div 2305843009213693952 = 8 * n div 18446744073709551616"
    using div_mult_mult1 [of 8 n 2305843009213693952] by simp
  ultimately have drop: "drop_bit 61 (of_nat n :: usize) = of_nat (8 * n div 18446744073709551616)"
    by (simp only:)
  have unat: "unat (of_nat k :: u64) = k mod 18446744073709551616" for k
    by (simp add: unat_of_nat take_bit_eq_mod)
  have carry: "l < of_nat (8 * m) \<longleftrightarrow>
      18446744073709551616 \<le> 8 * m mod 18446744073709551616 + 8 * n mod 18446744073709551616"
    unfolding l push add_carry64 unat ..
  show "of_nat (8 * m div 18446744073709551616) + of_bool (l < of_nat (8 * m)) + drop_bit 61 (of_nat n :: usize) =
      (of_nat (8 * (m + n) div 18446744073709551616) :: u64)"
    unfolding carry drop distrib_left
    by (subst div_carry) (simp_all only: of_nat_add of_nat_of_bool zero_less_numeral ac_simps)
qed

lemma size_room128:
  assumes "n < 2 ^ 64" "r < 128"
  shows "sizeof_u - ucast (of_nat r :: u32) = of_nat (128 - r)" "unat (of_nat (128 - r) :: usize) = 128 - r"
    "(of_nat n :: usize) < of_nat (128 - r) \<longleftrightarrow> n < 128 - r"
    "128 - r \<le> n \<Longrightarrow> (of_nat n :: usize) - of_nat (128 - r) = of_nat (n - (128 - r))"
    "unat (of_nat r :: u32) = r" "(of_nat r :: u32) = 0 \<longleftrightarrow> r = 0"
proof -
  have u: "(ucast (of_nat r :: u32) :: usize) = of_nat r"
    using assms(2) by (simp add: unsigned_of_nat take_bit_nat_eq_self)
  show "sizeof_u - ucast (of_nat r :: u32) = of_nat (128 - r)"
    unfolding u using assms(2) by (simp add: sizeof_u_def of_nat_diff)
  show r: "unat (of_nat (128 - r) :: usize) = 128 - r"
    by (rule unat_size) simp
  show "(of_nat n :: usize) < of_nat (128 - r) \<longleftrightarrow> n < 128 - r"
    unfolding word_less_nat_alt unat_size [OF assms(1)] r ..
  show "128 - r \<le> n \<Longrightarrow> (of_nat n :: usize) - of_nat (128 - r) = of_nat (n - (128 - r))"
    by (rule of_nat_diff [symmetric])
  show "unat (of_nat r :: u32) = r"
    using assms(2) by (simp add: unat_of_nat take_bit_nat_eq_self)
  then show "(of_nat r :: u32) = 0 \<longleftrightarrow> r = 0"
    by (auto simp: word_unat_eq_iff)
qed

lemma ctx512_replaced:
  "c\<lparr>p512 := x, num512 := m, h512 := g, h512 := h, p512 := y, num512 := n\<rparr> = c\<lparr>h512 := h, p512 := y, num512 := n\<rparr>"
  "h512 (c\<lparr>p512 := x, num512 := m, h512 := g\<rparr>) = g"
  "h512 (c\<lparr>h512 := h, p512 := y, num512 := n\<rparr>) = h" "p512 (c\<lparr>h512 := h, p512 := y, num512 := n\<rparr>) = y"
  "num512 (c\<lparr>h512 := h, p512 := y, num512 := n\<rparr>) = n" "Nl512 (c\<lparr>h512 := h, p512 := y, num512 := n\<rparr>) = Nl512 c"
  "Nh512 (c\<lparr>h512 := h, p512 := y, num512 := n\<rparr>) = Nh512 c"
  by simp_all

lemma gathered_append:
  assumes "gathered iv msg c" and pd: "pd = open_block 128 msg @ data"
    and "h512 c' = chain 128 fips512_compress (length pd div 128) (h512 c) pd"
    and "Nl512 c' = of_nat (8 * length (msg @ data))" "Nh512 c' = of_nat (8 * length (msg @ data) div 18446744073709551616)"
    and "length (p512 c') = 128" "take (length pd mod 128) (p512 c') = open_block 128 pd"
    and "num512 c' = of_nat (length pd mod 128)"
  shows "gathered iv (msg @ data) c'"
proof -
  have "length (msg @ data) mod 128 = length pd mod 128"
    by (simp add: pd mod_simps)
  moreover have "open_block 128 (msg @ data) = open_block 128 pd"
    unfolding pd by (rule open_block_append) simp
  moreover have "chain 128 fips512_compress (length (msg @ data) div 128) iv (msg @ data) =
      chain 128 fips512_compress (length pd div 128) (h512 c) pd"
    using assms(1) chain_append_open [of 128 fips512_compress msg data iv] unfolding pd gathered_def by simp
  ultimately show ?thesis
    unfolding gathered_def using assms by simp
qed

text \<open>\<open>SHA512_Update\<close> appends to the message gathered so far, wherever the data lies.\<close>

lemma update_gathered:
  assumes c: "gathered iv msg c" and n: "length data < 2 ^ 64"
  shows "gathered iv (msg @ data) (SHA512_Update address data c)"
proof (cases "data = []")
  case True
  then show ?thesis
    using c by (simp add: SHA512_Update_def)
next
  case False
  let ?n = "length data" and ?r = "length msg mod 128" and ?p = "open_block 128 msg"
  let ?Nl = "of_nat (8 * length (msg @ data)) :: u64" and ?Nh = "of_nat (8 * length (msg @ data) div 18446744073709551616) :: u64"
  define c1 where "c1 = c\<lparr>Nh512 := ?Nh, Nl512 := ?Nl\<rparr>"
  define P where "P = mem_write (p512 c) ?r (take (128 - ?r) data)"
  have r: "?r < 128"
    by simp
  note room = size_room128 [OF n r]
  have sel: "Nl512 c = of_nat (8 * length msg)" "Nh512 c = of_nat (8 * length msg div 18446744073709551616)"
    "length (p512 c) = 128" "take ?r (p512 c) = ?p" "num512 c = of_nat ?r"
    using c by (simp_all add: gathered_def)
  have l: "(Nl512 c + push_bit 3 (of_nat ?n)) AND 0xffffffffffffffff = ?Nl"
  proof -
    have ones: "(0xffffffffffffffff :: u64) = - 1"
      by simp
    show ?thesis
      unfolding ones and.right_neutral using count64(1) [OF n refl, of "length msg"] sel by simp
  qed
  have high: "(if ?Nl < Nl512 c then Nh512 c + 1 else Nh512 c) + drop_bit 61 (of_nat ?n) = ?Nh"
    using count64(2) [OF n refl, of "length msg", unfolded count64(1) [OF n refl, of "length msg"]]
    by (cases "?Nl < Nl512 c") (simp_all only: sel length_append if_True if_False of_bool_eq add_0_right)
  have c1: "(if ?Nl < Nl512 c then c\<lparr>Nh512 := Nh512 c + 1\<rparr> else c)
      \<lparr>Nh512 := Nh512 (if ?Nl < Nl512 c then c\<lparr>Nh512 := Nh512 c + 1\<rparr> else c) + drop_bit 61 (of_nat ?n),
        Nl512 := ?Nl\<rparr> = c1"
    using high unfolding c1_def by (simp only: SHA512_CTX.simps split: if_splits) simp_all
  have c1_sel: "num512 c1 = of_nat ?r" "p512 c1 = p512 c" "h512 c1 = h512 c" "Nl512 c1 = ?Nl" "Nh512 c1 = ?Nh"
    using sel by (simp_all add: c1_def)
  have to_c1: "SHA512_Update address data c =
     (if ?r \<noteq> 0
      then if ?n < 128 - ?r
           then c1\<lparr>p512 := mem_write (p512 c) ?r data, num512 := of_nat (?r + ?n)\<rparr>
           else SHA512_Update_blocks (map_option (\<lambda>a. a + of_nat (128 - ?r)) address) (drop (128 - ?r) data)
             (of_nat ?n - of_nat (128 - ?r))
             (c1\<lparr>p512 := P, num512 := 0, h512 := sha512_block_data_order (h512 c) P 1\<rparr>)
      else SHA512_Update_blocks address data (of_nat ?n) c1)"
    unfolding SHA512_Update_def Let_def l c1
    using False by (simp add: size_eq_0 [OF n] c1_sel room P_def del: of_nat_diff)
  consider (aligned) "?r = 0" | (full) "?r \<noteq> 0" "\<not> ?n < 128 - ?r" | (unfilled) "?r \<noteq> 0" "?n < 128 - ?r"
    by blast
  then show ?thesis
  proof cases
    case aligned
    then have p: "?p = []"
      by (rule open_block_none)
    obtain q where q: "SHA512_Update_blocks address data (of_nat ?n) c1 =
        c1\<lparr>h512 := chain 128 fips512_compress (?n div 128) (h512 c1) data, p512 := q, num512 := of_nat (?n mod 128)\<rparr>"
        "length q = 128" "take (?n mod 128) q = open_block 128 data"
      using Update_blocks [OF n, of c1 address] sel(3) c1_sel aligned by auto
    show ?thesis
      by (rule gathered_append [OF c refl]) (use aligned q in \<open>simp_all add: to_c1 p c1_sel\<close>)
  next
    case full
    let ?d = "drop (128 - ?r) data" and ?h = "sha512_block_data_order (h512 c) P 1"
    let ?c = "c1\<lparr>p512 := P, num512 := 0, h512 := ?h\<rparr>"
    have P: "P = ?p @ take (128 - ?r) data" "length P = 128"
      using full sel by (simp_all add: P_def mem_write_def)
    have split: "?p @ data = P @ ?d"
      by (simp add: P(1))
    have len: "length (?p @ data) = 128 + length ?d"
      using full by simp
    have d: "length ?d < 2 ^ 64" "(of_nat ?n - of_nat (128 - ?r) :: usize) = of_nat (length ?d)"
      using n room(4) full by simp_all
    obtain q where q: "SHA512_Update_blocks (map_option (\<lambda>a. a + of_nat (128 - ?r)) address) ?d (of_nat (length ?d)) ?c =
        ?c\<lparr>h512 := chain 128 fips512_compress (length ?d div 128) ?h ?d, p512 := q, num512 := of_nat (length ?d mod 128)\<rparr>"
        "length q = 128" "take (length ?d mod 128) q = open_block 128 ?d"
      using Update_blocks [OF d(1), of ?c] P(2) by auto
    have "open_block 128 (?p @ data) = open_block 128 ?d"
      unfolding split using P(2) by (intro open_block_blocks) simp_all
    moreover have "length (?p @ data) div 128 = 1 + length ?d div 128" "length (?p @ data) mod 128 = length ?d mod 128"
      unfolding len by simp_all
    moreover have "chain 128 fips512_compress (1 + length ?d div 128) (h512 c) (?p @ data) =
        chain 128 fips512_compress (length ?d div 128) ?h ?d"
      unfolding split using chain_append [of P 128 1 fips512_compress "length ?d div 128" "h512 c" ?d] P(2)
      by (simp add: block512_one [OF P(2)])
    ultimately show ?thesis
      using full q
      by (intro gathered_append [OF c refl])
        (simp_all only: to_c1 d if_True if_False ctx512_replaced c1_sel simp_thms not_False_eq_True)
  next
    case unfilled
    define pd where "pd = ?p @ data"
    have len: "length pd = ?r + ?n"
      by (simp add: pd_def)
    then have pd: "length pd div 128 = 0" "length pd mod 128 = ?r + ?n" "open_block 128 pd = pd"
      using unfilled by (simp_all add: open_block_short)
    have w: "length (mem_write (p512 c) ?r data) = 128" "take (?r + ?n) (mem_write (p512 c) ?r data) = pd"
      using unfilled sel unfolding pd_def by (simp_all add: mem_write_def)
    show ?thesis
      by (rule gathered_append [OF c pd_def]) (use unfilled w in \<open>simp_all add: to_c1 pd c1_sel\<close>)
  qed
qed

section \<open>The digest\<close>

lemma ctx512_updates:
  "p512 (c\<lparr>p512 := x\<rparr>) = x" "Nh512 (c\<lparr>p512 := x\<rparr>) = Nh512 c" "Nl512 (c\<lparr>p512 := x\<rparr>) = Nl512 c"
  "h512 (c\<lparr>p512 := x\<rparr>) = h512 c" "c\<lparr>p512 := x, p512 := y\<rparr> = c\<lparr>p512 := y\<rparr>"
  "p512 (c\<lparr>h512 := h\<rparr>) = p512 c" "h512 (c\<lparr>h512 := h\<rparr>) = h" "Nh512 (c\<lparr>h512 := h\<rparr>) = Nh512 c"
  "Nl512 (c\<lparr>h512 := h\<rparr>) = Nl512 c" "c\<lparr>p512 := x, h512 := h, p512 := y\<rparr> = c\<lparr>p512 := y, h512 := h\<rparr>"
  "c\<lparr>p512 := x, h512 := h, h512 := h'\<rparr> = c\<lparr>p512 := x, h512 := h'\<rparr>"
  by simp_all

lemma final_room128:
  assumes "r < 128"
  shows "(ucast (of_nat r :: u32) :: usize) = of_nat r" "unat (of_nat r :: usize) = r"
    "unat (of_nat r + 1 :: usize) = Suc r"
    "sizeof_u - 16 < of_nat r + 1 \<longleftrightarrow> 112 \<le> r"
    "unat (sizeof_u - (of_nat r + 1)) = 127 - r"
    "r < 112 \<Longrightarrow> unat (sizeof_u - 16 - (of_nat r + 1)) = 111 - r"
    "unat (sizeof_u - 16) = 112" "unat (sizeof_u - 16 - 0) = 112"
proof -
  have n: "(of_nat r + 1 :: usize) = of_nat (Suc r)"
    by simp
  have u: "unat (of_nat (Suc r) :: usize) = Suc r"
    using assms by (intro unat_size) simp
  show "(ucast (of_nat r :: u32) :: usize) = of_nat r"
    using assms by (simp add: unsigned_of_nat take_bit_nat_eq_self)
  show "unat (of_nat r :: usize) = r"
    using assms by (intro unat_size) simp
  show "unat (of_nat r + 1 :: usize) = Suc r"
    unfolding n by (rule u)
  show "sizeof_u - 16 < of_nat r + 1 \<longleftrightarrow> 112 \<le> r"
    unfolding n word_less_nat_alt u by (auto simp: sizeof_u_def)
  have "sizeof_u - (of_nat r + 1) = of_nat (127 - r)"
    unfolding n using assms by (simp add: sizeof_u_def of_nat_diff)
  then show "unat (sizeof_u - (of_nat r + 1)) = 127 - r"
    by (simp only:) (rule unat_size, simp)
  show "unat (sizeof_u - 16 - (of_nat r + 1)) = 111 - r" if "r < 112"
  proof -
    have "sizeof_u - 16 - (of_nat r + 1) = of_nat (111 - r)"
      unfolding n using that by (simp add: sizeof_u_def of_nat_diff)
    then show ?thesis
      by (simp only:) (rule unat_size, simp)
  qed
qed (simp_all add: sizeof_u_def)

lemma length128: "store64 (of_nat (n div 18446744073709551616)) @ store64 (of_nat n) = be_bytes 16 n"
proof -
  have "le_bytes 8 (unat (of_nat k :: u64)) = le_bytes 8 k" for k
    using le_bytes_mod [of 8 k] by (simp add: unat_of_nat take_bit_eq_mod)
  moreover have "le_bytes 16 n = le_bytes 8 n @ le_bytes 8 (n div 18446744073709551616)"
    using le_bytes_add [of 8 8 n] by simp
  ultimately show ?thesis
    by (simp add: store64_be be_bytes_def)
qed

lemma final_byte:
  assumes "length p = 128" "r < 128" "take r p = rs"
  shows "p[r := x] = rs @ x # drop (Suc r) p"
  using assms by (simp add: upd_conv_take_nth_drop)

text \<open>The last block, whatever followed the open one in the buffer.\<close>

lemma last_block128:
  assumes "length rs = r" "length ys = 127 - r" "length l = 16"
  shows "r < 112 \<Longrightarrow> mem_write (mem_write (rs @ x # ys) (Suc r) (replicate (111 - r) 0)) 112 l =
      rs @ x # replicate (111 - r) 0 @ l"
    "r < 128 \<Longrightarrow> mem_write (rs @ x # ys) (Suc r) (replicate (127 - r) 0) = rs @ x # replicate (127 - r) 0"
proof -
  show "mem_write (rs @ x # ys) (Suc r) (replicate (127 - r) 0) = rs @ x # replicate (127 - r) 0" if "r < 128"
    using mem_write_last [of "rs @ [x]" "Suc r" "replicate (127 - r) 0" ys] assms by simp
  assume r: "r < 112"
  have "mem_write (rs @ x # ys) (Suc r) (replicate (111 - r) 0) = (rs @ x # replicate (111 - r) 0) @ drop (111 - r) ys"
    using mem_write_at [of "rs @ [x]" "Suc r" ys "replicate (111 - r) 0"] assms by simp
  then show "mem_write (mem_write (rs @ x # ys) (Suc r) (replicate (111 - r) 0)) 112 l = rs @ x # replicate (111 - r) 0 @ l"
    using mem_write_last [of "rs @ x # replicate (111 - r) 0" 112 l "drop (111 - r) ys"] assms r by simp
qed

lemma zero_block128:
  assumes "length d = 128" "length l = 16"
  shows "mem_write (mem_write d 0 (replicate 112 0)) 112 l = replicate 112 0 @ l"
  using assms mem_write_last [of "replicate 112 0" 112 l "drop 112 d"] by (simp add: mem_write_def)

text \<open>The context before \<open>SHA512_Final\<close> looks at \<open>md\<close> holds the digest of the whole message.\<close>

definition final512 :: "SHA512_CTX \<Rightarrow> u64 list \<Rightarrow> SHA512_CTX \<Rightarrow> bool" where
  "final512 c H c' \<longleftrightarrow> h512 c' = H \<and> md_len512 c' = md_len512 c \<and> length (p512 c') = 128"

definition finish512 :: "bool \<Rightarrow> SHA512_CTX \<Rightarrow> bytes option \<times> SHA512_CTX" where
  "finish512 md sha =
     (if \<not> md then (None, sha)
      else if md_len512 sha = SHA384_DIGEST_LENGTH
      then (Some (concat (map (\<lambda>n. store64 (h512 sha ! n)) [0..<unat (SHA384_DIGEST_LENGTH div 8)])), sha)
      else if md_len512 sha = SHA512_DIGEST_LENGTH
      then (Some (concat (map (\<lambda>n. store64 (h512 sha ! n)) [0..<unat (SHA512_DIGEST_LENGTH div 8)])), sha)
      else (None, sha))"

lemma final_digested:
  assumes c: "gathered iv msg c"
  shows "\<exists>c'. SHA512_Final md c = finish512 md c' \<and> final512 c (digested128 iv msg) c'"
proof -
  let ?r = "length msg mod 128" and ?p = "open_block 128 msg" and ?l = "be_bytes 16 (8 * length msg)"
  define tail where "tail = [0x80] @ replicate ((239 - ?r) mod 128) 0 @ ?l"
  define ys where "ys = drop (Suc ?r) (p512 c)"
  have r: "?r < 128"
    by simp
  have sel: "Nl512 c = of_nat (8 * length msg)" "Nh512 c = of_nat (8 * length msg div 18446744073709551616)"
    "num512 c = of_nat ?r" "h512 c = chain 128 fips512_compress (length msg div 128) iv msg"
    using c by (simp_all add: gathered_def)
  have p: "(p512 c)[?r := 0x80] = ?p @ 0x80 # ys" and ys: "length ys = 127 - ?r"
    using c final_byte [of "p512 c" ?r ?p "0x80"] by (simp_all add: gathered_def ys_def)
  have digested: "digested128 iv msg = chain 128 fips512_compress (length (?p @ tail) div 128) (h512 c) (?p @ tail)"
    unfolding digested128_def padded128_def tail_def [symmetric] sel by (rule chain_append_open) simp
  have l: "store64 (Nh512 c) @ store64 (Nl512 c) = ?l"
    unfolding sel by (rule length128)
  note room = final_room128 [OF r]
  show ?thesis
  proof (cases "?r < 112")
    case True
    let ?b = "?p @ 0x80 # replicate (111 - ?r) 0 @ ?l"
    have "(239 - ?r) mod 128 = 111 - ?r"
      using True le_mod_geq [of 128 "239 - ?r"] by simp
    then have b: "?p @ tail = ?b" "length ?b = 128"
      using True by (simp_all add: tail_def)
    have w: "mem_write (mem_write (?p @ 0x80 # ys) (Suc ?r) (replicate (111 - ?r) 0)) 112 ?l = ?b"
      using True ys by (intro last_block128) simp_all
    have n: "(112 \<le> ?r) = False"
      using True by simp
    have one: "sha512_block_data_order (h512 c) ?b 1 = digested128 iv msg"
      unfolding digested b(1) using block512_one [OF b(2)] b(2) by simp
    have "SHA512_Final md c = finish512 md (c\<lparr>p512 := ?b, h512 := digested128 iv msg\<rparr>)"
      unfolding SHA512_Final_def finish512_def [symmetric] Let_def
      using True by (simp only: sel(3) room(1-5,7-8) room(6) [OF True] p w l n one if_False prod.case ctx512_updates)
    with b(2) show ?thesis
      by (auto simp: final512_def)
  next
    case False
    let ?b = "?p @ 0x80 # replicate (127 - ?r) 0" and ?e = "replicate 112 0 @ ?l"
    have b: "length ?b = 128" "length ?e = 128"
      using r by simp_all
    have pad: "(239 - ?r) mod 128 = (127 - ?r) + 112"
      using False by simp
    have split: "?p @ tail = ?b @ ?e"
      unfolding tail_def pad replicate_add by simp
    have w: "mem_write (?p @ 0x80 # ys) (Suc ?r) (replicate (127 - ?r) 0) = ?b"
      using ys r by (intro last_block128 [where l = ?l]) simp_all
    have v: "mem_write (mem_write ?b (unat (0 :: usize)) (replicate 112 0)) 112 ?l = ?e"
      using b(1) by (simp add: zero_block128)
    have "chain 128 fips512_compress 2 (h512 c) (?b @ ?e) = fips512_compress (fips512_compress (h512 c) ?b) ?e"
      using b chain_append [of ?b 128 1 fips512_compress 1 "h512 c" ?e] by (simp add: numeral_2_eq_2 del: append.simps append_assoc)
    then have two: "sha512_block_data_order (sha512_block_data_order (h512 c) ?b 1) ?e 1 = digested128 iv msg"
      unfolding digested split using b by (simp add: block512_one del: append.simps append_assoc)
    have n: "(112 \<le> ?r) = True"
      using False by simp
    have "SHA512_Final md c = finish512 md (c\<lparr>p512 := ?e, h512 := digested128 iv msg\<rparr>)"
      unfolding SHA512_Final_def finish512_def [symmetric] Let_def
      by (simp only: sel(3) room(1-5,7-8) p w v l n two if_True prod.case ctx512_updates)
    with b(2) show ?thesis
      by (auto simp: final512_def)
  qed
qed

lemma md_len_copies: "md_len512 (fst (SHA512_Update_copies data len c)) = md_len512 c"
proof (induction data len c rule: SHA512_Update_copies.induct)
  case (1 data len c)
  then show ?case
    by (simp add: SHA512_Update_copies.simps [of data len c] Let_def)
qed

lemma md_len_update [simp]: "md_len512 (SHA512_Update address data c) = md_len512 c"
proof -
  have "md_len512 (SHA512_Update_blocks a d len c) = md_len512 c" for a d len c
    using md_len_copies [of d len c] by (simp add: SHA512_Update_blocks_def Let_def split_beta)
  then show ?thesis
    by (simp add: SHA512_Update_def Let_def)
qed

lemma length_fips512_compress: "length (fips512_compress H b) = 8"
  by (simp add: fips512_compress_def Let_def split_beta)

lemma length_digested128: "length iv = 8 \<Longrightarrow> length (digested128 iv msg) = 8"
  unfolding digested128_def by (rule length_chain) (simp_all add: length_fips512_compress)

lemma concat_store64:
  "n \<le> length H \<Longrightarrow>
     concat (map (\<lambda>n. store64 (H ! n)) [0..<n]) = take (8 * n) (concat (map (\<lambda>w. be_bytes 8 (unat w)) H))"
proof (induction n)
  case (Suc n)
  have t: "take (8 * k) (concat (map (\<lambda>w. be_bytes 8 (unat w)) ws)) = concat (map (\<lambda>w. be_bytes 8 (unat w)) (take k ws))"
    for k and ws :: "u64 list"
    by (induction ws arbitrary: k) (auto simp: take_Cons split: nat.split)
  show ?case
    using Suc t [of "Suc n" H] t [of n H] by (simp add: store64_be take_Suc_conv_app_nth)
qed simp

lemma SHA512_digested:
  assumes "gathered iv msg c" "length iv = 8"
  shows "md_len512 c = SHA512_DIGEST_LENGTH \<Longrightarrow> fst (SHA512_Final True c) = Some (fips512_digest iv 64 msg)"
    "md_len512 c = SHA384_DIGEST_LENGTH \<Longrightarrow> fst (SHA512_Final True c) = Some (fips512_digest iv 48 msg)"
    "fst (SHA512_Final False c) = None"
proof -
  have bytes: "concat (map (\<lambda>n. store64 (digested128 iv msg ! n)) [0..<n]) =
      take (8 * n) (concat (map (\<lambda>w. be_bytes 8 (unat w)) (digested128 iv msg)))" if "n \<le> 8" for n
    by (rule concat_store64) (use that in \<open>simp add: length_digested128 [OF assms(2)]\<close>)
  show "md_len512 c = SHA512_DIGEST_LENGTH \<Longrightarrow> fst (SHA512_Final True c) = Some (fips512_digest iv 64 msg)"
    using final_digested [OF assms(1), of True] bytes [of 8]
    by (auto simp: finish512_def final512_def fips512_digest_def SHA512_DIGEST_LENGTH_def SHA384_DIGEST_LENGTH_def
        simp del: upt_conv_Cons)
  show "md_len512 c = SHA384_DIGEST_LENGTH \<Longrightarrow> fst (SHA512_Final True c) = Some (fips512_digest iv 48 msg)"
    using final_digested [OF assms(1), of True] bytes [of 6]
    by (auto simp: finish512_def final512_def fips512_digest_def SHA512_DIGEST_LENGTH_def SHA384_DIGEST_LENGTH_def
        simp del: upt_conv_Cons)
  show "fst (SHA512_Final False c) = None"
    using final_digested [OF assms(1), of False] by (auto simp: finish512_def)
qed

text \<open>Updates of a message in pieces, each with the address it lies at.\<close>

abbreviation updates512 :: "(usize option \<times> bytes) list \<Rightarrow> SHA512_CTX \<Rightarrow> SHA512_CTX" where
  "updates512 \<equiv> fold (\<lambda>(address, data). SHA512_Update address data)"

lemma updates_gathered:
  "gathered iv msg c \<Longrightarrow> \<forall>x \<in> set ds. length (snd x) < 2 ^ 64 \<Longrightarrow>
     gathered iv (msg @ concat (map snd ds)) (updates512 ds c) \<and> md_len512 (updates512 ds c) = md_len512 c"
proof (induction ds arbitrary: msg c)
  case (Cons x ds)
  obtain address data where x: "x = (address, data)"
    by (cases x)
  have "gathered iv (msg @ data) (SHA512_Update address data c)"
    using Cons.prems x by (intro update_gathered) simp_all
  then show ?case
    using Cons.IH [of "msg @ data" "SHA512_Update address data c"] Cons.prems x by simp
qed simp

lemma SHA512_updates:
  assumes "\<forall>x \<in> set ds. length (snd x) < 2 ^ 64" "length (p512 c) = 128"
  shows "fst (SHA512_Final True (updates512 ds (SHA512_Init c))) =
      Some (fips512_digest (h512 (SHA512_Init c)) 64 (concat (map snd ds)))"
    "fst (SHA384_Final True (updates512 ds (SHA384_Init c))) =
      Some (fips512_digest (h512 (SHA384_Init c)) 48 (concat (map snd ds)))"
  using updates_gathered [OF gathered_init(1) [OF assms(2)] assms(1)]
    updates_gathered [OF gathered_init(2) [OF assms(2)] assms(1)]
  by (simp_all add: SHA512_digested SHA384_Final_def SHA512_Init_def SHA384_Init_def)

text \<open>Every update keeps the arrays of a context at their lengths and the open block open.\<close>

definition typed512 :: "SHA512_CTX \<Rightarrow> bool" where
  "typed512 c \<longleftrightarrow> length (h512 c) = 8 \<and> length (p512 c) = 128 \<and> unat (num512 c) < 128"

lemma blocks512_typed:
  assumes "length data < 2 ^ 64" "length (h512 c) = 8" "length (p512 c) = 128" "num512 c = 0"
  shows "typed512 (SHA512_Update_blocks address data (of_nat (length data)) c)"
proof -
  have "unat (of_nat (length data mod 128) :: u32) < 128"
    by (simp add: unat_of_nat take_bit_nat_eq_self)
  then show ?thesis
    using Update_blocks [OF assms(1,3,4), of address] assms(2)
    by (auto simp: typed512_def length_chain length_fips512_compress)
qed

lemma update512_typed:
  assumes c: "typed512 c" and len: "length data < 2 ^ 64"
  shows "typed512 (SHA512_Update address data c)"
proof -
  let ?len = "of_nat (length data) :: usize" and ?num = "unat (num512 c)"
  have sel: "length (h512 c) = 8" "length (p512 c) = 128" "?num < 128"
    using c by (simp_all add: typed512_def)
  have "of_nat ?num = num512 c"
    by simp
  note room = size_room128 [OF len sel(3), unfolded this]
  define P where "P = mem_write (p512 c) ?num (take (128 - ?num) data)"
  have full: "typed512 (SHA512_Update_blocks a (drop (128 - ?num) data) (?len - of_nat (128 - ?num))
      (c'\<lparr>p512 := P, num512 := 0, h512 := sha512_block_data_order (h512 c) P 1\<rparr>))"
    if "\<not> length data < 128 - ?num" for a c'
  proof -
    have P: "length P = 128"
      using that sel by (simp add: P_def mem_write_def)
    have eq: "?len - of_nat (128 - ?num) = of_nat (length (drop (128 - ?num) data))"
      unfolding length_drop by (rule room(4)) (use that in simp)
    show ?thesis
      unfolding eq by (rule blocks512_typed) (use len P in \<open>simp_all add: block512_one length_fips512_compress\<close>)
  qed
  have unfilled: "typed512 (c'\<lparr>p512 := mem_write (p512 c) ?num data, num512 := num512 c + ucast ?len\<rparr>)"
    if "length data < 128 - ?num" "h512 c' = h512 c" for c'
  proof -
    have "unat (num512 c + ucast ?len) = ?num + length data"
      using that by (simp add: unat_word_ariths unat_of_nat take_bit_nat_eq_self)
    then show ?thesis
      using that sel by (simp add: typed512_def mem_write_def)
  qed
  define c1 where "c1 = (if (Nl512 c + push_bit 3 ?len) AND 0xffffffffffffffff < Nl512 c then c\<lparr>Nh512 := Nh512 c + 1\<rparr> else c)"
  define c2 where "c2 = c1\<lparr>Nh512 := Nh512 c1 + drop_bit 61 ?len, Nl512 := (Nl512 c + push_bit 3 ?len) AND 0xffffffffffffffff\<rparr>"
  have c2: "h512 c2 = h512 c" "p512 c2 = p512 c" "num512 c2 = num512 c"
    by (simp_all add: c2_def c1_def)
  have c2': "num512 (c2\<lparr>p512 := x\<rparr>) = num512 c" "h512 (c2\<lparr>p512 := x, num512 := m\<rparr>) = h512 c"
    "p512 (c2\<lparr>p512 := x, num512 := m\<rparr>) = x" for x m
    by (simp_all add: c2)
  have aligned: "typed512 (SHA512_Update_blocks address data ?len c2)" if "num512 c = 0"
    by (rule blocks512_typed) (use that sel len c2 in simp_all)
  have split: "SHA512_Update address data c =
     (if ?len = 0 then c
      else if num512 c \<noteq> 0
      then if length data < 128 - ?num then c2\<lparr>p512 := mem_write (p512 c) ?num data, num512 := num512 c + ucast ?len\<rparr>
           else SHA512_Update_blocks (map_option (\<lambda>a. a + of_nat (128 - ?num)) address) (drop (128 - ?num) data)
             (?len - of_nat (128 - ?num)) (c2\<lparr>p512 := P, num512 := 0, h512 := sha512_block_data_order (h512 c) P 1\<rparr>)
      else SHA512_Update_blocks address data ?len c2)"
    unfolding SHA512_Update_def Let_def c1_def [symmetric] c2_def [symmetric] c2 room(1-3) P_def [symmetric]
    by (simp only: c2')
  show ?thesis
    unfolding split by (simp only: split: if_split) (use c full unfilled [OF _ c2(1)] aligned in blast)
qed

lemma init512_typed:
  "length (p512 c) = 128 \<Longrightarrow> typed512 (SHA512_Init c)" "length (p512 c) = 128 \<Longrightarrow> typed512 (SHA384_Init c)"
  by (simp_all add: typed512_def SHA512_Init_def SHA384_Init_def)

section \<open>Properties\<close>

text \<open>
  Claim C15: the block function in C for all targets, with its schedule in a ring of sixteen words, and the one
  for 32-bit x86, with a window that slides down an array, take every chaining value and any number of blocks
  to the same chaining value.
\<close>

theorem sha512_block_variants:
  assumes "128 * unat num \<le> length W"
  shows "sha512_block_data_order state W num = sha512_block_data_order_x86 state W num"
  using sha512_block_data_order_chain [OF assms] by simp

lemma sha512_block_variants_witness:
  "sha512_block_data_order (replicate 8 1) (replicate 256 2) 2 = sha512_block_data_order_x86 (replicate 8 1) (replicate 256 2) 2"
  by (rule sha512_block_variants) simp

text \<open>
  Claim C14: hashing a message in any number of updates, cut anywhere, each at any address, aligned or not, gives
  the SHA-512 and SHA-384 digests that FIPS 180-4 defines for the whole message (its length taken modulo
  \<open>2 ^ 128\<close> bits), whatever an uninitialised context held; only a null output fails.
\<close>

theorem SHA512_streamed:
  assumes "\<forall>x \<in> set ds. length (snd x) < 2 ^ 64" "length (p512 c) = 128"
  shows "fst (SHA512_Final md (updates512 ds (SHA512_Init c))) =
      (if md then Some (fips512_digest (h512 (SHA512_Init c)) 64 (concat (map snd ds))) else None) \<and>
    fst (SHA384_Final md (updates512 ds (SHA384_Init c))) =
      (if md then Some (fips512_digest (h512 (SHA384_Init c)) 48 (concat (map snd ds))) else None)"
proof -
  note inits = gathered_init [OF assms(2)]
  have null: "fst (SHA512_Final False (updates512 ds (SHA512_Init c))) = None"
    "fst (SHA512_Final False (updates512 ds (SHA384_Init c))) = None"
    using updates_gathered [OF inits(1) assms(1)] updates_gathered [OF inits(2) assms(1)]
    by (auto intro!: SHA512_digested(3) simp: SHA512_Init_def SHA384_Init_def)
  show ?thesis
    using SHA512_updates [OF assms] null by (cases md) (simp_all add: SHA384_Final_def)
qed

text \<open>The message \<open>abc\<close> in two pieces, the second at an odd address where blocks must be aligned.\<close>

lemma SHA512_streamed_witness:
  "fst (SHA512_Final True (SHA512_Update (Some 13) [0x62, 0x63] (SHA512_Update None [0x61]
      (SHA512_Init \<lparr>h512 = [], Nl512 = 5, Nh512 = 6, p512 = replicate 128 7, num512 = 8, md_len512 = 9\<rparr>)))) =
    Some (fips512_digest
      [0x6a09e667f3bcc908, 0xbb67ae8584caa73b, 0x3c6ef372fe94f82b, 0xa54ff53a5f1d36f1,
       0x510e527fade682d1, 0x9b05688c2b3e6c1f, 0x1f83d9abfb41bd6b, 0x5be0cd19137e2179] 64 [0x61, 0x62, 0x63])"
  using SHA512_streamed [of "[(None, [0x61]), (Some 13, [0x62, 0x63])]"
      "\<lparr>h512 = [], Nl512 = 5, Nh512 = 6, p512 = replicate 128 7, num512 = 8, md_len512 = 9\<rparr>" True]
  by (simp add: SHA512_Init_def)

end
