(* ===== verification/Digest.thy ===== *)
theory Digest
  imports MD5 SHA1 SHA512_Correct Mem
begin

text \<open>
  \<open>crypto/fipsmodule/digest/digest.c\<close> and \<open>digests.c\<close> (BoringSSL): the digest methods and the \<open>EVP_MD_CTX\<close>
  that runs one of them.

  A method is a static object, known by its address: the constructors of \<open>EVP_MD\<close> are the addresses, and
  \<open>env_md\<close> gives the object behind one.  The memory behind \<open>md_data\<close> is a value of \<open>md_data\<close>: the context of a
  digest, or zeros.  The outcomes of the calls of \<open>OPENSSL_malloc\<close>, in order, are a list that the functions
  consume; any sequence of successes and failures is one, and at its end \<open>malloc\<close> succeeds.
\<close>

section \<open>The methods\<close>

datatype EVP_MD = EVP_md4 | EVP_md5 | EVP_sha1 | EVP_sha224 | EVP_sha256 | EVP_sha384 | EVP_sha512 | EVP_md5_sha1

text \<open>What \<open>md_data\<close> points to; \<open>Zeros\<close> is memory cleared by \<open>OPENSSL_cleanse\<close>.\<close>

datatype md_data =
    MD4_data md32_ctx
  | MD5_data md32_ctx
  | SHA1_data md32_ctx
  | SHA256_data SHA256_CTX
  | SHA512_data SHA512_CTX
  | MD5_SHA1_data md32_ctx md32_ctx
  | Zeros

definition zero_md32 :: "nat \<Rightarrow> md32_ctx" where
  "zero_md32 n = \<lparr>ctx_h = replicate n 0, ctx_Nl = 0, ctx_Nh = 0, ctx_data = replicate 64 0, ctx_num = 0\<rparr>"

text \<open>The memory read as the context of a digest.\<close>

definition as_md4 :: "md_data \<Rightarrow> md32_ctx" where
  "as_md4 d = (case d of MD4_data c \<Rightarrow> c | _ \<Rightarrow> zero_md32 4)"
definition as_md5 :: "md_data \<Rightarrow> md32_ctx" where
  "as_md5 d = (case d of MD5_data c \<Rightarrow> c | _ \<Rightarrow> zero_md32 4)"
definition as_sha1 :: "md_data \<Rightarrow> md32_ctx" where
  "as_sha1 d = (case d of SHA1_data c \<Rightarrow> c | _ \<Rightarrow> zero_md32 5)"
definition as_sha256 :: "md_data \<Rightarrow> SHA256_CTX" where
  "as_sha256 d = (case d of SHA256_data c \<Rightarrow> c | _ \<Rightarrow> zero_ctx)"
definition as_sha512 :: "md_data \<Rightarrow> SHA512_CTX" where
  "as_sha512 d = (case d of SHA512_data c \<Rightarrow> c
     | _ \<Rightarrow> \<lparr>h512 = replicate 8 0, Nl512 = 0, Nh512 = 0, p512 = replicate 128 0, num512 = 0, md_len512 = 0\<rparr>)"
definition as_md5_sha1 :: "md_data \<Rightarrow> md32_ctx \<times> md32_ctx" where
  "as_md5_sha1 d = (case d of MD5_SHA1_data c c' \<Rightarrow> (c, c') | _ \<Rightarrow> (zero_md32 4, zero_md32 5))"

text \<open>
  \<open>struct env_md_st\<close>.  \<open>final\<close> gives the bytes it writes to \<open>out\<close>, and none when the digest fails, which the
  callers do not see.
\<close>

record env_md =
  md_type :: int
  md_size :: u32
  md_flags :: u32
  md_init :: "md_data \<Rightarrow> md_data"
  md_update :: "bytes \<Rightarrow> md_data \<Rightarrow> md_data"
  md_final :: "md_data \<Rightarrow> bytes \<times> md_data"
  md_block_size :: u32
  md_ctx_size :: u32

definition written :: "bytes option \<Rightarrow> bytes" where
  "written r = (case r of None \<Rightarrow> [] | Some bs \<Rightarrow> bs)"

definition md4_method :: env_md where
  "md4_method = \<lparr>md_type = 257, md_size = 16, md_flags = 0,
     md_init = (\<lambda>d. MD4_data MD4_Init),
     md_update = (\<lambda>data d. MD4_data (MD4_Update data (as_md4 d))),
     md_final = (\<lambda>d. case MD4_Final (as_md4 d) of (r, c) \<Rightarrow> (written r, MD4_data c)),
     md_block_size = 64, md_ctx_size = 92\<rparr>"

definition md5_method :: env_md where
  "md5_method = \<lparr>md_type = 4, md_size = 16, md_flags = 0,
     md_init = (\<lambda>d. MD5_data MD5_Init),
     md_update = (\<lambda>data d. MD5_data (MD5_Update data (as_md5 d))),
     md_final = (\<lambda>d. case MD5_Final (as_md5 d) of (r, c) \<Rightarrow> (written r, MD5_data c)),
     md_block_size = 64, md_ctx_size = 92\<rparr>"

definition sha1_method :: env_md where
  "sha1_method = \<lparr>md_type = 64, md_size = 20, md_flags = 0,
     md_init = (\<lambda>d. SHA1_data SHA1_Init),
     md_update = (\<lambda>data d. SHA1_data (SHA1_Update data (as_sha1 d))),
     md_final = (\<lambda>d. case SHA1_Final (as_sha1 d) of (r, c) \<Rightarrow> (written r, SHA1_data c)),
     md_block_size = 64, md_ctx_size = 96\<rparr>"

definition sha224_method :: env_md where
  "sha224_method = \<lparr>md_type = 675, md_size = 28, md_flags = 0,
     md_init = (\<lambda>d. SHA256_data SHA224_Init),
     md_update = (\<lambda>data d. SHA256_data (SHA224_Update data (as_sha256 d))),
     md_final = (\<lambda>d. case SHA224_Final (as_sha256 d) of (r, c) \<Rightarrow> (written r, SHA256_data c)),
     md_block_size = 64, md_ctx_size = 112\<rparr>"

definition sha256_method :: env_md where
  "sha256_method = \<lparr>md_type = 672, md_size = 32, md_flags = 0,
     md_init = (\<lambda>d. SHA256_data SHA256_Init),
     md_update = (\<lambda>data d. SHA256_data (SHA256_Update data (as_sha256 d))),
     md_final = (\<lambda>d. case SHA256_Final (as_sha256 d) of (r, c) \<Rightarrow> (written r, SHA256_data c)),
     md_block_size = 64, md_ctx_size = 112\<rparr>"

text \<open>
  \<open>SHA512_Init\<close> does not write the block in the memory it gets.  \<open>SHA512_Update\<close> is that of the application's
  targets, which need no aligned data.
\<close>

definition sha384_method :: env_md where
  "sha384_method = \<lparr>md_type = 673, md_size = SHA384_DIGEST_LENGTH, md_flags = 0,
     md_init = (\<lambda>d. SHA512_data (SHA384_Init (as_sha512 d))),
     md_update = (\<lambda>data d. SHA512_data (SHA384_Update None data (as_sha512 d))),
     md_final = (\<lambda>d. case SHA384_Final True (as_sha512 d) of (r, c) \<Rightarrow> (written r, SHA512_data c)),
     md_block_size = 128, md_ctx_size = 216\<rparr>"

definition sha512_method :: env_md where
  "sha512_method = \<lparr>md_type = 674, md_size = SHA512_DIGEST_LENGTH, md_flags = 0,
     md_init = (\<lambda>d. SHA512_data (SHA512_Init (as_sha512 d))),
     md_update = (\<lambda>data d. SHA512_data (SHA512_Update None data (as_sha512 d))),
     md_final = (\<lambda>d. case SHA512_Final True (as_sha512 d) of (r, c) \<Rightarrow> (written r, SHA512_data c)),
     md_block_size = 128, md_ctx_size = 216\<rparr>"

text \<open>\<open>md5_sha1\<close> runs both digests; its \<open>final\<close> writes one after the other.\<close>

definition md5_sha1_method :: env_md where
  "md5_sha1_method = \<lparr>md_type = 114, md_size = 36, md_flags = 0,
     md_init = (\<lambda>d. MD5_SHA1_data MD5_Init SHA1_Init),
     md_update = (\<lambda>data d. case as_md5_sha1 d of (m, s) \<Rightarrow> MD5_SHA1_data (MD5_Update data m) (SHA1_Update data s)),
     md_final = (\<lambda>d. case as_md5_sha1 d of (m, s) \<Rightarrow>
       (case MD5_Final m of (r, m') \<Rightarrow> case SHA1_Final s of (r', s') \<Rightarrow>
          (written r @ written r', MD5_SHA1_data m' s'))),
     md_block_size = 64, md_ctx_size = 188\<rparr>"

definition env_md :: "EVP_MD \<Rightarrow> env_md" where
  "env_md md =
     (case md of EVP_md4 \<Rightarrow> md4_method | EVP_md5 \<Rightarrow> md5_method | EVP_sha1 \<Rightarrow> sha1_method
      | EVP_sha224 \<Rightarrow> sha224_method | EVP_sha256 \<Rightarrow> sha256_method
      | EVP_sha384 \<Rightarrow> sha384_method | EVP_sha512 \<Rightarrow> sha512_method | EVP_md5_sha1 \<Rightarrow> md5_sha1_method)"

definition EVP_MD_type :: "EVP_MD \<Rightarrow> int" where "EVP_MD_type md = md_type (env_md md)"
definition EVP_MD_flags :: "EVP_MD \<Rightarrow> u32" where "EVP_MD_flags md = md_flags (env_md md)"
definition EVP_MD_size :: "EVP_MD \<Rightarrow> usize" where "EVP_MD_size md = ucast (md_size (env_md md))"
definition EVP_MD_block_size :: "EVP_MD \<Rightarrow> usize" where "EVP_MD_block_size md = ucast (md_block_size (env_md md))"

definition EVP_MAX_MD_SIZE :: nat where "EVP_MAX_MD_SIZE = 64"
definition EVP_MAX_MD_BLOCK_SIZE :: nat where "EVP_MAX_MD_BLOCK_SIZE = 128"

section \<open>The context\<close>

text \<open>
  \<open>pctx\<close> is opaque to this layer: \<open>'p\<close> is whatever it points to, and \<open>pctx_ops\<close> the function \<open>dup\<close> of the table
  (\<open>free\<close> only releases it).
\<close>

record 'p EVP_MD_CTX =
  digest :: "EVP_MD option"
  md_data :: "md_data option"
  pctx :: "'p option"
  pctx_dup :: "('p \<Rightarrow> 'p option) option"

type_synonym mallocs = "bool list"

text \<open>Whether the next \<open>OPENSSL_malloc\<close> succeeds.\<close>

definition next_malloc :: "mallocs \<Rightarrow> bool \<times> mallocs" where
  "next_malloc ms = (case ms of [] \<Rightarrow> (True, []) | ok # ms \<Rightarrow> (ok, ms))"

definition EVP_MD_CTX_init :: "'p EVP_MD_CTX" where
  "EVP_MD_CTX_init = \<lparr>digest = None, md_data = None, pctx = None, pctx_dup = None\<rparr>"

definition EVP_MD_CTX_new :: "mallocs \<Rightarrow> 'p EVP_MD_CTX option \<times> mallocs" where
  "EVP_MD_CTX_new ms =
     (let (ok, ms) = next_malloc ms in (if ok then Some EVP_MD_CTX_init else None, ms))"

definition EVP_MD_CTX_cleanup :: "'p EVP_MD_CTX \<Rightarrow> 'p EVP_MD_CTX" where
  "EVP_MD_CTX_cleanup ctx = EVP_MD_CTX_init"

definition EVP_MD_CTX_copy_ex ::
  "'p EVP_MD_CTX option \<Rightarrow> mallocs \<Rightarrow> 'p EVP_MD_CTX \<Rightarrow> bool \<times> mallocs \<times> 'p EVP_MD_CTX" where
  "EVP_MD_CTX_copy_ex in_ctx ms out =
     (case in_ctx of
        None \<Rightarrow> (False, ms, out)
      | Some inc \<Rightarrow>
          if digest inc = None then (False, ms, out)
          else
            let pctx' = (case pctx inc of None \<Rightarrow> None | Some p \<Rightarrow> the (pctx_dup inc) p)
            in if pctx inc \<noteq> None \<and> pctx' = None then (False, ms, out)
               else
                 let (ok, ms) = (if digest out \<noteq> digest inc then next_malloc ms else (True, ms))
                 in if \<not> ok then (False, ms, out)
                    else
                      let out = EVP_MD_CTX_cleanup out;
                          out = out\<lparr>digest := digest inc\<rparr>;
                          out = out\<lparr>md_data := md_data inc\<rparr>;
                          out = out\<lparr>pctx := pctx'\<rparr>;
                          out = out\<lparr>pctx_dup := pctx_dup inc\<rparr>
                      in (True, ms, out))"

definition EVP_MD_CTX_copy ::
  "'p EVP_MD_CTX option \<Rightarrow> mallocs \<Rightarrow> 'p EVP_MD_CTX \<Rightarrow> bool \<times> mallocs \<times> 'p EVP_MD_CTX" where
  "EVP_MD_CTX_copy in_ctx ms out = EVP_MD_CTX_copy_ex in_ctx ms EVP_MD_CTX_init"

definition EVP_MD_CTX_reset :: "'p EVP_MD_CTX \<Rightarrow> 'p EVP_MD_CTX" where
  "EVP_MD_CTX_reset ctx = (let ctx = EVP_MD_CTX_cleanup ctx in EVP_MD_CTX_init)"

text \<open>Fresh memory is initialised before anything reads it.\<close>

definition EVP_DigestInit_ex :: "EVP_MD \<Rightarrow> mallocs \<Rightarrow> 'p EVP_MD_CTX \<Rightarrow> bool \<times> mallocs \<times> 'p EVP_MD_CTX" where
  "EVP_DigestInit_ex type ms ctx =
     (let (ok, ms, ctx) =
            (if digest ctx \<noteq> Some type
             then let (ok, ms) = next_malloc ms
                  in if \<not> ok then (False, ms, ctx)
                     else (True, ms, ctx\<lparr>md_data := Some Zeros, digest := Some type\<rparr>)
             else (True, ms, ctx))
      in if \<not> ok then (False, ms, ctx)
         else (True, ms, ctx\<lparr>md_data := map_option (md_init (env_md type)) (md_data ctx)\<rparr>))"

definition EVP_DigestInit :: "EVP_MD \<Rightarrow> mallocs \<Rightarrow> 'p EVP_MD_CTX \<Rightarrow> bool \<times> mallocs \<times> 'p EVP_MD_CTX" where
  "EVP_DigestInit type ms ctx = EVP_DigestInit_ex type ms EVP_MD_CTX_init"

text \<open>
  The next two call through \<open>ctx->digest\<close>, which is not null in a context that has been initialised; they
  always return 1.
\<close>

definition EVP_DigestUpdate :: "bytes \<Rightarrow> 'p EVP_MD_CTX \<Rightarrow> 'p EVP_MD_CTX" where
  "EVP_DigestUpdate data ctx = ctx\<lparr>md_data := map_option (md_update (env_md (the (digest ctx))) data) (md_data ctx)\<rparr>"

text \<open>The bytes written to \<open>md_out\<close>, the size stored at \<open>size\<close>, and the context, its data cleansed.\<close>

definition EVP_DigestFinal_ex :: "'p EVP_MD_CTX \<Rightarrow> bytes \<times> u32 \<times> 'p EVP_MD_CTX" where
  "EVP_DigestFinal_ex ctx =
     (let md = env_md (the (digest ctx));
          (out, d) = md_final md (the (md_data ctx))
      in (out, md_size md, ctx\<lparr>md_data := Some Zeros\<rparr>))"

definition EVP_DigestFinal :: "'p EVP_MD_CTX \<Rightarrow> bytes \<times> u32 \<times> 'p EVP_MD_CTX" where
  "EVP_DigestFinal ctx =
     (let (out, size, ctx) = EVP_DigestFinal_ex ctx in (out, size, EVP_MD_CTX_cleanup ctx))"

definition EVP_Digest :: "bytes \<Rightarrow> EVP_MD \<Rightarrow> mallocs \<Rightarrow> (bytes \<times> u32) option \<times> mallocs" where
  "EVP_Digest data type ms =
     (let ctx = (EVP_MD_CTX_init :: unit EVP_MD_CTX);
          (ok, ms, ctx) = EVP_DigestInit_ex type ms ctx
      in if \<not> ok then (None, ms)
         else
           let ctx = EVP_DigestUpdate data ctx;
               (out, size, ctx) = EVP_DigestFinal_ex ctx
           in (Some (out, size), ms))"

definition EVP_MD_CTX_md :: "'p EVP_MD_CTX option \<Rightarrow> EVP_MD option" where
  "EVP_MD_CTX_md ctx = (case ctx of None \<Rightarrow> None | Some c \<Rightarrow> digest c)"

section \<open>The digests the methods compute\<close>

definition digest_of :: "EVP_MD \<Rightarrow> bytes \<Rightarrow> bytes" where
  "digest_of md msg =
     (case md of
        EVP_md4 \<Rightarrow> rfc1320_digest msg
      | EVP_md5 \<Rightarrow> rfc1321_digest msg
      | EVP_sha1 \<Rightarrow> rfc_digest msg
      | EVP_sha224 \<Rightarrow> fips_digest (ctx_h SHA224_Init) 28 msg
      | EVP_sha256 \<Rightarrow> fips_digest (ctx_h SHA256_Init) 32 msg
      | EVP_sha384 \<Rightarrow>
          fips512_digest
            [0xcbbb9d5dc1059ed8, 0x629a292a367cd507, 0x9159015a3070dd17, 0x152fecd8f70e5939,
             0x67332667ffc00b31, 0x8eb44a8768581511, 0xdb0c2e0d64f98fa7, 0x47b5481dbefa4fa4] 48 msg
      | EVP_sha512 \<Rightarrow>
          fips512_digest
            [0x6a09e667f3bcc908, 0xbb67ae8584caa73b, 0x3c6ef372fe94f82b, 0xa54ff53a5f1d36f1,
             0x510e527fade682d1, 0x9b05688c2b3e6c1f, 0x1f83d9abfb41bd6b, 0x5be0cd19137e2179] 64 msg
      | EVP_md5_sha1 \<Rightarrow> rfc1321_digest msg @ rfc_digest msg)"

section \<open>Well-typed contexts\<close>

text \<open>
  C does not check that the memory behind \<open>md_data\<close> is a context of the method.  It is well typed when it is (or
  is cleared memory), with all arrays of their declared lengths and the position in the open block inside it.
\<close>

definition typed_data :: "EVP_MD \<Rightarrow> md_data \<Rightarrow> bool" where
  "typed_data md d =
     (case d of
        MD4_data c \<Rightarrow> md = EVP_md4 \<and> typed_ctx 4 c
      | MD5_data c \<Rightarrow> md = EVP_md5 \<and> typed_ctx 4 c
      | SHA1_data c \<Rightarrow> md = EVP_sha1 \<and> typed_ctx 5 c
      | SHA256_data c \<Rightarrow> (md = EVP_sha224 \<or> md = EVP_sha256) \<and> typed_ctx 8 c
      | SHA512_data c \<Rightarrow> (md = EVP_sha384 \<or> md = EVP_sha512) \<and> typed512 c
      | MD5_SHA1_data c c' \<Rightarrow> md = EVP_md5_sha1 \<and> typed_ctx 4 c \<and> typed_ctx 5 c'
      | Zeros \<Rightarrow> True)"

definition typed :: "'p EVP_MD_CTX \<Rightarrow> bool" where
  "typed ctx \<longleftrightarrow>
     (case digest ctx of None \<Rightarrow> True
      | Some md \<Rightarrow> (case md_data ctx of None \<Rightarrow> False | Some d \<Rightarrow> typed_data md d))"

lemma typed_Zeros [simp]: "typed_data md Zeros"
  by (simp add: typed_data_def)

section \<open>Interface: a digest method\<close>

lemma copy_same:
  "EVP_MD_CTX_copy_ex (Some inc) ms out = (True, ms', out') \<Longrightarrow> digest out' = digest inc \<and> md_data out' = md_data inc"
  by (auto simp: EVP_MD_CTX_copy_ex_def Let_def split: if_splits prod.splits)

text \<open>
  What the users of an \<open>EVP_MD\<close> rely on: updates and \<open>final\<close> compute a function of the message, with an
  output that has the size the method declares and is no longer than its block.
\<close>

lemma unat_EVP_MD_size: "unat (EVP_MD_size md) = unat (md_size (env_md md))"
  using unat_lt32 [of "md_size (env_md md)"] by (simp add: EVP_MD_size_def unsigned_ucast_eq take_bit_nat_eq_self)

locale digest_method =
  fixes md :: EVP_MD and H :: "bytes \<Rightarrow> bytes"
  assumes method_final:
      "typed_data md d \<Longrightarrow> \<forall>x \<in> set ds. length x < 2 ^ 64 \<Longrightarrow>
         fst (md_final (env_md md) (fold (md_update (env_md md)) ds (md_init (env_md md) d))) = H (concat ds)"
    and init_typed: "typed_data md d \<Longrightarrow> typed_data md (md_init (env_md md) d)"
    and update_typed: "typed_data md d \<Longrightarrow> length x < 2 ^ 64 \<Longrightarrow> typed_data md (md_update (env_md md) x d)"
    and length_digest: "length (H msg) = unat (EVP_MD_size md)"
    and size_block: "EVP_MD_size md \<le> EVP_MD_block_size md"
    and size_pos: "0 < EVP_MD_size md"
    and size_max: "unat (EVP_MD_size md) \<le> EVP_MAX_MD_SIZE"
    and block_max: "unat (EVP_MD_block_size md) \<le> EVP_MAX_MD_BLOCK_SIZE"
begin

text \<open>A context that has been fed the bytes \<open>msg\<close> since it was initialised with \<open>md\<close>.\<close>

definition hashing :: "bytes \<Rightarrow> 'p EVP_MD_CTX \<Rightarrow> bool" where
  "hashing msg ctx \<longleftrightarrow> digest ctx = Some md \<and>
     (\<exists>ds d. typed_data md d \<and> (\<forall>x \<in> set ds. length x < 2 ^ 64) \<and> concat ds = msg \<and>
        md_data ctx = Some (fold (md_update (env_md md)) ds (md_init (env_md md) d)))"

lemma hashing_digest: "hashing msg ctx \<Longrightarrow> digest ctx = Some md \<and> md_data ctx \<noteq> None"
  by (auto simp: hashing_def)

lemma updates_typed:
  "typed_data md d \<Longrightarrow> \<forall>x \<in> set ds. length x < 2 ^ 64 \<Longrightarrow> typed_data md (fold (md_update (env_md md)) ds d)"
  by (induction ds arbitrary: d) (simp_all add: update_typed)

lemma init_hashing:
  assumes "EVP_DigestInit_ex md ms ctx = (True, ms', ctx')" "typed ctx"
  shows "hashing [] ctx'"
proof -
  have "\<exists>d. typed_data md d \<and> digest ctx' = Some md \<and> md_data ctx' = Some (md_init (env_md md) d)"
    using assms by (auto simp: EVP_DigestInit_ex_def Let_def typed_def split: if_splits prod.splits option.splits
        intro: exI [of _ Zeros])
  then show ?thesis
    unfolding hashing_def by (auto intro!: exI [of _ "[]"])
qed

lemma update_hashing:
  assumes "hashing msg ctx" "length data < 2 ^ 64"
  shows "hashing (msg @ data) (EVP_DigestUpdate data ctx)"
proof -
  obtain ds d where ds: "typed_data md d" "\<forall>x \<in> set ds. length x < 2 ^ 64" "concat ds = msg"
    "md_data ctx = Some (fold (md_update (env_md md)) ds (md_init (env_md md) d))" and md: "digest ctx = Some md"
    using assms(1) unfolding hashing_def by auto
  show ?thesis
    unfolding hashing_def
    by (intro conjI exI [of _ "ds @ [data]"] exI [of _ d]) (use ds md assms(2) in \<open>auto simp: EVP_DigestUpdate_def\<close>)
qed

lemma final_hashing:
  "hashing msg ctx \<Longrightarrow>
     EVP_DigestFinal_ex ctx = (H msg, md_size (env_md md), ctx\<lparr>md_data := Some Zeros\<rparr>)"
  unfolding hashing_def
  using method_final by (auto simp: EVP_DigestFinal_ex_def Let_def split: prod.splits) (metis fst_conv)

lemma copy_hashing:
  "hashing msg inc \<Longrightarrow> EVP_MD_CTX_copy_ex (Some inc) ms out = (True, ms', out') \<Longrightarrow> hashing msg out'"
  using copy_same [of inc ms out ms' out'] by (simp add: hashing_def)

end

section \<open>Every method is one\<close>

lemma length_words: "length (concat (map (\<lambda>w. be_bytes 4 (unat w)) ws)) = 4 * length ws"
  "length (concat (map (\<lambda>w. le_bytes 4 (unat w)) ws)) = 4 * length ws"
  by (induction ws) simp_all

lemma length_words64: "length (concat (map (\<lambda>w. be_bytes 8 (unat w)) ws)) = 8 * length ws"
  by (induction ws) simp_all

lemma length_digests:
  "length (rfc1321_digest msg) = 16" "length (rfc1320_digest msg) = 16" "length (rfc_digest msg) = 20"
  "length H = 8 \<Longrightarrow> n \<le> 32 \<Longrightarrow> length (fips_digest H n msg) = n"
  "length H' = 8 \<Longrightarrow> n \<le> 64 \<Longrightarrow> length (fips512_digest H' n msg) = n"
  by (simp_all add: fips512_digest_def length_words64 length_digested128 rfc1321_digest_def rfc1320_digest_def rfc_digest_def fips_digest_def length_words
      length_chained_fips digested_def length_chained4 length_chained_rfc)

lemma as_data [simp]:
  "as_md4 (MD4_data c) = c" "as_md5 (MD5_data c) = c" "as_sha1 (SHA1_data c) = c" "as_sha256 (SHA256_data e) = e"
  "as_md5_sha1 (MD5_SHA1_data c c') = (c, c')" "as_sha512 (SHA512_data c2) = c2"
  by (simp_all add: as_md4_def as_md5_def as_sha1_def as_sha256_def as_sha512_def as_md5_sha1_def)

lemma fold_methods:
  "fold (\<lambda>data d. MD4_data (MD4_Update data (as_md4 d))) ds (MD4_data c) = MD4_data (fold MD4_Update ds c)"
  "fold (\<lambda>data d. MD5_data (MD5_Update data (as_md5 d))) ds (MD5_data c) = MD5_data (fold MD5_Update ds c)"
  "fold (\<lambda>data d. SHA1_data (SHA1_Update data (as_sha1 d))) ds (SHA1_data c) = SHA1_data (fold SHA1_Update ds c)"
  "fold (\<lambda>data d. SHA256_data (SHA256_Update data (as_sha256 d))) ds (SHA256_data e) = SHA256_data (fold SHA256_Update ds e)"
  "fold (\<lambda>data d. SHA256_data (SHA224_Update data (as_sha256 d))) ds (SHA256_data e) = SHA256_data (fold SHA224_Update ds e)"
  "fold (\<lambda>data d. SHA512_data (SHA384_Update None data (as_sha512 d))) ds (SHA512_data c2) =
     SHA512_data (updates512 (map (Pair None) ds) c2)"
  "fold (\<lambda>data d. SHA512_data (SHA512_Update None data (as_sha512 d))) ds (SHA512_data c2) =
     SHA512_data (updates512 (map (Pair None) ds) c2)"
  "fold (\<lambda>data d. case as_md5_sha1 d of (m, s) \<Rightarrow> MD5_SHA1_data (MD5_Update data m) (SHA1_Update data s)) ds
     (MD5_SHA1_data c c') = MD5_SHA1_data (fold MD5_Update ds c) (fold SHA1_Update ds c')"
  by (induction ds arbitrary: c c' e c2) (simp_all add: SHA384_Update_def)

lemmas methods = md4_method_def md5_method_def sha1_method_def sha224_method_def sha256_method_def sha384_method_def
  sha512_method_def md5_sha1_method_def env_md_def

lemma as_sha512_typed: "typed_data EVP_sha384 d \<or> typed_data EVP_sha512 d \<Longrightarrow> length (p512 (as_sha512 d)) = 128"
  by (auto simp: as_sha512_def typed_data_def typed512_def split: md_data.splits)

lemma method_finals:
  assumes "typed_data md d" "\<forall>x \<in> set ds. length x < 2 ^ 64"
  shows "fst (md_final (env_md md) (fold (md_update (env_md md)) ds (md_init (env_md md) d))) = digest_of md (concat ds)"
proof -
  have long: "length (p512 (as_sha512 d)) = 128" if "md = EVP_sha384 \<or> md = EVP_sha512"
    using that assms(1) by (intro as_sha512_typed) auto
  have ds: "\<forall>x \<in> set (map (Pair None) ds). length (snd x) < 2 ^ 64"
    using assms(2) by simp
  show ?thesis
    using MD5_MD4_streamed [OF assms(2)] SHA1_streamed [OF assms(2)] SHA256_updates [OF assms(2)]
      SHA512_updates [OF ds, OF long] long
    by (cases md) (simp_all add: methods fold_methods fold_methods(8) [unfolded split_beta] digest_of_def written_def
        split_beta SHA512_Init_def SHA384_Init_def comp_def)
qed

lemma zero_typed: "typed_ctx n (zero_md32 n)" "typed_ctx 8 zero_ctx"
  by (simp_all add: typed_ctx_def zero_md32_def zero_ctx_def)

lemma compress_lengths:
  "length st = 4 \<Longrightarrow> length (rfc_compress4 op n st b) = 4" "length st = 5 \<Longrightarrow> length (rfc_compress st b) = 5"
  "length st = 8 \<Longrightarrow> length (fips_compress st b) = 8"
  by (simp_all add: rfc_compress4_def rfc_compress_def Let_def split_beta)

lemma digest_inits_typed:
  "typed_ctx 4 MD4_Init" "typed_ctx 4 MD5_Init" "typed_ctx 5 SHA1_Init" "typed_ctx 8 SHA224_Init" "typed_ctx 8 SHA256_Init"
  by (simp_all add: typed_ctx_def MD4_Init_def MD5_Init_def SHA1_Init_def SHA224_Init_def SHA256_Init_def zero_ctx_def)

lemma digest_updates_typed:
  assumes "length x < 2 ^ 64"
  shows "typed_ctx 4 c \<Longrightarrow> typed_ctx 4 (MD4_Update x c)" "typed_ctx 4 c \<Longrightarrow> typed_ctx 4 (MD5_Update x c)"
    "typed_ctx 5 c \<Longrightarrow> typed_ctx 5 (SHA1_Update x c)" "typed_ctx 8 e \<Longrightarrow> typed_ctx 8 (SHA256_Update x e)"
  unfolding MD4_Update_def MD5_Update_def SHA1_Update_def SHA256_Update_def
  by (rule md4.update_typed [OF _ assms compress_lengths(1)] md5.update_typed [OF _ assms compress_lengths(1)]
      sha1.update_typed [OF _ assms compress_lengths(2)] sha256.update_typed [OF _ assms compress_lengths(3)]; assumption)+

lemma as_typed:
  assumes "typed_data md d"
  shows "md = EVP_md4 \<Longrightarrow> typed_ctx 4 (as_md4 d)" "md = EVP_md5 \<Longrightarrow> typed_ctx 4 (as_md5 d)"
    "md = EVP_sha1 \<Longrightarrow> typed_ctx 5 (as_sha1 d)" "md = EVP_sha224 \<or> md = EVP_sha256 \<Longrightarrow> typed_ctx 8 (as_sha256 d)"
    "md = EVP_sha384 \<or> md = EVP_sha512 \<Longrightarrow> typed512 (as_sha512 d)"
    "md = EVP_md5_sha1 \<Longrightarrow> typed_ctx 4 (fst (as_md5_sha1 d)) \<and> typed_ctx 5 (snd (as_md5_sha1 d))"
  using assms zero_typed
  by (auto simp: typed_data_def as_md4_def as_md5_def as_sha1_def as_sha256_def as_sha512_def as_md5_sha1_def typed512_def
      split: md_data.splits)

lemma method_typed:
  assumes "typed_data md d"
  shows "typed_data md (md_init (env_md md) d)"
    and "length x < 2 ^ 64 \<Longrightarrow> typed_data md (md_update (env_md md) x d)"
  using as_typed [OF assms] digest_updates_typed [of x] update512_typed [of "as_sha512 d" x] digest_inits_typed
    init512_typed [of "as_sha512 d"]
  by (cases md; simp add: methods typed_data_def SHA224_Update_def SHA384_Update_def split_beta typed512_def)+

lemma method_sizes:
  "length (digest_of md msg) = unat (EVP_MD_size md)" "EVP_MD_size md \<le> EVP_MD_block_size md" "0 < EVP_MD_size md"
  "unat (EVP_MD_size md) \<le> EVP_MAX_MD_SIZE" "unat (EVP_MD_block_size md) \<le> EVP_MAX_MD_BLOCK_SIZE"
  by (cases md; simp add: digest_of_def EVP_MD_size_def EVP_MD_block_size_def methods length_digests SHA256_Init_def
      SHA224_Init_def SHA384_DIGEST_LENGTH_def SHA512_DIGEST_LENGTH_def EVP_MAX_MD_SIZE_def EVP_MAX_MD_BLOCK_SIZE_def)+

interpretation evp: digest_method md "digest_of md" for md
  by unfold_locales (rule method_finals method_typed method_sizes; assumption?)+

lemma updates_hashing:
  "evp.hashing md msg ctx \<Longrightarrow> \<forall>d \<in> set ds. length d < 2 ^ 64 \<Longrightarrow>
     evp.hashing md (msg @ concat ds) (fold EVP_DigestUpdate ds ctx)"
  by (induction ds arbitrary: msg ctx) (auto dest: evp.update_hashing simp flip: append_assoc)

section \<open>The contexts a program can reach\<close>

text \<open>
  A context is initialised by \<open>EVP_MD_CTX_init\<close> and then passed to the functions of this layer, in any order,
  whatever they return; only update and final need a digest to have been chosen.
\<close>

inductive reachable :: "'p EVP_MD_CTX \<Rightarrow> bool" where
  fresh_context: "reachable EVP_MD_CTX_init"
| after_init: "reachable ctx \<Longrightarrow> EVP_DigestInit_ex md ms ctx = (ok, ms', ctx') \<Longrightarrow> reachable ctx'"
| after_update: "reachable ctx \<Longrightarrow> digest ctx \<noteq> None \<Longrightarrow> length data < 2 ^ 64 \<Longrightarrow> reachable (EVP_DigestUpdate data ctx)"
| after_final: "reachable ctx \<Longrightarrow> digest ctx \<noteq> None \<Longrightarrow> EVP_DigestFinal_ex ctx = (out, n, ctx') \<Longrightarrow> reachable ctx'"
| after_copy: "reachable inc \<Longrightarrow> reachable ctx \<Longrightarrow> EVP_MD_CTX_copy_ex (Some inc) ms ctx = (ok, ms', ctx') \<Longrightarrow> reachable ctx'"
| after_cleanup: "reachable ctx \<Longrightarrow> reachable (EVP_MD_CTX_cleanup ctx)"

lemma reachable_init: "reachable ctx \<Longrightarrow> reachable (snd (snd (EVP_DigestInit_ex md ms ctx)))"
  by (cases "EVP_DigestInit_ex md ms ctx") (auto intro: after_init)

lemma typed_init: "typed EVP_MD_CTX_init"
  by (simp add: typed_def EVP_MD_CTX_init_def)

lemma typed_DigestInit: "EVP_DigestInit_ex md ms ctx = (ok, ms', ctx') \<Longrightarrow> typed ctx \<Longrightarrow> typed ctx'"
  by (auto simp: typed_def EVP_DigestInit_ex_def Let_def method_typed(1) split: if_splits prod.splits option.splits)

lemma typed_DigestUpdate: "typed ctx \<Longrightarrow> length data < 2 ^ 64 \<Longrightarrow> typed (EVP_DigestUpdate data ctx)"
  by (auto simp: typed_def EVP_DigestUpdate_def method_typed(2) split: option.splits)

lemma typed_DigestFinal: "EVP_DigestFinal_ex ctx = (out, n, ctx') \<Longrightarrow> typed ctx'"
  by (auto simp: typed_def EVP_DigestFinal_ex_def Let_def split: prod.splits option.splits)

lemma typed_copy:
  "EVP_MD_CTX_copy_ex (Some inc) ms ctx = (ok, ms', ctx') \<Longrightarrow> typed inc \<Longrightarrow> typed ctx \<Longrightarrow> typed ctx'"
  by (cases "pctx inc") (auto simp: typed_def EVP_MD_CTX_copy_ex_def Let_def split: if_splits prod.splits)

lemmas typed_contexts = typed_init typed_DigestInit typed_DigestUpdate typed_DigestFinal typed_copy

lemma reachable_typed: "reachable ctx \<Longrightarrow> typed ctx"
  by (induction rule: reachable.induct) (auto intro: typed_contexts simp: EVP_MD_CTX_cleanup_def)

section \<open>Properties\<close>



text \<open>
  Claim C16: in every context that a program can reach, the memory behind \<open>md_data\<close> is a context of the very digest
  that \<open>digest\<close> names (or cleared memory), its arrays have their declared lengths, and the position in the open
  block lies inside the block, so that no later call reads one digest's state as another's or writes behind it.
\<close>

theorem EVP_MD_CTX_well_typed:
  assumes "reachable ctx" "digest ctx = Some md"
  shows "\<exists>d. md_data ctx = Some d \<and> typed_data md d"
  using reachable_typed [OF assms(1)] assms(2) by (auto simp: typed_def split: option.splits)

text \<open>A context that hashed with MD5 and was then initialised for SHA-512.\<close>

lemma EVP_MD_CTX_well_typed_witness:
  "\<exists>d. md_data (snd (snd (EVP_DigestInit_ex EVP_sha512 [True] (EVP_DigestUpdate [1, 2]
       (snd (snd (EVP_DigestInit_ex EVP_md5 [True] (EVP_MD_CTX_init :: unit EVP_MD_CTX)))))))) = Some d \<and>
     typed_data EVP_sha512 d"
proof (rule EVP_MD_CTX_well_typed)
  let ?c = "snd (snd (EVP_DigestInit_ex EVP_md5 [True] (EVP_MD_CTX_init :: unit EVP_MD_CTX)))"
  have "reachable ?c"
    by (rule reachable_init [OF fresh_context])
  moreover have "digest ?c \<noteq> None"
    by (simp add: EVP_DigestInit_ex_def EVP_MD_CTX_init_def next_malloc_def)
  ultimately have "reachable (EVP_DigestUpdate [1, 2] ?c)"
    by (rule after_update) simp
  then show "reachable (snd (snd (EVP_DigestInit_ex EVP_sha512 [True] (EVP_DigestUpdate [1, 2] ?c))))"
    by (rule reachable_init)
  show "digest (snd (snd (EVP_DigestInit_ex EVP_sha512 [True] (EVP_DigestUpdate [1, 2] ?c)))) = Some EVP_sha512"
    by (simp add: EVP_DigestInit_ex_def EVP_MD_CTX_init_def EVP_DigestUpdate_def next_malloc_def)
qed

end
