(* ===== verification/HMAC.thy ===== *)
theory HMAC
  imports Digest
begin

text \<open>
  \<open>crypto/fipsmodule/hmac/hmac.c\<close> (BoringSSL): HMAC over any digest method.  The three digest contexts of an
  \<open>HMAC_CTX\<close> hold the state after the inner pad, the state after the outer pad, and the running digest.  The
  reference is RFC 2104.
\<close>

section \<open>The context\<close>

record 'p HMAC_CTX =
  hmac_md :: "EVP_MD option"
  md_ctx :: "'p EVP_MD_CTX"
  i_ctx :: "'p EVP_MD_CTX"
  o_ctx :: "'p EVP_MD_CTX"

definition HMAC_CTX_init :: "'p HMAC_CTX" where
  "HMAC_CTX_init = \<lparr>hmac_md = None, md_ctx = EVP_MD_CTX_init, i_ctx = EVP_MD_CTX_init, o_ctx = EVP_MD_CTX_init\<rparr>"

definition HMAC_CTX_new :: "mallocs \<Rightarrow> 'p HMAC_CTX option \<times> mallocs" where
  "HMAC_CTX_new ms = (let (ok, ms) = next_malloc ms in (if ok then Some HMAC_CTX_init else None, ms))"

text \<open>\<open>HMAC_CTX_cleanup\<close> releases the three contexts and clears the structure.\<close>

definition HMAC_CTX_cleanup :: "'p HMAC_CTX \<Rightarrow> 'p HMAC_CTX" where
  "HMAC_CTX_cleanup ctx =
     \<lparr>hmac_md = None, md_ctx = EVP_MD_CTX_cleanup (md_ctx ctx), i_ctx = EVP_MD_CTX_cleanup (i_ctx ctx),
      o_ctx = EVP_MD_CTX_cleanup (o_ctx ctx)\<rparr>"

definition HMAC_CTX_reset :: "'p HMAC_CTX \<Rightarrow> 'p HMAC_CTX" where
  "HMAC_CTX_reset ctx = (let ctx = HMAC_CTX_cleanup ctx in HMAC_CTX_init)"

section \<open>Keying\<close>

text \<open>
  The branch of \<open>HMAC_Init_ex\<close> that sets a new key: the key block of \<open>EVP_MAX_MD_BLOCK_SIZE\<close> bytes, then the
  two pads.
\<close>

definition HMAC_key_block ::
  "bytes \<Rightarrow> EVP_MD \<Rightarrow> mallocs \<Rightarrow> 'p HMAC_CTX \<Rightarrow> bytes option \<times> mallocs \<times> 'p HMAC_CTX" where
  "HMAC_key_block key md ms ctx =
     (let (key_block, ms, ctx) =
            (if EVP_MD_block_size md < of_nat (length key)
             then let (ok, ms, m) = EVP_DigestInit_ex md ms (md_ctx ctx);
                      ctx = ctx\<lparr>md_ctx := m\<rparr>
                  in if \<not> ok then (None, ms, ctx)
                     else let m = EVP_DigestUpdate key (md_ctx ctx);
                              (key_block, key_block_len, m) = EVP_DigestFinal_ex m
                          in (Some (take (unat key_block_len) key_block), ms, ctx\<lparr>md_ctx := m\<rparr>)
             else (Some key, ms, ctx))
      in (map_option (\<lambda>k. k @ replicate (EVP_MAX_MD_BLOCK_SIZE - length k) 0) key_block, ms, ctx))"

definition HMAC_set_key ::
  "bytes \<Rightarrow> EVP_MD \<Rightarrow> mallocs \<Rightarrow> 'p HMAC_CTX \<Rightarrow> bool \<times> mallocs \<times> 'p HMAC_CTX" where
  "HMAC_set_key key md ms ctx =
     (case HMAC_key_block key md ms ctx of
        (None, ms, ctx) \<Rightarrow> (False, ms, ctx)
      | (Some key_block, ms, ctx) \<Rightarrow>
          let block_size = unat (EVP_MD_block_size md);
              pad = map (\<lambda>b. 0x36 XOR b) key_block;
              (ok, ms, i) = EVP_DigestInit_ex md ms (i_ctx ctx);
              ctx = ctx\<lparr>i_ctx := i\<rparr>
          in if \<not> ok then (False, ms, ctx)
             else
               let ctx = ctx\<lparr>i_ctx := EVP_DigestUpdate (take block_size pad) (i_ctx ctx)\<rparr>;
                   pad = map (\<lambda>b. 0x5c XOR b) key_block;
                   (ok, ms, oc) = EVP_DigestInit_ex md ms (o_ctx ctx);
                   ctx = ctx\<lparr>o_ctx := oc\<rparr>
               in if \<not> ok then (False, ms, ctx)
                  else
                    let ctx = ctx\<lparr>o_ctx := EVP_DigestUpdate (take block_size pad) (o_ctx ctx)\<rparr>
                    in (True, ms, ctx\<lparr>hmac_md := Some md\<rparr>))"

text \<open>
  A null \<open>key\<close> is \<open>None\<close>; it stands for the empty key when the digest changes.  A key without any digest
  makes the code read through a null \<open>md\<close>.
\<close>

definition HMAC_Init_ex ::
  "bytes option \<Rightarrow> EVP_MD option \<Rightarrow> mallocs \<Rightarrow> 'p HMAC_CTX \<Rightarrow> bool \<times> mallocs \<times> 'p HMAC_CTX" where
  "HMAC_Init_ex key md ms ctx =
     (let md = (if md = None then hmac_md ctx else md);
          (ok, ms, ctx) =
            (if md \<noteq> hmac_md ctx \<or> key \<noteq> None
             then HMAC_set_key (case key of None \<Rightarrow> [] | Some k \<Rightarrow> k) (the md) ms ctx
             else (True, ms, ctx))
      in if \<not> ok then (False, ms, ctx)
         else let (ok, ms, m) = EVP_MD_CTX_copy_ex (Some (i_ctx ctx)) ms (md_ctx ctx)
              in (ok, ms, ctx\<lparr>md_ctx := m\<rparr>))"

definition HMAC_Init ::
  "bytes option \<Rightarrow> EVP_MD option \<Rightarrow> mallocs \<Rightarrow> 'p HMAC_CTX \<Rightarrow> bool \<times> mallocs \<times> 'p HMAC_CTX" where
  "HMAC_Init key md ms ctx =
     (let ctx = (if key \<noteq> None \<and> md \<noteq> None then HMAC_CTX_init else ctx) in HMAC_Init_ex key md ms ctx)"

section \<open>Update, final and the one-shot function\<close>

definition HMAC_Update :: "bytes \<Rightarrow> 'p HMAC_CTX \<Rightarrow> 'p HMAC_CTX" where
  "HMAC_Update data ctx = ctx\<lparr>md_ctx := EVP_DigestUpdate data (md_ctx ctx)\<rparr>"

text \<open>The bytes written to \<open>out\<close> and the number stored at \<open>out_len\<close>, or \<open>None\<close> for failure.\<close>

definition HMAC_Final :: "mallocs \<Rightarrow> 'p HMAC_CTX \<Rightarrow> (bytes \<times> u32) option \<times> mallocs \<times> 'p HMAC_CTX" where
  "HMAC_Final ms ctx =
     (let (w, i, m) = EVP_DigestFinal_ex (md_ctx ctx);
          ctx = ctx\<lparr>md_ctx := m\<rparr>;
          buf = mem_write (replicate EVP_MAX_MD_SIZE 0) 0 w;
          (ok, ms, m) = EVP_MD_CTX_copy_ex (Some (o_ctx ctx)) ms (md_ctx ctx);
          ctx = ctx\<lparr>md_ctx := m\<rparr>
      in if \<not> ok then (None, ms, ctx)
         else
           let ctx = ctx\<lparr>md_ctx := EVP_DigestUpdate (take (unat i) buf) (md_ctx ctx)\<rparr>;
               (out, out_len, m) = EVP_DigestFinal_ex (md_ctx ctx)
           in (Some (out, out_len), ms, ctx\<lparr>md_ctx := m\<rparr>))"

definition HMAC_size :: "'p HMAC_CTX \<Rightarrow> usize" where
  "HMAC_size ctx = EVP_MD_size (the (hmac_md ctx))"

definition HMAC :: "EVP_MD \<Rightarrow> bytes option \<Rightarrow> bytes \<Rightarrow> mallocs \<Rightarrow> (bytes \<times> u32) option \<times> mallocs" where
  "HMAC md key data ms =
     (let ctx = (HMAC_CTX_init :: unit HMAC_CTX);
          (ok, ms, ctx) = HMAC_Init_ex key (Some md) ms ctx
      in if \<not> ok then (None, ms)
         else
           let ctx = HMAC_Update data ctx;
               (r, ms, ctx) = HMAC_Final ms ctx
           in (r, ms))"

definition HMAC_CTX_copy_ex :: "'p HMAC_CTX \<Rightarrow> mallocs \<Rightarrow> 'p HMAC_CTX \<Rightarrow> bool \<times> mallocs \<times> 'p HMAC_CTX" where
  "HMAC_CTX_copy_ex src ms dest =
     (let (ok, ms, c) = EVP_MD_CTX_copy_ex (Some (i_ctx src)) ms (i_ctx dest); dest = dest\<lparr>i_ctx := c\<rparr>
      in if \<not> ok then (False, ms, dest)
         else
           let (ok, ms, c) = EVP_MD_CTX_copy_ex (Some (o_ctx src)) ms (o_ctx dest); dest = dest\<lparr>o_ctx := c\<rparr>
           in if \<not> ok then (False, ms, dest)
              else
                let (ok, ms, c) = EVP_MD_CTX_copy_ex (Some (md_ctx src)) ms (md_ctx dest); dest = dest\<lparr>md_ctx := c\<rparr>
                in if \<not> ok then (False, ms, dest) else (True, ms, dest\<lparr>hmac_md := hmac_md src\<rparr>))"

definition HMAC_CTX_copy :: "'p HMAC_CTX \<Rightarrow> mallocs \<Rightarrow> 'p HMAC_CTX \<Rightarrow> bool \<times> mallocs \<times> 'p HMAC_CTX" where
  "HMAC_CTX_copy src ms dest = HMAC_CTX_copy_ex src ms HMAC_CTX_init"

section \<open>The reference: RFC 2104\<close>

definition rfc2104_key :: "(bytes \<Rightarrow> bytes) \<Rightarrow> nat \<Rightarrow> bytes \<Rightarrow> bytes" where
  "rfc2104_key H B K = (let K = (if B < length K then H K else K) in K @ replicate (B - length K) 0)"

definition ipad :: "(bytes \<Rightarrow> bytes) \<Rightarrow> nat \<Rightarrow> bytes \<Rightarrow> bytes" where
  "ipad H B K = map (\<lambda>b. b XOR 0x36) (rfc2104_key H B K)"

definition opad :: "(bytes \<Rightarrow> bytes) \<Rightarrow> nat \<Rightarrow> bytes \<Rightarrow> bytes" where
  "opad H B K = map (\<lambda>b. b XOR 0x5C) (rfc2104_key H B K)"

definition rfc2104 :: "(bytes \<Rightarrow> bytes) \<Rightarrow> nat \<Rightarrow> bytes \<Rightarrow> bytes \<Rightarrow> bytes" where
  "rfc2104 H B K text = H (opad H B K @ H (ipad H B K @ text))"

text \<open>HMAC with the digest that the method \<open>md\<close> computes.\<close>

definition hmac_of :: "EVP_MD \<Rightarrow> bytes \<Rightarrow> bytes \<Rightarrow> bytes" where
  "hmac_of md = rfc2104 (digest_of md) (unat (EVP_MD_block_size md))"

section \<open>A keyed context computes HMAC\<close>

text \<open>Well-typed contexts that carry nothing of the signing layer.\<close>

definition plain :: "'p EVP_MD_CTX \<Rightarrow> bool" where
  "plain c \<longleftrightarrow> typed c \<and> pctx c = None"

definition plain_hmac :: "'p HMAC_CTX \<Rightarrow> bool" where
  "plain_hmac ctx \<longleftrightarrow> plain (md_ctx ctx) \<and> plain (i_ctx ctx) \<and> plain (o_ctx ctx)"

lemma plain_init: "plain EVP_MD_CTX_init"
  using typed_init by (simp add: plain_def EVP_MD_CTX_init_def)

lemma plain_DigestInit: "EVP_DigestInit_ex md ms c = (ok, ms', c') \<Longrightarrow> plain c \<Longrightarrow> plain c'"
  using typed_DigestInit [of md ms c ok ms' c']
  by (auto simp: plain_def EVP_DigestInit_ex_def Let_def split: if_splits prod.splits)

lemma plain_DigestUpdate: "plain c \<Longrightarrow> length data < 2 ^ 64 \<Longrightarrow> plain (EVP_DigestUpdate data c)"
  using typed_DigestUpdate [of c data] by (simp add: plain_def) (simp add: EVP_DigestUpdate_def)

lemma plain_DigestFinal: "EVP_DigestFinal_ex c = (out, n, c') \<Longrightarrow> plain c \<Longrightarrow> plain c' \<and> digest c' = digest c"
  using typed_DigestFinal [of c out n c'] by (auto simp: plain_def EVP_DigestFinal_ex_def Let_def split: prod.splits)

lemma plain_copy:
  "EVP_MD_CTX_copy_ex (Some inc) ms c = (ok, ms', c') \<Longrightarrow> plain c \<Longrightarrow> plain inc \<Longrightarrow> plain c'"
  using typed_copy [of inc ms c ok ms' c']
  by (cases "pctx inc") (simp_all add: plain_def EVP_MD_CTX_copy_ex_def Let_def split: if_splits prod.splits, auto)

lemmas plain_contexts = plain_init plain_DigestInit plain_DigestUpdate plain_DigestFinal plain_copy

lemma copy_plain:
  "plain inc \<Longrightarrow> digest inc = Some md \<Longrightarrow> digest out = Some md \<Longrightarrow>
     \<exists>out'. EVP_MD_CTX_copy_ex (Some inc) ms out = (True, ms, out')"
  by (auto simp: plain_def EVP_MD_CTX_copy_ex_def Let_def)

lemma hmac_contexts [simp]:
  "plain_hmac HMAC_CTX_init"
  "plain_hmac (ctx\<lparr>md_ctx := m\<rparr>) = (plain m \<and> plain (i_ctx ctx) \<and> plain (o_ctx ctx))"
  "plain_hmac (ctx\<lparr>i_ctx := m\<rparr>) = (plain (md_ctx ctx) \<and> plain m \<and> plain (o_ctx ctx))"
  "plain_hmac (ctx\<lparr>o_ctx := m\<rparr>) = (plain (md_ctx ctx) \<and> plain (i_ctx ctx) \<and> plain m)"
  "plain_hmac (ctx\<lparr>hmac_md := x\<rparr>) = plain_hmac ctx"
  by (auto simp: plain_hmac_def HMAC_CTX_init_def plain_contexts)

lemma pad_block:
  "length k \<le> B \<Longrightarrow> B \<le> n \<Longrightarrow> take B (map f (k @ replicate (n - length k) 0)) = map f (k @ replicate (B - length k) 0)"
  by (simp add: take_map min_def)

context digest_method
begin

definition keyed :: "bytes \<Rightarrow> 'p HMAC_CTX \<Rightarrow> bool" where
  "keyed K ctx \<longleftrightarrow> hmac_md ctx = Some md \<and> plain_hmac ctx \<and> digest (md_ctx ctx) = Some md \<and>
     hashing (ipad H (unat (EVP_MD_block_size md)) K) (i_ctx ctx) \<and>
     hashing (opad H (unat (EVP_MD_block_size md)) K) (o_ctx ctx)"

definition macing :: "bytes \<Rightarrow> bytes \<Rightarrow> 'p HMAC_CTX \<Rightarrow> bool" where
  "macing K msg ctx \<longleftrightarrow> keyed K ctx \<and> hashing (ipad H (unat (EVP_MD_block_size md)) K @ msg) (md_ctx ctx)"

lemma key_block:
  assumes kb: "HMAC_key_block K md ms ctx = (Some kb, ms', ctx')" and plain: "plain_hmac ctx" and K: "length K < 2 ^ 64"
  shows "plain_hmac ctx'"
    "take (unat (EVP_MD_block_size md)) (map (\<lambda>b. c XOR b) kb) =
       map (\<lambda>b. b XOR c) (rfc2104_key H (unat (EVP_MD_block_size md)) K)"
proof -
  let ?B = "unat (EVP_MD_block_size md)"
  have long: "EVP_MD_block_size md < of_nat (length K) \<longleftrightarrow> ?B < length K"
    using unat_of_nat_small [where 'a = 64, of "length K"] K by (simp add: word_less_nat_alt)
  have digest: "length (H K) \<le> ?B" "length (H K) = unat (md_size (env_md md))"
    using size_block length_digest [of K] by (simp_all add: word_le_nat_alt unat_EVP_MD_size)
  have "plain_hmac ctx' \<and> kb = (let k = (if ?B < length K then H K else K) in k @ replicate (EVP_MAX_MD_BLOCK_SIZE - length k) 0)"
  proof (cases "?B < length K")
    case True
    obtain ok m1 ms1 where init: "EVP_DigestInit_ex md ms (md_ctx ctx) = (ok, ms1, m1)"
      by (metis prod_cases3)
    show ?thesis
    proof (cases ok)
      case ok: True
      have m1: "hashing [] m1" "plain m1"
        using init_hashing [of ms "md_ctx ctx" ms1 m1] plain_DigestInit [OF init] init ok plain
        by (auto simp: plain_hmac_def plain_def)
      note final = final_hashing [OF update_hashing [OF m1(1) K], simplified]
      show ?thesis
        using kb plain ok True m1(2) plain_DigestFinal [OF final plain_DigestUpdate [OF m1(2) K]]
        by (auto simp: HMAC_key_block_def long init final Let_def digest plain_hmac_def)
    next
      case False
      then show ?thesis
        using kb True by (simp add: HMAC_key_block_def long init)
    qed
  next
    case False
    then show ?thesis
      using kb plain by (auto simp: HMAC_key_block_def long)
  qed
  then have kb_eq: "plain_hmac ctx'" "kb = (if ?B < length K then H K else K) @
      replicate (EVP_MAX_MD_BLOCK_SIZE - length (if ?B < length K then H K else K)) 0"
    by (simp_all only: Let_def)
  have "length (if ?B < length K then H K else K) \<le> ?B"
    using digest by auto
  note take = pad_block [OF this block_max]
  show "plain_hmac ctx'"
    by (rule kb_eq(1))
  show "take ?B (map (\<lambda>b. c XOR b) kb) = map (\<lambda>b. b XOR c) (rfc2104_key H ?B K)"
    unfolding kb_eq(2) take rfc2104_key_def Let_def by (intro map_cong refl xor.commute)
qed

lemma set_key:
  assumes key: "HMAC_set_key K md ms ctx = (True, ms', ctx')" and plain: "plain_hmac ctx" and K: "length K < 2 ^ 64"
  shows "hmac_md ctx' = Some md \<and> plain_hmac ctx' \<and>
    hashing (ipad H (unat (EVP_MD_block_size md)) K) (i_ctx ctx') \<and>
    hashing (opad H (unat (EVP_MD_block_size md)) K) (o_ctx ctx')"
proof -
  let ?B = "unat (EVP_MD_block_size md)"
  obtain kb ms1 c1 where kb: "HMAC_key_block K md ms ctx = (Some kb, ms1, c1)"
    using key by (auto simp: HMAC_set_key_def split: prod.splits option.splits)
  note block = key_block [OF kb plain K]
  have pads: "take ?B (map (\<lambda>b. 0x36 XOR b) kb) = ipad H ?B K" "take ?B (map (\<lambda>b. 0x5c XOR b) kb) = opad H ?B K"
    by (simp_all add: block(2) ipad_def opad_def)
  have length_pads: "length (ipad H ?B K) < 2 ^ 64" "length (opad H ?B K) < 2 ^ 64"
    unfolding pads [symmetric] using unat_lt64 [of "EVP_MD_block_size md"] by (simp_all add: min_def)
  obtain ok2 ms2 i where i: "EVP_DigestInit_ex md ms1 (i_ctx c1) = (ok2, ms2, i)"
    by (metis prod_cases3)
  obtain ok3 ms3 oc where oc: "EVP_DigestInit_ex md ms2 (o_ctx c1) = (ok3, ms3, oc)"
    by (metis prod_cases3)
  have "ok2 \<and> ok3 \<and>
      ctx' = c1\<lparr>i_ctx := EVP_DigestUpdate (ipad H ?B K) i, o_ctx := EVP_DigestUpdate (opad H ?B K) oc, hmac_md := Some md\<rparr>"
    using key unfolding HMAC_set_key_def kb prod.case option.case Let_def
    by (cases ok2; cases ok3) (simp_all add: i oc pads)
  then have ok: "ok2" "ok3"
    and ctx': "ctx' = c1\<lparr>i_ctx := EVP_DigestUpdate (ipad H ?B K) i, o_ctx := EVP_DigestUpdate (opad H ?B K) oc, hmac_md := Some md\<rparr>"
    by simp_all
  have plain1: "plain (i_ctx c1)" "plain (o_ctx c1)" "plain (md_ctx c1)"
    using block(1) by (simp_all add: plain_hmac_def)
  have hashing: "hashing [] i" "hashing [] oc"
    using init_hashing [OF i [unfolded eqTrueI [OF ok(1)]]] init_hashing [OF oc [unfolded eqTrueI [OF ok(2)]]] plain1
    by (auto simp: plain_def)
  have "plain (EVP_DigestUpdate (ipad H ?B K) i)" "plain (EVP_DigestUpdate (opad H ?B K) oc)"
    by (intro plain_DigestUpdate plain_DigestInit [OF i] plain_DigestInit [OF oc] plain1 length_pads)+
  then show ?thesis
    using update_hashing [OF hashing(1) length_pads(1)] update_hashing [OF hashing(2) length_pads(2)] plain1
    by (simp add: ctx' plain_hmac_def)
qed

lemma init_macing:
  assumes init: "HMAC_Init_ex (Some K) (Some md) ms ctx = (True, ms', ctx')" and "plain_hmac ctx" "length K < 2 ^ 64"
  shows "macing K [] ctx'"
proof -
  obtain ms1 c1 where key: "HMAC_set_key K md ms ctx = (True, ms1, c1)"
    using init by (auto simp: HMAC_Init_ex_def split: prod.splits if_splits)
  note set = set_key [OF key assms(2,3)]
  obtain ok ms2 m where copy: "EVP_MD_CTX_copy_ex (Some (i_ctx c1)) ms1 (md_ctx c1) = (ok, ms2, m)"
    by (metis prod_cases3)
  have ok: "ok" and ctx': "ctx' = c1\<lparr>md_ctx := m\<rparr>"
    using init by (simp_all add: HMAC_Init_ex_def key copy)
  have m: "hashing (ipad H (unat (EVP_MD_block_size md)) K) m" "plain m"
    using set copy copy_hashing [of _ "i_ctx c1" ms1 "md_ctx c1" ms2 m] plain_copy [OF copy] ok
    by (simp_all add: plain_hmac_def)
  show ?thesis
    using set m hashing_digest [OF m(1)] by (simp add: macing_def keyed_def plain_hmac_def ctx')
qed

text \<open>Without a key and a digest, the running digest starts over with the key it had; nothing is allocated.\<close>

lemma rekey_macing:
  assumes keyed: "keyed K ctx"
  shows "\<exists>ctx'. HMAC_Init_ex None None ms ctx = (True, ms, ctx') \<and> macing K [] ctx'"
proof -
  obtain m where copy: "EVP_MD_CTX_copy_ex (Some (i_ctx ctx)) ms (md_ctx ctx) = (True, ms, m)"
    using copy_plain [of "i_ctx ctx" md "md_ctx ctx" ms] keyed hashing_digest [of _ "i_ctx ctx"]
    by (auto simp: keyed_def plain_hmac_def)
  have "HMAC_Init_ex None None ms ctx = (True, ms, ctx\<lparr>md_ctx := m\<rparr>)"
    by (simp add: HMAC_Init_ex_def copy)
  moreover have m: "hashing (ipad H (unat (EVP_MD_block_size md)) K) m" "plain m"
    using keyed copy_hashing [OF _ copy] plain_copy [OF copy] by (simp_all add: keyed_def plain_hmac_def)
  then have "macing K [] (ctx\<lparr>md_ctx := m\<rparr>)"
    using keyed hashing_digest [OF m(1)] by (simp add: macing_def keyed_def plain_hmac_def)
  ultimately show ?thesis
    by blast
qed

lemma update_macing:
  assumes "macing K msg ctx" "length data < 2 ^ 64"
  shows "macing K (msg @ data) (HMAC_Update data ctx)"
proof -
  have m: "hashing ((ipad H (unat (EVP_MD_block_size md)) K @ msg) @ data) (EVP_DigestUpdate data (md_ctx ctx))"
    using assms by (intro update_hashing) (simp_all add: macing_def)
  moreover have "plain (EVP_DigestUpdate data (md_ctx ctx))"
    using assms by (intro plain_DigestUpdate) (simp add: macing_def keyed_def plain_hmac_def)
  ultimately show ?thesis
    using assms(1) hashing_digest [OF m] by (simp add: macing_def keyed_def plain_hmac_def HMAC_Update_def)
qed

text \<open>\<open>HMAC_Final\<close> does not allocate either, so that it cannot fail; the context stays keyed.\<close>

lemma final_macing:
  assumes "macing K msg ctx"
  shows "\<exists>ctx'. HMAC_Final ms ctx =
      (Some (rfc2104 H (unat (EVP_MD_block_size md)) K msg, md_size (env_md md)), ms, ctx') \<and> keyed K ctx'"
proof -
  let ?B = "unat (EVP_MD_block_size md)" and ?inner = "H (ipad H (unat (EVP_MD_block_size md)) K @ msg)"
  have run: "hashing (ipad H ?B K @ msg) (md_ctx ctx)" and opad: "hashing (opad H ?B K) (o_ctx ctx)"
    and md: "hmac_md ctx = Some md" and ipad: "hashing (ipad H ?B K) (i_ctx ctx)"
    and plain: "plain (md_ctx ctx)" "plain (i_ctx ctx)" "plain (o_ctx ctx)"
    using assms by (simp_all add: macing_def keyed_def plain_hmac_def)
  obtain m1 where fin1: "EVP_DigestFinal_ex (md_ctx ctx) = (?inner, md_size (env_md md), m1)"
    using final_hashing [OF run] by blast
  have m1: "plain m1" "digest m1 = Some md"
    using plain_DigestFinal [OF fin1 plain(1)] hashing_digest [OF run] by simp_all
  obtain m2 where copy: "EVP_MD_CTX_copy_ex (Some (o_ctx ctx)) ms m1 = (True, ms, m2)"
    using copy_plain [OF plain(3) _ m1(2), of ms] hashing_digest [OF opad] by auto
  have m2: "hashing (opad H ?B K) m2" "plain m2"
    using copy_hashing [OF opad copy] plain_copy [OF copy m1(1) plain(3)] by simp_all
  have inner: "take (unat (md_size (env_md md))) (mem_write (replicate EVP_MAX_MD_SIZE 0) 0 ?inner) = ?inner"
    using length_digest [of "ipad H ?B K @ msg"] size_max by (simp add: mem_write_def unat_EVP_MD_size)
  have short: "length ?inner < 2 ^ 64"
    using length_digest [of "ipad H ?B K @ msg"] unat_lt64 [of "EVP_MD_size md"] by simp
  note m3 = update_hashing [OF m2(1) this]
  obtain m4 where fin2: "EVP_DigestFinal_ex (EVP_DigestUpdate ?inner m2) =
      (H (opad H ?B K @ ?inner), md_size (env_md md), m4)"
    using final_hashing [OF m3] by blast
  have m4: "plain m4" "digest m4 = Some md"
    using plain_DigestFinal [OF fin2 plain_DigestUpdate [OF m2(2) short]] hashing_digest [OF m3] by simp_all
  have "HMAC_Final ms ctx = (Some (rfc2104 H ?B K msg, md_size (env_md md)), ms, ctx\<lparr>md_ctx := m4\<rparr>)"
    by (simp add: HMAC_Final_def fin1 copy inner fin2 rfc2104_def)
  moreover have "keyed K (ctx\<lparr>md_ctx := m4\<rparr>)"
    using md ipad opad plain m4 by (simp add: keyed_def plain_hmac_def)
  ultimately show ?thesis
    by blast
qed

end

section \<open>Failure is a failure of the allocator\<close>

lemma next_malloc_ok: "False \<notin> set ms \<Longrightarrow> next_malloc ms = (ok, ms') \<Longrightarrow> ok \<and> False \<notin> set ms'"
  by (auto simp: next_malloc_def split: list.splits)

lemma DigestInit_ok:
  "False \<notin> set ms \<Longrightarrow> EVP_DigestInit_ex md ms c = (ok, ms', c') \<Longrightarrow> ok \<and> False \<notin> set ms' \<and> digest c' = Some md"
  by (auto simp: EVP_DigestInit_ex_def Let_def split: if_splits prod.splits dest: next_malloc_ok)

lemma copy_ok:
  "False \<notin> set ms \<Longrightarrow> plain inc \<Longrightarrow> digest inc = Some md \<Longrightarrow>
     EVP_MD_CTX_copy_ex (Some inc) ms c = (ok, ms', c') \<Longrightarrow> ok \<and> False \<notin> set ms'"
  by (auto simp: plain_def EVP_MD_CTX_copy_ex_def Let_def split: if_splits prod.splits dest: next_malloc_ok)

lemma key_block_ok:
  assumes "False \<notin> set ms" "HMAC_key_block K md ms ctx = (kb, ms', ctx')"
  shows "kb \<noteq> None \<and> False \<notin> set ms'"
  using assms by (auto simp: HMAC_key_block_def Let_def split: if_splits prod.splits dest: DigestInit_ok)

lemma set_key_ok:
  assumes "False \<notin> set ms" "HMAC_set_key K md ms ctx = (ok, ms', ctx')"
  shows "ok \<and> False \<notin> set ms'"
proof -
  obtain kb ms1 c1 where kb: "HMAC_key_block K md ms ctx = (kb, ms1, c1)"
    by (metis prod_cases3)
  note ok1 = key_block_ok [OF assms(1) kb]
  obtain ok2 ms2 i where i: "EVP_DigestInit_ex md ms1 (i_ctx c1) = (ok2, ms2, i)"
    by (metis prod_cases3)
  note ok2 = DigestInit_ok [OF conjunct2 [OF ok1] i]
  obtain ok3 ms3 oc where oc: "EVP_DigestInit_ex md ms2 (o_ctx c1) = (ok3, ms3, oc)"
    by (metis prod_cases3)
  have "ok3 \<and> False \<notin> set ms3"
    using DigestInit_ok [OF _ oc] ok2 by blast
  then show ?thesis
    using assms(2) ok1 ok2 by (auto simp: HMAC_set_key_def kb i oc Let_def)
qed

lemma HMAC_Init_ok:
  assumes "False \<notin> set ms" "plain_hmac ctx" "length K < 2 ^ 64"
  shows "\<exists>ms' ctx'. HMAC_Init_ex (Some K) (Some md) ms ctx = (True, ms', ctx') \<and> False \<notin> set ms'"
proof -
  obtain ok ms1 c1 where key: "HMAC_set_key K md ms ctx = (ok, ms1, c1)"
    by (metis prod_cases3)
  note ok = set_key_ok [OF assms(1) key]
  note set = evp.set_key [OF key [unfolded eqTrueI [OF conjunct1 [OF ok]]] assms(2,3)]
  obtain ok2 ms2 m where copy: "EVP_MD_CTX_copy_ex (Some (i_ctx c1)) ms1 (md_ctx c1) = (ok2, ms2, m)"
    by (metis prod_cases3)
  have "ok2 \<and> False \<notin> set ms2"
    using copy_ok [OF conjunct2 [OF ok] _ _ copy] set evp.hashing_digest [of md _ "i_ctx c1"]
    by (auto simp: plain_hmac_def)
  then show ?thesis
    using ok by (auto simp: HMAC_Init_ex_def key copy)
qed

lemma updates_macing:
  "evp.macing md K msg ctx \<Longrightarrow> \<forall>d \<in> set ds. length d < 2 ^ 64 \<Longrightarrow>
     evp.macing md K (msg @ concat ds) (fold HMAC_Update ds ctx)"
  by (induction ds arbitrary: msg ctx) (auto dest: evp.update_macing simp flip: append_assoc)

lemma HMAC_final:
  "evp.macing md K msg ctx \<Longrightarrow>
     \<exists>ctx'. HMAC_Final ms ctx = (Some (hmac_of md K msg, md_size (env_md md)), ms, ctx') \<and> evp.keyed md K ctx'"
  unfolding hmac_of_def by (rule evp.final_macing)

lemma HMAC_null_key: "HMAC md None data ms = HMAC md (Some []) data ms"
  by (simp add: HMAC_def HMAC_Init_ex_def HMAC_CTX_init_def)

lemma HMAC_cases:
  assumes "length (case key of None \<Rightarrow> [] | Some K \<Rightarrow> K) < 2 ^ 64" "length data < 2 ^ 64"
  shows "(\<exists>ms'. HMAC md key data ms = (None, ms') \<and> False \<in> set ms) \<or>
    (\<exists>ms'. HMAC md key data ms = (Some (hmac_of md (case key of None \<Rightarrow> [] | Some K \<Rightarrow> K) data, md_size (env_md md)), ms') \<and>
       (False \<in> set ms' \<longrightarrow> False \<in> set ms))"
proof -
  define K where "K = (case key of None \<Rightarrow> [] | Some K \<Rightarrow> K)"
  have key: "HMAC md key data ms = HMAC md (Some K) data ms"
    by (cases key) (simp_all add: K_def HMAC_null_key)
  obtain ok ms' ctx' where init: "HMAC_Init_ex (Some K) (Some md) ms (HMAC_CTX_init :: unit HMAC_CTX) = (ok, ms', ctx')"
    by (metis prod_cases3)
  have K: "length K < 2 ^ 64"
    using assms(1) by (simp only: K_def)
  have good: "ok \<and> False \<notin> set ms'" if "False \<notin> set ms"
    using HMAC_Init_ok [of ms "HMAC_CTX_init :: unit HMAC_CTX" K md] that K init by auto
  show ?thesis
  proof (cases ok)
    case True
    note start = evp.init_macing [OF init [unfolded eqTrueI [OF True]] _ K, simplified]
    obtain c where "HMAC_Final ms' (HMAC_Update data ctx') = (Some (hmac_of md K data, md_size (env_md md)), ms', c)"
      using HMAC_final [OF evp.update_macing [OF start assms(2)], of ms'] by auto
    then show ?thesis
      unfolding key K_def [symmetric] using True good by (auto simp: HMAC_def init)
  next
    case False
    then show ?thesis
      unfolding key K_def [symmetric] using good by (auto simp: HMAC_def init)
  qed
qed

section \<open>Properties\<close>

text \<open>
  Claim C18: a key and a digest that \<open>HMAC_Init_ex\<close> accepts, and a message in any number of updates, give at
  \<open>HMAC_Final\<close> the HMAC that RFC 2104 defines with the digest of the method; and \<open>HMAC_Init_ex\<close> without a key
  then starts over with the same key, whatever the allocator does, and a second message gives its HMAC.
\<close>

theorem HMAC_streamed:
  assumes "HMAC_Init_ex (Some K) (Some md) ms ctx = (True, ms', ctx')"
    and "plain_hmac ctx" "length K < 2 ^ 64"
    and "\<forall>d \<in> set (ds @ ds'). length d < 2 ^ 64"
  shows "\<exists>c1 c2. HMAC_Final ms1 (fold HMAC_Update ds ctx') = (Some (hmac_of md K (concat ds), md_size (env_md md)), ms1, c1) \<and>
    HMAC_Init_ex None None ms2 c1 = (True, ms2, c2) \<and>
    fst (HMAC_Final ms3 (fold HMAC_Update ds' c2)) = Some (hmac_of md K (concat ds'), md_size (env_md md))"
proof -
  have sizes: "\<forall>d \<in> set ds. length d < 2 ^ 64" "\<forall>d \<in> set ds'. length d < 2 ^ 64"
    using assms(4) by simp_all
  have start: "evp.macing md K [] c \<Longrightarrow> \<forall>d \<in> set es. length d < 2 ^ 64 \<Longrightarrow>
      \<exists>c'. HMAC_Final mx (fold HMAC_Update es c) = (Some (hmac_of md K (concat es), md_size (env_md md)), mx, c') \<and>
        evp.keyed md K c'" for es mx and c :: "'a HMAC_CTX"
    using HMAC_final [OF updates_macing [of md K "[]" c es]] by simp
  obtain c1 where c1: "HMAC_Final ms1 (fold HMAC_Update ds ctx') = (Some (hmac_of md K (concat ds), md_size (env_md md)), ms1, c1)"
    "evp.keyed md K c1"
    using start [OF evp.init_macing [OF assms(1-3)] sizes(1)] by blast
  obtain c2 where c2: "HMAC_Init_ex None None ms2 c1 = (True, ms2, c2)" "evp.macing md K [] c2"
    using evp.rekey_macing [OF c1(2)] by blast
  show ?thesis
    using c1(1) c2(1) start [OF c2(2) sizes(2), of ms3] by fastforce
qed

text \<open>The key \<open>k\<close> and the message \<open>ab\<close> in two pieces, then the message \<open>c\<close> with the same key.\<close>

lemma HMAC_streamed_witness:
  "\<exists>c1 c2. HMAC_Final [False] (fold HMAC_Update [[0x61], [0x62]]
       (snd (snd (HMAC_Init_ex (Some [0x6b]) (Some EVP_sha256) [] (HMAC_CTX_init :: unit HMAC_CTX))))) =
       (Some (hmac_of EVP_sha256 [0x6b] [0x61, 0x62], 32), [False], c1) \<and>
     HMAC_Init_ex None None [False] c1 = (True, [False], c2) \<and>
     fst (HMAC_Final [] (fold HMAC_Update [[0x63]] c2)) = Some (hmac_of EVP_sha256 [0x6b] [0x63], 32)"
proof -
  obtain ms' ctx' where init: "HMAC_Init_ex (Some [0x6b]) (Some EVP_sha256) [] (HMAC_CTX_init :: unit HMAC_CTX) = (True, ms', ctx')"
    using HMAC_Init_ok [of "[]" "HMAC_CTX_init :: unit HMAC_CTX" "[0x6b]" EVP_sha256] by auto
  have "md_size (env_md EVP_sha256) = 32"
    by (simp add: methods)
  then show ?thesis
    using HMAC_streamed [OF init, of "[[0x61], [0x62]]" "[[0x63]]" "[False]" "[False]" "[]"] by (simp add: init)
qed

text \<open>
  The one-shot \<open>HMAC\<close>, with a key or with a null key that stands for the empty one, gives the HMAC of
  RFC 2104 or fails, and it fails only when a \<open>malloc\<close> does.
\<close>

lemma HMAC_rfc2104:
  assumes "length (case key of None \<Rightarrow> [] | Some K \<Rightarrow> K) < 2 ^ 64" "length data < 2 ^ 64"
  shows "case fst (HMAC md key data ms) of
      None \<Rightarrow> False \<in> set ms
    | Some r \<Rightarrow> r = (hmac_of md (case key of None \<Rightarrow> [] | Some K \<Rightarrow> K) data, md_size (env_md md))"
  using HMAC_cases [OF assms, of md ms] by (auto split: option.splits prod.splits)

lemma HMAC_rfc2104_witness:
  "fst (HMAC EVP_md5 (Some [1, 2]) [3] []) = Some (hmac_of EVP_md5 [1, 2] [3], 16)"
  using HMAC_rfc2104 [where md = EVP_md5 and key = "Some [1, 2]" and data = "[3]" and ms = "[]"]
  by (simp add: methods split: option.splits)

end
