(* ===== verification/KDF.thy ===== *)
theory KDF
  imports HMAC
begin

text \<open>
  The key derivation functions built on HMAC: \<open>crypto/hkdf/hkdf.c\<close> (HKDF, RFC 5869) and \<open>crypto/evp/pbkdf.c\<close>
  (PBKDF2, RFC 8018).  Both key an \<open>HMAC_CTX\<close> once and start it over for every further message, so that only
  their first call of \<open>HMAC_Init_ex\<close> allocates.  The output buffer is the list of the bytes written to it.
\<close>

section \<open>HKDF\<close>

definition HKDF_extract :: "EVP_MD \<Rightarrow> bytes \<Rightarrow> bytes option \<Rightarrow> mallocs \<Rightarrow> bytes option \<times> mallocs" where
  "HKDF_extract md secret salt ms =
     (case HMAC md salt secret ms of
        (None, ms) \<Rightarrow> (None, ms)
      | (Some (out_key, len), ms) \<Rightarrow> (Some out_key, ms))"

text \<open>
  \<open>for (i = 0; i < n; i++)\<close>: \<open>k\<close> turns are left.  \<open>HMAC_Final\<close> gets a null \<open>out_len\<close>, through which it would
  write if it failed.
\<close>

primrec HKDF_expand_turns ::
  "nat \<Rightarrow> u32 \<Rightarrow> usize \<Rightarrow> usize \<Rightarrow> bytes \<Rightarrow> bytes \<Rightarrow> usize \<Rightarrow> bytes \<Rightarrow> mallocs \<Rightarrow> 'p HMAC_CTX \<Rightarrow> bytes option \<times> mallocs" where
  "HKDF_expand_turns 0 i out_len digest_len info previous dn out ms hmac = (Some out, ms)"
| "HKDF_expand_turns (Suc k) i out_len digest_len info previous dn out ms hmac =
     (let ctr = (ucast (i + 1) :: u8);
          (ok, ms, hmac) =
            (if i \<noteq> 0
             then let (ok, ms, hmac) = HMAC_Init_ex None None ms hmac
                  in if \<not> ok then (False, ms, hmac)
                     else (True, ms, HMAC_Update (take (unat digest_len) previous) hmac)
             else (True, ms, hmac))
      in if \<not> ok then (None, ms)
         else
           let hmac = HMAC_Update info hmac;
               hmac = HMAC_Update [ctr] hmac
           in case HMAC_Final ms hmac of
                (None, ms, hmac) \<Rightarrow> (None, ms)
              | (Some (w, _), ms, hmac) \<Rightarrow>
                  let previous = w;
                      todo = digest_len;
                      todo = (if out_len < dn + todo then out_len - dn else todo)
                  in HKDF_expand_turns k (i + 1) out_len digest_len info previous (dn + todo)
                       (out @ take (unat todo) previous) ms hmac)"

definition HKDF_expand :: "usize \<Rightarrow> EVP_MD \<Rightarrow> bytes \<Rightarrow> bytes \<Rightarrow> mallocs \<Rightarrow> bytes option \<times> mallocs" where
  "HKDF_expand out_len md prk info ms =
     (let digest_len = EVP_MD_size md;
          n = (out_len + digest_len - 1) div digest_len
      in if out_len + digest_len < out_len \<or> 255 < n then (None, ms)
         else
           let (ok, ms, hmac) = HMAC_Init_ex (Some prk) (Some md) ms (HMAC_CTX_init :: unit HMAC_CTX)
           in if \<not> ok then (None, ms)
              else HKDF_expand_turns (unat n) 0 out_len digest_len info [] 0 [] ms hmac)"

definition HKDF :: "usize \<Rightarrow> EVP_MD \<Rightarrow> bytes \<Rightarrow> bytes option \<Rightarrow> bytes \<Rightarrow> mallocs \<Rightarrow> bytes option \<times> mallocs" where
  "HKDF out_len md secret salt info ms =
     (case HKDF_extract md secret salt ms of
        (None, ms) \<Rightarrow> (None, ms)
      | (Some prk, ms) \<Rightarrow> HKDF_expand out_len md prk info ms)"

section \<open>PBKDF2\<close>

text \<open>The loop over \<open>j\<close>, with \<open>k\<close> turns left: the digest, and the block of output that it is added to.\<close>

primrec PBKDF2_xor ::
  "nat \<Rightarrow> usize \<Rightarrow> usize \<Rightarrow> bytes \<Rightarrow> bytes \<Rightarrow> mallocs \<Rightarrow> 'p HMAC_CTX \<Rightarrow> bool \<times> bytes \<times> mallocs \<times> 'p HMAC_CTX" where
  "PBKDF2_xor 0 md_len todo digest_tmp out ms hctx = (True, out, ms, hctx)"
| "PBKDF2_xor (Suc k) md_len todo digest_tmp out ms hctx =
     (let (ok, ms, hctx) = HMAC_Init_ex None None ms hctx
      in if \<not> ok then (False, out, ms, hctx)
         else case HMAC_Final ms (HMAC_Update (take (unat md_len) digest_tmp) hctx) of
                (None, ms, hctx) \<Rightarrow> (False, out, ms, hctx)
              | (Some (digest_tmp, _), ms, hctx) \<Rightarrow>
                  PBKDF2_xor k md_len todo digest_tmp (map2 (XOR) out (take (unat todo) digest_tmp)) ms hctx)"

text \<open>\<open>i_buf\<close>: the block number, the high byte first.\<close>

definition i_bytes :: "u32 \<Rightarrow> bytes" where
  "i_bytes i = [ucast (drop_bit 24 i AND 0xff), ucast (drop_bit 16 i AND 0xff), ucast (drop_bit 8 i AND 0xff), ucast (i AND 0xff)]"

lemma EVP_MD_size_pos: "0 < EVP_MD_size md"
  by (rule evp.size_pos)

lemma block_shrinks: "\<not> key_len < EVP_MD_size md \<Longrightarrow> unat (key_len - EVP_MD_size md) < unat key_len"
  using EVP_MD_size_pos [of md] by (simp add: word_less_nat_alt word_le_nat_alt unat_sub)

text \<open>\<open>while (key_len > 0)\<close>; the result says whether no call failed, and what was written to \<open>out_key\<close>.\<close>

function PBKDF2_blocks ::
  "EVP_MD \<Rightarrow> bytes \<Rightarrow> u32 \<Rightarrow> u32 \<Rightarrow> usize \<Rightarrow> bytes \<Rightarrow> mallocs \<Rightarrow> 'p HMAC_CTX \<Rightarrow> bool \<times> bytes \<times> mallocs" where
  "PBKDF2_blocks md salt iterations i key_len out ms hctx =
     (if key_len = 0 then (True, out, ms)
      else
        let md_len = EVP_MD_size md;
            todo = md_len;
            todo = (if key_len < todo then key_len else todo);
            (ok, ms, hctx) = HMAC_Init_ex None None ms hctx
        in if \<not> ok then (False, out, ms)
           else case HMAC_Final ms (HMAC_Update (i_bytes i) (HMAC_Update salt hctx)) of
                  (None, ms, hctx) \<Rightarrow> (False, out, ms)
                | (Some (digest_tmp, _), ms, hctx) \<Rightarrow>
                    let (ok, block, ms, hctx) =
                          PBKDF2_xor (unat iterations - 1) md_len todo digest_tmp (take (unat todo) digest_tmp) ms hctx
                    in if \<not> ok then (False, out @ block, ms)
                       else PBKDF2_blocks md salt iterations (i + 1) (key_len - todo) (out @ block) ms hctx)"
  by pat_completeness auto
termination
  by (relation "measure (\<lambda>(_, _, _, _, key_len, _). unat key_len)") (auto simp: block_shrinks unat_gt_0)

declare PBKDF2_blocks.simps [simp del]

definition PKCS5_PBKDF2_HMAC ::
  "bytes \<Rightarrow> bytes \<Rightarrow> u32 \<Rightarrow> EVP_MD \<Rightarrow> usize \<Rightarrow> mallocs \<Rightarrow> bool \<times> bytes \<times> mallocs" where
  "PKCS5_PBKDF2_HMAC password salt iterations md key_len ms =
     (let (ok, ms, hctx) = HMAC_Init_ex (Some password) (Some md) ms (HMAC_CTX_init :: unit HMAC_CTX)
      in if \<not> ok then (False, [], ms)
         else
           let (ok, out, ms) = PBKDF2_blocks md salt iterations 1 key_len [] ms hctx
           in if \<not> ok then (False, out, ms)
              else if iterations = 0 then (False, out, ms)
              else (True, out, ms))"

definition PKCS5_PBKDF2_HMAC_SHA1 :: "bytes \<Rightarrow> bytes \<Rightarrow> u32 \<Rightarrow> usize \<Rightarrow> mallocs \<Rightarrow> bool \<times> bytes \<times> mallocs" where
  "PKCS5_PBKDF2_HMAC_SHA1 password salt iterations key_len ms =
     PKCS5_PBKDF2_HMAC password salt iterations EVP_sha1 key_len ms"

section \<open>The references: RFC 5869 and RFC 8018\<close>

primrec rfc5869_T :: "(bytes \<Rightarrow> bytes) \<Rightarrow> bytes \<Rightarrow> nat \<Rightarrow> bytes" where
  "rfc5869_T PRF info 0 = []"
| "rfc5869_T PRF info (Suc i) = PRF (rfc5869_T PRF info i @ info @ [of_nat (Suc i)])"

definition rfc5869_expand :: "(bytes \<Rightarrow> bytes) \<Rightarrow> nat \<Rightarrow> bytes \<Rightarrow> nat \<Rightarrow> bytes" where
  "rfc5869_expand PRF hash_len info L =
     take L (concat (map (rfc5869_T PRF info) [1..<Suc ((L + hash_len - 1) div hash_len)]))"

text \<open>A salt that is not given is a string of \<open>HashLen\<close> zeros.\<close>

definition rfc5869_extract :: "EVP_MD \<Rightarrow> bytes option \<Rightarrow> bytes \<Rightarrow> bytes" where
  "rfc5869_extract md salt secret =
     hmac_of md (case salt of None \<Rightarrow> replicate (unat (EVP_MD_size md)) 0 | Some s \<Rightarrow> s) secret"

definition rfc5869 :: "EVP_MD \<Rightarrow> bytes option \<Rightarrow> bytes \<Rightarrow> bytes \<Rightarrow> nat \<Rightarrow> bytes" where
  "rfc5869 md salt secret info L =
     rfc5869_expand (hmac_of md (rfc5869_extract md salt secret)) (unat (EVP_MD_size md)) info L"

primrec rfc8018_U :: "(bytes \<Rightarrow> bytes) \<Rightarrow> bytes \<Rightarrow> nat \<Rightarrow> nat \<Rightarrow> bytes" where
  "rfc8018_U PRF S i 0 = PRF (S @ be_bytes 4 i)"
| "rfc8018_U PRF S i (Suc c) = PRF (rfc8018_U PRF S i c)"

text \<open>\<open>F(P, S, c + 1, i)\<close>.\<close>

primrec rfc8018_F :: "(bytes \<Rightarrow> bytes) \<Rightarrow> bytes \<Rightarrow> nat \<Rightarrow> nat \<Rightarrow> bytes" where
  "rfc8018_F PRF S i 0 = rfc8018_U PRF S i 0"
| "rfc8018_F PRF S i (Suc c) = map2 (XOR) (rfc8018_F PRF S i c) (rfc8018_U PRF S i (Suc c))"

definition rfc8018 :: "EVP_MD \<Rightarrow> bytes \<Rightarrow> bytes \<Rightarrow> nat \<Rightarrow> nat \<Rightarrow> bytes" where
  "rfc8018 md P S c dk_len =
     (let hash_len = unat (EVP_MD_size md); l = (dk_len + hash_len - 1) div hash_len
      in take dk_len (concat (map (\<lambda>i. rfc8018_F (hmac_of md P) S i (c - 1)) [1..<Suc l])))"

section \<open>HKDF\<close>

lemma length_hmac_of: "length (hmac_of md K msg) = unat (EVP_MD_size md)"
  by (simp add: hmac_of_def rfc2104_def evp.length_digest)

lemma take_hmac_of: "take (unat (EVP_MD_size md)) (hmac_of md K msg) = hmac_of md K msg"
  by (simp add: length_hmac_of)

lemma todo_step:
  fixes dn L hl :: usize
  assumes "unat dn \<le> unat L" "unat L + unat hl < 2 ^ 64"
  defines "todo \<equiv> if L < dn + hl then L - dn else hl"
  shows "unat todo = min (unat hl) (unat L - unat dn)" "unat (dn + todo) = min (unat L) (unat dn + unat hl)"
proof -
  have sum: "unat (dn + hl) = unat dn + unat hl"
    using assms by (simp add: unat_add64)
  have diff: "unat (L - dn) = unat L - unat dn"
    using assms(1) by (simp add: unat_sub word_le_nat_alt)
  show "unat todo = min (unat hl) (unat L - unat dn)"
    using assms(1) by (auto simp: todo_def word_less_nat_alt sum diff)
  then have "unat dn + unat todo = min (unat L) (unat dn + unat hl)"
    using assms(1) by auto
  then show "unat (dn + todo) = min (unat L) (unat dn + unat hl)"
    using min.strict_coboundedI1 [OF unat_lt64 [of L]] by (simp add: unat_add64)
qed

lemma counter_byte: "(ucast (of_nat i + 1 :: u32) :: u8) = of_nat (Suc i)"
proof -
  have "(ucast (of_nat n :: u32) :: u8) = of_nat n" for n
    by (rule bit_word_eqI) (simp add: bit_simps)
  from this [of "Suc i"] show ?thesis
    by (simp add: add.commute)
qed

lemma counter_0: "i < 256 \<Longrightarrow> (of_nat i :: u32) = 0 \<longleftrightarrow> i = 0"
  using unat_of_nat_small [where 'a = 32, of i] by (auto simp: word_unat_eq_iff)

lemma length_rfc5869_T: "length (rfc5869_T (hmac_of md K) info i) = (if i = 0 then 0 else unat (EVP_MD_size md))"
  by (cases i) (simp_all add: length_hmac_of)

lemma length_okm:
  "length (concat (map (rfc5869_T (hmac_of md K) info) [1..<Suc i])) = i * unat (EVP_MD_size md)"
  by (induction i) (simp_all add: length_rfc5869_T del: rfc5869_T.simps)

lemma HKDF_turns:
  fixes md K info and L :: usize
  defines "hl \<equiv> EVP_MD_size md" and "T \<equiv> rfc5869_T (hmac_of md K) info"
  assumes small: "unat L + unat hl < 2 ^ 64" and info: "length info < 2 ^ 64" and "i + k < 256"
    and "i = 0 \<Longrightarrow> evp.macing md K [] hmac" "evp.keyed md K hmac" "unat dn = min (unat L) (i * unat hl)"
  shows "HKDF_expand_turns k (of_nat i) L hl info (T i) dn (take (unat L) (concat (map T [1..<Suc i]))) ms hmac =
    (Some (take (unat L) (concat (map T [1..<Suc (i + k)]))), ms)"
  using assms(5-8)
proof (induction k arbitrary: i hmac dn)
  case (Suc k)
  have T_len: "take (unat hl) (T (Suc i)) = T (Suc i)" "length (T i) < 2 ^ 64" "i \<noteq> 0 \<Longrightarrow> take (unat hl) (T i) = T i"
    using unat_lt64 [of "EVP_MD_size md"] by (simp_all add: T_def hl_def length_rfc5869_T del: rfc5869_T.simps)
  have "\<exists>c1. (if (of_nat i :: u32) \<noteq> 0
             then let (ok, ms, hmac) = HMAC_Init_ex None None ms hmac
                  in if \<not> ok then (False, ms, hmac)
                     else (True, ms, HMAC_Update (take (unat hl) (T i)) hmac)
             else (True, ms, hmac)) = (True, ms, c1) \<and> evp.macing md K (T i) c1"
  proof (cases "i = 0")
    case True
    then show ?thesis
      using Suc.prems by (simp add: T_def)
  next
    case False
    obtain c where c: "HMAC_Init_ex None None ms hmac = (True, ms, c)" "evp.macing md K [] c"
      using evp.rekey_macing [OF Suc.prems(3)] by blast
    then show ?thesis
      using False Suc.prems(1) evp.update_macing [OF c(2) T_len(2)] by (simp add: counter_0 T_len(3))
  qed
  then obtain c1 where c1: "(if (of_nat i :: u32) \<noteq> 0
             then let (ok, ms, hmac) = HMAC_Init_ex None None ms hmac
                  in if \<not> ok then (False, ms, hmac)
                     else (True, ms, HMAC_Update (take (unat hl) (T i)) hmac)
             else (True, ms, hmac)) = (True, ms, c1)" "evp.macing md K (T i) c1"
    by blast
  have "evp.macing md K (T i @ info @ [of_nat (Suc i)]) (HMAC_Update [of_nat (Suc i)] (HMAC_Update info c1))"
    using evp.update_macing [OF evp.update_macing [OF c1(2) info], of "[of_nat (Suc i)]"] by simp
  then obtain c2 where c2: "HMAC_Final ms (HMAC_Update [of_nat (Suc i)] (HMAC_Update info c1)) =
      (Some (T (Suc i), md_size (env_md md)), ms, c2)" "evp.keyed md K c2"
    using HMAC_final [of md K _ _ ms] unfolding T_def rfc5869_T.simps by blast
  define todo where "todo = (if L < dn + hl then L - dn else hl)"
  have le: "unat dn \<le> unat L"
    using Suc.prems(4) by simp
  note todo = todo_step [OF le small, folded todo_def]
  let ?out = "concat (map T [1..<Suc i])"
  have out: "take (unat L) ?out @ take (unat todo) (T (Suc i)) = take (unat L) (concat (map T [1..<Suc (Suc i)]))"
  proof -
    have "take (unat todo) (T (Suc i)) = take (unat L - i * unat hl) (T (Suc i))"
    proof -
      have "unat todo = min (unat L - i * unat hl) (unat hl)"
        using todo(1) Suc.prems(4) by auto
      then show ?thesis
        using T_len(1) by (metis take_take)
    qed
    then show ?thesis
      using length_okm [of md K info i] by (simp add: T_def hl_def del: rfc5869_T.simps)
  qed
  have dn: "unat (dn + todo) = min (unat L) (Suc i * unat hl)"
    using todo(2) Suc.prems(4) by simp
  have num: "(of_nat i + 1 :: u32) = of_nat (Suc i)"
    by simp
  have "HKDF_expand_turns (Suc k) (of_nat i) L hl info (T i) dn (take (unat L) ?out) ms hmac =
      HKDF_expand_turns k (of_nat (Suc i)) L hl info (T (Suc i)) (dn + todo)
        (take (unat L) ?out @ take (unat todo) (T (Suc i))) ms c2"
    unfolding HKDF_expand_turns.simps(2) num counter_byte [of i, unfolded num] Let_def c1(1) [unfolded Let_def]
    by (simp only: c2(1) prod.case option.case if_False not_True_eq_False flip: todo_def)
  also have "\<dots> = (Some (take (unat L) (concat (map T [1..<Suc (Suc i + k)]))), ms)"
    unfolding out by (rule Suc.IH [OF _ _ c2(2) dn]) (use Suc.prems(1) in simp_all)
  finally show ?case
    by (simp only: add_Suc add_Suc_right)
qed simp

lemma too_long:
  fixes L hl :: usize
  assumes "0 < unat hl" "unat hl \<le> 64"
  shows "(L + hl < L \<or> 255 < (L + hl - 1) div hl) \<longleftrightarrow> 255 * unat hl < unat L"
    and "unat L \<le> 255 * unat hl \<Longrightarrow> unat ((L + hl - 1) div hl) = (unat L + unat hl - 1) div unat hl"
proof -
  have n: "unat ((L + hl - 1) div hl) = (unat L + unat hl - 1) div unat hl" if "unat L + unat hl < 2 ^ 64"
  proof -
    have sum: "unat (L + hl) = unat L + unat hl"
      using that by (simp add: unat_add64)
    then have "L + hl \<noteq> 0"
      using assms(1) by auto
    then show ?thesis
      by (simp add: unat_div unat_minus_one sum)
  qed
  then show "unat L \<le> 255 * unat hl \<Longrightarrow> unat ((L + hl - 1) div hl) = (unat L + unat hl - 1) div unat hl"
    using assms(2) by simp
  show "(L + hl < L \<or> 255 < (L + hl - 1) div hl) \<longleftrightarrow> 255 * unat hl < unat L"
  proof (cases "unat L + unat hl < 2 ^ 64")
    case True
    have "256 \<le> (unat L + unat hl - 1) div unat hl \<longleftrightarrow> 256 * unat hl \<le> unat L + unat hl - 1"
      by (rule less_eq_div_iff_mult_less_eq [OF assms(1)])
    then have "255 < (L + hl - 1) div hl \<longleftrightarrow> 255 * unat hl < unat L"
      using n [OF True] assms(1) by (simp only: word_less_nat_alt) auto
    moreover have "\<not> L + hl < L"
      using True by (simp add: word_less_nat_alt unat_add64)
    ultimately show ?thesis
      by simp
  next
    case False
    then have "L + hl < L" "255 * unat hl < unat L"
      using assms unat_lt64 [of hl] by (simp_all add: word_less_nat_alt unat_add64)
    then show ?thesis
      by simp
  qed
qed

lemma size_bounds: "0 < unat (EVP_MD_size md)" "unat (EVP_MD_size md) \<le> 64"
  using evp.size_max [of md] EVP_MD_size_pos [of md] by (simp_all add: EVP_MAX_MD_SIZE_def word_less_nat_alt)

lemma HKDF_expand_cases:
  assumes "length prk < 2 ^ 64" "length info < 2 ^ 64"
  shows "255 * unat (EVP_MD_size md) < unat L \<Longrightarrow> fst (HKDF_expand L md prk info ms) = None"
    and "unat L \<le> 255 * unat (EVP_MD_size md) \<Longrightarrow>
      (case fst (HKDF_expand L md prk info ms) of
         None \<Rightarrow> False \<in> set ms
       | Some out \<Rightarrow> out = rfc5869_expand (hmac_of md prk) (unat (EVP_MD_size md)) info (unat L))"
proof -
  let ?hl = "EVP_MD_size md" and ?n = "(L + EVP_MD_size md - 1) div EVP_MD_size md"
  note long = too_long [OF size_bounds, of L md]
  show "255 * unat ?hl < unat L \<Longrightarrow> fst (HKDF_expand L md prk info ms) = None"
    using long(1) by (auto simp: HKDF_expand_def Let_def)
  assume L: "unat L \<le> 255 * unat ?hl"
  obtain ok ms' hmac where init: "HMAC_Init_ex (Some prk) (Some md) ms (HMAC_CTX_init :: unit HMAC_CTX) = (ok, ms', hmac)"
    by (metis prod_cases3)
  have expand: "HKDF_expand L md prk info ms =
      (if \<not> ok then (None, ms') else HKDF_expand_turns (unat ?n) 0 L ?hl info [] 0 [] ms' hmac)"
    using long(1) L by (auto simp: HKDF_expand_def Let_def init)
  show "case fst (HKDF_expand L md prk info ms) of
         None \<Rightarrow> False \<in> set ms
       | Some out \<Rightarrow> out = rfc5869_expand (hmac_of md prk) (unat ?hl) info (unat L)"
  proof (cases ok)
    case True
    note start = evp.init_macing [OF init [unfolded eqTrueI [OF True]] _ assms(1), simplified]
    have "unat ?n < 256"
      using long(1) L by (simp add: word_less_nat_alt)
    moreover have "unat L + unat ?hl < 2 ^ 64"
      using L size_bounds(2) [of md] by simp
    moreover have "evp.keyed md prk hmac"
      using start by (simp add: evp.macing_def)
    ultimately have "HKDF_expand_turns (unat ?n) 0 L ?hl info [] 0 [] ms' hmac =
        (Some (take (unat L) (concat (map (rfc5869_T (hmac_of md prk) info) [1..<Suc (unat ?n)]))), ms')"
      using HKDF_turns [of L md info 0 "unat ?n" prk hmac 0 ms'] assms(2) start by simp
    then show ?thesis
      using True by (simp only: expand rfc5869_expand_def long(2) [OF L] not_True_eq_False if_False fst_conv option.case)
  next
    case False
    then show ?thesis
      using HMAC_Init_ok [of ms "HMAC_CTX_init :: unit HMAC_CTX" prk md] assms(1) init by (auto simp: expand)
  qed
qed

lemma hmac_zero_key: "hmac_of md (replicate (unat (EVP_MD_size md)) 0) = hmac_of md []"
proof -
  have "unat (EVP_MD_size md) \<le> unat (EVP_MD_block_size md)"
    using evp.size_block [of md] by (simp add: word_le_nat_alt)
  then have "rfc2104_key H (unat (EVP_MD_block_size md)) (replicate (unat (EVP_MD_size md)) 0) =
      rfc2104_key H (unat (EVP_MD_block_size md)) []" for H
    by (simp add: rfc2104_key_def flip: replicate_add)
  then show ?thesis
    by (simp add: hmac_of_def rfc2104_def ipad_def opad_def fun_eq_iff)
qed

lemma extract_salt: "rfc5869_extract md salt secret = hmac_of md (case salt of None \<Rightarrow> [] | Some s \<Rightarrow> s) secret"
  by (cases salt) (simp_all add: rfc5869_extract_def hmac_zero_key)

lemma HKDF_extract_cases:
  assumes "length (case salt of None \<Rightarrow> [] | Some s \<Rightarrow> s) < 2 ^ 64" "length secret < 2 ^ 64"
  shows "(\<exists>ms'. HKDF_extract md secret salt ms = (None, ms') \<and> False \<in> set ms) \<or>
    (\<exists>ms'. HKDF_extract md secret salt ms = (Some (rfc5869_extract md salt secret), ms') \<and>
       (False \<in> set ms' \<longrightarrow> False \<in> set ms))"
  using HMAC_cases [OF assms, of md ms] by (auto simp: HKDF_extract_def extract_salt)

section \<open>PBKDF2\<close>

lemma i_bytes_be: "i_bytes (of_nat i) = be_bytes 4 i"
proof -
  have "i_bytes (of_nat i) = be_bytes 4 (unat (of_nat i :: u32))"
    using HOST_l2c_eq(1) [of "of_nat i"] by (simp add: i_bytes_def HOST_l2c_def)
  also have "\<dots> = be_bytes 4 i"
    using le_bytes_mod [of 4 i] by (simp add: be_bytes_def unat_of_nat take_bit_eq_mod)
  finally show ?thesis .
qed

lemma take_map2: "take n (map2 f xs ys) = map2 f (take n xs) (take n ys)"
  by (simp add: take_map take_zip)

lemma length_U_F:
  "length (rfc8018_U (hmac_of md P) S i c) = unat (EVP_MD_size md)"
  "length (rfc8018_F (hmac_of md P) S i c) = unat (EVP_MD_size md)"
proof -
  show U: "length (rfc8018_U (hmac_of md P) S i c) = unat (EVP_MD_size md)" for c
    by (cases c) (simp_all add: length_hmac_of)
  show "length (rfc8018_F (hmac_of md P) S i c) = unat (EVP_MD_size md)"
    by (induction c) (simp_all add: U del: rfc8018_U.simps)
qed

lemma PBKDF2_xor_F:
  fixes md P S i
  defines "U \<equiv> rfc8018_U (hmac_of md P) S i" and "F \<equiv> rfc8018_F (hmac_of md P) S i"
  assumes "evp.keyed md P hctx"
  shows "\<exists>hctx'. PBKDF2_xor k (EVP_MD_size md) todo (U j) (take (unat todo) (F j)) ms hctx =
      (True, take (unat todo) (F (j + k)), ms, hctx') \<and> evp.keyed md P hctx'"
  using assms(3)
proof (induction k arbitrary: j hctx)
  case (Suc k)
  obtain c where c: "HMAC_Init_ex None None ms hctx = (True, ms, c)" "evp.macing md P [] c"
    using evp.rekey_macing [OF Suc.prems] by blast
  have U: "take (unat (EVP_MD_size md)) (U j) = U j" "length (U j) < 2 ^ 64"
    using unat_lt64 [of "EVP_MD_size md"] by (simp_all add: U_def length_U_F)
  obtain c' where c': "HMAC_Final ms (HMAC_Update (U j) c) = (Some (U (Suc j), md_size (env_md md)), ms, c')"
    "evp.keyed md P c'"
    using HMAC_final [OF evp.update_macing [OF c(2) U(2)], of ms] by (auto simp: U_def)
  have "map2 (XOR) (take (unat todo) (F j)) (take (unat todo) (U (Suc j))) = take (unat todo) (F (Suc j))"
    by (simp add: U_def F_def take_map2)
  then show ?case
    using Suc.IH [OF c'(2), of "Suc j"] by (simp add: c(1) U(1) c'(1))
qed simp

lemma PBKDF2_blocks_F:
  fixes md P S c
  defines "F \<equiv> \<lambda>i. rfc8018_F (hmac_of md P) S i (unat c - 1)" and "hl \<equiv> unat (EVP_MD_size md)"
  assumes "evp.keyed md P hctx" "length S < 2 ^ 64" "unat L \<le> m * hl"
  shows "PBKDF2_blocks md S c (of_nat i) L out ms hctx = (True, out @ take (unat L) (concat (map F [i..<i + m])), ms)"
  using assms(3,5)
proof (induction m arbitrary: i L out hctx)
  case 0
  then show ?case
    by (simp add: PBKDF2_blocks.simps [of md S c "of_nat i" 0] unat_eq_0)
next
  case (Suc m)
  show ?case
  proof (cases "L = 0")
    case True
    then show ?thesis
      by (simp add: PBKDF2_blocks.simps [of md S c "of_nat i" 0])
  next
    case False
    define todo where "todo = (if L < EVP_MD_size md then L else EVP_MD_size md)"
    obtain h1 where h1: "HMAC_Init_ex None None ms hctx = (True, ms, h1)" "evp.macing md P [] h1"
      using evp.rekey_macing [OF Suc.prems(1)] by blast
    have "evp.macing md P (S @ be_bytes 4 i) (HMAC_Update (i_bytes (of_nat i)) (HMAC_Update S h1))"
      using evp.update_macing [OF evp.update_macing [OF h1(2) assms(4)], of "i_bytes (of_nat i)"] by (simp add: i_bytes_be)
    then obtain h2 where h2: "HMAC_Final ms (HMAC_Update (i_bytes (of_nat i)) (HMAC_Update S h1)) =
        (Some (rfc8018_U (hmac_of md P) S i 0, md_size (env_md md)), ms, h2)" "evp.keyed md P h2"
      using HMAC_final [of md P _ _ ms] unfolding rfc8018_U.simps(1) by blast
    obtain h3 where h3: "PBKDF2_xor (unat c - 1) (EVP_MD_size md) todo (rfc8018_U (hmac_of md P) S i 0)
        (take (unat todo) (rfc8018_U (hmac_of md P) S i 0)) ms h2 = (True, take (unat todo) (F i), ms, h3)" "evp.keyed md P h3"
      using PBKDF2_xor_F [OF h2(2), of "unat c - 1" todo S i 0 ms] unfolding F_def rfc8018_F.simps(1) add_0 by blast
    have todo: "unat todo = min (unat L) hl" "unat (L - todo) = unat L - unat todo" "todo \<le> L"
      unfolding todo_def hl_def by (auto simp: word_less_nat_alt word_le_nat_alt unat_sub)
    have "unat (L - todo) \<le> m * hl"
      using todo Suc.prems(2) by auto
    note rest = Suc.IH [OF h3(2) this, of "Suc i" "out @ take (unat todo) (F i)"]
    have "PBKDF2_blocks md S c (of_nat i) L out ms hctx =
        PBKDF2_blocks md S c (of_nat (Suc i)) (L - todo) (out @ take (unat todo) (F i)) ms h3"
      unfolding PBKDF2_blocks.simps [of md S c "of_nat i" L] Let_def h1(1)
      using False h2(1) h3(1) by (simp add: add.commute flip: todo_def)
    moreover have "take (unat L) (concat (map F [i..<i + Suc m])) =
        take (unat todo) (F i) @ take (unat (L - todo)) (concat (map F [Suc i..<Suc i + m]))"
    proof -
      have blocks: "[i..<i + Suc m] = i # [Suc i..<Suc i + m]"
        by (simp add: upt_conv_Cons)
      have "length (F i) = hl"
        by (simp add: F_def hl_def length_U_F)
      moreover have "take (unat todo) (F i) = take (unat L) (F i)" "unat (L - todo) = unat L - hl"
        using todo calculation by (simp_all add: min_def)
      ultimately show ?thesis
        unfolding blocks by simp
    qed
    ultimately show ?thesis
      using rest by simp
  qed
qed

lemma PBKDF2_cases:
  assumes "length P < 2 ^ 64" "length S < 2 ^ 64"
  shows "(\<exists>ms'. PKCS5_PBKDF2_HMAC P S c md key_len ms = (False, [], ms') \<and> False \<in> set ms) \<or>
    (\<exists>ms'. PKCS5_PBKDF2_HMAC P S c md key_len ms = (c \<noteq> 0, rfc8018 md P S (max 1 (unat c)) (unat key_len), ms'))"
proof -
  let ?hl = "unat (EVP_MD_size md)" and ?F = "\<lambda>i. rfc8018_F (hmac_of md P) S i (unat c - 1)"
  define l where "l = (unat key_len + ?hl - 1) div ?hl"
  obtain ok ms' hctx where init: "HMAC_Init_ex (Some P) (Some md) ms (HMAC_CTX_init :: unit HMAC_CTX) = (ok, ms', hctx)"
    by (metis prod_cases3)
  show ?thesis
  proof (cases ok)
    case True
    have "evp.keyed md P hctx"
      using evp.init_macing [OF init [unfolded eqTrueI [OF True]] _ assms(1)] by (simp add: evp.macing_def)
    moreover have "unat key_len \<le> l * ?hl"
    proof -
      have "unat key_len + ?hl - 1 < (l + 1) * ?hl"
        unfolding l_def using size_bounds(1) [of md] dividend_less_div_times [of ?hl "unat key_len + ?hl - 1"] by simp
      then show ?thesis
        by simp
    qed
    ultimately have "PBKDF2_blocks md S c (of_nat 1) key_len [] ms' hctx =
        (True, [] @ take (unat key_len) (concat (map ?F [1..<1 + l])), ms')"
      by (rule PBKDF2_blocks_F [OF _ assms(2)])
    moreover have "max 1 (unat c) - 1 = unat c - 1"
      by simp
    ultimately show ?thesis
      using True by (auto simp: PKCS5_PBKDF2_HMAC_def init rfc8018_def Let_def l_def)
  next
    case False
    then show ?thesis
      using HMAC_Init_ok [of ms "HMAC_CTX_init :: unit HMAC_CTX" P md] assms(1) init
      by (auto simp: PKCS5_PBKDF2_HMAC_def)
  qed
qed

section \<open>Properties\<close>

text \<open>
  Claim C19: \<open>HKDF\<close> gives the output keying material that RFC 5869 defines with HMAC over the method's digest, a
  null salt standing for \<open>HashLen\<close> zeros.  It fails whenever more than \<open>255 * HashLen\<close> bytes are asked for, sizes
  for which the count of blocks wraps around included, and otherwise only if a \<open>malloc\<close> fails.
\<close>

theorem HKDF_rfc5869:
  assumes "length (case salt of None \<Rightarrow> [] | Some s \<Rightarrow> s) < 2 ^ 64" "length secret < 2 ^ 64" "length info < 2 ^ 64"
  shows "case fst (HKDF L md secret salt info ms) of
      None \<Rightarrow> 255 * unat (EVP_MD_size md) < unat L \<or> False \<in> set ms
    | Some out \<Rightarrow> unat L \<le> 255 * unat (EVP_MD_size md) \<and> out = rfc5869 md salt secret info (unat L)"
proof -
  have prk: "length (rfc5869_extract md salt secret) < 2 ^ 64"
    using unat_lt64 [of "EVP_MD_size md"] by (simp add: extract_salt length_hmac_of)
  note expand = HKDF_expand_cases [OF prk assms(3), where md = md and L = L]
  from HKDF_extract_cases [OF assms(1,2), of md ms] show ?thesis
  proof (elim disjE exE conjE)
    fix ms' assume *: "HKDF_extract md secret salt ms = (Some (rfc5869_extract md salt secret), ms')"
      "False \<in> set ms' \<longrightarrow> False \<in> set ms"
    then show ?thesis
      using expand(1) [of ms'] expand(2) [of ms']
      by (cases "unat L \<le> 255 * unat (EVP_MD_size md)") (auto simp: HKDF_def rfc5869_def split: option.splits)
  qed (simp add: HKDF_def)
qed

text \<open>With an allocator that does not fail: 3 bytes from SHA-256, and one byte more than SHA-256 can give.\<close>

lemma HKDF_rfc5869_witness:
  "fst (HKDF 3 EVP_sha256 [1] None [2] []) = Some (rfc5869 EVP_sha256 None [1] [2] 3) \<and>
   fst (HKDF 8161 EVP_sha256 [1] (Some [7]) [2] []) = None"
  using HKDF_rfc5869 [where L = 3 and md = EVP_sha256 and secret = "[1]" and salt = None and info = "[2]" and ms = "[]"]
    HKDF_rfc5869 [where L = 8161 and md = EVP_sha256 and secret = "[1]" and salt = "Some [7]" and info = "[2]" and ms = "[]"]
  by (simp add: EVP_MD_size_def methods split: option.splits)

text \<open>
  Claim C20: \<open>PKCS5_PBKDF2_HMAC\<close> writes the key that RFC 8018 derives with HMAC over the method's digest, its block
  number taken modulo \<open>2 ^ 32\<close>; an iteration count of 0 is answered with an error, and the key of one iteration
  written all the same; and the other failure, with nothing written, comes from \<open>malloc\<close>.
\<close>

theorem PBKDF2_rfc8018:
  assumes "length P < 2 ^ 64" "length S < 2 ^ 64"
  shows "case PKCS5_PBKDF2_HMAC P S c md key_len ms of (ok, out, ms') \<Rightarrow>
    (ok \<longrightarrow> c \<noteq> 0 \<and> out = rfc8018 md P S (unat c) (unat key_len)) \<and>
    (c = 0 \<and> False \<notin> set ms \<longrightarrow> \<not> ok \<and> out = rfc8018 md P S 1 (unat key_len)) \<and>
    (c \<noteq> 0 \<and> \<not> ok \<longrightarrow> out = [] \<and> False \<in> set ms)"
proof -
  have "c \<noteq> 0 \<Longrightarrow> max 1 (unat c) = unat c"
    by (simp add: max_def Suc_le_eq unat_gt_0)
  then show ?thesis
    using PBKDF2_cases [OF assms, of c md key_len ms] by (cases "c = 0") auto
qed

lemma PBKDF2_rfc8018_witness:
  "(case PKCS5_PBKDF2_HMAC_SHA1 [0x70] [0x73] 2 20 [] of (ok, out, ms') \<Rightarrow>
      ok \<and> out = rfc8018 EVP_sha1 [0x70] [0x73] 2 20) \<and>
   \<not> fst (PKCS5_PBKDF2_HMAC [0x70] [0x73] 0 EVP_sha256 20 [])"
  using PBKDF2_rfc8018 [where P = "[0x70]" and S = "[0x73]" and c = 2 and md = EVP_sha1 and key_len = 20 and ms = "[]"]
    PBKDF2_rfc8018 [where P = "[0x70]" and S = "[0x73]" and c = 0 and md = EVP_sha256 and key_len = 20 and ms = "[]"]
  by (auto simp: PKCS5_PBKDF2_HMAC_SHA1_def split: prod.splits)

end
