(* ===== verification/RSA_Padding.thy ===== *)
theory RSA_Padding
  imports KDF Constant_Time
begin

text \<open>
  \<open>crypto/fipsmodule/rsa/padding.c\<close> (BoringSSL): the paddings of PKCS #1, version 1.5 for signatures (type 1) and
  for encryption (type 2), OAEP and PSS.

  The output buffer is a byte list that a function returns updated, on its failing paths too; \<open>Inl\<close> is a return
  of 0 with the reason it pushed to the error queue.  \<open>RAND_bytes\<close> is the parameter \<open>rng\<close> over a state of the
  random source; the outcomes of \<open>malloc\<close> are those of \<open>Digest\<close>.  Of the RSA key, PSS reads the number of bits
  of the modulus, \<open>BN_num_bits(rsa->n)\<close>.
\<close>

datatype rsa_reason =
    RSA_R_KEY_SIZE_TOO_SMALL
  | RSA_R_DIGEST_TOO_BIG_FOR_RSA_KEY
  | RSA_R_DATA_TOO_SMALL
  | RSA_R_DATA_TOO_LARGE
  | RSA_R_BLOCK_TYPE_IS_NOT_01
  | RSA_R_BAD_FIXED_HEADER_DECRYPT
  | RSA_R_NULL_BEFORE_BLOCK_MISSING
  | RSA_R_BAD_PAD_BYTE_COUNT
  | RSA_R_EMPTY_PUBLIC_KEY
  | RSA_R_PKCS_DECODING_ERROR
  | RSA_R_OAEP_DECODING_ERROR
  | RSA_R_SLEN_CHECK_FAILED
  | RSA_R_FIRST_OCTET_INVALID
  | RSA_R_LAST_OCTET_INVALID
  | RSA_R_SLEN_RECOVERY_FAILED
  | RSA_R_BAD_SIGNATURE
  | ERR_R_MALLOC_FAILURE
  | Callee_failed

text \<open>\<open>Callee_failed\<close> is a return of 0 where only a function that was called has pushed a reason.\<close>

type_synonym 'r rng = "'r \<Rightarrow> usize \<Rightarrow> bytes option \<times> 'r"

definition RSA_PKCS1_PADDING_SIZE :: usize where "RSA_PKCS1_PADDING_SIZE = 11"

section \<open>Version 1.5, for signatures\<close>

definition RSA_padding_add_PKCS1_type_1 :: "bytes \<Rightarrow> bytes \<Rightarrow> (rsa_reason + unit) \<times> bytes" where
  "RSA_padding_add_PKCS1_type_1 to frm =
     (let to_len = (of_nat (length to) :: usize); from_len = of_nat (length frm)
      in if to_len < RSA_PKCS1_PADDING_SIZE then (Inl RSA_R_KEY_SIZE_TOO_SMALL, to)
         else if to_len - RSA_PKCS1_PADDING_SIZE < from_len then (Inl RSA_R_DIGEST_TOO_BIG_FOR_RSA_KEY, to)
         else
           let to = to[0 := 0];
               to = to[1 := 1];
               to = mem_write to 2 (replicate (unat (to_len - 3 - from_len)) 0xff);
               to = to[unat (to_len - from_len - 1) := 0];
               to = mem_write to (unat (to_len - from_len)) frm
           in (Inr (), to))"

text \<open>The scan for the end of the padding, from index \<open>pad\<close> with the bytes that follow.\<close>

primrec scan_type_1 :: "bytes \<Rightarrow> nat \<Rightarrow> rsa_reason + nat" where
  "scan_type_1 [] pad = Inr pad"
| "scan_type_1 (b # bs) pad =
     (if b = 0 then Inr pad
      else if b \<noteq> 0xff then Inl RSA_R_BAD_FIXED_HEADER_DECRYPT
      else scan_type_1 bs (pad + 1))"

text \<open>The result is what is written to \<open>out\<close>; its length is stored at \<open>out_len\<close>.\<close>

definition RSA_padding_check_PKCS1_type_1 :: "usize \<Rightarrow> bytes \<Rightarrow> rsa_reason + bytes" where
  "RSA_padding_check_PKCS1_type_1 max_out frm =
     (let from_len = length frm
      in if from_len < 2 then Inl RSA_R_DATA_TOO_SMALL
         else if frm ! 0 \<noteq> 0 \<or> frm ! 1 \<noteq> 1 then Inl RSA_R_BLOCK_TYPE_IS_NOT_01
         else case scan_type_1 (drop 2 frm) 2 of
             Inl e \<Rightarrow> Inl e
           | Inr pad \<Rightarrow>
               if pad = from_len then Inl RSA_R_NULL_BEFORE_BLOCK_MISSING
               else if pad < 2 + 8 then Inl RSA_R_BAD_PAD_BYTE_COUNT
               else let pad = pad + 1
                    in if unat max_out < from_len - pad then Inl RSA_R_DATA_TOO_LARGE
                       else Inr (drop pad frm))"

section \<open>Version 1.5, for encryption\<close>

text \<open>
  \<open>while (out[i] == 0)\<close> draws until a byte is not zero, which may never happen: no result is a loop without end.
\<close>

partial_function (option) rand_nonzero_byte :: "'r rng \<Rightarrow> u8 \<Rightarrow> 'r \<Rightarrow> (u8 option \<times> 'r) option" where
  "rand_nonzero_byte rng b r =
     (if b = 0
      then (case rng r 1 of (drawn, r) \<Rightarrow>
              (case drawn of None \<Rightarrow> Some (None, r) | Some bs \<Rightarrow> rand_nonzero_byte rng (bs ! 0) r))
      else Some (Some b, r))"

primrec rand_nonzero_bytes :: "'r rng \<Rightarrow> bytes \<Rightarrow> 'r \<Rightarrow> (bytes option \<times> 'r) option" where
  "rand_nonzero_bytes rng [] r = Some (Some [], r)"
| "rand_nonzero_bytes rng (b # out) r =
     (case rand_nonzero_byte rng b r of
        None \<Rightarrow> None
      | Some (None, r) \<Rightarrow> Some (None, r)
      | Some (Some b, r) \<Rightarrow>
          (case rand_nonzero_bytes rng out r of
             None \<Rightarrow> None
           | Some (None, r) \<Rightarrow> Some (None, r)
           | Some (Some out, r) \<Rightarrow> Some (Some (b # out), r)))"

definition rand_nonzero :: "'r rng \<Rightarrow> usize \<Rightarrow> 'r \<Rightarrow> (bytes option \<times> 'r) option" where
  "rand_nonzero rng len r =
     (case rng r len of
        (None, r) \<Rightarrow> Some (None, r)
      | (Some out, r) \<Rightarrow> rand_nonzero_bytes rng out r)"

text \<open>If the random source fails, what it leaves in the padding is not specified; here it is the old contents.\<close>

definition RSA_padding_add_PKCS1_type_2 ::
  "'r rng \<Rightarrow> bytes \<Rightarrow> bytes \<Rightarrow> 'r \<Rightarrow> ((rsa_reason + unit) \<times> bytes \<times> 'r) option" where
  "RSA_padding_add_PKCS1_type_2 rng to frm r =
     (let to_len = (of_nat (length to) :: usize); from_len = of_nat (length frm)
      in if to_len < RSA_PKCS1_PADDING_SIZE then Some (Inl RSA_R_KEY_SIZE_TOO_SMALL, to, r)
         else if to_len - RSA_PKCS1_PADDING_SIZE < from_len then Some (Inl RSA_R_DATA_TOO_LARGE, to, r)
         else
           let to = to[0 := 0];
               to = to[1 := 2];
               padding_len = to_len - 3 - from_len
           in case rand_nonzero rng padding_len r of
                None \<Rightarrow> None
              | Some (None, r) \<Rightarrow> Some (Inl Callee_failed, to, r)
              | Some (Some padding, r) \<Rightarrow>
                  let to = mem_write to 2 padding;
                      to = to[unat (2 + padding_len) := 0];
                      to = mem_write to (unat (to_len - from_len)) frm
                  in Some (Inr (), to, r))"

text \<open>The body of the loop over the bytes; the state is \<open>(zero_index, looking_for_index)\<close>.\<close>

definition type_2_step :: "bytes \<Rightarrow> nat \<Rightarrow> crypto_word_t \<times> crypto_word_t \<Rightarrow> crypto_word_t \<times> crypto_word_t" where
  "type_2_step frm i s =
     (let (zero_index, looking_for_index) = s;
          equals0 = constant_time_is_zero_w (ucast (frm ! i));
          zero_index = constant_time_select_w (looking_for_index AND equals0) (of_nat i) zero_index;
          looking_for_index = constant_time_select_w equals0 0 looking_for_index
      in (zero_index, looking_for_index))"

definition CONSTTIME_TRUE_W :: crypto_word_t where "CONSTTIME_TRUE_W = NOT 0"

definition RSA_padding_check_PKCS1_type_2 :: "usize \<Rightarrow> bytes \<Rightarrow> rsa_reason + bytes" where
  "RSA_padding_check_PKCS1_type_2 max_out frm =
     (let from_len = (of_nat (length frm) :: usize)
      in if from_len = 0 then Inl RSA_R_EMPTY_PUBLIC_KEY
         else if from_len < RSA_PKCS1_PADDING_SIZE then Inl RSA_R_KEY_SIZE_TOO_SMALL
         else
           let first_byte_is_zero = constant_time_eq_w (ucast (frm ! 0)) 0;
               second_byte_is_two = constant_time_eq_w (ucast (frm ! 1)) 2;
               (zero_index, looking_for_index) = fold (type_2_step frm) [2..<length frm] (0, CONSTTIME_TRUE_W);
               valid_index = first_byte_is_zero;
               valid_index = valid_index AND second_byte_is_two;
               valid_index = valid_index AND NOT looking_for_index;
               valid_index = valid_index AND constant_time_ge_w zero_index (2 + 8);
               zero_index = zero_index + 1
           in if valid_index = 0 then Inl RSA_R_PKCS_DECODING_ERROR
              else
                let msg_len = from_len - zero_index
                in if max_out < msg_len then Inl RSA_R_PKCS_DECODING_ERROR
                   else Inr (take (unat msg_len) (drop (unat zero_index) frm)))"

definition RSA_padding_add_none :: "bytes \<Rightarrow> bytes \<Rightarrow> (rsa_reason + unit) \<times> bytes" where
  "RSA_padding_add_none to frm =
     (if length to < length frm then (Inl RSA_R_DATA_TOO_LARGE, to)
      else if length frm < length to then (Inl RSA_R_DATA_TOO_SMALL, to)
      else (Inr (), mem_write to 0 frm))"

section \<open>The mask generation function\<close>

definition counter_bytes :: "u32 \<Rightarrow> bytes" where
  "counter_bytes i = [ucast (drop_bit 24 i), ucast (drop_bit 16 i), ucast (drop_bit 8 i), ucast i]"

text \<open>\<open>for (uint32_t i = 0; len > 0; i++)\<close>; the result says whether no call failed, and what was written to \<open>out\<close>.\<close>

function MGF1_turns ::
  "EVP_MD \<Rightarrow> bytes \<Rightarrow> u32 \<Rightarrow> usize \<Rightarrow> bytes \<Rightarrow> mallocs \<Rightarrow> unit EVP_MD_CTX \<Rightarrow> bool \<times> bytes \<times> mallocs" where
  "MGF1_turns md seed i len out ms ctx =
     (if len = 0 then (True, out, ms)
      else
        let md_len = EVP_MD_size md;
            (ok, ms, ctx) = EVP_DigestInit_ex md ms ctx
        in if \<not> ok then (False, out, ms)
           else
             let ctx = EVP_DigestUpdate seed ctx;
                 ctx = EVP_DigestUpdate (counter_bytes i) ctx
             in if md_len \<le> len
                then let (digest, n, ctx) = EVP_DigestFinal_ex ctx
                     in MGF1_turns md seed (i + 1) (len - md_len) (out @ digest) ms ctx
                else let (w, n, ctx) = EVP_DigestFinal_ex ctx;
                         digest = mem_write (replicate EVP_MAX_MD_SIZE 0) 0 w
                     in MGF1_turns md seed (i + 1) 0 (out @ take (unat len) digest) ms ctx)"
  by pat_completeness auto
termination
  by (relation "measure (\<lambda>(md, seed, i, len, out, ms, ctx). unat len)")
    (use EVP_MD_size_pos in \<open>auto simp: block_shrinks not_less unat_gt_0\<close>)

declare MGF1_turns.simps [simp del]

definition PKCS1_MGF1 :: "usize \<Rightarrow> bytes \<Rightarrow> EVP_MD \<Rightarrow> mallocs \<Rightarrow> bool \<times> bytes \<times> mallocs" where
  "PKCS1_MGF1 len seed md ms = MGF1_turns md seed 0 len [] ms EVP_MD_CTX_init"

section \<open>OAEP\<close>

text \<open>\<open>for (i = 0; i < n; i++) a[i] ^= b[i];\<close> over two blocks of \<open>n\<close> bytes\<close>

definition xor_bytes :: "bytes \<Rightarrow> bytes \<Rightarrow> bytes" where
  "xor_bytes a b = map2 (\<lambda>x y. x XOR y) a b"

text \<open>The digests that null pointers stand for.\<close>

definition oaep_md :: "EVP_MD option \<Rightarrow> EVP_MD" where
  "oaep_md md = (case md of None \<Rightarrow> EVP_sha1 | Some m \<Rightarrow> m)"

definition mgf1_md :: "EVP_MD option \<Rightarrow> EVP_MD \<Rightarrow> EVP_MD" where
  "mgf1_md mgf1md md = (case mgf1md of None \<Rightarrow> md | Some m \<Rightarrow> m)"

text \<open>
  \<open>RSA_padding_add_PKCS1_OAEP_mgf1\<close> once the seed and the data block are written: both are masked in place, the seed
  with a mask from the masked data block.
\<close>

definition oaep_mask ::
  "usize \<Rightarrow> usize \<Rightarrow> EVP_MD \<Rightarrow> bytes \<Rightarrow> mallocs \<Rightarrow> (rsa_reason + unit) \<times> bytes \<times> mallocs" where
  "oaep_mask mdlen dblen mgf1md to ms =
     (let seed = 1;
          db = unat (mdlen + 1);
          (ok, ms) = next_malloc ms
      in if \<not> ok then (Inl ERR_R_MALLOC_FAILURE, to, ms)
         else
           let (ok, dbmask, ms) = PKCS1_MGF1 dblen (take (unat mdlen) (drop seed to)) mgf1md ms
           in if \<not> ok then (Inl Callee_failed, to, ms)
              else
                let to = mem_write to db (xor_bytes (take (unat dblen) (drop db to)) dbmask);
                    (ok, seedmask, ms) = PKCS1_MGF1 mdlen (take (unat dblen) (drop db to)) mgf1md ms
                in if \<not> ok then (Inl Callee_failed, to, ms)
                   else
                     let to = mem_write to seed (xor_bytes (take (unat mdlen) (drop seed to)) seedmask)
                     in (Inr (), to, ms))"

definition RSA_padding_add_PKCS1_OAEP_mgf1 ::
  "'r rng \<Rightarrow> bytes \<Rightarrow> bytes \<Rightarrow> bytes \<Rightarrow> EVP_MD option \<Rightarrow> EVP_MD option \<Rightarrow> mallocs \<Rightarrow> 'r \<Rightarrow>
     (rsa_reason + unit) \<times> bytes \<times> mallocs \<times> 'r" where
  "RSA_padding_add_PKCS1_OAEP_mgf1 rng to frm param md mgf1md ms r =
     (let md = oaep_md md;
          mgf1md = mgf1_md mgf1md md;
          mdlen = EVP_MD_size md;
          to_len = of_nat (length to);
          from_len = of_nat (length frm)
      in if to_len < 2 * mdlen + 2 then (Inl RSA_R_KEY_SIZE_TOO_SMALL, to, ms, r)
         else
           let emlen = to_len - 1
           in if emlen - 2 * mdlen - 1 < from_len then (Inl RSA_R_DATA_TOO_LARGE, to, ms, r)
              else if emlen < 2 * mdlen + 1 then (Inl RSA_R_KEY_SIZE_TOO_SMALL, to, ms, r)
              else
                let to = to[0 := 0];
                    seed = 1;
                    db = unat (mdlen + 1);
                    dblen = emlen - mdlen
                in case EVP_Digest param md ms of
                     (None, ms) \<Rightarrow> (Inl Callee_failed, to, ms, r)
                   | (Some (phash, n), ms) \<Rightarrow>
                       let to = mem_write to db phash;
                           to = mem_write to (db + unat mdlen) (replicate (unat (emlen - from_len - 2 * mdlen - 1)) 0);
                           to = to[db + unat (emlen - from_len - mdlen - 1) := 1];
                           to = mem_write to (db + unat (emlen - from_len - mdlen)) frm
                       in case rng r mdlen of
                            (None, r) \<Rightarrow> (Inl Callee_failed, to, ms, r)
                          | (Some rand, r) \<Rightarrow>
                              (case oaep_mask mdlen dblen mgf1md (mem_write to seed rand) ms of
                                 (res, to, ms) \<Rightarrow> (res, to, ms, r)))"

text \<open>The body of the loop over the data block; the state is \<open>(looking_for_one_byte, one_index, bad)\<close>.\<close>

definition oaep_step ::
  "bytes \<Rightarrow> nat \<Rightarrow> crypto_word_t \<times> usize \<times> crypto_word_t \<Rightarrow> crypto_word_t \<times> usize \<times> crypto_word_t" where
  "oaep_step db i s =
     (let (looking_for_one_byte, one_index, bad) = s;
          equals1 = constant_time_eq_w (ucast (db ! i)) 1;
          equals0 = constant_time_eq_w (ucast (db ! i)) 0;
          one_index = constant_time_select_w (looking_for_one_byte AND equals1) (of_nat i) one_index;
          looking_for_one_byte = constant_time_select_w equals1 0 looking_for_one_byte;
          bad = bad OR (looking_for_one_byte AND NOT equals0)
      in (looking_for_one_byte, one_index, bad))"

text \<open>The decoded data block, and whether it is bad.\<close>

definition oaep_scan :: "bytes \<Rightarrow> u8 \<Rightarrow> bytes \<Rightarrow> usize \<Rightarrow> crypto_word_t \<times> usize" where
  "oaep_scan db first phash mdlen =
     (let bad = NOT (constant_time_is_zero_w (of_int (CRYPTO_memcmp db phash mdlen)));
          bad = bad OR NOT (constant_time_is_zero_w (ucast first));
          (looking_for_one_byte, one_index, bad) = fold (oaep_step db) [unat mdlen..<length db] (CONSTTIME_TRUE_W, 0, bad);
          bad = bad OR looking_for_one_byte
      in (bad, one_index))"

definition RSA_padding_check_PKCS1_OAEP_mgf1 ::
  "usize \<Rightarrow> bytes \<Rightarrow> bytes \<Rightarrow> EVP_MD option \<Rightarrow> EVP_MD option \<Rightarrow> mallocs \<Rightarrow> (rsa_reason + bytes) \<times> mallocs" where
  "RSA_padding_check_PKCS1_OAEP_mgf1 max_out frm param md mgf1md ms =
     (let md = oaep_md md;
          mgf1md = mgf1_md mgf1md md;
          mdlen = EVP_MD_size md;
          from_len = of_nat (length frm)
      in if from_len < 1 + 2 * mdlen + 1 then (Inl RSA_R_OAEP_DECODING_ERROR, ms)
         else
           let dblen = from_len - mdlen - 1;
               (ok, ms) = next_malloc ms
           in if \<not> ok then (Inl ERR_R_MALLOC_FAILURE, ms)
              else
                let maskedseed = take (unat mdlen) (drop 1 frm);
                    maskeddb = take (unat dblen) (drop (unat (1 + mdlen)) frm);
                    (ok, seed, ms) = PKCS1_MGF1 mdlen maskeddb mgf1md ms
                in if \<not> ok then (Inl Callee_failed, ms)
                   else
                     let seed = xor_bytes seed maskedseed;
                         (ok, db, ms) = PKCS1_MGF1 dblen seed mgf1md ms
                     in if \<not> ok then (Inl Callee_failed, ms)
                        else
                          let db = xor_bytes db maskeddb
                          in case EVP_Digest param md ms of
                               (None, ms) \<Rightarrow> (Inl Callee_failed, ms)
                             | (Some (phash, n), ms) \<Rightarrow>
                                 let (bad, one_index) = oaep_scan db (frm ! 0) phash mdlen
                                 in if bad \<noteq> 0 then (Inl RSA_R_OAEP_DECODING_ERROR, ms)
                                    else
                                      let one_index = one_index + 1;
                                          mlen = dblen - one_index
                                      in if max_out < mlen then (Inl RSA_R_DATA_TOO_LARGE, ms)
                                         else (Inr (take (unat mlen) (drop (unat one_index) db)), ms))"

end
