(* ===== verification/RSA_Padding_Props.thy ===== *)
theory RSA_Padding_Props
  imports RSA_Padding
begin

text \<open>
  The paddings against RFC 8017: the checks accept exactly the encodings that the standard defines, the
  constant-time ones included, and what the functions that pad write is read back.
\<close>

section \<open>Sizes\<close>

lemma size_sub:
  assumes "n < 2 ^ 64" "m \<le> n"
  shows "(of_nat n :: usize) - of_nat m = of_nat (n - m)"
  using assms(2) by (simp add: of_nat_diff)

lemma size_le: "n < 2 ^ 64 \<Longrightarrow> m < 2 ^ 64 \<Longrightarrow> (of_nat n :: usize) \<le> of_nat m \<longleftrightarrow> n \<le> m"
  by (simp only: word_le_nat_alt unat_size)

lemma size_less: "n < 2 ^ 64 \<Longrightarrow> m < 2 ^ 64 \<Longrightarrow> (of_nat n :: usize) < of_nat m \<longleftrightarrow> n < m"
  by (simp only: word_less_nat_alt unat_size)

lemma update_append: "length xs = k \<Longrightarrow> (xs @ y # ys)[k := x] = xs @ x # ys"
  by auto

lemma unat_diff: "k \<le> n \<Longrightarrow> n < 2 ^ 64 \<Longrightarrow> unat ((of_nat n :: usize) - of_nat k) = n - k"
  by (simp only: size_sub) (rule unat_size, linarith)

lemma ct_select_w_const [simp]: "constant_time_select_w (- 1) a b = a" "constant_time_select_w 0 a b = b"
  using ct_select_w [of True a b] ct_select_w [of False a b] by simp_all

lemma ucast_u8_eq: "(ucast (a :: u8) :: u64) = ucast b \<longleftrightarrow> a = b"
proof -
  have "unat (ucast c :: u64) = unat c" for c :: u8
    unfolding unsigned_ucast_eq by (rule take_bit_nat_eq_self, rule less_trans [OF unat_u8_less]) simp
  then show ?thesis
    by (metis word_unat_eq_iff)
qed

lemma ucast_u8_consts [simp]:
  "(ucast (a :: u8) :: u64) = 0 \<longleftrightarrow> a = 0" "(ucast a :: u64) = 1 \<longleftrightarrow> a = 1" "(ucast a :: u64) = 2 \<longleftrightarrow> a = 2"
  using ucast_u8_eq [of a 0] ucast_u8_eq [of a 1] ucast_u8_eq [of a 2] by simp_all

section \<open>The block that the two version 1.5 paddings write\<close>

lemma pad_writes:
  assumes "11 \<le> length to" "length frm + 11 \<le> length to" "length ps = length to - 3 - length frm"
  shows "mem_write ((mem_write (to[0 := 0, 1 := bt]) 2 ps)[length to - length frm - 1 := 0]) (length to - length frm) frm =
    0 # bt # ps @ 0 # frm"
proof -
  obtain a b ts where to: "to = a # b # ts"
    using assms(1) by (cases to; cases "tl to") auto
  have len: "length (drop (length ps) ts) = Suc (length frm)"
    using assms by (simp add: to)
  obtain c us where us: "drop (length ps) ts = c # us"
    by (rule list.exhaust [of "drop (length ps) ts"]) (use len in simp_all)
  have len_us: "length us = length frm"
    using len unfolding us by simp
  have at: "length (0 # bt # ps) = length to - length frm - 1" "length (0 # bt # ps @ [0]) = length to - length frm"
    using assms by simp_all
  have begun: "to[0 := 0, 1 := bt] = [0, bt] @ ts"
    by (simp add: to)
  have padded: "mem_write ([0, bt] @ ts) 2 ps = (0 # bt # ps) @ c # us"
    using mem_write_at [of "[0, bt]" 2 ts ps] by (simp add: us)
  have ended: "((0 # bt # ps) @ c # us)[length to - length frm - 1 := 0] = (0 # bt # ps @ [0]) @ us"
    unfolding update_append [OF at(1)] by simp
  have "mem_write ((0 # bt # ps @ [0]) @ us) (length to - length frm) frm = (0 # bt # ps @ [0]) @ frm"
    by (rule mem_write_last [OF at(2)]) (simp add: len_us)
  then show ?thesis
    unfolding begun padded ended by simp
qed

section \<open>Type 1\<close>

text \<open>EMSA-PKCS1-v1_5 of RFC 8017, 9.2, with the padded contents given.\<close>

definition emsa_pkcs1 :: "nat \<Rightarrow> bytes \<Rightarrow> bytes" where
  "emsa_pkcs1 n m = [0x00, 0x01] @ replicate n 0xff @ [0x00] @ m"

lemma add_type_1:
  assumes "length to < 2 ^ 64" "length frm < 2 ^ 64"
  shows "RSA_padding_add_PKCS1_type_1 to frm =
    (if length to < 11 then (Inl RSA_R_KEY_SIZE_TOO_SMALL, to)
     else if length to < length frm + 11 then (Inl RSA_R_DIGEST_TOO_BIG_FOR_RSA_KEY, to)
     else (Inr (), emsa_pkcs1 (length to - 3 - length frm) frm))"
proof -
  have g1: "(of_nat (length to) :: usize) < RSA_PKCS1_PADDING_SIZE \<longleftrightarrow> length to < 11"
    using size_less [OF assms(1), of 11] by (simp add: RSA_PKCS1_PADDING_SIZE_def)
  have g2: "(of_nat (length to) :: usize) - RSA_PKCS1_PADDING_SIZE < of_nat (length frm) \<longleftrightarrow> length to < length frm + 11"
    if "11 \<le> length to"
    using size_sub [OF assms(1) that] size_less [of "length to - 11" "length frm"] assms that
    by (auto simp: RSA_PKCS1_PADDING_SIZE_def)
  have len: "unat ((of_nat (length to) :: usize) - 3 - of_nat (length frm)) = length to - 3 - length frm"
    "unat ((of_nat (length to) :: usize) - of_nat (length frm) - 1) = length to - length frm - 1"
    "unat ((of_nat (length to) :: usize) - of_nat (length frm)) = length to - length frm"
    if "length frm + 11 \<le> length to"
  proof -
    have s: "x - 3 - of_nat (length frm) = x - of_nat (3 + length frm)"
      "x - of_nat (length frm) - 1 = x - of_nat (length frm + 1)" for x :: usize
      by simp_all
    show "unat ((of_nat (length to) :: usize) - 3 - of_nat (length frm)) = length to - 3 - length frm"
      "unat ((of_nat (length to) :: usize) - of_nat (length frm) - 1) = length to - length frm - 1"
      "unat ((of_nat (length to) :: usize) - of_nat (length frm)) = length to - length frm"
      unfolding s using that assms(1) by (subst unat_diff; simp)+
  qed
  show ?thesis
    using g1 g2 len pad_writes [of to frm "replicate (length to - 3 - length frm) 0xff" 1]
    by (auto simp: RSA_padding_add_PKCS1_type_1_def Let_def emsa_pkcs1_def not_less)
qed

lemma scan_type_1:
  "scan_type_1 bs pad = Inr p \<longleftrightarrow>
     (\<exists>n. p = pad + n \<and> (bs = replicate n 0xff \<or> (\<exists>m. bs = replicate n 0xff @ 0 # m)))"
proof (induction bs arbitrary: pad)
  case (Cons b bs)
  show ?case
  proof (cases "b = 0xff")
    case True
    have "(\<exists>n. p = pad + n \<and> (b # bs = replicate n 0xff \<or> (\<exists>m. b # bs = replicate n 0xff @ 0 # m))) \<longleftrightarrow>
        (\<exists>n. p = pad + Suc n \<and> (bs = replicate n 0xff \<or> (\<exists>m. bs = replicate n 0xff @ 0 # m)))"
      (is "(\<exists>n. ?P n) \<longleftrightarrow> (\<exists>n. ?Q n)")
    proof
      assume "\<exists>n. ?P n"
      then obtain n where "?P n" ..
      then show "\<exists>n. ?Q n"
        using True by (intro exI [of _ "n - 1"]) (cases n; auto)
    next
      assume "\<exists>n. ?Q n"
      then obtain n where "?Q n" ..
      then show "\<exists>n. ?P n"
        using True by (intro exI [of _ "Suc n"]) auto
    qed
    then show ?thesis
      using True Cons.IH [of "pad + 1"] by simp
  next
    case False
    then have "b # bs = replicate n 0xff \<or> (\<exists>m. b # bs = replicate n 0xff @ 0 # m) \<longleftrightarrow> n = 0 \<and> b = 0" for n
      by (cases n) auto
    then show ?thesis
      using False by auto
  qed
qed auto

lemma padding_end:
  "replicate n x @ y # k = replicate n' x @ y # m \<longleftrightarrow> n = n' \<and> k = m" if "x \<noteq> y"
proof (induction n arbitrary: n')
  case 0
  show ?case
    using that by (cases n') auto
next
  case (Suc n)
  show ?case
    using that Suc by (cases n') auto
qed

lemma check_type_1:
  "RSA_padding_check_PKCS1_type_1 max_out frm = Inr m \<longleftrightarrow>
     (\<exists>n \<ge> 8. frm = emsa_pkcs1 n m) \<and> length m \<le> unat max_out"
proof (cases "2 \<le> length frm \<and> frm ! 0 = 0 \<and> frm ! 1 = 1")
  case True
  then obtain bs where frm: "frm = 0 # 1 # bs"
    by (cases frm; cases "tl frm") auto
  show ?thesis
  proof (cases "\<exists>n k. bs = replicate n 0xff @ 0 # k")
    case True
    then obtain n k where bs: "bs = replicate n 0xff @ 0 # k"
      by blast
    have "scan_type_1 bs 2 = Inr (2 + n)"
      using bs by (auto simp: scan_type_1)
    then show ?thesis
      using padding_end [where x = "0xff" and y = 0 and n = n and k = k]
      by (auto simp: RSA_padding_check_PKCS1_type_1_def frm bs emsa_pkcs1_def Let_def)
  next
    case False
    then show ?thesis
      using scan_type_1 [of bs 2]
      by (auto simp: RSA_padding_check_PKCS1_type_1_def frm emsa_pkcs1_def Let_def split: sum.splits)
  qed
next
  case False
  then show ?thesis
    by (auto simp: RSA_padding_check_PKCS1_type_1_def emsa_pkcs1_def Let_def)
qed

section \<open>Type 2\<close>

text \<open>EME-PKCS1-v1_5 of RFC 8017, 7.2.1; the padding string is non-zero and has at least eight bytes.\<close>

definition eme_pkcs1 :: "bytes \<Rightarrow> bytes \<Rightarrow> bytes" where
  "eme_pkcs1 ps m = [0x00, 0x02] @ ps @ [0x00] @ m"

definition padding_string :: "bytes \<Rightarrow> bool" where
  "padding_string ps \<longleftrightarrow> 0 \<notin> set ps \<and> 8 \<le> length ps"

text \<open>The loop leaves the index of the first zero, without a branch on what it reads.\<close>

lemma type_2_loop:
  assumes "k \<le> length bs"
  shows "fold (type_2_step (a # b # bs)) [2..<2 + k] (0, CONSTTIME_TRUE_W) =
    (let z = length (takeWhile (\<lambda>c. c \<noteq> 0) bs) in if k \<le> z then (0, mask_of True) else (of_nat (2 + z), mask_of False))"
  using assms
proof (induction k)
  case 0
  then show ?case
    by (simp add: CONSTTIME_TRUE_W_def)
next
  case (Suc k)
  define z where "z = length (takeWhile (\<lambda>c. c \<noteq> 0) bs)"
  have k: "k < length bs"
    using Suc.prems by simp
  have zero: "bs ! k \<noteq> 0" if "k < z"
    using that nth_length_takeWhile takeWhile_nth [of k "\<lambda>c. c \<noteq> 0" bs] set_takeWhileD [of "bs ! k" "\<lambda>c. c \<noteq> 0" bs]
    by (metis nth_mem z_def)
  have found: "bs ! z = 0" if "z < length bs"
    using that nth_length_takeWhile [of "\<lambda>c. c \<noteq> 0" bs] by (simp add: z_def)
  have step: "type_2_step (a # b # bs) (2 + k) (zi, mask_of l) =
      (if l \<and> bs ! k = 0 then of_nat (2 + k) else zi, mask_of (l \<and> bs ! k \<noteq> 0))" for zi l
  proof -
    have "mask_of l AND mask_of (bs ! k = 0) = (mask_of (l \<and> bs ! k = 0) :: crypto_word_t)"
      by (simp add: mask_of_def)
    then show ?thesis
      by (auto simp: type_2_step_def Let_def)
  qed
  have "[2..<2 + Suc k] = [2..<2 + k] @ [2 + k]"
    by simp
  then have unroll: "fold (type_2_step (a # b # bs)) [2..<2 + Suc k] s =
      type_2_step (a # b # bs) (2 + k) (fold (type_2_step (a # b # bs)) [2..<2 + k] s)" for s
    by (simp only: fold_append fold_simps comp_apply)
  consider "k < z" | "k = z" | "z < k"
    by linarith
  then show ?case
    unfolding unroll using Suc k zero found step [of 0 True] step [of "of_nat (2 + z)" False]
    by cases (simp_all add: z_def [symmetric] Let_def)
qed

lemma check_type_2_scan:
  assumes "length frm < 2 ^ 64" "11 \<le> length frm" and frm: "frm = a # b # bs"
  shows "RSA_padding_check_PKCS1_type_2 max_out frm =
    (let z = length (takeWhile (\<lambda>c. c \<noteq> 0) bs); m = drop (z + 1) bs
     in if a = 0 \<and> b = 2 \<and> z < length bs \<and> 8 \<le> z \<and> length m \<le> unat max_out then Inr m
        else Inl RSA_R_PKCS_DECODING_ERROR)"
proof -
  define z where "z = length (takeWhile (\<lambda>c. c \<noteq> 0) bs)"
  have z: "z \<le> length bs"
    unfolding z_def by (rule length_takeWhile_le)
  have "[2..<length frm] = [2..<2 + length bs]"
    by (simp add: frm)
  then have loop: "fold (type_2_step frm) [2..<length frm] (0, CONSTTIME_TRUE_W) =
      (if length bs \<le> z then (0, mask_of True) else (of_nat (2 + z), mask_of False))"
    using type_2_loop [of "length bs" bs a b] by (simp only: frm z_def Let_def)
  have sizes: "(of_nat (length frm) :: usize) \<noteq> 0" "\<not> (of_nat (length frm) :: usize) < RSA_PKCS1_PADDING_SIZE"
    using assms(2) size_eq_0 [OF assms(1)] size_less [OF assms(1), of 11] by (auto simp: RSA_PKCS1_PADDING_SIZE_def)
  show ?thesis
  proof (cases "length bs \<le> z")
    case True
    then show ?thesis
      unfolding RSA_padding_check_PKCS1_type_2_def Let_def loop using sizes by (simp add: z_def)
  next
    case False
    have ge: "10 \<le> (of_nat (2 + z) :: crypto_word_t) \<longleftrightarrow> 8 \<le> z"
      using size_le [of 10 "2 + z"] z assms(1) by (simp add: frm)
    have m: "(of_nat (length frm) :: usize) - (of_nat (2 + z) + 1) = of_nat (length (drop (z + 1) bs))"
      using size_sub [OF assms(1), of "2 + z + 1"] False by (simp add: frm del: of_nat_diff)
    have len: "unat (of_nat (length (drop (z + 1) bs)) :: usize) = length (drop (z + 1) bs)"
      by (rule unat_size) (use assms(1) in \<open>simp add: frm\<close>)
    have index: "unat (of_nat (2 + z) + 1 :: usize) = z + 3"
      using unat_size [of "z + 3"] assms(1) False by (simp add: frm add.commute)
    have flags: "mask_of p AND mask_of q = (mask_of (p \<and> q) :: crypto_word_t)" "mask_of p = (0 :: crypto_word_t) \<longleftrightarrow> \<not> p" for p q
      by (simp_all add: mask_of_def)
    have rest: "take (length (drop (z + 1) bs)) (drop (z + 3) frm) = drop (z + 1) bs"
      by (simp add: frm eval_nat_numeral)
    have fits: "max_out < of_nat (length (drop (z + 1) bs)) \<longleftrightarrow> \<not> length (drop (z + 1) bs) \<le> unat max_out"
      by (simp only: word_less_nat_alt len not_le)
    show ?thesis
      unfolding RSA_padding_check_PKCS1_type_2_def Let_def loop if_not_P [OF False] prod.case m index len rest fits
        z_def [symmetric]
      using sizes False ge by (simp add: frm flags not_le del: length_drop)
  qed
qed

lemma check_type_2_short:
  "length frm < 11 \<Longrightarrow> \<exists>e. RSA_padding_check_PKCS1_type_2 max_out frm = Inl e"
  using size_less [of "length frm" 11]
  by (auto simp: RSA_padding_check_PKCS1_type_2_def RSA_PKCS1_PADDING_SIZE_def Let_def)

lemma take_to_zero:
  "length (takeWhile (\<lambda>c. c \<noteq> 0) bs) < length bs \<Longrightarrow>
     bs = takeWhile (\<lambda>c. c \<noteq> 0) bs @ 0 # drop (length (takeWhile (\<lambda>c. c \<noteq> 0) bs) + 1) bs" for bs :: bytes
  by (metis (mono_tags, lifting) Suc_eq_plus1 append_take_drop_id id_take_nth_drop nth_length_takeWhile takeWhile_eq_take)

lemma takeWhile_padding: "0 \<notin> set ps \<Longrightarrow> takeWhile (\<lambda>c. c \<noteq> 0) (ps @ 0 # m) = ps" for ps :: bytes
  by (subst takeWhile_append2) auto

lemma check_type_2:
  assumes "length frm < 2 ^ 64"
  shows "RSA_padding_check_PKCS1_type_2 max_out frm = Inr m \<longleftrightarrow>
      (\<exists>ps. padding_string ps \<and> frm = eme_pkcs1 ps m) \<and> length m \<le> unat max_out"
    and "11 \<le> length frm \<Longrightarrow>
      (\<exists>m. RSA_padding_check_PKCS1_type_2 max_out frm = Inr m) \<or>
      RSA_padding_check_PKCS1_type_2 max_out frm = Inl RSA_R_PKCS_DECODING_ERROR"
proof -
  have cases: "\<exists>a b bs. frm = a # b # bs" if "11 \<le> length frm"
    using that by (cases frm; cases "tl frm") auto
  show "11 \<le> length frm \<Longrightarrow> (\<exists>m. RSA_padding_check_PKCS1_type_2 max_out frm = Inr m) \<or>
      RSA_padding_check_PKCS1_type_2 max_out frm = Inl RSA_R_PKCS_DECODING_ERROR"
    using cases check_type_2_scan [OF assms] by (auto simp: Let_def split: if_splits)
  show "RSA_padding_check_PKCS1_type_2 max_out frm = Inr m \<longleftrightarrow>
      (\<exists>ps. padding_string ps \<and> frm = eme_pkcs1 ps m) \<and> length m \<le> unat max_out"
  proof (cases "11 \<le> length frm")
    case True
    then obtain a b bs where frm: "frm = a # b # bs"
      using cases by blast
    let ?ps = "takeWhile (\<lambda>c. c \<noteq> 0) bs"
    have scan: "RSA_padding_check_PKCS1_type_2 max_out frm = Inr m \<longleftrightarrow>
        a = 0 \<and> b = 2 \<and> length ?ps < length bs \<and> 8 \<le> length ?ps \<and> m = drop (length ?ps + 1) bs \<and> length m \<le> unat max_out"
      unfolding check_type_2_scan [OF assms True frm] Let_def by auto
    also have "\<dots> \<longleftrightarrow> (\<exists>ps. padding_string ps \<and> frm = eme_pkcs1 ps m) \<and> length m \<le> unat max_out"
    proof
      assume h: "a = 0 \<and> b = 2 \<and> length ?ps < length bs \<and> 8 \<le> length ?ps \<and> m = drop (length ?ps + 1) bs \<and> length m \<le> unat max_out"
      have "0 \<notin> set ?ps"
        by (auto dest: set_takeWhileD)
      then show "(\<exists>ps. padding_string ps \<and> frm = eme_pkcs1 ps m) \<and> length m \<le> unat max_out"
        using conjunct2 [OF conjunct2 [OF conjunct2 [OF conjunct2 [OF conjunct2 [OF h]]]]] h take_to_zero [of bs]
        unfolding padding_string_def eme_pkcs1_def frm
        by (intro conjI exI [of _ ?ps]) (blast | simp)+
    next
      assume "(\<exists>ps. padding_string ps \<and> frm = eme_pkcs1 ps m) \<and> length m \<le> unat max_out"
      then show "a = 0 \<and> b = 2 \<and> length ?ps < length bs \<and> 8 \<le> length ?ps \<and> m = drop (length ?ps + 1) bs \<and> length m \<le> unat max_out"
        by (auto simp: padding_string_def eme_pkcs1_def frm takeWhile_padding)
    qed
    finally show ?thesis .
  next
    case False
    then show ?thesis
      using check_type_2_short [of frm max_out] by (auto simp: padding_string_def eme_pkcs1_def)
  qed
qed

section \<open>Random padding\<close>

text \<open>What \<open>RAND_bytes\<close> promises: as many bytes as were asked for.\<close>

definition rng_ok :: "'r rng \<Rightarrow> bool" where
  "rng_ok rng \<longleftrightarrow> (\<forall>r n bs r'. rng r n = (Some bs, r') \<longrightarrow> length bs = unat n)"

text \<open>One of the next \<open>k\<close> draws of a single byte is not zero, or fails.\<close>

primrec nonzero_within :: "'r rng \<Rightarrow> nat \<Rightarrow> 'r \<Rightarrow> bool" where
  "nonzero_within rng 0 r = False"
| "nonzero_within rng (Suc k) r =
     (case rng r 1 of (None, r') \<Rightarrow> True | (Some bs, r') \<Rightarrow> bs ! 0 \<noteq> 0 \<or> nonzero_within rng k r')"

lemma rand_nonzero_byte_nonzero: "rand_nonzero_byte rng b r = Some (Some c, r') \<Longrightarrow> c \<noteq> 0"
  using rand_nonzero_byte.raw_induct [where P = "\<lambda>rng b r y. fst y \<noteq> Some 0" and y = "(Some c, r')"]
  by (fastforce split: if_splits prod.splits option.splits)

lemma rand_nonzero_byte_returns: "nonzero_within rng k r \<Longrightarrow> \<exists>x. rand_nonzero_byte rng b r = Some x"
proof (induction k arbitrary: r b)
  case (Suc k)
  then show ?case
    using Suc.IH rand_nonzero_byte.simps [of rng b r]
    by (auto split: prod.splits option.splits) (metis rand_nonzero_byte.simps)
qed simp

lemma rand_nonzero_bytes_nonzero:
  "rand_nonzero_bytes rng out r = Some (Some ps, r') \<Longrightarrow> length ps = length out \<and> 0 \<notin> set ps"
proof (induction out arbitrary: r ps r')
  case (Cons b out)
  then obtain c r1 ps1 where "rand_nonzero_byte rng b r = Some (Some c, r1)"
    "rand_nonzero_bytes rng out r1 = Some (Some ps1, r')" "ps = c # ps1"
    by (auto split: option.splits prod.splits)
  then show ?case
    using Cons.IH rand_nonzero_byte_nonzero by fastforce
qed simp

lemma rand_nonzero_bytes_returns:
  assumes "\<forall>r. \<exists>k. nonzero_within rng k r"
  shows "\<exists>x. rand_nonzero_bytes rng out r = Some x"
proof (induction out arbitrary: r)
  case (Cons b out)
  obtain c r1 where byte: "rand_nonzero_byte rng b r = Some (c, r1)"
    using assms rand_nonzero_byte_returns by (metis surj_pair)
  obtain ps r2 where rest: "rand_nonzero_bytes rng out r1 = Some (ps, r2)"
    using Cons.IH [of r1] by (metis surj_pair)
  show ?case
    using byte rest by (cases c; cases ps) simp_all
qed simp

lemma add_type_2:
  assumes "length to < 2 ^ 64" "length frm < 2 ^ 64" "rng_ok rng"
    and "RSA_padding_add_PKCS1_type_2 rng to frm r = Some (Inr (), em, r')"
  shows "length frm + 11 \<le> length to \<and> (\<exists>ps. em = eme_pkcs1 ps frm \<and> padding_string ps \<and> length em = length to)"
proof -
  note guards = size_less [OF assms(1), of 11] size_sub [OF assms(1), of 11] size_less [of "length to - 11" "length frm"]
  have room: "length frm + 11 \<le> length to"
    using assms(1,2,4) guards
    by (auto simp: RSA_padding_add_PKCS1_type_2_def RSA_PKCS1_PADDING_SIZE_def Let_def not_less split: if_splits)
  have s: "x - 3 - of_nat (length frm) = x - of_nat (3 + length frm)" for x :: usize
    by simp
  have len: "unat ((of_nat (length to) :: usize) - of_nat (3 + length frm)) = length to - 3 - length frm"
    "unat ((of_nat (length to) :: usize) - of_nat (length frm)) = length to - length frm"
    using room assms(1) by (subst unat_diff; simp)+
  have end_: "unat (2 + ((of_nat (length to) :: usize) - of_nat (3 + length frm))) = length to - length frm - 1"
  proof -
    have "2 + ((of_nat (length to) :: usize) - of_nat (3 + length frm)) = of_nat (length to) - of_nat (length frm + 1)"
      by simp
    then show ?thesis
      using room assms(1) by (simp only:) (subst unat_diff; simp)
  qed
  show ?thesis
  proof (intro conjI room)
    obtain ps where ps: "rand_nonzero rng (of_nat (length to) - of_nat (3 + length frm)) r = Some (Some ps, r')"
      and em: "em = mem_write ((mem_write (to[0 := 0, 1 := 2]) 2 ps)[length to - length frm - 1 := 0]) (length to - length frm) frm"
      using assms(4) unfolding RSA_padding_add_PKCS1_type_2_def Let_def s len end_
      by (auto split: if_splits option.splits prod.splits)
    then obtain out r1 where "rng r (of_nat (length to) - of_nat (3 + length frm)) = (Some out, r1)"
      and "rand_nonzero_bytes rng out r1 = Some (Some ps, r')"
      unfolding rand_nonzero_def by (auto split: option.splits prod.splits simp del: of_nat_add)
    then have "length ps = length to - 3 - length frm" "0 \<notin> set ps"
      using assms(3) len(1) rand_nonzero_bytes_nonzero unfolding rng_ok_def by metis+
    then show "\<exists>ps. em = eme_pkcs1 ps frm \<and> padding_string ps \<and> length em = length to"
      using room em pad_writes [of to frm ps 2] by (auto simp: eme_pkcs1_def padding_string_def)
  qed
qed

lemma rand_nonzero_returns:
  assumes "\<forall>r. \<exists>k. nonzero_within rng k r"
  shows "\<exists>ps r'. rand_nonzero rng len r = Some (ps, r')"
proof -
  obtain out r1 where drawn: "rng r len = (out, r1)"
    by fastforce
  show ?thesis
    using rand_nonzero_bytes_returns [OF assms] by (cases out) (fastforce simp: rand_nonzero_def drawn)+
qed

lemma add_type_2_returns:
  assumes "\<forall>r. \<exists>k. nonzero_within rng k r"
  shows "\<exists>x. RSA_padding_add_PKCS1_type_2 rng to frm r = Some x"
proof -
  obtain ps r1 where "rand_nonzero rng (of_nat (length to) - 3 - of_nat (length frm)) r = Some (ps, r1)"
    using rand_nonzero_returns [OF assms] by blast
  then show ?thesis
    by (cases ps) (simp_all add: RSA_padding_add_PKCS1_type_2_def Let_def)
qed

lemma add_type_2_fails:
  assumes "length to < 2 ^ 64" "length frm + 11 \<le> length to"
    and "RSA_padding_add_PKCS1_type_2 rng to frm r = Some (Inl e, em, r')"
  shows "e = Callee_failed"
proof -
  have g: "\<not> (of_nat (length to) :: usize) < RSA_PKCS1_PADDING_SIZE"
    "\<not> (of_nat (length to) :: usize) - RSA_PKCS1_PADDING_SIZE < of_nat (length frm)"
    using size_less [OF assms(1), of 11] size_sub [OF assms(1), of 11] size_less [of "length to - 11" "length frm"] assms(1,2)
    by (auto simp: RSA_PKCS1_PADDING_SIZE_def)
  show ?thesis
    using assms(3) unfolding RSA_padding_add_PKCS1_type_2_def Let_def if_not_P [OF g(1)] if_not_P [OF g(2)]
    by (auto split: option.splits prod.splits)
qed

section \<open>Properties\<close>

text \<open>
  Claim C21: the checks of both version 1.5 paddings accept exactly the blocks that RFC 8017 defines, with at least eight
  bytes of padding and a message that fits the output, and return that message: the type 2 check, which reads every
  byte without branching on any, too.  What the type 2 check says of a block of at least eleven bytes that it
  refuses does not depend on the reason.
\<close>

theorem PKCS1_checks_exact:
  assumes "length frm < 2 ^ 64"
  shows "(RSA_padding_check_PKCS1_type_1 max_out frm = Inr m \<longleftrightarrow>
      (\<exists>n \<ge> 8. frm = emsa_pkcs1 n m) \<and> length m \<le> unat max_out) \<and>
    (RSA_padding_check_PKCS1_type_2 max_out frm = Inr m \<longleftrightarrow>
      (\<exists>ps. padding_string ps \<and> frm = eme_pkcs1 ps m) \<and> length m \<le> unat max_out) \<and>
    (11 \<le> length frm \<longrightarrow>
      (\<exists>m. RSA_padding_check_PKCS1_type_2 max_out frm = Inr m) \<or>
      RSA_padding_check_PKCS1_type_2 max_out frm = Inl RSA_R_PKCS_DECODING_ERROR)"
  by (intro conjI impI check_type_1 check_type_2 [OF assms])

text \<open>The message \<open>7 9\<close> behind eight bytes; a block without the zero that ends the padding.\<close>

lemma PKCS1_checks_exact_witness:
  "RSA_padding_check_PKCS1_type_2 5 ([0, 2, 1, 2, 3, 4, 5, 6, 7, 8, 0] @ [7, 9]) = Inr [7, 9] \<and>
   RSA_padding_check_PKCS1_type_1 5 ([0, 1] @ replicate 8 0xff @ [0] @ [7, 9]) = Inr [7, 9] \<and>
   RSA_padding_check_PKCS1_type_2 5 [0, 2, 1, 2, 3, 4, 5, 6, 7, 8, 9] = Inl RSA_R_PKCS_DECODING_ERROR"
proof (intro conjI)
  show "RSA_padding_check_PKCS1_type_2 5 ([0, 2, 1, 2, 3, 4, 5, 6, 7, 8, 0] @ [7, 9]) = Inr [7, 9]"
    using PKCS1_checks_exact [of "[0, 2, 1, 2, 3, 4, 5, 6, 7, 8, 0] @ [7, 9]" 5 "[7, 9]"]
    by (auto simp: eme_pkcs1_def padding_string_def intro!: exI [of _ "[1, 2, 3, 4, 5, 6, 7, 8]"])
  show "RSA_padding_check_PKCS1_type_1 5 ([0, 1] @ replicate 8 0xff @ [0] @ [7, 9]) = Inr [7, 9]"
    using PKCS1_checks_exact [of "[0, 1] @ replicate 8 0xff @ [0] @ [7, 9]" 5 "[7, 9]"]
    by (auto simp: emsa_pkcs1_def intro!: exI [of _ 8])
  have "RSA_padding_check_PKCS1_type_2 5 [0, 2, 1, 2, 3, 4, 5, 6, 7, 8, 9] \<noteq> Inr m" for m
    using PKCS1_checks_exact [of "[0, 2, 1, 2, 3, 4, 5, 6, 7, 8, 9]" 5 m]
    by (auto simp: eme_pkcs1_def padding_string_def Cons_eq_append_conv)
  moreover have "(\<exists>m. RSA_padding_check_PKCS1_type_2 5 [0, 2, 1, 2, 3, 4, 5, 6, 7, 8, 9] = Inr m) \<or>
      RSA_padding_check_PKCS1_type_2 5 [0, 2, 1, 2, 3, 4, 5, 6, 7, 8, 9] = Inl RSA_R_PKCS_DECODING_ERROR"
    using PKCS1_checks_exact [of "[0, 2, 1, 2, 3, 4, 5, 6, 7, 8, 9]" 5 "[]"] by simp
  ultimately show "RSA_padding_check_PKCS1_type_2 5 [0, 2, 1, 2, 3, 4, 5, 6, 7, 8, 9] = Inl RSA_R_PKCS_DECODING_ERROR"
    by blast
qed

text \<open>
  Claim C22: a message that leaves room for eleven bytes is padded to the whole buffer by both functions, and the
  corresponding check returns it; the type 2 padding ends, for a random source that gives a byte other than zero
  (or fails) at some draw, and fails only where the source does.
\<close>

theorem PKCS1_v15_roundtrip:
  assumes "length to < 2 ^ 64" "length frm + 11 \<le> length to" "length frm \<le> unat max_out"
    and "rng_ok rng" "\<forall>r. \<exists>k. nonzero_within rng k r"
  shows "(\<exists>em. RSA_padding_add_PKCS1_type_1 to frm = (Inr (), em) \<and> length em = length to \<and>
      RSA_padding_check_PKCS1_type_1 max_out em = Inr frm) \<and>
    (\<exists>res em r'. RSA_padding_add_PKCS1_type_2 rng to frm r = Some (res, em, r') \<and>
      (res = Inl Callee_failed \<or>
       length em = length to \<and> RSA_padding_check_PKCS1_type_2 max_out em = Inr frm))"
proof -
  have small: "length frm < 2 ^ 64"
    using assms(1,2) by linarith
  have "RSA_padding_add_PKCS1_type_1 to frm = (Inr (), emsa_pkcs1 (length to - 3 - length frm) frm)"
    using add_type_1 [OF assms(1) small] assms(2) by simp
  moreover have "RSA_padding_check_PKCS1_type_1 max_out (emsa_pkcs1 (length to - 3 - length frm) frm) = Inr frm"
    unfolding check_type_1 using assms(2,3) by (intro conjI exI [of _ "length to - 3 - length frm"]) simp_all
  moreover have "length (emsa_pkcs1 (length to - 3 - length frm) frm) = length to"
    using assms(2) by (simp add: emsa_pkcs1_def)
  moreover obtain res em r' where add: "RSA_padding_add_PKCS1_type_2 rng to frm r = Some (res, em, r')"
    using add_type_2_returns [OF assms(5)] by (metis prod_cases3)
  moreover have "res = Inl Callee_failed \<or> length em = length to \<and> RSA_padding_check_PKCS1_type_2 max_out em = Inr frm"
  proof (cases res)
    case (Inl e)
    then show ?thesis
      using add_type_2_fails [OF assms(1,2) add [unfolded Inl]] by simp
  next
    case (Inr u)
    then have "RSA_padding_add_PKCS1_type_2 rng to frm r = Some (Inr (), em, r')"
      using add by simp
    then obtain ps where "em = eme_pkcs1 ps frm" "padding_string ps" "length em = length to"
      using add_type_2 [OF assms(1) small assms(4)] by blast
    then show ?thesis
      using check_type_2(1) [of em max_out frm] assms(1,3) by auto
  qed
  ultimately show ?thesis
    by blast
qed

text \<open>A source that gives its state, then nothing but ones.\<close>

lemma PKCS1_v15_roundtrip_witness:
  "(\<exists>em. RSA_padding_add_PKCS1_type_1 (replicate 20 0) [1, 2, 3] = (Inr (), em) \<and> length em = 20 \<and>
     RSA_padding_check_PKCS1_type_1 3 em = Inr [1, 2, 3]) \<and>
   (\<exists>res em r'. RSA_padding_add_PKCS1_type_2 (\<lambda>r n. (Some (replicate (unat n) r), 1)) (replicate 20 0) [1, 2, 3] (0 :: u8) =
     Some (res, em, r') \<and> (res = Inl Callee_failed \<or> length em = 20 \<and> RSA_padding_check_PKCS1_type_2 3 em = Inr [1, 2, 3]))"
proof -
  have "nonzero_within (\<lambda>r n. (Some (replicate (unat n) r), 1)) 2 (r :: u8)" for r
    by (simp add: numeral_2_eq_2)
  then have *: "\<forall>r :: u8. \<exists>k. nonzero_within (\<lambda>r n. (Some (replicate (unat n) r), 1)) k r"
    by blast
  have "rng_ok (\<lambda>(r :: u8) n. (Some (replicate (unat n) r), 1))"
    by (simp add: rng_ok_def)
  from PKCS1_v15_roundtrip [where to = "replicate 20 0" and frm = "[1, 2, 3]" and max_out = 3 and r = 0,
      OF _ _ _ this *]
  show ?thesis
    by simp
qed

end
