(* ===== verification/RSA_OAEP.thy ===== *)
theory RSA_OAEP
  imports RSA_Padding_Props
begin

text \<open>
  The mask generation function and OAEP against RFC 8017, B.2.1 and 7.1: what is written is the encoding of the
  standard, and the check, which reads the whole data block whatever it holds, accepts exactly the encodings.
\<close>

section \<open>The mask generation function\<close>

text \<open>MGF1 of RFC 8017, B.2.1: the digests of the seed with a counter of four bytes, cut off at \<open>n\<close> bytes.\<close>

definition mgf1 :: "EVP_MD \<Rightarrow> bytes \<Rightarrow> nat \<Rightarrow> bytes" where
  "mgf1 md seed n =
     (let hl = unat (EVP_MD_size md)
      in take n (concat (map (\<lambda>i. digest_of md (seed @ be_bytes 4 i)) [0..<(n + hl - 1) div hl])))"

lemma length_concat_same: "(\<And>x. x \<in> set xs \<Longrightarrow> length (f x) = k) \<Longrightarrow> length (concat (map f xs)) = length xs * k"
  by (induction xs) auto

lemma blocks_enough: "0 < h \<Longrightarrow> n \<le> (n + h - 1) div h * h" for n h :: nat
proof -
  assume h: "0 < h"
  have "n + h - 1 < Suc ((n + h - 1) div h) * h"
    by (rule dividend_less_times_div [OF h, of "n + h - 1", folded mult_Suc_right, simplified mult.commute [of h]])
  then show "n \<le> (n + h - 1) div h * h"
    using h by simp
qed

lemma length_mgf1: "length (mgf1 md seed n) = n"
  using blocks_enough [OF size_bounds(1) [of md], of n]
  by (simp add: mgf1_def Let_def length_concat_same [where k = "unat (EVP_MD_size md)"] evp.length_digest)

lemma counter_bytes_be: "counter_bytes (of_nat i) = be_bytes 4 i"
proof -
  have low: "(0xff :: u32) = Bit_Operations.mask 8"
    by (simp add: mask_eq_exp_minus_1)
  have "ucast (x AND 0xff) = (ucast x :: u8)" for x :: u32
    unfolding low by (rule bit_word_eqI) (auto simp: bit_simps)
  then have "counter_bytes (of_nat i) = i_bytes (of_nat i)"
    by (simp add: counter_bytes_def i_bytes_def)
  then show ?thesis
    unfolding i_bytes_be .
qed

lemma MGF1_turns_digests:
  fixes md seed
  defines "F \<equiv> \<lambda>i. digest_of md (seed @ be_bytes 4 i)" and "hl \<equiv> unat (EVP_MD_size md)"
  assumes "typed ctx" "length seed < 2 ^ 64" "unat L \<le> m * hl"
  shows "\<exists>ok w ms'. MGF1_turns md seed (of_nat i) L out ms ctx = (ok, w, ms') \<and>
      (ok \<longrightarrow> w = out @ take (unat L) (concat (map F [i..<i + m]))) \<and> (False \<notin> set ms \<longrightarrow> ok \<and> False \<notin> set ms')"
  using assms(3,5)
proof (induction m arbitrary: i L out ctx ms)
  case 0
  then show ?case
    by (simp add: MGF1_turns.simps [of md seed "of_nat i" 0] unat_eq_0) (rule exI [of _ True], simp)
next
  case (Suc m)
  show ?case
  proof (cases "L = 0")
    case True
    then show ?thesis
      by (simp add: MGF1_turns.simps [of md seed "of_nat i" 0]) (rule exI [of _ True], simp)
  next
    case False
    obtain ok ms1 c1 where init: "EVP_DigestInit_ex md ms ctx = (ok, ms1, c1)"
      by (metis prod_cases3)
    show ?thesis
    proof (cases ok)
      case True
      have "evp.hashing md (seed @ be_bytes 4 i) (EVP_DigestUpdate (counter_bytes (of_nat i)) (EVP_DigestUpdate seed c1))"
        using evp.update_hashing [OF evp.update_hashing [OF evp.init_hashing [OF init [unfolded eqTrueI [OF True]] Suc.prems(1)]
              assms(4)], of "counter_bytes (of_nat i)"]
        by (simp add: counter_bytes_be)
      note final = evp.final_hashing [OF this]
      let ?c2 = "(EVP_DigestUpdate (counter_bytes (of_nat i)) (EVP_DigestUpdate seed c1))\<lparr>md_data := Some Zeros\<rparr>"
      have typed: "typed ?c2"
        using typed_DigestFinal [OF final] .
      have F: "length (F i) = hl" "hl \<le> 64"
        using size_bounds [of md] by (simp_all add: F_def hl_def evp.length_digest)
      have "[i..<i + Suc m] = i # [Suc i..<Suc i + m]"
        by (simp add: upt_conv_Cons del: upt_Suc)
      then have blocks: "concat (map F [i..<i + Suc m]) = F i @ concat (map F [Suc i..<Suc i + m])"
        by (simp only: list.map concat.simps)
      have ok_ms: "False \<notin> set ms \<Longrightarrow> False \<notin> set ms1"
        using DigestInit_ok [OF _ init] by blast
      show ?thesis
      proof (cases "EVP_MD_size md \<le> L")
        case True
        have L: "unat (L - EVP_MD_size md) = unat L - hl" "hl \<le> unat L"
          using True by (simp_all add: hl_def unat_sub word_le_nat_alt)
        then have "unat (L - EVP_MD_size md) \<le> m * hl"
          using Suc.prems(2) by simp
        note rest = Suc.IH [OF typed this, of "Suc i" "out @ F i" ms1]
        have "MGF1_turns md seed (of_nat i) L out ms ctx =
            MGF1_turns md seed (of_nat (Suc i)) (L - EVP_MD_size md) (out @ F i) ms1 ?c2"
          unfolding MGF1_turns.simps [of md seed "of_nat i" L] Let_def init
          using False True \<open>ok\<close> by (simp add: final add.commute F_def)
        then show ?thesis
          using rest ok_ms F(1) L unfolding blocks by (auto simp: take_append)
      next
        case short: False
        have L: "unat L < hl"
          using short by (simp add: hl_def word_le_nat_alt)
        have "take (unat L) (mem_write (replicate EVP_MAX_MD_SIZE 0) 0 (F i)) = take (unat L) (F i)"
          using F L by (simp add: mem_write_def EVP_MAX_MD_SIZE_def)
        then have "MGF1_turns md seed (of_nat i) L out ms ctx =
            MGF1_turns md seed (of_nat i + 1) 0 (out @ take (unat L) (F i)) ms1 ?c2"
          unfolding MGF1_turns.simps [of md seed "of_nat i" L] Let_def init
          using False short \<open>ok\<close> by (simp add: final F_def)
        then show ?thesis
          using ok_ms F(1) L unfolding blocks
          by (simp add: MGF1_turns.simps [of md seed _ 0]) (rule exI [of _ True], simp)
      qed
    next
      case ok: False
      then show ?thesis
        unfolding MGF1_turns.simps [of md seed "of_nat i" L] Let_def init
        using False DigestInit_ok [OF _ init] by auto
    qed
  qed
qed

lemma PKCS1_MGF1_result:
  assumes "PKCS1_MGF1 len seed md ms = (ok, w, ms')" "length seed < 2 ^ 64"
  shows "ok \<Longrightarrow> w = mgf1 md seed (unat len)" "False \<notin> set ms \<Longrightarrow> ok \<and> False \<notin> set ms'"
proof -
  let ?hl = "unat (EVP_MD_size md)"
  have "unat len \<le> (unat len + ?hl - 1) div ?hl * ?hl"
    by (rule blocks_enough [OF size_bounds(1)])
  from MGF1_turns_digests [OF typed_init assms(2) this, of 0 "[]" ms]
  show "ok \<Longrightarrow> w = mgf1 md seed (unat len)" "False \<notin> set ms \<Longrightarrow> ok \<and> False \<notin> set ms'"
    using assms(1) unfolding PKCS1_MGF1_def mgf1_def Let_def by auto
qed

section \<open>OAEP\<close>

lemma length_xor_bytes [simp]: "length (xor_bytes a b) = min (length a) (length b)"
  by (simp add: xor_bytes_def)

lemma xor_bytes_twice: "length a = length b \<Longrightarrow> xor_bytes (xor_bytes a b) b = a" "length a = length b \<Longrightarrow> xor_bytes a (xor_bytes a b) = b"
  by (auto simp: xor_bytes_def list_eq_iff_nth_eq xor.assoc [symmetric]) (simp add: xor.assoc)

lemma xor_bytes_commute: "xor_bytes a b = xor_bytes b a"
  by (auto simp: xor_bytes_def list_eq_iff_nth_eq xor.commute)

text \<open>The data block and the encoded message of RFC 8017, 7.1.1, for a modulus of \<open>k\<close> bytes.\<close>

definition oaep_db :: "EVP_MD \<Rightarrow> bytes \<Rightarrow> bytes \<Rightarrow> nat \<Rightarrow> bytes" where
  "oaep_db md label m k =
     digest_of md label @ replicate (k - length m - 2 * unat (EVP_MD_size md) - 2) 0 @ [0x01] @ m"

definition oaep_em :: "EVP_MD \<Rightarrow> EVP_MD \<Rightarrow> bytes \<Rightarrow> bytes \<Rightarrow> bytes \<Rightarrow> nat \<Rightarrow> bytes" where
  "oaep_em md mgf1md label seed m k =
     (let hl = unat (EVP_MD_size md);
          maskedDB = xor_bytes (oaep_db md label m k) (mgf1 mgf1md seed (k - hl - 1));
          maskedSeed = xor_bytes seed (mgf1 mgf1md maskedDB hl)
      in [0x00] @ maskedSeed @ maskedDB)"

text \<open>\<open>em\<close> is an encoding of the message \<open>m\<close>.\<close>

definition oaep_encodes :: "EVP_MD \<Rightarrow> EVP_MD \<Rightarrow> bytes \<Rightarrow> bytes \<Rightarrow> bytes \<Rightarrow> bytes \<Rightarrow> bool" where
  "oaep_encodes md mgf1md label em seed m \<longleftrightarrow>
     length seed = unat (EVP_MD_size md) \<and> length m + 2 * unat (EVP_MD_size md) + 2 \<le> length em \<and>
     em = oaep_em md mgf1md label seed m (length em)"

text \<open>The scan for the byte one, which reads every byte of the data block.\<close>

definition oaep_bools :: "bytes \<Rightarrow> nat \<Rightarrow> bool \<times> usize \<times> bool \<Rightarrow> bool \<times> usize \<times> bool" where
  "oaep_bools db i s =
     (case s of (l, idx, bad) \<Rightarrow>
        (l \<and> db ! i \<noteq> 1, if l \<and> db ! i = 1 then of_nat i else idx, bad \<or> l \<and> db ! i \<noteq> 1 \<and> db ! i \<noteq> 0))"

definition masks :: "bool \<times> usize \<times> bool \<Rightarrow> crypto_word_t \<times> usize \<times> crypto_word_t" where
  "masks s = (case s of (l, idx, bad) \<Rightarrow> (mask_of l, idx, mask_of bad))"

lemma mask_flags:
  "mask_of p AND mask_of q = (mask_of (p \<and> q) :: crypto_word_t)" "mask_of p OR mask_of q = (mask_of (p \<or> q) :: crypto_word_t)"
  "mask_of p = (0 :: crypto_word_t) \<longleftrightarrow> \<not> p"
  by (simp_all add: mask_of_def)

lemma oaep_step_masks: "oaep_step db i (masks s) = masks (oaep_bools db i s)"
  by (cases s) (auto simp: masks_def oaep_step_def oaep_bools_def Let_def mask_flags)

lemma oaep_fold_masks: "fold (oaep_step db) is (masks s) = masks (fold (oaep_bools db) is s)"
  by (induction "is" arbitrary: s) (simp_all add: oaep_step_masks)

lemma zeros_then_one:
  "d # ds = replicate z 0 @ 1 # m \<longleftrightarrow>
     d = 1 \<and> z = 0 \<and> m = ds \<or> d = 0 \<and> (\<exists>z'. z = Suc z' \<and> ds = replicate z' 0 @ 1 # m)" for d :: u8
  by (cases z) auto

lemma oaep_bools_from:
  assumes "drop j db = ds" "j \<le> length db"
    and "fold (oaep_bools db) [j..<length db] (l, idx, bad) = (l', idx', bad')"
  shows "if l then (\<not> l' \<and> \<not> bad' \<longleftrightarrow> \<not> bad \<and> (\<exists>z m. ds = replicate z 0 @ 1 # m)) \<and>
      (\<forall>z m. ds = replicate z 0 @ 1 # m \<longrightarrow> idx' = of_nat (j + z))
    else \<not> l' \<and> idx' = idx \<and> bad' = bad"
  using assms
proof (induction ds arbitrary: j l idx bad)
  case Nil
  then show ?case
    by auto
next
  case (Cons d ds)
  have "j < length db"
    using Cons.prems(1,2) by (cases "j = length db") auto
  then have j: "j < length db" "db ! j = d" "drop (Suc j) db = ds" "Suc j \<le> length db"
    using Cons.prems(1) nth_via_drop [OF Cons.prems(1)] by (auto simp: drop_Suc drop_tl)
  have step: "oaep_bools db j (l, idx, bad) =
      (l \<and> d \<noteq> 1, if l \<and> d = 1 then of_nat j else idx, bad \<or> l \<and> d \<noteq> 1 \<and> d \<noteq> 0)"
    by (simp only: oaep_bools_def prod.case j(2))
  have "fold (oaep_bools db) [Suc j..<length db] (oaep_bools db j (l, idx, bad)) = (l', idx', bad')"
    using Cons.prems(3) unfolding upt_conv_Cons [OF j(1)] by simp
  note IH = Cons.IH [OF j(3,4) this [unfolded step]]
  show ?case
  proof (cases "l \<and> d \<noteq> 1")
    case True
    show ?thesis
    proof (cases "d = 0")
      case True
      then show ?thesis
        using IH \<open>l \<and> d \<noteq> 1\<close> unfolding zeros_then_one by auto
    next
      case False
      then show ?thesis
        using IH \<open>l \<and> d \<noteq> 1\<close> unfolding zeros_then_one by auto
    qed
  next
    case False
    then show ?thesis
      using IH unfolding zeros_then_one by auto
  qed
qed

lemma CRYPTO_memcmp_word: "(of_int (CRYPTO_memcmp a b n) :: u64) = 0 \<longleftrightarrow> CRYPTO_memcmp a b n = 0"
proof -
  have "(of_int (uint c) :: u64) = 0 \<longleftrightarrow> uint c = 0" for c :: u8
    using ucast_u8_consts(1) [of c] by (simp add: uint_0_iff)
  then show ?thesis
    unfolding CRYPTO_memcmp_def .
qed

lemma oaep_scan_exact:
  assumes "length phash = unat mdlen" "unat mdlen \<le> length db" "oaep_scan db first phash mdlen = (bad, idx)"
  shows "bad = 0 \<longleftrightarrow> first = 0 \<and> (\<exists>z m. db = phash @ replicate z 0 @ 1 # m)"
    and "db = phash @ replicate z 0 @ 1 # m \<Longrightarrow> idx = of_nat (length phash + z)"
proof -
  have hash: "CRYPTO_memcmp db phash mdlen = 0 \<longleftrightarrow> take (unat mdlen) db = phash"
    using CRYPTO_memcmp_zero [of mdlen db phash] assms(1,2) by simp
  have split: "db = phash @ ds \<longleftrightarrow> take (unat mdlen) db = phash \<and> drop (unat mdlen) db = ds" for ds
    using assms(1) by (auto simp: append_eq_conv_conj)
  let ?s = "(True, 0, take (unat mdlen) db \<noteq> phash \<or> first \<noteq> 0)"
  obtain l' idx' bad' where scan: "fold (oaep_bools db) [unat mdlen..<length db] ?s = (l', idx', bad')"
    by (metis prod_cases3)
  have "fold (oaep_step db) [unat mdlen..<length db] (masks ?s) = (mask_of l', idx', mask_of bad')"
    unfolding oaep_fold_masks scan by (simp add: masks_def)
  moreover have "masks ?s = (CONSTTIME_TRUE_W, 0, NOT (constant_time_is_zero_w (of_int (CRYPTO_memcmp db phash mdlen))) OR
      NOT (constant_time_is_zero_w (ucast first)))"
    by (simp add: masks_def CONSTTIME_TRUE_W_def mask_flags CRYPTO_memcmp_word hash)
  ultimately have "oaep_scan db first phash mdlen = (mask_of bad' OR mask_of l', idx')"
    unfolding oaep_scan_def Let_def by simp
  then have result: "bad = 0 \<longleftrightarrow> \<not> bad' \<and> \<not> l'" "idx = idx'"
    using assms(3) by (simp_all add: mask_flags)
  note found = oaep_bools_from [OF refl assms(2) scan, simplified]
  show "bad = 0 \<longleftrightarrow> first = 0 \<and> (\<exists>z m. db = phash @ replicate z 0 @ 1 # m)"
    unfolding result split using found by blast
  show "db = phash @ replicate z 0 @ 1 # m \<Longrightarrow> idx = of_nat (length phash + z)"
    unfolding result split using found assms(1) by simp
qed

section \<open>The decoding\<close>

lemma EVP_Digest_result:
  assumes "EVP_Digest data md ms = (res, ms')" "length data < 2 ^ 64"
  shows "res = None \<or> res = Some (digest_of md data, md_size (env_md md))"
    and "False \<notin> set ms \<Longrightarrow> res \<noteq> None \<and> False \<notin> set ms'"
proof -
  obtain ok ms1 ctx where init: "EVP_DigestInit_ex md ms (EVP_MD_CTX_init :: unit EVP_MD_CTX) = (ok, ms1, ctx)"
    by (metis prod_cases3)
  have ok: "False \<notin> set ms \<Longrightarrow> ok \<and> False \<notin> set ms1"
    using DigestInit_ok [OF _ init] by blast
  have "res = (if ok then Some (digest_of md data, md_size (env_md md)) else None) \<and> ms' = ms1"
  proof (cases ok)
    case True
    have "evp.hashing md data (EVP_DigestUpdate data ctx)"
      using evp.update_hashing [OF evp.init_hashing [OF init [unfolded eqTrueI [OF True]] typed_init] assms(2)] by simp
    from evp.final_hashing [OF this] show ?thesis
      using assms(1) True by (simp add: EVP_Digest_def init)
  next
    case False
    then show ?thesis
      using assms(1) by (simp add: EVP_Digest_def init)
  qed
  then show "res = None \<or> res = Some (digest_of md data, md_size (env_md md))"
    "False \<notin> set ms \<Longrightarrow> res \<noteq> None \<and> False \<notin> set ms'"
    using ok by auto
qed

text \<open>What the check computes when no call fails; \<open>dl\<close> is the length of the data block.\<close>

definition oaep_decode :: "EVP_MD \<Rightarrow> EVP_MD \<Rightarrow> bytes \<Rightarrow> nat \<Rightarrow> bytes \<Rightarrow> rsa_reason + bytes" where
  "oaep_decode md mgf1md label max_out frm =
     (let hl = unat (EVP_MD_size md); dl = length frm - hl - 1
      in if length frm < 2 * hl + 2 then Inl RSA_R_OAEP_DECODING_ERROR
         else
           let maskedDB = drop (hl + 1) frm;
               seed = xor_bytes (mgf1 mgf1md maskedDB hl) (take hl (drop 1 frm));
               db = xor_bytes (mgf1 mgf1md seed dl) maskedDB;
               (bad, one) = oaep_scan db (frm ! 0) (digest_of md label) (EVP_MD_size md)
           in if bad \<noteq> 0 then Inl RSA_R_OAEP_DECODING_ERROR
              else if max_out < dl - (unat one + 1) then Inl RSA_R_DATA_TOO_LARGE
              else Inr (drop (unat one + 1) db))"

lemma EVP_MD_size_of_nat: "EVP_MD_size md = of_nat (unat (EVP_MD_size md))"
  by simp

text \<open>Undoing the two masks.\<close>

lemma oaep_unmask:
  assumes "length S = length s" "length X = length M"
  shows "S = xor_bytes s (mgf1 md M (length s)) \<and> M = xor_bytes X (mgf1 md s (length M)) \<longleftrightarrow>
    s = xor_bytes (mgf1 md M (length s)) S \<and> X = xor_bytes (mgf1 md s (length M)) M"
proof -
  have "S = xor_bytes s w \<longleftrightarrow> s = xor_bytes w S" if "length w = length s" "length S = length s" for S s w
    using xor_bytes_twice [of s w] xor_bytes_twice [of S w] xor_bytes_commute that by metis
  then show ?thesis
    using assms length_mgf1 by metis
qed

lemma oaep_em_iff:
  fixes md first S M
  defines "hl \<equiv> unat (EVP_MD_size md)" and "k \<equiv> length (first # S @ M)"
  assumes "length S = hl" "length s = hl" "length m + 2 * hl + 2 \<le> k"
  shows "first # S @ M = oaep_em md mgf1md label s m k \<longleftrightarrow>
    first = 0 \<and> s = xor_bytes (mgf1 mgf1md M hl) S \<and> oaep_db md label m k = xor_bytes (mgf1 mgf1md s (length M)) M"
proof -
  define X where "X = oaep_db md label m k"
  have k: "k - hl - 1 = length M"
    using assms(3) by (simp add: k_def)
  have X: "length X = length M"
    using assms(3,5) by (simp add: X_def oaep_db_def evp.length_digest k_def flip: hl_def)
  have "first # S @ M = oaep_em md mgf1md label s m k \<longleftrightarrow>
      first = 0 \<and> S @ M = xor_bytes s (mgf1 mgf1md (xor_bytes X (mgf1 mgf1md s (length M))) hl) @
        xor_bytes X (mgf1 mgf1md s (length M))"
    unfolding oaep_em_def Let_def hl_def [symmetric] k X_def [symmetric] by simp
  also have "\<dots> \<longleftrightarrow> first = 0 \<and> S = xor_bytes s (mgf1 mgf1md M hl) \<and> M = xor_bytes X (mgf1 mgf1md s (length M))"
    using assms(3,4) X by (auto simp: append_eq_append_conv length_mgf1)
  finally show ?thesis
    using oaep_unmask [of S s X M mgf1md] assms(3,4) X unfolding X_def by simp
qed

lemma oaep_db_iff:
  assumes "length db + unat (EVP_MD_size md) + 1 = k"
  shows "db = digest_of md label @ replicate z 0 @ 1 # m \<longleftrightarrow>
    z = k - length m - 2 * unat (EVP_MD_size md) - 2 \<and> length m + 2 * unat (EVP_MD_size md) + 2 \<le> k \<and> db = oaep_db md label m k"
proof -
  have "length (digest_of md label) = unat (EVP_MD_size md)"
    by (rule evp.length_digest)
  then show ?thesis
    using assms by (auto simp: oaep_db_def)
qed

lemma oaep_decode_parts:
  fixes md mgf1md first S M
  defines "hl \<equiv> unat (EVP_MD_size md)" and "frm \<equiv> first # S @ M"
  assumes "length S = hl" "hl + 1 \<le> length M"
  defines "seed \<equiv> xor_bytes (mgf1 mgf1md M hl) S"
  defines "db \<equiv> xor_bytes (mgf1 mgf1md seed (length M)) M"
  assumes "oaep_scan db first (digest_of md label) (EVP_MD_size md) = (bad, one)"
  shows "oaep_decode md mgf1md label max_out frm =
    (if bad \<noteq> 0 then Inl RSA_R_OAEP_DECODING_ERROR
     else if max_out < length M - (unat one + 1) then Inl RSA_R_DATA_TOO_LARGE
     else Inr (drop (unat one + 1) db))"
proof -
  have "drop (hl + 1) frm = M" "take hl (drop 1 frm) = S" "frm ! 0 = first" "length frm - hl - 1 = length M"
    "\<not> length frm < 2 * hl + 2"
    using assms(3,4) by (simp_all add: frm_def)
  then show ?thesis
    unfolding oaep_decode_def Let_def hl_def [symmetric]
    using assms(7) by (simp only: seed_def [symmetric] db_def [symmetric] prod.case if_False)
qed

lemma oaep_decode_exact:
  fixes md frm
  defines "hl \<equiv> unat (EVP_MD_size md)"
  assumes "length frm < 2 ^ 64"
  shows "(\<exists>seed m. oaep_encodes md mgf1md label frm seed m \<and>
        (\<forall>seed' m'. oaep_encodes md mgf1md label frm seed' m' \<longrightarrow> m' = m) \<and>
        oaep_decode md mgf1md label max_out frm = (if length m \<le> max_out then Inr m else Inl RSA_R_DATA_TOO_LARGE)) \<or>
     (\<nexists>seed m. oaep_encodes md mgf1md label frm seed m) \<and>
        oaep_decode md mgf1md label max_out frm = Inl RSA_R_OAEP_DECODING_ERROR"
proof (cases "length frm < 2 * hl + 2")
  case True
  then show ?thesis
    by (auto simp: oaep_decode_def oaep_encodes_def Let_def simp flip: hl_def)
next
  case False
  then obtain first body where body: "frm = first # body"
    by (cases frm) auto
  define S M where "S = take hl body" and "M = drop hl body"
  have frm: "frm = first # S @ M" and S: "length S = hl" and M: "hl + 1 \<le> length M" "length M + hl + 1 = length frm"
    using False by (simp_all add: S_def M_def body)
  define seed where "seed = xor_bytes (mgf1 mgf1md M hl) S"
  define db where "db = xor_bytes (mgf1 mgf1md seed (length M)) M"
  have lengths: "length seed = hl" "length db = length M" "length (digest_of md label) = hl"
    by (simp_all add: seed_def db_def S length_mgf1 evp.length_digest hl_def)
  obtain bad one where scan: "oaep_scan db first (digest_of md label) (EVP_MD_size md) = (bad, one)"
    by fastforce
  note decode = oaep_decode_parts [OF S [unfolded hl_def] M(1) [unfolded hl_def], folded hl_def, OF scan [unfolded db_def seed_def],
      folded seed_def, folded db_def, folded frm]
  have "hl \<le> length db"
    using M(1) lengths(2) by simp
  note exact = oaep_scan_exact [OF lengths(3) [unfolded hl_def] this [unfolded hl_def] scan, unfolded lengths(3)]
  have encoded: "frm = oaep_em md mgf1md label s m (length frm) \<longleftrightarrow>
      first = 0 \<and> s = seed \<and> db = oaep_db md label m (length frm)"
    if "length s = hl" "length m + 2 * hl + 2 \<le> length frm" for s m
    using oaep_em_iff [of S md s m first M mgf1md label] that S
    unfolding frm [symmetric] hl_def [symmetric] seed_def [symmetric] by (auto simp: db_def)
  have parts: "db = digest_of md label @ replicate z 0 @ 1 # m \<longleftrightarrow>
      z = length frm - length m - 2 * hl - 2 \<and> length m + 2 * hl + 2 \<le> length frm \<and> db = oaep_db md label m (length frm)" for z m
    using oaep_db_iff [of db md "length frm" label z m] M(2) lengths(2) unfolding hl_def by simp
  have encodes: "oaep_encodes md mgf1md label frm s m \<longleftrightarrow>
      first = 0 \<and> s = seed \<and> (\<exists>z. db = digest_of md label @ replicate z 0 @ 1 # m)" for s m
    unfolding oaep_encodes_def hl_def [symmetric] using encoded [of s m] parts lengths(1) by blast
  show ?thesis
  proof (cases "first = 0 \<and> (\<exists>z m. db = digest_of md label @ replicate z 0 @ 1 # m)")
    case True
    then obtain z m where m: "db = digest_of md label @ replicate z 0 @ 1 # m" and "first = 0"
      by blast
    have len: "length M = hl + z + 1 + length m"
      using arg_cong [OF m, of length] lengths(2,3) by simp
    have one: "unat one = hl + z"
      unfolding exact(2) [OF m] by (rule unat_size) (use len M(2) assms(2) in linarith)
    have "drop (unat one + 1) db = m"
      unfolding m one using lengths(3) by simp
    then have "oaep_decode md mgf1md label max_out frm = (if length m \<le> max_out then Inr m else Inl RSA_R_DATA_TOO_LARGE)"
      unfolding decode using exact(1) True len one by (simp add: not_less)
    moreover have "m' = m" if "oaep_encodes md mgf1md label frm s m'" for s m'
      using that unfolding encodes m by (auto simp: padding_end)
    ultimately show ?thesis
      using encodes [of seed m] m \<open>first = 0\<close> by blast
  next
    case no: False
    then have "oaep_decode md mgf1md label max_out frm = Inl RSA_R_OAEP_DECODING_ERROR"
      unfolding decode using exact(1) by simp
    then show ?thesis
      using no encodes by blast
  qed
qed

section \<open>The two functions\<close>

lemma oaep_sizes:
  fixes md k
  defines "s \<equiv> EVP_MD_size md" and "hl \<equiv> unat (EVP_MD_size md)"
  assumes "k < 2 ^ 64"
  shows "(of_nat k :: usize) < 2 * s + 2 \<longleftrightarrow> k < 2 * hl + 2"
    and "(of_nat k :: usize) < 1 + 2 * s + 1 \<longleftrightarrow> k < 2 * hl + 2"
    and "unat (1 + s) = hl + 1" "unat (s + 1) = hl + 1"
    and "2 * hl + 2 \<le> k \<Longrightarrow> (of_nat k :: usize) - s - 1 = of_nat (k - hl - 1)"
    and "2 * hl + 2 \<le> k \<Longrightarrow> (of_nat k :: usize) - 1 - s = of_nat (k - hl - 1)"
proof -
  have s: "s = of_nat hl" and hl: "hl \<le> 64"
    using size_bounds(2) [of md] by (simp_all add: s_def hl_def)
  have two: "2 * s + 2 = of_nat (2 * hl + 2)" "1 + 2 * s + 1 = of_nat (2 * hl + 2)" "1 + s = of_nat (hl + 1)" "s + 1 = of_nat (hl + 1)"
    by (simp_all add: s)
  show "(of_nat k :: usize) < 2 * s + 2 \<longleftrightarrow> k < 2 * hl + 2" "(of_nat k :: usize) < 1 + 2 * s + 1 \<longleftrightarrow> k < 2 * hl + 2"
    unfolding two using hl size_less [OF assms(3), of "2 * hl + 2"] by auto
  show "unat (1 + s) = hl + 1" "unat (s + 1) = hl + 1"
    unfolding two by (rule unat_size; use hl in simp)+
  show "(of_nat k :: usize) - s - 1 = of_nat (k - hl - 1)" "(of_nat k :: usize) - 1 - s = of_nat (k - hl - 1)" if "2 * hl + 2 \<le> k"
    using that by (simp_all add: s of_nat_diff)
qed

lemma oaep_scan_inside:
  assumes "length phash = unat mdlen" "unat mdlen \<le> length db" "oaep_scan db first phash mdlen = (bad, one)" "bad = 0"
    and "length db < 2 ^ 64"
  shows "unat one + 1 \<le> length db"
proof -
  obtain z m where m: "db = phash @ replicate z 0 @ 1 # m"
    using oaep_scan_exact(1) [OF assms(1-3)] assms(4) by blast
  then have len: "length db = length phash + z + 1 + length m"
    by simp
  have "unat one = length phash + z"
    unfolding oaep_scan_exact(2) [OF assms(1-3) m] by (rule unat_size) (use len assms(5) in linarith)
  then show ?thesis
    using len by simp
qed

lemma unat_after: "unat (i :: usize) + 1 \<le> unat n \<Longrightarrow> unat (i + 1) = unat i + 1 \<and> unat (n - (i + 1)) = unat n - (unat i + 1)"
proof -
  assume le: "unat i + 1 \<le> unat n"
  then have "unat i + 1 < 2 ^ 64"
    using unat_lt64 [of n] by simp
  then have one: "unat (i + 1) = unat i + 1"
    by (simp add: unat_word_ariths)
  then show ?thesis
    using le by (simp add: unat_sub word_le_nat_alt)
qed

lemma check_OAEP:
  assumes "length frm < 2 ^ 64" "length param < 2 ^ 64"
    and res: "RSA_padding_check_PKCS1_OAEP_mgf1 max_out frm param md mgf1md ms = (res, ms')"
  shows "res = oaep_decode (oaep_md md) (mgf1_md mgf1md (oaep_md md)) param (unat max_out) frm \<or>
    False \<in> set ms \<and> (res = Inl ERR_R_MALLOC_FAILURE \<or> res = Inl Callee_failed)"
proof -
  define md1 mgf where "md1 = oaep_md md" and "mgf = mgf1_md mgf1md md1"
  let ?hl = "unat (EVP_MD_size md1)"
  note sizes = oaep_sizes [OF assms(1), of md1]
  note start = RSA_padding_check_PKCS1_OAEP_mgf1_def [of max_out frm param md mgf1md ms] Let_def
    md1_def [symmetric] mgf_def [symmetric] sizes(2)
  show ?thesis
  proof (cases "length frm < 2 * ?hl + 2")
    case True
    then show ?thesis
      using res unfolding start oaep_decode_def by simp
  next
    case False
    then have long: "2 * ?hl + 2 \<le> length frm"
      by simp
    let ?dl = "(of_nat (length frm) :: usize) - EVP_MD_size md1 - 1"
    define M S where "M = drop (?hl + 1) frm" and "S = take ?hl (drop 1 frm)"
    have dl: "unat ?dl = length frm - ?hl - 1"
      unfolding sizes(5) [OF long] by (rule unat_size) (use assms(1) in linarith)
    have parts: "take (unat ?dl) (drop (unat (1 + EVP_MD_size md1)) frm) = M"
      unfolding dl sizes(3) by (simp add: M_def)
    have small: "length M < 2 ^ 64" "length (xor_bytes w S) < 2 ^ 64" for w
      using assms(1) by (auto simp: M_def S_def)
    obtain ok1 ms1 where m: "next_malloc ms = (ok1, ms1)"
      by fastforce
    obtain ok2 w ms2 where seed: "PKCS1_MGF1 (EVP_MD_size md1) M mgf ms1 = (ok2, w, ms2)"
      by (metis prod_cases3)
    obtain ok3 v ms3 where mask: "PKCS1_MGF1 ?dl (xor_bytes w S) mgf ms2 = (ok3, v, ms3)"
      by (metis prod_cases3)
    obtain ph ms4 where hash: "EVP_Digest param md1 ms3 = (ph, ms4)"
      by fastforce
    note seed' = PKCS1_MGF1_result [OF seed small(1)] and mask' = PKCS1_MGF1_result [OF mask small(2)]
      and hash' = EVP_Digest_result [OF hash assms(2)] and m' = next_malloc_ok [OF _ m]
    note step = res [unfolded start if_not_P [OF False] parts S_def [symmetric] m prod.case seed mask hash]
    show ?thesis
    proof (cases "ok1 \<and> ok2 \<and> ok3 \<and> ph \<noteq> None")
      case False
      then have "False \<in> set ms"
        using m' seed'(2) mask'(2) hash'(2) by blast
      moreover have "res = Inl ERR_R_MALLOC_FAILURE \<or> res = Inl Callee_failed"
        using step False by (cases ph) (auto split: if_splits)
      ultimately show ?thesis
        by blast
    next
      case True
      let ?db = "xor_bytes v M"
      have db: "length ?db = unat ?dl"
        using mask'(1) True by (simp add: length_mgf1 dl M_def)
      obtain bad one where scan: "oaep_scan ?db (frm ! 0) (digest_of md1 param) (EVP_MD_size md1) = (bad, one)"
        by fastforce
      have "res = (if bad \<noteq> 0 then Inl RSA_R_OAEP_DECODING_ERROR
          else if max_out < ?dl - (one + 1) then Inl RSA_R_DATA_TOO_LARGE
          else Inr (take (unat (?dl - (one + 1))) (drop (unat (one + 1)) ?db)))"
        using step True hash'(1) scan by (auto split: if_splits)
      moreover have "oaep_decode md1 mgf param (unat max_out) frm = (if bad \<noteq> 0 then Inl RSA_R_OAEP_DECODING_ERROR
          else if unat max_out < unat ?dl - (unat one + 1) then Inl RSA_R_DATA_TOO_LARGE
          else Inr (drop (unat one + 1) ?db))"
        using False seed'(1) mask'(1) True scan unfolding oaep_decode_def Let_def dl
        by (simp only: M_def [symmetric] S_def [symmetric] prod.case if_False dl)
      moreover have "unat (one + 1) = unat one + 1 \<and> unat (?dl - (one + 1)) = unat ?dl - (unat one + 1)" if "bad = 0"
      proof (rule unat_after)
        have "unat (EVP_MD_size md1) \<le> length ?db"
          unfolding db dl using long by linarith
        then show "unat one + 1 \<le> unat ?dl"
          using oaep_scan_inside [OF evp.length_digest _ scan that] unat_lt64 [of ?dl] unfolding db by simp
      qed
      ultimately show ?thesis
        using db unfolding md1_def [symmetric] mgf_def [symmetric] by (auto simp: word_less_nat_alt)
    qed
  qed
qed

lemma pieces:
  assumes "length xs = n1 + n2 + n3 + n4"
  obtains A B C D where "xs = A @ B @ C @ D" "length A = n1" "length B = n2" "length C = n3" "length D = n4"
proof (rule that)
  show "xs = take n1 xs @ take n2 (drop n1 xs) @ take n3 (drop (n1 + n2) xs) @ drop (n1 + n2 + n3) xs"
    by (metis add.commute append_take_drop_id drop_drop)
qed (use assms in simp_all)

lemma oaep_db_writes:
  assumes "length phash = hl" "2 * hl + 2 + length m \<le> length to"
  defines "k \<equiv> length to" and "db \<equiv> hl + 1"
  shows "\<exists>A. length A = hl \<and>
    mem_write ((mem_write (mem_write (to[0 := 0]) db phash) (db + hl) (replicate (k - 1 - length m - 2 * hl - 1) 0))
        [db + (k - 1 - length m - hl - 1) := 1]) (db + (k - 1 - length m - hl)) m =
      0 # A @ phash @ replicate (k - 1 - length m - 2 * hl - 1) 0 @ 1 # m"
proof -
  obtain t0 ts where to: "to = t0 # ts"
    using assms(2) by (cases to) auto
  define z where "z = k - 1 - length m - 2 * hl - 1"
  have "length ts = hl + hl + z + (1 + length m)"
    using assms(2) by (simp add: z_def k_def to)
  then obtain A P Z E where ts: "ts = A @ P @ Z @ E" "length A = hl" "length P = hl" "length Z = z" "length E = 1 + length m"
    by (rule pieces)
  obtain e es where E: "E = e # es" "length es = length m"
    using ts(5) by (cases E) auto
  have at: "length (0 # A) = db" "length (0 # A @ phash) = db + hl"
    "length (0 # A @ phash @ replicate z 0) = db + (k - 1 - length m - hl - 1)"
    "length (0 # A @ phash @ replicate z 0 @ [1]) = db + (k - 1 - length m - hl)"
    using assms ts by (simp_all add: z_def)
  have s1: "mem_write ((0 # A) @ P @ Z @ E) db phash = (0 # A @ phash) @ Z @ E"
    using mem_write_at [OF at(1), of "P @ Z @ E" phash] ts(3) assms(1) by simp
  have s2: "mem_write ((0 # A @ phash) @ Z @ E) (db + hl) (replicate z 0) = (0 # A @ phash @ replicate z 0) @ e # es"
    using mem_write_at [OF at(2), of "Z @ E" "replicate z 0"] ts(4) E by simp
  have s3: "((0 # A @ phash @ replicate z 0) @ e # es)[db + (k - 1 - length m - hl - 1) := 1] =
      (0 # A @ phash @ replicate z 0 @ [1]) @ es"
    unfolding update_append [OF at(3)] by simp
  have s4: "mem_write ((0 # A @ phash @ replicate z 0 @ [1]) @ es) (db + (k - 1 - length m - hl)) m =
      (0 # A @ phash @ replicate z 0 @ [1]) @ m"
    by (rule mem_write_last [OF at(4)]) (simp add: E)
  have "to[0 := 0] = (0 # A) @ P @ Z @ E"
    by (simp add: to ts(1))
  then show ?thesis
    unfolding z_def [symmetric] by (intro exI [of _ A]) (simp only: s1 s2 s3 s4 ts(2), simp)
qed

lemma oaep_add_sizes:
  fixes md k n
  defines "s \<equiv> EVP_MD_size md" and "hl \<equiv> unat (EVP_MD_size md)"
  assumes "k < 2 ^ 64" "n < 2 ^ 64" "2 * hl + 2 \<le> k"
  defines "emlen \<equiv> (of_nat k :: usize) - 1"
  shows "emlen - 2 * s - 1 < of_nat n \<longleftrightarrow> k < n + 2 * hl + 2" "\<not> emlen < 2 * s + 1"
    and "n + 2 * hl + 2 \<le> k \<Longrightarrow> unat (emlen - of_nat n - 2 * s - 1) = k - 1 - n - 2 * hl - 1"
    and "n + 2 * hl + 2 \<le> k \<Longrightarrow> unat (emlen - of_nat n - s - 1) = k - 1 - n - hl - 1"
    and "n + 2 * hl + 2 \<le> k \<Longrightarrow> unat (emlen - of_nat n - s) = k - 1 - n - hl"
    and "unat (emlen - s) = k - hl - 1"
proof -
  have s: "s = of_nat hl" and hl: "hl \<le> 64"
    using size_bounds(2) [of md] by (simp_all add: s_def hl_def)
  have d: "emlen - 2 * s - 1 = of_nat k - of_nat (2 * hl + 2)" "emlen = of_nat k - of_nat 1" "2 * s + 1 = of_nat (2 * hl + 1)"
    "emlen - of_nat n - 2 * s - 1 = of_nat k - of_nat (1 + n + 2 * hl + 1)"
    "emlen - of_nat n - s - 1 = of_nat k - of_nat (1 + n + hl + 1)"
    "emlen - of_nat n - s = of_nat k - of_nat (1 + n + hl)"
    "emlen - s = of_nat k - of_nat (hl + 1)"
    by (simp_all add: emlen_def s)
  show "emlen - 2 * s - 1 < of_nat n \<longleftrightarrow> k < n + 2 * hl + 2"
    unfolding d(1) size_sub [OF assms(3,5)] using size_less [of "k - (2 * hl + 2)" n] assms(3-5) by auto
  show "\<not> emlen < 2 * s + 1"
    unfolding word_less_nat_alt d(3) unfolding d(2)
    using unat_diff [of 1 k] unat_size [of "2 * hl + 1"] assms(3,5) by (simp del: of_nat_1 of_nat_add of_nat_mult)
  show "unat (emlen - of_nat n - 2 * s - 1) = k - 1 - n - 2 * hl - 1" if "n + 2 * hl + 2 \<le> k"
    unfolding d(4) using that assms(3) by (subst unat_diff; simp)
  show "unat (emlen - of_nat n - s - 1) = k - 1 - n - hl - 1" if "n + 2 * hl + 2 \<le> k"
    unfolding d(5) using that assms(3) by (subst unat_diff; simp)
  show "unat (emlen - of_nat n - s) = k - 1 - n - hl" if "n + 2 * hl + 2 \<le> k"
    unfolding d(6) using that assms(3) by (subst unat_diff; simp)
  show "unat (emlen - s) = k - hl - 1"
    unfolding d(7) using assms(3,5) by (subst unat_diff; simp)
qed

lemma oaep_mask_writes:
  assumes "length A = hl" "length rand = hl" "length w = length D" "length v = hl"
  defines "to1 \<equiv> mem_write (0 # A @ D) 1 rand"
  defines "to2 \<equiv> mem_write to1 (hl + 1) (xor_bytes D w)"
  shows "take hl (drop 1 to1) = rand" "take (length D) (drop (hl + 1) to1) = D"
    and "take (length D) (drop (hl + 1) to2) = xor_bytes D w" "take hl (drop 1 to2) = rand"
    and "mem_write to2 1 (xor_bytes rand v) = 0 # xor_bytes rand v @ xor_bytes D w"
proof -
  have to1: "to1 = (0 # rand) @ D"
    using assms(1,2) mem_write_at [of "[0]" 1 "A @ D" rand] by (simp add: to1_def)
  have to2: "to2 = [0] @ rand @ xor_bytes D w"
    unfolding to2_def to1 using mem_write_last [of "0 # rand" "hl + 1" "xor_bytes D w" D] assms(2,3) by simp
  show "take hl (drop 1 to1) = rand" "take (length D) (drop (hl + 1) to1) = D"
    "take (length D) (drop (hl + 1) to2) = xor_bytes D w" "take hl (drop 1 to2) = rand"
    unfolding to2 unfolding to1 using assms(2,3) by simp_all
  show "mem_write to2 1 (xor_bytes rand v) = 0 # xor_bytes rand v @ xor_bytes D w"
    unfolding to2 using mem_write_at [of "[0]" 1 "rand @ xor_bytes D w" "xor_bytes rand v"] assms(2,4) by simp
qed

lemma oaep_mask_exact:
  fixes md mgf rand A D
  defines "s \<equiv> EVP_MD_size md" and "hl \<equiv> unat (EVP_MD_size md)" and "v \<equiv> xor_bytes D (mgf1 mgf rand (length D))"
  assumes "length A = hl" "length rand = hl" "unat dblen = length D" "unat (s + 1) = hl + 1"
    and mask: "oaep_mask s dblen mgf (mem_write (0 # A @ D) 1 rand) ms = (res, em, ms')"
  shows "(res = Inr () \<and> em = 0 # xor_bytes rand (mgf1 mgf v hl) @ v) \<or>
    False \<in> set ms \<and> (res = Inl ERR_R_MALLOC_FAILURE \<or> res = Inl Callee_failed)"
proof -
  obtain ok1 ms1 where m: "next_malloc ms = (ok1, ms1)"
    by fastforce
  obtain ok2 w ms2 where w: "PKCS1_MGF1 dblen rand mgf ms1 = (ok2, w, ms2)"
    by (metis prod_cases3)
  obtain ok3 u ms3 where u: "PKCS1_MGF1 s (xor_bytes D w) mgf ms2 = (ok3, u, ms3)"
    by (metis prod_cases3)
  have small: "length rand < 2 ^ 64" "length (xor_bytes D w) < 2 ^ 64"
    using unat_lt64 [of s] unat_lt64 [of dblen] assms(5,6) by (simp_all add: hl_def s_def min.strict_coboundedI1)
  note w' = PKCS1_MGF1_result [OF w small(1)] and u' = PKCS1_MGF1_result [OF u small(2)] and m' = next_malloc_ok [OF _ m]
  have hl: "unat s = hl"
    by (simp add: s_def hl_def)
  note start = mask [unfolded oaep_mask_def Let_def m assms(6,7) hl oaep_mask_writes(1,2) [OF assms(4,5) refl assms(5)] w prod.case]
  show ?thesis
  proof (cases "ok1 \<and> ok2")
    case False
    then show ?thesis
      using start w'(2) m' by (cases ok1) auto
  next
    case True
    then have v: "length w = length D" "v = xor_bytes D w"
      using w'(1) assms(6) by (simp_all add: length_mgf1 v_def)
    note start2 = start [unfolded oaep_mask_writes(3) [OF assms(4,5) v(1) assms(5)] u prod.case]
    show ?thesis
    proof (cases ok3)
      case False
      then show ?thesis
        using start2 True w'(2) u'(2) m' by auto
    next
      case ok3: True
      then have "u = mgf1 mgf v hl" "length u = hl"
        using u'(1) v(2) hl by (simp_all add: length_mgf1)
      then show ?thesis
        using start2 True ok3 oaep_mask_writes(4,5) [OF assms(4,5) v(1), of u] v(2) by auto
    qed
  qed
qed

lemma add_OAEP:
  fixes md mgf1md to frm
  defines "m1 \<equiv> oaep_md md" and "k \<equiv> length to"
  defines "hl \<equiv> unat (EVP_MD_size m1)" and "mgf \<equiv> mgf1_md mgf1md m1"
  assumes "k < 2 ^ 64" "length frm < 2 ^ 64" "length param < 2 ^ 64" "rng_ok rng" "length frm + 2 * hl + 2 \<le> k"
    and res: "RSA_padding_add_PKCS1_OAEP_mgf1 rng to frm param md mgf1md ms r = (res, em, ms', r')"
  shows "(\<exists>seed. rng r (EVP_MD_size m1) = (Some seed, r') \<and> res = Inr () \<and> em = oaep_em m1 mgf param seed frm k \<and> length seed = hl) \<or>
    (False \<in> set ms \<or> fst (rng r (EVP_MD_size m1)) = None) \<and> (res = Inl ERR_R_MALLOC_FAILURE \<or> res = Inl Callee_failed)"
proof -
  have long: "2 * hl + 2 \<le> k" and g: "\<not> k < 2 * hl + 2" "\<not> k < length frm + 2 * hl + 2"
    using assms(9) by simp_all
  note sizes = oaep_add_sizes [OF assms(5,6) long [unfolded hl_def], folded hl_def]
  define D where "D = oaep_db m1 param frm k"
  have D: "length D = k - hl - 1"
    using assms(9) by (simp add: D_def oaep_db_def evp.length_digest flip: hl_def)
  have nat: "unat (EVP_MD_size m1 + 1) = hl + 1" "unat (EVP_MD_size m1) = hl"
    using oaep_sizes(4) [OF assms(5), of m1] by (simp_all add: hl_def)
  obtain ph ms1 where hash: "EVP_Digest param m1 ms = (ph, ms1)"
    by fastforce
  obtain seed r1 where drawn: "rng r (EVP_MD_size m1) = (seed, r1)"
    by fastforce
  note start = res [unfolded RSA_padding_add_PKCS1_OAEP_mgf1_def Let_def, folded m1_def, folded mgf_def k_def,
      unfolded oaep_sizes(1) [OF assms(5), of m1], folded hl_def,
      unfolded if_not_P [OF g(1)] sizes(1) if_not_P [OF g(2)] if_not_P [OF sizes(2)] hash]
  show ?thesis
  proof (cases "ph = None \<or> seed = None")
    case True
    then show ?thesis
      using start drawn EVP_Digest_result(2) [OF hash assms(7)] by (cases ph) auto
  next
    case False
    then have ph: "ph = Some (digest_of m1 param, md_size (env_md m1))"
      using EVP_Digest_result(1) [OF hash assms(7)] by auto
    obtain rand where rand: "seed = Some rand" "length rand = hl"
      using False drawn assms(8) unfolding rng_ok_def hl_def by blast
    obtain A where A: "length A = hl" "mem_write ((mem_write (mem_write (to[0 := 0]) (hl + 1) (digest_of m1 param)) (hl + 1 + hl)
        (replicate (k - 1 - length frm - 2 * hl - 1) 0))[hl + 1 + (k - 1 - length frm - hl - 1) := 1])
        (hl + 1 + (k - 1 - length frm - hl)) frm = 0 # A @ D"
      using oaep_db_writes [of "digest_of m1 param" hl frm to] assms(9)
      unfolding k_def [symmetric] D_def oaep_db_def by (auto simp: evp.length_digest simp flip: hl_def)
    obtain res1 em1 ms2 where mask: "oaep_mask (EVP_MD_size m1) (of_nat k - 1 - EVP_MD_size m1) mgf
        (mem_write (0 # A @ D) 1 rand) ms1 = (res1, em1, ms2)"
      by (metis prod_cases3)
    have "res = res1 \<and> em = em1 \<and> r' = r1"
      using start [unfolded ph option.case prod.case drawn rand(1) nat sizes(3-5) [OF assms(9)] A(2) mask] by simp
    moreover have "oaep_em m1 mgf param rand frm k =
        0 # xor_bytes rand (mgf1 mgf (xor_bytes D (mgf1 mgf rand (length D))) hl) @ xor_bytes D (mgf1 mgf rand (length D))"
      unfolding oaep_em_def Let_def hl_def [symmetric] D_def [symmetric] D by simp
    moreover have "False \<in> set ms" if "False \<in> set ms1"
      using EVP_Digest_result(2) [OF hash assms(7)] that by blast
    ultimately show ?thesis
      using oaep_mask_exact [OF A(1) [unfolded hl_def] rand(2) [unfolded hl_def] _ nat(1) [unfolded hl_def] mask, folded hl_def]
        sizes(6) D drawn rand by auto
  qed
qed

lemma add_OAEP_refuses:
  fixes md to frm
  defines "k \<equiv> length to" and "hl \<equiv> unat (EVP_MD_size (oaep_md md))"
  assumes "k < 2 ^ 64" "length frm < 2 ^ 64"
  shows "k < 2 * hl + 2 \<Longrightarrow> RSA_padding_add_PKCS1_OAEP_mgf1 rng to frm param md mgf1md ms r = (Inl RSA_R_KEY_SIZE_TOO_SMALL, to, ms, r)"
    and "2 * hl + 2 \<le> k \<Longrightarrow> k < length frm + 2 * hl + 2 \<Longrightarrow>
      RSA_padding_add_PKCS1_OAEP_mgf1 rng to frm param md mgf1md ms r = (Inl RSA_R_DATA_TOO_LARGE, to, ms, r)"
proof -
  note start = RSA_padding_add_PKCS1_OAEP_mgf1_def [of rng to frm param md mgf1md ms r, unfolded Let_def, folded k_def,
      unfolded oaep_sizes(1) [OF assms(3)], folded hl_def]
  show "k < 2 * hl + 2 \<Longrightarrow> RSA_padding_add_PKCS1_OAEP_mgf1 rng to frm param md mgf1md ms r = (Inl RSA_R_KEY_SIZE_TOO_SMALL, to, ms, r)"
    by (simp add: start)
  show "RSA_padding_add_PKCS1_OAEP_mgf1 rng to frm param md mgf1md ms r = (Inl RSA_R_DATA_TOO_LARGE, to, ms, r)"
    if "2 * hl + 2 \<le> k" "k < length frm + 2 * hl + 2"
    using oaep_add_sizes(1) [OF assms(3,4) that(1) [unfolded hl_def], folded hl_def] that by (simp add: start)
qed

lemma decoding_exact:
  fixes E :: "bytes \<Rightarrow> bytes \<Rightarrow> bool"
  assumes "(\<exists>seed m. E seed m \<and> (\<forall>seed' m'. E seed' m' \<longrightarrow> m' = m) \<and>
        d = (if length m \<le> n then Inr m else Inl RSA_R_DATA_TOO_LARGE)) \<or>
      (\<nexists>seed m. E seed m) \<and> d = Inl RSA_R_OAEP_DECODING_ERROR"
  shows "(d = Inr m \<longleftrightarrow> (\<exists>seed. E seed m) \<and> length m \<le> n) \<and>
      ((\<nexists>seed m. E seed m) \<longrightarrow> d = Inl RSA_R_OAEP_DECODING_ERROR)"
  using assms
proof (elim disjE exE conjE)
  fix seed m1
  assume m1: "E seed m1" "\<forall>seed' m'. E seed' m' \<longrightarrow> m' = m1"
    and d: "d = (if length m1 \<le> n then Inr m1 else Inl RSA_R_DATA_TOO_LARGE)"
  have "(\<exists>seed. E seed m) \<longleftrightarrow> m = m1" "\<exists>seed m. E seed m"
    using m1 by blast+
  moreover have "d = Inr m \<longleftrightarrow> m = m1 \<and> length m \<le> n"
    unfolding d by auto
  ultimately show ?thesis
    by simp
next
  assume none: "\<nexists>seed m. E seed m" and "d = Inl RSA_R_OAEP_DECODING_ERROR"
  moreover have "\<nexists>seed. E seed m"
    using none by blast
  ultimately show ?thesis
    by simp
qed

section \<open>Properties\<close>

text \<open>
  Claim C23: when memory does not run out, the OAEP check returns a message exactly when the block is an encoding of it
  (for the label, the digest and the mask digest at hand, null pointers standing for the defaults) that fits the
  output; whatever is wrong with a block that encodes no message, the reason is the same, and the first byte, the
  label's digest and the data block are all looked at before it is given.
\<close>

theorem OAEP_check_exact:
  assumes "length frm < 2 ^ 64" "length param < 2 ^ 64" "False \<notin> set ms"
  shows "let m1 = oaep_md md; mgf = mgf1_md mgf1md m1;
        res = fst (RSA_padding_check_PKCS1_OAEP_mgf1 max_out frm param md mgf1md ms)
    in (res = Inr m \<longleftrightarrow> (\<exists>seed. oaep_encodes m1 mgf param frm seed m) \<and> length m \<le> unat max_out) \<and>
       ((\<nexists>seed m. oaep_encodes m1 mgf param frm seed m) \<longrightarrow> res = Inl RSA_R_OAEP_DECODING_ERROR)"
proof -
  obtain res ms' where "RSA_padding_check_PKCS1_OAEP_mgf1 max_out frm param md mgf1md ms = (res, ms')"
    by fastforce
  with check_OAEP [OF assms(1,2) this] assms(3)
  have "fst (RSA_padding_check_PKCS1_OAEP_mgf1 max_out frm param md mgf1md ms) =
      oaep_decode (oaep_md md) (mgf1_md mgf1md (oaep_md md)) param (unat max_out) frm"
    by simp
  then show ?thesis
    unfolding Let_def by (simp only:) (rule decoding_exact [OF oaep_decode_exact [OF assms(1)]])
qed

text \<open>A block of 42 bytes, too short to encode even the empty message with SHA-1 and a first byte of one.\<close>

lemma OAEP_check_exact_witness:
  "fst (RSA_padding_check_PKCS1_OAEP_mgf1 10 (1 # replicate 41 0) [] None None []) = Inl RSA_R_OAEP_DECODING_ERROR"
proof -
  have "\<not> oaep_encodes md mgf label (1 # replicate 41 0) seed m" for md mgf label seed m
    by (simp add: oaep_encodes_def oaep_em_def Let_def)
  then show ?thesis
    using OAEP_check_exact [of "1 # replicate 41 0" "[]" "[]" None None 10 "[]"] by (simp add: Let_def)
qed

text \<open>
  Claim C24: a message that leaves room for two digests and two bytes is encoded into the whole buffer, whatever the
  buffer held, the check returns it with the same label and digests, and both fail only where memory or the random
  source does.
\<close>

theorem OAEP_roundtrip:
  assumes "length to < 2 ^ 64" "length param < 2 ^ 64" "length frm \<le> unat max_out" "rng_ok rng"
    and "length frm + 2 * unat (EVP_MD_size (oaep_md md)) + 2 \<le> length to"
    and "False \<notin> set ms" "False \<notin> set ms2" "fst (rng r (EVP_MD_size (oaep_md md))) \<noteq> None"
  shows "\<exists>em ms' r'. RSA_padding_add_PKCS1_OAEP_mgf1 rng to frm param md mgf1md ms r = (Inr (), em, ms', r') \<and>
    length em = length to \<and> fst (RSA_padding_check_PKCS1_OAEP_mgf1 max_out em param md mgf1md ms2) = Inr frm"
proof -
  let ?md = "oaep_md md"
  let ?mgf = "mgf1_md mgf1md ?md"
  obtain res em ms' r' where add: "RSA_padding_add_PKCS1_OAEP_mgf1 rng to frm param md mgf1md ms r = (res, em, ms', r')"
    by (metis prod_cases4)
  have small: "length frm < 2 ^ 64"
    using assms(1,5) by linarith
  obtain seed where seed: "res = Inr ()" "em = oaep_em ?md ?mgf param seed frm (length to)" "length seed = unat (EVP_MD_size ?md)"
    using add_OAEP [OF assms(1) small assms(2,4,5) add] assms(6,8) by blast
  have em: "length em = length to"
    using assms(5) seed(3) by (simp add: seed(2) oaep_em_def oaep_db_def Let_def length_mgf1 evp.length_digest)
  then have encodes: "oaep_encodes ?md ?mgf param em seed frm"
    using seed assms(5) by (simp add: oaep_encodes_def)
  obtain res2 ms3 where "RSA_padding_check_PKCS1_OAEP_mgf1 max_out em param md mgf1md ms2 = (res2, ms3)"
    by fastforce
  with check_OAEP [OF _ assms(2) this] assms(1,7) em
  have "fst (RSA_padding_check_PKCS1_OAEP_mgf1 max_out em param md mgf1md ms2) = oaep_decode ?md ?mgf param (unat max_out) em"
    by simp
  also have "\<dots> = Inr frm"
    using oaep_decode_exact [of em ?md ?mgf param "unat max_out"] encodes em assms(1,3) by auto
  finally show ?thesis
    using add seed(1) em by blast
qed

text \<open>The message \<open>1 2 3\<close> in 128 bytes, with SHA-1 and an empty label.\<close>

lemma OAEP_roundtrip_witness:
  "\<exists>em ms' r'. RSA_padding_add_PKCS1_OAEP_mgf1 (\<lambda>r n. (Some (replicate (unat n) r), r + 1)) (replicate 128 0) [1, 2, 3]
       [] None None [] (7 :: u8) = (Inr (), em, ms', r') \<and> length em = 128 \<and>
     fst (RSA_padding_check_PKCS1_OAEP_mgf1 3 em [] None None []) = Inr [1, 2, 3]"
proof -
  have rng: "rng_ok (\<lambda>(r :: u8) n. (Some (replicate (unat n) r), r + 1))"
    by (simp add: rng_ok_def)
  have "unat (EVP_MD_size EVP_sha1) = 20"
    by (simp add: EVP_MD_size_def methods)
  then show ?thesis
    using OAEP_roundtrip [of "replicate 128 0" "[]" "[1, 2, 3]" 3 _ None "[]" "[]" "7 :: u8" None, OF _ _ _ rng]
    by (simp add: oaep_md_def)
qed

end
