(* ===== verification/RSA_PSS.thy ===== *)
theory RSA_PSS
  imports RSA_OAEP
begin

text \<open>
  The PSS padding of \<open>crypto/fipsmodule/rsa/padding.c\<close> (BoringSSL): the functions that write and that verify it, and
  their equivalence with EMSA-PSS of RFC 8017, 9.1.

  Of the key the code reads \<open>BN_num_bits(rsa->n)\<close>, the parameter \<open>num_bits\<close>; \<open>RSA_size\<close> is the one of a key without
  a method of its own.  The salt length is an \<open>int\<close>, small enough that \<open>(int)hLen + sLen + 2\<close> does not overflow.
\<close>

section \<open>The model\<close>

definition kPSSZeroes :: bytes where "kPSSZeroes = [0, 0, 0, 0, 0, 0, 0, 0]"

definition RSA_size :: "u32 \<Rightarrow> usize" where "RSA_size num_bits = ucast ((num_bits + 7) div 8)"

text \<open>\<open>if (MSBits) { DB[0] &= 0xFF >> (8 - MSBits); }\<close>\<close>

definition clear_top :: "nat \<Rightarrow> bytes \<Rightarrow> bytes" where
  "clear_top MSBits DB = (if MSBits \<noteq> 0 then DB[0 := DB ! 0 AND drop_bit (8 - MSBits) 0xff] else DB)"

text \<open>\<open>for (i = 0; DB[i] == 0 && i < maskedDBLen - 1; i++)\<close>, from \<open>i\<close> with the bytes that follow\<close>

fun skip_zeros :: "bytes \<Rightarrow> nat \<Rightarrow> nat" where
  "skip_zeros (b # c # bs) i = (if b = 0 then skip_zeros (c # bs) (i + 1) else i)"
| "skip_zeros bs i = i"

text \<open>The digest of the zeros, the message digest and the salt, in a fresh context.\<close>

definition pss_digest :: "EVP_MD \<Rightarrow> bytes \<Rightarrow> bytes \<Rightarrow> mallocs \<Rightarrow> bytes option \<times> mallocs" where
  "pss_digest Hash mHash salt ms =
     (let (ok, ms, ctx) = EVP_DigestInit_ex Hash ms (EVP_MD_CTX_init :: unit EVP_MD_CTX)
      in if \<not> ok then (None, ms)
         else
           let ctx = EVP_DigestUpdate kPSSZeroes ctx;
               ctx = EVP_DigestUpdate (take (unat (EVP_MD_size Hash)) mHash) ctx;
               ctx = EVP_DigestUpdate salt ctx;
               (out, n, ctx) = EVP_DigestFinal_ex ctx
           in (Some out, ms))"

text \<open>
  \<open>RSA_verify_PKCS1_PSS_mgf1\<close> from the test of the last byte on: \<open>EM\<close>, \<open>emLen\<close> and \<open>sLen\<close> are those of the code from
  there on.
\<close>

definition pss_check ::
  "nat \<Rightarrow> bytes \<Rightarrow> int \<Rightarrow> bytes \<Rightarrow> EVP_MD \<Rightarrow> EVP_MD \<Rightarrow> int \<Rightarrow> mallocs \<Rightarrow> (rsa_reason + unit) \<times> mallocs" where
  "pss_check MSBits EM emLen mHash Hash mgf1Hash sLen ms =
     (let hLen = EVP_MD_size Hash
      in if EM ! nat (emLen - 1) \<noteq> 0xbc then (Inl RSA_R_LAST_OCTET_INVALID, ms)
         else
           let maskedDBLen = nat (emLen - uint hLen - 1);
               H = take (unat hLen) (drop maskedDBLen EM);
               (ok, ms) = next_malloc ms
           in if \<not> ok then (Inl ERR_R_MALLOC_FAILURE, ms)
              else
                let (ok, DB, ms) = PKCS1_MGF1 (of_nat maskedDBLen) H mgf1Hash ms
                in if \<not> ok then (Inl Callee_failed, ms)
                   else
                     let DB = xor_bytes DB (take maskedDBLen EM);
                         DB = clear_top MSBits DB;
                         i = skip_zeros DB 0
                     in if DB ! i \<noteq> 1 then (Inl RSA_R_SLEN_RECOVERY_FAILED, ms)
                        else
                          let i = i + 1
                          in if 0 \<le> sLen \<and> int maskedDBLen - int i \<noteq> sLen then (Inl RSA_R_SLEN_CHECK_FAILED, ms)
                             else
                               (case pss_digest Hash mHash (take (maskedDBLen - i) (drop i DB)) ms of
                                  (None, ms) \<Rightarrow> (Inl Callee_failed, ms)
                                | (Some H_, ms) \<Rightarrow>
                                    if take (unat hLen) H_ \<noteq> H then (Inl RSA_R_BAD_SIGNATURE, ms)
                                    else (Inr (), ms)))"

definition RSA_verify_PKCS1_PSS_mgf1 ::
  "u32 \<Rightarrow> bytes \<Rightarrow> EVP_MD \<Rightarrow> EVP_MD option \<Rightarrow> bytes \<Rightarrow> int \<Rightarrow> mallocs \<Rightarrow> (rsa_reason + unit) \<times> mallocs" where
  "RSA_verify_PKCS1_PSS_mgf1 num_bits mHash Hash mgf1Hash EM sLen ms =
     (let mgf1Hash = mgf1_md mgf1Hash Hash;
          hLen = EVP_MD_size Hash
      in if sLen \<noteq> -1 \<and> sLen \<noteq> -2 \<and> sLen < -2 then (Inl RSA_R_SLEN_CHECK_FAILED, ms)
         else
           let sLen = (if sLen = -1 then uint hLen else sLen);
               MSBits = unat ((num_bits - 1) AND 7);
               emLen = uint (RSA_size num_bits)
           in if (ucast (EM ! 0) :: u32) AND push_bit MSBits 0xff \<noteq> 0 then (Inl RSA_R_FIRST_OCTET_INVALID, ms)
              else
                let (EM, emLen) = (if MSBits = 0 then (drop 1 EM, emLen - 1) else (EM, emLen))
                in if emLen < uint hLen + 2 \<or> emLen < uint hLen + sLen + 2 then (Inl RSA_R_DATA_TOO_LARGE, ms)
                   else pss_check MSBits EM emLen mHash Hash mgf1Hash sLen ms)"

text \<open>
  The salt: its length (\<open>sLen\<close> of the code, from \<open>sLenRequested\<close>), and its bytes, drawn only when it is not empty.
\<close>

definition pss_salt_len :: "int \<Rightarrow> usize \<Rightarrow> usize \<Rightarrow> rsa_reason + usize" where
  "pss_salt_len sLenRequested emLen hLen =
     (if sLenRequested = -1 then Inr hLen
      else if sLenRequested = -2 then Inr (emLen - hLen - 2)
      else if sLenRequested < 0 then Inl RSA_R_SLEN_CHECK_FAILED
      else Inr (of_int sLenRequested))"

definition pss_salt :: "'r rng \<Rightarrow> usize \<Rightarrow> mallocs \<Rightarrow> 'r \<Rightarrow> (rsa_reason + bytes) \<times> mallocs \<times> 'r" where
  "pss_salt rng sLen ms r =
     (if 0 < sLen
      then let (ok, ms) = next_malloc ms
           in if \<not> ok then (Inl ERR_R_MALLOC_FAILURE, ms, r)
              else case rng r sLen of
                  (None, r) \<Rightarrow> (Inl Callee_failed, ms, r)
                | (Some salt, r) \<Rightarrow> (Inr salt, ms, r)
      else (Inr [], ms, r))"

text \<open>
  \<open>RSA_padding_add_PKCS1_PSS_mgf1\<close> once the leading zero is written, if there is one: \<open>EM\<close> and \<open>emLen\<close> are those of
  the code from there on.
\<close>

definition pss_write ::
  "'r rng \<Rightarrow> nat \<Rightarrow> bytes \<Rightarrow> usize \<Rightarrow> bytes \<Rightarrow> EVP_MD \<Rightarrow> EVP_MD \<Rightarrow> int \<Rightarrow> mallocs \<Rightarrow> 'r \<Rightarrow>
     (rsa_reason + unit) \<times> bytes \<times> mallocs \<times> 'r" where
  "pss_write rng MSBits EM emLen mHash Hash mgf1Hash sLenRequested ms r =
     (let hLen = EVP_MD_size Hash
      in if emLen < hLen + 2 then (Inl RSA_R_DATA_TOO_LARGE, EM, ms, r)
         else
           case pss_salt_len sLenRequested emLen hLen of
             Inl e \<Rightarrow> (Inl e, EM, ms, r)
           | Inr sLen \<Rightarrow>
               if emLen - hLen - 2 < sLen then (Inl RSA_R_DATA_TOO_LARGE, EM, ms, r)
               else
                 case pss_salt rng sLen ms r of
                   (Inl e, ms, r) \<Rightarrow> (Inl e, EM, ms, r)
                 | (Inr salt, ms, r) \<Rightarrow>
                     let maskedDBLen = emLen - hLen - 1;
                         H = unat maskedDBLen
                     in case pss_digest Hash mHash salt ms of
                          (None, ms) \<Rightarrow> (Inl Callee_failed, EM, ms, r)
                        | (Some out, ms) \<Rightarrow>
                            let EM = mem_write EM H out;
                                (ok, dbmask, ms) = PKCS1_MGF1 maskedDBLen (take (unat hLen) (drop H EM)) mgf1Hash ms;
                                EM = mem_write EM 0 dbmask
                            in if \<not> ok then (Inl Callee_failed, EM, ms, r)
                               else
                                 let p = unat (emLen - sLen - hLen - 2);
                                     EM = EM[p := EM ! p XOR 1];
                                     p = p + 1;
                                     EM = mem_write EM p (xor_bytes (take (unat sLen) (drop p EM)) salt);
                                     EM = clear_top MSBits EM;
                                     EM = EM[unat (emLen - 1) := 0xbc]
                                 in (Inr (), EM, ms, r))"

definition RSA_padding_add_PKCS1_PSS_mgf1 ::
  "'r rng \<Rightarrow> u32 \<Rightarrow> bytes \<Rightarrow> bytes \<Rightarrow> EVP_MD \<Rightarrow> EVP_MD option \<Rightarrow> int \<Rightarrow> mallocs \<Rightarrow> 'r \<Rightarrow>
     (rsa_reason + unit) \<times> bytes \<times> mallocs \<times> 'r" where
  "RSA_padding_add_PKCS1_PSS_mgf1 rng num_bits EM mHash Hash mgf1Hash sLenRequested ms r =
     (let mgf1Hash = mgf1_md mgf1Hash Hash
      in if num_bits = 0 then (Inl RSA_R_EMPTY_PUBLIC_KEY, EM, ms, r)
         else
           let MSBits = unat ((num_bits - 1) AND 7);
               emLen = RSA_size num_bits
           in if MSBits = 0
              then let EM = EM[0 := 0];
                       (res, rest, ms, r) =
                         pss_write rng MSBits (drop 1 EM) (emLen - 1) mHash Hash mgf1Hash sLenRequested ms r
                   in (res, take 1 EM @ rest, ms, r)
              else pss_write rng MSBits EM emLen mHash Hash mgf1Hash sLenRequested ms r)"

section \<open>Sizes and bits\<close>

text \<open>
  The encoded message has \<open>emBits = num_bits - 1\<close> bits, in \<open>emLen\<close> bytes: one byte less than the modulus where
  \<open>emBits\<close> is a multiple of eight.
\<close>

definition pss_em_len :: "u32 \<Rightarrow> nat" where "pss_em_len num_bits = (unat num_bits - 1 + 7) div 8"

lemma unat_MSBits: "num_bits \<noteq> 0 \<Longrightarrow> unat ((num_bits - 1) AND 7) = (unat num_bits - 1) mod 8" for num_bits :: u32
proof -
  assume "num_bits \<noteq> 0"
  then have "unat (num_bits - 1) = unat num_bits - 1"
    by (simp add: unat_minus_one)
  moreover have "unat (x AND 7) = unat x mod 8" for x :: u32
    using take_bit_eq_mask [of 3 x] unsigned_take_bit_eq [of 3 x] by (simp add: mask_eq_exp_minus_1 take_bit_eq_mod)
  ultimately show ?thesis
    by simp
qed

lemma unat_RSA_size: "unat num_bits + 7 < 2 ^ 32 \<Longrightarrow> unat (RSA_size num_bits) = (unat num_bits + 7) div 8"
proof -
  assume "unat num_bits + 7 < 2 ^ 32"
  then have "unat (num_bits + 7) = unat num_bits + 7"
    by (simp add: unat_word_ariths)
  then have "unat ((num_bits + 7) div 8) = (unat num_bits + 7) div 8"
    by (simp add: unat_div)
  then show ?thesis
    using unat_lt32 [of "(num_bits + 7) div 8"] by (simp add: RSA_size_def unsigned_ucast_eq take_bit_nat_eq_self)
qed

lemma RSA_size_em_len:
  assumes "unat num_bits + 7 < 2 ^ 32" "num_bits \<noteq> 0"
  shows "unat (RSA_size num_bits) = (if (unat num_bits - 1) mod 8 = 0 then pss_em_len num_bits + 1 else pss_em_len num_bits)"
    and "8 * pss_em_len num_bits - (unat num_bits - 1) = (if (unat num_bits - 1) mod 8 = 0 then 0 else 8 - (unat num_bits - 1) mod 8)"
proof -
  have "unat num_bits \<noteq> 0"
    using assms(2) by (simp add: unat_eq_0)
  then have plus: "unat num_bits + 7 = (unat num_bits - 1) + 8"
    by simp
  have sizes: "(q * 8 + r + 8) div 8 = (if r = 0 then (q * 8 + r + 7) div 8 + 1 else (q * 8 + r + 7) div 8)"
    "8 * ((q * 8 + r + 7) div 8) - (q * 8 + r) = (if r = 0 then 0 else 8 - r)" if "r < 8" for q r :: nat
  proof -
    have "(q * 8 + r + 8) div 8 = q + 1" "(q * 8 + r + 7) div 8 = (if r = 0 then q else q + 1)"
      by (rule div_nat_eqI; use that in simp)+
    then show "(q * 8 + r + 8) div 8 = (if r = 0 then (q * 8 + r + 7) div 8 + 1 else (q * 8 + r + 7) div 8)"
      "8 * ((q * 8 + r + 7) div 8) - (q * 8 + r) = (if r = 0 then 0 else 8 - r)"
      using that by simp_all
  qed
  note at = sizes [of "(unat num_bits - 1) mod 8" "(unat num_bits - 1) div 8", unfolded div_mult_mod_eq]
  show "unat (RSA_size num_bits) = (if (unat num_bits - 1) mod 8 = 0 then pss_em_len num_bits + 1 else pss_em_len num_bits)"
    unfolding unat_RSA_size [OF assms(1)] pss_em_len_def plus by (rule at(1)) simp
  show "8 * pss_em_len num_bits - (unat num_bits - 1) = (if (unat num_bits - 1) mod 8 = 0 then 0 else 8 - (unat num_bits - 1) mod 8)"
    unfolding pss_em_len_def by (rule at(2)) simp
qed

lemma top_mask: "n \<le> 8 \<Longrightarrow> drop_bit (8 - n) (0xff :: u8) = Bit_Operations.mask n"
proof -
  assume n: "n \<le> 8"
  have ff: "(0xff :: u8) = Bit_Operations.mask 8"
    by (simp add: mask_eq_exp_minus_1)
  show ?thesis
    unfolding ff using n by (intro bit_word_eqI) (auto simp: bit_simps)
qed

lemma first_octet:
  "(ucast (e :: u8) :: u32) AND push_bit n 0xff = 0 \<longleftrightarrow> e AND Bit_Operations.mask n = e" if "n < 8"
proof -
  have ff: "(0xff :: u32) = Bit_Operations.mask 8"
    by (simp add: mask_eq_exp_minus_1)
  have "(ucast e :: u32) AND push_bit n 0xff = 0 \<longleftrightarrow> (\<forall>i. i < 8 \<and> n \<le> i \<longrightarrow> \<not> bit e i)"
  proof
    assume zero: "(ucast e :: u32) AND push_bit n 0xff = 0"
    show "\<forall>i. i < 8 \<and> n \<le> i \<longrightarrow> \<not> bit e i"
    proof (intro allI impI notI)
      fix i
      assume "i < 8 \<and> n \<le> i" "bit e i"
      then have "bit ((ucast e :: u32) AND push_bit n 0xff) i"
        unfolding ff using that by (auto simp: bit_simps)
      then show False
        unfolding zero by simp
    qed
  next
    assume none: "\<forall>i. i < 8 \<and> n \<le> i \<longrightarrow> \<not> bit e i"
    have "\<not> (bit e i \<and> n \<le> i)" for i
      using none bit_u8_ge [of i e] by (cases "i < 8") auto
    then show "(ucast e :: u32) AND push_bit n 0xff = 0"
      by (intro bit_word_eqI) (auto simp: bit_simps)
  qed
  also have "\<dots> \<longleftrightarrow> e AND Bit_Operations.mask n = e"
    unfolding bit_eq_iff using that by (auto simp: bit_simps dest: bit_imp_le_length)
  finally show ?thesis .
qed

section \<open>Clearing, masking, scanning\<close>

lemma clear_top_Cons:
  "clear_top n (b # bs) = (if n = 0 then b else b AND Bit_Operations.mask n) # bs" if "n < 8"
  using that by (simp add: clear_top_def top_mask)

lemma length_clear_top [simp]: "length (clear_top n bs) = length bs"
  by (simp add: clear_top_def)

lemma xor_swap: "length w = length s \<Longrightarrow> length S = length s \<Longrightarrow> S = xor_bytes s w \<longleftrightarrow> s = xor_bytes w S"
  using xor_bytes_twice [of s w] xor_bytes_twice [of S w] xor_bytes_commute by metis

lemma clear_xor:
  assumes "length D = length M" "length w = length M" "n < 8" "clear_top n M = M" "clear_top n D = D"
  shows "M = clear_top n (xor_bytes D w) \<longleftrightarrow> D = clear_top n (xor_bytes w M)"
proof (cases M)
  case Nil
  then show ?thesis
    using assms by (simp add: clear_top_def xor_bytes_def)
next
  case (Cons m M')
  then obtain d D' v w' where D: "D = d # D'" and w: "w = v # w'" and len: "length D' = length M'" "length w' = length M'"
    using assms(1,2) by (cases D; cases w) auto
  have tails: "M' = xor_bytes D' w' \<longleftrightarrow> D' = xor_bytes w' M'"
    by (rule xor_swap) (simp_all add: len)
  have cancel: "m = d XOR v \<longleftrightarrow> d = v XOR m" for m d v :: u8
    by (auto simp: xor.assoc xor.commute xor.left_commute)
  have heads: "m = (d XOR v) AND c \<longleftrightarrow> d = (v XOR m) AND c" if "m AND c = m" "d AND c = d" for c
  proof -
    have "bit m i = bit ((d XOR v) AND c) i \<longleftrightarrow> bit d i = bit ((v XOR m) AND c) i" for i
      using arg_cong [OF that(1), of "\<lambda>x. bit x i"] arg_cong [OF that(2), of "\<lambda>x. bit x i"]
      by (auto simp: bit_and_iff bit_xor_iff)
    then show ?thesis
      unfolding bit_eq_iff by simp
  qed
  have xors: "xor_bytes D w = (d XOR v) # xor_bytes D' w'" "xor_bytes w M = (v XOR m) # xor_bytes w' M'"
    by (simp_all add: xor_bytes_def Cons D w)
  show ?thesis
  proof (cases "n = 0")
    case True
    then show ?thesis
      unfolding xors unfolding Cons D clear_top_Cons [OF assms(3)] using cancel [of m d v] tails by simp
  next
    case False
    then have "m AND Bit_Operations.mask n = m" "d AND Bit_Operations.mask n = d"
      using assms(4,5) unfolding Cons D clear_top_Cons [OF assms(3)] by simp_all
    from heads [OF this] show ?thesis
      using False tails unfolding xors unfolding Cons D clear_top_Cons [OF assms(3)] by simp
  qed
qed

lemma skip_zeros_at: "skip_zeros (replicate z 0 @ 1 # salt) i = i + z"
proof (induction z arbitrary: i)
  case 0
  show ?case
    by (cases salt) simp_all
next
  case (Suc z)
  then show ?case
    by (cases z) simp_all
qed

lemma skip_zeros_one:
  "bs \<noteq> [] \<Longrightarrow> \<exists>z. skip_zeros bs i = i + z \<and> z < length bs \<and> (bs ! z = 1 \<longrightarrow> bs = replicate z 0 @ 1 # drop (z + 1) bs)"
proof (induction bs i rule: skip_zeros.induct)
  case (1 b c bs i)
  show ?case
  proof (cases "b = 0")
    case True
    then obtain z where "skip_zeros (c # bs) (i + 1) = i + 1 + z" "z < length (c # bs)"
      "(c # bs) ! z = 1 \<longrightarrow> c # bs = replicate z 0 @ 1 # drop (z + 1) (c # bs)"
      using 1 by blast
    then show ?thesis
      using True by (intro exI [of _ "Suc z"]) auto
  next
    case False
    then show ?thesis
      by (intro exI [of _ 0]) simp
  qed
qed auto

lemma pss_digest_result:
  assumes "pss_digest Hash mHash salt ms = (res, ms')" "length mHash = unat (EVP_MD_size Hash)" "length salt < 2 ^ 64"
  shows "res = None \<or> res = Some (digest_of Hash (replicate 8 0 @ mHash @ salt))"
    and "False \<notin> set ms \<Longrightarrow> res \<noteq> None \<and> False \<notin> set ms'"
proof -
  obtain ok ms1 ctx where init: "EVP_DigestInit_ex Hash ms (EVP_MD_CTX_init :: unit EVP_MD_CTX) = (ok, ms1, ctx)"
    by (metis prod_cases3)
  have ok: "False \<notin> set ms \<Longrightarrow> ok \<and> False \<notin> set ms1"
    using DigestInit_ok [OF _ init] by blast
  have zeros: "kPSSZeroes = replicate 8 0"
    by (simp add: kPSSZeroes_def numeral_eq_Suc)
  have hash: "take (unat (EVP_MD_size Hash)) mHash = mHash" "length mHash < 2 ^ 64" "length kPSSZeroes < 2 ^ 64"
    using assms(2) size_bounds [of Hash] by (simp_all add: kPSSZeroes_def)
  have "res = (if ok then Some (digest_of Hash (replicate 8 0 @ mHash @ salt)) else None) \<and> ms' = ms1"
  proof (cases ok)
    case True
    have "evp.hashing Hash ((([] @ kPSSZeroes) @ mHash) @ salt)
        (EVP_DigestUpdate salt (EVP_DigestUpdate mHash (EVP_DigestUpdate kPSSZeroes ctx)))"
      by (intro evp.update_hashing evp.init_hashing [OF init [unfolded eqTrueI [OF True]] typed_init] hash assms(3))
    from evp.final_hashing [OF this] show ?thesis
      using assms(1) True by (simp add: pss_digest_def init hash(1) zeros)
  next
    case False
    then show ?thesis
      using assms(1) by (simp add: pss_digest_def init)
  qed
  then show "res = None \<or> res = Some (digest_of Hash (replicate 8 0 @ mHash @ salt))"
    "False \<notin> set ms \<Longrightarrow> res \<noteq> None \<and> False \<notin> set ms'"
    using ok by auto
qed

section \<open>EMSA-PSS\<close>

text \<open>
  EMSA-PSS-ENCODE of RFC 8017, 9.1.1, from the digest of the message on; \<open>emBits\<close> is the length of the result in
  bits, and the bits in front of them are cleared.
\<close>

definition clear_leftmost :: "nat \<Rightarrow> bytes \<Rightarrow> bytes" where
  "clear_leftmost n bs = (case bs of [] \<Rightarrow> [] | b # bs \<Rightarrow> (b AND Bit_Operations.mask (8 - n)) # bs)"

definition pss_db :: "EVP_MD \<Rightarrow> nat \<Rightarrow> bytes \<Rightarrow> bytes" where
  "pss_db md emLen salt = replicate (emLen - length salt - unat (EVP_MD_size md) - 2) 0 @ [0x01] @ salt"

definition emsa_pss :: "EVP_MD \<Rightarrow> EVP_MD \<Rightarrow> nat \<Rightarrow> bytes \<Rightarrow> bytes \<Rightarrow> bytes" where
  "emsa_pss md mgf emBits mHash salt =
     (let hl = unat (EVP_MD_size md);
          emLen = (emBits + 7) div 8;
          H = digest_of md (replicate 8 0 @ mHash @ salt);
          maskedDB = xor_bytes (pss_db md emLen salt) (mgf1 mgf H (emLen - hl - 1))
      in clear_leftmost (8 * emLen - emBits) maskedDB @ H @ [0xbc])"

text \<open>
  \<open>EM\<close>, which is as long as the modulus, holds the encoding with this salt: a modulus of one bit more than a multiple
  of eight has a byte more than the encoding, and it is zero.
\<close>

definition pss_encodes :: "u32 \<Rightarrow> EVP_MD \<Rightarrow> EVP_MD \<Rightarrow> bytes \<Rightarrow> bytes \<Rightarrow> bytes \<Rightarrow> bool" where
  "pss_encodes num_bits md mgf EM mHash salt \<longleftrightarrow>
     length salt + unat (EVP_MD_size md) + 2 \<le> pss_em_len num_bits \<and>
     EM = replicate (length EM - pss_em_len num_bits) 0 @ emsa_pss md mgf (unat num_bits - 1) mHash salt"

lemma clear_leftmost_top: "n < 8 \<Longrightarrow> clear_leftmost (if n = 0 then 0 else 8 - n) bs = clear_top n bs"
proof -
  assume n: "n < 8"
  have "b AND Bit_Operations.mask 8 = b" for b :: u8
    by (rule bit_word_eqI) (simp add: bit_simps)
  then show ?thesis
    using n clear_top_Cons [OF n] by (cases bs) (simp_all add: clear_leftmost_def clear_top_def)
qed

lemma clear_pss_db: "n < 8 \<Longrightarrow> clear_top n (pss_db md k salt) = pss_db md k salt"
proof -
  assume n: "n < 8"
  have "(1 :: u8) AND Bit_Operations.mask n = 1" if "n \<noteq> 0"
    using that by (intro bit_word_eqI) (auto simp: bit_simps)
  then show ?thesis
    unfolding pss_db_def using clear_top_Cons [OF n] by (cases "k - length salt - unat (EVP_MD_size md) - 2") simp_all
qed

lemma pss_db_iff:
  assumes "length db + unat (EVP_MD_size md) + 1 = k"
  shows "db = replicate z 0 @ 1 # salt \<longleftrightarrow>
    z = k - length salt - unat (EVP_MD_size md) - 2 \<and> length salt + unat (EVP_MD_size md) + 2 \<le> k \<and> db = pss_db md k salt"
  using assms by (auto simp: pss_db_def)

text \<open>The parts of an encoding, and the data block behind the mask.\<close>

lemma emsa_pss_iff:
  fixes md mgf H M c
  defines "k \<equiv> length (M @ H @ [c])" and "w \<equiv> mgf1 mgf H (length M)"
  assumes "length H = unat (EVP_MD_size md)" "n < 8" "clear_top n M = M"
    and "(emBits + 7) div 8 = k" "8 * k - emBits = (if n = 0 then 0 else 8 - n)"
    and "length salt + unat (EVP_MD_size md) + 2 \<le> k"
  shows "M @ H @ [c] = emsa_pss md mgf emBits mHash salt \<longleftrightarrow>
    c = 0xbc \<and> H = digest_of md (replicate 8 0 @ mHash @ salt) \<and> clear_top n (xor_bytes w M) = pss_db md k salt"
proof -
  define D where "D = pss_db md k salt"
  have len: "length D = length M" "k - unat (EVP_MD_size md) - 1 = length M"
    using assms(3,8) by (simp_all add: D_def pss_db_def k_def)
  have w: "length w = length M"
    by (simp add: w_def length_mgf1)
  have "M @ H @ [c] = emsa_pss md mgf emBits mHash salt \<longleftrightarrow>
      M = clear_top n (xor_bytes D (mgf1 mgf (digest_of md (replicate 8 0 @ mHash @ salt)) (length M))) \<and>
      H = digest_of md (replicate 8 0 @ mHash @ salt) \<and> c = 0xbc"
    unfolding emsa_pss_def Let_def assms(6,7) D_def [symmetric] len(2) clear_leftmost_top [OF assms(4)]
    by (subst append_eq_append_conv) (auto simp: length_mgf1 len assms(3) evp.length_digest)
  also have "\<dots> \<longleftrightarrow> c = 0xbc \<and> H = digest_of md (replicate 8 0 @ mHash @ salt) \<and> M = clear_top n (xor_bytes D w)"
    unfolding w_def by blast
  also have "M = clear_top n (xor_bytes D w) \<longleftrightarrow> D = clear_top n (xor_bytes w M)"
    by (rule clear_xor [OF len(1) w assms(4,5)]) (simp add: D_def clear_pss_db [OF assms(4)])
  finally show ?thesis
    unfolding D_def by auto
qed

text \<open>What the scan of the data block finds.\<close>

lemma pss_scan:
  assumes "db \<noteq> []" "length db + unat (EVP_MD_size md) + 1 = k"
  shows "db ! skip_zeros db 0 = 1 \<longleftrightarrow> (\<exists>salt. length salt + unat (EVP_MD_size md) + 2 \<le> k \<and> db = pss_db md k salt)"
    and "length salt + unat (EVP_MD_size md) + 2 \<le> k \<Longrightarrow> db = pss_db md k salt \<Longrightarrow> drop (skip_zeros db 0 + 1) db = salt"
proof -
  note parts = pss_db_iff [OF assms(2)]
  have scan: "db ! skip_zeros db 0 = 1 \<and> drop (skip_zeros db 0 + 1) db = salt" if "db = replicate z 0 @ 1 # salt" for z salt
    unfolding that skip_zeros_at by (simp add: nth_append)
  have shape: "db = replicate (k - length salt - unat (EVP_MD_size md) - 2) 0 @ 1 # salt"
    if "length salt + unat (EVP_MD_size md) + 2 \<le> k" "db = pss_db md k salt" for salt
    by (rule parts [THEN iffD2]) (rule conjI [OF refl conjI [OF that]])
  show "length salt + unat (EVP_MD_size md) + 2 \<le> k \<Longrightarrow> db = pss_db md k salt \<Longrightarrow> drop (skip_zeros db 0 + 1) db = salt"
    by (rule conjunct2 [OF scan [OF shape]])
  obtain z where z: "skip_zeros db 0 = 0 + z" "db ! z = 1 \<longrightarrow> db = replicate z 0 @ 1 # drop (z + 1) db"
    using skip_zeros_one [OF assms(1), of 0] by blast
  show "db ! skip_zeros db 0 = 1 \<longleftrightarrow> (\<exists>salt. length salt + unat (EVP_MD_size md) + 2 \<le> k \<and> db = pss_db md k salt)"
  proof
    assume "db ! skip_zeros db 0 = 1"
    then have "db = replicate z 0 @ 1 # drop (z + 1) db"
      using z unfolding add_0 by metis
    then show "\<exists>salt. length salt + unat (EVP_MD_size md) + 2 \<le> k \<and> db = pss_db md k salt"
      by (intro exI) (rule conjunct2 [OF parts [THEN iffD1]])
  next
    assume "\<exists>salt. length salt + unat (EVP_MD_size md) + 2 \<le> k \<and> db = pss_db md k salt"
    then show "db ! skip_zeros db 0 = 1"
      using conjunct1 [OF scan [OF shape]] by blast
  qed
qed

section \<open>Verification\<close>

definition salt_accepted :: "int \<Rightarrow> nat \<Rightarrow> bytes \<Rightarrow> bool" where
  "salt_accepted sLen hl salt \<longleftrightarrow> sLen = -2 \<or> int (length salt) = (if sLen = -1 then int hl else sLen)"

lemma length_emsa_pss:
  "length salt + unat (EVP_MD_size md) + 2 \<le> (emBits + 7) div 8 \<Longrightarrow> length (emsa_pss md mgf emBits mHash salt) = (emBits + 7) div 8"
  by (auto simp: emsa_pss_def Let_def clear_leftmost_def pss_db_def length_mgf1 evp.length_digest split: list.splits)
    (auto dest!: arg_cong [where f = length] simp: length_mgf1)

lemma clear_emsa_pss:
  assumes "length salt + unat (EVP_MD_size md) + 2 \<le> (emBits + 7) div 8" "n < 8"
    and "8 * ((emBits + 7) div 8) - emBits = (if n = 0 then 0 else 8 - n)"
  shows "clear_top n (emsa_pss md mgf emBits mHash salt) = emsa_pss md mgf emBits mHash salt"
proof -
  define k where "k = (emBits + 7) div 8"
  define X where "X = xor_bytes (pss_db md k salt) (mgf1 mgf (digest_of md (replicate 8 0 @ mHash @ salt)) (k - unat (EVP_MD_size md) - 1))"
  have "length X = k - unat (EVP_MD_size md) - 1"
    using assms(1) by (simp add: X_def pss_db_def length_mgf1 k_def)
  then obtain x X' where X: "X = x # X'"
    using assms(1) by (cases X) (auto simp: k_def)
  have "clear_top n (clear_top n X @ R) = clear_top n X @ R" for R
    unfolding X append_Cons clear_top_Cons [OF assms(2)] by (simp add: and.assoc)
  then show ?thesis
    unfolding emsa_pss_def Let_def k_def [symmetric] X_def [symmetric] assms(3) [folded k_def]
      clear_leftmost_top [OF assms(2)] .
qed

text \<open>The test of the first byte, with the step over it where the encoding does not reach it.\<close>

lemma pss_first_octet:
  fixes num_bits EM
  defines "n \<equiv> pss_em_len num_bits" and "msb \<equiv> (unat num_bits - 1) mod 8"
  defines "E \<equiv> drop (length EM - n) EM"
  assumes "unat num_bits + 7 < 2 ^ 32" "num_bits \<noteq> 0" "length EM = unat (RSA_size num_bits)"
  shows "length E = n"
    and "(if msb = 0 then (drop 1 EM, uint (RSA_size num_bits) - 1) else (EM, uint (RSA_size num_bits))) = (E, int n)"
    and "(ucast (EM ! 0) :: u32) AND push_bit msb 0xff = 0 \<longleftrightarrow> EM = replicate (length EM - n) 0 @ E \<and> (n \<noteq> 0 \<longrightarrow> clear_top msb E = E)"
proof -
  have msb: "msb < 8"
    by (simp add: msb_def)
  have k: "length EM = (if msb = 0 then n + 1 else n)"
    using RSA_size_em_len(1) [OF assms(4,5)] assms(6) by (simp add: msb_def n_def)
  then show len: "length E = n"
    by (simp add: E_def)
  have uint: "uint (RSA_size num_bits) = int (length EM)"
    using assms(6) by simp
  show "(if msb = 0 then (drop 1 EM, uint (RSA_size num_bits) - 1) else (EM, uint (RSA_size num_bits))) = (E, int n)"
    unfolding uint E_def by (simp add: k)
  obtain e EM' where EM: "EM = e # EM'"
  proof (cases EM)
    case Nil
    then have "unat num_bits + 7 < 8"
      using assms(6) unat_RSA_size [OF assms(4)] by simp
    then show ?thesis
      using assms(5) by (simp add: unat_eq_0)
  qed
  show "(ucast (EM ! 0) :: u32) AND push_bit msb 0xff = 0 \<longleftrightarrow> EM = replicate (length EM - n) 0 @ E \<and> (n \<noteq> 0 \<longrightarrow> clear_top msb E = E)"
  proof (cases "msb = 0")
    case True
    have "clear_top 0 E = E"
      by (simp add: clear_top_def)
    then show ?thesis
      using first_octet [OF msb, of e] True k by (auto simp: EM E_def)
  next
    case False
    then show ?thesis
      using first_octet [OF msb, of e] k clear_top_Cons [OF msb, of e EM'] by (simp add: EM E_def)
  qed
qed

lemma pss_encodes_iff:
  fixes num_bits EM
  defines "n \<equiv> pss_em_len num_bits"
  assumes "length EM - n + n = length EM"
  shows "pss_encodes num_bits md mgf EM mHash salt \<longleftrightarrow>
    length salt + unat (EVP_MD_size md) + 2 \<le> n \<and> EM = replicate (length EM - n) 0 @ drop (length EM - n) EM \<and>
    drop (length EM - n) EM = emsa_pss md mgf (unat num_bits - 1) mHash salt"
proof -
  have "EM = replicate d 0 @ X \<longleftrightarrow> EM = replicate d 0 @ drop d EM \<and> drop d EM = X" for d X
    by (metis append_eq_conv_conj length_replicate)
  then show ?thesis
    unfolding pss_encodes_def n_def by blast
qed

text \<open>What the scan finds is the only salt that the data block can hold.\<close>

lemma pss_scan_unique:
  assumes "db \<noteq> []" "length db + unat (EVP_MD_size md) + 1 = k" "db ! skip_zeros db 0 = 1"
  obtains salt where "drop (skip_zeros db 0 + 1) db = salt" "length db - (skip_zeros db 0 + 1) = length salt"
    "int (length db) - int (skip_zeros db 0 + 1) = int (length salt)"
    "\<forall>s. length s + unat (EVP_MD_size md) + 2 \<le> k \<and> db = pss_db md k s \<longleftrightarrow> s = salt"
proof -
  note scan = pss_scan [OF assms(1,2)]
  obtain salt where salt: "length salt + unat (EVP_MD_size md) + 2 \<le> k" "db = pss_db md k salt"
    using scan(1) assms(3) by blast
  note rest = scan(2) [OF salt]
  have "skip_zeros db 0 < length db"
    using skip_zeros_one [OF assms(1), of 0] by auto
  then have "length db - (skip_zeros db 0 + 1) = length salt" "int (length db) - int (skip_zeros db 0 + 1) = int (length salt)"
    using arg_cong [OF rest, of length] by simp_all
  moreover have "s = salt" if "length s + unat (EVP_MD_size md) + 2 \<le> k" "db = pss_db md k s" for s
    using scan(2) [OF that] rest by simp
  ultimately show thesis
    using that [OF rest] salt by blast
qed

text \<open>
  The outcome of \<open>pss_check\<close> over the parts of \<open>EM\<close>: the masked data block \<open>M\<close>, the digest \<open>H\<close> and the last byte.
\<close>

lemma pss_check_outcome:
  fixes M H Hash
  defines "hl \<equiv> unat (EVP_MD_size Hash)"
  assumes "length H = hl" "next_malloc ms = (ok1, ms1)" "PKCS1_MGF1 (of_nat (length M)) H mgf ms1 = (ok2, w, ms2)"
    and "DB = clear_top msb (xor_bytes w M)" "i = skip_zeros DB 0"
    and "pss_digest Hash mHash (take (length M - (i + 1)) (drop (i + 1) DB)) ms2 = (ph, ms3)"
  shows "fst (pss_check msb (M @ H @ [c]) (int (length (M @ H @ [c]))) mHash Hash mgf sLen ms) =
    (if c \<noteq> 0xbc then Inl RSA_R_LAST_OCTET_INVALID else if \<not> ok1 then Inl ERR_R_MALLOC_FAILURE
     else if \<not> ok2 then Inl Callee_failed else if DB ! i \<noteq> 1 then Inl RSA_R_SLEN_RECOVERY_FAILED
     else if 0 \<le> sLen \<and> int (length M) - int (i + 1) \<noteq> sLen then Inl RSA_R_SLEN_CHECK_FAILED
     else case ph of None \<Rightarrow> Inl Callee_failed | Some H_ \<Rightarrow> if take hl H_ \<noteq> H then Inl RSA_R_BAD_SIGNATURE else Inr ())"
proof -
  have "uint (EVP_MD_size Hash) = int hl"
    by (simp add: hl_def)
  then have ints: "nat (int (length (M @ H @ [c])) - uint (EVP_MD_size Hash) - 1) = length M"
    "nat (int (length (M @ H @ [c])) - 1) = length M + length H"
    using assms(2) by simp_all
  have parts: "(M @ H @ [c]) ! (length M + length H) = c" "take hl (drop (length M) (M @ H @ [c])) = H"
    "take (length M) (M @ H @ [c]) = M"
    using assms(2) by (simp_all add: nth_append)
  show ?thesis
    unfolding pss_check_def Let_def ints hl_def [symmetric] parts assms(3) prod.case assms(4) assms(5) [symmetric]
      assms(6) [symmetric] assms(7)
    by (cases ph) simp_all
qed

lemma pss_check_exact:
  fixes Hash mgf M H c
  defines "hl \<equiv> unat (EVP_MD_size Hash)" and "E \<equiv> M @ H @ [c]"
  assumes "length H = hl" "M \<noteq> []" "length E < 2 ^ 64" "length mHash = hl" "msb < 8" "clear_top msb E = E"
    and "(emBits + 7) div 8 = length E" "8 * length E - emBits = (if msb = 0 then 0 else 8 - msb)"
    and res: "fst (pss_check msb E (int (length E)) mHash Hash mgf sLen ms) = res"
  shows "(res = Inr () \<longleftrightarrow> (\<exists>salt. length salt + hl + 2 \<le> length E \<and> E = emsa_pss Hash mgf emBits mHash salt \<and>
      \<not> (0 \<le> sLen \<and> int (length salt) \<noteq> sLen))) \<or>
    False \<in> set ms \<and> (res = Inl ERR_R_MALLOC_FAILURE \<or> res = Inl Callee_failed)"
proof -
  have M: "length M < 2 ^ 64" "clear_top msb M = M"
    using assms(4,5,8) clear_top_Cons [OF assms(7)] unfolding E_def by (simp, cases M) simp_all
  obtain ok1 ms1 where m: "next_malloc ms = (ok1, ms1)"
    by fastforce
  obtain ok2 w ms2 where mask: "PKCS1_MGF1 (of_nat (length M)) H mgf ms1 = (ok2, w, ms2)"
    by (metis prod_cases3)
  define DB i where "DB = clear_top msb (xor_bytes w M)" and "i = skip_zeros DB 0"
  obtain ph ms3 where hash: "pss_digest Hash mHash (take (length M - (i + 1)) (drop (i + 1) DB)) ms2 = (ph, ms3)"
    by fastforce
  note outcome = pss_check_outcome [where c = c and sLen = sLen, OF assms(3) [unfolded hl_def] m mask DB_def i_def hash,
      folded hl_def E_def, unfolded res]
  have small: "length H < 2 ^ 64" "length (take (length M - (i + 1)) (drop (i + 1) DB)) < 2 ^ 64" "unat (of_nat (length M) :: usize) = length M"
    using M assms(3) size_bounds(2) [of Hash] unat_size [OF M(1)] unfolding hl_def by simp_all
  note mask' = PKCS1_MGF1_result [OF mask small(1), unfolded small(3)]
    and hash' = pss_digest_result [OF hash assms(6) [unfolded hl_def] small(2)] and m' = next_malloc_ok [OF _ m]
  have encodes: "length salt + hl + 2 \<le> length E \<and> E = emsa_pss Hash mgf emBits mHash salt \<longleftrightarrow>
      length salt + hl + 2 \<le> length E \<and> c = 0xbc \<and> H = digest_of Hash (replicate 8 0 @ mHash @ salt) \<and>
      clear_top msb (xor_bytes (mgf1 mgf H (length M)) M) = pss_db Hash (length E) salt" for salt
    using emsa_pss_iff [where c = c and md = Hash and mgf = mgf and emBits = emBits and salt = salt and mHash = mHash,
        OF assms(3) [unfolded hl_def] assms(7) M(2), folded E_def hl_def, OF assms(9,10)] by blast
  show ?thesis
  proof (cases "c = 0xbc \<and> ok1 \<and> ok2")
    case False
    then show ?thesis
      using outcome encodes m' mask'(2) by (cases "c = 0xbc") auto
  next
    case True
    then have DB: "clear_top msb (xor_bytes (mgf1 mgf H (length M)) M) = DB" "length DB = length M"
      using mask'(1) by (simp_all add: DB_def length_mgf1)
    then have shape: "DB \<noteq> []" "length DB + unat (EVP_MD_size Hash) + 1 = length E"
      using assms(3,4) by (auto simp: hl_def E_def)
    show ?thesis
    proof (cases "DB ! i = 1")
      case False
      then have "\<not> (length salt + hl + 2 \<le> length E \<and> DB = pss_db Hash (length E) salt)" for salt
        using pss_scan(1) [OF shape] unfolding i_def hl_def by blast
      then have "\<not> (length salt + hl + 2 \<le> length E \<and> E = emsa_pss Hash mgf emBits mHash salt)" for salt
        unfolding encodes DB(1) by blast
      moreover have "res \<noteq> Inr ()"
        using outcome True False by simp
      ultimately show ?thesis
        by blast
    next
      case one: True
      obtain salt where rest: "drop (i + 1) DB = salt" "length M - (i + 1) = length salt"
        "int (length M) - int (i + 1) = int (length salt)"
        and salt: "\<forall>s. length s + hl + 2 \<le> length E \<and> DB = pss_db Hash (length E) s \<longleftrightarrow> s = salt"
        by (rule pss_scan_unique [OF shape one [unfolded i_def], folded i_def hl_def, unfolded DB(2)])
      have found: "(\<exists>s. length s + hl + 2 \<le> length E \<and> E = emsa_pss Hash mgf emBits mHash s \<and> P s) \<longleftrightarrow>
          H = digest_of Hash (replicate 8 0 @ mHash @ salt) \<and> P salt" for P
      proof -
        have "length s + hl + 2 \<le> length E \<and> E = emsa_pss Hash mgf emBits mHash s \<longleftrightarrow>
            H = digest_of Hash (replicate 8 0 @ mHash @ s) \<and> length s + hl + 2 \<le> length E \<and> DB = pss_db Hash (length E) s" for s
          unfolding encodes DB(1) using True by (simp only:) blast
        then have only: "length s + hl + 2 \<le> length E \<and> E = emsa_pss Hash mgf emBits mHash s \<longleftrightarrow>
            H = digest_of Hash (replicate 8 0 @ mHash @ s) \<and> s = salt" for s
          unfolding salt [rule_format] .
        show ?thesis
          unfolding conj_assoc [symmetric] only by blast
      qed
      have ph: "ph = None \<or> ph = Some (digest_of Hash (replicate 8 0 @ mHash @ salt))"
        using hash'(1) unfolding rest by simp
      have size: "take hl (digest_of Hash x) = digest_of Hash x" for x
        by (simp add: evp.length_digest hl_def)
      show ?thesis
        using outcome True one ph m' mask'(2) hash'(2) unfolding found rest(3)
        by (auto simp: size split: if_splits)
    qed
  qed
qed

lemma verify_PSS:
  fixes num_bits Hash mgf1Hash EM
  defines "hl \<equiv> unat (EVP_MD_size Hash)" and "mgf \<equiv> mgf1_md mgf1Hash Hash"
  assumes "unat num_bits + 7 < 2 ^ 32" "num_bits \<noteq> 0" "length EM = unat (RSA_size num_bits)" "length mHash = hl"
    and res: "RSA_verify_PKCS1_PSS_mgf1 num_bits mHash Hash mgf1Hash EM sLen ms = (res, ms')"
  shows "(res = Inr () \<longleftrightarrow> (\<exists>salt. pss_encodes num_bits Hash mgf EM mHash salt \<and> salt_accepted sLen hl salt)) \<or>
    False \<in> set ms \<and> (res = Inl ERR_R_MALLOC_FAILURE \<or> res = Inl Callee_failed)"
proof -
  define n msb where "n = pss_em_len num_bits" and "msb = (unat num_bits - 1) mod 8"
  define E wanted where "E = drop (length EM - n) EM" and "wanted = (if sLen = -1 then int hl else sLen)"
  have msb: "msb < 8"
    by (simp add: msb_def)
  note first = pss_first_octet [OF assms(3-5), folded n_def msb_def, folded E_def]
  have encodes: "pss_encodes num_bits Hash mgf EM mHash salt \<longleftrightarrow>
      length salt + hl + 2 \<le> n \<and> EM = replicate (length EM - n) 0 @ E \<and> E = emsa_pss Hash mgf (unat num_bits - 1) mHash salt" for salt
    using pss_encodes_iff [of EM num_bits Hash mgf mHash salt] first(1) unfolding n_def [symmetric] hl_def E_def by auto
  have bits: "(unat num_bits - 1 + 7) div 8 = n" "8 * n - (unat num_bits - 1) = (if msb = 0 then 0 else 8 - msb)"
    using RSA_size_em_len(2) [OF assms(3,4)] by (simp_all add: n_def msb_def pss_em_len_def)
  have hl: "uint (EVP_MD_size Hash) = int hl"
    by (simp add: hl_def)
  note start = res [unfolded RSA_verify_PKCS1_PSS_mgf1_def Let_def unat_MSBits [OF assms(4)] msb_def [symmetric] first(2) hl,
      folded mgf_def wanted_def, unfolded prod.case]
  show ?thesis
  proof (cases "sLen < -2 \<or> (ucast (EM ! 0) :: u32) AND push_bit msb 0xff \<noteq> 0 \<or> int n < int hl + 2 \<or> int n < int hl + wanted + 2")
    case True
    have "res \<noteq> Inr ()"
      using start True unfolding wanted_def by (auto split: if_splits)
    moreover have "\<not> (pss_encodes num_bits Hash mgf EM mHash salt \<and> salt_accepted sLen hl salt)" for salt
    proof
      assume enc: "pss_encodes num_bits Hash mgf EM mHash salt \<and> salt_accepted sLen hl salt"
      then have "length salt + unat (EVP_MD_size Hash) + 2 \<le> n" "E = emsa_pss Hash mgf (unat num_bits - 1) mHash salt"
        unfolding encodes hl_def by auto
      then have "clear_top msb E = E"
        using clear_emsa_pss [of salt Hash "unat num_bits - 1" msb mgf mHash, unfolded bits(1), OF _ msb bits(2)] by (simp only:)
      then show False
        using enc True first(3) unfolding encodes salt_accepted_def wanted_def by (auto split: if_splits)
    qed
    ultimately show ?thesis
      by blast
  next
    case False
    then have room: "hl + 2 \<le> n" "\<not> sLen < -2" and top: "EM = replicate (length EM - n) 0 @ E" "clear_top msb E = E"
      using first(3) by auto
    have check: "fst (pss_check msb E (int n) mHash Hash mgf wanted ms) = res"
      using start False by (auto split: if_splits)
    have n: "n < 2 ^ 64"
      using first(1) assms(5) unat_RSA_size [OF assms(3)] assms(3) unfolding E_def by simp
    have "length E = (n - hl - 1) + hl + 1 + 0"
      using first(1) room(1) by simp
    then obtain M H C D where "E = M @ H @ C @ D" and len: "length M = n - hl - 1" "length H = hl" "length C = 1" "length D = 0"
      by (rule pieces)
    then obtain c where E: "E = M @ H @ [c]"
      by (cases C) auto
    have "M \<noteq> []"
      using len(1) room(1) by auto
    then have decided: "(res = Inr () \<longleftrightarrow> (\<exists>salt. length salt + hl + 2 \<le> n \<and> E = emsa_pss Hash mgf (unat num_bits - 1) mHash salt \<and>
        \<not> (0 \<le> wanted \<and> int (length salt) \<noteq> wanted))) \<or>
      False \<in> set ms \<and> (res = Inl ERR_R_MALLOC_FAILURE \<or> res = Inl Callee_failed)"
      using pss_check_exact [of H Hash M c mHash msb "unat num_bits - 1" mgf wanted ms res, folded E] first(1) n assms(6) msb top(2)
        bits check len(2) unfolding hl_def by simp
    have "salt_accepted sLen hl salt \<longleftrightarrow> \<not> (0 \<le> wanted \<and> int (length salt) \<noteq> wanted)" for salt
      using room(2) by (auto simp: salt_accepted_def wanted_def)
    then show ?thesis
      using decided top(1) unfolding encodes by blast
  qed
qed

section \<open>Writing\<close>

lemma pss_sizes:
  fixes md n sl
  defines "s \<equiv> EVP_MD_size md" and "hl \<equiv> unat (EVP_MD_size md)"
  assumes "n < 2 ^ 64" "sl + hl + 2 \<le> n"
  shows "\<not> (of_nat n :: usize) < s + 2" "\<not> (of_nat n :: usize) - s - 2 < of_nat sl"
    and "unat ((of_nat n :: usize) - s - 1) = n - hl - 1" "unat ((of_nat n :: usize) - of_nat sl - s - 2) = n - sl - hl - 2"
    and "unat ((of_nat n :: usize) - 1) = n - 1" "unat (of_nat sl :: usize) = sl"
    and "of_nat n - s - 2 = (of_nat (n - hl - 2) :: usize)"
proof -
  have s: "s = of_nat hl"
    by (simp add: s_def hl_def)
  have d: "s + 2 = of_nat (hl + 2)" "(of_nat n :: usize) - s - 2 = of_nat n - of_nat (hl + 2)"
    "(of_nat n :: usize) - s - 1 = of_nat n - of_nat (hl + 1)"
    "(of_nat n :: usize) - of_nat sl - s - 2 = of_nat n - of_nat (sl + hl + 2)" "(of_nat n :: usize) - 1 = of_nat n - of_nat 1"
    by (simp_all add: s)
  show "\<not> (of_nat n :: usize) < s + 2"
    unfolding d(1) using size_less [OF assms(3), of "hl + 2"] assms(3,4) by auto
  have "of_nat n - of_nat (hl + 2) = (of_nat (n - (hl + 2)) :: usize)"
    using assms(3,4) by (intro size_sub) auto
  then show two: "of_nat n - s - 2 = (of_nat (n - hl - 2) :: usize)"
    unfolding d(2) by (simp only: diff_diff_left)
  show "\<not> (of_nat n :: usize) - s - 2 < of_nat sl"
    unfolding two using size_less [of "n - hl - 2" sl] assms(3,4) by auto
  show "unat ((of_nat n :: usize) - s - 1) = n - hl - 1"
    unfolding d(3) using assms(3,4) by (subst unat_diff; simp)
  show "unat ((of_nat n :: usize) - of_nat sl - s - 2) = n - sl - hl - 2"
    unfolding d(4) using assms(3,4) by (subst unat_diff; simp)
  show "unat ((of_nat n :: usize) - 1) = n - 1"
    unfolding d(5) using assms(3,4) by (subst unat_diff; simp)
  show "unat (of_nat sl :: usize) = sl"
    by (rule unat_size) (use assms(3,4) in linarith)
qed

lemma pss_salt_len_fits:
  fixes Hash n sLen
  defines "hl \<equiv> unat (EVP_MD_size Hash)"
  assumes "n < 2 ^ 64" "sLen = -1 \<or> sLen = -2 \<or> 0 \<le> sLen \<and> sLen < 2 ^ 31"
    and "hl + 2 + (if sLen = -1 then hl else if sLen = -2 then 0 else nat sLen) \<le> n"
  obtains sl where "pss_salt_len sLen (of_nat n) (EVP_MD_size Hash) = Inr (of_nat sl)" "sl + hl + 2 \<le> n"
    "sLen = -2 \<or> int sl = (if sLen = -1 then int hl else sLen)"
proof -
  consider "sLen = -1" | "sLen = -2" | "0 \<le> sLen" "sLen < 2 ^ 31" "sLen \<noteq> -1" "sLen \<noteq> -2"
    using assms(3) by fastforce
  then show thesis
  proof cases
    case 1
    then show thesis
      using that [of hl] assms(4) by (simp add: pss_salt_len_def hl_def)
  next
    case 2
    have "0 + hl + 2 \<le> n"
      using assms(4) 2 by simp
    then show thesis
      using that [of "n - hl - 2"] 2 pss_sizes(7) [OF assms(2) \<open>0 + hl + 2 \<le> n\<close> [unfolded hl_def]]
      by (simp add: pss_salt_len_def hl_def)
  next
    case 3
    then show thesis
      using that [of "nat sLen"] assms(4) by (simp add: pss_salt_len_def of_nat_nat)
  qed
qed

lemma pss_salt_drawn:
  assumes "rng_ok rng" "\<forall>r n. fst (rng r n) \<noteq> None" "False \<notin> set ms"
  obtains salt ms' r' where "pss_salt rng sLen ms r = (Inr salt, ms', r')" "length salt = unat sLen" "False \<notin> set ms'"
proof (cases "0 < sLen")
  case True
  obtain ok ms1 where m: "next_malloc ms = (ok, ms1)"
    by fastforce
  obtain salt r' where drawn: "rng r sLen = (Some salt, r')"
    using assms(2) by (metis option.exhaust prod.collapse)
  show thesis
    using that [of salt ms1 r'] next_malloc_ok [OF assms(3) m] assms(1) drawn True m
    by (auto simp: pss_salt_def rng_ok_def)
next
  case False
  then have "sLen = 0"
    by (metis word_gt_0)
  then show thesis
    using that [of "[]" ms r] assms(3) by (simp add: pss_salt_def)
qed

lemma xor_bytes_append: "length a = length c \<Longrightarrow> xor_bytes (a @ b) (c @ d) = xor_bytes a c @ xor_bytes b d"
  by (simp add: xor_bytes_def)

lemma xor_bytes_zeros: "length c = n \<Longrightarrow> xor_bytes (replicate n 0) c = c"
  by (auto simp: xor_bytes_def list_eq_iff_nth_eq)

text \<open>The salt is masked in place: the zeros in front of it leave the mask as it is.\<close>

lemma pss_mask_writes:
  assumes "length w = p + 1 + length salt" "p = k - length salt - unat (EVP_MD_size md) - 2"
  shows "mem_write ((w @ R)[p := (w @ R) ! p XOR 1]) (p + 1)
      (xor_bytes (take (length salt) (drop (p + 1) ((w @ R)[p := (w @ R) ! p XOR 1]))) salt) =
    xor_bytes (pss_db md k salt) w @ R"
proof -
  obtain w1 b w2 where w: "w = w1 @ b # w2" "length w1 = p" "length w2 = length salt"
  proof (rule that)
    show "w = take p w @ w ! p # drop (p + 1) w"
      using assms(1) id_take_nth_drop [of p w] by simp
  qed (use assms(1) in simp_all)
  have "(w @ R)[p := (w @ R) ! p XOR 1] = (w1 @ [b XOR 1]) @ w2 @ R"
    using w(2) by (simp add: w(1) nth_append list_update_append)
  moreover have "take (length salt) (drop (p + 1) ((w1 @ [b XOR 1]) @ w2 @ R)) = w2"
    using w(2,3) by simp
  moreover have "mem_write ((w1 @ [b XOR 1]) @ w2 @ R) (p + 1) (xor_bytes w2 salt) = (w1 @ [b XOR 1]) @ xor_bytes w2 salt @ R"
    using mem_write_at [of "w1 @ [b XOR 1]" "p + 1" "w2 @ R" "xor_bytes w2 salt"] w(2,3) by simp
  moreover have "xor_bytes (pss_db md k salt) w = w1 @ (b XOR 1) # xor_bytes w2 salt"
  proof -
    have "xor_bytes (1 # salt) (b # w2) = (b XOR 1) # xor_bytes w2 salt"
      using xor_bytes_commute [of salt w2] by (simp add: xor_bytes_def xor.commute)
    then show ?thesis
      unfolding pss_db_def assms(2) [symmetric] w(1) using w(2) by (simp add: xor_bytes_append xor_bytes_zeros)
  qed
  ultimately show ?thesis
    by (simp only: append_assoc append_Cons append_Nil)
qed

lemma pss_write_fits:
  fixes Hash mgf E sLen
  defines "hl \<equiv> unat (EVP_MD_size Hash)" and "n \<equiv> length E"
  assumes "n < 2 ^ 64" "length mHash = hl" "msb < 8" "rng_ok rng" "\<forall>r n. fst (rng r n) \<noteq> None" "False \<notin> set ms"
    and bits: "(emBits + 7) div 8 = n" "8 * n - emBits = (if msb = 0 then 0 else 8 - msb)"
    and "sLen = -1 \<or> sLen = -2 \<or> 0 \<le> sLen \<and> sLen < 2 ^ 31"
    and "hl + 2 + (if sLen = -1 then hl else if sLen = -2 then 0 else nat sLen) \<le> n"
  obtains salt ms' r' where
    "pss_write rng msb E (of_nat n) mHash Hash mgf sLen ms r = (Inr (), emsa_pss Hash mgf emBits mHash salt, ms', r')"
    "salt_accepted sLen hl salt" "length salt + hl + 2 \<le> n"
proof -
  obtain sl where sl: "pss_salt_len sLen (of_nat n) (EVP_MD_size Hash) = Inr (of_nat sl)" "sl + hl + 2 \<le> n"
    "sLen = -2 \<or> int sl = (if sLen = -1 then int hl else sLen)"
    using pss_salt_len_fits [OF assms(3,11) assms(12) [unfolded hl_def]] unfolding hl_def by blast
  note sizes = pss_sizes [OF assms(3) sl(2) [unfolded hl_def], folded hl_def]
  obtain salt ms1 r1 where salt: "pss_salt rng (of_nat sl) ms r = (Inr salt, ms1, r1)" "length salt = sl" "False \<notin> set ms1"
    using pss_salt_drawn [OF assms(6-8), of "of_nat sl" r] sizes(6) by metis
  have salt_size: "length salt < 2 ^ 64"
    using salt(2) sl(2) assms(3) by linarith
  define H where "H = digest_of Hash (replicate 8 0 @ mHash @ salt)"
  have len_H: "length H = hl"
    by (simp add: H_def hl_def evp.length_digest)
  obtain ph ms2 where hash: "pss_digest Hash mHash salt ms1 = (ph, ms2)"
    by fastforce
  then have ph: "ph = Some H" "False \<notin> set ms2"
    using pss_digest_result [OF hash assms(4) [unfolded hl_def] salt_size] salt(3) unfolding H_def by auto
  define dl where "dl = n - hl - 1"
  obtain A B l where E: "E = A @ B @ [l]" "length A = dl" "length B = hl"
  proof -
    have "length E = dl + hl + 1 + 0"
      using sl(2) by (simp add: n_def [symmetric] dl_def)
    then obtain A B C D where "E = A @ B @ C @ D" "length A = dl" "length B = hl" "length C = 1" "length D = 0"
      by (rule pieces)
    then show thesis
      using that [of A B "hd C"] by (cases C) auto
  qed
  have placed: "mem_write E dl H = A @ H @ [l]"
    using mem_write_at [OF E(2), of "B @ [l]" H] len_H E(3) by (simp add: E(1))
  have seed: "take hl (drop dl (A @ H @ [l])) = H"
    using E(2) len_H by simp
  obtain ok w ms3 where mask: "PKCS1_MGF1 (of_nat n - EVP_MD_size Hash - 1) H mgf ms2 = (ok, w, ms3)"
    by (metis prod_cases3)
  have "length H < 2 ^ 64"
    using len_H size_bounds(2) [of Hash] by (simp add: hl_def)
  then have ok: "ok" and w: "w = mgf1 mgf H dl"
    using PKCS1_MGF1_result [OF mask] ph(2) sizes(3) by (simp_all add: dl_def)
  have masked: "mem_write (A @ H @ [l]) 0 w = w @ H @ [l]"
    using mem_write_at [of "[]" 0 "A @ H @ [l]" w] E(2) by (simp add: w length_mgf1)
  define p where "p = n - sl - hl - 2"
  have len_w: "length w = p + 1 + length salt"
    using sl(2) salt(2) by (simp add: w length_mgf1 dl_def p_def)
  define X where "X = xor_bytes (pss_db Hash n salt) w"
  have len_X: "length X = dl" "X \<noteq> []"
    using sl(2) salt(2) by (auto simp: X_def w length_mgf1 pss_db_def dl_def simp flip: hl_def length_greater_0_conv)
  have top: "clear_top msb (X @ H @ [l]) = clear_top msb X @ H @ [l]"
    using len_X(2) clear_top_Cons [OF assms(5)] by (cases X) simp_all
  have trailer: "(clear_top msb X @ H @ [l])[n - 1 := 0xbc] = clear_top msb X @ H @ [0xbc]"
    using update_append [of "clear_top msb X @ H" "n - 1" l "[]" "0xbc"] len_X(1) len_H sl(2) by (simp add: dl_def)
  have written: "mem_write ((w @ H @ [l])[p := (w @ H @ [l]) ! p XOR 1]) (p + 1)
      (xor_bytes (take sl (drop (p + 1) ((w @ H @ [l])[p := (w @ H @ [l]) ! p XOR 1]))) salt) = X @ H @ [l]"
    using pss_mask_writes [OF len_w, of n Hash "H @ [l]"] salt(2) by (simp add: X_def p_def hl_def)
  have "pss_write rng msb E (of_nat n) mHash Hash mgf sLen ms r = (Inr (), clear_top msb X @ H @ [0xbc], ms3, r1)"
    unfolding pss_write_def Let_def if_not_P [OF sizes(1)] sl(1) sum.case if_not_P [OF sizes(2)] salt(1) prod.case hash ph(1)
      option.case sizes(3-6) dl_def [symmetric] placed hl_def [symmetric] seed mask masked
      p_def [symmetric] written top trailer
    using ok by simp
  moreover have "clear_top msb X @ H @ [0xbc] = emsa_pss Hash mgf emBits mHash salt"
    unfolding emsa_pss_def Let_def bits H_def [symmetric] hl_def [symmetric] dl_def [symmetric] w [symmetric] X_def [symmetric]
      clear_leftmost_top [OF assms(5)] ..
  ultimately show thesis
    using that [of salt ms3 r1] sl(2,3) salt(2) by (auto simp: salt_accepted_def)
qed

lemma add_PSS:
  fixes num_bits Hash mgf1Hash EM sLen
  defines "hl \<equiv> unat (EVP_MD_size Hash)" and "n \<equiv> pss_em_len num_bits"
  assumes "unat num_bits + 7 < 2 ^ 32" "num_bits \<noteq> 0" "length EM = unat (RSA_size num_bits)" "length mHash = hl"
    and "rng_ok rng" "\<forall>r n. fst (rng r n) \<noteq> None" "False \<notin> set ms"
    and "sLen = -1 \<or> sLen = -2 \<or> 0 \<le> sLen \<and> sLen < 2 ^ 31"
    and "hl + 2 + (if sLen = -1 then hl else if sLen = -2 then 0 else nat sLen) \<le> n"
  obtains em salt ms' r' where
    "RSA_padding_add_PKCS1_PSS_mgf1 rng num_bits EM mHash Hash mgf1Hash sLen ms r = (Inr (), em, ms', r')"
    "length em = length EM" "pss_encodes num_bits Hash (mgf1_md mgf1Hash Hash) em mHash salt" "salt_accepted sLen hl salt"
proof -
  define msb where "msb = (unat num_bits - 1) mod 8"
  let ?mgf = "mgf1_md mgf1Hash Hash"
  have msb: "msb < 8"
    by (simp add: msb_def)
  have bits: "(unat num_bits - 1 + 7) div 8 = n" "8 * n - (unat num_bits - 1) = (if msb = 0 then 0 else 8 - msb)"
    using RSA_size_em_len(2) [OF assms(3,4)] by (simp_all add: n_def msb_def pss_em_len_def)
  have k: "length EM = (if msb = 0 then n + 1 else n)"
    using RSA_size_em_len(1) [OF assms(3,4)] assms(5) by (simp add: msb_def n_def)
  have small: "length EM < 2 ^ 64" "n < 2 ^ 64"
    using unat_lt64 [of "RSA_size num_bits"] assms(5) k by (auto split: if_splits)
  have size: "RSA_size num_bits = of_nat (length EM)"
    using assms(5) by simp
  have emLen: "msb = 0 \<Longrightarrow> RSA_size num_bits - 1 = of_nat n" "msb \<noteq> 0 \<Longrightarrow> RSA_size num_bits = of_nat n"
    unfolding size k by simp_all
  define E where "E = (if msb = 0 then drop 1 (EM[0 := 0]) else EM)"
  have E: "length E = n"
    by (simp add: E_def k)
  obtain salt ms' r' where w: "pss_write rng msb E (of_nat n) mHash Hash ?mgf sLen ms r =
      (Inr (), emsa_pss Hash ?mgf (unat num_bits - 1) mHash salt, ms', r')"
    and salt: "salt_accepted sLen hl salt" "length salt + hl + 2 \<le> n"
    using pss_write_fits [of E mHash Hash msb rng ms "unat num_bits - 1" sLen ?mgf r] assms(4,6-11) small(2) msb bits
    unfolding E hl_def by blast
  have len: "length (emsa_pss Hash ?mgf (unat num_bits - 1) mHash salt) = n"
    using length_emsa_pss [of salt Hash "unat num_bits - 1"] salt(2) bits(1) by (simp add: hl_def)
  show thesis
  proof (rule that)
    show "RSA_padding_add_PKCS1_PSS_mgf1 rng num_bits EM mHash Hash mgf1Hash sLen ms r =
        (Inr (), replicate (length EM - n) 0 @ emsa_pss Hash ?mgf (unat num_bits - 1) mHash salt, ms', r')"
    proof (cases "msb = 0")
      case True
      then have "take 1 (EM[0 := 0]) = [0]"
        using k by (cases EM) simp_all
      then show ?thesis
        using w True k assms(4) emLen(1)
        unfolding RSA_padding_add_PKCS1_PSS_mgf1_def Let_def unat_MSBits [OF assms(4)] msb_def [symmetric] E_def
        by simp
    next
      case False
      then show ?thesis
        using w False k assms(4) emLen(2)
        unfolding RSA_padding_add_PKCS1_PSS_mgf1_def Let_def unat_MSBits [OF assms(4)] msb_def [symmetric] E_def
        by simp
    qed
    show "length (replicate (length EM - n) 0 @ emsa_pss Hash ?mgf (unat num_bits - 1) mHash salt) = length EM"
      using len k by simp
    then show "pss_encodes num_bits Hash ?mgf (replicate (length EM - n) 0 @ emsa_pss Hash ?mgf (unat num_bits - 1) mHash salt) mHash salt"
      unfolding pss_encodes_def n_def [symmetric] using salt(2) by (simp add: hl_def)
    show "salt_accepted sLen hl salt"
      by (rule salt(1))
  qed
qed

section \<open>Properties\<close>



text \<open>
  Claim C26: a digest for which there is room with the salt asked for (the digest's length for -1, what fits for -2) is
  encoded into a buffer as long as the modulus, whatever it held, and the verification accepts it with the same
  arguments; both need only memory and a random source that do not fail.
\<close>

theorem PSS_roundtrip:
  assumes "unat num_bits + 7 < 2 ^ 32" "num_bits \<noteq> 0" "length EM = unat (RSA_size num_bits)"
    and "length mHash = unat (EVP_MD_size Hash)" "rng_ok rng" "\<forall>r n. fst (rng r n) \<noteq> None"
    and "False \<notin> set ms" "False \<notin> set ms2" "sLen = -1 \<or> sLen = -2 \<or> 0 \<le> sLen \<and> sLen < 2 ^ 31"
    and "unat (EVP_MD_size Hash) + 2 +
      (if sLen = -1 then unat (EVP_MD_size Hash) else if sLen = -2 then 0 else nat sLen) \<le> pss_em_len num_bits"
  shows "\<exists>em ms' r'. RSA_padding_add_PKCS1_PSS_mgf1 rng num_bits EM mHash Hash mgf1Hash sLen ms r = (Inr (), em, ms', r') \<and>
    length em = length EM \<and> fst (RSA_verify_PKCS1_PSS_mgf1 num_bits mHash Hash mgf1Hash em sLen ms2) = Inr ()"
proof -
  obtain em salt ms' r' where
    add: "RSA_padding_add_PKCS1_PSS_mgf1 rng num_bits EM mHash Hash mgf1Hash sLen ms r = (Inr (), em, ms', r')"
    "length em = length EM" "pss_encodes num_bits Hash (mgf1_md mgf1Hash Hash) em mHash salt"
    "salt_accepted sLen (unat (EVP_MD_size Hash)) salt"
    by (rule add_PSS [OF assms(1-7,9,10)])
  obtain res ms3 where res: "RSA_verify_PKCS1_PSS_mgf1 num_bits mHash Hash mgf1Hash em sLen ms2 = (res, ms3)"
    by fastforce
  have "res = Inr ()"
    using verify_PSS [OF assms(1,2) _ assms(4) res] add(2-4) assms(3,8) by auto
  then show ?thesis
    using add(1,2) res by simp
qed

text \<open>SHA-1 under a modulus of 1025 bits, whose encodings begin behind a zero byte, with a salt of twenty bytes.\<close>

lemma PSS_roundtrip_witness:
  "\<exists>em ms' r'. RSA_padding_add_PKCS1_PSS_mgf1 (\<lambda>r n. (Some (replicate (unat n) r), r + 1)) 1025 (replicate 129 9)
      (replicate 20 1) EVP_sha1 None (- 1) [] (7 :: u8) = (Inr (), em, ms', r') \<and> length em = 129 \<and>
    fst (RSA_verify_PKCS1_PSS_mgf1 1025 (replicate 20 1) EVP_sha1 None em (- 1) []) = Inr ()"
proof -
  have rng: "rng_ok (\<lambda>(r :: u8) n. (Some (replicate (unat n) r), r + 1))"
    by (simp add: rng_ok_def)
  have size: "unat (EVP_MD_size EVP_sha1) = 20"
    by (simp add: EVP_MD_size_def methods)
  show ?thesis
    using PSS_roundtrip [where num_bits = 1025 and EM = "replicate 129 9" and mHash = "replicate 20 1" and Hash = EVP_sha1
        and ms = "[]" and ?ms2.0 = "[]" and sLen = "-1" and r = 7 and mgf1Hash = None, OF _ _ _ _ rng]
    by (simp add: unat_RSA_size size pss_em_len_def)
qed

end
