(* ===== verification/Nanopb_Message.thy ===== *)
theory Nanopb_Message
  imports Prelude
begin

text \<open>
  Messages in memory: the field descriptors of nanopb's \<open>pb.h\<close>, and the iterator of
  \<open>pb_common.c\<close> that walks over the fields of a C structure.

  Memory is a function from addresses to bytes, little endian as on the targets of the application.
  A descriptor array is the list of its entries, the terminator with tag 0 included; the address of
  an array is turned into the list by a table, since the arrays are constants of the program.
\<close>

section \<open>Memory\<close>

type_synonym addr = usize
type_synonym memory = "addr \<Rightarrow> u8"

definition load :: "memory \<Rightarrow> addr \<Rightarrow> nat \<Rightarrow> bytes" where
  "load m a n = map (\<lambda>i. m (a + of_nat i)) [0..<n]"

definition load16 :: "memory \<Rightarrow> addr \<Rightarrow> u16" where
  "load16 m a = of_nat (le_val (load m a 2))"

definition load32 :: "memory \<Rightarrow> addr \<Rightarrow> u32" where
  "load32 m a = of_nat (le_val (load m a 4))"

definition load64 :: "memory \<Rightarrow> addr \<Rightarrow> u64" where
  "load64 m a = of_nat (le_val (load m a 8))"

primrec store :: "addr \<Rightarrow> bytes \<Rightarrow> memory \<Rightarrow> memory" where
  "store a [] m = m"
| "store a (b # bs) m = store (a + 1) bs (m(a := b))"

lemma length_load [simp]: "length (load m a n) = n"
  by (simp add: load_def)

section \<open>Field descriptors\<close>

type_synonym pb_type = u8

definition PB_LTYPE_VARINT :: pb_type where "PB_LTYPE_VARINT = 0x00"
definition PB_LTYPE_UVARINT :: pb_type where "PB_LTYPE_UVARINT = 0x01"
definition PB_LTYPE_SVARINT :: pb_type where "PB_LTYPE_SVARINT = 0x02"
definition PB_LTYPE_FIXED32 :: pb_type where "PB_LTYPE_FIXED32 = 0x03"
definition PB_LTYPE_FIXED64 :: pb_type where "PB_LTYPE_FIXED64 = 0x04"
definition PB_LTYPE_LAST_PACKABLE :: pb_type where "PB_LTYPE_LAST_PACKABLE = 0x04"
definition PB_LTYPE_BYTES :: pb_type where "PB_LTYPE_BYTES = 0x05"
definition PB_LTYPE_STRING :: pb_type where "PB_LTYPE_STRING = 0x06"
definition PB_LTYPE_SUBMESSAGE :: pb_type where "PB_LTYPE_SUBMESSAGE = 0x07"
definition PB_LTYPE_EXTENSION :: pb_type where "PB_LTYPE_EXTENSION = 0x08"
definition PB_LTYPE_FIXED_LENGTH_BYTES :: pb_type where "PB_LTYPE_FIXED_LENGTH_BYTES = 0x09"
definition PB_LTYPE_MASK :: pb_type where "PB_LTYPE_MASK = 0x0F"

definition PB_HTYPE_REQUIRED :: pb_type where "PB_HTYPE_REQUIRED = 0x00"
definition PB_HTYPE_OPTIONAL :: pb_type where "PB_HTYPE_OPTIONAL = 0x10"
definition PB_HTYPE_REPEATED :: pb_type where "PB_HTYPE_REPEATED = 0x20"
definition PB_HTYPE_ONEOF :: pb_type where "PB_HTYPE_ONEOF = 0x30"
definition PB_HTYPE_MASK :: pb_type where "PB_HTYPE_MASK = 0x30"

definition PB_ATYPE_STATIC :: pb_type where "PB_ATYPE_STATIC = 0x00"
definition PB_ATYPE_POINTER :: pb_type where "PB_ATYPE_POINTER = 0x80"
definition PB_ATYPE_CALLBACK :: pb_type where "PB_ATYPE_CALLBACK = 0x40"
definition PB_ATYPE_MASK :: pb_type where "PB_ATYPE_MASK = 0xC0"

definition PB_SIZE_MAX :: u32 where "PB_SIZE_MAX = 0xffffffff"

lemmas ltypes = PB_LTYPE_VARINT_def PB_LTYPE_UVARINT_def PB_LTYPE_SVARINT_def PB_LTYPE_FIXED32_def PB_LTYPE_FIXED64_def
  PB_LTYPE_LAST_PACKABLE_def PB_LTYPE_BYTES_def PB_LTYPE_STRING_def PB_LTYPE_SUBMESSAGE_def PB_LTYPE_EXTENSION_def
  PB_LTYPE_FIXED_LENGTH_BYTES_def PB_LTYPE_MASK_def

lemmas htypes = PB_HTYPE_REQUIRED_def PB_HTYPE_OPTIONAL_def PB_HTYPE_REPEATED_def PB_HTYPE_ONEOF_def PB_HTYPE_MASK_def

lemmas atypes = PB_ATYPE_STATIC_def PB_ATYPE_POINTER_def PB_ATYPE_CALLBACK_def PB_ATYPE_MASK_def

definition PB_LTYPE :: "pb_type \<Rightarrow> pb_type" where "PB_LTYPE x = x AND PB_LTYPE_MASK"
definition PB_HTYPE :: "pb_type \<Rightarrow> pb_type" where "PB_HTYPE x = x AND PB_HTYPE_MASK"
definition PB_ATYPE :: "pb_type \<Rightarrow> pb_type" where "PB_ATYPE x = x AND PB_ATYPE_MASK"

text \<open>Every type has one of the four kinds of repetition.\<close>

lemma htype_cases:
  obtains "PB_HTYPE x = PB_HTYPE_REQUIRED" | "PB_HTYPE x = PB_HTYPE_OPTIONAL" | "PB_HTYPE x = PB_HTYPE_REPEATED"
    | "PB_HTYPE x = PB_HTYPE_ONEOF"
proof -
  have "PB_HTYPE x = push_bit 4 (take_bit 2 (drop_bit 4 x))"
    unfolding PB_HTYPE_def PB_HTYPE_MASK_def by (rule u8_eqI) (simp_all add: bit_simps)
  moreover have "unat (take_bit 2 (drop_bit 4 x)) < 4"
    by (simp add: take_bit_eq_mod unat_mod_distrib)
  then have "take_bit 2 (drop_bit 4 x) \<in> {0, 1, 2, 3}"
    by (auto simp: word_unat_eq_iff)
  ultimately show thesis
    using that by (auto simp: htypes)
qed

text \<open>\<open>size_offset\<close> is signed.\<close>

record pb_field =
  fd_tag :: u32
  fd_type :: pb_type
  fd_data_offset :: u32
  fd_size_offset :: u32
  fd_data_size :: u32
  fd_array_size :: u32
  fd_ptr :: addr

definition PB_LAST_FIELD :: pb_field where
  "PB_LAST_FIELD = \<lparr>fd_tag = 0, fd_type = 0, fd_data_offset = 0, fd_size_offset = 0, fd_data_size = 0, fd_array_size = 0, fd_ptr = 0\<rparr>"

text \<open>An array that ends with its only terminator.\<close>

definition terminated :: "pb_field list \<Rightarrow> bool" where
  "terminated fds \<longleftrightarrow> fds \<noteq> [] \<and> fd_tag (last fds) = 0 \<and> (\<forall>f \<in> set (butlast fds). fd_tag f \<noteq> 0)"

section \<open>The iterator\<close>

text \<open>\<open>pos\<close> is the index of the current entry in the array \<open>start\<close>.\<close>

record pb_field_iter =
  it_start :: "pb_field list"
  it_pos :: nat
  it_required_field_index :: u32
  it_dest_struct :: addr
  it_pData :: addr
  it_pSize :: addr

definition cur :: "pb_field_iter \<Rightarrow> pb_field" where
  "cur iter = it_start iter ! it_pos iter"

definition pb_field_iter_begin :: "pb_field list \<Rightarrow> addr \<Rightarrow> bool \<times> pb_field_iter" where
  "pb_field_iter_begin fds dest_struct =
     (let first = fds ! 0; pData = dest_struct + ucast (fd_data_offset first)
      in (fd_tag first \<noteq> 0,
          \<lparr>it_start = fds, it_pos = 0, it_required_field_index = 0, it_dest_struct = dest_struct,
           it_pData = pData, it_pSize = pData + scast (fd_size_offset first)\<rparr>))"

definition pb_field_iter_next :: "pb_field_iter \<Rightarrow> bool \<times> pb_field_iter" where
  "pb_field_iter_next iter =
     (let prev_field = cur iter
      in if fd_tag prev_field = 0 then (False, iter)
         else
           let iter = iter\<lparr>it_pos := it_pos iter + 1\<rparr>
           in if fd_tag (cur iter) = 0 then
                (False, snd (pb_field_iter_begin (it_start iter) (it_dest_struct iter)))
              else
                let prev_size = ucast (fd_data_size prev_field) :: usize
                in if PB_HTYPE (fd_type prev_field) = PB_HTYPE_ONEOF \<and> PB_HTYPE (fd_type (cur iter)) = PB_HTYPE_ONEOF \<and>
                      fd_data_offset (cur iter) = PB_SIZE_MAX then (True, iter)
                   else
                     let prev_size =
                           (if PB_ATYPE (fd_type prev_field) = PB_ATYPE_STATIC \<and> PB_HTYPE (fd_type prev_field) = PB_HTYPE_REPEATED
                            then prev_size * ucast (fd_array_size prev_field)
                            else if PB_ATYPE (fd_type prev_field) = PB_ATYPE_POINTER then 8 else prev_size);
                         iter = (if PB_HTYPE (fd_type prev_field) = PB_HTYPE_REQUIRED
                           then iter\<lparr>it_required_field_index := it_required_field_index iter + 1\<rparr> else iter);
                         pData = it_pData iter + prev_size + ucast (fd_data_offset (cur iter))
                     in (True, iter\<lparr>it_pData := pData, it_pSize := pData + scast (fd_size_offset (cur iter))\<rparr>))"

text \<open>
  The search loops of \<open>pb_field_iter_find\<close> and \<open>find_extension_field\<close>: the number of entries bounds
  the number of steps, because the iterator is back at its start after that many.
\<close>

primrec find_loop :: "nat \<Rightarrow> (pb_field \<Rightarrow> bool) \<Rightarrow> nat \<Rightarrow> pb_field_iter \<Rightarrow> bool \<times> pb_field_iter" where
  "find_loop 0 found start iter = (False, iter)"
| "find_loop (Suc k) found start iter =
     (if found (cur iter) then (True, iter)
      else
        let iter = snd (pb_field_iter_next iter)
        in if it_pos iter = start then (False, iter) else find_loop k found start iter)"

definition pb_field_iter_find :: "pb_field_iter \<Rightarrow> u32 \<Rightarrow> bool \<times> pb_field_iter" where
  "pb_field_iter_find iter tag =
     find_loop (length (it_start iter)) (\<lambda>f. fd_tag f = tag \<and> PB_LTYPE (fd_type f) \<noteq> PB_LTYPE_EXTENSION) (it_pos iter) iter"

definition find_extension_field :: "pb_field_iter \<Rightarrow> bool \<times> pb_field_iter" where
  "find_extension_field iter =
     find_loop (length (it_start iter)) (\<lambda>f. PB_LTYPE (fd_type f) = PB_LTYPE_EXTENSION) (it_pos iter) iter"

section \<open>Walking and searching\<close>

text \<open>The iterator at the \<open>k\<close>-th field.\<close>

primrec iter_at :: "pb_field list \<Rightarrow> addr \<Rightarrow> nat \<Rightarrow> pb_field_iter" where
  "iter_at fds dest 0 = snd (pb_field_iter_begin fds dest)"
| "iter_at fds dest (Suc k) = snd (pb_field_iter_next (iter_at fds dest k))"

definition nfields :: "pb_field list \<Rightarrow> nat" where
  "nfields fds = length fds - 1"

lemma terminated_tags:
  assumes "terminated fds" "k \<le> nfields fds"
  shows "fd_tag (fds ! k) = 0 \<longleftrightarrow> k = nfields fds" "nfields fds < length fds"
proof -
  have ne: "fds \<noteq> []"
    using assms(1) by (simp add: terminated_def)
  then show "nfields fds < length fds"
    by (simp add: nfields_def)
  show "fd_tag (fds ! k) = 0 \<longleftrightarrow> k = nfields fds"
  proof (cases "k = nfields fds")
    case True
    then show ?thesis
      using assms(1) ne by (simp add: terminated_def nfields_def last_conv_nth)
  next
    case False
    then have "k < length (butlast fds)"
      using assms(2) by (simp add: nfields_def)
    then have "fds ! k \<in> set (butlast fds)"
      by (metis nth_butlast nth_mem)
    then show ?thesis
      using False assms(1) by (auto simp: terminated_def)
  qed
qed

lemma next_keeps: "it_start (snd (pb_field_iter_next iter)) = it_start iter"
  "it_dest_struct (snd (pb_field_iter_next iter)) = it_dest_struct iter"
  by (simp_all add: pb_field_iter_next_def pb_field_iter_begin_def Let_def)

lemma next_pos:
  assumes "terminated (it_start iter)" "it_pos iter < nfields (it_start iter)"
  shows "it_pos iter + 1 < nfields (it_start iter) \<Longrightarrow>
      fst (pb_field_iter_next iter) \<and> it_pos (snd (pb_field_iter_next iter)) = it_pos iter + 1"
    and "\<not> it_pos iter + 1 < nfields (it_start iter) \<Longrightarrow>
      pb_field_iter_next iter = (False, snd (pb_field_iter_begin (it_start iter) (it_dest_struct iter)))"
proof -
  have t: "fd_tag (it_start iter ! it_pos iter) \<noteq> 0"
    using terminated_tags [OF assms(1), of "it_pos iter"] assms(2) by simp
  show "fst (pb_field_iter_next iter) \<and> it_pos (snd (pb_field_iter_next iter)) = it_pos iter + 1"
    if "it_pos iter + 1 < nfields (it_start iter)"
    using terminated_tags [OF assms(1), of "it_pos iter + 1"] that t
    by (simp add: pb_field_iter_next_def cur_def Let_def)
  show "pb_field_iter_next iter = (False, snd (pb_field_iter_begin (it_start iter) (it_dest_struct iter)))"
    if "\<not> it_pos iter + 1 < nfields (it_start iter)"
    using terminated_tags [OF assms(1), of "it_pos iter + 1"] that t assms(2)
    by (simp add: pb_field_iter_next_def cur_def Let_def)
qed

lemma iter_at_keeps [simp]:
  "it_start (iter_at fds dest k) = fds" "it_dest_struct (iter_at fds dest k) = dest"
  by (induction k) (simp_all add: next_keeps pb_field_iter_begin_def Let_def)

lemma iter_at_pos:
  "terminated fds \<Longrightarrow> k < nfields fds \<Longrightarrow> it_pos (iter_at fds dest k) = k"
proof (induction k)
  case 0
  then show ?case
    by (simp add: pb_field_iter_begin_def Let_def)
next
  case (Suc k)
  then show ?case
    using next_pos(1) [of "iter_at fds dest k"] by simp
qed

lemma cur_iter_at [simp]: "terminated fds \<Longrightarrow> k < nfields fds \<Longrightarrow> cur (iter_at fds dest k) = fds ! k"
  by (simp add: cur_def iter_at_pos)

lemma next_iter_at:
  assumes "terminated fds" "k < nfields fds"
  shows "pb_field_iter_next (iter_at fds dest k) =
    (k + 1 < nfields fds, iter_at fds dest (if k + 1 < nfields fds then k + 1 else 0))"
  using next_pos [of "iter_at fds dest k"] assms iter_at_pos [OF assms, of dest]
  by (auto simp: prod_eq_iff)

text \<open>The search visits the entries in cyclic order, and ends where it began when there is no match.\<close>

lemma cyclic_away: "start < n \<Longrightarrow> Suc j < n \<Longrightarrow> (start + Suc j) mod n \<noteq> start" for n :: nat
  by (simp add: mod_if) linarith

lemma cyclic_next: "start < n \<Longrightarrow> (start + Suc j) mod n = (if (start + j) mod n + 1 < n then (start + j) mod n + 1 else 0)"
  for n :: nat
proof -
  assume "start < n"
  then have "(start + j) mod n < n"
    by (intro mod_less_divisor) simp
  then show ?thesis
    by (simp add: mod_Suc)
qed

lemma find_loop_step:
  assumes "terminated fds" "start < nfields fds"
  shows "find_loop (Suc k) found start (iter_at fds dest ((start + j) mod nfields fds)) =
    (if found (fds ! ((start + j) mod nfields fds)) then (True, iter_at fds dest ((start + j) mod nfields fds))
     else if (start + Suc j) mod nfields fds = start then (False, iter_at fds dest start)
     else find_loop k found start (iter_at fds dest ((start + Suc j) mod nfields fds)))"
proof -
  have n: "(start + j) mod nfields fds < nfields fds" "(start + Suc j) mod nfields fds < nfields fds"
    using assms(2) by (simp_all add: mod_less_divisor)
  then show ?thesis
    using assms(1) next_iter_at [OF assms(1) n(1), of dest] cyclic_next [OF assms(2), of j]
    by (simp add: Let_def iter_at_pos)
qed

lemma find_loop_found:
  assumes "terminated fds" "start < nfields fds"
  shows "j + e < nfields fds \<Longrightarrow> (\<forall>i < e. \<not> found (fds ! ((start + j + i) mod nfields fds))) \<Longrightarrow>
    found (fds ! ((start + j + e) mod nfields fds)) \<Longrightarrow> e < k \<Longrightarrow>
    find_loop k found start (iter_at fds dest ((start + j) mod nfields fds)) = (True, iter_at fds dest ((start + j + e) mod nfields fds))"
proof (induction e arbitrary: j k)
  case 0
  then obtain k' where "k = Suc k'"
    by (cases k) auto
  then show ?case
    using 0 find_loop_step [OF assms, of k' found dest j] by simp
next
  case (Suc e)
  then obtain k' where k: "k = Suc k'"
    by (cases k) auto
  have "\<not> found (fds ! ((start + j) mod nfields fds))"
    using Suc.prems(2) by (metis add.right_neutral zero_less_Suc)
  moreover have "(start + Suc j) mod nfields fds \<noteq> start"
    using Suc.prems(1) assms(2) by (intro cyclic_away) simp_all
  moreover have "find_loop k' found start (iter_at fds dest ((start + Suc j) mod nfields fds)) =
      (True, iter_at fds dest ((start + Suc j + e) mod nfields fds))"
    using Suc.prems k by (intro Suc.IH) auto
  ultimately show ?case
    using find_loop_step [OF assms, of k' found dest j] k by simp
qed

lemma find_loop_missing:
  assumes "terminated fds" "start < nfields fds" "\<forall>i < nfields fds. \<not> found (fds ! i)"
  shows "Suc j + e = nfields fds \<Longrightarrow> e < k \<Longrightarrow>
    find_loop k found start (iter_at fds dest ((start + j) mod nfields fds)) = (False, iter_at fds dest start)"
proof (induction e arbitrary: j k)
  case 0
  then obtain k' where "k = Suc k'"
    by (cases k) auto
  moreover have "(start + Suc j) mod nfields fds = start"
  proof -
    have "start + Suc j = start + nfields fds"
      using 0 by simp
    then show ?thesis
      using assms(2) by (simp only: mod_add_self2 mod_less)
  qed
  moreover have "\<not> found (fds ! ((start + j) mod nfields fds))"
    using assms(2,3) by (simp add: mod_less_divisor)
  ultimately show ?case
    using find_loop_step [OF assms(1,2), of k' found dest j] by (simp only: refl if_True if_False)
next
  case (Suc e)
  then obtain k' where k: "k = Suc k'"
    by (cases k) auto
  have "(start + Suc j) mod nfields fds \<noteq> start"
    using Suc.prems(1) assms(2) by (intro cyclic_away) simp_all
  moreover have "\<not> found (fds ! ((start + j) mod nfields fds))"
    using assms(2,3) by (simp add: mod_less_divisor)
  moreover have "find_loop k' found start (iter_at fds dest ((start + Suc j) mod nfields fds)) = (False, iter_at fds dest start)"
    using Suc.prems k by (intro Suc.IH) simp_all
  ultimately show ?case
    using find_loop_step [OF assms(1,2), of k' found dest j] k by (simp only: if_False)
qed

lemma find_loop_cases:
  assumes "terminated fds" "start < nfields fds"
  obtains k where "k < nfields fds" "found (fds ! k)"
      "find_loop (length fds) found start (iter_at fds dest start) = (True, iter_at fds dest k)"
  | "\<forall>i < nfields fds. \<not> found (fds ! i)"
      "find_loop (length fds) found start (iter_at fds dest start) = (False, iter_at fds dest start)"
proof (cases "\<forall>i < nfields fds. \<not> found (fds ! i)")
  case True
  have "find_loop (length fds) found start (iter_at fds dest ((start + 0) mod nfields fds)) = (False, iter_at fds dest start)"
    using assms True by (intro find_loop_missing [where e = "nfields fds - 1"]) (simp_all add: nfields_def)
  then show thesis
    using True that(2) assms(2) by simp
next
  case False
  let ?n = "nfields fds"
  obtain i where i: "i < ?n" "found (fds ! i)"
    using False by auto
  have "found (fds ! ((start + (i + ?n - start)) mod ?n))"
    using i assms(2) by simp
  then have ex: "\<exists>e. found (fds ! ((start + e) mod ?n))" ..
  define e where "e = (LEAST e. found (fds ! ((start + e) mod ?n)))"
  have e: "found (fds ! ((start + e) mod ?n))" "\<forall>j < e. \<not> found (fds ! ((start + j) mod ?n))"
    using LeastI_ex [OF ex] not_less_Least by (auto simp: e_def)
  have "(start + e mod ?n) mod ?n = (start + e) mod ?n"
    by (simp add: mod_add_right_eq)
  then have "\<not> e mod ?n < e"
    using e by metis
  then have "e < ?n"
    using assms(2) by (metis gr_implies_not0 linorder_neqE_nat mod_less_divisor mod_less_eq_dividend nat_less_le not_gr_zero)
  then have "find_loop (length fds) found start (iter_at fds dest ((start + 0) mod ?n)) = (True, iter_at fds dest ((start + 0 + e) mod ?n))"
    using e assms by (intro find_loop_found) (simp_all add: nfields_def)
  then show thesis
    using that(1) [of "(start + e) mod ?n"] e(1) assms(2) by (simp add: mod_less_divisor)
qed

end
