(* ===== verification/Nanopb_Stream.thy ===== *)
theory Nanopb_Stream
  imports Prelude
begin

text \<open>
  The streams of nanopb (\<open>pb_encode.c\<close>, \<open>pb_decode.c\<close>), the Protocol Buffers library under the
  Firestore client, built with \<open>PB_FIELD_32BIT\<close> and \<open>PB_ENABLE_MALLOC\<close>.

  A stream is a record with the fields of the C structure.  Its callback is a function of its
  state; as the headers demand, callbacks do not touch the other fields.  A function that returns
  \<open>bool\<close> and changes a stream is a step from the old stream to \<open>Some ()\<close> or \<open>None\<close> and the new one.
\<close>

section \<open>Output streams\<close>

record 's ostream =
  os_callback :: "('s \<Rightarrow> bytes \<Rightarrow> bool \<times> 's) option"
  os_state :: 's
  os_max_size :: usize
  os_bytes_written :: usize
  os_errmsg :: "string option"

text \<open>\<open>PB_RETURN_ERROR\<close>: the first error message stays.\<close>

definition os_error :: "string \<Rightarrow> 's ostream \<Rightarrow> 'a option \<times> 's ostream" where
  "os_error msg stream =
     (None, stream\<lparr>os_errmsg := (case os_errmsg stream of None \<Rightarrow> Some msg | Some m \<Rightarrow> Some m)\<rparr>)"

text \<open>The state of a buffer stream: the caller's memory and the offset of the next byte in it.\<close>

type_synonym buffer_state = "bytes \<times> nat"

definition buf_write :: "buffer_state \<Rightarrow> bytes \<Rightarrow> bool \<times> buffer_state" where
  "buf_write st buf = (case st of (dest, pos) \<Rightarrow> (True, (mem_write dest pos buf, pos + length buf)))"

definition pb_ostream_from_buffer :: "bytes \<Rightarrow> usize \<Rightarrow> buffer_state ostream" where
  "pb_ostream_from_buffer buf bufsize =
     \<lparr>os_callback = Some buf_write, os_state = (buf, 0), os_max_size = bufsize, os_bytes_written = 0, os_errmsg = None\<rparr>"

text \<open>\<open>PB_OSTREAM_SIZING\<close>; its state is never used.\<close>

definition pb_ostream_sizing :: "'s \<Rightarrow> 's ostream" where
  "pb_ostream_sizing st =
     \<lparr>os_callback = None, os_state = st, os_max_size = 0, os_bytes_written = 0, os_errmsg = None\<rparr>"

definition pb_write :: "bytes \<Rightarrow> usize \<Rightarrow> 's ostream \<Rightarrow> unit option \<times> 's ostream" where
  "pb_write buf count stream =
     (case os_callback stream of
        None \<Rightarrow> (Some (), stream\<lparr>os_bytes_written := os_bytes_written stream + count\<rparr>)
      | Some callback \<Rightarrow>
          if os_bytes_written stream + count > os_max_size stream then os_error ''stream full'' stream
          else case callback (os_state stream) (take (unat count) buf) of
            (False, st) \<Rightarrow> os_error ''io error'' (stream\<lparr>os_state := st\<rparr>)
          | (True, st) \<Rightarrow> (Some (), stream\<lparr>os_state := st, os_bytes_written := os_bytes_written stream + count\<rparr>))"

section \<open>Input streams\<close>

text \<open>
  \<open>is_custom\<close> is the callback of a stream that is not a buffer stream; \<open>None\<close> stands for
  \<open>buf_read\<close>, whose state is the memory from the current position on.
\<close>

record 's istream =
  is_custom :: "('s \<Rightarrow> usize \<Rightarrow> bytes option \<times> 's) option"
  is_state :: 's
  is_mem :: bytes
  is_bytes_left :: usize
  is_errmsg :: "string option"

definition is_error :: "string \<Rightarrow> 's istream \<Rightarrow> 'a option \<times> 's istream" where
  "is_error msg stream =
     (None, stream\<lparr>is_errmsg := (case is_errmsg stream of None \<Rightarrow> Some msg | Some m \<Rightarrow> Some m)\<rparr>)"

definition buf_read :: "usize \<Rightarrow> bytes \<Rightarrow> bytes option \<times> bytes" where
  "buf_read count source = (Some (take (unat count) source), drop (unat count) source)"

definition is_callback :: "usize \<Rightarrow> 's istream \<Rightarrow> bytes option \<times> 's istream" where
  "is_callback count stream =
     (case is_custom stream of
        None \<Rightarrow> (case buf_read count (is_mem stream) of (r, m) \<Rightarrow> (r, stream\<lparr>is_mem := m\<rparr>))
      | Some f \<Rightarrow> (case f (is_state stream) count of (r, st) \<Rightarrow> (r, stream\<lparr>is_state := st\<rparr>)))"

text \<open>\<open>pb_read\<close> with a buffer for the bytes.\<close>

definition pb_read :: "usize \<Rightarrow> 's istream \<Rightarrow> bytes option \<times> 's istream" where
  "pb_read count stream =
     (if is_bytes_left stream < count then is_error ''end-of-stream'' stream
      else case is_callback count stream of
        (None, stream) \<Rightarrow> is_error ''io error'' stream
      | (Some buf, stream) \<Rightarrow> (Some buf, stream\<lparr>is_bytes_left := is_bytes_left stream - count\<rparr>))"

text \<open>\<open>pb_read\<close> with \<open>NULL\<close>: a custom stream is read in pieces of sixteen bytes.\<close>

function pb_skip_loop :: "usize \<Rightarrow> 's istream \<Rightarrow> unit option \<times> 's istream" where
  "pb_skip_loop count stream =
     (if count > 16 then
        (case pb_read 16 stream of
           (None, stream) \<Rightarrow> (None, stream)
         | (Some _, stream) \<Rightarrow> pb_skip_loop (count - 16) stream)
      else andthen (pb_read count) (\<lambda>_ stream. (Some (), stream)) stream)"
  by auto

termination
  by (relation "measure (\<lambda>(count, _). unat count)") (auto simp: word_less_nat_alt unat_sub word_le_nat_alt)

declare pb_skip_loop.simps [simp del]

definition pb_read_null :: "usize \<Rightarrow> 's istream \<Rightarrow> unit option \<times> 's istream" where
  "pb_read_null count stream =
     (if is_custom stream \<noteq> None then pb_skip_loop count stream
      else andthen (pb_read count) (\<lambda>_ stream. (Some (), stream)) stream)"

definition pb_readbyte :: "'s istream \<Rightarrow> u8 option \<times> 's istream" where
  "pb_readbyte stream =
     (if is_bytes_left stream = 0 then is_error ''end-of-stream'' stream
      else case is_callback 1 stream of
        (None, stream) \<Rightarrow> is_error ''io error'' stream
      | (Some buf, stream) \<Rightarrow> (Some (buf ! 0), stream\<lparr>is_bytes_left := is_bytes_left stream - 1\<rparr>))"

definition pb_istream_from_buffer :: "bytes \<Rightarrow> usize \<Rightarrow> unit istream" where
  "pb_istream_from_buffer buf bufsize =
     \<lparr>is_custom = None, is_state = (), is_mem = buf, is_bytes_left = bufsize, is_errmsg = None\<rparr>"

section \<open>What is left of a buffer stream\<close>

definition stream_ok :: "'s istream \<Rightarrow> bool" where
  "stream_ok s \<longleftrightarrow> is_custom s = None \<and> unat (is_bytes_left s) \<le> length (is_mem s)"

definition avail :: "'s istream \<Rightarrow> bytes" where
  "avail s = take (unat (is_bytes_left s)) (is_mem s)"

definition advance :: "nat \<Rightarrow> 's istream \<Rightarrow> 's istream" where
  "advance n s = s\<lparr>is_mem := drop n (is_mem s), is_bytes_left := is_bytes_left s - of_nat n\<rparr>"

lemma length_avail: "stream_ok s \<Longrightarrow> length (avail s) = unat (is_bytes_left s)"
  by (simp add: stream_ok_def avail_def)

lemma advance_ok:
  assumes "stream_ok s" "n \<le> length (avail s)"
  shows "stream_ok (advance n s)" "avail (advance n s) = drop n (avail s)"
proof -
  have n: "n \<le> unat (is_bytes_left s)" "n < 2 ^ 64"
    using assms unat_lt64 [of "is_bytes_left s"] by (auto simp: length_avail)
  then have u: "unat (is_bytes_left s - of_nat n) = unat (is_bytes_left s) - n"
    using unat_sub [of "of_nat n" "is_bytes_left s"] by (simp add: word_le_nat_alt unat_of_nat_small)
  show "stream_ok (advance n s)" "avail (advance n s) = drop n (avail s)"
    using assms n u by (auto simp: stream_ok_def advance_def avail_def drop_take)
qed

lemma advance_advance: "advance m (advance n s) = advance (n + m) s"
  by (simp add: advance_def add.commute)

lemma advance_zero [simp]: "advance 0 s = s"
  by (simp add: advance_def)

lemma from_buffer_ok:
  "length xs < 2 ^ 64 \<Longrightarrow> stream_ok (pb_istream_from_buffer xs (of_nat (length xs))) \<and>
    avail (pb_istream_from_buffer xs (of_nat (length xs))) = xs"
  by (simp add: stream_ok_def avail_def pb_istream_from_buffer_def unat_of_nat_small)

lemma pb_read_ok:
  assumes "stream_ok s" "avail s = xs @ rest" "n = of_nat (length xs)"
  shows "pb_read n s = (Some xs, advance (length xs) s)"
    and "pb_read_null n s = (Some (), advance (length xs) s)"
proof -
  have len: "length xs \<le> unat (is_bytes_left s)" "length xs < 2 ^ 64"
    using arg_cong [OF assms(2), of length] length_avail [OF assms(1)] unat_lt64 [of "is_bytes_left s"] by auto
  have n: "unat n = length xs"
    using assms(3) len by (simp add: unat_of_nat_small)
  have "take (length xs) (is_mem s) = take (length xs) (avail s)"
    using len by (simp add: avail_def)
  then have "take (unat n) (is_mem s) = xs"
    using assms(2) n by simp
  moreover have "\<not> is_bytes_left s < n"
    using n len by (simp add: word_less_nat_alt)
  ultimately show r: "pb_read n s = (Some xs, advance (length xs) s)"
    using assms(1) n by (simp add: pb_read_def is_callback_def stream_ok_def buf_read_def advance_def assms(3))
  show "pb_read_null n s = (Some (), advance (length xs) s)"
    using assms(1) r by (simp add: pb_read_null_def stream_ok_def)
qed

lemma pb_read_short:
  assumes "stream_ok s" "length (avail s) < unat n"
  shows "pb_read n s = is_error ''end-of-stream'' s" "pb_read_null n s = is_error ''end-of-stream'' s"
  using assms by (auto simp: pb_read_def pb_read_null_def length_avail word_less_nat_alt stream_ok_def is_error_def)

lemma pb_readbyte_ok:
  assumes "stream_ok s" "avail s = b # rest"
  shows "pb_readbyte s = (Some b, advance 1 s)"
proof -
  have "0 < unat (is_bytes_left s)"
    using arg_cong [OF assms(2), of length] length_avail [OF assms(1)] by simp
  then have "is_bytes_left s \<noteq> 0"
    by auto
  moreover have "is_mem s = b # drop 1 (is_mem s)"
    using assms(2) \<open>0 < unat (is_bytes_left s)\<close> by (cases "is_mem s") (auto simp: avail_def take_Cons')
  ultimately show ?thesis
    using assms(1) by (simp add: pb_readbyte_def is_callback_def stream_ok_def buf_read_def advance_def) (metis nth_Cons_0 take_Suc_Cons)
qed

lemma pb_readbyte_empty:
  "stream_ok s \<Longrightarrow> avail s = [] \<Longrightarrow> pb_readbyte s = is_error ''end-of-stream'' s"
  using length_avail [of s] by (auto simp: pb_readbyte_def unat_0_iff)

lemma is_error_keeps [simp]:
  "stream_ok (snd (is_error msg s)) = stream_ok s" "avail (snd (is_error msg s)) = avail s"
  "fst (is_error msg s) = None"
  by (simp_all add: is_error_def stream_ok_def avail_def)

section \<open>What a sink stores\<close>

text \<open>
  The contract between the encoder and the callback of an output stream: \<open>stored\<close> is what has
  been written, \<open>space\<close> how much more the callback takes.
\<close>

locale sink =
  fixes put :: "'s \<Rightarrow> bytes \<Rightarrow> bool \<times> 's" and stored :: "'s \<Rightarrow> bytes" and space :: "'s \<Rightarrow> nat"
  assumes put_ok: "length buf \<le> space st \<Longrightarrow>
    \<exists>st'. put st buf = (True, st') \<and> stored st' = stored st @ buf \<and> space st' = space st - length buf"
begin

text \<open>The stream writes to the sink, which has room for what the limit of the stream allows.\<close>

definition connected :: "'s ostream \<Rightarrow> bool" where
  "connected s \<longleftrightarrow> os_callback s = Some put \<and> os_bytes_written s \<le> os_max_size s \<and>
     unat (os_max_size s) - unat (os_bytes_written s) \<le> space (os_state s) \<and> unat (os_max_size s) < 2 ^ 63"

lemma pb_write_connected:
  assumes "connected s" "length bs \<le> unat (os_max_size s) - unat (os_bytes_written s)"
  shows "\<exists>s'. pb_write bs (of_nat (length bs)) s = (Some (), s') \<and> connected s' \<and>
    stored (os_state s') = stored (os_state s) @ bs \<and> os_max_size s' = os_max_size s \<and> os_errmsg s' = os_errmsg s \<and>
    space (os_state s') = space (os_state s) - length bs \<and> unat (os_bytes_written s') = unat (os_bytes_written s) + length bs"
proof -
  have len: "length bs < 2 ^ 63" "unat (of_nat (length bs) :: usize) = length bs"
    using assms by (auto simp: connected_def unat_of_nat_small)
  have sum: "unat (os_bytes_written s + of_nat (length bs)) = unat (os_bytes_written s) + length bs"
    using assms len unat_add64 [of "os_bytes_written s" "of_nat (length bs)"] by (simp add: connected_def word_le_nat_alt)
  obtain st' where st: "put (os_state s) bs = (True, st')" "stored st' = stored (os_state s) @ bs"
      "space st' = space (os_state s) - length bs"
    using put_ok [of bs "os_state s"] assms by (auto simp: connected_def)
  have "unat (os_bytes_written s) \<le> unat (os_max_size s)"
    using assms(1) by (simp add: connected_def word_le_nat_alt)
  then have "unat (os_bytes_written s) + length bs \<le> unat (os_max_size s)"
    using assms(2) by linarith
  moreover from this have "\<not> os_bytes_written s + of_nat (length bs) > os_max_size s"
    using sum by (simp add: word_less_nat_alt)
  moreover have "unat (os_max_size s) - (unat (os_bytes_written s) + length bs) \<le> space (os_state s) - length bs"
    using assms by (auto simp: connected_def diff_le_mono simp flip: diff_diff_left)
  ultimately show ?thesis
    using assms st sum len by (simp add: pb_write_def connected_def word_le_nat_alt)
qed

lemma pb_write_full:
  assumes "connected s" "unat (os_max_size s) - unat (os_bytes_written s) < length bs" "length bs < 2 ^ 63"
  shows "pb_write bs (of_nat (length bs)) s = os_error ''stream full'' s"
proof -
  have "unat (os_bytes_written s + of_nat (length bs)) = unat (os_bytes_written s) + length bs"
    using assms unat_add64 [of "os_bytes_written s" "of_nat (length bs)"]
    by (simp add: connected_def word_le_nat_alt unat_of_nat_small)
  then have "os_bytes_written s + of_nat (length bs) > os_max_size s"
    using assms by (simp add: connected_def word_less_nat_alt word_le_nat_alt)
  then show ?thesis
    using assms(1) by (simp add: pb_write_def connected_def)
qed

end

interpretation buffer: sink buf_write "\<lambda>(dest, pos). take pos dest" "\<lambda>(dest, pos). length dest - pos"
proof
  fix buf :: bytes and st :: buffer_state
  assume "length buf \<le> (case st of (dest, pos) \<Rightarrow> length dest - pos)"
  then show "\<exists>st'. buf_write st buf = (True, st') \<and>
      (case st' of (dest, pos) \<Rightarrow> take pos dest) = (case st of (dest, pos) \<Rightarrow> take pos dest) @ buf \<and>
      (case st' of (dest, pos) \<Rightarrow> length dest - pos) = (case st of (dest, pos) \<Rightarrow> length dest - pos) - length buf"
    using take_mem_write [of "snd st" buf "fst st" "snd st + length buf"]
    by (cases "length buf = 0") (auto simp: buf_write_def mem_write_def split: prod.splits)
qed

end
