(* ===== verification/Nanopb_Wire.thy ===== *)
theory Nanopb_Wire
  imports Nanopb_Stream
begin

text \<open>
  The Protocol Buffers wire format in nanopb: the encoders and decoders of varints, zigzag varints,
  fixed-width integers, tags and length-delimited strings of \<open>pb_encode.c\<close> and \<open>pb_decode.c\<close>.
\<close>

section \<open>Encoders\<close>

text \<open>The loop of \<open>pb_encode_varint\<close>: the bytes it stores in \<open>buffer\<close>, all with the top bit set.\<close>

function varint_loop :: "u64 \<Rightarrow> bytes" where
  "varint_loop v = (if v = 0 then [] else (ucast (v AND 0x7f) OR 0x80) # varint_loop (drop_bit 7 v))"
  by auto

termination
proof (relation "measure unat")
  fix v :: u64
  assume "v \<noteq> 0"
  then have "0 < unat v"
    by (simp add: unat_gt_0)
  then show "(drop_bit 7 v, v) \<in> measure unat"
    by (simp add: unat_drop_bit_eq drop_bit_eq_div unat_div_distrib)
qed simp

declare varint_loop.simps [simp del]

definition pb_encode_varint :: "u64 \<Rightarrow> 's ostream \<Rightarrow> unit option \<times> 's ostream" where
  "pb_encode_varint v stream =
     (if v \<le> 0x7f then pb_write [ucast v] 1 stream
      else
        let buffer = varint_loop v; i = length buffer;
            buffer = buffer[i - 1 := buffer ! (i - 1) AND 0x7f]
        in pb_write buffer (of_nat i) stream)"

definition pb_encode_svarint :: "u64 \<Rightarrow> 's ostream \<Rightarrow> unit option \<times> 's ostream" where
  "pb_encode_svarint v stream =
     (let zigzagged = (if v <s 0 then NOT (push_bit 1 v) else push_bit 1 v)
      in pb_encode_varint zigzagged stream)"

definition pb_encode_fixed32 :: "u32 \<Rightarrow> 's ostream \<Rightarrow> unit option \<times> 's ostream" where
  "pb_encode_fixed32 val stream =
     pb_write [ucast (val AND 0xff), ucast (drop_bit 8 val AND 0xff), ucast (drop_bit 16 val AND 0xff),
       ucast (drop_bit 24 val AND 0xff)] 4 stream"

definition pb_encode_fixed64 :: "u64 \<Rightarrow> 's ostream \<Rightarrow> unit option \<times> 's ostream" where
  "pb_encode_fixed64 val stream =
     pb_write [ucast (val AND 0xff), ucast (drop_bit 8 val AND 0xff), ucast (drop_bit 16 val AND 0xff),
       ucast (drop_bit 24 val AND 0xff), ucast (drop_bit 32 val AND 0xff), ucast (drop_bit 40 val AND 0xff),
       ucast (drop_bit 48 val AND 0xff), ucast (drop_bit 56 val AND 0xff)] 8 stream"

text \<open>\<open>pb_wire_type_t\<close>: a C enumeration, which can hold values that are not enumerators.\<close>

type_synonym wire_type = u32

definition PB_WT_VARINT :: wire_type where "PB_WT_VARINT = 0"
definition PB_WT_64BIT :: wire_type where "PB_WT_64BIT = 1"
definition PB_WT_STRING :: wire_type where "PB_WT_STRING = 2"
definition PB_WT_32BIT :: wire_type where "PB_WT_32BIT = 5"

lemmas wire_types = PB_WT_VARINT_def PB_WT_64BIT_def PB_WT_STRING_def PB_WT_32BIT_def

definition pb_encode_tag :: "wire_type \<Rightarrow> u32 \<Rightarrow> 's ostream \<Rightarrow> unit option \<times> 's ostream" where
  "pb_encode_tag wiretype field_number = pb_encode_varint (push_bit 3 (ucast field_number) OR ucast wiretype)"

definition pb_encode_string :: "bytes \<Rightarrow> usize \<Rightarrow> 's ostream \<Rightarrow> unit option \<times> 's ostream" where
  "pb_encode_string buffer n = andthen (pb_encode_varint n) (\<lambda>_. pb_write buffer n)"

section \<open>Decoders\<close>

text \<open>
  The multibyte loop of \<open>pb_decode_varint32_eof\<close>: \<open>bitpos\<close> is a \<open>uint_fast8_t\<close>, eight bits on the
  targets of the application.  The result is the value, the last byte and \<open>bitpos\<close>.
\<close>

lemma readbyte_left: "pb_readbyte s = (Some b, s') \<Longrightarrow> unat (is_bytes_left s') < unat (is_bytes_left s)"
proof -
  assume "pb_readbyte s = (Some b, s')"
  then have "is_bytes_left s \<noteq> 0" "is_bytes_left s' = is_bytes_left s - 1"
    by (auto simp: pb_readbyte_def is_error_def is_callback_def split: prod.splits option.splits if_splits)
  then show ?thesis
    by (simp add: unat_minus_one unat_gt_0)
qed

function varint32_loop :: "u32 \<Rightarrow> u8 \<Rightarrow> 's istream \<Rightarrow> (u32 \<times> u8 \<times> u8) option \<times> 's istream" where
  "varint32_loop result bitpos stream =
     (case pb_readbyte stream of
        (None, stream) \<Rightarrow> (None, stream)
      | (Some byt, stream) \<Rightarrow>
          let sign_extension = (if bitpos < 63 then 0xff else 0x01);
              overflow = bitpos \<ge> 32 \<and> byt AND 0x7f \<noteq> 0 \<and> (drop_bit 31 result = 0 \<or> byt \<noteq> sign_extension);
              result = (if bitpos \<ge> 32 then result else result OR push_bit (unat bitpos) (ucast (byt AND 0x7f)));
              bitpos = bitpos + 7
          in if overflow then is_error ''varint overflow'' stream
             else if byt AND 0x80 \<noteq> 0 then varint32_loop result bitpos stream
             else (Some (result, byt, bitpos), stream))"
  by auto

termination
  by (relation "measure (\<lambda>(_, _, stream). unat (is_bytes_left stream))") (auto dest!: readbyte_left [OF sym])

declare varint32_loop.simps [simp del]

text \<open>\<open>pb_decode_varint32_eof\<close>: the value and whether it sets \<open>*eof\<close>.\<close>

definition pb_decode_varint32_eof :: "'s istream \<Rightarrow> (u32 option \<times> bool) \<times> 's istream" where
  "pb_decode_varint32_eof stream =
     (case pb_readbyte stream of
        (None, stream) \<Rightarrow> ((None, is_bytes_left stream = 0), stream)
      | (Some byt, stream) \<Rightarrow>
          if byt AND 0x80 = 0 then ((Some (ucast byt), False), stream)
          else case varint32_loop (ucast (byt AND 0x7f)) 7 stream of
            (None, stream) \<Rightarrow> ((None, False), stream)
          | (Some (result, byt, bitpos), stream) \<Rightarrow>
              if bitpos = 35 \<and> byt AND 0x70 \<noteq> 0 then
                (case is_error ''varint overflow'' stream of (r, stream) \<Rightarrow> ((r, False), stream))
              else ((Some result, False), stream))"

definition pb_decode_varint32 :: "'s istream \<Rightarrow> u32 option \<times> 's istream" where
  "pb_decode_varint32 stream = (case pb_decode_varint32_eof stream of ((r, _), stream) \<Rightarrow> (r, stream))"

function varint_dec_loop :: "u64 \<Rightarrow> u8 \<Rightarrow> 's istream \<Rightarrow> u64 option \<times> 's istream" where
  "varint_dec_loop result bitpos stream =
     (if bitpos \<ge> 64 then is_error ''varint overflow'' stream
      else case pb_readbyte stream of
        (None, stream) \<Rightarrow> (None, stream)
      | (Some byt, stream) \<Rightarrow>
          let result = result OR push_bit (unat bitpos) (ucast (byt AND 0x7f));
              bitpos = bitpos + 7
          in if byt AND 0x80 \<noteq> 0 then varint_dec_loop result bitpos stream
             else (Some result, stream))"
  by auto

termination
  by (relation "measure (\<lambda>(_, _, stream). unat (is_bytes_left stream))") (auto dest!: readbyte_left [OF sym])

declare varint_dec_loop.simps [simp del]

definition pb_decode_varint :: "'s istream \<Rightarrow> u64 option \<times> 's istream" where
  "pb_decode_varint = varint_dec_loop 0 0"

text \<open>\<open>pb_skip_varint\<close> reads with \<open>pb_read\<close>.\<close>

lemma pb_read_left:
  "pb_read n s = (Some xs, s') \<Longrightarrow> n \<noteq> 0 \<Longrightarrow> unat (is_bytes_left s') < unat (is_bytes_left s)"
proof -
  assume r: "pb_read n s = (Some xs, s')" "n \<noteq> 0"
  then have "n \<le> is_bytes_left s" "is_bytes_left s' = is_bytes_left s - n"
    by (auto simp: pb_read_def is_error_def is_callback_def not_less split: prod.splits option.splits if_splits)
  then show ?thesis
    using r(2) unat_sub [of n "is_bytes_left s"] unat_gt_0 [of n] by (simp add: word_le_nat_alt)
qed

function pb_skip_varint :: "'s istream \<Rightarrow> unit option \<times> 's istream" where
  "pb_skip_varint stream =
     (case pb_read 1 stream of
        (None, stream) \<Rightarrow> (None, stream)
      | (Some byt, stream) \<Rightarrow> if byt ! 0 AND 0x80 \<noteq> 0 then pb_skip_varint stream else (Some (), stream))"
  by auto

termination
  by (relation "measure (\<lambda>stream. unat (is_bytes_left stream))") (auto dest!: pb_read_left [OF sym])

declare pb_skip_varint.simps [simp del]

definition pb_skip_string :: "'s istream \<Rightarrow> unit option \<times> 's istream" where
  "pb_skip_string = andthen pb_decode_varint32 (\<lambda>n. pb_read_null (ucast n))"

text \<open>\<open>pb_decode_tag\<close>: the wire type and the tag, and the final value of \<open>*eof\<close>.\<close>

definition pb_decode_tag :: "'s istream \<Rightarrow> ((wire_type \<times> u32) option \<times> bool) \<times> 's istream" where
  "pb_decode_tag stream =
     (case pb_decode_varint32_eof stream of
        ((None, eof), stream) \<Rightarrow> ((None, eof), stream)
      | ((Some temp, eof), stream) \<Rightarrow>
          if temp = 0 then ((None, True), stream)
          else ((Some (temp AND 7, drop_bit 3 temp), eof), stream))"

definition pb_skip_field :: "wire_type \<Rightarrow> 's istream \<Rightarrow> unit option \<times> 's istream" where
  "pb_skip_field wire_type =
     (if wire_type = PB_WT_VARINT then pb_skip_varint
      else if wire_type = PB_WT_64BIT then pb_read_null 8
      else if wire_type = PB_WT_STRING then pb_skip_string
      else if wire_type = PB_WT_32BIT then pb_read_null 4
      else is_error ''invalid wire_type'')"

text \<open>\<open>read_raw_value\<close>: the bytes stored in a buffer of \<open>max_size\<close> bytes; their number is \<open>*size\<close>.\<close>

function raw_varint :: "usize \<Rightarrow> bytes \<Rightarrow> 's istream \<Rightarrow> bytes option \<times> 's istream" where
  "raw_varint max_size buf stream =
     (if of_nat (length buf) + 1 > max_size then (None, stream)
      else case pb_read 1 stream of
        (None, stream) \<Rightarrow> (None, stream)
      | (Some byt, stream) \<Rightarrow>
          if byt ! 0 AND 0x80 \<noteq> 0 then raw_varint max_size (buf @ [byt ! 0]) stream
          else (Some (buf @ [byt ! 0]), stream))"
  by auto

termination
  by (relation "measure (\<lambda>(_, _, stream). unat (is_bytes_left stream))") (auto dest!: pb_read_left [OF sym])

declare raw_varint.simps [simp del]

definition read_raw_value :: "wire_type \<Rightarrow> usize \<Rightarrow> 's istream \<Rightarrow> bytes option \<times> 's istream" where
  "read_raw_value wire_type max_size =
     (if wire_type = PB_WT_VARINT then raw_varint max_size []
      else if wire_type = PB_WT_64BIT then pb_read 8
      else if wire_type = PB_WT_32BIT then pb_read 4
      else is_error ''invalid wire_type'')"

text \<open>The substream and the parent stream.\<close>

definition pb_make_string_substream :: "'s istream \<Rightarrow> 's istream option \<times> 's istream" where
  "pb_make_string_substream = andthen pb_decode_varint32 (\<lambda>n stream.
     if is_bytes_left stream < ucast n then is_error ''parent stream too short'' stream
     else (Some (stream\<lparr>is_bytes_left := ucast n\<rparr>), stream\<lparr>is_bytes_left := is_bytes_left stream - ucast n\<rparr>))"

definition pb_close_string_substream :: "'s istream \<Rightarrow> 's istream \<Rightarrow> unit option \<times> 's istream" where
  "pb_close_string_substream substream stream =
     (case (if is_bytes_left substream \<noteq> 0 then pb_read_null (is_bytes_left substream) substream else (Some (), substream)) of
        (None, substream) \<Rightarrow> (None, stream)
      | (Some _, substream) \<Rightarrow>
          (Some (), stream\<lparr>is_mem := is_mem substream, is_state := is_state substream, is_errmsg := is_errmsg substream\<rparr>))"

definition pb_decode_svarint :: "'s istream \<Rightarrow> u64 option \<times> 's istream" where
  "pb_decode_svarint = andthen pb_decode_varint (\<lambda>v stream.
     (Some (if v AND 1 \<noteq> 0 then NOT (drop_bit 1 v) else drop_bit 1 v), stream))"

definition pb_decode_fixed32 :: "'s istream \<Rightarrow> u32 option \<times> 's istream" where
  "pb_decode_fixed32 = andthen (pb_read 4) (\<lambda>b stream.
     (Some (push_bit 0 (ucast (b ! 0)) OR push_bit 8 (ucast (b ! 1)) OR push_bit 16 (ucast (b ! 2)) OR
            push_bit 24 (ucast (b ! 3))), stream))"

definition pb_decode_fixed64 :: "'s istream \<Rightarrow> u64 option \<times> 's istream" where
  "pb_decode_fixed64 = andthen (pb_read 8) (\<lambda>b stream.
     (Some (push_bit 0 (ucast (b ! 0)) OR push_bit 8 (ucast (b ! 1)) OR push_bit 16 (ucast (b ! 2)) OR
            push_bit 24 (ucast (b ! 3)) OR push_bit 32 (ucast (b ! 4)) OR push_bit 40 (ucast (b ! 5)) OR
            push_bit 48 (ucast (b ! 6)) OR push_bit 56 (ucast (b ! 7))), stream))"

end
