(* ===== verification/Nanopb_Encode.thy ===== *)
theory Nanopb_Encode
  imports Nanopb_Message Nanopb_Wire
begin

text \<open>
  The message encoder of \<open>pb_encode.c\<close>.

  A step on an output stream is a function to an option: \<open>None\<close> when the C code does not return
  normally (nested messages, default checks or extension lists deeper than the fuel, a call through
  a missing encoder), and otherwise what the C function returns and the stream it leaves.  The
  functions that callback fields and extension types point to belong to the program that uses the
  library: they are parameters, indexed by the address stored in the message.
\<close>

section \<open>Steps and surroundings\<close>

type_synonym 's enc = "'s ostream \<Rightarrow> (unit option \<times> 's ostream) option"

definition ret_true :: "'s enc" where
  "ret_true s = Some (Some (), s)"

definition total :: "('s ostream \<Rightarrow> unit option \<times> 's ostream) \<Rightarrow> 's enc" where
  "total f s = Some (f s)"

text \<open>\<open>if (!f(stream)) return false; return g(stream);\<close>\<close>

definition and_then :: "'s enc \<Rightarrow> 's enc \<Rightarrow> 's enc" where
  "and_then f g s =
     (case f s of
        None \<Rightarrow> None
      | Some (None, s) \<Rightarrow> Some (None, s)
      | Some (Some _, s) \<Rightarrow> g s)"

record 's pb_env =
  env_mem :: memory
  env_fields :: "addr \<Rightarrow> pb_field list"
  env_callback :: "addr \<Rightarrow> pb_field \<Rightarrow> addr \<Rightarrow> 's ostream \<Rightarrow> unit option \<times> 's ostream"
  env_extension :: "addr \<Rightarrow> addr \<Rightarrow> 's ostream \<Rightarrow> unit option \<times> 's ostream"

section \<open>Field encoders\<close>

text \<open>A signed or unsigned integer of \<open>data_size\<close> bytes, extended to 64 bits.\<close>

definition read_signed :: "memory \<Rightarrow> u32 \<Rightarrow> addr \<Rightarrow> u64 option" where
  "read_signed m data_size src =
     (if data_size = 1 then Some (scast (m src))
      else if data_size = 2 then Some (scast (load16 m src))
      else if data_size = 4 then Some (scast (load32 m src))
      else if data_size = 8 then Some (load64 m src)
      else None)"

definition read_unsigned :: "memory \<Rightarrow> u32 \<Rightarrow> addr \<Rightarrow> u64 option" where
  "read_unsigned m data_size src =
     (if data_size = 1 then Some (ucast (m src))
      else if data_size = 2 then Some (ucast (load16 m src))
      else if data_size = 4 then Some (ucast (load32 m src))
      else if data_size = 8 then Some (load64 m src)
      else None)"

definition pb_enc_varint :: "memory \<Rightarrow> pb_field \<Rightarrow> addr \<Rightarrow> 's ostream \<Rightarrow> unit option \<times> 's ostream" where
  "pb_enc_varint m field src stream =
     (case read_signed m (fd_data_size field) src of
        None \<Rightarrow> os_error ''invalid data_size'' stream
      | Some value \<Rightarrow> pb_encode_varint value stream)"

definition pb_enc_uvarint :: "memory \<Rightarrow> pb_field \<Rightarrow> addr \<Rightarrow> 's ostream \<Rightarrow> unit option \<times> 's ostream" where
  "pb_enc_uvarint m field src stream =
     (case read_unsigned m (fd_data_size field) src of
        None \<Rightarrow> os_error ''invalid data_size'' stream
      | Some value \<Rightarrow> pb_encode_varint value stream)"

definition pb_enc_svarint :: "memory \<Rightarrow> pb_field \<Rightarrow> addr \<Rightarrow> 's ostream \<Rightarrow> unit option \<times> 's ostream" where
  "pb_enc_svarint m field src stream =
     (case read_signed m (fd_data_size field) src of
        None \<Rightarrow> os_error ''invalid data_size'' stream
      | Some value \<Rightarrow> pb_encode_svarint value stream)"

definition pb_enc_fixed64 :: "memory \<Rightarrow> addr \<Rightarrow> 's ostream \<Rightarrow> unit option \<times> 's ostream" where
  "pb_enc_fixed64 m src = pb_encode_fixed64 (load64 m src)"

definition pb_enc_fixed32 :: "memory \<Rightarrow> addr \<Rightarrow> 's ostream \<Rightarrow> unit option \<times> 's ostream" where
  "pb_enc_fixed32 m src = pb_encode_fixed32 (load32 m src)"

text \<open>\<open>pb_bytes_array_t\<close>: the size, and the bytes from offset 4.\<close>

definition PB_BYTES_ARRAY_T_ALLOCSIZE :: "u32 \<Rightarrow> usize" where
  "PB_BYTES_ARRAY_T_ALLOCSIZE n = ucast n + 4"

definition pb_enc_bytes :: "memory \<Rightarrow> pb_field \<Rightarrow> addr \<Rightarrow> 's ostream \<Rightarrow> unit option \<times> 's ostream" where
  "pb_enc_bytes m field src stream =
     (if src = 0 then pb_encode_string [] 0 stream
      else
        let n = load32 m src
        in if PB_ATYPE (fd_type field) = PB_ATYPE_STATIC \<and> PB_BYTES_ARRAY_T_ALLOCSIZE n > ucast (fd_data_size field)
           then os_error ''bytes size exceeded'' stream
           else pb_encode_string (load m (src + 4) (unat n)) (ucast n) stream)"

text \<open>The loop of \<open>pb_enc_string\<close>.\<close>

function string_size :: "memory \<Rightarrow> usize \<Rightarrow> usize \<Rightarrow> addr \<Rightarrow> usize" where
  "string_size m n max_size p =
     (if n < max_size \<and> m p \<noteq> 0 then string_size m (n + 1) max_size (p + 1) else n)"
  by auto

termination
proof (relation "measure (\<lambda>(m, n, max_size, p). unat max_size - unat n)")
  fix m :: memory and n max_size :: usize and p :: addr
  assume a: "n < max_size \<and> m p \<noteq> 0"
  then have "unat n < unat max_size"
    by (simp add: word_less_nat_alt)
  moreover from this have "unat (n + 1) = unat n + 1"
    using unat_add64 [of n 1] unat_lt64 [of max_size] by simp
  ultimately show "((m, n + 1, max_size, p + 1), (m, n, max_size, p)) \<in> measure (\<lambda>(m, n, max_size, p). unat max_size - unat n)"
    by simp
qed simp

declare string_size.simps [simp del]

definition pb_enc_string :: "memory \<Rightarrow> pb_field \<Rightarrow> addr \<Rightarrow> 's ostream \<Rightarrow> unit option \<times> 's ostream" where
  "pb_enc_string m field src stream =
     (let max_size = (if PB_ATYPE (fd_type field) = PB_ATYPE_POINTER then 0xffffffffffffffff else ucast (fd_data_size field));
          n = (if src = 0 then 0 else string_size m 0 max_size src)
      in pb_encode_string (load m src (unat n)) n stream)"

definition pb_enc_fixed_length_bytes :: "memory \<Rightarrow> pb_field \<Rightarrow> addr \<Rightarrow> 's ostream \<Rightarrow> unit option \<times> 's ostream" where
  "pb_enc_fixed_length_bytes m field src =
     pb_encode_string (load m src (unat (fd_data_size field))) (ucast (fd_data_size field))"

definition pb_encode_tag_for_field :: "pb_field \<Rightarrow> 's ostream \<Rightarrow> unit option \<times> 's ostream" where
  "pb_encode_tag_for_field field stream =
     (let t = PB_LTYPE (fd_type field)
      in if t = PB_LTYPE_VARINT \<or> t = PB_LTYPE_UVARINT \<or> t = PB_LTYPE_SVARINT then
           pb_encode_tag PB_WT_VARINT (fd_tag field) stream
         else if t = PB_LTYPE_FIXED32 then pb_encode_tag PB_WT_32BIT (fd_tag field) stream
         else if t = PB_LTYPE_FIXED64 then pb_encode_tag PB_WT_64BIT (fd_tag field) stream
         else if t = PB_LTYPE_BYTES \<or> t = PB_LTYPE_STRING \<or> t = PB_LTYPE_SUBMESSAGE \<or> t = PB_LTYPE_FIXED_LENGTH_BYTES then
           pb_encode_tag PB_WT_STRING (fd_tag field) stream
         else os_error ''invalid field type'' stream)"

section \<open>Submessages\<close>

text \<open>\<open>encode\<close> stands for \<open>pb_encode\<close>, which these functions call and which calls them.\<close>

type_synonym 's encode_fun = "pb_field list \<Rightarrow> addr \<Rightarrow> 's enc"

definition pb_encode_submessage :: "'s encode_fun \<Rightarrow> pb_field list \<Rightarrow> addr \<Rightarrow> 's enc" where
  "pb_encode_submessage encode fds src stream =
     (case encode fds src (pb_ostream_sizing (os_state stream)) of
        None \<Rightarrow> None
      | Some (None, substream) \<Rightarrow> Some (None, stream\<lparr>os_errmsg := os_errmsg substream\<rparr>)
      | Some (Some _, substream) \<Rightarrow>
          let n = os_bytes_written substream
          in case pb_encode_varint n stream of
               (None, stream) \<Rightarrow> Some (None, stream)
             | (Some _, stream) \<Rightarrow>
                 (case os_callback stream of
                    None \<Rightarrow> Some (pb_write [] n stream)
                  | Some callback \<Rightarrow>
                      if os_bytes_written stream + n > os_max_size stream then Some (os_error ''stream full'' stream)
                      else
                        case encode fds src \<lparr>os_callback = os_callback stream, os_state = os_state stream, os_max_size = n,
                               os_bytes_written = 0, os_errmsg = None\<rparr> of
                          None \<Rightarrow> None
                        | Some (status, substream) \<Rightarrow>
                            let stream = stream\<lparr>os_bytes_written := os_bytes_written stream + os_bytes_written substream,
                                  os_state := os_state substream, os_errmsg := os_errmsg substream\<rparr>
                            in if os_bytes_written substream \<noteq> n then Some (os_error ''submsg size changed'' stream)
                               else Some (status, stream)))"

definition pb_enc_submessage :: "'s pb_env \<Rightarrow> 's encode_fun \<Rightarrow> pb_field \<Rightarrow> addr \<Rightarrow> 's enc" where
  "pb_enc_submessage env encode field src =
     (if fd_ptr field = 0 then total (os_error ''invalid field descriptor'')
      else pb_encode_submessage encode (env_fields env (fd_ptr field)) src)"

definition PB_ENCODERS :: "'s pb_env \<Rightarrow> 's encode_fun \<Rightarrow> pb_type \<Rightarrow> pb_field \<Rightarrow> addr \<Rightarrow> 's enc" where
  "PB_ENCODERS env encode ltype field src =
     (let m = env_mem env
      in if ltype = PB_LTYPE_VARINT then total (pb_enc_varint m field src)
         else if ltype = PB_LTYPE_UVARINT then total (pb_enc_uvarint m field src)
         else if ltype = PB_LTYPE_SVARINT then total (pb_enc_svarint m field src)
         else if ltype = PB_LTYPE_FIXED32 then total (pb_enc_fixed32 m src)
         else if ltype = PB_LTYPE_FIXED64 then total (pb_enc_fixed64 m src)
         else if ltype = PB_LTYPE_BYTES then total (pb_enc_bytes m field src)
         else if ltype = PB_LTYPE_STRING then total (pb_enc_string m field src)
         else if ltype = PB_LTYPE_SUBMESSAGE then pb_enc_submessage env encode field src
         else if ltype = PB_LTYPE_FIXED_LENGTH_BYTES then total (pb_enc_fixed_length_bytes m field src)
         else (\<lambda>_. None))"

section \<open>Arrays\<close>

text \<open>The loops over the entries of an array.\<close>

primrec each_entry :: "(addr \<Rightarrow> 's enc) \<Rightarrow> usize \<Rightarrow> nat \<Rightarrow> addr \<Rightarrow> 's enc" where
  "each_entry f data_size 0 p = ret_true"
| "each_entry f data_size (Suc k) p = and_then (f p) (each_entry f data_size k (p + data_size))"

definition packed_size :: "pb_field \<Rightarrow> addr \<Rightarrow> usize \<Rightarrow> (pb_field \<Rightarrow> addr \<Rightarrow> 's enc) \<Rightarrow> 's \<Rightarrow> usize option option" where
  "packed_size field pData count func st =
     (if PB_LTYPE (fd_type field) = PB_LTYPE_FIXED32 then Some (Some (4 * count))
      else if PB_LTYPE (fd_type field) = PB_LTYPE_FIXED64 then Some (Some (8 * count))
      else
        case each_entry (func field) (ucast (fd_data_size field)) (unat count) pData (pb_ostream_sizing st) of
          None \<Rightarrow> None
        | Some (None, _) \<Rightarrow> Some None
        | Some (Some _, sizestream) \<Rightarrow> Some (Some (os_bytes_written sizestream)))"

definition encode_array :: "memory \<Rightarrow> pb_field \<Rightarrow> addr \<Rightarrow> usize \<Rightarrow> (pb_field \<Rightarrow> addr \<Rightarrow> 's enc) \<Rightarrow> 's enc" where
  "encode_array m field pData count func stream =
     (if count = 0 then ret_true stream
      else if PB_ATYPE (fd_type field) \<noteq> PB_ATYPE_POINTER \<and> count > ucast (fd_array_size field) then
        total (os_error ''array max size exceeded'') stream
      else if PB_LTYPE (fd_type field) \<le> PB_LTYPE_LAST_PACKABLE then
        (case pb_encode_tag PB_WT_STRING (fd_tag field) stream of
           (None, stream) \<Rightarrow> Some (None, stream)
         | (Some _, stream) \<Rightarrow>
             (case packed_size field pData count func (os_state stream) of
                None \<Rightarrow> None
              | Some None \<Rightarrow> Some (None, stream)
              | Some (Some n) \<Rightarrow>
                  (case pb_encode_varint n stream of
                     (None, stream) \<Rightarrow> Some (None, stream)
                   | (Some _, stream) \<Rightarrow>
                       (case os_callback stream of
                          None \<Rightarrow> Some (pb_write [] n stream)
                        | Some _ \<Rightarrow> each_entry (func field) (ucast (fd_data_size field)) (unat count) pData stream))))
      else
        each_entry (\<lambda>p. and_then (total (pb_encode_tag_for_field field))
            (if PB_ATYPE (fd_type field) = PB_ATYPE_POINTER \<and>
                (PB_LTYPE (fd_type field) = PB_LTYPE_STRING \<or> PB_LTYPE (fd_type field) = PB_LTYPE_BYTES)
             then func field (load64 m p) else func field p))
          (ucast (fd_data_size field)) (unat count) pData stream)"

section \<open>Proto3 default values\<close>

text \<open>The loop over the fields of a submessage; \<open>check\<close> is the recursive call.\<close>

primrec check_fields :: "(pb_field \<Rightarrow> addr \<Rightarrow> bool option) \<Rightarrow> nat \<Rightarrow> pb_field_iter \<Rightarrow> bool option" where
  "check_fields check 0 iter = None"
| "check_fields check (Suc k) iter =
     (case check (cur iter) (it_pData iter) of
        None \<Rightarrow> None
      | Some False \<Rightarrow> Some False
      | Some True \<Rightarrow>
          (case pb_field_iter_next iter of (True, iter) \<Rightarrow> check_fields check k iter | (False, _) \<Rightarrow> Some True))"

primrec pb_check_proto3_default_value :: "nat \<Rightarrow> 's pb_env \<Rightarrow> pb_field \<Rightarrow> addr \<Rightarrow> bool option" where
  "pb_check_proto3_default_value 0 env field pData = None"
| "pb_check_proto3_default_value (Suc n) env field pData =
     (let m = env_mem env; type = fd_type field; pSize = pData + scast (fd_size_offset field);
          all_zero = Some (\<forall>b \<in> set (load m pData (unat (fd_data_size field))). b = 0)
      in if PB_HTYPE type = PB_HTYPE_REQUIRED then Some False
         else if PB_HTYPE type = PB_HTYPE_REPEATED then Some (load32 m pSize = 0)
         else if PB_HTYPE type = PB_HTYPE_ONEOF then Some (load32 m pSize = 0)
         else if PB_HTYPE type = PB_HTYPE_OPTIONAL \<and> fd_size_offset field \<noteq> 0 then Some (m pSize = 0)
         else if PB_ATYPE type = PB_ATYPE_STATIC then
           (if PB_LTYPE type = PB_LTYPE_BYTES then Some (load32 m pData = 0)
            else if PB_LTYPE type = PB_LTYPE_STRING then Some (m pData = 0)
            else if PB_LTYPE type = PB_LTYPE_FIXED_LENGTH_BYTES then Some (fd_data_size field = 0)
            else if PB_LTYPE type = PB_LTYPE_SUBMESSAGE then
              (let fds = env_fields env (fd_ptr field)
               in case pb_field_iter_begin fds pData of
                    (True, iter) \<Rightarrow> check_fields (pb_check_proto3_default_value n env) (length fds) iter
                  | (False, _) \<Rightarrow> Some True)
            else all_zero)
         else all_zero)"

section \<open>Fields\<close>

text \<open>
  \<open>encode_basic_field\<close>: \<open>pSize\<close> is an address in the message, or \<open>None\<close> for the address of the
  local variable \<open>implicit_has\<close>, which is only read as a \<open>bool\<close>.
\<close>

definition encode_basic_field :: "nat \<Rightarrow> 's pb_env \<Rightarrow> 's encode_fun \<Rightarrow> pb_field \<Rightarrow> addr \<Rightarrow> 's enc" where
  "encode_basic_field n env encode field pData =
     (let m = env_mem env; type = fd_type field; func = PB_ENCODERS env encode (PB_LTYPE type);
          pSize = (if fd_size_offset field \<noteq> 0 then Some (pData + scast (fd_size_offset field)) else None);
          implicit_has =
            (if fd_size_offset field = 0 \<and> PB_HTYPE type = PB_HTYPE_OPTIONAL
             then map_option Not (pb_check_proto3_default_value n env field pData) else Some True)
      in case implicit_has of
           None \<Rightarrow> (\<lambda>_. None)
         | Some implicit_has \<Rightarrow>
             let (pData, implicit_has) =
                   (if PB_ATYPE type = PB_ATYPE_POINTER then (load64 m pData, load64 m pData \<noteq> 0) else (pData, implicit_has))
             in if PB_HTYPE type = PB_HTYPE_REQUIRED then
                  (if pData = 0 then total (os_error ''missing required field'')
                   else and_then (total (pb_encode_tag_for_field field)) (func field pData))
                else if PB_HTYPE type = PB_HTYPE_OPTIONAL then
                  (if (case pSize of None \<Rightarrow> implicit_has | Some a \<Rightarrow> m a \<noteq> 0)
                   then and_then (total (pb_encode_tag_for_field field)) (func field pData) else ret_true)
                else if PB_HTYPE type = PB_HTYPE_REPEATED then
                  encode_array m field pData
                    (ucast (case pSize of None \<Rightarrow> fd_array_size field | Some a \<Rightarrow> load32 m a)) func
                else if PB_HTYPE type = PB_HTYPE_ONEOF then
                  (case pSize of
                     None \<Rightarrow> (\<lambda>_. None)
                   | Some a \<Rightarrow>
                       if load32 m a = fd_tag field
                       then and_then (total (pb_encode_tag_for_field field)) (func field pData) else ret_true)
                else total (os_error ''invalid field type''))"

text \<open>\<open>pb_callback_t\<close>: the function, and \<open>arg\<close> at offset 8.\<close>

definition encode_callback_field :: "'s pb_env \<Rightarrow> pb_field \<Rightarrow> addr \<Rightarrow> 's ostream \<Rightarrow> unit option \<times> 's ostream" where
  "encode_callback_field env field pData stream =
     (let f = load64 (env_mem env) pData
      in if f \<noteq> 0 then
           (case env_callback env f field (pData + 8) stream of
              (None, stream) \<Rightarrow> os_error ''callback error'' stream
            | (Some _, stream) \<Rightarrow> (Some (), stream))
         else (Some (), stream))"

definition encode_field :: "nat \<Rightarrow> 's pb_env \<Rightarrow> 's encode_fun \<Rightarrow> pb_field \<Rightarrow> addr \<Rightarrow> 's enc" where
  "encode_field n env encode field pData =
     (let a = PB_ATYPE (fd_type field)
      in if a = PB_ATYPE_STATIC \<or> a = PB_ATYPE_POINTER then encode_basic_field n env encode field pData
         else if a = PB_ATYPE_CALLBACK then total (encode_callback_field env field pData)
         else total (os_error ''invalid field type''))"

text \<open>
  \<open>pb_extension_t\<close>: \<open>type\<close> at offset 0, \<open>dest\<close> at 8, \<open>next\<close> at 16; \<open>pb_extension_type_t\<close>:
  \<open>encode\<close> at offset 8, \<open>arg\<close> at 16.
\<close>

definition default_extension_encoder :: "nat \<Rightarrow> 's pb_env \<Rightarrow> 's encode_fun \<Rightarrow> addr \<Rightarrow> 's enc" where
  "default_extension_encoder n env encode extension =
     (let m = env_mem env; field = hd (env_fields env (load64 m (load64 m extension + 16)))
      in if PB_ATYPE (fd_type field) = PB_ATYPE_POINTER then encode_field n env encode field (extension + 8)
         else encode_field n env encode field (load64 m (extension + 8)))"

primrec extension_loop :: "nat \<Rightarrow> nat \<Rightarrow> 's pb_env \<Rightarrow> 's encode_fun \<Rightarrow> addr \<Rightarrow> 's enc" where
  "extension_loop 0 n env encode extension = (\<lambda>_. None)"
| "extension_loop (Suc k) n env encode extension =
     (if extension = 0 then ret_true
      else
        let m = env_mem env; f = load64 m (load64 m extension + 8)
        in and_then
             (if f \<noteq> 0 then total (env_extension env f extension) else default_extension_encoder n env encode extension)
             (extension_loop k n env encode (load64 m (extension + 16))))"

definition encode_extension_field :: "nat \<Rightarrow> 's pb_env \<Rightarrow> 's encode_fun \<Rightarrow> addr \<Rightarrow> 's enc" where
  "encode_extension_field n env encode pData = extension_loop n n env encode (load64 (env_mem env) pData)"

section \<open>Messages\<close>

text \<open>The loop of \<open>pb_encode\<close> over the fields.\<close>

primrec encode_loop :: "nat \<Rightarrow> nat \<Rightarrow> 's pb_env \<Rightarrow> 's encode_fun \<Rightarrow> pb_field_iter \<Rightarrow> 's enc" where
  "encode_loop 0 n env encode iter = (\<lambda>_. None)"
| "encode_loop (Suc k) n env encode iter =
     and_then
       (if PB_LTYPE (fd_type (cur iter)) = PB_LTYPE_EXTENSION then encode_extension_field n env encode (it_pData iter)
        else encode_field n env encode (cur iter) (it_pData iter))
       (case pb_field_iter_next iter of
          (True, iter) \<Rightarrow> encode_loop k n env encode iter
        | (False, _) \<Rightarrow> ret_true)"

primrec pb_encode :: "nat \<Rightarrow> 's pb_env \<Rightarrow> 's encode_fun" where
  "pb_encode 0 env fds src_struct = (\<lambda>_. None)"
| "pb_encode (Suc n) env fds src_struct =
     (case pb_field_iter_begin fds src_struct of
        (False, _) \<Rightarrow> ret_true
      | (True, iter) \<Rightarrow> encode_loop (length fds) n env (pb_encode n env) iter)"

definition pb_encode_delimited :: "nat \<Rightarrow> 's pb_env \<Rightarrow> 's encode_fun" where
  "pb_encode_delimited n env = pb_encode_submessage (pb_encode n env)"

definition pb_encode_nullterminated :: "nat \<Rightarrow> 's pb_env \<Rightarrow> 's encode_fun" where
  "pb_encode_nullterminated n env fds src_struct =
     and_then (pb_encode n env fds src_struct) (total (pb_write [0] 1))"

definition pb_get_encoded_size :: "nat \<Rightarrow> 's pb_env \<Rightarrow> 's \<Rightarrow> pb_field list \<Rightarrow> addr \<Rightarrow> usize option option" where
  "pb_get_encoded_size n env st fds src_struct =
     (case pb_encode n env fds src_struct (pb_ostream_sizing st) of
        None \<Rightarrow> None
      | Some (None, _) \<Rightarrow> Some None
      | Some (Some _, stream) \<Rightarrow> Some (Some (os_bytes_written stream)))"

end
