(* ===== verification/Nanopb_Codec.thy ===== *)
theory Nanopb_Codec
  imports Nanopb_Wire
begin

text \<open>
  What the scalar encoders and decoders of nanopb compute: each encoder writes the bytes of the
  wire format, and each decoder reads them back and nothing more.
\<close>

section \<open>Varints\<close>

text \<open>The base-128 representation, least significant group first.\<close>

fun varint :: "nat \<Rightarrow> bytes" where
  "varint n = (if n < 128 then [of_nat n] else of_nat (n mod 128 + 128) # varint (n div 128))"

declare varint.simps [simp del]

lemma varint_ne [simp]: "varint n \<noteq> []"
  by (subst varint.simps) simp

lemma length_varint: "n < 128 ^ Suc k \<Longrightarrow> length (varint n) \<le> Suc k"
proof (induction k arbitrary: n)
  case 0
  then show ?case
    by (simp add: varint.simps)
next
  case (Suc k)
  have "n div 128 < 128 ^ Suc k"
    using Suc.prems by (simp add: less_mult_imp_div_less mult.commute)
  then show ?case
    using Suc.IH [of "n div 128"] by (subst varint.simps) simp
qed

lemma length_varint64: "length (varint (unat (v :: u64))) \<le> 10"
  using length_varint [of "unat v" 9] unat_lt64 [of v] by simp

lemma low7: "ucast ((v :: u64) AND 0x7f) = (ucast v AND 0x7f :: u8)"
  by (rule bit_word_eqI) (simp add: bit_simps)

lemma varint_word:
  "varint (unat (v :: u64)) =
     (if v < 0x80 then [ucast v] else ((ucast v AND 0x7f) OR 0x80) # varint (unat (drop_bit 7 v)))"
proof -
  have u: "unat (ucast v AND 0x7f :: u8) = unat v mod 128"
  proof -
    have "(ucast v AND 0x7f :: u8) = take_bit 7 (ucast v)"
      by (rule and_7f)
    then have "unat (ucast v AND 0x7f :: u8) = take_bit 7 (unat (ucast v :: u8))"
      by (simp add: unsigned_take_bit_eq)
    then show ?thesis
      by (simp add: take_bit_eq_mod unsigned_ucast_eq mod_mod_cancel)
  qed
  have "(ucast v AND 0x7f) OR 0x80 = (ucast v AND 0x7f) + (0x80 :: u8)"
    unfolding and_7f by (rule or_80)
  then have c: "(ucast v AND 0x7f) OR 0x80 = (of_nat (unat v mod 128 + 128) :: u8)"
    using u by (simp add: word_unat_eq_iff unat_of_nat_u8 unat_word_ariths)
  have "(of_nat (unat v) :: u8) = ucast v"
    by simp
  moreover have "unat (drop_bit 7 v) = unat v div 128"
    by (simp add: drop_bit_eq_div unat_div_distrib)
  ultimately show ?thesis
    using c by (subst varint.simps) (simp add: word_less_nat_alt)
qed

lemma varint_loop_clear:
  "v \<noteq> 0 \<Longrightarrow> varint_loop v \<noteq> [] \<and>
    (varint_loop v)[length (varint_loop v) - 1 := varint_loop v ! (length (varint_loop v) - 1) AND 0x7f] = varint (unat v)"
proof (induction v rule: varint_loop.induct)
  case (1 v)
  define b where "b = (ucast v AND 0x7f) OR (0x80 :: u8)"
  have step: "varint_loop v = b # varint_loop (drop_bit 7 v)"
    using 1(2) by (subst varint_loop.simps) (simp add: low7 b_def)
  show ?case
  proof (cases "v < 0x80")
    case True
    then have "drop_bit 7 v = 0"
      by (simp add: drop_bit_eq_div word_less_nat_alt word_unat_eq_iff unat_div_distrib)
    moreover have "varint_loop 0 = []"
      by (subst varint_loop.simps) simp
    moreover have "b AND 0x7f = ucast v"
    proof -
      have "unat (ucast v :: u8) < 128"
        using True by (simp add: word_less_nat_alt unsigned_ucast_eq take_bit_nat_eq_self)
      then have "take_bit 7 (ucast v :: u8) = ucast v"
        by (simp add: word_unat_eq_iff unsigned_take_bit_eq take_bit_nat_eq_self)
      moreover have "b AND 0x7f = ucast v AND 0x7f"
        unfolding b_def by (rule u8_eqI) (simp_all add: bit_simps)
      ultimately show ?thesis
        by (simp add: and_7f)
    qed
    ultimately show ?thesis
      using True step by (simp add: varint_word)
  next
    case False
    then have "drop_bit 7 v \<noteq> 0"
      by (simp add: drop_bit_eq_div word_less_nat_alt word_unat_eq_iff unat_div_distrib div_eq_0_iff not_less)
    note ih = 1(1) [OF 1(2) this]
    then show ?thesis
      using False step by (cases "varint_loop (drop_bit 7 v)") (simp_all add: varint_word [of v] b_def)
  qed
qed

text \<open>Writing a list of bytes.\<close>

definition put_bytes :: "bytes \<Rightarrow> 's ostream \<Rightarrow> unit option \<times> 's ostream" where
  "put_bytes bs = pb_write bs (of_nat (length bs))"

lemma encode_varint: "pb_encode_varint v = put_bytes (varint (unat v))"
proof (cases "v < 0x80")
  case True
  then have "v \<le> 0x7f"
    by (simp add: word_less_nat_alt word_le_nat_alt)
  then show ?thesis
    using True by (simp add: pb_encode_varint_def put_bytes_def varint_word fun_eq_iff)
next
  case False
  then have v: "\<not> v \<le> 0x7f" "v \<noteq> 0"
    by (auto simp: word_less_nat_alt word_le_nat_alt)
  define bs where "bs = varint_loop v"
  have "bs[length bs - 1 := bs ! (length bs - 1) AND 0x7f] = varint (unat v)"
    using varint_loop_clear [OF v(2)] by (simp add: bs_def)
  moreover from arg_cong [OF this, of length] have "length bs = length (varint (unat v))"
    by simp
  ultimately show ?thesis
    using v(1) by (simp add: pb_encode_varint_def put_bytes_def fun_eq_iff Let_def flip: bs_def)
qed

lemma drop7_zero: "v < 0x80 \<Longrightarrow> drop_bit 7 v = 0" for v :: u64
  by (simp add: drop_bit_eq_div word_less_nat_alt word_unat_eq_iff unat_div_distrib)

text \<open>One group of seven bits joins the groups below it.\<close>

lemma byte_cont:
  "((b AND 0x7f) OR 0x80) AND 0x80 \<noteq> (0 :: u8)" "((b AND 0x7f) OR 0x80) AND 0x7f = (b AND 0x7f :: u8)"
proof -
  have "bit (((b AND 0x7f) OR 0x80) AND 0x80) 7"
    by (simp add: bit_simps)
  then show "((b AND 0x7f) OR 0x80) AND 0x80 \<noteq> (0 :: u8)"
    by (metis bit_0_eq bot_apply bot_bool_def)
  show "((b AND 0x7f) OR 0x80) AND 0x7f = (b AND 0x7f :: u8)"
    by (rule u8_eqI) (simp_all add: bit_simps)
qed

lemma byte_last: "v < 0x80 \<Longrightarrow> (ucast v :: u8) AND 0x80 = 0" for v :: u64
  using and_80 [of "ucast v"] by (auto simp: word_less_nat_alt unsigned_ucast_eq take_bit_nat_eq_self)

lemma join_group:
  "take_bit n v OR push_bit n (ucast (ucast (drop_bit n v) AND 0x7f :: u8)) = (take_bit (n + 7) v :: u64)"
  unfolding and_7f by (rule bit_word_eqI) (auto simp: bit_simps)

lemma of_nat_bitpos: "k \<le> 10 \<Longrightarrow> unat (of_nat (7 * k) :: u8) = 7 * k"
  by (intro unat_of_nat_small) simp

lemma varint_dec_loop_ok:
  "stream_ok s \<Longrightarrow> avail s = varint (unat (drop_bit (7 * k) v)) @ rest \<Longrightarrow> k \<le> 9 \<Longrightarrow>
    varint_dec_loop (take_bit (7 * k) v) (of_nat (7 * k)) s =
      (Some v, advance (length (varint (unat (drop_bit (7 * k) v)))) s)"
proof (induction "9 - k" arbitrary: k s)
  case 0
  then have k: "k = 9"
    by simp
  have "drop_bit 63 v < 0x80"
    by (simp add: drop_bit_63)
  then have vw: "varint (unat (drop_bit 63 v)) = [ucast (drop_bit 63 v)]"
    by (subst varint_word) simp
  have rd: "pb_readbyte s = (Some (ucast (drop_bit 63 v)), advance 1 s)"
    using pb_readbyte_ok [OF 0(2), of "ucast (drop_bit 63 v)" rest] 0(3) vw by (simp add: k)
  have "take_bit 70 v = v"
    by (rule bit_word_eqI) (simp add: bit_simps)
  then show ?case
    using rd join_group [of 63 v] byte_last [OF \<open>drop_bit 63 v < 0x80\<close>]
    by (subst varint_dec_loop.simps) (simp add: k vw)
next
  case (Suc d)
  define w where "w = drop_bit (7 * k) v"
  have k: "k \<le> 8"
    using Suc(2) by simp
  have bp: "unat (of_nat (7 * k) :: u8) = 7 * k" "\<not> (of_nat (7 * k) :: u8) \<ge> 64"
    using of_nat_bitpos [of k] k by (simp_all add: word_le_nat_alt)
  show ?case
  proof (cases "w < 0x80")
    case True
    then have vw: "varint (unat w) = [ucast w]"
      by (subst varint_word) simp
    have rd: "pb_readbyte s = (Some (ucast w), advance 1 s)"
      using pb_readbyte_ok [OF Suc(3), of "ucast w" rest] Suc(4) vw by (simp add: w_def)
    have "drop_bit (7 * k + 7) v = 0"
      using drop7_zero [OF True] by (simp add: w_def add.commute)
    then have "take_bit (7 * k + 7) v = v"
      using bits_ident [of "7 * k + 7" v] by simp
    then show ?thesis
      using rd join_group [of "7 * k" v] byte_last [OF True] bp
      by (subst varint_dec_loop.simps) (simp add: vw flip: w_def)
  next
      case False
    define b where "b = (ucast w AND 0x7f) OR (0x80 :: u8)"
    have vw: "varint (unat w) = b # varint (unat (drop_bit (7 * Suc k) v))"
      using False by (subst varint_word) (simp add: w_def b_def add.commute)
    have rd: "pb_readbyte s = (Some b, advance 1 s)"
      using pb_readbyte_ok [OF Suc(3), of b] Suc(4) vw by (simp add: w_def)
    have "varint_dec_loop (take_bit (7 * Suc k) v) (of_nat (7 * Suc k)) (advance 1 s) =
        (Some v, advance (length (varint (unat (drop_bit (7 * Suc k) v)))) (advance 1 s))"
      using advance_ok [OF Suc(3), of 1] Suc(2,4) vw k by (intro Suc(1)) (simp_all add: w_def)
    moreover have "take_bit (7 * k) v OR push_bit (7 * k) (ucast (b AND 0x7f)) = take_bit (7 * Suc k) v"
      using join_group [of "7 * k" v] by (simp add: b_def byte_cont w_def add.commute)
    moreover have "(of_nat (7 * k) :: u8) + 7 = of_nat (7 * Suc k)" "b AND 0x80 \<noteq> 0"
      by (simp_all add: b_def byte_cont)
    ultimately show ?thesis
      using rd bp by (subst varint_dec_loop.simps) (simp add: vw advance_advance add.commute [of _ 7] flip: w_def)
  qed
qed

lemma decode_varint:
  assumes "stream_ok s" "avail s = varint (unat v) @ rest"
  shows "pb_decode_varint s = (Some v, advance (length (varint (unat v))) s)"
  using varint_dec_loop_ok [of s 0 v rest] assms by (simp add: pb_decode_varint_def)

section \<open>The 32-bit decoder\<close>

text \<open>A 32-bit integer, or a negative one sign-extended to 64 bits.\<close>

definition fits32 :: "u64 \<Rightarrow> bool" where
  "fits32 v \<longleftrightarrow> drop_bit 32 v = 0 \<or> drop_bit 31 v = mask 33"

lemma join_group32:
  "n < 32 \<Longrightarrow> take_bit n (ucast v) OR push_bit n (ucast (ucast (drop_bit n v) AND 0x7f :: u8)) = (take_bit (n + 7) (ucast (v :: u64)) :: u32)"
  unfolding and_7f by (rule bit_word_eqI) (auto simp: bit_simps)

lemma fits32_cases:
  assumes "fits32 v"
  obtains "\<forall>n \<ge> 32. \<not> bit v n" | "\<forall>n. 31 \<le> n \<longrightarrow> n < 64 \<longrightarrow> bit v n"
proof (cases "drop_bit 32 v = 0")
  case True
  have "\<not> bit v n" if "32 \<le> n" for n
    using arg_cong [OF True, of "\<lambda>x. bit x (n - 32)"] that by (simp add: bit_simps)
  then show thesis
    using that(1) by blast
next
  case False
  then have "drop_bit 31 v = mask 33"
    using assms by (simp add: fits32_def)
  then have "bit (drop_bit 31 v) (n - 31) = bit (mask 33 :: u64) (n - 31)" for n
    by simp
  note high = this
  have "bit v n" if "31 \<le> n" "n < 64" for n
    using high [of n] that by (simp add: bit_simps) linarith
  then show thesis
    using that(2) by blast
qed

text \<open>The groups from bit 35 on are zero, or copies of the sign bit.\<close>

lemma fits32_high:
  assumes "fits32 v" "5 \<le> k" "k \<le> 9"
  obtains "drop_bit (7 * k) v = 0"
  | "bit v 31" "k < 9" "ucast (drop_bit (7 * k) v) AND 0x7f = (0x7f :: u8)" "\<not> drop_bit (7 * k) v < 0x80"
  | "bit v 31" "k = 9" "drop_bit (7 * k) v = 1"
  using assms(1)
proof (cases rule: fits32_cases)
  case 1
  then have "drop_bit (7 * k) v = 0"
    using assms(2) by (intro bit_word_eqI) (simp add: bit_simps)
  then show thesis
    by (rule that(1))
next
  case 2
  then have b31: "bit v 31"
    by simp
  show thesis
  proof (cases "k = 9")
    case True
    have "drop_bit (7 * k) v = 1"
      using 2 True by (simp add: drop_bit_63)
    then show thesis
      using that(3) b31 True by blast
  next
    case False
    have "ucast (drop_bit (7 * k) v) AND 0x7f = (mask 7 :: u8)"
      unfolding and_7f using 2 False assms(2,3) by (intro bit_word_eqI) (simp add: bit_simps)
    moreover have "drop_bit 7 (drop_bit (7 * k) v) \<noteq> 0"
    proof
      assume "drop_bit 7 (drop_bit (7 * k) v) = 0"
      then have "\<not> bit (drop_bit 7 (drop_bit (7 * k) v)) (63 - (7 * k + 7))"
        by simp
      then show False
        using 2 False assms(2,3) by (simp add: bit_simps)
    qed
    then have "\<not> drop_bit (7 * k) v < 0x80"
      using drop7_zero by blast
    ultimately show thesis
      using that(2) b31 False assms(3) by (simp add: mask_numeral)
  qed
qed

text \<open>The test for overflow passes every group of such a value.\<close>

lemma fits32_passes:
  assumes "fits32 v" "5 \<le> k" "k \<le> 9" "w = drop_bit (7 * k) v"
    and "byt = (if w < 0x80 then ucast w else (ucast w AND 0x7f) OR (0x80 :: u8))"
  shows "byt AND 0x7f = 0 \<or> drop_bit 31 (ucast v :: u32) \<noteq> 0 \<and> byt = (if k < 9 then 0xff else 0x01)"
proof -
  have top: "drop_bit 31 (ucast v :: u32) \<noteq> 0" if "bit v 31"
  proof
    assume "drop_bit 31 (ucast v :: u32) = 0"
    then have "\<not> bit (drop_bit 31 (ucast v :: u32)) 0"
      by simp
    then show False
      using that by (simp add: bit_simps)
  qed
  show ?thesis
    using assms(1-3)
  proof (cases rule: fits32_high)
    case 1
    then show ?thesis
      using assms(4,5) by simp
  next
    case 2
    then show ?thesis
      using assms(4,5) top by simp
  next
    case 3
    then show ?thesis
      using assms(4,5) top by simp
  qed
qed

lemma varint32_loop_ok:
  "stream_ok s \<Longrightarrow> avail s = varint (unat (drop_bit (7 * k) v)) @ rest \<Longrightarrow> 1 \<le> k \<Longrightarrow> k \<le> 9 \<Longrightarrow> fits32 v \<Longrightarrow>
    \<exists>byt bitpos. varint32_loop (take_bit (7 * k) (ucast v)) (of_nat (7 * k)) s =
      (Some (ucast v, byt, bitpos), advance (length (varint (unat (drop_bit (7 * k) v)))) s) \<and>
      (bitpos = 35 \<longrightarrow> byt AND 0x70 = 0)"
proof (induction "9 - k" arbitrary: k s rule: less_induct)
  case less
  define w where "w = drop_bit (7 * k) v"
  define byt where "byt = (if w < 0x80 then ucast w else (ucast w AND 0x7f) OR (0x80 :: u8))"
  define more where "more = (if w < 0x80 then [] else varint (unat (drop_bit (7 * Suc k) v)))"
  have vw: "varint (unat w) = byt # more"
    by (subst varint_word) (simp add: byt_def more_def w_def add.commute)
  have rd: "pb_readbyte s = (Some byt, advance 1 s)"
    using pb_readbyte_ok [OF less(2), of byt] less(3) vw by (simp add: w_def)
  have bp: "unat (of_nat (7 * k) :: u8) = 7 * k"
    using of_nat_bitpos less(5) by simp
  have bp_ge: "(of_nat (7 * k) :: u8) \<ge> 32 \<longleftrightarrow> 5 \<le> k" and bp_lt: "(of_nat (7 * k) :: u8) < 63 \<longleftrightarrow> k < 9"
    unfolding word_le_nat_alt word_less_nat_alt bp by auto
  have low: "byt AND 0x7f = ucast w AND 0x7f"
    by (simp add: byt_def byte_cont)
  define result where "result = (if (of_nat (7 * k) :: u8) \<ge> 32 then take_bit (7 * k) (ucast v)
      else take_bit (7 * k) (ucast v) OR push_bit (7 * k) (ucast (byt AND 0x7f)) :: u32)"
  have result: "result = take_bit (7 * Suc k) (ucast v)"
  proof (cases "5 \<le> k")
    case True
    then have "take_bit (7 * k) (ucast v) = (take_bit (7 * Suc k) (ucast v) :: u32)"
      by (intro bit_word_eqI) (simp add: bit_simps)
    then show ?thesis
      using True by (simp add: result_def bp_ge)
  next
    case False
    have "take_bit (7 * k) (ucast v) OR push_bit (7 * k) (ucast (byt AND 0x7f)) = (take_bit (7 * Suc k) (ucast v) :: u32)"
      using join_group32 [of "7 * k" v] False by (simp add: low w_def add.commute)
    then show ?thesis
      unfolding result_def using False bp_ge by (simp only: if_False)
  qed
  define overflow where "overflow \<longleftrightarrow> (of_nat (7 * k) :: u8) \<ge> 32 \<and> byt AND 0x7f \<noteq> 0 \<and>
    (drop_bit 31 (take_bit (7 * k) (ucast v) :: u32) = 0 \<or> byt \<noteq> (if (of_nat (7 * k) :: u8) < 63 then 0xff else 0x01))"
  have ok: "\<not> overflow"
  proof
    assume o: overflow
    then have k5: "5 \<le> k"
      unfolding overflow_def using bp_ge by (simp only:)
    then have "take_bit (7 * k) (ucast v) = (ucast v :: u32)"
      by (intro bit_word_eqI) (simp add: bit_simps)
    moreover have "byt \<noteq> (if k < 9 then 0xff else 0x01)" if "drop_bit 31 (ucast v :: u32) \<noteq> 0"
      using o that calculation unfolding overflow_def bp_lt by (simp only: simp_thms)
    moreover have "byt AND 0x7f \<noteq> 0"
      using o unfolding overflow_def by (simp only: simp_thms)
    ultimately show False
      using fits32_passes [OF less(6) k5 less(5) w_def byt_def] by blast
  qed
  have nxt: "(of_nat (7 * k) :: u8) + 7 = of_nat (7 * Suc k)"
    by simp
  have step: "varint32_loop (take_bit (7 * k) (ucast v)) (of_nat (7 * k)) s =
      (if byt AND 0x80 \<noteq> 0 then varint32_loop result (of_nat (7 * Suc k)) (advance 1 s)
       else (Some (result, byt, of_nat (7 * Suc k)), advance 1 s))"
    using rd ok by (subst varint32_loop.simps) (simp only: bp nxt Let_def prod.case option.case if_False flip: overflow_def result_def)
  show ?case
  proof (cases "w < 0x80")
    case True
    have z: "drop_bit (7 * Suc k) v = 0"
      using drop7_zero [OF True] by (simp add: w_def add.commute)
    have "\<not> bit v n" if "7 * Suc k \<le> n" for n
      using arg_cong [OF z, of "\<lambda>x. bit x (n - 7 * Suc k)"] that by (simp only: bit_drop_bit_eq o_def bit_0_eq bot_apply le_add_diff_inverse) simp
    then have "(ucast v :: u32) = take_bit (7 * Suc k) (ucast v)"
      by (intro bit_word_eqI) (simp only: bit_simps, metis not_le)
    moreover have "byt AND 0x70 = 0" if "(of_nat (7 * Suc k) :: u8) = 35"
    proof -
      have "7 * Suc k = 35"
        using arg_cong [OF that, of unat] of_nat_bitpos [of "Suc k"] less(5) by simp
      then have k4: "k = 4"
        by simp
      have "\<not> bit v n" if "32 \<le> n" for n
        using less(6)
      proof (cases rule: fits32_cases)
        case 2
        then have "bit (drop_bit (7 * Suc k) v) 28"
          by (simp add: bit_simps k4)
        then show ?thesis
          unfolding z by simp
      qed (use that in auto)
      then show ?thesis
        using True by (intro u8_eqI) (simp_all add: byt_def w_def k4 bit_simps)
    qed
    moreover have "byt AND 0x80 = 0"
      using byte_last [OF True] True by (simp add: byt_def)
    ultimately show ?thesis
      using step vw True by (simp add: result more_def flip: w_def)
  next
    case False
    then have cont: "byt AND 0x80 \<noteq> 0"
      by (simp add: byt_def byte_cont)
    have k8: "k \<le> 8"
    proof (rule ccontr)
      assume "\<not> k \<le> 8"
      then have "k = 9"
        using less(5) by simp
      then show False
        using False by (cases "bit v 63") (simp_all add: w_def drop_bit_63)
    qed
    have "\<exists>byt' bitpos. varint32_loop (take_bit (7 * Suc k) (ucast v)) (of_nat (7 * Suc k)) (advance 1 s) =
      (Some (ucast v, byt', bitpos), advance (length (varint (unat (drop_bit (7 * Suc k) v)))) (advance 1 s)) \<and>
      (bitpos = 35 \<longrightarrow> byt' AND 0x70 = 0)"
      using advance_ok [OF less(2), of 1] less(3,6) vw k8 False by (intro less(1)) (simp_all add: more_def flip: w_def)
    then show ?thesis
      using step cont vw False by (simp add: result more_def advance_advance flip: w_def)
  qed
qed

lemma decode_varint32_eof:
  assumes "stream_ok s" "avail s = varint (unat v) @ rest" "fits32 v"
  shows "pb_decode_varint32_eof s = ((Some (ucast v), False), advance (length (varint (unat v))) s)"
proof (cases "v < 0x80")
  case True
  then have vw: "varint (unat v) = [ucast v]"
    by (subst varint_word) simp
  have "ucast (ucast v :: u8) = (ucast v :: u32)"
  proof (intro bit_word_eqI)
    fix n
    have "\<not> bit v n" if "8 \<le> n"
      using drop7_zero [OF True] bit_drop_bit_eq [of 7 v] that by (auto simp: fun_eq_iff dest: spec [of _ "n - 7"])
    then show "bit (ucast (ucast v :: u8) :: u32) n = bit (ucast v :: u32) n"
      by (cases "8 \<le> n") (auto simp: bit_simps)
  qed
  then show ?thesis
    using pb_readbyte_ok [OF assms(1), of "ucast v" rest] assms(2) byte_last [OF True] vw
    by (simp add: pb_decode_varint32_eof_def)
next
  case False
  define b where "b = (ucast v AND 0x7f) OR (0x80 :: u8)"
  have vw: "varint (unat v) = b # varint (unat (drop_bit (7 * 1) v))"
    using False by (subst varint_word) (simp add: b_def)
  have rd: "pb_readbyte s = (Some b, advance 1 s)"
    using pb_readbyte_ok [OF assms(1), of b] assms(2) vw by simp
  have "ucast (b AND 0x7f) = (take_bit (7 * 1) (ucast v) :: u32)"
    unfolding b_def byte_cont and_7f by (rule bit_word_eqI) (auto simp: bit_simps)
  moreover obtain byt bitpos where "varint32_loop (take_bit (7 * 1) (ucast v)) (of_nat (7 * 1)) (advance 1 s) =
      (Some (ucast v, byt, bitpos), advance (length (varint (unat (drop_bit (7 * 1) v)))) (advance 1 s))"
      "bitpos = 35 \<longrightarrow> byt AND 0x70 = 0"
    using varint32_loop_ok [of "advance 1 s" 1 v rest] advance_ok [OF assms(1), of 1] assms(2,3) vw by auto
  moreover have "b AND 0x80 \<noteq> 0"
    by (simp add: b_def byte_cont)
  ultimately show ?thesis
    using rd vw by (auto simp: pb_decode_varint32_eof_def advance_advance)
qed

lemma decode_varint32:
  assumes "stream_ok s" "avail s = varint (unat v) @ rest" "fits32 v"
  shows "pb_decode_varint32 s = (Some (ucast v), advance (length (varint (unat v))) s)"
  using decode_varint32_eof [OF assms] by (simp add: pb_decode_varint32_def)

end
