(* ===== verification/Nanopb_Scalar.thy ===== *)
theory Nanopb_Scalar
  imports Nanopb_Codec
begin

text \<open>
  The contract of a scalar encoder and its decoder as a locale, interpreted for varints, zigzag
  varints and the fixed-width integers, and the round trip through a buffer that rests on it.
\<close>

section \<open>The contract of a wire codec\<close>

text \<open>
  \<open>enc\<close> writes the bytes \<open>wire x\<close> in one call, and \<open>dec\<close> reads a buffer stream past them and
  returns \<open>x\<close>.
\<close>

locale wire_codec =
  fixes enc :: "'a \<Rightarrow> 's ostream \<Rightarrow> unit option \<times> 's ostream"
    and dec :: "'t istream \<Rightarrow> 'a option \<times> 't istream"
    and wire :: "'a \<Rightarrow> bytes"
  assumes enc_wire: "enc x = put_bytes (wire x)"
    and dec_wire: "stream_ok s \<Longrightarrow> avail s = wire x @ rest \<Longrightarrow> dec s = (Some x, advance (length (wire x)) s)"
    and wire_nonempty: "wire x \<noteq> []"
begin

lemma wire_inject:
  assumes "wire x @ r = wire y @ r'" "length (wire x @ r) < 2 ^ 64"
  shows "x = y \<and> r = r'"
proof -
  define s :: "'t istream" where "s = \<lparr>is_custom = None, is_state = undefined, is_mem = wire x @ r,
    is_bytes_left = of_nat (length (wire x @ r)), is_errmsg = None\<rparr>"
  have ok: "stream_ok s" "avail s = wire x @ r"
    using assms(2) unfolding s_def stream_ok_def avail_def
    by (simp_all add: unat_of_nat_small del: of_nat_add length_append take_append)
  have "dec s = (Some x, advance (length (wire x)) s)" "dec s = (Some y, advance (length (wire y)) s)"
    using dec_wire [OF ok] dec_wire [OF ok(1), of y r'] ok(2) assms(1) by simp_all
  then show ?thesis
    using assms(1) by auto
qed

end

section \<open>Zigzag\<close>

definition zigzag :: "u64 \<Rightarrow> u64" where
  "zigzag v = (if v <s 0 then NOT (push_bit 1 v) else push_bit 1 v)"

lemma sless_zero_bit: "(v :: u64) <s 0 \<longleftrightarrow> bit v 63"
  using bit_last_iff [of v] by (simp add: word_sless_alt)

lemma drop_push_not:
  "bit v 63 \<Longrightarrow> NOT (drop_bit 1 (NOT (push_bit 1 v))) = v"
  "\<not> bit v 63 \<Longrightarrow> drop_bit 1 (push_bit 1 v) = v" for v :: u64
proof -
  show "NOT (drop_bit 1 (NOT (push_bit 1 v))) = v" if "bit v 63"
  proof (rule bit_word_eqI)
    fix n assume "n < LENGTH(64)"
    then show "bit (NOT (drop_bit 1 (NOT (push_bit 1 v)))) n = bit v n"
      unfolding bit_not_iff bit_drop_bit_eq o_def bit_push_bit_iff using that by (cases "n = 63") auto
  qed
  show "drop_bit 1 (push_bit 1 v) = v" if "\<not> bit v 63"
  proof (rule bit_word_eqI)
    fix n assume "n < LENGTH(64)"
    then show "bit (drop_bit 1 (push_bit 1 v)) n = bit v n"
      unfolding bit_drop_bit_eq o_def bit_push_bit_iff using that by (cases "n = 63") auto
  qed
qed

lemma and_one_zero: "w AND 1 \<noteq> 0 \<longleftrightarrow> bit w 0" for w :: u64
  by (simp add: and_one_eq bit_0 odd_iff_mod_2_eq_one)

lemma zigzag_low: "bit (zigzag v) 0 \<longleftrightarrow> bit v 63"
  unfolding zigzag_def sless_zero_bit
  by (cases "bit v 63") (simp_all only: if_True if_False bit_not_iff bit_push_bit_iff, simp_all)

lemma unzigzag:
  "(if zigzag v AND 1 \<noteq> 0 then NOT (drop_bit 1 (zigzag v)) else drop_bit 1 (zigzag v)) = v"
  unfolding and_one_zero zigzag_low
  by (cases "bit v 63") (simp_all only: zigzag_def sless_zero_bit if_True if_False drop_push_not simp_thms)

lemma encode_svarint: "pb_encode_svarint v = put_bytes (varint (unat (zigzag v)))"
  by (simp add: pb_encode_svarint_def zigzag_def encode_varint fun_eq_iff Let_def)

lemma decode_svarint:
  "stream_ok s \<Longrightarrow> avail s = varint (unat (zigzag v)) @ rest \<Longrightarrow>
    pb_decode_svarint s = (Some v, advance (length (varint (unat (zigzag v)))) s)"
  using decode_varint [of s "zigzag v" rest] unzigzag [of v] by (simp add: pb_decode_svarint_def)

section \<open>Fixed width\<close>

definition fixed32 :: "u32 \<Rightarrow> bytes" where
  "fixed32 v = [ucast v, ucast (drop_bit 8 v), ucast (drop_bit 16 v), ucast (drop_bit 24 v)]"

definition fixed64 :: "u64 \<Rightarrow> bytes" where
  "fixed64 v = [ucast v, ucast (drop_bit 8 v), ucast (drop_bit 16 v), ucast (drop_bit 24 v),
     ucast (drop_bit 32 v), ucast (drop_bit 40 v), ucast (drop_bit 48 v), ucast (drop_bit 56 v)]"

lemma ucast_and_ff: "(ucast (v AND 0xff) :: u8) = ucast v" for v :: "'a::len word"
proof -
  have "v AND 0xff = take_bit 8 v"
    by (simp add: take_bit_eq_mask mask_numeral)
  then show ?thesis
    by (intro bit_word_eqI) (auto simp: bit_simps)
qed

lemma encode_fixed32: "pb_encode_fixed32 v = put_bytes (fixed32 v)"
  by (simp add: pb_encode_fixed32_def put_bytes_def fixed32_def ucast_and_ff fun_eq_iff)

lemma encode_fixed64: "pb_encode_fixed64 v = put_bytes (fixed64 v)"
  by (simp add: pb_encode_fixed64_def put_bytes_def fixed64_def ucast_and_ff fun_eq_iff)

lemma join_byte:
  "take_bit n v OR push_bit n (ucast (ucast (drop_bit n v) :: u8)) = (take_bit (n + 8) v :: 'a::len word)"
  by (rule bit_word_eqI) (auto simp: bit_simps)

lemma first_byte: "ucast (ucast v :: u8) = (take_bit 8 v :: 'a::len word)"
  by (rule bit_word_eqI) (auto simp: bit_simps)

lemma decode_fixed32:
  assumes "stream_ok s" "avail s = fixed32 v @ rest"
  shows "pb_decode_fixed32 s = (Some v, advance (length (fixed32 v)) s)"
proof -
  have "length (fixed32 v) = 4"
    by (simp add: fixed32_def)
  then have rd: "pb_read 4 s = (Some (fixed32 v), advance (length (fixed32 v)) s)"
    using pb_read_ok(1) [OF assms, of 4] by simp
  define b :: "nat \<Rightarrow> u32" where "b n = push_bit n (ucast (ucast (drop_bit n v) :: u8))" for n
  have j: "take_bit n v OR b n = take_bit (n + 8) v" for n
    unfolding b_def by (rule join_byte)
  have "take_bit (0 + 8 + 8 + 8 + 8) v = v"
    by (rule bit_word_eqI) (simp add: bit_simps)
  then have "b 0 OR b 8 OR b 16 OR b 24 = v"
    using j [of 0] j [of 8] j [of 16] j [of 24] by (simp flip: or.assoc)
  then show ?thesis
    using rd by (simp add: pb_decode_fixed32_def b_def) (simp add: fixed32_def)
qed

lemma decode_fixed64:
  assumes "stream_ok s" "avail s = fixed64 v @ rest"
  shows "pb_decode_fixed64 s = (Some v, advance (length (fixed64 v)) s)"
proof -
  have "length (fixed64 v) = 8"
    by (simp add: fixed64_def)
  then have rd: "pb_read 8 s = (Some (fixed64 v), advance (length (fixed64 v)) s)"
    using pb_read_ok(1) [OF assms, of 8] by simp
  define b :: "nat \<Rightarrow> u64" where "b n = push_bit n (ucast (ucast (drop_bit n v) :: u8))" for n
  have j: "take_bit n v OR b n = take_bit (n + 8) v" for n
    unfolding b_def by (rule join_byte)
  have "take_bit 64 v = v"
    by (rule bit_word_eqI) (simp add: bit_simps)
  then have "b 0 OR b 8 OR b 16 OR b 24 OR b 32 OR b 40 OR b 48 OR b 56 = v"
    using j [of 0] j [of 8] j [of 16] j [of 24] j [of 32] j [of 40] j [of 48] j [of 56] by (simp flip: or.assoc)
  then show ?thesis
    using rd by (simp add: pb_decode_fixed64_def b_def) (simp add: fixed64_def)
qed

interpretation varint: wire_codec pb_encode_varint pb_decode_varint "\<lambda>v. varint (unat v)"
  by unfold_locales (simp_all add: encode_varint decode_varint)

interpretation svarint: wire_codec pb_encode_svarint pb_decode_svarint "\<lambda>v. varint (unat (zigzag v))"
  by unfold_locales (simp_all add: encode_svarint decode_svarint)

interpretation fixed32: wire_codec pb_encode_fixed32 pb_decode_fixed32 fixed32
  by unfold_locales (simp_all add: encode_fixed32 decode_fixed32, simp add: fixed32_def)

interpretation fixed64: wire_codec pb_encode_fixed64 pb_decode_fixed64 fixed64
  by unfold_locales (simp_all add: encode_fixed64 decode_fixed64, simp add: fixed64_def)

section \<open>Through a buffer\<close>

locale buffer_codec = wire_codec enc dec wire
  for enc :: "'a \<Rightarrow> buffer_state ostream \<Rightarrow> unit option \<times> buffer_state ostream"
    and dec :: "unit istream \<Rightarrow> 'a option \<times> unit istream" and wire :: "'a \<Rightarrow> bytes" +
  fixes bound :: nat
  assumes wire_bound: "length (wire x) \<le> bound"
begin

text \<open>
  What is written into a buffer with room for it is read back from that buffer, and the stream then
  stands behind it.
\<close>

lemma roundtrip:
  assumes "bound \<le> length buf" "length buf < 2 ^ 63"
  shows "\<exists>s dest pos. enc x (pb_ostream_from_buffer buf (of_nat (length buf))) = (Some (), s) \<and>
    os_state s = (dest, pos) \<and> os_bytes_written s = of_nat pos \<and> length dest = length buf \<and>
    dec (pb_istream_from_buffer dest (of_nat (length dest))) =
      (Some x, advance pos (pb_istream_from_buffer dest (of_nat (length dest))))"
proof -
  let ?o = "pb_ostream_from_buffer buf (of_nat (length buf))"
  have room: "length (wire x) \<le> length buf" "length (wire x) < 2 ^ 63"
    using assms wire_bound [of x] by linarith+
  have u: "unat (of_nat (length buf) :: usize) = length buf" "unat (of_nat (length (wire x)) :: usize) = length (wire x)"
    using assms(2) room(2) by (simp_all add: unat_of_nat_small)
  have full: "\<not> (of_nat (length (wire x)) :: usize) > of_nat (length buf)"
    using room(1) u by (simp add: word_less_nat_alt)
  define dest where "dest = mem_write buf 0 (wire x)"
  have dest: "dest = wire x @ drop (length (wire x)) buf" "length dest = length buf"
    using room(1) by (simp_all add: dest_def mem_write_def)
  have w: "enc x ?o = (Some (), ?o\<lparr>os_state := (dest, length (wire x)), os_bytes_written := of_nat (length (wire x))\<rparr>)"
    using full u by (simp add: enc_wire put_bytes_def pb_write_def pb_ostream_from_buffer_def buf_write_def dest_def)
  have "length dest < 2 ^ 64"
    using assms(2) dest(2) by simp
  from from_buffer_ok [OF this] have "dec (pb_istream_from_buffer dest (of_nat (length dest))) =
      (Some x, advance (length (wire x)) (pb_istream_from_buffer dest (of_nat (length dest))))"
    using dest(1) by (intro dec_wire) auto
  then show ?thesis
    using w dest(2) by (intro exI [of _ "?o\<lparr>os_state := (dest, length (wire x)), os_bytes_written := of_nat (length (wire x))\<rparr>"])
      (simp add: pb_ostream_from_buffer_def)
qed

end

interpretation varint: buffer_codec pb_encode_varint pb_decode_varint "\<lambda>v. varint (unat v)" 10
  by unfold_locales (rule length_varint64)

interpretation svarint: buffer_codec pb_encode_svarint pb_decode_svarint "\<lambda>v. varint (unat (zigzag v))" 10
  by unfold_locales (rule length_varint64)

interpretation fixed32: buffer_codec pb_encode_fixed32 pb_decode_fixed32 fixed32 10
  by unfold_locales (simp add: fixed32_def)

interpretation fixed64: buffer_codec pb_encode_fixed64 pb_decode_fixed64 fixed64 10
  by unfold_locales (simp add: fixed64_def)

text \<open>An encoder and a decoder that agree over every buffer with room for ten bytes.\<close>

definition reads_back ::
  "('a \<Rightarrow> buffer_state ostream \<Rightarrow> unit option \<times> buffer_state ostream) \<Rightarrow> (unit istream \<Rightarrow> 'a option \<times> unit istream) \<Rightarrow>
    'a \<Rightarrow> bytes \<Rightarrow> bool" where
  "reads_back enc dec x buf \<longleftrightarrow>
     (\<exists>s dest pos. enc x (pb_ostream_from_buffer buf (of_nat (length buf))) = (Some (), s) \<and>
       os_state s = (dest, pos) \<and> os_bytes_written s = of_nat pos \<and> length dest = length buf \<and>
       dec (pb_istream_from_buffer dest (of_nat (length dest))) =
         (Some x, advance pos (pb_istream_from_buffer dest (of_nat (length dest)))))"

text \<open>
  Claim C10: each scalar encoder succeeds on a buffer with room for ten bytes, and the decoder of the
  same type, run on that buffer, returns the value and stops exactly behind the bytes that were
  written: varints, zigzag varints, and the 32- and 64-bit fixed-width integers.
\<close>

theorem scalars_read_back:
  assumes "10 \<le> length buf" "length buf < 2 ^ 63"
  shows "reads_back pb_encode_varint pb_decode_varint v buf \<and> reads_back pb_encode_svarint pb_decode_svarint v buf \<and>
    reads_back pb_encode_fixed32 pb_decode_fixed32 w buf \<and> reads_back pb_encode_fixed64 pb_decode_fixed64 v buf"
  unfolding reads_back_def
  using varint.roundtrip [OF assms] svarint.roundtrip [OF assms] fixed32.roundtrip [OF assms] fixed64.roundtrip [OF assms]
  by blast

lemma scalars_read_back_witness:
  "reads_back pb_encode_varint pb_decode_varint 300 (replicate 10 0) \<and>
   reads_back pb_encode_svarint pb_decode_svarint 300 (replicate 10 0) \<and>
   reads_back pb_encode_fixed32 pb_decode_fixed32 5 (replicate 10 0) \<and>
   reads_back pb_encode_fixed64 pb_decode_fixed64 300 (replicate 10 0)"
  by (rule scalars_read_back) simp_all

end
