(* ===== verification/Nanopb_Fields.thy ===== *)
theory Nanopb_Fields
  imports Nanopb_Scalar
begin

text \<open>
  Fields on the wire: what the tag and string encoders write, what the tag decoder, the substreams
  and \<open>pb_skip_field\<close> consume, and where the two varint decoders of nanopb differ.
\<close>

section \<open>Fields\<close>

text \<open>The value of a field, one constructor for each wire type.\<close>

datatype wire_value = W_varint u64 | W_64bit u64 | W_string bytes | W_32bit u32

fun wire_type_of :: "wire_value \<Rightarrow> wire_type" where
  "wire_type_of (W_varint _) = PB_WT_VARINT"
| "wire_type_of (W_64bit _) = PB_WT_64BIT"
| "wire_type_of (W_string _) = PB_WT_STRING"
| "wire_type_of (W_32bit _) = PB_WT_32BIT"

fun value_bytes :: "wire_value \<Rightarrow> bytes" where
  "value_bytes (W_varint v) = varint (unat v)"
| "value_bytes (W_64bit v) = fixed64 v"
| "value_bytes (W_string bs) = varint (length bs) @ bs"
| "value_bytes (W_32bit v) = fixed32 v"

definition tag_bytes :: "u32 \<Rightarrow> wire_type \<Rightarrow> bytes" where
  "tag_bytes tag wt = varint (unat tag * 8 + unat wt)"

text \<open>Values that fit the 32-bit length of the decoder.\<close>

fun value_ok :: "wire_value \<Rightarrow> bool" where
  "value_ok (W_string bs) = (length bs < 2 ^ 32)"
| "value_ok _ = True"

definition tag_ok :: "u32 \<Rightarrow> bool" where
  "tag_ok tag \<longleftrightarrow> 0 < unat tag \<and> unat tag < 2 ^ 29"

lemma wire_type_small: "unat (wire_type_of v) < 8"
  by (cases v) (simp_all add: wire_types)

lemma encode_tag:
  assumes "unat wt < 8"
  shows "pb_encode_tag wt tag = put_bytes (tag_bytes tag wt)"
proof -
  have "take_bit 3 (ucast wt :: u64) = ucast wt"
    using assms by (simp add: word_unat_eq_iff unsigned_take_bit_eq unsigned_ucast_eq take_bit_nat_eq_self)
  then have "push_bit 3 (ucast tag :: u64) OR ucast wt = ucast tag * 2 ^ 3 + ucast wt"
    by (rule push_bit_or_add)
  moreover have "unat (ucast tag * 2 ^ 3 + ucast wt :: u64) = unat tag * 8 + unat wt"
    using unat_lt32 [of tag] assms by (simp add: unat_word_ariths unsigned_ucast_eq take_bit_nat_eq_self)
  ultimately show ?thesis
    by (simp add: pb_encode_tag_def encode_varint tag_bytes_def)
qed

lemma fits32_small: "unat v < 2 ^ 32 \<Longrightarrow> fits32 v"
  by (simp add: fits32_def word_unat_eq_iff drop_bit_eq_div unat_div_distrib)

lemma decode_varint32_small:
  assumes "stream_ok s" "avail s = varint n @ rest" "n < 2 ^ 32"
  shows "pb_decode_varint32_eof s = ((Some (of_nat n), False), advance (length (varint n)) s)"
proof -
  have u: "unat (of_nat n :: u64) = n"
    using assms(3) by (simp add: unat_of_nat_small)
  moreover have "ucast (of_nat n :: u64) = (of_nat n :: u32)"
    using u assms(3) by (simp add: word_unat_eq_iff unsigned_ucast_eq unat_of_nat_small take_bit_nat_eq_self)
  ultimately show ?thesis
    using decode_varint32_eof [of s "of_nat n" rest] fits32_small [of "of_nat n"] assms by simp
qed

lemma decode_tag:
  assumes "stream_ok s" "avail s = tag_bytes tag wt @ rest" "tag_ok tag" "unat wt < 8"
  shows "pb_decode_tag s = ((Some (wt, tag), False), advance (length (tag_bytes tag wt)) s)"
proof -
  define n where "n = unat tag * 8 + unat wt"
  have n: "n < 2 ^ 32" "n \<noteq> 0"
    using assms(3,4) by (auto simp: n_def tag_ok_def)
  have parts: "n mod 8 = unat wt" "n div 8 = unat tag"
    using assms(4) by (simp_all add: n_def)
  have u: "unat (of_nat n :: u32) = n"
    using n by (simp add: unat_of_nat_small)
  have "(of_nat n :: u32) AND 7 = take_bit 3 (of_nat n)"
    by (simp add: take_bit_eq_mask mask_numeral)
  moreover have "take_bit 3 (of_nat n :: u32) = wt"
    using u parts by (simp add: word_unat_eq_iff unat_mod_distrib take_bit_eq_mod)
  moreover have "drop_bit 3 (of_nat n :: u32) = tag"
    using u parts by (simp add: word_unat_eq_iff drop_bit_eq_div unat_div_distrib)
  moreover have "(of_nat n :: u32) \<noteq> 0"
    using u n(2) by (metis unat_0)
  ultimately show ?thesis
    using decode_varint32_small [of s n rest] assms n by (simp add: pb_decode_tag_def tag_bytes_def n_def [symmetric])
qed

lemma decode_tag_end:
  "stream_ok s \<Longrightarrow> avail s = [] \<Longrightarrow> pb_decode_tag s = ((None, True), snd (is_error ''end-of-stream'' s))"
  using pb_readbyte_empty [of s] length_avail [of s]
  by (simp add: pb_decode_tag_def pb_decode_varint32_eof_def is_error_def unat_0_iff)

section \<open>Skipping\<close>

lemma pb_read_one: "stream_ok s \<Longrightarrow> avail s = b # rest \<Longrightarrow> pb_read 1 s = (Some [b], advance 1 s)"
  using pb_read_ok(1) [of s "[b]" rest 1] by simp

lemma varint_step:
  "varint n = (if n < 128 then [of_nat n] else of_nat (n mod 128 + 128) # varint (n div 128))"
  by (rule varint.simps)

lemma varint_bytes_top:
  "n < 128 \<Longrightarrow> (of_nat n :: u8) AND 0x80 = 0" "(of_nat (n mod 128 + 128) :: u8) AND 0x80 \<noteq> 0"
proof -
  show "(of_nat n :: u8) AND 0x80 = 0" if "n < 128"
    using and_80 [of "of_nat n"] that by (auto simp: unat_of_nat_u8)
  have "n mod 128 + 128 < 256"
    using mod_less_divisor [of 128 n] by linarith
  then have "unat (of_nat (n mod 128 + 128) :: u8) = n mod 128 + 128"
    unfolding unat_of_nat_u8 by (rule mod_less)
  then show "(of_nat (n mod 128 + 128) :: u8) AND 0x80 \<noteq> 0"
    unfolding and_80 by simp
qed

lemma skip_varint:
  "stream_ok s \<Longrightarrow> avail s = varint n @ rest \<Longrightarrow> pb_skip_varint s = (Some (), advance (length (varint n)) s)"
proof (induction n arbitrary: s rule: varint.induct)
  case (1 n)
  show ?case
  proof (cases "n < 128")
    case True
    then have "pb_read 1 s = (Some [of_nat n], advance 1 s)"
      using 1(2,3) by (intro pb_read_one) (simp_all add: varint_step)
    then show ?thesis
      using True by (subst pb_skip_varint.simps) (simp add: varint_bytes_top varint_step)
  next
    case False
    define b :: u8 where "b = of_nat (n mod 128 + 128)"
    have v: "varint n = b # varint (n div 128)"
      using False by (simp add: varint_step [of n] b_def)
    have rd: "pb_read 1 s = (Some [b], advance 1 s)"
      using 1(2,3) v by (intro pb_read_one) simp_all
    have "stream_ok (advance 1 s)" "avail (advance 1 s) = varint (n div 128) @ rest"
      using advance_ok [OF 1(2), of 1] 1(3) v by simp_all
    note ih = 1(1) [OF False this]
    have "b AND 0x80 \<noteq> 0"
      unfolding b_def by (rule varint_bytes_top)
    then show ?thesis
      using rd ih by (subst pb_skip_varint.simps) (simp add: v advance_advance)
  qed
qed

lemma decode_length:
  assumes "stream_ok s" "avail s = varint (length bs) @ bs @ rest" "length bs < 2 ^ 32"
  shows "pb_decode_varint32 s = (Some (of_nat (length bs)), advance (length (varint (length bs))) s)"
    and "stream_ok (advance (length (varint (length bs))) s)"
    and "avail (advance (length (varint (length bs))) s) = bs @ rest"
  using decode_varint32_small [OF assms] advance_ok [OF assms(1), of "length (varint (length bs))"] assms(2)
  by (simp_all add: pb_decode_varint32_def)

lemma ucast_length: "n < 2 ^ 32 \<Longrightarrow> ucast (of_nat n :: u32) = (of_nat n :: u64)"
  by (simp add: word_unat_eq_iff unsigned_ucast_eq unat_of_nat_small take_bit_nat_eq_self)

lemma skip_value:
  assumes "stream_ok s" "avail s = value_bytes v @ rest" "value_ok v"
  shows "pb_skip_field (wire_type_of v) s = (Some (), advance (length (value_bytes v)) s)"
proof (cases v)
  case (W_string bs)
  have l: "length bs < 2 ^ 32" "avail s = varint (length bs) @ bs @ rest"
    using assms W_string by simp_all
  note d = decode_length [OF assms(1) l(2,1)]
  show ?thesis
    using d(1) pb_read_ok(2) [OF d(2,3) refl] ucast_length [OF l(1)] W_string
    by (simp add: pb_skip_field_def wire_types pb_skip_string_def advance_advance)
next
  case (W_64bit x)
  have "(8 :: u64) = of_nat (length (fixed64 x))"
    by (simp add: fixed64_def)
  then show ?thesis
    using pb_read_ok(2) [of s "fixed64 x" rest 8] assms W_64bit by (simp add: pb_skip_field_def wire_types)
next
  case (W_32bit x)
  have "(4 :: u64) = of_nat (length (fixed32 x))"
    by (simp add: fixed32_def)
  then show ?thesis
    using pb_read_ok(2) [of s "fixed32 x" rest 4] assms W_32bit by (simp add: pb_skip_field_def wire_types)
qed (use assms skip_varint in \<open>simp add: pb_skip_field_def wire_types\<close>)

text \<open>The loop of a reader that knows no field: it reads a tag and skips the value.\<close>

fun field_bytes :: "u32 \<times> wire_value \<Rightarrow> bytes" where
  "field_bytes (tag, v) = tag_bytes tag (wire_type_of v) @ value_bytes v"

text \<open>
  Claim C11: reading a tag and skipping its value, on any input that begins with a well-formed field
  of any of the four wire types, returns the tag and the wire type of that field and leaves exactly
  the bytes that follow the field.
\<close>

theorem tag_then_skip:
  assumes "stream_ok s" "avail s = field_bytes (tag, v) @ rest" "tag_ok tag" "value_ok v"
  shows "\<exists>s'. pb_decode_tag s = ((Some (wire_type_of v, tag), False), s') \<and>
    (\<exists>s''. pb_skip_field (wire_type_of v) s' = (Some (), s'') \<and> stream_ok s'' \<and> avail s'' = rest)"
proof -
  have av: "avail s = tag_bytes tag (wire_type_of v) @ value_bytes v @ rest"
    using assms(2) by simp
  let ?s = "advance (length (tag_bytes tag (wire_type_of v))) s"
  have s: "stream_ok ?s" "avail ?s = value_bytes v @ rest"
    using advance_ok [OF assms(1), of "length (tag_bytes tag (wire_type_of v))"] av by simp_all
  show ?thesis
    using decode_tag [OF assms(1) av assms(3) wire_type_small] skip_value [OF s assms(4)]
      advance_ok [OF s(1), of "length (value_bytes v)"] s(2) by simp
qed

lemma tag_then_skip_witness:
  "\<exists>s'. pb_decode_tag (pb_istream_from_buffer [0x0a, 2, 7, 8, 0x10, 1] 6) = ((Some (2, 1), False), s') \<and>
    (\<exists>s''. pb_skip_field 2 s' = (Some (), s'') \<and> stream_ok s'' \<and> avail s'' = [0x10, 1])"
proof -
  have "avail (pb_istream_from_buffer [0x0a, 2, 7, 8, 0x10, 1] 6) =
      field_bytes (1, W_string [7, 8]) @ [0x10, 1 :: u8]"
    by (simp add: avail_def pb_istream_from_buffer_def tag_bytes_def PB_WT_STRING_def varint_step)
  moreover have "stream_ok (pb_istream_from_buffer [0x0a, 2, 7, 8, 0x10, 1 :: u8] 6)"
    by (simp add: stream_ok_def pb_istream_from_buffer_def)
  ultimately show ?thesis
    using tag_then_skip [of "pb_istream_from_buffer [0x0a, 2, 7, 8, 0x10, 1] 6" 1 "W_string [7, 8]" "[0x10, 1]"]
    by (simp add: tag_ok_def PB_WT_STRING_def)
qed

section \<open>Strings and substreams\<close>

text \<open>
  Claim C12: a substream covers exactly the bytes of the length-delimited value it was made for, and
  however much of it has been read when it is closed, the parent stream then stands at the first
  byte behind the value.
\<close>

theorem substream_isolated:
  assumes "stream_ok s" "avail s = value_bytes (W_string bs) @ rest" "length bs < 2 ^ 32"
  shows "\<exists>sub s'. pb_make_string_substream s = (Some sub, s') \<and> stream_ok sub \<and> avail sub = bs \<and>
    (\<forall>k \<le> length bs. \<exists>s''. pb_close_string_substream (advance k sub) s' = (Some (), s'') \<and> stream_ok s'' \<and> avail s'' = rest)"
proof -
  have av: "avail s = varint (length bs) @ bs @ rest"
    using assms(2) by simp
  define t where "t = advance (length (varint (length bs))) s"
  note d = decode_length [OF assms(1) av assms(3), folded t_def]
  define n :: usize where "n = of_nat (length bs)"
  have n: "unat n = length bs" "ucast (of_nat (length bs) :: u32) = n"
    using assms(3) ucast_length by (simp_all add: n_def unat_of_nat_small)
  define sub where "sub = t\<lparr>is_bytes_left := n\<rparr>"
  define s' where "s' = t\<lparr>is_bytes_left := is_bytes_left t - n\<rparr>"
  have left: "length bs \<le> unat (is_bytes_left t)" "length bs + length rest = unat (is_bytes_left t)"
    using length_avail [OF d(2)] d(3) by simp_all
  then have "pb_make_string_substream s = (Some sub, s')"
    using d(1) n by (simp add: pb_make_string_substream_def sub_def s'_def word_less_nat_alt)
  moreover have mem_t: "is_mem t = bs @ rest @ drop (unat (is_bytes_left t)) (is_mem t)"
    using d(3) append_take_drop_id [of "unat (is_bytes_left t)" "is_mem t"] by (simp add: avail_def)
  moreover have sub: "stream_ok sub" "avail sub = bs"
    using d(2) left n arg_cong [OF mem_t, of "take (length bs)"] by (simp_all add: sub_def stream_ok_def avail_def)
  moreover have "\<exists>s''. pb_close_string_substream (advance k sub) s' = (Some (), s'') \<and> stream_ok s'' \<and> avail s'' = rest"
    if k: "k \<le> length bs" for k
  proof -
    have rest_left: "unat (is_bytes_left t - n) = length rest"
      using left n unat_sub [of n "is_bytes_left t"] by (simp add: word_le_nat_alt)
    have sk: "stream_ok (advance k sub)" "avail (advance k sub) = drop k bs"
      using advance_ok [OF sub(1), of k] sub(2) k by simp_all
    have left_k: "unat (is_bytes_left (advance k sub)) = length bs - k"
      using length_avail [OF sk(1)] sk(2) by simp
    define fin where "fin = advance (length bs) sub"
    have "(if is_bytes_left (advance k sub) \<noteq> 0 then pb_read_null (is_bytes_left (advance k sub)) (advance k sub)
        else (Some (), advance k sub)) = (Some (), fin)"
    proof (cases "k = length bs")
      case True
      then show ?thesis
        using left_k unat_0_iff [of "is_bytes_left (advance k sub)"] by (simp add: fin_def)
    next
      case False
      have "is_bytes_left (advance k sub) = of_nat (length (drop k bs))"
        using left_k assms(3) by (simp add: word_unat_eq_iff unat_of_nat_small)
      then have "pb_read_null (is_bytes_left (advance k sub)) (advance k sub) = (Some (), advance (length (drop k bs)) (advance k sub))"
        using sk by (intro pb_read_ok(2) [where rest = "[]"]) simp_all
      then show ?thesis
        using False k left_k unat_0_iff [of "is_bytes_left (advance k sub)"] by (simp add: fin_def advance_advance)
    qed
    then have "pb_close_string_substream (advance k sub) s' =
        (Some (), s'\<lparr>is_mem := is_mem fin, is_state := is_state fin, is_errmsg := is_errmsg fin\<rparr>)"
      by (simp add: pb_close_string_substream_def)
    moreover have "is_mem fin = rest @ drop (unat (is_bytes_left t)) (is_mem t)"
      using arg_cong [OF mem_t, of "drop (length bs)"] by (simp add: fin_def advance_def sub_def)
    ultimately show ?thesis
      using rest_left d(2) by (simp add: s'_def stream_ok_def avail_def) linarith
  qed
  ultimately show ?thesis
    using sub by blast
qed

lemma substream_isolated_witness:
  "\<exists>sub s'. pb_make_string_substream (pb_istream_from_buffer [2, 7, 8, 9] 4) = (Some sub, s') \<and> stream_ok sub \<and> avail sub = [7, 8] \<and>
    (\<forall>k \<le> 2. \<exists>s''. pb_close_string_substream (advance k sub) s' = (Some (), s'') \<and> stream_ok s'' \<and> avail s'' = [9])"
proof -
  have "avail (pb_istream_from_buffer [2, 7, 8, 9] 4) = value_bytes (W_string [7, 8]) @ [9 :: u8]"
    by (simp add: avail_def pb_istream_from_buffer_def varint_step)
  moreover have "stream_ok (pb_istream_from_buffer [2, 7, 8, 9 :: u8] 4)"
    by (simp add: stream_ok_def pb_istream_from_buffer_def)
  ultimately have "\<exists>sub s'. pb_make_string_substream (pb_istream_from_buffer [2, 7, 8, 9] 4) = (Some sub, s') \<and> stream_ok sub \<and>
      avail sub = [7, 8] \<and> (\<forall>k \<le> length [7, 8 :: u8]. \<exists>s''. pb_close_string_substream (advance k sub) s' = (Some (), s'') \<and>
      stream_ok s'' \<and> avail s'' = [9])"
    by (intro substream_isolated) simp_all
  then show ?thesis
    by (simp add: numeral_2_eq_2)
qed

section \<open>The two varint decoders\<close>

text \<open>
  On the varint of an integer of 32 bits, or of a negative one sign-extended to 64 bits,
  the 32-bit decoder returns the low half of what the 64-bit decoder returns and leaves the stream
  in the same place.
\<close>

lemma varint32_agrees:
  assumes "stream_ok s" "avail s = varint (unat v) @ rest" "fits32 v"
  shows "pb_decode_varint32 s = (map_option ucast (fst (pb_decode_varint s)), snd (pb_decode_varint s))"
  using decode_varint32 [OF assms] decode_varint [OF assms(1,2)] by simp

lemma varint32_agrees_witness:
  "pb_decode_varint32 (pb_istream_from_buffer [0xac, 2] 2) =
    (map_option ucast (fst (pb_decode_varint (pb_istream_from_buffer [0xac, 2] 2))),
     snd (pb_decode_varint (pb_istream_from_buffer [0xac, 2] 2)))"
proof (rule varint32_agrees)
  show "stream_ok (pb_istream_from_buffer [0xac, 2] 2)"
    by (simp add: stream_ok_def pb_istream_from_buffer_def)
  show "avail (pb_istream_from_buffer [0xac, 2] 2) = varint (unat (300 :: u64)) @ []"
    by (simp add: avail_def pb_istream_from_buffer_def varint_step)
  show "fits32 300"
    by (rule fits32_small) simp
qed


end
