(* ===== verification/Nanopb_Encode_Spec.thy ===== *)
theory Nanopb_Encode_Spec
  imports Nanopb_Encode Nanopb_Fields
begin

text \<open>
  What the message encoder promises: the structure in memory stands for a tree of fields, the tree
  has one wire format, and \<open>pb_encode\<close> writes it to every stream with room for it, in spite of its
  sizing passes, substreams and packed arrays.
\<close>

section \<open>Messages as trees\<close>

text \<open>\<open>P_raw\<close> is the output of a callback.\<close>

datatype pb_value =
    P_varint u64
  | P_fixed64 u64
  | P_fixed32 u32
  | P_bytes bytes
  | P_packed "pb_value list"
  | P_message "pb_entry list"
and pb_entry =
    P_field u32 pb_value
  | P_raw bytes

fun wire_of :: "pb_value \<Rightarrow> wire_value" and entry_bytes :: "pb_entry \<Rightarrow> bytes" where
  "wire_of (P_varint v) = W_varint v"
| "wire_of (P_fixed64 v) = W_64bit v"
| "wire_of (P_fixed32 v) = W_32bit v"
| "wire_of (P_bytes bs) = W_string bs"
| "wire_of (P_packed vs) = W_string (concat (map (\<lambda>v. value_bytes (wire_of v)) vs))"
| "wire_of (P_message es) = W_string (concat (map entry_bytes es))"
| "entry_bytes (P_field tag v) = field_bytes (tag, wire_of v)"
| "entry_bytes (P_raw bs) = bs"

definition wire_message :: "pb_entry list \<Rightarrow> bytes" where
  "wire_message es = concat (map entry_bytes es)"

section \<open>The tree a structure stands for\<close>

text \<open>\<open>None\<close>: the structure cannot be encoded, or is nested more deeply than the fuel.\<close>

definition scalar_value :: "memory \<Rightarrow> pb_field \<Rightarrow> addr \<Rightarrow> pb_value option" where
  "scalar_value m field p =
     (let t = PB_LTYPE (fd_type field); data_size = fd_data_size field
      in if t = PB_LTYPE_VARINT then map_option P_varint (read_signed m data_size p)
         else if t = PB_LTYPE_UVARINT then map_option P_varint (read_unsigned m data_size p)
         else if t = PB_LTYPE_SVARINT then map_option (\<lambda>v. P_varint (zigzag v)) (read_signed m data_size p)
         else if t = PB_LTYPE_FIXED32 then Some (P_fixed32 (load32 m p))
         else if t = PB_LTYPE_FIXED64 then Some (P_fixed64 (load64 m p))
         else if t = PB_LTYPE_BYTES then
           (if p = 0 then Some (P_bytes [])
            else if PB_ATYPE (fd_type field) = PB_ATYPE_STATIC \<and> unat (load32 m p) + 4 > unat data_size then None
            else Some (P_bytes (load m (p + 4) (unat (load32 m p)))))
         else if t = PB_LTYPE_STRING then
           Some (P_bytes (if p = 0 then [] else load m p (unat (string_size m 0
             (if PB_ATYPE (fd_type field) = PB_ATYPE_POINTER then 0xffffffffffffffff else ucast data_size) p))))
         else if t = PB_LTYPE_FIXED_LENGTH_BYTES then Some (P_bytes (load m p (unat data_size)))
         else None)"

type_synonym tree_fun = "pb_field list \<Rightarrow> addr \<Rightarrow> pb_entry list option"

definition value_at :: "'s pb_env \<Rightarrow> tree_fun \<Rightarrow> pb_field \<Rightarrow> addr \<Rightarrow> pb_value option" where
  "value_at env sub field p =
     (if PB_LTYPE (fd_type field) = PB_LTYPE_SUBMESSAGE then
        (if fd_ptr field = 0 then None else map_option P_message (sub (env_fields env (fd_ptr field)) p))
      else scalar_value (env_mem env) field p)"

primrec collect :: "(addr \<Rightarrow> 'a option) \<Rightarrow> usize \<Rightarrow> nat \<Rightarrow> addr \<Rightarrow> 'a list option" where
  "collect f data_size 0 p = Some []"
| "collect f data_size (Suc k) p =
     (case f p of None \<Rightarrow> None | Some v \<Rightarrow> map_option ((#) v) (collect f data_size k (p + data_size)))"

definition array_entries :: "memory \<Rightarrow> pb_field \<Rightarrow> addr \<Rightarrow> usize \<Rightarrow> (addr \<Rightarrow> pb_value option) \<Rightarrow> pb_entry list option" where
  "array_entries m field pData count val =
     (if count = 0 then Some []
      else if PB_ATYPE (fd_type field) \<noteq> PB_ATYPE_POINTER \<and> count > ucast (fd_array_size field) then None
      else if PB_LTYPE (fd_type field) \<le> PB_LTYPE_LAST_PACKABLE then
        map_option (\<lambda>vs. [P_field (fd_tag field) (P_packed vs)]) (collect val (ucast (fd_data_size field)) (unat count) pData)
      else
        map_option (map (P_field (fd_tag field)))
          (collect (\<lambda>p. val (if PB_ATYPE (fd_type field) = PB_ATYPE_POINTER \<and>
              (PB_LTYPE (fd_type field) = PB_LTYPE_STRING \<or> PB_LTYPE (fd_type field) = PB_LTYPE_BYTES) then load64 m p else p))
            (ucast (fd_data_size field)) (unat count) pData))"

definition basic_entries :: "nat \<Rightarrow> 's pb_env \<Rightarrow> tree_fun \<Rightarrow> pb_field \<Rightarrow> addr \<Rightarrow> pb_entry list option" where
  "basic_entries n env sub field pData =
     (let m = env_mem env; h = PB_HTYPE (fd_type field); pointer = PB_ATYPE (fd_type field) = PB_ATYPE_POINTER;
          dat = (if pointer then load64 m pData else pData); counter = pData + scast (fd_size_offset field);
          one = map_option (\<lambda>v. [P_field (fd_tag field) v]) (value_at env sub field dat)
      in if h = PB_HTYPE_REQUIRED then (if dat = 0 then None else one)
         else if h = PB_HTYPE_OPTIONAL then
           (if fd_size_offset field \<noteq> 0 then (if m counter \<noteq> 0 then one else Some [])
            else case pb_check_proto3_default_value n env field pData of
                None \<Rightarrow> None
              | Some dflt \<Rightarrow> if (if pointer then dat \<noteq> 0 else \<not> dflt) then one else Some [])
         else if h = PB_HTYPE_REPEATED then
           array_entries m field dat (ucast (if fd_size_offset field \<noteq> 0 then load32 m counter else fd_array_size field))
             (value_at env sub field)
         else if fd_size_offset field = 0 then None
         else if load32 m counter = fd_tag field then one else Some [])"

text \<open>\<open>out\<close> and \<open>ext_out\<close>: what the callbacks of fields and extension types write.\<close>

type_synonym callback_out = "addr \<Rightarrow> pb_field \<Rightarrow> addr \<Rightarrow> bytes option"

definition field_entries ::
  "nat \<Rightarrow> 's pb_env \<Rightarrow> callback_out \<Rightarrow> tree_fun \<Rightarrow> pb_field \<Rightarrow> addr \<Rightarrow> pb_entry list option" where
  "field_entries n env out sub field pData =
     (let a = PB_ATYPE (fd_type field); f = load64 (env_mem env) pData
      in if a = PB_ATYPE_STATIC \<or> a = PB_ATYPE_POINTER then basic_entries n env sub field pData
         else if a = PB_ATYPE_CALLBACK then
           (if f = 0 then Some [] else map_option (\<lambda>bs. [P_raw bs]) (out f field (pData + 8)))
         else None)"

primrec extension_entries ::
  "nat \<Rightarrow> nat \<Rightarrow> 's pb_env \<Rightarrow> callback_out \<Rightarrow> (addr \<Rightarrow> addr \<Rightarrow> bytes option) \<Rightarrow> tree_fun \<Rightarrow> addr \<Rightarrow> pb_entry list option" where
  "extension_entries 0 n env out ext_out sub extension = None"
| "extension_entries (Suc k) n env out ext_out sub extension =
     (if extension = 0 then Some []
      else
        let m = env_mem env; f = load64 m (load64 m extension + 8);
            field = hd (env_fields env (load64 m (load64 m extension + 16)));
            here = (if f \<noteq> 0 then map_option (\<lambda>bs. [P_raw bs]) (ext_out f extension)
              else field_entries n env out sub field
                (if PB_ATYPE (fd_type field) = PB_ATYPE_POINTER then extension + 8 else load64 m (extension + 8)))
        in case here of None \<Rightarrow> None
           | Some es \<Rightarrow> map_option ((@) es) (extension_entries k n env out ext_out sub (load64 m (extension + 16))))"

primrec entries_loop ::
  "nat \<Rightarrow> nat \<Rightarrow> 's pb_env \<Rightarrow> callback_out \<Rightarrow> (addr \<Rightarrow> addr \<Rightarrow> bytes option) \<Rightarrow> tree_fun \<Rightarrow> pb_field_iter \<Rightarrow> pb_entry list option" where
  "entries_loop 0 n env out ext_out sub iter = None"
| "entries_loop (Suc k) n env out ext_out sub iter =
     (case (if PB_LTYPE (fd_type (cur iter)) = PB_LTYPE_EXTENSION
            then extension_entries n n env out ext_out sub (load64 (env_mem env) (it_pData iter))
            else field_entries n env out sub (cur iter) (it_pData iter)) of
        None \<Rightarrow> None
      | Some es \<Rightarrow>
          (case pb_field_iter_next iter of
             (True, iter) \<Rightarrow> map_option ((@) es) (entries_loop k n env out ext_out sub iter)
           | (False, _) \<Rightarrow> Some es))"

primrec message_at ::
  "nat \<Rightarrow> 's pb_env \<Rightarrow> callback_out \<Rightarrow> (addr \<Rightarrow> addr \<Rightarrow> bytes option) \<Rightarrow> tree_fun" where
  "message_at 0 env out ext_out fds src = None"
| "message_at (Suc n) env out ext_out fds src =
     (case pb_field_iter_begin fds src of
        (False, _) \<Rightarrow> Some []
      | (True, iter) \<Rightarrow> entries_loop (length fds) n env out ext_out (message_at n env out ext_out) iter)"

lemma wire_message_simps [simp]:
  "wire_message [] = []" "wire_message (e # es) = entry_bytes e @ wire_message es"
  "wire_message (es @ es') = wire_message es @ wire_message es'"
  by (simp_all add: wire_message_def)

lemma wire_of_message: "wire_of (P_message es) = W_string (wire_message es)"
  by (simp add: wire_message_def)

section \<open>What a step writes\<close>

context sink begin

definition room :: "'s ostream \<Rightarrow> nat" where
  "room s = unat (os_max_size s) - unat (os_bytes_written s)"

text \<open>\<open>s'\<close> is \<open>s\<close> after \<open>ys\<close> has been written to it.\<close>

definition after :: "'s ostream \<Rightarrow> bytes \<Rightarrow> 's ostream \<Rightarrow> bool" where
  "after s ys s' \<longleftrightarrow> connected s' \<and> os_max_size s' = os_max_size s \<and> length ys \<le> room s \<and>
     stored (os_state s') = stored (os_state s) @ ys \<and> space (os_state s') = space (os_state s) - length ys \<and>
     unat (os_bytes_written s') = unat (os_bytes_written s) + length ys"

text \<open>
  A step emits \<open>bs\<close> (shorter than \<open>2\<^sup>6\<^sup>3\<close> bytes): a sizing stream counts it; a stream to the sink
  stores all of it if there is room, and otherwise the step fails within the room there is.
\<close>

definition emits :: "'s enc \<Rightarrow> bytes \<Rightarrow> bool" where
  "emits f bs \<longleftrightarrow> (length bs < 2 ^ 63 \<longrightarrow>
     (\<forall>s. os_callback s = None \<longrightarrow> f s = Some (Some (), s\<lparr>os_bytes_written := os_bytes_written s + of_nat (length bs)\<rparr>)) \<and>
     (\<forall>s. connected s \<longrightarrow> length bs \<le> room s \<longrightarrow> (\<exists>s'. f s = Some (Some (), s') \<and> after s bs s')) \<and>
     (\<forall>s. connected s \<longrightarrow> room s < length bs \<longrightarrow> (\<exists>s' ys zs. f s = Some (None, s') \<and> bs = ys @ zs \<and> after s ys s')))"

lemma after_room: "after s ys s' \<Longrightarrow> room s' = room s - length ys"
  by (simp add: after_def room_def)

lemma emits_sizing:
  "emits f bs \<Longrightarrow> length bs < 2 ^ 63 \<Longrightarrow> os_callback s = None \<Longrightarrow>
    f s = Some (Some (), s\<lparr>os_bytes_written := os_bytes_written s + of_nat (length bs)\<rparr>)"
  by (simp add: emits_def)

lemma emits_room:
  assumes "emits f bs" "length bs < 2 ^ 63" "connected s" "length bs \<le> room s"
  obtains s' where "f s = Some (Some (), s')" "after s bs s'"
  using assms by (auto simp: emits_def)

lemma emits_full:
  assumes "emits f bs" "length bs < 2 ^ 63" "connected s" "room s < length bs"
  obtains s' ys zs where "f s = Some (None, s')" "bs = ys @ zs" "after s ys s'"
  using assms unfolding emits_def by blast

lemma after_trans: "after s xs s' \<Longrightarrow> after s' ys s'' \<Longrightarrow> after s (xs @ ys) s''"
  using after_room [of s xs s'] by (auto simp: after_def)

lemma after_refl: "connected s \<Longrightarrow> after s [] s"
  by (simp add: after_def)

lemma after_error: "after s ys (snd (os_error msg s')) = after s ys s'"
proof -
  have "connected (s'\<lparr>os_errmsg := e\<rparr>) = connected s'" for e
    by (simp add: connected_def)
  then show ?thesis
    by (simp add: after_def os_error_def)
qed

lemma emits_nil: "emits ret_true []"
  by (auto simp: emits_def ret_true_def after_refl)

lemma emits_put: "emits (total (put_bytes bs)) bs"
  unfolding emits_def
proof (intro impI conjI allI)
  assume len: "length bs < 2 ^ 63"
  show "total (put_bytes bs) s = Some (Some (), s\<lparr>os_bytes_written := os_bytes_written s + of_nat (length bs)\<rparr>)"
    if "os_callback s = None" for s
    using that by (simp add: total_def put_bytes_def pb_write_def)
  show "\<exists>s'. total (put_bytes bs) s = Some (Some (), s') \<and> after s bs s'" if "connected s" "length bs \<le> room s" for s
    using pb_write_connected [of s bs] that put_ok [of bs "os_state s"]
    by (auto simp: total_def put_bytes_def after_def room_def)
  show "\<exists>s' ys zs. total (put_bytes bs) s = Some (None, s') \<and> bs = ys @ zs \<and> after s ys s'" if "connected s" "room s < length bs" for s
    using pb_write_full [of s bs] that len after_refl [of s]
    by (auto simp: total_def put_bytes_def os_error_def room_def after_def connected_def intro!: exI [of _ "[]"])
qed

lemma emits_and_then:
  assumes "emits f xs" "emits g ys"
  shows "emits (and_then f g) (xs @ ys)"
  unfolding emits_def
proof (intro impI conjI allI)
  assume "length (xs @ ys) < 2 ^ 63"
  then have len: "length xs < 2 ^ 63" "length ys < 2 ^ 63"
    by simp_all
  show "and_then f g s = Some (Some (), s\<lparr>os_bytes_written := os_bytes_written s + of_nat (length (xs @ ys))\<rparr>)"
    if "os_callback s = None" for s
    using emits_sizing [OF assms(1) len(1)] emits_sizing [OF assms(2) len(2)] that by (simp add: and_then_def add.assoc)
  show "\<exists>s'. and_then f g s = Some (Some (), s') \<and> after s (xs @ ys) s'"
    if s: "connected s" "length (xs @ ys) \<le> room s" for s
  proof -
    obtain s1 where s1: "f s = Some (Some (), s1)" "after s xs s1"
      using emits_room [OF assms(1) len(1) s(1)] s(2) by auto
    have "connected s1" "length ys \<le> room s1"
      using s(2) s1(2) after_room [OF s1(2)] by (simp_all add: after_def)
    then obtain s2 where "g s1 = Some (Some (), s2)" "after s1 ys s2"
      using emits_room [OF assms(2) len(2)] by blast
    then show ?thesis
      using s1 after_trans by (auto simp: and_then_def)
  qed
  show "\<exists>s' as bs. and_then f g s = Some (None, s') \<and> xs @ ys = as @ bs \<and> after s as s'"
    if s: "connected s" "room s < length (xs @ ys)" for s
  proof (cases "length xs \<le> room s")
    case True
    obtain s1 where s1: "f s = Some (Some (), s1)" "after s xs s1"
      using emits_room [OF assms(1) len(1) s(1) True] by blast
    have "connected s1" "room s1 < length ys"
      using s(2) s1(2) after_room [OF s1(2)] True by (auto simp: after_def)
    then obtain s2 as bs where "g s1 = Some (None, s2)" "ys = as @ bs" "after s1 as s2"
      using emits_full [OF assms(2) len(2)] by metis
    then show ?thesis
      using s1 after_trans [OF s1(2)] by (intro exI [of _ s2] exI [of _ "xs @ as"] exI [of _ bs]) (simp add: and_then_def)
  next
    case False
    then have "room s < length xs"
      by simp
    then obtain s1 as bs where "f s = Some (None, s1)" "xs = as @ bs" "after s as s1"
      using emits_full [OF assms(1) len(1) s(1)] by metis
    then show ?thesis
      by (auto simp: and_then_def)
  qed
qed

lemma total_andthen: "total (andthen f (\<lambda>_. g)) = and_then (total f) (total g)"
  by (auto simp: total_def and_then_def andthen_def fun_eq_iff split: prod.splits option.splits)

lemma emits_string:
  assumes "n = of_nat (length bs)" "bs' = bs"
  shows "emits (total (pb_encode_string bs' n)) (varint (length bs) @ bs)"
proof (cases "length bs < 2 ^ 63")
  case True
  then have "unat n = length bs"
    using assms(1) by (simp add: unat_of_nat_small)
  then have "total (pb_encode_string bs' n) = and_then (total (put_bytes (varint (length bs)))) (total (put_bytes bs))"
    using assms by (simp add: pb_encode_string_def total_andthen encode_varint put_bytes_def [of bs])
  then show ?thesis
    using emits_and_then [OF emits_put emits_put] by metis
qed (simp add: emits_def)

lemma emits_tag: "unat wt < 8 \<Longrightarrow> emits (total (pb_encode_tag wt tag)) (tag_bytes tag wt)"
  by (simp add: encode_tag emits_put)

text \<open>
  The sizing pass of \<open>pb_encode_submessage\<close> finds the number of bytes, and the second pass then
  fills its substream exactly.
\<close>

definition second_pass :: "'s encode_fun \<Rightarrow> pb_field list \<Rightarrow> addr \<Rightarrow> usize \<Rightarrow> 's enc" where
  "second_pass encode fds src n s =
     (case os_callback s of
        None \<Rightarrow> Some (pb_write [] n s)
      | Some callback \<Rightarrow>
          if os_bytes_written s + n > os_max_size s then Some (os_error ''stream full'' s)
          else
            case encode fds src \<lparr>os_callback = os_callback s, os_state = os_state s, os_max_size = n,
                   os_bytes_written = 0, os_errmsg = None\<rparr> of
              None \<Rightarrow> None
            | Some (status, substream) \<Rightarrow>
                let s = s\<lparr>os_bytes_written := os_bytes_written s + os_bytes_written substream,
                      os_state := os_state substream, os_errmsg := os_errmsg substream\<rparr>
                in if os_bytes_written substream \<noteq> n then Some (os_error ''submsg size changed'' s)
                   else Some (status, s))"

lemma submessage_passes:
  assumes "emits (encode fds src) bs" "length bs < 2 ^ 63"
  shows "pb_encode_submessage encode fds src =
    and_then (total (pb_encode_varint (of_nat (length bs)))) (second_pass encode fds src (of_nat (length bs)))"
proof
  fix s :: "'s ostream"
  let ?n = "of_nat (length bs) :: usize"
  have sizing: "encode fds src (pb_ostream_sizing st) = Some (Some (), pb_ostream_sizing st\<lparr>os_bytes_written := ?n\<rparr>)" for st
    using emits_sizing [OF assms, of "pb_ostream_sizing st"] by (simp add: pb_ostream_sizing_def)
  have count: "os_bytes_written (pb_ostream_sizing st\<lparr>os_bytes_written := k\<rparr>) = k" for st :: 's and k
    by simp
  show "pb_encode_submessage encode fds src s = and_then (total (pb_encode_varint ?n)) (second_pass encode fds src ?n) s"
    unfolding pb_encode_submessage_def sizing option.case prod.case Let_def count and_then_def total_def second_pass_def
    by (rule refl)
qed

lemma emits_second_pass:
  assumes "emits (encode fds src) bs"
  shows "emits (second_pass encode fds src (of_nat (length bs))) bs"
  unfolding emits_def
proof (intro impI conjI allI)
  let ?n = "of_nat (length bs) :: usize"
  assume len: "length bs < 2 ^ 63"
  then have n: "unat ?n = length bs"
    by (simp add: unat_of_nat_small)
  have sum: "unat (os_bytes_written s + ?n) = unat (os_bytes_written s) + length bs" if "connected s" for s
    using that len n unat_add64 [of "os_bytes_written s" ?n] by (simp add: connected_def word_le_nat_alt)
  show "second_pass encode fds src ?n s = Some (Some (), s\<lparr>os_bytes_written := os_bytes_written s + ?n\<rparr>)"
    if "os_callback s = None" for s
    using that by (simp add: second_pass_def pb_write_def)
  show "\<exists>s'. second_pass encode fds src ?n s = Some (Some (), s') \<and> after s bs s'"
    if s: "connected s" "length bs \<le> room s" for s
  proof -
    have fits: "unat (os_bytes_written s) + length bs \<le> unat (os_max_size s)" "unat (os_max_size s) < 2 ^ 63"
      using s by (auto simp: connected_def room_def word_le_nat_alt)
    let ?sub = "\<lparr>os_callback = os_callback s, os_state = os_state s, os_max_size = ?n, os_bytes_written = 0, os_errmsg = None\<rparr>"
    have sub: "connected ?sub" "length bs \<le> room ?sub"
      using s n len by (auto simp: connected_def room_def)
    obtain s2 where s2: "encode fds src ?sub = Some (Some (), s2)" "after ?sub bs s2"
      by (rule emits_room [OF assms len sub])
    have w2: "os_bytes_written s2 = ?n"
      using s2(2) n by (simp add: after_def word_unat_eq_iff)
    let ?s' = "s\<lparr>os_bytes_written := os_bytes_written s + ?n, os_state := os_state s2, os_errmsg := os_errmsg s2\<rparr>"
    have "\<not> os_bytes_written s + ?n > os_max_size s"
      using sum [OF s(1)] fits(1) by (simp add: word_less_nat_alt)
    then have "second_pass encode fds src ?n s = Some (Some (), ?s')"
      using s2(1) w2 s(1) by (simp add: second_pass_def connected_def)
    moreover have "after s bs ?s'"
      using s2(2) s sum [OF s(1)] fits by (auto simp: after_def connected_def room_def word_le_nat_alt)
    ultimately show ?thesis
      by blast
  qed
  show "\<exists>s' ys zs. second_pass encode fds src ?n s = Some (None, s') \<and> bs = ys @ zs \<and> after s ys s'"
    if s: "connected s" "room s < length bs" for s
  proof -
    have "os_bytes_written s + ?n > os_max_size s"
      using s sum [OF s(1)] by (auto simp: connected_def room_def word_less_nat_alt word_le_nat_alt)
    then have "second_pass encode fds src ?n s = Some (os_error ''stream full'' s)"
      using s(1) by (simp add: second_pass_def connected_def)
    moreover have "fst (os_error ''stream full'' s :: unit option \<times> 's ostream) = None"
      by (simp add: os_error_def)
    moreover have "after s [] (snd (os_error ''stream full'' s :: unit option \<times> 's ostream))"
      using after_refl [OF s(1)] by (simp add: after_error)
    ultimately show ?thesis
      by (metis append_Nil prod.collapse)
  qed
qed

lemma emits_submessage:
  assumes "emits (encode fds src) bs"
  shows "emits (pb_encode_submessage encode fds src) (varint (length bs) @ bs)"
proof (cases "length bs < 2 ^ 63")
  case True
  have "emits (total (pb_encode_varint (of_nat (length bs)))) (varint (length bs))"
    using emits_put [of "varint (length bs)"] True by (simp add: encode_varint unat_of_nat_small)
  then show ?thesis
    unfolding submessage_passes [of encode, OF assms True] by (intro emits_and_then emits_second_pass [of encode, OF assms])
qed (simp add: emits_def)

end

end
