(* ===== verification/Nanopb_Encode_Correct.thy ===== *)
theory Nanopb_Encode_Correct
  imports Nanopb_Encode_Spec
begin

text \<open>
  The message encoder writes the wire format of the tree its input stands for.
\<close>

section \<open>Values, tags and arrays\<close>

context sink begin

lemma emits_scalar:
  assumes "scalar_value (env_mem env) field p = Some v"
  shows "emits (PB_ENCODERS env encode (PB_LTYPE (fd_type field)) field p) (value_bytes (wire_of v))"
proof -
  let ?m = "env_mem env" and ?t = "PB_LTYPE (fd_type field)"
  have fixed: "emits (total (pb_encode_fixed32 x)) (fixed32 x)" "emits (total (pb_encode_fixed64 y)) (fixed64 y)" for x y
    by (simp_all add: encode_fixed32 encode_fixed64 emits_put)
  have varints: "emits (total (pb_encode_varint x)) (varint (unat x))" "emits (total (pb_encode_svarint x)) (varint (unat (zigzag x)))" for x
    by (simp_all add: encode_varint encode_svarint emits_put)
  have alloc: "PB_BYTES_ARRAY_T_ALLOCSIZE n > ucast d \<longleftrightarrow> unat n + 4 > unat d" for n d :: u32
    using unat_lt32 [of n] unat_lt32 [of d]
    by (simp add: PB_BYTES_ARRAY_T_ALLOCSIZE_def word_less_nat_alt unat_add64 unsigned_ucast_eq take_bit_nat_eq_self)
  have str: "emits (total (pb_encode_string bs n)) (varint (length bs) @ bs)" if "n = of_nat (length bs)" for bs n
    using emits_string [OF that refl] .
  consider "?t = PB_LTYPE_VARINT" | "?t = PB_LTYPE_UVARINT" | "?t = PB_LTYPE_SVARINT" | "?t = PB_LTYPE_FIXED32" | "?t = PB_LTYPE_FIXED64"
    | "?t = PB_LTYPE_BYTES" | "?t = PB_LTYPE_STRING" | "?t = PB_LTYPE_FIXED_LENGTH_BYTES"
    using assms by (auto simp: scalar_value_def Let_def split: if_splits)
  then show ?thesis
  proof cases
    case 6
    then have v: "v = P_bytes (if p = 0 then [] else load ?m (p + 4) (unat (load32 ?m p)))"
      using assms by (simp add: scalar_value_def ltypes Let_def split: if_splits)
    have "emits (total (pb_encode_string (load ?m (p + 4) (unat n)) (ucast n)))
        (varint (unat n) @ load ?m (p + 4) (unat n))" for n :: u32
      using str [of "ucast n" "load ?m (p + 4) (unat n)"] by simp
    moreover have "emits (total (pb_encode_string [] 0)) (varint 0)"
      using str [of 0 "[]"] by simp
    moreover have "(total (pb_enc_bytes ?m field p) :: 's enc) =
        (if p = 0 then total (pb_encode_string [] 0)
         else total (pb_encode_string (load ?m (p + 4) (unat (load32 ?m p))) (ucast (load32 ?m p))))"
      using 6 assms by (auto simp: scalar_value_def ltypes Let_def pb_enc_bytes_def total_def fun_eq_iff alloc split: if_splits)
    ultimately show ?thesis
      using 6 v by (cases "p = 0") (simp_all add: PB_ENCODERS_def ltypes)
  next
    case 7
    define n where "n = (if p = 0 then 0 else string_size ?m 0
      (if PB_ATYPE (fd_type field) = PB_ATYPE_POINTER then 0xffffffffffffffff else ucast (fd_data_size field)) p)"
    have "v = P_bytes (load ?m p (unat n))"
      using 7 assms by (simp add: scalar_value_def ltypes Let_def n_def load_def split: if_splits)
    moreover have "(total (pb_enc_string ?m field p) :: 's enc) = total (pb_encode_string (load ?m p (unat n)) n)"
      by (simp add: pb_enc_string_def total_def fun_eq_iff n_def Let_def)
    ultimately show ?thesis
      using 7 str [of n "load ?m p (unat n)"] by (simp add: PB_ENCODERS_def ltypes)
  next
    case 8
    have "v = P_bytes (load ?m p (unat (fd_data_size field)))"
      using 8 assms by (simp add: scalar_value_def ltypes Let_def)
    then show ?thesis
      using 8 str [of "ucast (fd_data_size field)" "load ?m p (unat (fd_data_size field))"]
      by (simp add: PB_ENCODERS_def ltypes pb_enc_fixed_length_bytes_def)
  qed (use assms in \<open>auto simp: scalar_value_def ltypes Let_def PB_ENCODERS_def pb_enc_varint_def pb_enc_uvarint_def
      pb_enc_svarint_def pb_enc_fixed32_def pb_enc_fixed64_def fixed [unfolded total_def [abs_def]] varints [unfolded total_def [abs_def]] total_def [abs_def]\<close>)
qed

text \<open>\<open>sub\<close> stands for \<open>message_at\<close> and \<open>encode\<close> for \<open>pb_encode\<close> one level down.\<close>

definition follows :: "'s encode_fun \<Rightarrow> tree_fun \<Rightarrow> bool" where
  "follows encode sub \<longleftrightarrow> (\<forall>fds src es. sub fds src = Some es \<longrightarrow> emits (encode fds src) (wire_message es))"

lemma emits_value:
  assumes "value_at env sub field p = Some v" "follows encode sub"
  shows "emits (PB_ENCODERS env encode (PB_LTYPE (fd_type field)) field p) (value_bytes (wire_of v))"
proof (cases "PB_LTYPE (fd_type field) = PB_LTYPE_SUBMESSAGE")
  case True
  then obtain es where es: "fd_ptr field \<noteq> 0" "sub (env_fields env (fd_ptr field)) p = Some es" "v = P_message es"
    using assms(1) by (auto simp: value_at_def split: if_splits)
  then have "emits (pb_encode_submessage encode (env_fields env (fd_ptr field)) p) (varint (length (wire_message es)) @ wire_message es)"
    using assms(2) by (intro emits_submessage) (simp add: follows_def)
  then show ?thesis
    using True es by (simp add: PB_ENCODERS_def ltypes pb_enc_submessage_def wire_message_def)
next
  case False
  then show ?thesis
    using assms(1) by (intro emits_scalar) (simp add: value_at_def)
qed

lemma tag_for_value:
  assumes "value_at env sub field p = Some v"
  shows "pb_encode_tag_for_field field = pb_encode_tag (wire_type_of (wire_of v)) (fd_tag field)"
  using assms by (auto simp: value_at_def scalar_value_def pb_encode_tag_for_field_def ltypes Let_def fun_eq_iff split: if_splits)

lemma emits_tagged:
  assumes "value_at env sub field p = Some v" "follows encode sub"
  shows "emits (and_then (total (pb_encode_tag_for_field field)) (PB_ENCODERS env encode (PB_LTYPE (fd_type field)) field p))
    (entry_bytes (P_field (fd_tag field) v))"
proof -
  have "emits (total (pb_encode_tag_for_field field)) (tag_bytes (fd_tag field) (wire_type_of (wire_of v)))"
    using emits_tag [OF wire_type_small] by (simp add: tag_for_value [OF assms(1)])
  then show ?thesis
    using emits_value [OF assms] by (simp add: emits_and_then)
qed

lemma emits_each_entry:
  assumes "\<And>p v. f p = Some v \<Longrightarrow> emits (g p) (h v)"
  shows "collect f data_size k p = Some vs \<Longrightarrow> emits (each_entry g data_size k p) (concat (map h vs))"
proof (induction k arbitrary: p vs)
  case 0
  then show ?case
    by (simp add: emits_nil)
next
  case (Suc k)
  then obtain v vs' where "f p = Some v" "collect f data_size k (p + data_size) = Some vs'" "vs = v # vs'"
    by (auto split: option.splits)
  then show ?case
    using Suc.IH assms emits_and_then by auto
qed

lemma length_collect: "collect f data_size k p = Some vs \<Longrightarrow> length vs = k"
  by (induction k arbitrary: p vs) (auto split: option.splits)

lemma collect_all:
  "collect f data_size k p = Some vs \<Longrightarrow> (\<And>p v. f p = Some v \<Longrightarrow> P v) \<Longrightarrow> \<forall>v \<in> set vs. P v"
  by (induction k arbitrary: p vs) (auto split: option.splits)

text \<open>What \<open>encode_array\<close> does once it knows the size of a packed array.\<close>

definition packed_body :: "'s enc \<Rightarrow> usize \<Rightarrow> 's enc" where
  "packed_body body n s = (case os_callback s of None \<Rightarrow> Some (pb_write [] n s) | Some _ \<Rightarrow> body s)"

lemma emits_packed_body: "emits body bs \<Longrightarrow> emits (packed_body body (of_nat (length bs))) bs"
  by (auto simp: emits_def packed_body_def pb_write_def connected_def)

lemma packed_size_ok:
  assumes "collect (value_at env sub field) (ucast (fd_data_size field)) (unat count) pData = Some vs"
    and "emits (each_entry (func field) (ucast (fd_data_size field)) (unat count) pData) (concat (map (\<lambda>v. value_bytes (wire_of v)) vs))"
    and "length (concat (map (\<lambda>v. value_bytes (wire_of v)) vs)) < 2 ^ 63"
  shows "packed_size field pData count func st = Some (Some (of_nat (length (concat (map (\<lambda>v. value_bytes (wire_of v)) vs)))))"
proof -
  let ?body = "concat (map (\<lambda>v. value_bytes (wire_of v)) vs)"
  have fixed: "of_nat (length ?body) = of_nat c * count"
    if "\<And>p v. value_at env sub field p = Some v \<Longrightarrow> length (value_bytes (wire_of v)) = c" for c
  proof -
    have "\<forall>v \<in> set vs. length (value_bytes (wire_of v)) = c"
      using collect_all [OF assms(1), of "\<lambda>v. length (value_bytes (wire_of v)) = c"] that by blast
    then have "length ?body = c * length vs"
      by (induction vs) auto
    then show ?thesis
      using length_collect [OF assms(1)] by simp
  qed
  consider "PB_LTYPE (fd_type field) = PB_LTYPE_FIXED32" | "PB_LTYPE (fd_type field) = PB_LTYPE_FIXED64"
    | "PB_LTYPE (fd_type field) \<noteq> PB_LTYPE_FIXED32" "PB_LTYPE (fd_type field) \<noteq> PB_LTYPE_FIXED64"
    by blast
  then show ?thesis
  proof cases
    case 1
    then show ?thesis
      using fixed [of 4] by (auto simp: packed_size_def value_at_def scalar_value_def ltypes fixed32_def)
  next
    case 2
    then show ?thesis
      using fixed [of 8] by (auto simp: packed_size_def value_at_def scalar_value_def ltypes fixed64_def)
  next
    case 3
    then show ?thesis
      using emits_sizing [OF assms(2,3), of "pb_ostream_sizing st"]
      by (simp add: packed_size_def pb_ostream_sizing_def)
  qed
qed

lemma emits_packed:
  assumes "collect (value_at env sub field) (ucast (fd_data_size field)) (unat count) pData = Some vs" "follows encode sub"
    and "count \<noteq> 0" "PB_ATYPE (fd_type field) = PB_ATYPE_POINTER \<or> count \<le> ucast (fd_array_size field)"
    and "PB_LTYPE (fd_type field) \<le> PB_LTYPE_LAST_PACKABLE"
  shows "emits (encode_array m field pData count (PB_ENCODERS env encode (PB_LTYPE (fd_type field))))
    (entry_bytes (P_field (fd_tag field) (P_packed vs)))"
proof -
  let ?func = "PB_ENCODERS env encode (PB_LTYPE (fd_type field))"
  let ?body = "concat (map (\<lambda>v. value_bytes (wire_of v)) vs)"
  let ?loop = "each_entry (?func field) (ucast (fd_data_size field)) (unat count) pData"
  have loop: "emits ?loop ?body"
    using assms(1) emits_value [OF _ assms(2)] by (rule emits_each_entry [rotated])
  have bytes: "entry_bytes (P_field (fd_tag field) (P_packed vs)) =
      tag_bytes (fd_tag field) PB_WT_STRING @ varint (length ?body) @ ?body"
    by simp
  show ?thesis
  proof (cases "length ?body < 2 ^ 63")
    case True
    have size: "packed_size field pData count ?func st = Some (Some (of_nat (length ?body)))" for st
      using assms(1) loop True by (rule packed_size_ok)
    have "encode_array m field pData count ?func =
        and_then (total (pb_encode_tag PB_WT_STRING (fd_tag field)))
          (and_then (total (pb_encode_varint (of_nat (length ?body)))) (packed_body ?loop (of_nat (length ?body))))"
      using assms(3-5) by (auto simp: encode_array_def size and_then_def total_def packed_body_def fun_eq_iff
          split: prod.splits option.splits)
    moreover have "emits (total (pb_encode_varint (of_nat (length ?body)))) (varint (length ?body))"
      using emits_put [of "varint (length ?body)"] True by (simp add: encode_varint unat_of_nat_small del: length_concat)
    moreover have "emits (total (pb_encode_tag PB_WT_STRING (fd_tag field))) (tag_bytes (fd_tag field) PB_WT_STRING)"
      by (rule emits_tag) (simp add: PB_WT_STRING_def)
    ultimately show ?thesis
      unfolding bytes using emits_packed_body [OF loop] by (simp add: emits_and_then del: length_concat)
  qed (simp add: emits_def bytes del: length_concat)
qed

lemma emits_unpacked:
  assumes "collect (\<lambda>p. value_at env sub field (deref p)) data_size k pData = Some vs" "follows encode sub"
  shows "emits (each_entry (\<lambda>p. and_then (total (pb_encode_tag_for_field field))
      (PB_ENCODERS env encode (PB_LTYPE (fd_type field)) field (deref p))) data_size k pData)
    (wire_message (map (P_field (fd_tag field)) vs))"
proof -
  have "emits (each_entry (\<lambda>p. and_then (total (pb_encode_tag_for_field field))
      (PB_ENCODERS env encode (PB_LTYPE (fd_type field)) field (deref p))) data_size k pData)
    (concat (map (\<lambda>v. entry_bytes (P_field (fd_tag field) v)) vs))"
    using emits_tagged [OF _ assms(2)] assms(1) by (rule emits_each_entry)
  then show ?thesis
    by (simp add: wire_message_def comp_def)
qed

lemma emits_array:
  assumes "array_entries m field pData count (value_at env sub field) = Some es" "follows encode sub"
  shows "emits (encode_array m field pData count (PB_ENCODERS env encode (PB_LTYPE (fd_type field)))) (wire_message es)"
proof -
  let ?func = "PB_ENCODERS env encode (PB_LTYPE (fd_type field))"
  let ?pointers = "PB_ATYPE (fd_type field) = PB_ATYPE_POINTER \<and>
    (PB_LTYPE (fd_type field) = PB_LTYPE_STRING \<or> PB_LTYPE (fd_type field) = PB_LTYPE_BYTES)"
  consider "count = 0" "es = []"
    | vs where "count \<noteq> 0" "PB_ATYPE (fd_type field) = PB_ATYPE_POINTER \<or> count \<le> ucast (fd_array_size field)"
        "PB_LTYPE (fd_type field) \<le> PB_LTYPE_LAST_PACKABLE" "es = [P_field (fd_tag field) (P_packed vs)]"
        "collect (value_at env sub field) (ucast (fd_data_size field)) (unat count) pData = Some vs"
    | vs where "count \<noteq> 0" "PB_ATYPE (fd_type field) = PB_ATYPE_POINTER \<or> count \<le> ucast (fd_array_size field)"
        "\<not> PB_LTYPE (fd_type field) \<le> PB_LTYPE_LAST_PACKABLE" "es = map (P_field (fd_tag field)) vs"
        "collect (\<lambda>p. value_at env sub field (if ?pointers then load64 m p else p)) (ucast (fd_data_size field)) (unat count) pData = Some vs"
    using assms(1) by (auto simp: array_entries_def not_less split: if_splits)
  then show ?thesis
  proof cases
    case 1
    have "encode_array m field pData count ?func = ret_true"
      using 1 by (simp add: encode_array_def fun_eq_iff)
    then show ?thesis
      using 1 emits_nil by simp
  next
    case 2
    then show ?thesis
      using emits_packed [OF 2(5) assms(2) 2(1-3)] by simp
  next
    case 3
    have "encode_array m field pData count ?func =
        each_entry (\<lambda>p. and_then (total (pb_encode_tag_for_field field)) (?func field (if ?pointers then load64 m p else p)))
          (ucast (fd_data_size field)) (unat count) pData"
      using 3(1-3) by (auto simp: encode_array_def fun_eq_iff if_distrib [of "?func field"])
    then show ?thesis
      using emits_unpacked [OF 3(5) assms(2)] 3(4) by simp
  qed
qed

section \<open>Fields\<close>

lemma emits_basic_field:
  assumes "basic_entries n env sub field pData = Some es" "follows encode sub"
  shows "emits (encode_basic_field n env encode field pData) (wire_message es)"
proof -
  let ?m = "env_mem env" and ?h = "PB_HTYPE (fd_type field)" and ?pointer = "PB_ATYPE (fd_type field) = PB_ATYPE_POINTER"
  let ?dat = "if ?pointer then load64 ?m pData else pData"
  let ?one = "and_then (total (pb_encode_tag_for_field field)) (PB_ENCODERS env encode (PB_LTYPE (fd_type field)) field ?dat)"
  have one: "emits ?one (wire_message [P_field (fd_tag field) v])" if "value_at env sub field ?dat = Some v" for v
    using emits_tagged [OF that assms(2)] by simp
  have distinct: "PB_HTYPE_REQUIRED \<noteq> PB_HTYPE_OPTIONAL" "PB_HTYPE_REPEATED \<noteq> PB_HTYPE_OPTIONAL" "PB_HTYPE_REPEATED \<noteq> PB_HTYPE_REQUIRED"
    "PB_HTYPE_ONEOF \<noteq> PB_HTYPE_OPTIONAL" "PB_HTYPE_ONEOF \<noteq> PB_HTYPE_REQUIRED" "PB_HTYPE_ONEOF \<noteq> PB_HTYPE_REPEATED"
    by (simp_all add: htypes)
  note distinct = this this [symmetric]
  show ?thesis
    using htype_cases [of "fd_type field"]
  proof cases
    case 1
    then show ?thesis
      using assms(1) one by (auto simp: basic_entries_def encode_basic_field_def distinct Let_def split: if_splits option.splits)
  next
    case 2
    then show ?thesis
      using assms(1) one emits_nil by (auto simp: basic_entries_def encode_basic_field_def distinct Let_def split: if_splits option.splits)
  next
    case 3
    then show ?thesis
      using assms emits_array [of ?m field ?dat _ env sub es encode]
      by (auto simp: basic_entries_def encode_basic_field_def distinct Let_def split: if_splits)
  next
    case 4
    then show ?thesis
      using assms(1) one emits_nil by (auto simp: basic_entries_def encode_basic_field_def distinct Let_def split: if_splits)
  qed
qed

end

section \<open>Messages\<close>

text \<open>
  The contract of the functions a message points to: each writes its output to any stream it is
  given, in the way the library writes its own.
\<close>

locale encoding = sink put stored space
  for put :: "'s \<Rightarrow> bytes \<Rightarrow> bool \<times> 's" and stored :: "'s \<Rightarrow> bytes" and space :: "'s \<Rightarrow> nat" +
  fixes env :: "'s pb_env" and out :: callback_out and ext_out :: "addr \<Rightarrow> addr \<Rightarrow> bytes option"
  assumes callback_emits: "out f field arg = Some bs \<Longrightarrow> emits (total (env_callback env f field arg)) bs"
    and extension_emits: "ext_out f extension = Some bs \<Longrightarrow> emits (total (env_extension env f extension)) bs"
begin

lemma emits_callback_field:
  assumes "out (load64 (env_mem env) pData) field (pData + 8) = Some bs" "load64 (env_mem env) pData \<noteq> 0"
  shows "emits (total (encode_callback_field env field pData)) bs"
proof -
  let ?f = "env_callback env (load64 (env_mem env) pData) field (pData + 8)"
  have f: "emits (total ?f) bs"
    using assms(1) by (rule callback_emits)
  have eq: "total (encode_callback_field env field pData) s =
      (case ?f s of (None, s) \<Rightarrow> Some (os_error ''callback error'' s) | (Some _, s) \<Rightarrow> Some (Some (), s))" for s
    using assms(2) by (simp add: total_def encode_callback_field_def split: prod.splits option.splits)
  show ?thesis
    unfolding emits_def
  proof (intro impI conjI allI)
    assume len: "length bs < 2 ^ 63"
    show "total (encode_callback_field env field pData) s = Some (Some (), s\<lparr>os_bytes_written := os_bytes_written s + of_nat (length bs)\<rparr>)"
      if "os_callback s = None" for s
      using emits_sizing [OF f len that] unfolding eq by (simp add: total_def)
    show "\<exists>s'. total (encode_callback_field env field pData) s = Some (Some (), s') \<and> after s bs s'"
      if s: "connected s" "length bs \<le> room s" for s
    proof -
      obtain s' where "?f s = (Some (), s')" "after s bs s'"
        using emits_room [OF f len s] by (auto simp: total_def)
      then show ?thesis
        unfolding eq by simp
    qed
    show "\<exists>s' ys zs. total (encode_callback_field env field pData) s = Some (None, s') \<and> bs = ys @ zs \<and> after s ys s'"
      if s: "connected s" "room s < length bs" for s
    proof -
      obtain s' ys zs where s': "?f s = (None, s')" "bs = ys @ zs" "after s ys s'"
        using emits_full [OF f len s] by (metis option.inject total_def)
      have "fst (os_error ''callback error'' s' :: unit option \<times> 's ostream) = None"
        by (simp add: os_error_def)
      moreover have "after s ys (snd (os_error ''callback error'' s' :: unit option \<times> 's ostream))"
        using s'(3) by (simp add: after_error)
      ultimately show ?thesis
        unfolding eq s'(1) using s'(2) by (simp, metis prod.collapse)
    qed
  qed
qed

lemma emits_field:
  assumes "field_entries n env out sub field pData = Some es" "follows encode sub"
  shows "emits (encode_field n env encode field pData) (wire_message es)"
proof -
  consider "PB_ATYPE (fd_type field) = PB_ATYPE_STATIC \<or> PB_ATYPE (fd_type field) = PB_ATYPE_POINTER"
      "basic_entries n env sub field pData = Some es"
    | "PB_ATYPE (fd_type field) = PB_ATYPE_CALLBACK" "load64 (env_mem env) pData = 0" "es = []"
    | bs where "PB_ATYPE (fd_type field) = PB_ATYPE_CALLBACK" "load64 (env_mem env) pData \<noteq> 0" "es = [P_raw bs]"
      "out (load64 (env_mem env) pData) field (pData + 8) = Some bs"
    using assms(1) by (auto simp: field_entries_def Let_def split: if_splits)
  then show ?thesis
  proof cases
    case 1
    then show ?thesis
      using emits_basic_field [OF 1(2) assms(2)] by (auto simp: encode_field_def)
  next
    case 2
    then have "encode_field n env encode field pData = ret_true"
      by (simp add: encode_field_def encode_callback_field_def atypes total_def ret_true_def fun_eq_iff)
    then show ?thesis
      using 2 emits_nil by simp
  next
    case 3
    then have "encode_field n env encode field pData = total (encode_callback_field env field pData)"
      by (simp add: encode_field_def atypes)
    then show ?thesis
      using 3 emits_callback_field by simp
  qed
qed

lemma emits_extensions:
  "extension_entries k n env out ext_out sub extension = Some es \<Longrightarrow> follows encode sub \<Longrightarrow>
    emits (extension_loop k n env encode extension) (wire_message es)"
proof (induction k arbitrary: extension es)
  case (Suc k)
  show ?case
  proof (cases "extension = 0")
    case True
    then show ?thesis
      using Suc.prems emits_nil by simp
  next
    case False
    let ?m = "env_mem env"
    let ?f = "load64 ?m (load64 ?m extension + 8)"
    let ?field = "hd (env_fields env (load64 ?m (load64 ?m extension + 16)))"
    let ?here = "if ?f \<noteq> 0 then map_option (\<lambda>bs. [P_raw bs]) (ext_out ?f extension)
      else field_entries n env out sub ?field
        (if PB_ATYPE (fd_type ?field) = PB_ATYPE_POINTER then extension + 8 else load64 ?m (extension + 8))"
    let ?step = "if ?f \<noteq> 0 then total (env_extension env ?f extension) else default_extension_encoder n env encode extension"
    obtain es1 es2 where es: "?here = Some es1" "extension_entries k n env out ext_out sub (load64 ?m (extension + 16)) = Some es2"
        "es = es1 @ es2"
      using Suc.prems(1) False by (auto simp: Let_def split: option.splits)
    have "emits ?step (wire_message es1)"
    proof (cases "?f = 0")
      case True
      then show ?thesis
        using es(1) emits_field [OF _ Suc.prems(2), of n ?field _ es1] by (auto simp: default_extension_encoder_def Let_def split: if_splits)
    next
      case False
      then show ?thesis
        using es(1) extension_emits by auto
    qed
    then show ?thesis
      using False es(3) emits_and_then [OF _ Suc.IH [OF es(2) Suc.prems(2)]] by (simp add: Let_def)
  qed
qed simp

lemma emits_loop:
  "entries_loop k n env out ext_out sub iter = Some es \<Longrightarrow> follows encode sub \<Longrightarrow>
    emits (encode_loop k n env encode iter) (wire_message es)"
proof (induction k arbitrary: iter es)
  case (Suc k)
  let ?here = "if PB_LTYPE (fd_type (cur iter)) = PB_LTYPE_EXTENSION
    then extension_entries n n env out ext_out sub (load64 (env_mem env) (it_pData iter))
    else field_entries n env out sub (cur iter) (it_pData iter)"
  let ?step = "if PB_LTYPE (fd_type (cur iter)) = PB_LTYPE_EXTENSION then encode_extension_field n env encode (it_pData iter)
    else encode_field n env encode (cur iter) (it_pData iter)"
  obtain more iter' where nxt: "pb_field_iter_next iter = (more, iter')"
    by fastforce
  obtain es1 es2 where es: "?here = Some es1" "es = es1 @ es2"
      "if more then entries_loop k n env out ext_out sub iter' = Some es2 else es2 = []"
    using Suc.prems(1) nxt by (cases more) (auto split: option.splits)
  have "emits ?step (wire_message es1)"
    using es(1) emits_extensions [OF _ Suc.prems(2)] emits_field [OF _ Suc.prems(2)]
    by (auto simp: encode_extension_field_def split: if_splits)
  moreover have "emits (if more then encode_loop k n env encode iter' else ret_true) (wire_message es2)"
    using es(3) Suc.IH [OF _ Suc.prems(2)] emits_nil by (auto split: if_splits)
  ultimately have "emits (and_then ?step (if more then encode_loop k n env encode iter' else ret_true)) (wire_message es)"
    using es(2) emits_and_then by simp
  then show ?case
    using nxt by (cases more) simp_all
qed simp

lemma pb_encode_follows: "follows (pb_encode n env) (message_at n env out ext_out)"
proof (induction n)
  case 0
  then show ?case
    by (simp add: follows_def)
next
  case (Suc n)
  show ?case
    unfolding follows_def
  proof (intro allI impI)
    fix fds src es
    assume m: "message_at (Suc n) env out ext_out fds src = Some es"
    obtain more iter where b: "pb_field_iter_begin fds src = (more, iter)"
      by fastforce
    show "emits (pb_encode (Suc n) env fds src) (wire_message es)"
      using m b emits_nil emits_loop [OF _ Suc.IH] by (cases more) auto
  qed
qed

end

end
