(* ===== verification/Nanopb_Encode_Props.thy ===== *)
theory Nanopb_Encode_Props
  imports Nanopb_Encode_Correct
begin

text \<open>
  The guarantees of the message encoder over a buffer, with the callback by which the ALTS handshake
  of gRPC (\<open>alts_handshaker_service_api_util.cc\<close>) encodes its strings.
\<close>

section \<open>The callback of the ALTS handshaker\<close>

text \<open>
  \<open>grpc_slice\<close>: \<open>refcount\<close> at offset 0; then, if that is not null, \<open>bytes\<close> at 8 and \<open>length\<close> at 16, and
  otherwise the length in one byte at 8 and the bytes from 9.
\<close>

definition slice_bytes :: "memory \<Rightarrow> addr \<Rightarrow> bytes" where
  "slice_bytes m sl =
     (if load64 m sl \<noteq> 0 then load m (load64 m (sl + 8)) (unat (load64 m (sl + 16)))
      else load m (sl + 9) (unat (m (sl + 8))))"

definition encode_string_or_bytes_cb :: "memory \<Rightarrow> pb_field \<Rightarrow> addr \<Rightarrow> 's ostream \<Rightarrow> unit option \<times> 's ostream" where
  "encode_string_or_bytes_cb m field arg =
     (let sl = load64 m arg
      in andthen (pb_encode_tag_for_field field)
           (\<lambda>_. pb_encode_string (slice_bytes m sl) (of_nat (length (slice_bytes m sl)))))"

text \<open>A program in which \<open>cb\<close> is the address of that function, and the only one its messages use.\<close>

definition alts_env :: "memory \<Rightarrow> (addr \<Rightarrow> pb_field list) \<Rightarrow> addr \<Rightarrow> 's pb_env" where
  "alts_env m descriptors cb =
     \<lparr>env_mem = m, env_fields = descriptors,
      env_callback = (\<lambda>f field arg. if f = cb then encode_string_or_bytes_cb m field arg else Pair None),
      env_extension = (\<lambda>_ _. Pair None)\<rparr>"

definition alts_out :: "memory \<Rightarrow> addr \<Rightarrow> callback_out" where
  "alts_out m cb f field arg =
     (if f = cb \<and> PB_LTYPE (fd_type field) \<in> {PB_LTYPE_BYTES, PB_LTYPE_STRING}
      then Some (field_bytes (fd_tag field, W_string (slice_bytes m (load64 m arg)))) else None)"


context sink begin

lemma emits_alts:
  assumes "alts_out m cb f field arg = Some bs"
  shows "emits (total (env_callback (alts_env m descriptors cb) f field arg)) bs"
proof -
  let ?s = "slice_bytes m (load64 m arg)"
  have f: "f = cb" "PB_LTYPE (fd_type field) = PB_LTYPE_BYTES \<or> PB_LTYPE (fd_type field) = PB_LTYPE_STRING"
      "bs = tag_bytes (fd_tag field) PB_WT_STRING @ varint (length ?s) @ ?s"
    using assms by (auto simp: alts_out_def split: if_splits)
  have "emits (total (pb_encode_tag_for_field field)) (tag_bytes (fd_tag field) PB_WT_STRING)"
    using f(2) emits_tag [of PB_WT_STRING "fd_tag field"]
    by (auto simp: pb_encode_tag_for_field_def [abs_def] ltypes wire_types total_def [abs_def])
  from emits_and_then [OF this emits_string [OF refl refl, of ?s]] show ?thesis
    using f(1,3) by (simp add: alts_env_def encode_string_or_bytes_cb_def Let_def total_andthen)
qed

end

interpretation alts: encoding buf_write "\<lambda>(dest, pos). take pos dest" "\<lambda>(dest, pos). length dest - pos"
    "alts_env m descriptors cb" "alts_out m cb" "\<lambda>_ _. None" for m descriptors cb
  by unfold_locales (simp_all add: buffer.emits_alts)

section \<open>Encoding into a buffer\<close>

text \<open>The contract of the callbacks, for streams over buffers.\<close>

abbreviation buffer_encoding :: "buffer_state pb_env \<Rightarrow> callback_out \<Rightarrow> (addr \<Rightarrow> addr \<Rightarrow> bytes option) \<Rightarrow> bool" where
  "buffer_encoding \<equiv> encoding buf_write (\<lambda>(dest, pos). take pos dest) (\<lambda>(dest, pos). length dest - pos)"

lemma buffer_connected:
  "length buf < 2 ^ 63 \<Longrightarrow> buffer.connected (pb_ostream_from_buffer buf (of_nat (length buf)))"
  "length buf < 2 ^ 63 \<Longrightarrow> buffer.room (pb_ostream_from_buffer buf (of_nat (length buf))) = length buf"
  by (simp_all add: buffer.connected_def buffer.room_def pb_ostream_from_buffer_def unat_of_nat_small)

lemma buffer_after:
  assumes "buffer.after (pb_ostream_from_buffer buf (of_nat (length buf))) ys s" "length buf < 2 ^ 63" "os_state s = (dest, pos)"
  shows "take (length ys) dest = ys" "length dest = length buf" "unat (os_bytes_written s) = length ys"
proof -
  have o: "os_state (pb_ostream_from_buffer buf n) = (buf, 0)" "os_bytes_written (pb_ostream_from_buffer buf n) = 0" for n
    by (simp_all add: pb_ostream_from_buffer_def)
  have le: "length ys \<le> length buf"
    using assms(1) buffer_connected(2) [OF assms(2)] by (simp add: buffer.after_def)
  have ys: "ys = take pos dest" and space: "length dest - pos = length buf - length ys"
    using assms(1,3) by (simp_all add: buffer.after_def o)
  have len: "length ys = min (length dest) pos"
    by (simp add: ys)
  show "unat (os_bytes_written s) = length ys"
    using assms(1) by (simp add: buffer.after_def o)
  show "take (length ys) dest = ys"
    unfolding len ys by (cases "pos \<le> length dest") (simp_all add: min_def)
  show "length dest = length buf"
    using le space len by linarith
qed



text \<open>
  A structure with a required \<open>uint32\<close> and a string that a callback encodes, and the two bytes of
  the string in an inlined slice.
\<close>

definition sample_fields :: "pb_field list" where
  "sample_fields =
     [\<lparr>fd_tag = 1, fd_type = 0x01, fd_data_offset = 0, fd_size_offset = 0, fd_data_size = 4, fd_array_size = 0, fd_ptr = 0\<rparr>,
      \<lparr>fd_tag = 2, fd_type = 0x56, fd_data_offset = 4, fd_size_offset = 0, fd_data_size = 16, fd_array_size = 0, fd_ptr = 0\<rparr>,
      PB_LAST_FIELD]"

definition sample_memory :: memory where
  "sample_memory = store 0x1000 [0x2c, 1, 0, 0, 0, 0, 0, 0, 0, 5, 0, 0, 0, 0, 0, 0, 0, 0x20, 0, 0, 0, 0, 0, 0]
     (store 0x2008 [2, 7, 8] (\<lambda>_. 0))"

lemmas load_simps = load_def load16_def load32_def load64_def upt_rec

lemma sample_loads:
  "load32 sample_memory 0x1000 = 300" "load64 sample_memory 0x1008 = 0x500" "load64 sample_memory 0x1010 = 0x2000"
  "load64 sample_memory 0x2000 = 0" "sample_memory 0x2008 = 2" "load sample_memory 0x2009 2 = [7, 8]"
  by (simp_all add: load_simps sample_memory_def)

lemma sample_iter:
  obtains i0 i1 i2 where "pb_field_iter_begin sample_fields 0x1000 = (True, i0)"
    "pb_field_iter_next i0 = (True, i1)" "pb_field_iter_next i1 = (False, i2)"
    "cur i0 = sample_fields ! 0" "cur i1 = sample_fields ! 1" "it_pData i0 = 0x1000" "it_pData i1 = 0x1008"
  by (simp add: sample_fields_def pb_field_iter_begin_def pb_field_iter_next_def PB_LAST_FIELD_def cur_def
      PB_HTYPE_def PB_ATYPE_def htypes atypes Let_def)

lemma sample_entries:
  "field_entries n (alts_env sample_memory descriptors 0x500) out sub (sample_fields ! 0) 0x1000 = Some [P_field 1 (P_varint 300)]"
  "field_entries n (alts_env sample_memory descriptors 0x500) (alts_out sample_memory 0x500) sub (sample_fields ! Suc 0) 0x1008 =
     Some [P_raw [0x12, 2, 7, 8]]"
proof -
  show "field_entries n (alts_env sample_memory descriptors 0x500) out sub (sample_fields ! 0) 0x1000 = Some [P_field 1 (P_varint 300)]"
    by (simp add: field_entries_def basic_entries_def value_at_def scalar_value_def read_unsigned_def alts_env_def sample_fields_def
        PB_LTYPE_def PB_HTYPE_def PB_ATYPE_def ltypes htypes atypes sample_loads)
  have "slice_bytes sample_memory 0x2000 = [7, 8]"
    by (simp add: slice_bytes_def sample_loads)
  then show "field_entries n (alts_env sample_memory descriptors 0x500) (alts_out sample_memory 0x500) sub (sample_fields ! Suc 0) 0x1008 =
     Some [P_raw [0x12, 2, 7, 8]]"
    by (simp add: field_entries_def alts_env_def alts_out_def sample_fields_def
        PB_LTYPE_def PB_ATYPE_def ltypes atypes sample_loads tag_bytes_def PB_WT_STRING_def varint_step)
qed

lemma sample_message:
  "message_at (Suc n) (alts_env sample_memory descriptors 0x500) (alts_out sample_memory 0x500) (\<lambda>_ _. None) sample_fields 0x1000 =
    Some [P_field 1 (P_varint 300), P_raw [0x12, 2, 7, 8]]"
proof -
  have "length sample_fields = Suc (Suc (Suc 0))" "PB_LTYPE (fd_type (sample_fields ! 0)) \<noteq> PB_LTYPE_EXTENSION"
      "PB_LTYPE (fd_type (sample_fields ! 1)) \<noteq> PB_LTYPE_EXTENSION"
    by (simp_all add: sample_fields_def PB_LTYPE_def ltypes)
  then show ?thesis
    by (rule_tac sample_iter) (simp add: sample_entries)
qed

lemma sample_wire:
  "wire_message [P_field 1 (P_varint 300), P_raw [0x12, 2, 7, 8]] = [0x08, 0xac, 2, 0x12, 2, 7, 8]"
  "length (wire_message [P_field 1 (P_varint 300), P_raw [0x12, 2, 7, 8]]) = 7"
  by (simp_all add: tag_bytes_def PB_WT_VARINT_def varint_step)



section \<open>Pointer fields in proto3 submessages\<close>

text \<open>
  A message with one optional submessage that has no \<open>has_\<close> field, as proto3 has them, and in the
  submessage one optional \<open>bool\<close> behind a pointer; the pointer is 0x2000 and the \<open>bool\<close> is true.
\<close>

definition inner_fields :: "pb_field list" where
  "inner_fields =
     [\<lparr>fd_tag = 1, fd_type = 0x90, fd_data_offset = 0, fd_size_offset = 0, fd_data_size = 1, fd_array_size = 0, fd_ptr = 0\<rparr>,
      PB_LAST_FIELD]"

definition outer_fields :: "pb_field list" where
  "outer_fields =
     [\<lparr>fd_tag = 1, fd_type = 0x17, fd_data_offset = 0, fd_size_offset = 0, fd_data_size = 8, fd_array_size = 0, fd_ptr = 0x40\<rparr>,
      PB_LAST_FIELD]"

definition pointer_memory :: memory where
  "pointer_memory = store 0x1000 [0, 0x20, 0, 0, 0, 0, 0, 0] (store 0x2000 [1] (\<lambda>_. 0))"

definition pointer_env :: "'s pb_env" where
  "pointer_env = alts_env pointer_memory (\<lambda>p. if p = 0x40 then inner_fields else outer_fields) 0x500"

lemma pointer_loads: "load64 pointer_memory 0x1000 = 0x2000" "pointer_memory 0x2000 = 1" "pointer_memory 0x1000 = 0"
  by (simp_all add: load_simps pointer_memory_def)

lemma single_field:
  "pb_field_iter_begin [f, PB_LAST_FIELD] src = (True, iter) \<Longrightarrow>
    cur iter = f \<and> it_pData iter = src + ucast (fd_data_offset f) \<and> fst (pb_field_iter_next iter) = False"
  by (auto simp: pb_field_iter_begin_def pb_field_iter_next_def PB_LAST_FIELD_def cur_def Let_def)

lemma encode_single_field:
  assumes "fd_tag f \<noteq> 0" "PB_LTYPE (fd_type f) \<noteq> PB_LTYPE_EXTENSION" "fd_data_offset f = 0"
  shows "pb_encode (Suc n) env [f, PB_LAST_FIELD] src s = and_then (encode_field n env (pb_encode n env) f src) ret_true s"
proof -
  obtain iter where b: "pb_field_iter_begin [f, PB_LAST_FIELD] src = (True, iter)"
    using assms(1) by (auto simp: pb_field_iter_begin_def Let_def)
  obtain it' where "pb_field_iter_next iter = (False, it')"
    using single_field [OF b] by (metis prod.collapse)
  then show ?thesis
    using b single_field [OF b] assms by simp
qed

lemma inner_is_default:
  "pb_check_proto3_default_value (Suc (Suc n)) pointer_env (hd outer_fields) 0x1000 = Some True"
  by (simp add: outer_fields_def inner_fields_def pointer_env_def alts_env_def pointer_loads pb_field_iter_begin_def
      pb_field_iter_next_def PB_LAST_FIELD_def cur_def PB_HTYPE_def PB_ATYPE_def PB_LTYPE_def htypes atypes ltypes load_def Let_def)


end
