(* ===== verification/Nanopb_Decode.thy ===== *)
theory Nanopb_Decode
  imports Nanopb_Message Nanopb_Wire
begin

text \<open>
  The message decoder of \<open>pb_decode.c\<close>, built with \<open>PB_ENABLE_MALLOC\<close>.

  A step works on the input stream, the memory and the state of the C library's allocator.  It is a
  function to an option: \<open>None\<close> when the C code does not return normally (nesting deeper than the
  fuel, a call through a missing decoder, a division by zero), and otherwise \<open>Some\<close> or \<open>None\<close> for
  \<open>true\<close> or \<open>false\<close>, and the state it leaves.  \<open>realloc\<close>, \<open>free\<close> and the functions that messages
  point to are parameters.  A stream callback that fails stores nothing.
\<close>

section \<open>State and steps\<close>

text \<open>\<open>ds_fixed\<close> is the variable \<open>fixed_count_size\<close> of the innermost call of \<open>pb_decode_noinit\<close>.\<close>

record ('s, 'h) dstate =
  ds_in :: "'s istream"
  ds_mem :: memory
  ds_heap :: 'h
  ds_fixed :: u32

type_synonym ('s, 'h, 'a) dec = "('s, 'h) dstate \<Rightarrow> ('a option \<times> ('s, 'h) dstate) option"

record ('s, 'h) dec_env =
  de_fields :: "addr \<Rightarrow> pb_field list"
  de_realloc :: "addr \<Rightarrow> usize \<Rightarrow> memory \<times> 'h \<Rightarrow> addr \<times> memory \<times> 'h"
  de_free :: "addr \<Rightarrow> memory \<times> 'h \<Rightarrow> memory \<times> 'h"
  de_callback :: "addr \<Rightarrow> pb_field \<Rightarrow> addr \<Rightarrow> ('s, 'h, unit) dec"
  de_extension :: "addr \<Rightarrow> addr \<Rightarrow> u32 \<Rightarrow> wire_type \<Rightarrow> ('s, 'h, unit) dec"

definition d_ret :: "'a \<Rightarrow> ('s, 'h, 'a) dec" where
  "d_ret x d = Some (Some x, d)"

definition d_bind :: "('s, 'h, 'a) dec \<Rightarrow> ('a \<Rightarrow> ('s, 'h, 'b) dec) \<Rightarrow> ('s, 'h, 'b) dec" where
  "d_bind m f d =
     (case m d of
        None \<Rightarrow> None
      | Some (None, d) \<Rightarrow> Some (None, d)
      | Some (Some x, d) \<Rightarrow> f x d)"

definition on_stream :: "('s istream \<Rightarrow> 'a option \<times> 's istream) \<Rightarrow> ('s, 'h, 'a) dec" where
  "on_stream f d = (case f (ds_in d) of (r, stream) \<Rightarrow> Some (r, d\<lparr>ds_in := stream\<rparr>))"

definition d_error :: "string \<Rightarrow> ('s, 'h, 'a) dec" where
  "d_error msg = on_stream (is_error msg)"

definition d_store :: "addr \<Rightarrow> bytes \<Rightarrow> ('s, 'h, unit) dec" where
  "d_store a bs d = Some (Some (), d\<lparr>ds_mem := store a bs (ds_mem d)\<rparr>)"

definition d_mem :: "(memory \<Rightarrow> memory option) \<Rightarrow> ('s, 'h, unit) dec" where
  "d_mem f d = (case f (ds_mem d) of None \<Rightarrow> None | Some m \<Rightarrow> Some (Some (), d\<lparr>ds_mem := m\<rparr>))"

definition d_heap :: "(memory \<times> 'h \<Rightarrow> (memory \<times> 'h) option) \<Rightarrow> ('s, 'h, unit) dec" where
  "d_heap f d =
     (case f (ds_mem d, ds_heap d) of
        None \<Rightarrow> None
      | Some (m, h) \<Rightarrow> Some (Some (), d\<lparr>ds_mem := m, ds_heap := h\<rparr>))"

text \<open>Stores of 32 and 64 bits.\<close>

definition bytes32 :: "u32 \<Rightarrow> bytes" where "bytes32 v = le_bytes 4 (unat v)"
definition bytes64 :: "u64 \<Rightarrow> bytes" where "bytes64 v = le_bytes 8 (unat v)"

text \<open>\<open>iter->pSize\<close>: a cell of the message, or the variable \<open>fixed_count_size\<close>.\<close>

datatype size_ref = At addr | Fixed_count

definition read_size :: "size_ref \<Rightarrow> ('s, 'h) dstate \<Rightarrow> u32" where
  "read_size r d = (case r of At a \<Rightarrow> load32 (ds_mem d) a | Fixed_count \<Rightarrow> ds_fixed d)"

definition write_size :: "size_ref \<Rightarrow> u32 \<Rightarrow> ('s, 'h, unit) dec" where
  "write_size r v =
     (case r of At a \<Rightarrow> d_store a (bytes32 v) | Fixed_count \<Rightarrow> (\<lambda>d. Some (Some (), d\<lparr>ds_fixed := v\<rparr>)))"

section \<open>Scalar fields\<close>

text \<open>The cast to the size of the field and back to 64 bits.\<close>

definition narrow_signed :: "u32 \<Rightarrow> u64 \<Rightarrow> u64 option" where
  "narrow_signed data_size v =
     (if data_size = 8 then Some v
      else if data_size = 4 then Some (scast (ucast v :: u32))
      else if data_size = 2 then Some (scast (ucast v :: u16))
      else if data_size = 1 then Some (scast (ucast v :: u8))
      else None)"

definition narrow_unsigned :: "u32 \<Rightarrow> u64 \<Rightarrow> u64 option" where
  "narrow_unsigned data_size v =
     (if data_size = 8 then Some v
      else if data_size = 4 then Some (ucast (ucast v :: u32))
      else if data_size = 2 then Some (ucast (ucast v :: u16))
      else if data_size = 1 then Some (ucast (ucast v :: u8))
      else None)"

definition store_narrow :: "pb_field \<Rightarrow> addr \<Rightarrow> u64 \<Rightarrow> u64 option \<Rightarrow> ('s, 'h, unit) dec" where
  "store_narrow field dest v clamped =
     (case clamped of
        None \<Rightarrow> d_error ''invalid data_size''
      | Some c \<Rightarrow> d_bind (d_store dest (le_bytes (unat (fd_data_size field)) (unat v)))
          (\<lambda>_. if c \<noteq> v then d_error ''integer too large'' else d_ret ()))"

definition pb_dec_varint :: "pb_field \<Rightarrow> addr \<Rightarrow> ('s, 'h, unit) dec" where
  "pb_dec_varint field dest = d_bind (on_stream pb_decode_varint) (\<lambda>value.
     let svalue = (if fd_data_size field = 8 then value else scast (ucast value :: u32))
     in store_narrow field dest svalue (narrow_signed (fd_data_size field) svalue))"

definition pb_dec_uvarint :: "pb_field \<Rightarrow> addr \<Rightarrow> ('s, 'h, unit) dec" where
  "pb_dec_uvarint field dest = d_bind (on_stream pb_decode_varint) (\<lambda>value.
     store_narrow field dest value (narrow_unsigned (fd_data_size field) value))"

definition pb_dec_svarint :: "pb_field \<Rightarrow> addr \<Rightarrow> ('s, 'h, unit) dec" where
  "pb_dec_svarint field dest = d_bind (on_stream pb_decode_svarint) (\<lambda>value.
     store_narrow field dest value (narrow_signed (fd_data_size field) value))"

definition pb_dec_fixed32 :: "addr \<Rightarrow> ('s, 'h, unit) dec" where
  "pb_dec_fixed32 dest = d_bind (on_stream pb_decode_fixed32) (\<lambda>v. d_store dest (bytes32 v))"

definition pb_dec_fixed64 :: "addr \<Rightarrow> ('s, 'h, unit) dec" where
  "pb_dec_fixed64 dest = d_bind (on_stream pb_decode_fixed64) (\<lambda>v. d_store dest (bytes64 v))"

section \<open>Allocation\<close>

definition allocate_field :: "('s, 'h) dec_env \<Rightarrow> addr \<Rightarrow> usize \<Rightarrow> usize \<Rightarrow> ('s, 'h, unit) dec" where
  "allocate_field env pData data_size array_size d =
     (let ptr = load64 (ds_mem d) pData; check_limit = push_bit 32 1
      in if data_size = 0 \<or> array_size = 0 then d_error ''invalid size'' d
         else if (data_size \<ge> check_limit \<or> array_size \<ge> check_limit) \<and> 0xffffffffffffffff div array_size < data_size then
           d_error ''size too large'' d
         else
           case de_realloc env ptr (array_size * data_size) (ds_mem d, ds_heap d) of
             (ptr, m, h) \<Rightarrow>
               let d = d\<lparr>ds_mem := m, ds_heap := h\<rparr>
               in if ptr = 0 then d_error ''realloc failed'' d else d_store pData (bytes64 ptr) d)"

section \<open>Strings and bytes\<close>

text \<open>\<open>pb_read\<close> into memory.\<close>

definition read_into :: "addr \<Rightarrow> usize \<Rightarrow> ('s, 'h, unit) dec" where
  "read_into dest n = d_bind (on_stream (pb_read n)) (d_store dest)"

definition pb_dec_bytes :: "('s, 'h) dec_env \<Rightarrow> pb_field \<Rightarrow> addr \<Rightarrow> ('s, 'h, unit) dec" where
  "pb_dec_bytes env field dest = d_bind (on_stream pb_decode_varint32) (\<lambda>n.
     let alloc_size = ucast n + 4 :: usize
     in if n > PB_SIZE_MAX then d_error ''bytes overflow''
        else if ucast n > alloc_size then d_error ''size too large''
        else d_bind
          (if PB_ATYPE (fd_type field) = PB_ATYPE_POINTER then
             d_bind (allocate_field env dest alloc_size 1) (\<lambda>_ d. d_ret (load64 (ds_mem d) dest) d)
           else if alloc_size > ucast (fd_data_size field) then d_error ''bytes overflow''
           else d_ret dest)
          (\<lambda>bdest. d_bind (d_store bdest (bytes32 n)) (\<lambda>_. read_into (bdest + 4) (ucast n))))"

definition pb_dec_string :: "('s, 'h) dec_env \<Rightarrow> pb_field \<Rightarrow> addr \<Rightarrow> ('s, 'h, unit) dec" where
  "pb_dec_string env field dest = d_bind (on_stream pb_decode_varint32) (\<lambda>n.
     let alloc_size = ucast (n + 1) :: usize
     in if alloc_size < ucast n then d_error ''size too large''
        else d_bind
          (if PB_ATYPE (fd_type field) = PB_ATYPE_POINTER then
             d_bind (allocate_field env dest alloc_size 1) (\<lambda>_ d. d_ret (load64 (ds_mem d) dest) d)
           else if alloc_size > ucast (fd_data_size field) then d_error ''string overflow''
           else d_ret dest)
          (\<lambda>dest d.
             case read_into dest (ucast n) d of
               None \<Rightarrow> None
             | Some (status, d) \<Rightarrow> Some (status, d\<lparr>ds_mem := store (dest + ucast n) [0] (ds_mem d)\<rparr>)))"

definition pb_dec_fixed_length_bytes :: "pb_field \<Rightarrow> addr \<Rightarrow> ('s, 'h, unit) dec" where
  "pb_dec_fixed_length_bytes field dest = d_bind (on_stream pb_decode_varint32) (\<lambda>n.
     if n > PB_SIZE_MAX then d_error ''bytes overflow''
     else if n = 0 then d_store dest (replicate (unat (fd_data_size field)) 0)
     else if n \<noteq> fd_data_size field then d_error ''incorrect fixed length bytes size''
     else read_into dest (ucast (fd_data_size field)))"

section \<open>Default values\<close>

text \<open>
  \<open>iter_from_extension\<close>.  \<open>pb_extension_t\<close> has \<open>type\<close> at offset 0, \<open>dest\<close> at 8, \<open>next\<close> at 16 and
  \<open>found\<close> at 24; \<open>pb_extension_type_t\<close> has \<open>decode\<close> at 0 and \<open>arg\<close> at 16.
\<close>

definition extension_field :: "(addr \<Rightarrow> pb_field list) \<Rightarrow> memory \<Rightarrow> addr \<Rightarrow> pb_field list" where
  "extension_field descs m extension = descs (load64 m (load64 m extension + 16))"

definition iter_from_extension :: "(addr \<Rightarrow> pb_field list) \<Rightarrow> memory \<Rightarrow> addr \<Rightarrow> pb_field_iter" where
  "iter_from_extension descs m extension =
     (let fds = extension_field descs m extension; dest = load64 m (extension + 8);
          iter = (snd (pb_field_iter_begin fds dest))\<lparr>it_pData := dest, it_pSize := extension + 24\<rparr>
      in if PB_ATYPE (fd_type (fds ! 0)) = PB_ATYPE_POINTER then iter\<lparr>it_pData := extension + 8\<rparr> else iter)"

text \<open>The loops over the extensions of a field and the fields of a message; \<open>f\<close> is the step.\<close>

primrec extensions_default ::
  "nat \<Rightarrow> (addr \<Rightarrow> pb_field list) \<Rightarrow> (pb_field_iter \<Rightarrow> memory \<Rightarrow> memory option) \<Rightarrow> addr \<Rightarrow> memory \<Rightarrow> memory option" where
  "extensions_default 0 descs f ext m = None"
| "extensions_default (Suc k) descs f ext m =
     (if ext = 0 then Some m
      else
        let m = store (ext + 24) [0] m
        in case f (iter_from_extension descs m ext) m of
             None \<Rightarrow> None
           | Some m \<Rightarrow> extensions_default k descs f (load64 m (ext + 16)) m)"

primrec fields_default :: "nat \<Rightarrow> (pb_field_iter \<Rightarrow> memory \<Rightarrow> memory option) \<Rightarrow> pb_field_iter \<Rightarrow> memory \<Rightarrow> memory option" where
  "fields_default 0 f iter m = None"
| "fields_default (Suc k) f iter m =
     (case f iter m of
        None \<Rightarrow> None
      | Some m \<Rightarrow> (case pb_field_iter_next iter of (True, iter) \<Rightarrow> fields_default k f iter m | (False, _) \<Rightarrow> Some m))"

definition message_default ::
  "(pb_field_iter \<Rightarrow> memory \<Rightarrow> memory option) \<Rightarrow> pb_field list \<Rightarrow> addr \<Rightarrow> memory \<Rightarrow> memory option" where
  "message_default f fds dest_struct m =
     (case pb_field_iter_begin fds dest_struct of
        (False, _) \<Rightarrow> Some m
      | (True, iter) \<Rightarrow> fields_default (length fds) f iter m)"

primrec pb_field_set_to_default :: "nat \<Rightarrow> (addr \<Rightarrow> pb_field list) \<Rightarrow> pb_field_iter \<Rightarrow> memory \<Rightarrow> memory option" where
  "pb_field_set_to_default 0 descs iter m = None"
| "pb_field_set_to_default (Suc n) descs iter m =
     (let field = cur iter; type = fd_type field
      in if PB_LTYPE type = PB_LTYPE_EXTENSION then
           extensions_default n descs (pb_field_set_to_default n descs) (load64 m (it_pData iter)) m
         else if PB_ATYPE type = PB_ATYPE_STATIC then
           (let (m, init_data) =
                  (if PB_HTYPE type = PB_HTYPE_OPTIONAL \<and> it_pSize iter \<noteq> it_pData iter then
                     (store (it_pSize iter) [0] m, True)
                   else if PB_HTYPE type = PB_HTYPE_REPEATED \<or> PB_HTYPE type = PB_HTYPE_ONEOF then
                     (store (it_pSize iter) (bytes32 0) m, False)
                   else (m, True))
            in if init_data then
                 (if PB_LTYPE type = PB_LTYPE_SUBMESSAGE then
                    message_default (pb_field_set_to_default n descs) (descs (fd_ptr field)) (it_pData iter) m
                  else if fd_ptr field \<noteq> 0 then
                    Some (store (it_pData iter) (load m (fd_ptr field) (unat (fd_data_size field))) m)
                  else Some (store (it_pData iter) (replicate (unat (fd_data_size field)) 0) m))
               else Some m)
         else if PB_ATYPE type = PB_ATYPE_POINTER then
           (let m = store (it_pData iter) (bytes64 0) m
            in if PB_HTYPE type = PB_HTYPE_REPEATED \<or> PB_HTYPE type = PB_HTYPE_ONEOF
               then Some (store (it_pSize iter) (bytes32 0) m) else Some m)
         else Some m)"

definition pb_message_set_to_defaults :: "nat \<Rightarrow> (addr \<Rightarrow> pb_field list) \<Rightarrow> pb_field list \<Rightarrow> addr \<Rightarrow> memory \<Rightarrow> memory option" where
  "pb_message_set_to_defaults n descs = message_default (pb_field_set_to_default n descs)"

section \<open>Releasing\<close>

type_synonym 'h heap_step = "memory \<times> 'h \<Rightarrow> (memory \<times> 'h) option"

primrec release_extensions ::
  "nat \<Rightarrow> (addr \<Rightarrow> pb_field list) \<Rightarrow> (pb_field_iter \<Rightarrow> 'h heap_step) \<Rightarrow> addr \<Rightarrow> 'h heap_step" where
  "release_extensions 0 descs f ext mh = None"
| "release_extensions (Suc k) descs f ext mh =
     (if ext = 0 then Some mh
      else case f (iter_from_extension descs (fst mh) ext) mh of
        None \<Rightarrow> None
      | Some mh \<Rightarrow> release_extensions k descs f (load64 (fst mh) (ext + 16)) mh)"

primrec release_fields :: "nat \<Rightarrow> (pb_field_iter \<Rightarrow> 'h heap_step) \<Rightarrow> pb_field_iter \<Rightarrow> 'h heap_step" where
  "release_fields 0 f iter mh = None"
| "release_fields (Suc k) f iter mh =
     (case f iter mh of
        None \<Rightarrow> None
      | Some mh \<Rightarrow> (case pb_field_iter_next iter of (True, iter) \<Rightarrow> release_fields k f iter mh | (False, _) \<Rightarrow> Some mh))"

definition release_message :: "(pb_field_iter \<Rightarrow> 'h heap_step) \<Rightarrow> pb_field list \<Rightarrow> addr \<Rightarrow> 'h heap_step" where
  "release_message f fds dest_struct mh =
     (if dest_struct = 0 then Some mh
      else case pb_field_iter_begin fds dest_struct of
        (False, _) \<Rightarrow> Some mh
      | (True, iter) \<Rightarrow> release_fields (length fds) f iter mh)"

primrec release_items :: "(addr \<Rightarrow> 'h heap_step) \<Rightarrow> usize \<Rightarrow> nat \<Rightarrow> addr \<Rightarrow> 'h heap_step" where
  "release_items f data_size 0 pItem mh = Some mh"
| "release_items f data_size (Suc count) pItem mh =
     (case f pItem mh of None \<Rightarrow> None | Some mh \<Rightarrow> release_items f data_size count (pItem + data_size) mh)"

text \<open>One entry of an array of strings or bytes: the string is freed and the entry cleared.\<close>

definition release_entry :: "('s, 'h) dec_env \<Rightarrow> addr \<Rightarrow> 'h heap_step" where
  "release_entry env pItem mh =
     (case de_free env (load64 (fst mh) pItem) mh of (m, h) \<Rightarrow> Some (store pItem (bytes64 0) m, h))"

definition release_contents :: "('s, 'h) dec_env \<Rightarrow> (pb_field_iter \<Rightarrow> 'h heap_step) \<Rightarrow> nat \<Rightarrow> pb_field_iter \<Rightarrow> 'h heap_step" where
  "release_contents env f k iter mh =
     (let m = fst mh; field = cur iter; type = fd_type field
      in if PB_LTYPE type = PB_LTYPE_EXTENSION then
           release_extensions k (de_fields env) f (load64 m (it_pData iter)) mh
         else if PB_LTYPE type = PB_LTYPE_SUBMESSAGE then
           (let pItem = (if PB_ATYPE type = PB_ATYPE_POINTER then load64 m (it_pData iter) else it_pData iter);
                count =
                  (if PB_HTYPE type = PB_HTYPE_REPEATED then
                     (let count = (if PB_ATYPE type = PB_ATYPE_STATIC \<and> it_pSize iter = it_pData iter
                            then fd_array_size field else load32 m (it_pSize iter))
                      in if PB_ATYPE type = PB_ATYPE_STATIC \<and> count > fd_array_size field then fd_array_size field else count)
                   else 1)
            in if pItem \<noteq> 0 then
                 release_items (release_message f (de_fields env (fd_ptr field))) (ucast (fd_data_size field)) (unat count) pItem mh
               else Some mh)
         else Some mh)"

definition release_pointer :: "('s, 'h) dec_env \<Rightarrow> pb_field_iter \<Rightarrow> 'h heap_step" where
  "release_pointer env iter mh =
     (let type = fd_type (cur iter); repeated = (PB_HTYPE type = PB_HTYPE_REPEATED)
      in if PB_ATYPE type = PB_ATYPE_POINTER then
           (case (if repeated \<and> (PB_LTYPE type = PB_LTYPE_STRING \<or> PB_LTYPE type = PB_LTYPE_BYTES)
                  then release_items (release_entry env) 8 (unat (load32 (fst mh) (it_pSize iter))) (load64 (fst mh) (it_pData iter)) mh
                  else Some mh) of
              None \<Rightarrow> None
            | Some (m, h) \<Rightarrow>
                let m = (if repeated then store (it_pSize iter) (bytes32 0) m else m)
                in case de_free env (load64 m (it_pData iter)) (m, h) of
                     (m, h) \<Rightarrow> Some (store (it_pData iter) (bytes64 0) m, h))
         else Some mh)"

primrec pb_release_single_field :: "nat \<Rightarrow> ('s, 'h) dec_env \<Rightarrow> pb_field_iter \<Rightarrow> 'h heap_step" where
  "pb_release_single_field 0 env iter mh = None"
| "pb_release_single_field (Suc n) env iter mh =
     (if PB_HTYPE (fd_type (cur iter)) = PB_HTYPE_ONEOF \<and> load32 (fst mh) (it_pSize iter) \<noteq> fd_tag (cur iter) then Some mh
      else case release_contents env (pb_release_single_field n env) n iter mh of
        None \<Rightarrow> None
      | Some mh \<Rightarrow> release_pointer env iter mh)"

definition pb_release :: "nat \<Rightarrow> ('s, 'h) dec_env \<Rightarrow> pb_field list \<Rightarrow> addr \<Rightarrow> 'h heap_step" where
  "pb_release n env = release_message (pb_release_single_field n env)"

text \<open>The result is the iterator, which the two searches move.\<close>

definition pb_release_union_field :: "nat \<Rightarrow> ('s, 'h) dec_env \<Rightarrow> pb_field_iter \<Rightarrow> ('s, 'h, pb_field_iter) dec" where
  "pb_release_union_field n env iter d =
     (let old_tag = load32 (ds_mem d) (it_pSize iter); new_tag = fd_tag (cur iter)
      in if old_tag = 0 then d_ret iter d
         else if old_tag = new_tag then d_ret iter d
         else case pb_field_iter_find iter old_tag of
           (False, _) \<Rightarrow> d_error ''invalid union tag'' d
         | (True, iter) \<Rightarrow>
             d_bind (d_heap (pb_release_single_field n env iter)) (\<lambda>_.
               case pb_field_iter_find iter new_tag of
                 (False, _) \<Rightarrow> d_error ''iterator error''
               | (True, iter) \<Rightarrow> d_ret iter) d)"

end
