(* ===== verification/Nanopb_Decode_Message.thy ===== *)
theory Nanopb_Decode_Message
  imports Nanopb_Decode
begin

text \<open>
  The part of \<open>pb_decode.c\<close> that dispatches on the descriptors: static, pointer, callback and
  extension fields, submessages, and \<open>pb_decode\<close> itself.
\<close>

section \<open>Submessages\<close>

text \<open>
  The functions that call each other through submessages: \<open>noinit\<close> stands for \<open>pb_decode_noinit\<close> and
  \<open>full\<close> for \<open>pb_decode\<close> one level down, \<open>defaults\<close> for \<open>pb_message_set_to_defaults\<close> and \<open>release\<close> for
  \<open>pb_release_single_field\<close>.
\<close>

record ('s, 'h) decoders =
  noinit :: "pb_field list \<Rightarrow> addr \<Rightarrow> ('s, 'h, unit) dec"
  full :: "pb_field list \<Rightarrow> addr \<Rightarrow> ('s, 'h, unit) dec"
  defaults :: "pb_field list \<Rightarrow> addr \<Rightarrow> memory \<Rightarrow> memory option"
  release_field :: "pb_field_iter \<Rightarrow> 'h heap_step"

text \<open>
  \<open>body\<close> runs on a substream, with what is left of the parent as its argument; the state it
  leaves still has the substream, and \<open>close\<close> goes back to the parent.
\<close>

definition with_substream :: "('s istream \<Rightarrow> ('s, 'h, 'a) dec) \<Rightarrow> ('s, 'h, 'a) dec" where
  "with_substream body d =
     (case pb_make_string_substream (ds_in d) of
        (None, stream) \<Rightarrow> Some (None, d\<lparr>ds_in := stream\<rparr>)
      | (Some substream, stream) \<Rightarrow> body stream (d\<lparr>ds_in := substream\<rparr>))"

definition close :: "'s istream \<Rightarrow> ('s, 'h, unit) dec" where
  "close stream d =
     (case pb_close_string_substream (ds_in d) stream of (r, stream) \<Rightarrow> Some (r, d\<lparr>ds_in := stream\<rparr>))"

text \<open>\<open>if (!pb_close_string_substream(stream, &substream)) return false; return status;\<close>\<close>

definition close_with :: "'s istream \<Rightarrow> unit option \<Rightarrow> ('s, 'h, unit) dec" where
  "close_with stream status = d_bind (close stream) (\<lambda>_ d. Some (status, d))"

definition pb_dec_submessage :: "('s, 'h) dec_env \<Rightarrow> ('s, 'h) decoders \<Rightarrow> pb_field \<Rightarrow> addr \<Rightarrow> ('s, 'h, unit) dec" where
  "pb_dec_submessage env ds field dest = with_substream (\<lambda>stream d.
     if fd_ptr field = 0 then d_error ''invalid field descriptor'' (d\<lparr>ds_in := stream\<rparr>)
     else
       let submsg_fields = de_fields env (fd_ptr field)
       in case (if PB_HTYPE (fd_type field) = PB_HTYPE_REPEATED then full ds submsg_fields dest d
                else noinit ds submsg_fields dest d) of
            None \<Rightarrow> None
          | Some (status, d) \<Rightarrow> close_with stream status d)"

definition PB_DECODERS ::
  "('s, 'h) dec_env \<Rightarrow> ('s, 'h) decoders \<Rightarrow> pb_type \<Rightarrow> pb_field \<Rightarrow> addr \<Rightarrow> ('s, 'h, unit) dec" where
  "PB_DECODERS env ds ltype field dest =
     (if ltype = PB_LTYPE_VARINT then pb_dec_varint field dest
      else if ltype = PB_LTYPE_UVARINT then pb_dec_uvarint field dest
      else if ltype = PB_LTYPE_SVARINT then pb_dec_svarint field dest
      else if ltype = PB_LTYPE_FIXED32 then pb_dec_fixed32 dest
      else if ltype = PB_LTYPE_FIXED64 then pb_dec_fixed64 dest
      else if ltype = PB_LTYPE_BYTES then pb_dec_bytes env field dest
      else if ltype = PB_LTYPE_STRING then pb_dec_string env field dest
      else if ltype = PB_LTYPE_SUBMESSAGE then pb_dec_submessage env ds field dest
      else if ltype = PB_LTYPE_FIXED_LENGTH_BYTES then pb_dec_fixed_length_bytes field dest
      else (\<lambda>_. None))"

section \<open>Static fields\<close>

text \<open>The address of an array entry; the product has 32 bits.\<close>

definition entry_addr :: "addr \<Rightarrow> pb_field \<Rightarrow> u32 \<Rightarrow> addr" where
  "entry_addr base field i = base + ucast (fd_data_size field * i)"

text \<open>
  The loop of \<open>decode_static_field\<close> over a packed array; every entry takes at least one byte of
  the substream, whose length bounds the number of steps.
\<close>

primrec static_packed_loop ::
  "nat \<Rightarrow> (addr \<Rightarrow> ('s, 'h, unit) dec) \<Rightarrow> pb_field \<Rightarrow> addr \<Rightarrow> size_ref \<Rightarrow> ('s, 'h, unit) dec" where
  "static_packed_loop 0 func field pData pSize d = None"
| "static_packed_loop (Suc k) func field pData pSize d =
     (if is_bytes_left (ds_in d) > 0 \<and> read_size pSize d < fd_array_size field then
        d_bind (func (entry_addr pData field (read_size pSize d)))
          (\<lambda>_. d_bind (\<lambda>d. write_size pSize (read_size pSize d + 1) d)
            (\<lambda>_. static_packed_loop k func field pData pSize)) d
      else d_ret () d)"

definition static_packed :: "(addr \<Rightarrow> ('s, 'h, unit) dec) \<Rightarrow> pb_field \<Rightarrow> addr \<Rightarrow> size_ref \<Rightarrow> ('s, 'h, unit) dec" where
  "static_packed func field pData pSize = with_substream (\<lambda>stream d.
     case static_packed_loop (Suc (unat (is_bytes_left (ds_in d)))) func field pData pSize d of
       None \<Rightarrow> None
     | Some (status, d) \<Rightarrow>
         if is_bytes_left (ds_in d) \<noteq> 0 then d_error ''array overflow'' (d\<lparr>ds_in := stream\<rparr>)
         else close_with stream status d)"

definition decode_static_field ::
  "('s, 'h) dec_env \<Rightarrow> ('s, 'h) decoders \<Rightarrow> wire_type \<Rightarrow> pb_field_iter \<Rightarrow> size_ref \<Rightarrow> ('s, 'h, unit) dec" where
  "decode_static_field env ds wire_type iter pSize =
     (let field = cur iter; type = fd_type field; pData = it_pData iter; func = PB_DECODERS env ds (PB_LTYPE type) field
      in if PB_HTYPE type = PB_HTYPE_REQUIRED then func pData
         else if PB_HTYPE type = PB_HTYPE_OPTIONAL then
           d_bind
             (case pSize of
                At a \<Rightarrow> if a \<noteq> pData then d_store a [1] else d_ret ()
              | Fixed_count \<Rightarrow> (\<lambda>_. None))
             (\<lambda>_. func pData)
         else if PB_HTYPE type = PB_HTYPE_REPEATED then
           (if wire_type = PB_WT_STRING \<and> PB_LTYPE type \<le> PB_LTYPE_LAST_PACKABLE then static_packed func field pData pSize
            else (\<lambda>d.
              let n = read_size pSize d; pItem = entry_addr pData field n
              in d_bind (write_size pSize (n + 1))
                   (\<lambda>_. if n \<ge> fd_array_size field then d_error ''array overflow'' else func pItem) d))
         else if PB_HTYPE type = PB_HTYPE_ONEOF then
           d_bind (write_size pSize (fd_tag field)) (\<lambda>_.
             d_bind
               (if PB_LTYPE type = PB_LTYPE_SUBMESSAGE then
                  d_bind (d_store pData (replicate (unat (fd_data_size field)) 0))
                    (\<lambda>_. d_mem (defaults ds (de_fields env (fd_ptr field)) pData))
                else d_ret ())
               (\<lambda>_. func pData))
         else d_error ''invalid field type'')"

section \<open>Pointer fields\<close>

definition initialize_pointer_field ::
  "('s, 'h) dec_env \<Rightarrow> ('s, 'h) decoders \<Rightarrow> pb_field \<Rightarrow> addr \<Rightarrow> ('s, 'h, unit) dec" where
  "initialize_pointer_field env ds field pItem =
     (let t = PB_LTYPE (fd_type field)
      in if t = PB_LTYPE_STRING \<or> t = PB_LTYPE_BYTES then d_store pItem (bytes64 0)
         else if t = PB_LTYPE_SUBMESSAGE then
           d_bind (d_store pItem (replicate (unat (fd_data_size field)) 0))
             (\<lambda>_. d_mem (defaults ds (de_fields env (fd_ptr field)) pItem))
         else d_ret ())"

text \<open>\<open>*(char**)iter->pData + iter->pos->data_size * i\<close>.\<close>

definition pointer_entry :: "addr \<Rightarrow> pb_field \<Rightarrow> u32 \<Rightarrow> ('s, 'h) dstate \<Rightarrow> addr" where
  "pointer_entry pData field i d = entry_addr (load64 (ds_mem d) pData) field i"

text \<open>
  The loop over a packed array, with \<open>allocated_size\<close>; \<open>Inr\<close> is the break with \<open>status = false\<close> that
  also sets the message of the parent stream.
\<close>

primrec pointer_packed_loop ::
  "nat \<Rightarrow> ('s, 'h) dec_env \<Rightarrow> ('s, 'h) decoders \<Rightarrow> (addr \<Rightarrow> ('s, 'h, unit) dec) \<Rightarrow> pb_field \<Rightarrow> addr \<Rightarrow> size_ref \<Rightarrow> usize \<Rightarrow>
    ('s, 'h, unit + unit) dec" where
  "pointer_packed_loop 0 env ds func field pData pSize allocated_size d = None"
| "pointer_packed_loop (Suc k) env ds func field pData pSize allocated_size d =
     (if is_bytes_left (ds_in d) = 0 then d_ret (Inl ()) d
      else
        let grow = ucast (read_size pSize d) + 1 > allocated_size;
            new_size = allocated_size + ((is_bytes_left (ds_in d) - 1) div ucast (fd_data_size field) + 1)
        in if grow \<and> fd_data_size field = 0 then None
           else
             d_bind (if grow then allocate_field env pData (ucast (fd_data_size field)) new_size else d_ret ()) (\<lambda>_.
             d_bind (\<lambda>d. initialize_pointer_field env ds field (pointer_entry pData field (read_size pSize d) d) d) (\<lambda>_.
             d_bind (\<lambda>d. func (pointer_entry pData field (read_size pSize d) d) d) (\<lambda>_ d.
               if read_size pSize d = PB_SIZE_MAX then d_ret (Inr ()) d
               else d_bind (write_size pSize (read_size pSize d + 1))
                 (\<lambda>_. pointer_packed_loop k env ds func field pData pSize (if grow then new_size else allocated_size)) d))) d)"

definition pointer_packed ::
  "('s, 'h) dec_env \<Rightarrow> ('s, 'h) decoders \<Rightarrow> (addr \<Rightarrow> ('s, 'h, unit) dec) \<Rightarrow> pb_field \<Rightarrow> addr \<Rightarrow> size_ref \<Rightarrow> ('s, 'h, unit) dec" where
  "pointer_packed env ds func field pData pSize d0 = with_substream (\<lambda>stream d.
     case pointer_packed_loop (Suc (unat (is_bytes_left (ds_in d)))) env ds func field pData pSize (ucast (read_size pSize d0)) d of
       None \<Rightarrow> None
     | Some (Some (Inl _), d) \<Rightarrow> close_with stream (Some ()) d
     | Some (Some (Inr _), d) \<Rightarrow> close_with (stream\<lparr>is_errmsg := Some ''too many array entries''\<rparr>) None d
     | Some (None, d) \<Rightarrow> close_with stream None d) d0"

definition decode_pointer_field ::
  "('s, 'h) dec_env \<Rightarrow> ('s, 'h) decoders \<Rightarrow> wire_type \<Rightarrow> pb_field_iter \<Rightarrow> size_ref \<Rightarrow> ('s, 'h, unit) dec" where
  "decode_pointer_field env ds wire_type iter pSize =
     (let field = cur iter; type = fd_type field; pData = it_pData iter; func = PB_DECODERS env ds (PB_LTYPE type) field
      in if PB_HTYPE type = PB_HTYPE_REQUIRED \<or> PB_HTYPE type = PB_HTYPE_OPTIONAL \<or> PB_HTYPE type = PB_HTYPE_ONEOF then
           d_bind (\<lambda>d. if PB_LTYPE type = PB_LTYPE_SUBMESSAGE \<and> load64 (ds_mem d) pData \<noteq> 0
             then d_heap (release_field ds iter) d else d_ret () d) (\<lambda>_.
           d_bind (if PB_HTYPE type = PB_HTYPE_ONEOF then write_size pSize (fd_tag field) else d_ret ()) (\<lambda>_.
             if PB_LTYPE type = PB_LTYPE_STRING \<or> PB_LTYPE type = PB_LTYPE_BYTES then func pData
             else
               d_bind (allocate_field env pData (ucast (fd_data_size field)) 1) (\<lambda>_.
               d_bind (\<lambda>d. initialize_pointer_field env ds field (load64 (ds_mem d) pData) d)
                 (\<lambda>_ d. func (load64 (ds_mem d) pData) d))))
         else if PB_HTYPE type = PB_HTYPE_REPEATED then
           (if wire_type = PB_WT_STRING \<and> PB_LTYPE type \<le> PB_LTYPE_LAST_PACKABLE then pointer_packed env ds func field pData pSize
            else (\<lambda>d.
              if read_size pSize d = PB_SIZE_MAX then d_error ''too many array entries'' d
              else
                d_bind (write_size pSize (read_size pSize d + 1)) (\<lambda>_.
                d_bind (\<lambda>d. allocate_field env pData (ucast (fd_data_size field)) (ucast (read_size pSize d)) d) (\<lambda>_.
                d_bind (\<lambda>d. initialize_pointer_field env ds field (pointer_entry pData field (read_size pSize d - 1) d) d)
                  (\<lambda>_ d. func (pointer_entry pData field (read_size pSize d - 1) d) d))) d))
         else d_error ''invalid field type'')"

section \<open>Callback and extension fields\<close>

text \<open>\<open>do { ... } while (substream.bytes_left)\<close>, with the fuel \<open>k\<close>: the callback need not read.\<close>

primrec callback_loop :: "nat \<Rightarrow> ('s, 'h, unit) dec \<Rightarrow> ('s, 'h, unit) dec" where
  "callback_loop 0 f d = None"
| "callback_loop (Suc k) f d =
     d_bind f (\<lambda>_ d. if is_bytes_left (ds_in d) \<noteq> 0 then callback_loop k f d else d_ret () d) d"

text \<open>
  \<open>pb_callback_t\<close> has the function at offset 0 and \<open>arg\<close> at offset 8.  The substream of a scalar is
  what \<open>pb_istream_from_buffer\<close> makes of the local buffer.
\<close>

definition decode_callback_field ::
  "nat \<Rightarrow> ('s, 'h) dec_env \<Rightarrow> wire_type \<Rightarrow> pb_field_iter \<Rightarrow> ('s, 'h, unit) dec" where
  "decode_callback_field n env wire_type iter d =
     (let pCallback = it_pData iter; f = load64 (ds_mem d) pCallback; call = de_callback env f (cur iter) (pCallback + 8)
      in if pCallback = 0 \<or> f = 0 then on_stream (pb_skip_field wire_type) d
         else if wire_type = PB_WT_STRING then
           with_substream (\<lambda>stream d.
             case callback_loop n call d of
               None \<Rightarrow> None
             | Some (None, d) \<Rightarrow> d_error ''callback failed'' (d\<lparr>ds_in := stream\<rparr>)
             | Some (Some _, d) \<Rightarrow> close stream d) d
         else
           case read_raw_value wire_type 10 (ds_in d) of
             (None, stream) \<Rightarrow> Some (None, d\<lparr>ds_in := stream\<rparr>)
           | (Some buffer, stream) \<Rightarrow>
               (case call (d\<lparr>ds_in := \<lparr>is_custom = None, is_state = is_state stream, is_mem = buffer,
                      is_bytes_left = of_nat (length buffer), is_errmsg = None\<rparr>\<rparr>) of
                  None \<Rightarrow> None
                | Some (r, d) \<Rightarrow> Some (r, d\<lparr>ds_in := stream\<rparr>)))"

definition decode_field ::
  "nat \<Rightarrow> ('s, 'h) dec_env \<Rightarrow> ('s, 'h) decoders \<Rightarrow> wire_type \<Rightarrow> pb_field_iter \<Rightarrow> size_ref \<Rightarrow> ('s, 'h, pb_field_iter) dec" where
  "decode_field n env ds wire_type iter pSize =
     d_bind (if PB_HTYPE (fd_type (cur iter)) = PB_HTYPE_ONEOF then pb_release_union_field n env iter else d_ret iter) (\<lambda>iter.
       let pSize = (if pSize = Fixed_count then Fixed_count else At (it_pSize iter)); a = PB_ATYPE (fd_type (cur iter))
       in d_bind
            (if a = PB_ATYPE_STATIC then decode_static_field env ds wire_type iter pSize
             else if a = PB_ATYPE_POINTER then decode_pointer_field env ds wire_type iter pSize
             else if a = PB_ATYPE_CALLBACK then decode_callback_field n env wire_type iter
             else d_error ''invalid field type'')
            (\<lambda>_. d_ret iter))"

definition default_extension_decoder ::
  "nat \<Rightarrow> ('s, 'h) dec_env \<Rightarrow> ('s, 'h) decoders \<Rightarrow> addr \<Rightarrow> u32 \<Rightarrow> wire_type \<Rightarrow> ('s, 'h, unit) dec" where
  "default_extension_decoder n env ds extension tag wire_type d =
     (let field = extension_field (de_fields env) (ds_mem d) extension ! 0
      in if fd_tag field \<noteq> tag then d_ret () d
         else
           let iter = iter_from_extension (de_fields env) (ds_mem d) extension
           in d_bind (d_store (extension + 24) [1])
                (\<lambda>_. d_bind (decode_field n env ds wire_type iter (At (it_pSize iter))) (\<lambda>_. d_ret ())) d)"

primrec extension_dec_loop ::
  "nat \<Rightarrow> nat \<Rightarrow> ('s, 'h) dec_env \<Rightarrow> ('s, 'h) decoders \<Rightarrow> usize \<Rightarrow> u32 \<Rightarrow> wire_type \<Rightarrow> addr \<Rightarrow> ('s, 'h, unit) dec" where
  "extension_dec_loop 0 n env ds pos tag wire_type extension d = None"
| "extension_dec_loop (Suc k) n env ds pos tag wire_type extension d =
     (if extension \<noteq> 0 \<and> pos = is_bytes_left (ds_in d) then
        (let f = load64 (ds_mem d) (load64 (ds_mem d) extension)
         in d_bind
              (if f \<noteq> 0 then de_extension env f extension tag wire_type
               else default_extension_decoder n env ds extension tag wire_type)
              (\<lambda>_ d. extension_dec_loop k n env ds pos tag wire_type (load64 (ds_mem d) (extension + 16)) d) d)
      else d_ret () d)"

definition decode_extension ::
  "nat \<Rightarrow> ('s, 'h) dec_env \<Rightarrow> ('s, 'h) decoders \<Rightarrow> u32 \<Rightarrow> wire_type \<Rightarrow> pb_field_iter \<Rightarrow> ('s, 'h, unit) dec" where
  "decode_extension n env ds tag wire_type iter d =
     extension_dec_loop n n env ds (is_bytes_left (ds_in d)) tag wire_type (load64 (ds_mem d) (it_pData iter)) d"

section \<open>Messages\<close>

definition PB_MAX_REQUIRED_FIELDS :: u32 where
  "PB_MAX_REQUIRED_FIELDS = 64"

text \<open>The local variables of \<open>pb_decode_noinit\<close>; a field is named by its index.\<close>

record locals =
  lo_iter :: pb_field_iter
  lo_fields_seen :: "u32 list"
  lo_extension_range_start :: u32
  lo_fixed_count_field :: "nat option"

text \<open>\<open>wrong size for fixed count field\<close>: the last field of fixed count is not complete.\<close>

definition fixed_incomplete :: "locals \<Rightarrow> u32 \<Rightarrow> bool" where
  "fixed_incomplete lo fixed_count_size =
     (case lo_fixed_count_field lo of
        None \<Rightarrow> False
      | Some i \<Rightarrow> fixed_count_size \<noteq> fd_array_size (it_start (lo_iter lo) ! i))"

text \<open>A field with an unknown tag: an extension, or data to skip.\<close>

definition decode_unknown ::
  "nat \<Rightarrow> ('s, 'h) dec_env \<Rightarrow> ('s, 'h) decoders \<Rightarrow> u32 \<Rightarrow> wire_type \<Rightarrow> locals \<Rightarrow> ('s, 'h, locals) dec" where
  "decode_unknown n env ds tag wire_type lo d =
     (let skip = (\<lambda>lo. d_bind (on_stream (pb_skip_field wire_type)) (\<lambda>_. d_ret lo))
      in if tag \<ge> lo_extension_range_start lo then
           (let (found, iter) = find_extension_field (lo_iter lo);
                lo = lo\<lparr>lo_iter := iter, lo_extension_range_start := (if found then fd_tag (cur iter) else 0xffffffff)\<rparr>
            in if tag \<ge> lo_extension_range_start lo then
                 d_bind (decode_extension n env ds tag wire_type iter)
                   (\<lambda>_ d'. if is_bytes_left (ds_in d) \<noteq> is_bytes_left (ds_in d') then d_ret lo d' else skip lo d') d
               else skip lo d)
         else skip lo d)"

text \<open>A field of the message.\<close>

definition decode_known ::
  "nat \<Rightarrow> ('s, 'h) dec_env \<Rightarrow> ('s, 'h) decoders \<Rightarrow> wire_type \<Rightarrow> locals \<Rightarrow> ('s, 'h, locals) dec" where
  "decode_known n env ds wire_type lo d =
     (let iter = lo_iter lo; field = cur iter;
          fixed = (PB_HTYPE (fd_type field) = PB_HTYPE_REPEATED \<and> it_pSize iter = it_pData iter);
          switch = (fixed \<and> lo_fixed_count_field lo \<noteq> Some (it_pos iter))
      in if switch \<and> fixed_incomplete lo (ds_fixed d) then d_error ''wrong size for fixed count field'' d
         else
           let d = (if switch then d\<lparr>ds_fixed := 0\<rparr> else d);
               lo = (if switch then lo\<lparr>lo_fixed_count_field := Some (it_pos iter)\<rparr> else lo);
               i = it_required_field_index iter;
               lo = (if PB_HTYPE (fd_type field) = PB_HTYPE_REQUIRED \<and> i < PB_MAX_REQUIRED_FIELDS
                 then lo\<lparr>lo_fields_seen := (lo_fields_seen lo)[unat (drop_bit 5 i) :=
                   lo_fields_seen lo ! unat (drop_bit 5 i) OR push_bit (unat (i AND 31)) 1]\<rparr>
                 else lo)
           in d_bind (decode_field n env ds wire_type iter (if fixed then Fixed_count else At (it_pSize iter)))
                (\<lambda>iter. d_ret (lo\<lparr>lo_iter := iter\<rparr>)) d)"

text \<open>
  The loop over the input: every step reads a tag, so that the length of the input bounds the
  number of steps.
\<close>

primrec decode_loop :: "nat \<Rightarrow> nat \<Rightarrow> ('s, 'h) dec_env \<Rightarrow> ('s, 'h) decoders \<Rightarrow> locals \<Rightarrow> ('s, 'h, locals) dec" where
  "decode_loop 0 n env ds lo d = None"
| "decode_loop (Suc k) n env ds lo d =
     (if is_bytes_left (ds_in d) = 0 then d_ret lo d
      else case pb_decode_tag (ds_in d) of
        ((None, eof), stream) \<Rightarrow> (if eof then d_ret lo (d\<lparr>ds_in := stream\<rparr>) else Some (None, d\<lparr>ds_in := stream\<rparr>))
      | ((Some (wire_type, tag), eof), stream) \<Rightarrow>
          (case pb_field_iter_find (lo_iter lo) tag of (found, iter) \<Rightarrow>
             d_bind ((if found then decode_known n env ds wire_type else decode_unknown n env ds tag wire_type)
                 (lo\<lparr>lo_iter := iter\<rparr>))
               (decode_loop k n env ds) (d\<lparr>ds_in := stream\<rparr>)))"

text \<open>The search for the end of the descriptors, and the test of the required fields.\<close>

primrec last_field :: "nat \<Rightarrow> pb_field_iter \<Rightarrow> (u32 \<times> pb_type \<times> pb_field_iter) option" where
  "last_field 0 iter = None"
| "last_field (Suc k) iter =
     (case pb_field_iter_next iter of
        (True, iter') \<Rightarrow> last_field k iter'
      | (False, iter') \<Rightarrow> Some (it_required_field_index iter, fd_type (cur iter), iter'))"

definition required_missing :: "u32 list \<Rightarrow> u32 \<Rightarrow> bool" where
  "required_missing fields_seen req_field_count \<longleftrightarrow>
     req_field_count > 0 \<and>
     ((\<exists>w \<in> set (take (unat (drop_bit 5 req_field_count)) fields_seen). w \<noteq> 0xffffffff) \<or>
      req_field_count AND 31 \<noteq> 0 \<and>
      fields_seen ! unat (drop_bit 5 req_field_count) \<noteq> drop_bit (32 - unat (req_field_count AND 31)) 0xffffffff)"

definition decode_end :: "locals \<Rightarrow> ('s, 'h, unit) dec" where
  "decode_end lo d =
     (if fixed_incomplete lo (ds_fixed d) then d_error ''wrong size for fixed count field'' d
      else case last_field (length (it_start (lo_iter lo))) (lo_iter lo) of
        None \<Rightarrow> None
      | Some (req_field_count, last_type, iter) \<Rightarrow>
          let req_field_count = (if PB_HTYPE last_type = PB_HTYPE_REQUIRED \<and> fd_tag (cur iter) \<noteq> 0
                then req_field_count + 1 else req_field_count);
              req_field_count = (if req_field_count > PB_MAX_REQUIRED_FIELDS then PB_MAX_REQUIRED_FIELDS else req_field_count)
          in if required_missing (lo_fields_seen lo) req_field_count then d_error ''missing required field'' d
             else d_ret () d)"

text \<open>The caller's \<open>fixed_count_size\<close> comes back at the end.\<close>

definition decode_message ::
  "nat \<Rightarrow> ('s, 'h) dec_env \<Rightarrow> ('s, 'h) decoders \<Rightarrow> pb_field list \<Rightarrow> addr \<Rightarrow> ('s, 'h, unit) dec" where
  "decode_message n env ds fds dest_struct d =
     (let lo = \<lparr>lo_iter = snd (pb_field_iter_begin fds dest_struct), lo_fields_seen = [0, 0], lo_extension_range_start = 0,
                lo_fixed_count_field = None\<rparr>
      in case d_bind (decode_loop (Suc (unat (is_bytes_left (ds_in d)))) n env ds lo) decode_end (d\<lparr>ds_fixed := 0\<rparr>) of
           None \<Rightarrow> None
         | Some (r, d') \<Rightarrow> Some (r, d'\<lparr>ds_fixed := ds_fixed d\<rparr>))"

text \<open>\<open>pb_decode\<close>, given \<open>pb_decode_noinit\<close>.\<close>

definition init_and_decode ::
  "nat \<Rightarrow> ('s, 'h) dec_env \<Rightarrow> (pb_field list \<Rightarrow> addr \<Rightarrow> ('s, 'h, unit) dec) \<Rightarrow> pb_field list \<Rightarrow> addr \<Rightarrow> ('s, 'h, unit) dec" where
  "init_and_decode n env decode fds dest_struct =
     d_bind (d_mem (pb_message_set_to_defaults n (de_fields env) fds dest_struct)) (\<lambda>_ d.
       case decode fds dest_struct d of
         None \<Rightarrow> None
       | Some (None, d) \<Rightarrow> d_bind (d_heap (pb_release n env fds dest_struct)) (\<lambda>_ d. Some (None, d)) d
       | Some (Some _, d) \<Rightarrow> d_ret () d)"

primrec pb_decode_noinit :: "nat \<Rightarrow> ('s, 'h) dec_env \<Rightarrow> pb_field list \<Rightarrow> addr \<Rightarrow> ('s, 'h, unit) dec" where
  "pb_decode_noinit 0 env fds dest_struct = (\<lambda>_. None)"
| "pb_decode_noinit (Suc n) env fds dest_struct =
     decode_message n env
       \<lparr>noinit = pb_decode_noinit n env, full = init_and_decode n env (pb_decode_noinit n env),
        defaults = pb_message_set_to_defaults n (de_fields env), release_field = pb_release_single_field n env\<rparr>
       fds dest_struct"

definition pb_decode :: "nat \<Rightarrow> ('s, 'h) dec_env \<Rightarrow> pb_field list \<Rightarrow> addr \<Rightarrow> ('s, 'h, unit) dec" where
  "pb_decode n env = init_and_decode n env (pb_decode_noinit n env)"

text \<open>\<open>pb_decode_delimited\<close> and \<open>pb_decode_delimited_noinit\<close>.\<close>

definition delimited :: "(pb_field list \<Rightarrow> addr \<Rightarrow> ('s, 'h, unit) dec) \<Rightarrow> pb_field list \<Rightarrow> addr \<Rightarrow> ('s, 'h, unit) dec" where
  "delimited decode fds dest_struct = with_substream (\<lambda>stream d.
     case decode fds dest_struct d of
       None \<Rightarrow> None
     | Some (status, d) \<Rightarrow> close_with stream status d)"

definition pb_decode_delimited :: "nat \<Rightarrow> ('s, 'h) dec_env \<Rightarrow> pb_field list \<Rightarrow> addr \<Rightarrow> ('s, 'h, unit) dec" where
  "pb_decode_delimited n env = delimited (pb_decode n env)"

definition pb_decode_delimited_noinit :: "nat \<Rightarrow> ('s, 'h) dec_env \<Rightarrow> pb_field list \<Rightarrow> addr \<Rightarrow> ('s, 'h, unit) dec" where
  "pb_decode_delimited_noinit n env = delimited (pb_decode_noinit n env)"

definition pb_decode_nullterminated :: "nat \<Rightarrow> ('s, 'h) dec_env \<Rightarrow> pb_field list \<Rightarrow> addr \<Rightarrow> ('s, 'h, unit) dec" where
  "pb_decode_nullterminated n env = pb_decode n env"

end
