(* ===== verification/Nanopb_Decode_Frame.thy ===== *)
theory Nanopb_Decode_Frame
  imports Nanopb_Decode_Message
begin

text \<open>
  What a step of the message decoder may change: the stream functions never give bytes back, and
  a step is \<open>safe\<close> for a set of addresses when it returns on every input, writes to no other
  address and leaves the heap alone.  The rules for the combinators are in \<open>safe_intros\<close>.
\<close>

named_theorems safe_intros

section \<open>Streams only shrink\<close>

definition left :: "'s istream \<Rightarrow> nat" where
  "left s = unat (is_bytes_left s)"

definition shrunk :: "'s istream \<Rightarrow> 's istream \<Rightarrow> bool" where
  "shrunk s s' \<longleftrightarrow> is_custom s' = is_custom s \<and> left s' \<le> left s"

text \<open>A stream function \<open>eats\<close> when it takes at least one byte if it succeeds.\<close>

definition shrinks :: "('s istream \<Rightarrow> 'a option \<times> 's istream) \<Rightarrow> bool" where
  "shrinks f \<longleftrightarrow> (\<forall>s. shrunk s (snd (f s)))"

definition eats :: "('s istream \<Rightarrow> 'a option \<times> 's istream) \<Rightarrow> bool" where
  "eats f \<longleftrightarrow> shrinks f \<and> (\<forall>s x s'. f s = (Some x, s') \<longrightarrow> left s' < left s)"

text \<open>A callback stores no more than the bytes it was asked for.\<close>

definition tame :: "'s istream \<Rightarrow> bool" where
  "tame s \<longleftrightarrow> (\<forall>f st n bs st'. is_custom s = Some f \<longrightarrow> f st n = (Some bs, st') \<longrightarrow> length bs \<le> unat n)"

lemma shrunk_refl [simp]: "shrunk s s"
  by (simp add: shrunk_def)

lemma shrunk_trans: "shrunk s s' \<Longrightarrow> shrunk s' s'' \<Longrightarrow> shrunk s s''"
  by (simp add: shrunk_def)

lemma shrunk_tame: "shrunk s s' \<Longrightarrow> tame s \<Longrightarrow> tame s'"
  by (simp add: shrunk_def tame_def)

lemma eats_shrinks: "eats f \<Longrightarrow> shrinks f"
  by (simp add: eats_def)

lemma shrinksD: "shrinks f \<Longrightarrow> f s = (r, s') \<Longrightarrow> shrunk s s'"
  by (metis shrinks_def snd_conv)

lemma shrunk_error [simp]: "shrunk s (snd (is_error msg s'')) = shrunk s s''"
  by (simp add: is_error_def shrunk_def left_def)

lemma shrinks_error: "shrinks (is_error msg)"
  by (simp add: shrinks_def)

lemma eats_error: "eats (is_error msg)"
  by (simp add: eats_def shrinks_error is_error_def)

lemma shrinks_ret: "shrinks (\<lambda>s. (f s, s))" "shrinks (Pair x)"
  by (simp_all add: shrinks_def)

lemma shrinks_andthen:
  assumes "shrinks m" "\<And>x. shrinks (f x)"
  shows "shrinks (andthen m f)"
  unfolding shrinks_def
proof
  fix s
  obtain r s' where m: "m s = (r, s')"
    by fastforce
  have "shrunk s s'"
    using assms(1) m by (rule shrinksD)
  moreover have "shrunk s' (snd (f x s'))" for x
    using assms(2) by (simp add: shrinks_def)
  ultimately show "shrunk s (snd (andthen m f s))"
    using m by (auto simp: andthen_def split: option.splits intro: shrunk_trans)
qed

lemma eats_andthen:
  assumes "eats m" "\<And>x. shrinks (f x)"
  shows "eats (andthen m f)"
  unfolding eats_def
proof (intro conjI allI impI)
  show "shrinks (andthen m f)"
    using eats_shrinks [OF assms(1)] assms(2) by (rule shrinks_andthen)
  fix s x s'
  assume "andthen m f s = (Some x, s')"
  then obtain y s1 where m: "m s = (Some y, s1)" "f y s1 = (Some x, s')"
    by (auto simp: andthen_def split: prod.splits option.splits)
  then have "left s1 < left s" "left s' \<le> left s1"
    using assms(1) shrinksD [OF assms(2), of y s1] by (auto simp: eats_def shrunk_def)
  then show "left s' < left s"
    by simp
qed

lemma callback_keeps: "is_callback n s = (r, s') \<Longrightarrow> is_custom s' = is_custom s \<and> is_bytes_left s' = is_bytes_left s"
  by (auto simp: is_callback_def split: option.splits prod.splits)

lemma pb_read_parts:
  assumes "pb_read n s = (r, s')"
  shows "shrunk s s'" "r \<noteq> None \<Longrightarrow> left s' = left s - unat n \<and> unat n \<le> left s"
proof -
  obtain q t where c: "is_callback n s = (q, t)"
    by fastforce
  note k = callback_keeps [OF c]
  have "r \<noteq> None \<Longrightarrow> n \<le> is_bytes_left s \<and> is_bytes_left s' = is_bytes_left s - n \<and> is_custom s' = is_custom s"
    using assms c k by (auto simp: pb_read_def is_error_def not_less split: if_splits option.splits)
  then show p: "r \<noteq> None \<Longrightarrow> left s' = left s - unat n \<and> unat n \<le> left s"
    using unat_sub [of n "is_bytes_left s"] by (auto simp: left_def word_le_nat_alt)
  show "shrunk s s'"
  proof (cases r)
    case None
    then show ?thesis
      using assms c k by (auto simp: pb_read_def is_error_def shrunk_def left_def split: if_splits option.splits)
  next
    case (Some x)
    then have "left s' \<le> left s"
      using p by simp
    then show ?thesis
      using Some assms c k by (auto simp: pb_read_def shrunk_def is_error_def split: if_splits option.splits)
  qed
qed

lemma shrinks_read: "shrinks (pb_read n)"
  unfolding shrinks_def using pb_read_parts(1) by (metis prod.collapse)

lemma eats_read: "n \<noteq> 0 \<Longrightarrow> eats (pb_read n)"
  unfolding eats_def
proof (intro conjI allI impI shrinks_read)
  fix s :: "'a istream" and x s'
  assume "n \<noteq> 0" "pb_read n s = (Some x, s')"
  then show "left s' < left s"
    using pb_read_parts(2) [of n s "Some x" s'] unat_gt_0 [of n] by simp
qed

lemma pb_read_length: "pb_read n s = (Some bs, s') \<Longrightarrow> tame s \<Longrightarrow> length bs \<le> unat n"
  by (auto simp: pb_read_def is_callback_def buf_read_def is_error_def tame_def split: option.splits prod.splits if_splits)

lemma eats_readbyte: "eats pb_readbyte"
proof -
  have s: "shrunk s s'" if "pb_readbyte s = (r, s')" for s s' :: "'a istream" and r
  proof -
    obtain q t where c: "is_callback 1 s = (q, t)"
      by fastforce
    note k = callback_keeps [OF c]
    show ?thesis
    proof (cases r)
      case None
      then show ?thesis
        using that c k by (auto simp: pb_readbyte_def shrunk_def is_error_def left_def split: option.splits if_splits)
    next
      case (Some b)
      then have "is_custom s' = is_custom s"
        using that c k by (auto simp: pb_readbyte_def is_error_def split: option.splits if_splits)
      then show ?thesis
        using readbyte_left [of s b s'] that Some by (simp add: shrunk_def left_def)
    qed
  qed
  then have "shrinks (pb_readbyte :: 'a istream \<Rightarrow> _)"
    unfolding shrinks_def by (metis prod.collapse)
  then show ?thesis
    using readbyte_left unfolding eats_def left_def by blast
qed

section \<open>The stream functions\<close>

lemma shrunk_read: "shrunk s (snd (andthen (pb_read n) (\<lambda>_. Pair (Some ())) s))"
  by (rule shrinks_andthen [OF shrinks_read shrinks_ret(2), unfolded shrinks_def, THEN spec])

lemma shrinks_skip_loop: "shrunk s (snd (pb_skip_loop n s))"
proof (induction n s rule: pb_skip_loop.induct)
  case (1 count s)
  obtain r s' where r: "pb_read 16 s = (r, s')"
    by fastforce
  then have "shrunk s s'"
    by (rule pb_read_parts)
  then show ?case
    using 1 r shrunk_read by (subst pb_skip_loop.simps) (auto split: option.splits intro: shrunk_trans)
qed

lemma shrinks_read_null: "shrinks (pb_read_null n)"
  unfolding shrinks_def pb_read_null_def
  using shrinks_skip_loop shrunk_read by auto

lemma shrinks_loop32: "shrunk s (snd (varint32_loop r b s))"
proof (induction r b s rule: varint32_loop.induct)
  case (1 r b s)
  obtain q s' where q: "pb_readbyte s = (q, s')"
    by fastforce
  have "shrunk s s'"
    using eats_shrinks [OF eats_readbyte] q by (rule shrinksD)
  then show ?case
    using 1 q by (subst varint32_loop.simps) (auto simp: Let_def split: option.splits intro: shrunk_trans)
qed

lemma varint32_eof_eats:
  assumes "pb_decode_varint32_eof s = ((r, eof), s')"
  shows "shrunk s s' \<and> (r \<noteq> None \<longrightarrow> left s' < left s)"
proof -
  obtain q t where q: "pb_readbyte s = (q, t)"
    by fastforce
  have t: "shrunk s t" "q \<noteq> None \<Longrightarrow> left t < left s"
    using eats_readbyte q shrinksD [OF eats_shrinks [OF eats_readbyte] q] by (auto simp: eats_def)
  show ?thesis
  proof (cases q)
    case None
    then show ?thesis
      using assms q t(1) by (auto simp: pb_decode_varint32_eof_def)
  next
    case (Some b)
    obtain x u where u: "varint32_loop (ucast (b AND 0x7f)) 7 t = (x, u)"
      by fastforce
    have "s' = t \<or> s' = u \<or> s' = snd (is_error ''varint overflow'' u)"
      using assms q Some u by (auto simp: pb_decode_varint32_eof_def is_error_def split: option.splits if_splits)
    moreover have "shrunk t u"
      using shrinks_loop32 [of t "ucast (b AND 0x7f)" 7] u by simp
    ultimately have "shrunk t s'"
      by auto
    then show ?thesis
      using t Some by (auto simp: shrunk_def)
  qed
qed

lemma eats_varint32: "eats pb_decode_varint32"
proof -
  have "shrunk s s' \<and> (r \<noteq> None \<longrightarrow> left s' < left s)" if "pb_decode_varint32 s = (r, s')" for s s' :: "'a istream" and r
    using that varint32_eof_eats [of s] by (auto simp: pb_decode_varint32_def split: prod.splits)
  then show ?thesis
    unfolding eats_def shrinks_def by (metis option.distinct(1) prod.collapse)
qed

lemma tag_eats:
  assumes "pb_decode_tag s = ((r, eof), s')"
  shows "shrunk s s' \<and> (r \<noteq> None \<longrightarrow> left s' < left s)"
  using assms varint32_eof_eats [of s] by (fastforce simp: pb_decode_tag_def split: prod.splits option.splits if_splits)

lemma tag_range: "pb_decode_tag s = ((Some (wt, tag), eof), s') \<Longrightarrow> unat tag < 2 ^ 29"
  using unat_lt32
  by (auto simp: pb_decode_tag_def drop_bit_eq_div unat_div_distrib less_mult_imp_div_less
      split: prod.splits option.splits if_splits)

lemma dec_loop_eats:
  "varint_dec_loop r b s = (x, s') \<Longrightarrow> shrunk s s' \<and> (x \<noteq> None \<longrightarrow> left s' < left s)"
proof (induction r b s rule: varint_dec_loop.induct)
  case (1 r b s)
  obtain q t where q: "pb_readbyte s = (q, t)"
    by fastforce
  have t: "shrunk s t" "q \<noteq> None \<Longrightarrow> left t < left s"
    using eats_readbyte q shrinksD [OF eats_shrinks [OF eats_readbyte] q] by (auto simp: eats_def)
  show ?case
  proof (cases "b \<ge> 64 \<or> q = None")
    case True
    then show ?thesis
      using "1.prems" q t(1) by (subst (asm) varint_dec_loop.simps) (auto simp: is_error_def shrunk_def left_def split: if_splits)
  next
    case False
    then obtain y where y: "q = Some y" "\<not> b \<ge> 64"
      by auto
    let ?r = "r OR push_bit (unat b) (ucast (y AND 0x7f))"
    have "varint_dec_loop r b s = (if y AND 0x80 \<noteq> 0 then varint_dec_loop ?r (b + 7) t else (Some ?r, t))"
      using q y by (subst varint_dec_loop.simps) (simp add: Let_def)
    moreover have "shrunk t s' \<and> (x \<noteq> None \<longrightarrow> left s' < left t)" if "y AND 0x80 \<noteq> 0" "varint_dec_loop ?r (b + 7) t = (x, s')"
      using "1.IH" [OF y(2) q [symmetric]] that y by auto
    ultimately show ?thesis
      using "1.prems" t y by (auto simp: shrunk_def split: if_splits)
  qed
qed

lemma eats_varint: "eats pb_decode_varint"
  unfolding eats_def shrinks_def pb_decode_varint_def
  using dec_loop_eats by (metis option.distinct(1) prod.collapse)

lemma eats_svarint: "eats pb_decode_svarint"
  unfolding pb_decode_svarint_def using eats_varint shrinks_ret(2) by (rule eats_andthen)

lemma eats_fixed: "eats pb_decode_fixed32" "eats pb_decode_fixed64"
  unfolding pb_decode_fixed32_def pb_decode_fixed64_def by (intro eats_andthen eats_read shrinks_ret; simp)+

lemma shrinks_skip_varint: "shrunk s (snd (pb_skip_varint s))"
proof (induction s rule: pb_skip_varint.induct)
  case (1 s)
  obtain q s' where q: "pb_read 1 s = (q, s')"
    by fastforce
  then have "shrunk s s'"
    by (rule pb_read_parts)
  then show ?case
    using 1 q by (subst pb_skip_varint.simps) (auto split: option.splits intro: shrunk_trans)
qed

lemma shrinks_skip_string: "shrinks pb_skip_string"
  unfolding pb_skip_string_def by (intro shrinks_andthen shrinks_read_null eats_shrinks [OF eats_varint32])

lemma shrinks_skip: "shrinks (pb_skip_field wt)"
  unfolding pb_skip_field_def
  using shrinks_skip_varint shrinks_skip_string shrinks_read_null shrinks_error by (auto simp: shrinks_def)

lemma substream_parts:
  assumes "pb_make_string_substream s = (r, s')"
  shows "shrunk s s'" "r = Some t \<Longrightarrow> is_custom t = is_custom s"
proof -
  obtain q u where q: "pb_decode_varint32 s = (q, u)"
    by fastforce
  have u: "shrunk s u"
    using eats_shrinks [OF eats_varint32] q by (rule shrinksD)
  have sub: "left (u\<lparr>is_bytes_left := is_bytes_left u - ucast n\<rparr>) \<le> left u"
    if "\<not> is_bytes_left u < ucast n" for n :: u32
    using that unat_sub [of "ucast n" "is_bytes_left u"] by (simp add: left_def not_less)
  show "shrunk s s'" "r = Some t \<Longrightarrow> is_custom t = is_custom s"
    using assms q u sub
    by (auto simp: pb_make_string_substream_def andthen_def shrunk_def is_error_def left_def split: option.splits if_splits)
       (fastforce intro: order_trans)+
qed

lemma close_parts:
  assumes "pb_close_string_substream t s = (r, s')" "is_custom t = is_custom s"
  shows "shrunk s s'"
  using assms by (auto simp: pb_close_string_substream_def shrunk_def left_def split: prod.splits option.splits)

section \<open>Frames\<close>

definition area :: "addr \<Rightarrow> nat \<Rightarrow> addr set" where
  "area a n = (\<lambda>i. a + of_nat i) ` {..<n}"

lemma area_mono: "m \<le> n \<Longrightarrow> area a m \<subseteq> area a n"
  by (auto simp: area_def)

lemma area_offset: "k + m \<le> n \<Longrightarrow> area (a + of_nat k) m \<subseteq> area a n"
proof
  fix x
  assume "k + m \<le> n" "x \<in> area (a + of_nat k) m"
  then obtain i where "x = a + of_nat (k + i)" "k + i < n"
    by (auto simp: area_def add.assoc)
  then show "x \<in> area a n"
    unfolding area_def by (intro image_eqI [of _ _ "k + i"]) simp_all
qed

lemma store_outside: "x \<notin> area a (length bs) \<Longrightarrow> store a bs m x = m x"
proof (induction bs arbitrary: a m)
  case (Cons b bs)
  have "x \<noteq> a + of_nat i" if "i < Suc (length bs)" for i
    using Cons.prems that by (auto simp: area_def)
  note ne = this [of 0] this [of "Suc i" for i]
  then have "x \<notin> area (a + 1) (length bs)"
    by (auto simp: area_def add.assoc)
  then show ?case
    using Cons.IH ne(1) by simp
qed simp

definition framed :: "addr set \<Rightarrow> ('s, 'h) dstate \<Rightarrow> ('s, 'h) dstate \<Rightarrow> bool" where
  "framed F d d' \<longleftrightarrow> (\<forall>a. a \<notin> F \<longrightarrow> ds_mem d' a = ds_mem d a) \<and> ds_heap d' = ds_heap d"

text \<open>\<open>P\<close> holds of the result when the step succeeds.\<close>

definition safe :: "addr set \<Rightarrow> ('a \<Rightarrow> bool) \<Rightarrow> ('s, 'h, 'a) dec \<Rightarrow> bool" where
  "safe F P m \<longleftrightarrow> (\<forall>d. tame (ds_in d) \<longrightarrow> (\<exists>r d'. m d = Some (r, d') \<and> framed F d d' \<and> shrunk (ds_in d) (ds_in d') \<and>
     (\<forall>x. r = Some x \<longrightarrow> P x)))"

lemma safeI:
  "(\<And>d. tame (ds_in d) \<Longrightarrow> \<exists>r d'. m d = Some (r, d') \<and> framed F d d' \<and> shrunk (ds_in d) (ds_in d') \<and> (\<forall>x. r = Some x \<longrightarrow> P x)) \<Longrightarrow>
    safe F P m"
  by (simp add: safe_def)

lemma safeE:
  assumes "safe F P m" "tame (ds_in d)"
  obtains r d' where "m d = Some (r, d')" "framed F d d'" "shrunk (ds_in d) (ds_in d')" "\<And>x. r = Some x \<Longrightarrow> P x"
  using assms unfolding safe_def by blast

lemma framed_refl [simp]: "framed F d d"
  by (simp add: framed_def)

lemma framed_trans: "framed F d d' \<Longrightarrow> framed F d' d'' \<Longrightarrow> framed F d d''"
  by (simp add: framed_def)

lemma framed_in [simp]: "framed F (d\<lparr>ds_in := s\<rparr>) d' = framed F d d'" "framed F d (d'\<lparr>ds_in := s\<rparr>) = framed F d d'"
  by (simp_all add: framed_def)

lemma framed_fixed [simp]: "framed F (d\<lparr>ds_fixed := v\<rparr>) d' = framed F d d'" "framed F d (d'\<lparr>ds_fixed := v\<rparr>) = framed F d d'"
  by (simp_all add: framed_def)

lemma safe_ret [safe_intros]: "P x \<Longrightarrow> safe F P (d_ret x)"
  by (simp add: safe_def d_ret_def)

text \<open>The same for one state, for the steps whose states matter.\<close>

definition runs :: "addr set \<Rightarrow> ('a \<Rightarrow> bool) \<Rightarrow> ('s, 'h, 'a) dec \<Rightarrow> ('s, 'h) dstate \<Rightarrow> bool" where
  "runs F P m d \<longleftrightarrow> (\<exists>r d'. m d = Some (r, d') \<and> framed F d d' \<and> shrunk (ds_in d) (ds_in d') \<and> (\<forall>x. r = Some x \<longrightarrow> P x))"

lemma safe_runs: "safe F P m \<longleftrightarrow> (\<forall>d. tame (ds_in d) \<longrightarrow> runs F P m d)"
  by (simp add: safe_def runs_def)

lemma runs_ret: "P x \<Longrightarrow> runs F P (d_ret x) d"
  by (simp add: runs_def d_ret_def)

lemma runs_bind:
  assumes "runs F P m d" "tame (ds_in d)"
    and "\<And>x d'. m d = Some (Some x, d') \<Longrightarrow> P x \<Longrightarrow> tame (ds_in d') \<Longrightarrow> shrunk (ds_in d) (ds_in d') \<Longrightarrow> runs F Q (f x) d'"
  shows "runs F Q (d_bind m f) d"
proof -
  obtain r d1 where 1: "m d = Some (r, d1)" "framed F d d1" "shrunk (ds_in d) (ds_in d1)" "\<And>x. r = Some x \<Longrightarrow> P x"
    using assms(1) unfolding runs_def by metis
  show ?thesis
  proof (cases r)
    case None
    then show ?thesis
      using 1 by (simp add: runs_def d_bind_def)
  next
    case (Some x)
    then have "runs F Q (f x) d1"
      using 1 shrunk_tame [OF 1(3) assms(2)] by (intro assms(3)) simp_all
    then show ?thesis
      using 1 Some framed_trans shrunk_trans unfolding runs_def by (auto simp: d_bind_def)
  qed
qed

lemma safe_bind: "safe F P m \<Longrightarrow> (\<And>x. P x \<Longrightarrow> safe F Q (f x)) \<Longrightarrow> safe F Q (d_bind m f)"
  unfolding safe_runs by (auto intro: runs_bind)

lemma safe_seq [safe_intros]: "safe F (\<lambda>_. True) m \<Longrightarrow> (\<And>x. safe F Q (f x)) \<Longrightarrow> safe F Q (d_bind m f)"
  by (rule safe_bind)

lemma safe_state: "(\<And>d. safe F P (m d)) \<Longrightarrow> safe F P (\<lambda>d. m d d)"
  unfolding safe_def by blast

lemma safe_if [safe_intros]: "(b \<Longrightarrow> safe F P m) \<Longrightarrow> (\<not> b \<Longrightarrow> safe F P m') \<Longrightarrow> safe F P (if b then m else m')"
  by simp

lemma safe_stream [safe_intros]: "shrinks f \<Longrightarrow> safe F (\<lambda>_. True) (on_stream f)"
  by (rule safeI) (auto simp: on_stream_def intro: shrinksD split: prod.splits)

lemma safe_error [safe_intros]: "safe F P (d_error msg)"
  by (rule safeI) (simp add: d_error_def on_stream_def is_error_def shrunk_def left_def)

lemma safe_store [safe_intros]: "area a (length bs) \<subseteq> F \<Longrightarrow> safe F (\<lambda>_. True) (d_store a bs)"
  by (rule safeI) (auto simp: d_store_def framed_def intro!: store_outside)

lemma safe_mem:
  assumes "\<And>m. \<exists>m'. f m = Some m' \<and> (\<forall>a. a \<notin> F \<longrightarrow> m' a = m a)"
  shows "safe F (\<lambda>_. True) (d_mem f)"
proof (rule safeI)
  fix d :: "('a, 'b) dstate"
  obtain m' where "f (ds_mem d) = Some m'" "\<forall>a. a \<notin> F \<longrightarrow> m' a = ds_mem d a"
    using assms by blast
  then show "\<exists>r d'. d_mem f d = Some (r, d') \<and> framed F d d' \<and> shrunk (ds_in d) (ds_in d') \<and> (\<forall>x. r = Some x \<longrightarrow> True)"
    by (simp add: d_mem_def framed_def)
qed

lemma safe_heap: "(\<And>mh. f mh = Some mh) \<Longrightarrow> safe F (\<lambda>_. True) (d_heap f)"
  by (rule safeI) (simp add: d_heap_def)

text \<open>The cell of a size.\<close>

definition size_area :: "size_ref \<Rightarrow> addr set" where
  "size_area r = (case r of At a \<Rightarrow> area a 4 | Fixed_count \<Rightarrow> {})"

lemma safe_write_size [safe_intros]: "size_area r \<subseteq> F \<Longrightarrow> safe F (\<lambda>_. True) (write_size r v)"
proof (cases r)
  case Fixed_count
  show ?thesis
    by (rule safeI) (simp add: write_size_def Fixed_count)
qed (auto simp: write_size_def size_area_def bytes32_def intro!: safe_store)

lemma safe_subset: "safe F P m \<Longrightarrow> F \<subseteq> G \<Longrightarrow> safe G P m"
  unfolding safe_def framed_def by blast

text \<open>Substreams: \<open>body\<close> must leave a stream no longer than the parent.\<close>

definition closes :: "addr set \<Rightarrow> ('s istream \<Rightarrow> ('s, 'h, 'a) dec) \<Rightarrow> bool" where
  "closes F body \<longleftrightarrow> (\<forall>stream d. tame (ds_in d) \<longrightarrow> is_custom (ds_in d) = is_custom stream \<longrightarrow>
     (\<exists>r d'. body stream d = Some (r, d') \<and> framed F d d' \<and> shrunk stream (ds_in d')))"

lemma safe_substream [safe_intros]:
  assumes "closes F body"
  shows "safe F (\<lambda>_. True) (with_substream body)"
proof (rule safeI)
  fix d :: "('a, 'b) dstate"
  assume t: "tame (ds_in d)"
  obtain q s where q: "pb_make_string_substream (ds_in d) = (q, s)"
    by fastforce
  show "\<exists>r d'. with_substream body d = Some (r, d') \<and> framed F d d' \<and> shrunk (ds_in d) (ds_in d') \<and> (\<forall>x. r = Some x \<longrightarrow> True)"
  proof (cases q)
    case None
    then show ?thesis
      using q substream_parts(1) [OF q] by (simp add: with_substream_def)
  next
    case (Some sub)
    have c: "is_custom sub = is_custom (ds_in d)" "shrunk (ds_in d) s"
      using substream_parts [OF q] Some by simp_all
    then have "tame sub" "is_custom sub = is_custom s"
      using t by (simp_all add: tame_def shrunk_def)
    then obtain r d' where "body s (d\<lparr>ds_in := sub\<rparr>) = Some (r, d')" "framed F (d\<lparr>ds_in := sub\<rparr>) d'" "shrunk s (ds_in d')"
      using assms unfolding closes_def by (metis select_convs(1) dstate.surjective dstate.update_convs(1) dstate.select_convs(1))
    then show ?thesis
      using q Some shrunk_trans [OF c(2)] by (simp add: with_substream_def)
  qed
qed

lemma close_with_parts:
  assumes "is_custom (ds_in d) = is_custom stream"
  shows "\<exists>r d'. close_with stream status d = Some (r, d') \<and> framed F d d' \<and> shrunk stream (ds_in d')"
proof -
  obtain r s' where c: "pb_close_string_substream (ds_in d) stream = (r, s')"
    by fastforce
  have "shrunk stream s'"
    using close_parts [OF c assms] .
  then show ?thesis
    using c by (simp add: close_with_def close_def d_bind_def framed_def split: option.split)
qed

section \<open>Scalar fields\<close>

lemma length_bytes [simp]: "length (bytes32 v) = 4" "length (bytes64 w) = 8"
  by (simp_all add: bytes32_def bytes64_def)

lemma area_sub: "m \<le> n \<Longrightarrow> area a n \<subseteq> F \<Longrightarrow> area a m \<subseteq> F"
  using area_mono by blast

lemma safe_narrow: "area dest (unat (fd_data_size field)) \<subseteq> F \<Longrightarrow> safe F (\<lambda>_. True) (store_narrow field dest v c)"
  unfolding store_narrow_def by (cases c) (auto intro!: safe_intros)

lemma safe_read: "safe F (\<lambda>bs. length bs \<le> unat n) (on_stream (pb_read n))"
  unfolding safe_runs runs_def
proof (intro allI impI)
  fix d :: "('a, 'b) dstate"
  assume t: "tame (ds_in d)"
  obtain r s' where r: "pb_read n (ds_in d) = (r, s')"
    by fastforce
  then show "\<exists>r d'. on_stream (pb_read n) d = Some (r, d') \<and> framed F d d' \<and> shrunk (ds_in d) (ds_in d') \<and>
      (\<forall>x. r = Some x \<longrightarrow> length x \<le> unat n)"
    using t pb_read_parts(1) [OF r] pb_read_length [of n "ds_in d"] by (auto simp: on_stream_def)
qed

lemma safe_read_into [safe_intros]: "area dest (unat n) \<subseteq> F \<Longrightarrow> safe F (\<lambda>_. True) (read_into dest n)"
  unfolding read_into_def by (rule safe_bind [OF safe_read], rule safe_store, erule area_sub)

text \<open>A step that takes at least one byte if it succeeds.\<close>

definition feeds :: "('s, 'h, 'a) dec \<Rightarrow> bool" where
  "feeds m \<longleftrightarrow> (\<forall>d x d'. m d = Some (Some x, d') \<longrightarrow> left (ds_in d') < left (ds_in d))"

lemma feeds_stream: "eats f \<Longrightarrow> feeds (on_stream f)"
  by (auto simp: feeds_def eats_def on_stream_def split: prod.splits)

text \<open>A step that does not touch the stream.\<close>

definition dry :: "('s, 'h, 'a) dec \<Rightarrow> bool" where
  "dry m \<longleftrightarrow> (\<forall>d x d'. m d = Some (Some x, d') \<longrightarrow> ds_in d' = ds_in d)"

lemma feeds_bind: "feeds m \<Longrightarrow> (\<And>x. dry (f x)) \<Longrightarrow> feeds (d_bind m f)"
  unfolding feeds_def
proof (intro allI impI)
  fix d y d'
  assume m: "\<forall>d x d'. m d = Some (Some x, d') \<longrightarrow> left (ds_in d') < left (ds_in d)" and f: "\<And>x. dry (f x)"
    and "d_bind m f d = Some (Some y, d')"
  then obtain x d1 where "m d = Some (Some x, d1)" "f x d1 = Some (Some y, d')"
    by (auto simp: d_bind_def split: option.splits prod.splits)
  then show "left (ds_in d') < left (ds_in d)"
    using m f [of x] unfolding dry_def by metis
qed

lemma dry_store: "dry (d_store a bs)"
  by (simp add: dry_def d_store_def)

lemma dry_narrow: "dry (store_narrow field dest v c)"
  unfolding store_narrow_def dry_def
  by (auto simp: d_bind_def d_store_def d_ret_def d_error_def on_stream_def is_error_def split: option.splits if_splits)

lemma scalar_decoders_feed:
  "feeds (pb_dec_varint field dest)" "feeds (pb_dec_uvarint field dest)" "feeds (pb_dec_svarint field dest)"
  "feeds (pb_dec_fixed32 dest)" "feeds (pb_dec_fixed64 dest)"
  unfolding pb_dec_varint_def pb_dec_uvarint_def pb_dec_svarint_def pb_dec_fixed32_def pb_dec_fixed64_def Let_def
  by (intro feeds_bind feeds_stream eats_varint eats_svarint eats_fixed dry_narrow dry_store)+

lemma safe_scalars:
  assumes "area dest (unat (fd_data_size field)) \<subseteq> F"
  shows "safe F (\<lambda>_. True) (pb_dec_varint field dest)" "safe F (\<lambda>_. True) (pb_dec_uvarint field dest)"
    and "safe F (\<lambda>_. True) (pb_dec_svarint field dest)"
  unfolding pb_dec_varint_def pb_dec_uvarint_def pb_dec_svarint_def Let_def
  by (intro safe_seq safe_stream safe_narrow assms eats_shrinks eats_varint eats_svarint)+

lemma safe_fixed:
  "area dest 4 \<subseteq> F \<Longrightarrow> safe F (\<lambda>_. True) (pb_dec_fixed32 dest)"
  "area dest 8 \<subseteq> F \<Longrightarrow> safe F (\<lambda>_. True) (pb_dec_fixed64 dest)"
  unfolding pb_dec_fixed32_def pb_dec_fixed64_def
  by (auto intro!: safe_intros eats_shrinks eats_fixed)

lemma safe_fixed_length:
  "area dest (unat (fd_data_size field)) \<subseteq> F \<Longrightarrow> safe F (\<lambda>_. True) (pb_dec_fixed_length_bytes field dest)"
  unfolding pb_dec_fixed_length_bytes_def
  by (intro safe_seq safe_stream safe_if safe_error safe_store safe_read_into eats_shrinks eats_varint32)
     (simp_all add: unsigned_ucast_eq take_bit_nat_eq_self unat_lt32 [THEN order_less_trans])

text \<open>Strings and bytes need the room of the C types: a length or a terminator more than the data.\<close>

lemma safe_bytes:
  assumes "area dest (unat (fd_data_size field)) \<subseteq> F" "PB_ATYPE (fd_type field) = PB_ATYPE_STATIC"
  shows "safe F (\<lambda>_. True) (pb_dec_bytes env field dest)"
  unfolding pb_dec_bytes_def Let_def
proof (rule safe_seq [OF safe_stream [OF eats_shrinks [OF eats_varint32]]], intro safe_if safe_error)
  fix n :: u32
  let ?alloc = "ucast n + 4 :: usize"
  show "safe F (\<lambda>_. True) (d_bind
      (if PB_ATYPE (fd_type field) = PB_ATYPE_POINTER then
         d_bind (allocate_field env dest ?alloc 1) (\<lambda>_ d. d_ret (load64 (ds_mem d) dest) d)
       else if ?alloc > ucast (fd_data_size field) then d_error ''bytes overflow''
       else d_ret dest)
      (\<lambda>bdest. d_bind (d_store bdest (bytes32 n)) (\<lambda>_. read_into (bdest + 4) (ucast n))))"
  proof (rule safe_bind [where P = "\<lambda>b. b = dest \<and> \<not> ?alloc > ucast (fd_data_size field)"])
    show "safe F (\<lambda>b. b = dest \<and> \<not> ?alloc > ucast (fd_data_size field))
      (if PB_ATYPE (fd_type field) = PB_ATYPE_POINTER then
         d_bind (allocate_field env dest ?alloc 1) (\<lambda>_ d. d_ret (load64 (ds_mem d) dest) d)
       else if ?alloc > ucast (fd_data_size field) then d_error ''bytes overflow''
       else d_ret dest)"
      using assms(2) by (auto simp: atypes intro!: safe_intros)
    fix b
    assume b: "b = dest \<and> \<not> ?alloc > ucast (fd_data_size field)"
    have "unat ?alloc = unat n + 4"
      using unat_lt32 [of n] by (simp add: unat_add64 unsigned_ucast_eq take_bit_nat_eq_self)
    then have le: "4 + unat n \<le> unat (fd_data_size field)"
      using b unat_lt32 [of "fd_data_size field"]
      by (simp add: word_less_nat_alt unsigned_ucast_eq take_bit_nat_eq_self not_less)
    have u: "unat (ucast n :: usize) = unat n"
      using unat_lt32 [of n] by (simp add: unsigned_ucast_eq take_bit_nat_eq_self)
    have "area (dest + 4) (unat n) \<subseteq> F" "area dest 4 \<subseteq> F"
      using area_offset [of 4 "unat n" "unat (fd_data_size field)" dest] area_mono [of 4 "unat (fd_data_size field)" dest] le assms(1)
      by auto
    then show "safe F (\<lambda>_. True) (d_bind (d_store b (bytes32 n)) (\<lambda>_. read_into (b + 4) (ucast n)))"
      using b u by (auto intro!: safe_intros)
  qed
qed

lemma safe_terminated:
  assumes "area dest (unat n + 1) \<subseteq> F"
  shows "safe F (\<lambda>_. True) (\<lambda>d. case read_into dest n d of
      None \<Rightarrow> None
    | Some (status, d) \<Rightarrow> Some (status, d\<lparr>ds_mem := store (dest + n) [0] (ds_mem d)\<rparr>))"
proof (rule safeI)
  fix d :: "('a, 'b) dstate"
  assume t: "tame (ds_in d)"
  have "area dest (unat n) \<subseteq> F"
    by (rule area_sub [OF _ assms]) simp
  from safeE [OF safe_read_into [OF this] t]
  obtain r d' where r: "read_into dest n d = Some (r, d')" "framed F d d'" "shrunk (ds_in d) (ds_in d')"
    by metis
  have "dest + n \<in> area dest (unat n + 1)"
    unfolding area_def by (rule image_eqI [of _ _ "unat n"]) simp_all
  then show "\<exists>r d'. (case read_into dest n d of None \<Rightarrow> None
      | Some (status, d) \<Rightarrow> Some (status, d\<lparr>ds_mem := store (dest + n) [0] (ds_mem d)\<rparr>)) = Some (r, d') \<and>
      framed F d d' \<and> shrunk (ds_in d) (ds_in d') \<and> (\<forall>x. r = Some x \<longrightarrow> True)"
    using r assms by (auto simp: framed_def)
qed

lemma safe_string:
  assumes "area dest (unat (fd_data_size field)) \<subseteq> F" "PB_ATYPE (fd_type field) = PB_ATYPE_STATIC"
  shows "safe F (\<lambda>_. True) (pb_dec_string env field dest)"
  unfolding pb_dec_string_def Let_def
proof (rule safe_seq [OF safe_stream [OF eats_shrinks [OF eats_varint32]]], intro safe_if safe_error)
  fix n :: u32
  let ?alloc = "ucast (n + 1) :: usize"
  assume big: "\<not> ?alloc < ucast n"
  show "safe F (\<lambda>_. True) (d_bind
      (if PB_ATYPE (fd_type field) = PB_ATYPE_POINTER then
         d_bind (allocate_field env dest ?alloc 1) (\<lambda>_ d. d_ret (load64 (ds_mem d) dest) d)
       else if ?alloc > ucast (fd_data_size field) then d_error ''string overflow''
       else d_ret dest)
      (\<lambda>dest d. case read_into dest (ucast n) d of
           None \<Rightarrow> None
         | Some (status, d) \<Rightarrow> Some (status, d\<lparr>ds_mem := store (dest + ucast n) [0] (ds_mem d)\<rparr>)))"
  proof (rule safe_bind [where P = "\<lambda>b. b = dest \<and> \<not> ?alloc > ucast (fd_data_size field)"])
    show "safe F (\<lambda>b. b = dest \<and> \<not> ?alloc > ucast (fd_data_size field))
      (if PB_ATYPE (fd_type field) = PB_ATYPE_POINTER then
         d_bind (allocate_field env dest ?alloc 1) (\<lambda>_ d. d_ret (load64 (ds_mem d) dest) d)
       else if ?alloc > ucast (fd_data_size field) then d_error ''string overflow''
       else d_ret dest)"
      using assms(2) by (auto simp: atypes intro!: safe_intros)
    fix b
    assume b: "b = dest \<and> \<not> ?alloc > ucast (fd_data_size field)"
    have "\<not> unat (n + 1) < unat n"
      using big unat_lt32 [of "n + 1"] unat_lt32 [of n]
      by (simp add: word_less_nat_alt unsigned_ucast_eq take_bit_nat_eq_self)
    then have "unat (n + 1) = unat n + 1"
      using unat_lt32 [of n] by (auto simp: unat_word_ariths mod_if split: if_splits)
    then have "unat n + 1 \<le> unat (fd_data_size field)"
      using b unat_lt32 [of "fd_data_size field"] unat_lt32 [of "n + 1"]
      by (simp add: word_less_nat_alt unsigned_ucast_eq take_bit_nat_eq_self not_less)
    then have "area dest (unat n + 1) \<subseteq> F"
      by (rule area_sub [OF _ assms(1)])
    moreover have "unat (ucast n :: usize) = unat n"
      using unat_lt32 [of n] by (simp add: unsigned_ucast_eq take_bit_nat_eq_self)
    ultimately have "area b (unat (ucast n :: usize) + 1) \<subseteq> F"
      using b by simp
    then show "safe F (\<lambda>_. True) (\<lambda>d. case read_into b (ucast n) d of
           None \<Rightarrow> None
         | Some (status, d) \<Rightarrow> Some (status, d\<lparr>ds_mem := store (b + ucast n) [0] (ds_mem d)\<rparr>))"
      by (rule safe_terminated)
  qed
qed

end
