(* ===== verification/Nanopb_Decode_Safe.thy ===== *)
theory Nanopb_Decode_Safe
  imports Nanopb_Decode_Frame
begin

text \<open>
  The message decoder on hostile input.  For message types whose fields are all static and fit in
  their structure, decoding returns on every input and from every stream, writes only inside the
  destination structure, and leaves the heap alone.
\<close>

section \<open>Static message types\<close>

text \<open>The bytes of a field: the whole array for a repeated field.\<close>

definition data_len :: "pb_field \<Rightarrow> nat" where
  "data_len field = (if PB_HTYPE (fd_type field) = PB_HTYPE_REPEATED then unat (fd_data_size field) * unat (fd_array_size field)
     else unat (fd_data_size field))"

text \<open>\<open>good\<close> says which message types may be nested.\<close>

definition static_field :: "(pb_field list \<Rightarrow> nat \<Rightarrow> bool) \<Rightarrow> (addr \<Rightarrow> pb_field list) \<Rightarrow> pb_field \<Rightarrow> bool" where
  "static_field good descs field \<longleftrightarrow>
     (let t = fd_type field; l = PB_LTYPE t; len = unat (fd_data_size field)
      in PB_ATYPE t = PB_ATYPE_STATIC \<and> (l \<le> PB_LTYPE_SUBMESSAGE \<or> l = PB_LTYPE_FIXED_LENGTH_BYTES) \<and>
         (l = PB_LTYPE_FIXED32 \<longrightarrow> len = 4) \<and> (l = PB_LTYPE_FIXED64 \<longrightarrow> len = 8) \<and>
         (l = PB_LTYPE_SUBMESSAGE \<longrightarrow> fd_ptr field \<noteq> 0 \<and> good (descs (fd_ptr field)) len))"

text \<open>
  The places the decoder writes to, for an iterator over a structure at address 0.  A repeated field
  needs four bytes at \<open>pSize\<close> even when its count is fixed.
\<close>

definition fits :: "pb_field_iter \<Rightarrow> nat \<Rightarrow> bool" where
  "fits iter len \<longleftrightarrow>
     (let field = cur iter; h = PB_HTYPE (fd_type field)
      in data_len field < 2 ^ 32 \<and> unat (it_pData iter) + data_len field \<le> len \<and>
         (h = PB_HTYPE_OPTIONAL \<and> it_pSize iter \<noteq> it_pData iter \<longrightarrow> unat (it_pSize iter) + 1 \<le> len) \<and>
         (h = PB_HTYPE_REPEATED \<or> h = PB_HTYPE_ONEOF \<longrightarrow> unat (it_pSize iter) + 4 \<le> len))"

text \<open>A message type of static fields, nested less than \<open>n\<close> deep, for a structure of \<open>len\<close> bytes.\<close>

primrec static_message :: "nat \<Rightarrow> (addr \<Rightarrow> pb_field list) \<Rightarrow> pb_field list \<Rightarrow> nat \<Rightarrow> bool" where
  "static_message 0 descs fds len \<longleftrightarrow> False"
| "static_message (Suc n) descs fds len \<longleftrightarrow>
     terminated fds \<and> last fds = PB_LAST_FIELD \<and>
     list_all (\<lambda>k. static_field (static_message n descs) descs (fds ! k) \<and> fits (iter_at fds 0 k) len) [0..<nfields fds]"

section \<open>The iterator in a structure\<close>

text \<open>The structure at another address.\<close>

definition shift :: "addr \<Rightarrow> pb_field_iter \<Rightarrow> pb_field_iter" where
  "shift dest iter = iter\<lparr>it_dest_struct := dest + it_dest_struct iter, it_pData := dest + it_pData iter,
     it_pSize := dest + it_pSize iter\<rparr>"

lemma shift_next: "snd (pb_field_iter_next (shift dest iter)) = shift dest (snd (pb_field_iter_next iter))"
  by (auto simp: pb_field_iter_next_def pb_field_iter_begin_def shift_def cur_def Let_def)

lemma iter_at_shift: "iter_at fds dest k = shift dest (iter_at fds 0 k)"
proof (induction k)
  case 0
  then show ?case
    by (simp add: pb_field_iter_begin_def shift_def Let_def)
next
  case (Suc k)
  then show ?case
    by (simp add: shift_next)
qed

text \<open>The writable places of a field lie in the structure.\<close>

lemma area_at: "unat off + n \<le> len \<Longrightarrow> area (dest + off) n \<subseteq> area dest len"
  using area_offset [of "unat off" n len dest] by simp

definition inside :: "addr set \<Rightarrow> pb_field_iter \<Rightarrow> bool" where
  "inside F iter \<longleftrightarrow>
     (let field = cur iter; h = PB_HTYPE (fd_type field)
      in data_len field < 2 ^ 32 \<and> area (it_pData iter) (data_len field) \<subseteq> F \<and>
         (h = PB_HTYPE_OPTIONAL \<and> it_pSize iter \<noteq> it_pData iter \<longrightarrow> area (it_pSize iter) 1 \<subseteq> F) \<and>
         (h = PB_HTYPE_REPEATED \<or> h = PB_HTYPE_ONEOF \<longrightarrow> area (it_pSize iter) 4 \<subseteq> F))"

lemma fits_inside:
  assumes "fits (iter_at fds 0 k) len"
  shows "inside (area dest len) (iter_at fds dest k)"
proof -
  have s: "it_pData (iter_at fds dest k) = dest + it_pData (iter_at fds 0 k)"
      "it_pSize (iter_at fds dest k) = dest + it_pSize (iter_at fds 0 k)"
      "cur (iter_at fds dest k) = cur (iter_at fds 0 k)"
    using iter_at_shift [of fds dest k] by (simp_all add: shift_def cur_def)
  show ?thesis
    using assms unfolding inside_def fits_def Let_def s by (intro conjI impI area_at) (simp_all split: if_splits)
qed

lemma inside_data: "inside F iter \<Longrightarrow> area (it_pData iter) (data_len (cur iter)) \<subseteq> F"
  by (simp add: inside_def Let_def)

lemma inside_single:
  "inside F iter \<Longrightarrow> PB_HTYPE (fd_type (cur iter)) \<noteq> PB_HTYPE_REPEATED \<Longrightarrow>
    area (it_pData iter) (unat (fd_data_size (cur iter))) \<subseteq> F"
  by (simp add: inside_def data_len_def Let_def)

lemma inside_size:
  "inside F iter \<Longrightarrow> PB_HTYPE (fd_type (cur iter)) = PB_HTYPE_REPEATED \<or> PB_HTYPE (fd_type (cur iter)) = PB_HTYPE_ONEOF \<Longrightarrow>
    area (it_pSize iter) 4 \<subseteq> F"
  by (auto simp: inside_def Let_def)

lemma inside_has:
  "inside F iter \<Longrightarrow> PB_HTYPE (fd_type (cur iter)) = PB_HTYPE_OPTIONAL \<Longrightarrow> it_pSize iter \<noteq> it_pData iter \<Longrightarrow>
    area (it_pSize iter) 1 \<subseteq> F"
  by (simp add: inside_def Let_def)

text \<open>An entry of an array lies in the array.\<close>

lemma entry_in_array:
  assumes "unat i < unat (fd_array_size field)" "unat (fd_data_size field) * unat (fd_array_size field) < 2 ^ 32"
  shows "area (entry_addr base field i) (unat (fd_data_size field)) \<subseteq>
    area base (unat (fd_data_size field) * unat (fd_array_size field))"
proof -
  let ?s = "unat (fd_data_size field)" and ?n = "unat (fd_array_size field)"
  have "?s * unat i + ?s \<le> ?s * ?n"
    using mult_le_mono2 [of "Suc (unat i)" ?n ?s] assms(1) by simp
  moreover have "unat (fd_data_size field * i) = ?s * unat i"
    using calculation assms(2) by (simp add: unat_word_ariths)
  then have "unat (ucast (fd_data_size field * i) :: usize) = ?s * unat i"
    using unat_lt32 [of "fd_data_size field * i"] by (simp add: unsigned_ucast_eq take_bit_nat_eq_self)
  ultimately show ?thesis
    unfolding entry_addr_def by (intro area_at) simp
qed

section \<open>Default values and releasing\<close>

definition resets :: "addr set \<Rightarrow> (memory \<Rightarrow> memory option) \<Rightarrow> bool" where
  "resets F f \<longleftrightarrow> (\<forall>m. \<exists>m'. f m = Some m' \<and> (\<forall>a. a \<notin> F \<longrightarrow> m' a = m a))"

lemma fields_default_resets:
  assumes "terminated fds" "\<And>k. k < nfields fds \<Longrightarrow> resets F (f (iter_at fds dest k))"
  shows "k < nfields fds \<Longrightarrow> nfields fds - k \<le> j \<Longrightarrow> resets F (fields_default j f (iter_at fds dest k))"
proof (induction j arbitrary: k)
  case (Suc j)
  have n: "pb_field_iter_next (iter_at fds dest k) =
      (k + 1 < nfields fds, iter_at fds dest (if k + 1 < nfields fds then k + 1 else 0))"
    by (rule next_iter_at [OF assms(1) Suc.prems(1)])
  show ?case
    unfolding resets_def
  proof
    fix m
    obtain m1 where 1: "f (iter_at fds dest k) m = Some m1" "\<forall>a. a \<notin> F \<longrightarrow> m1 a = m a"
      using assms(2) [OF Suc.prems(1)] unfolding resets_def by blast
    show "\<exists>m'. fields_default (Suc j) f (iter_at fds dest k) m = Some m' \<and> (\<forall>a. a \<notin> F \<longrightarrow> m' a = m a)"
    proof (cases "k + 1 < nfields fds")
      case True
      then have "resets F (fields_default j f (iter_at fds dest (k + 1)))"
        using Suc.prems(2) by (intro Suc.IH) simp_all
      then obtain m2 where "fields_default j f (iter_at fds dest (k + 1)) m1 = Some m2" "\<forall>a. a \<notin> F \<longrightarrow> m2 a = m1 a"
        unfolding resets_def by blast
      then show ?thesis
        using 1 n True by (simp del: iter_at.simps)
    qed (use 1 n in \<open>simp del: iter_at.simps\<close>)
  qed
qed simp

lemma message_default_resets:
  assumes "terminated fds" "\<And>k. k < nfields fds \<Longrightarrow> resets F (f (iter_at fds dest k))"
  shows "resets F (message_default f fds dest)"
proof (cases "nfields fds = 0")
  case True
  then have "fd_tag (fds ! 0) = 0"
    using terminated_tags [OF assms(1), of 0] by simp
  then show ?thesis
    by (simp add: resets_def message_default_def pb_field_iter_begin_def Let_def)
next
  case False
  then have "fd_tag (fds ! 0) \<noteq> 0"
    using terminated_tags [OF assms(1), of 0] by simp
  then have "pb_field_iter_begin fds dest = (True, iter_at fds dest 0)"
    by (simp add: pb_field_iter_begin_def Let_def)
  moreover have "resets F (fields_default (length fds) f (iter_at fds dest 0))"
    using False by (intro fields_default_resets assms) (simp_all add: nfields_def)
  ultimately show ?thesis
    by (simp add: resets_def message_default_def del: iter_at.simps)
qed

lemma store_elsewhere: "area a (length bs) \<subseteq> F \<Longrightarrow> x \<notin> F \<Longrightarrow> store a bs m x = m x"
  by (rule store_outside) auto

lemma htypes_differ:
  "PB_HTYPE_OPTIONAL \<noteq> PB_HTYPE_REPEATED" "PB_HTYPE_REPEATED \<noteq> PB_HTYPE_OPTIONAL" "PB_HTYPE_REQUIRED \<noteq> PB_HTYPE_OPTIONAL"
  "PB_HTYPE_REQUIRED \<noteq> PB_HTYPE_REPEATED" "PB_HTYPE_REQUIRED \<noteq> PB_HTYPE_ONEOF" "PB_HTYPE_OPTIONAL \<noteq> PB_HTYPE_ONEOF"
  "PB_HTYPE_REPEATED \<noteq> PB_HTYPE_ONEOF" "PB_HTYPE_ONEOF \<noteq> PB_HTYPE_OPTIONAL" "PB_HTYPE_ONEOF \<noteq> PB_HTYPE_REPEATED"
  "PB_HTYPE_REPEATED \<noteq> PB_HTYPE_REQUIRED" "PB_HTYPE_OPTIONAL \<noteq> PB_HTYPE_REQUIRED" "PB_HTYPE_ONEOF \<noteq> PB_HTYPE_REQUIRED"
  by (simp_all add: htypes)

lemma static_not_extension: "static_field good descs field \<Longrightarrow> PB_LTYPE (fd_type field) \<noteq> PB_LTYPE_EXTENSION"
  by (auto simp: static_field_def Let_def ltypes)

lemma field_default_resets:
  assumes "static_field good descs (cur iter)" "inside F iter"
    and sub: "\<And>fds len dest. good fds len \<Longrightarrow> resets (area dest len) (message_default (pb_field_set_to_default n descs) fds dest)"
  shows "resets F (pb_field_set_to_default (Suc n) descs iter)"
  unfolding resets_def
proof
  fix m
  let ?f = "cur iter" and ?t = "fd_type (cur iter)"
  define init where "init m = (if PB_LTYPE ?t = PB_LTYPE_SUBMESSAGE then
      message_default (pb_field_set_to_default n descs) (descs (fd_ptr ?f)) (it_pData iter) m
    else if fd_ptr ?f \<noteq> 0 then Some (store (it_pData iter) (load m (fd_ptr ?f) (unat (fd_data_size ?f))) m)
    else Some (store (it_pData iter) (replicate (unat (fd_data_size ?f)) 0) m))" for m
  have init: "\<exists>m'. init m = Some m' \<and> (\<forall>a. a \<notin> F \<longrightarrow> m' a = m a)" if "PB_HTYPE ?t \<noteq> PB_HTYPE_REPEATED" for m
  proof (cases "PB_LTYPE ?t = PB_LTYPE_SUBMESSAGE")
    case True
    then have "resets (area (it_pData iter) (unat (fd_data_size ?f)))
        (message_default (pb_field_set_to_default n descs) (descs (fd_ptr ?f)) (it_pData iter))"
      using assms(1) by (intro sub) (simp add: static_field_def Let_def)
    then show ?thesis
      using True inside_single [OF assms(2) that] unfolding resets_def init_def by (simp add: subset_eq) metis
  next
    case False
    then show ?thesis
      using inside_single [OF assms(2) that] by (auto simp: init_def intro!: store_elsewhere)
  qed
  have st: "PB_LTYPE ?t \<noteq> PB_LTYPE_EXTENSION" "PB_ATYPE ?t = PB_ATYPE_STATIC"
    using assms(1) by (auto simp: static_field_def Let_def ltypes)
  have b: "length (bytes32 v) = 4" for v
    by (simp add: bytes32_def)
  have step: "pb_field_set_to_default (Suc n) descs iter m =
      (if PB_HTYPE ?t = PB_HTYPE_OPTIONAL \<and> it_pSize iter \<noteq> it_pData iter then init (store (it_pSize iter) [0] m)
       else if PB_HTYPE ?t = PB_HTYPE_REPEATED \<or> PB_HTYPE ?t = PB_HTYPE_ONEOF then Some (store (it_pSize iter) (bytes32 0) m)
       else init m)"
    using st by (simp add: Let_def init_def)
  show "\<exists>m'. pb_field_set_to_default (Suc n) descs iter m = Some m' \<and> (\<forall>a. a \<notin> F \<longrightarrow> m' a = m a)"
  proof (cases "PB_HTYPE ?t = PB_HTYPE_OPTIONAL \<and> it_pSize iter \<noteq> it_pData iter")
    case True
    then obtain m' where m': "init (store (it_pSize iter) [0] m) = Some m'" "\<forall>a. a \<notin> F \<longrightarrow> m' a = store (it_pSize iter) [0] m a"
      using init [of "store (it_pSize iter) [0] m"] by (auto simp: htypes)
    moreover have "store (it_pSize iter) [0] m a = m a" if "a \<notin> F" for a
      using inside_has [OF assms(2)] True that by (intro store_elsewhere [of _ _ F]) auto
    ultimately show ?thesis
      using True step by simp
  next
    case False
    then show ?thesis
      unfolding step using init [of m] inside_size [OF assms(2)] by (auto simp: b intro!: store_elsewhere)
  qed
qed

lemma static_message_parts:
  assumes "static_message (Suc n) descs fds len"
  shows "terminated fds" "last fds = PB_LAST_FIELD"
    and "k < nfields fds \<Longrightarrow> static_field (static_message n descs) descs (fds ! k)"
    and "k < nfields fds \<Longrightarrow> inside (area dest len) (iter_at fds dest k)"
  using assms by (auto simp: list_all_iff intro: fits_inside)

lemma message_resets: "static_message n descs fds len \<Longrightarrow> resets (area dest len) (pb_message_set_to_defaults n descs fds dest)"
proof (induction n arbitrary: fds len dest)
  case (Suc n)
  note parts = static_message_parts [OF Suc.prems]
  show ?case
    unfolding pb_message_set_to_defaults_def
  proof (rule message_default_resets [OF parts(1)])
    fix k
    assume k: "k < nfields fds"
    show "resets (area dest len) (pb_field_set_to_default (Suc n) descs (iter_at fds dest k))"
      using parts(3) [OF k] parts(4) [OF k] Suc.IH parts(1) k
      by (intro field_default_resets [where good = "static_message n descs"]) (simp_all add: pb_message_set_to_defaults_def)
  qed
qed simp

text \<open>Nothing in a static message is allocated, so that releasing it does nothing.\<close>

lemma release_items_none: "(\<And>p. f p mh = Some mh) \<Longrightarrow> release_items f s c p mh = Some mh"
  by (induction c arbitrary: p) simp_all

lemma release_fields_none:
  assumes "terminated fds" "\<And>k. k < nfields fds \<Longrightarrow> f (iter_at fds dest k) mh = Some mh"
  shows "k < nfields fds \<Longrightarrow> nfields fds - k \<le> j \<Longrightarrow> release_fields j f (iter_at fds dest k) mh = Some mh"
proof (induction j arbitrary: k)
  case (Suc j)
  have n: "pb_field_iter_next (iter_at fds dest k) =
      (k + 1 < nfields fds, iter_at fds dest (if k + 1 < nfields fds then k + 1 else 0))"
    by (rule next_iter_at [OF assms(1) Suc.prems(1)])
  show ?case
  proof (cases "k + 1 < nfields fds")
    case True
    then have "release_fields j f (iter_at fds dest (k + 1)) mh = Some mh"
      using Suc.prems(2) by (intro Suc.IH) simp_all
    then show ?thesis
      using True n assms(2) [OF Suc.prems(1)] by (simp del: iter_at.simps)
  qed (use n assms(2) [OF Suc.prems(1)] in \<open>simp del: iter_at.simps\<close>)
qed simp

lemma release_message_none:
  assumes "terminated fds" "\<And>k. k < nfields fds \<Longrightarrow> f (iter_at fds dest k) mh = Some mh"
  shows "release_message f fds dest mh = Some mh"
proof (cases "nfields fds = 0")
  case True
  then have "fd_tag (fds ! 0) = 0"
    using terminated_tags [OF assms(1), of 0] by simp
  then show ?thesis
    by (simp add: release_message_def pb_field_iter_begin_def Let_def)
next
  case False
  then have "fd_tag (fds ! 0) \<noteq> 0"
    using terminated_tags [OF assms(1), of 0] by simp
  then have "pb_field_iter_begin fds dest = (True, iter_at fds dest 0)"
    by (simp add: pb_field_iter_begin_def Let_def)
  moreover have "release_fields (length fds) f (iter_at fds dest 0) mh = Some mh"
    using False by (intro release_fields_none assms) (simp_all add: nfields_def)
  ultimately show ?thesis
    by (simp add: release_message_def del: iter_at.simps)
qed

lemma release_field_none:
  assumes "static_field good (de_fields env) (cur iter)"
    and "\<And>fds len dest. good fds len \<Longrightarrow> release_message (pb_release_single_field n env) fds dest mh = Some mh"
  shows "pb_release_single_field (Suc n) env iter mh = Some mh"
proof -
  have st: "PB_LTYPE (fd_type (cur iter)) \<noteq> PB_LTYPE_EXTENSION" "PB_ATYPE (fd_type (cur iter)) = PB_ATYPE_STATIC"
    using assms(1) by (auto simp: static_field_def Let_def ltypes)
  have "release_message (pb_release_single_field n env) (de_fields env (fd_ptr (cur iter))) p mh = Some mh"
    if "PB_LTYPE (fd_type (cur iter)) = PB_LTYPE_SUBMESSAGE" for p
    using assms(1) that by (intro assms(2)) (auto simp: static_field_def Let_def)
  then have "release_contents env (pb_release_single_field n env) n iter mh = Some mh"
    using st by (auto simp: release_contents_def Let_def intro!: release_items_none)
  moreover have "release_pointer env iter mh = Some mh"
    using st by (simp add: release_pointer_def atypes)
  ultimately show ?thesis
    by simp
qed

lemma release_none: "static_message n (de_fields env) fds len \<Longrightarrow> pb_release n env fds dest mh = Some mh"
proof (induction n arbitrary: fds len dest)
  case (Suc n)
  note parts = static_message_parts [OF Suc.prems]
  show ?case
    unfolding pb_release_def
  proof (rule release_message_none [OF parts(1)])
    fix k
    assume k: "k < nfields fds"
    show "pb_release_single_field (Suc n) env (iter_at fds dest k) mh = Some mh"
      using parts(1,3) k Suc.IH
      by (intro release_field_none [where good = "static_message n (de_fields env)"]) (simp_all add: pb_release_def)
  qed
qed simp

section \<open>Fields\<close>

text \<open>The loop over a packed array: every entry takes a byte, so that the fuel is enough.\<close>

lemma packed_loop_runs:
  fixes func :: "addr \<Rightarrow> ('s, 'h, unit) dec"
  assumes "\<And>i. unat i < unat (fd_array_size field) \<Longrightarrow> safe F (\<lambda>_. True) (func (entry_addr pData field i))"
    and "\<And>a. feeds (func a)" "size_area pSize \<subseteq> F"
  shows "tame (ds_in d) \<Longrightarrow> left (ds_in d) < k \<Longrightarrow> runs F (\<lambda>_. True) (static_packed_loop k func field pData pSize) d"
proof (induction k arbitrary: d)
  case (Suc k)
  have safe_count: "safe F (\<lambda>_. True) (\<lambda>d :: ('s, 'h) dstate. write_size pSize (read_size pSize d + 1) d)"
    by (rule safe_state, rule safe_write_size, rule assms(3))
  show ?case
  proof (cases "is_bytes_left (ds_in d) > 0 \<and> read_size pSize d < fd_array_size field")
    case True
    let ?w = "\<lambda>d. write_size pSize (read_size pSize d + 1) d"
    have "static_packed_loop (Suc k) func field pData pSize d =
        d_bind (func (entry_addr pData field (read_size pSize d))) (\<lambda>_. d_bind ?w (\<lambda>_. static_packed_loop k func field pData pSize)) d"
      using True by simp
    moreover have "runs F (\<lambda>_. True)
        (d_bind (func (entry_addr pData field (read_size pSize d))) (\<lambda>_. d_bind ?w (\<lambda>_. static_packed_loop k func field pData pSize))) d"
    proof (rule runs_bind [OF _ Suc.prems(1)])
      show "runs F (\<lambda>_. True) (func (entry_addr pData field (read_size pSize d))) d"
        using assms(1) [of "read_size pSize d"] True Suc.prems(1) by (simp add: safe_runs word_less_nat_alt)
      fix x d1
      assume 1: "func (entry_addr pData field (read_size pSize d)) d = Some (Some x, d1)" "tame (ds_in d1)"
      then have "left (ds_in d1) < left (ds_in d)"
        using assms(2) unfolding feeds_def by blast
      then have k: "left (ds_in d1) < k"
        using Suc.prems(2) by simp
      show "runs F (\<lambda>_. True) (d_bind ?w (\<lambda>_. static_packed_loop k func field pData pSize)) d1"
      proof (rule runs_bind [OF _ 1(2)])
        show "runs F (\<lambda>_. True) ?w d1"
          using safe_count 1(2) by (simp add: safe_runs)
        fix y and d2 :: "('s, 'h) dstate"
        assume "tame (ds_in d2)" "shrunk (ds_in d1) (ds_in d2)"
        then show "runs F (\<lambda>_. True) (static_packed_loop k func field pData pSize) d2"
          using k by (intro Suc.IH) (simp_all add: shrunk_def)
      qed
    qed
    ultimately show ?thesis
      by (simp add: runs_def)
  next
    case False
    then show ?thesis
      by (auto simp: runs_def d_ret_def)
  qed
qed simp

lemma safe_packed:
  assumes "\<And>i. unat i < unat (fd_array_size field) \<Longrightarrow> safe F (\<lambda>_. True) (func (entry_addr pData field i))"
    and "\<And>a. feeds (func a)" "size_area pSize \<subseteq> F"
  shows "safe F (\<lambda>_. True) (static_packed func field pData pSize)"
  unfolding static_packed_def
proof (rule safe_substream, unfold closes_def, intro allI impI)
  fix stream :: "'a istream" and d :: "('a, 'b) dstate"
  assume t: "tame (ds_in d)" and c: "is_custom (ds_in d) = is_custom stream"
  have "runs F (\<lambda>_. True) (static_packed_loop (Suc (unat (is_bytes_left (ds_in d)))) func field pData pSize) d"
    using t by (intro packed_loop_runs assms) (simp_all add: left_def)
  then obtain r d' where r: "static_packed_loop (Suc (unat (is_bytes_left (ds_in d)))) func field pData pSize d = Some (r, d')"
      "framed F d d'" "shrunk (ds_in d) (ds_in d')"
    unfolding runs_def by blast
  then have "is_custom (ds_in d') = is_custom stream"
    using c by (simp add: shrunk_def)
  then obtain q d2 where "close_with stream r d' = Some (q, d2)" "framed F d' d2" "shrunk stream (ds_in d2)"
    using close_with_parts by metis
  then show "\<exists>r d'. (case static_packed_loop (Suc (unat (is_bytes_left (ds_in d)))) func field pData pSize d of
       None \<Rightarrow> None
     | Some (status, d) \<Rightarrow>
         if is_bytes_left (ds_in d) \<noteq> 0 then d_error ''array overflow'' (d\<lparr>ds_in := stream\<rparr>)
         else close_with stream status d) = Some (r, d') \<and> framed F d d' \<and> shrunk stream (ds_in d')"
    using r by (auto simp: d_error_def on_stream_def is_error_def shrunk_def left_def intro: framed_trans)
qed

lemma decoder_table:
  "PB_DECODERS env ds PB_LTYPE_VARINT field dest = pb_dec_varint field dest"
  "PB_DECODERS env ds PB_LTYPE_UVARINT field dest = pb_dec_uvarint field dest"
  "PB_DECODERS env ds PB_LTYPE_SVARINT field dest = pb_dec_svarint field dest"
  "PB_DECODERS env ds PB_LTYPE_FIXED32 field dest = pb_dec_fixed32 dest"
  "PB_DECODERS env ds PB_LTYPE_FIXED64 field dest = pb_dec_fixed64 dest"
  "PB_DECODERS env ds PB_LTYPE_BYTES field dest = pb_dec_bytes env field dest"
  "PB_DECODERS env ds PB_LTYPE_STRING field dest = pb_dec_string env field dest"
  "PB_DECODERS env ds PB_LTYPE_SUBMESSAGE field dest = pb_dec_submessage env ds field dest"
  "PB_DECODERS env ds PB_LTYPE_FIXED_LENGTH_BYTES field dest = pb_dec_fixed_length_bytes field dest"
  unfolding PB_DECODERS_def ltypes by simp_all

text \<open>
  What the decoder of a message needs of the decoders one level down: \<open>good\<close> message types are
  decoded inside their structure, their defaults are set inside it, and there is nothing to release.
\<close>

locale submessages =
  fixes env :: "('s, 'h) dec_env" and ds :: "('s, 'h) decoders" and good :: "pb_field list \<Rightarrow> nat \<Rightarrow> bool" and n :: nat
  assumes noinit_safe: "good fds len \<Longrightarrow> safe (area dest len) (\<lambda>_. True) (noinit ds fds dest)"
    and full_safe: "good fds len \<Longrightarrow> safe (area dest len) (\<lambda>_. True) (full ds fds dest)"
    and defaults_reset: "good fds len \<Longrightarrow> resets (area dest len) (defaults ds fds dest)"
    and nothing_held: "static_field good (de_fields env) (cur iter) \<Longrightarrow> pb_release_single_field n env iter mh = Some mh"
begin

lemma submessage_safe:
  assumes "fd_ptr field \<noteq> 0" "good (de_fields env (fd_ptr field)) len"
  shows "safe (area dest len) (\<lambda>_. True) (pb_dec_submessage env ds field dest)"
  unfolding pb_dec_submessage_def Let_def
proof (rule safe_substream, unfold closes_def, intro allI impI)
  fix stream :: "'s istream" and d :: "('s, 'h) dstate"
  assume t: "tame (ds_in d)" and c: "is_custom (ds_in d) = is_custom stream"
  let ?m = "if PB_HTYPE (fd_type field) = PB_HTYPE_REPEATED then full ds (de_fields env (fd_ptr field)) dest
    else noinit ds (de_fields env (fd_ptr field)) dest"
  have "safe (area dest len) (\<lambda>_. True) ?m"
    using assms(2) by (simp add: full_safe noinit_safe)
  then obtain r d' where r: "?m d = Some (r, d')" "framed (area dest len) d d'" "shrunk (ds_in d) (ds_in d')"
    using safeE t by metis
  then have "is_custom (ds_in d') = is_custom stream"
    using c by (simp add: shrunk_def)
  then obtain q d2 where "close_with stream r d' = Some (q, d2)" "framed (area dest len) d' d2" "shrunk stream (ds_in d2)"
    using close_with_parts by metis
  then show "\<exists>r d'. (if fd_ptr field = 0 then d_error ''invalid field descriptor'' (d\<lparr>ds_in := stream\<rparr>)
       else case (if PB_HTYPE (fd_type field) = PB_HTYPE_REPEATED then full ds (de_fields env (fd_ptr field)) dest d
              else noinit ds (de_fields env (fd_ptr field)) dest d) of
            None \<Rightarrow> None
          | Some (status, d) \<Rightarrow> close_with stream status d) = Some (r, d') \<and> framed (area dest len) d d' \<and> shrunk stream (ds_in d')"
    using r assms(1) by (auto intro: framed_trans split: if_splits)
qed

lemma decoders_safe:
  assumes "static_field good (de_fields env) field" "area dest (unat (fd_data_size field)) \<subseteq> F"
  shows "safe F (\<lambda>_. True) (PB_DECODERS env ds (PB_LTYPE (fd_type field)) field dest)"
proof -
  let ?l = "PB_LTYPE (fd_type field)"
  have st: "PB_ATYPE (fd_type field) = PB_ATYPE_STATIC"
      "?l = PB_LTYPE_FIXED32 \<Longrightarrow> area dest 4 \<subseteq> F" "?l = PB_LTYPE_FIXED64 \<Longrightarrow> area dest 8 \<subseteq> F"
    using assms by (auto simp: static_field_def Let_def)
  have sub: "safe F (\<lambda>_. True) (pb_dec_submessage env ds field dest)" if "?l = PB_LTYPE_SUBMESSAGE"
    using assms that by (intro safe_subset [OF submessage_safe]) (auto simp: static_field_def Let_def)
  have "unat ?l \<le> 7 \<or> unat ?l = 9"
    using assms(1) by (auto simp: static_field_def Let_def ltypes word_le_nat_alt)
  then have "unat ?l \<in> {0, 1, 2, 3, 4, 5, 6, 7, 9}"
    by auto
  then have l: "?l = PB_LTYPE_VARINT \<or> ?l = PB_LTYPE_UVARINT \<or> ?l = PB_LTYPE_SVARINT \<or> ?l = PB_LTYPE_FIXED32 \<or>
      ?l = PB_LTYPE_FIXED64 \<or> ?l = PB_LTYPE_BYTES \<or> ?l = PB_LTYPE_STRING \<or> ?l = PB_LTYPE_SUBMESSAGE \<or>
      ?l = PB_LTYPE_FIXED_LENGTH_BYTES"
    by (simp add: ltypes word_unat_eq_iff)
  show ?thesis
    using l
  proof (elim disjE)
    assume l: "?l = PB_LTYPE_FIXED32"
    show ?thesis
      unfolding l decoder_table by (rule safe_fixed(1) [OF st(2) [OF l]])
  next
    assume l: "?l = PB_LTYPE_FIXED64"
    show ?thesis
      unfolding l decoder_table by (rule safe_fixed(2) [OF st(3) [OF l]])
  next
    assume l: "?l = PB_LTYPE_SUBMESSAGE"
    show ?thesis
      unfolding l decoder_table by (rule sub [OF l])
  qed (simp_all only: decoder_table safe_scalars [OF assms(2)] safe_bytes [OF assms(2) st(1)]
      safe_string [OF assms(2) st(1)] safe_fixed_length [OF assms(2)])
qed

lemma decoders_feed:
  assumes "PB_LTYPE (fd_type field) \<le> PB_LTYPE_LAST_PACKABLE"
  shows "feeds (PB_DECODERS env ds (PB_LTYPE (fd_type field)) field dest)"
proof -
  have "unat (PB_LTYPE (fd_type field)) \<in> {0, 1, 2, 3, 4}"
    using assms by (auto simp: ltypes word_le_nat_alt)
  then have "PB_LTYPE (fd_type field) = PB_LTYPE_VARINT \<or> PB_LTYPE (fd_type field) = PB_LTYPE_UVARINT \<or>
      PB_LTYPE (fd_type field) = PB_LTYPE_SVARINT \<or> PB_LTYPE (fd_type field) = PB_LTYPE_FIXED32 \<or>
      PB_LTYPE (fd_type field) = PB_LTYPE_FIXED64"
    by (simp add: ltypes word_unat_eq_iff)
  then show ?thesis
    using scalar_decoders_feed by (elim disjE) (simp_all only: decoder_table)
qed

lemma static_field_safe:
  assumes "static_field good (de_fields env) (cur iter)" "inside F iter"
    and size: "pSize = At (it_pSize iter) \<or> pSize = Fixed_count \<and> PB_HTYPE (fd_type (cur iter)) = PB_HTYPE_REPEATED"
  shows "safe F (\<lambda>_. True) (decode_static_field env ds wire_type iter pSize)"
proof -
  let ?f = "cur iter" and ?h = "PB_HTYPE (fd_type (cur iter))" and ?p = "it_pData iter"
  let ?func = "PB_DECODERS env ds (PB_LTYPE (fd_type (cur iter))) (cur iter)"
  have func: "area a (unat (fd_data_size ?f)) \<subseteq> F \<Longrightarrow> safe F (\<lambda>_. True) (?func a)" for a
    using decoders_safe [OF assms(1)] .
  have data: "?h \<noteq> PB_HTYPE_REPEATED \<Longrightarrow> area ?p (unat (fd_data_size ?f)) \<subseteq> F"
    using inside_single [OF assms(2)] .
  have cell: "?h = PB_HTYPE_REPEATED \<or> ?h = PB_HTYPE_ONEOF \<Longrightarrow> size_area pSize \<subseteq> F"
    using inside_size [OF assms(2)] size by (auto simp: size_area_def)
  show ?thesis
  proof (cases rule: htype_cases [of "fd_type ?f"])
    case 1
    then show ?thesis
      using func data by (simp add: decode_static_field_def htypes_differ Let_def)
  next
    case 2
    then have "pSize = At (it_pSize iter)"
      using size by (simp add: htypes_differ)
    moreover have "safe F (\<lambda>_. True) (if it_pSize iter \<noteq> ?p then d_store (it_pSize iter) [1] else d_ret ())"
      using inside_has [OF assms(2) 2] by (auto intro!: safe_intros)
    ultimately show ?thesis
      using 2 func data by (auto simp: decode_static_field_def htypes_differ Let_def intro!: safe_seq)
  next
    case 3
    have l: "data_len ?f = unat (fd_data_size ?f) * unat (fd_array_size ?f)" "data_len ?f < 2 ^ 32"
      using 3 assms(2) by (simp_all add: data_len_def inside_def Let_def)
    then have entry: "unat i < unat (fd_array_size ?f) \<Longrightarrow> safe F (\<lambda>_. True) (?func (entry_addr ?p ?f i))" for i
      using entry_in_array [of i ?f ?p] inside_data [OF assms(2)] by (intro func) auto
    let ?step = "\<lambda>d0 :: ('s, 'h) dstate. d_bind (write_size pSize (read_size pSize d0 + 1))
      (\<lambda>_. if read_size pSize d0 \<ge> fd_array_size ?f then d_error ''array overflow'' else ?func (entry_addr ?p ?f (read_size pSize d0)))"
    have "safe F (\<lambda>_. True) (\<lambda>d. ?step d d)"
      by (rule safe_state)
         (use cell 3 entry in \<open>auto simp: word_less_nat_alt not_le intro!: safe_seq safe_write_size safe_error\<close>)
    moreover have "safe F (\<lambda>_. True) (static_packed ?func ?f ?p pSize)" if "PB_LTYPE (fd_type ?f) \<le> PB_LTYPE_LAST_PACKABLE"
      using entry cell 3 decoders_feed [OF that] by (intro safe_packed) simp_all
    ultimately show ?thesis
      using 3 by (simp add: decode_static_field_def htypes_differ Let_def)
  next
    case 4
    have "resets F (defaults ds (de_fields env (fd_ptr ?f)) ?p)" if "PB_LTYPE (fd_type ?f) = PB_LTYPE_SUBMESSAGE"
    proof -
      have "resets (area ?p (unat (fd_data_size ?f))) (defaults ds (de_fields env (fd_ptr ?f)) ?p)"
        using assms(1) that by (intro defaults_reset) (simp add: static_field_def Let_def)
      moreover have "area ?p (unat (fd_data_size ?f)) \<subseteq> F"
        using data 4 by (simp add: htypes_differ)
      ultimately show ?thesis
        unfolding resets_def by (meson subsetD)
    qed
    then have "PB_LTYPE (fd_type ?f) = PB_LTYPE_SUBMESSAGE \<Longrightarrow>
        safe F (\<lambda>_. True) (d_mem (defaults ds (de_fields env (fd_ptr ?f)) ?p))"
      unfolding resets_def by (intro safe_mem) blast
    then show ?thesis
      using 4 cell data func by (auto simp: decode_static_field_def htypes_differ Let_def intro!: safe_seq safe_write_size safe_store safe_ret)
  qed
qed

end

section \<open>Messages\<close>

text \<open>The positions of the iterator; on a message without fields it stays on the terminator.\<close>

definition walk :: "pb_field list \<Rightarrow> nat set" where
  "walk fds = insert 0 {..<nfields fds}"

lemma find_loop_stays:
  assumes "terminated fds" "k \<in> walk fds" "find_loop (length fds) found k (iter_at fds dest k) = (b, iter)"
  shows "\<exists>k' \<in> walk fds. iter = iter_at fds dest k' \<and> b = found (fds ! k')"
proof (cases "k < nfields fds")
  case True
  then show ?thesis
    using assms(3) by (cases rule: find_loop_cases [OF assms(1) True, of found dest]) (auto simp: walk_def)
next
  case False
  then have k: "k = 0" "nfields fds = 0"
    using assms(2) by (auto simp: walk_def)
  then have l: "length fds = Suc 0" "fd_tag (fds ! 0) = 0"
    using terminated_tags [OF assms(1), of 0] assms(1) by (simp_all add: nfields_def terminated_def le_Suc_eq)
  have i: "it_pos (iter_at fds dest 0) = 0" "cur (iter_at fds dest 0) = fds ! 0"
    by (simp_all add: pb_field_iter_begin_def cur_def Let_def)
  have "snd (pb_field_iter_next (iter_at fds dest 0)) = iter_at fds dest 0"
    using i l by (simp add: pb_field_iter_next_def Let_def del: iter_at.simps)
  then show ?thesis
    using assms(3) k l i by (auto simp: walk_def Let_def simp del: iter_at.simps split: if_splits)
qed

locale static_type = submessages env ds good n
  for env :: "('s, 'h) dec_env" and ds :: "('s, 'h) decoders" and good n +
  fixes fds :: "pb_field list" and dest :: addr and F :: "addr set"
  assumes entries: "terminated fds" "last fds = PB_LAST_FIELD"
    and entry_static: "k < nfields fds \<Longrightarrow> static_field good (de_fields env) (fds ! k)"
    and entry_inside: "k < nfields fds \<Longrightarrow> inside F (iter_at fds dest k)"
begin

definition here :: "pb_field_iter \<Rightarrow> bool" where
  "here iter \<longleftrightarrow> (\<exists>k \<in> walk fds. iter = iter_at fds dest k)"

text \<open>The terminator, which is the current entry in a message without fields, is as good as a field.\<close>

lemma here_field:
  assumes "here iter"
  shows "static_field good (de_fields env) (cur iter)" "inside F iter"
proof -
  obtain k where k: "k \<in> walk fds" "iter = iter_at fds dest k"
    using assms by (auto simp: here_def)
  have "static_field good (de_fields env) (cur iter) \<and> inside F iter"
  proof (cases "k < nfields fds")
    case True
    then show ?thesis
      using entry_static entry_inside entries(1) k by simp
  next
    case False
    then have "k = 0" "nfields fds = 0"
      using k(1) by (auto simp: walk_def)
    then have "fds ! 0 = PB_LAST_FIELD"
      using entries by (cases fds) (auto simp: nfields_def terminated_def)
    then have "cur iter = PB_LAST_FIELD"
      using k \<open>k = 0\<close> by (simp add: pb_field_iter_begin_def cur_def Let_def)
    then show ?thesis
      by (simp add: static_field_def inside_def PB_LAST_FIELD_def PB_ATYPE_def PB_LTYPE_def PB_HTYPE_def ltypes atypes htypes
          data_len_def area_def)
  qed
  then show "static_field good (de_fields env) (cur iter)" "inside F iter"
    by simp_all
qed

lemma find_here:
  assumes "here iter"
  shows "here (snd (pb_field_iter_find iter tag))"
    and "here (snd (find_extension_field iter)) \<and> \<not> fst (find_extension_field iter)"
proof -
  obtain k where k: "k \<in> walk fds" "iter = iter_at fds dest k"
    using assms by (auto simp: here_def)
  have pos: "it_pos iter = k" "it_start iter = fds"
    using k iter_at_pos [OF entries(1), of k dest] by (auto simp: walk_def pb_field_iter_begin_def Let_def)
  have f: "\<exists>k' \<in> walk fds. snd (find_loop (length fds) found k iter) = iter_at fds dest k' \<and>
      fst (find_loop (length fds) found k iter) = found (fds ! k')" for found
    using find_loop_stays [OF entries(1) k(1)] k(2) by (metis prod.collapse)
  show "here (snd (pb_field_iter_find iter tag))"
    unfolding pb_field_iter_find_def pos here_def using f by blast
  obtain k' where k': "k' \<in> walk fds" "snd (find_extension_field iter) = iter_at fds dest k'"
      "fst (find_extension_field iter) = (PB_LTYPE (fd_type (fds ! k')) = PB_LTYPE_EXTENSION)"
    unfolding find_extension_field_def pos using f by meson
  then have "here (snd (find_extension_field iter))"
    by (auto simp: here_def)
  moreover have "cur (iter_at fds dest k') = fds ! k'"
  proof (cases "k' < nfields fds")
    case False
    then have "k' = 0"
      using k'(1) by (simp add: walk_def)
    then show ?thesis
      by (simp add: pb_field_iter_begin_def cur_def Let_def)
  qed (simp add: entries(1))
  ultimately show "here (snd (find_extension_field iter)) \<and> \<not> fst (find_extension_field iter)"
    using here_field(1) [of "snd (find_extension_field iter)"] k' static_not_extension by simp
qed

lemma union_safe:
  assumes "here iter"
  shows "safe F here (pb_release_union_field n env iter)"
  unfolding safe_runs
proof (intro allI impI)
  fix d :: "('s, 'h) dstate"
  assume t: "tame (ds_in d)"
  define old where "old = load32 (ds_mem d) (it_pSize iter)"
  obtain b iter1 where 1: "pb_field_iter_find iter old = (b, iter1)"
    by fastforce
  then have h1: "here iter1"
    using find_here(1) [OF assms, of old] by simp
  obtain c iter2 where 2: "pb_field_iter_find iter1 (fd_tag (cur iter)) = (c, iter2)"
    by fastforce
  then have h2: "here iter2"
    using find_here(1) [OF h1, of "fd_tag (cur iter)"] by simp
  have "safe F (\<lambda>_. True) (d_heap (pb_release_single_field n env iter1) :: ('s, 'h, unit) dec)"
    using nothing_held [OF here_field(1) [OF h1]] by (rule safe_heap)
  then have "safe F here (d_bind (d_heap (pb_release_single_field n env iter1) :: ('s, 'h, unit) dec) (\<lambda>_ :: unit.
      case (c, iter2) of (False, _) \<Rightarrow> d_error ''iterator error'' | (True, iter) \<Rightarrow> d_ret iter))"
    by (rule safe_seq) (use h2 in \<open>auto split: bool.splits intro: safe_error safe_ret\<close>)
  moreover have "safe F here (d_ret iter :: ('s, 'h, pb_field_iter) dec)"
      "safe F here (d_error ''invalid union tag'' :: ('s, 'h, pb_field_iter) dec)"
    using assms by (simp_all add: safe_ret safe_error)
  ultimately have "runs F here (d_bind (d_heap (pb_release_single_field n env iter1)) (\<lambda>_ :: unit.
      case (c, iter2) of (False, _) \<Rightarrow> d_error ''iterator error'' | (True, iter) \<Rightarrow> d_ret iter)) d"
      "runs F here (d_ret iter) d" "runs F here (d_error ''invalid union tag'') d"
    using t unfolding safe_runs by blast+
  then show "runs F here (pb_release_union_field n env iter) d"
    using 1 2 unfolding runs_def pb_release_union_field_def Let_def old_def [symmetric] by (simp split: bool.split)
qed

lemma field_safe:
  assumes "here iter" "pSize = At (it_pSize iter) \<or> pSize = Fixed_count \<and> PB_HTYPE (fd_type (cur iter)) = PB_HTYPE_REPEATED"
  shows "safe F here (decode_field n env ds wire_type iter pSize)"
  unfolding decode_field_def Let_def
proof (rule safe_bind [where P = "\<lambda>i. here i \<and> (pSize = Fixed_count \<longrightarrow> i = iter)"])
  let ?P = "\<lambda>i. here i \<and> (pSize = Fixed_count \<longrightarrow> i = iter)"
  show "safe F ?P (if PB_HTYPE (fd_type (cur iter)) = PB_HTYPE_ONEOF then pb_release_union_field n env iter else d_ret iter)"
  proof (rule safe_if)
    assume "PB_HTYPE (fd_type (cur iter)) = PB_HTYPE_ONEOF"
    then have "pSize \<noteq> Fixed_count"
      using assms(2) by (auto simp: htypes_differ)
    then show "safe F ?P (pb_release_union_field n env iter)"
      using union_safe [OF assms(1)] by simp
  qed (use assms(1) in \<open>simp add: safe_ret\<close>)
  fix i
  assume i: "here i \<and> (pSize = Fixed_count \<longrightarrow> i = iter)"
  then have "PB_ATYPE (fd_type (cur i)) = PB_ATYPE_STATIC"
    using here_field(1) by (simp add: static_field_def Let_def)
  moreover have "safe F (\<lambda>_. True) (decode_static_field env ds wire_type i (if pSize = Fixed_count then Fixed_count else At (it_pSize i)))"
    using i assms(2) here_field by (intro static_field_safe) auto
  ultimately show "safe F here (d_bind
      (if PB_ATYPE (fd_type (cur i)) = PB_ATYPE_STATIC then
         decode_static_field env ds wire_type i (if pSize = Fixed_count then Fixed_count else At (it_pSize i))
       else if PB_ATYPE (fd_type (cur i)) = PB_ATYPE_POINTER then
         decode_pointer_field env ds wire_type i (if pSize = Fixed_count then Fixed_count else At (it_pSize i))
       else if PB_ATYPE (fd_type (cur i)) = PB_ATYPE_CALLBACK then decode_callback_field n env wire_type i
       else d_error ''invalid field type'')
      (\<lambda>_. d_ret i))"
    using i by (auto intro!: safe_seq safe_ret)
qed

lemma known_safe:
  assumes "here (lo_iter lo)"
  shows "safe F (\<lambda>lo. here (lo_iter lo)) (decode_known n env ds wire_type lo)"
  unfolding safe_runs
proof (intro allI impI)
  fix d :: "('s, 'h) dstate"
  assume t: "tame (ds_in d)"
  let ?P = "\<lambda>lo. here (lo_iter lo)" and ?iter = "lo_iter lo"
  let ?fixed = "PB_HTYPE (fd_type (cur ?iter)) = PB_HTYPE_REPEATED \<and> it_pSize ?iter = it_pData ?iter"
  let ?m = "\<lambda>lo'. d_bind (decode_field n env ds wire_type ?iter (if ?fixed then Fixed_count else At (it_pSize ?iter)))
    (\<lambda>iter. d_ret (lo'\<lparr>lo_iter := iter\<rparr>))"
  have "safe F here (decode_field n env ds wire_type ?iter (if ?fixed then Fixed_count else At (it_pSize ?iter)))"
    using assms by (intro field_safe) auto
  then have "safe F ?P (?m lo')" for lo'
    by (rule safe_bind) (simp add: safe_ret)
  then have r: "runs F ?P (?m lo') d1" if "tame (ds_in d1)" for lo' d1
    using that unfolding safe_runs by blast
  consider "decode_known n env ds wire_type lo d = d_error ''wrong size for fixed count field'' d"
    | lo' v where "decode_known n env ds wire_type lo d = ?m lo' (d\<lparr>ds_fixed := v\<rparr>)"
  proof -
    assume error: "decode_known n env ds wire_type lo d = d_error ''wrong size for fixed count field'' d \<Longrightarrow> thesis"
      and step: "\<And>lo' v. decode_known n env ds wire_type lo d = ?m lo' (d\<lparr>ds_fixed := v\<rparr>) \<Longrightarrow> thesis"
    obtain lo' sw where m: "decode_known n env ds wire_type lo d =
        (if sw \<and> fixed_incomplete lo (ds_fixed d) then d_error ''wrong size for fixed count field'' d
         else ?m lo' (if sw then d\<lparr>ds_fixed := 0\<rparr> else d))"
      by (rule that, unfold decode_known_def Let_def, rule refl)
    show thesis
    proof (cases "sw \<and> fixed_incomplete lo (ds_fixed d)")
      case True
      then show thesis
        using m by (intro error) simp
    next
      case False
      then show thesis
        using m by (intro step [of lo' "if sw then 0 else ds_fixed d"]) simp
    qed
  qed
  then show "runs F ?P (decode_known n env ds wire_type lo) d"
  proof cases
    case 1
    have "runs F ?P (d_error ''wrong size for fixed count field'' :: ('s, 'h, locals) dec) d"
      by (rule safe_error [unfolded safe_runs, THEN spec, THEN mp, OF t])
    then show ?thesis
      unfolding runs_def 1 .
  next
    case (2 lo' v)
    have "runs F ?P (?m lo') (d\<lparr>ds_fixed := v\<rparr>)"
      using t by (intro r) simp
    then show ?thesis
      unfolding runs_def 2 by simp
  qed
qed

lemma unknown_safe:
  assumes "here (lo_iter lo)" "unat tag < 2 ^ 29"
  shows "safe F (\<lambda>lo. here (lo_iter lo)) (decode_unknown n env ds tag wire_type lo)"
proof -
  let ?skip = "\<lambda>lo. d_bind (on_stream (pb_skip_field wire_type)) (\<lambda>_. d_ret lo) :: ('s, 'h, locals) dec"
  obtain iter where e: "find_extension_field (lo_iter lo) = (False, iter)" "here iter"
    using find_here(2) [OF assms(1)] by (metis prod.collapse)
  have "\<not> tag \<ge> 0xffffffff"
    using assms(2) by (simp add: word_le_nat_alt)
  then have "decode_unknown n env ds tag wire_type lo =
      (if tag \<ge> lo_extension_range_start lo then ?skip (lo\<lparr>lo_iter := iter, lo_extension_range_start := 0xffffffff\<rparr>) else ?skip lo)"
    using e by (intro ext) (simp add: decode_unknown_def Let_def)
  moreover have "safe F (\<lambda>lo. here (lo_iter lo)) (?skip lo')" if "here (lo_iter lo')" for lo'
    using that by (intro safe_seq safe_stream shrinks_skip safe_ret)
  ultimately show ?thesis
    using assms(1) e by simp
qed

text \<open>The loop over the input: every step reads a tag, so that the fuel is enough.\<close>

lemma loop_runs:
  "tame (ds_in d) \<Longrightarrow> left (ds_in d) < k \<Longrightarrow> here (lo_iter lo) \<Longrightarrow>
    runs F (\<lambda>lo. here (lo_iter lo)) (decode_loop k n env ds lo) d"
proof (induction k arbitrary: d lo)
  case (Suc k)
  let ?P = "\<lambda>lo. here (lo_iter lo)"
  obtain r eof s where g: "pb_decode_tag (ds_in d) = ((r, eof), s)"
    by (metis prod.collapse)
  have s: "shrunk (ds_in d) s" "r \<noteq> None \<Longrightarrow> left s < left (ds_in d)"
    using tag_eats [OF g] by simp_all
  consider "is_bytes_left (ds_in d) = 0" | "is_bytes_left (ds_in d) \<noteq> 0" "r = None"
    | wt tag where "is_bytes_left (ds_in d) \<noteq> 0" "r = Some (wt, tag)"
    by (metis option.exhaust prod.collapse)
  then show ?case
  proof cases
    case 1
    then show ?thesis
      using Suc.prems by (simp add: runs_def d_ret_def)
  next
    case 2
    then show ?thesis
      using Suc.prems g s by (cases eof) (simp_all add: runs_def d_ret_def)
  next
    case (3 wt tag)
    obtain found iter where i: "pb_field_iter_find (lo_iter lo) tag = (found, iter)"
      by fastforce
    define m where "m = (if found then decode_known n env ds wt else decode_unknown n env ds tag wt) (lo\<lparr>lo_iter := iter\<rparr>)"
    have "here iter"
      using find_here(1) [OF Suc.prems(3), of tag] i by simp
    moreover have "unat tag < 2 ^ 29"
      using g unfolding 3(2) by (rule tag_range)
    ultimately have "safe F ?P m"
      unfolding m_def using known_safe [of "lo\<lparr>lo_iter := iter\<rparr>"] unknown_safe [of "lo\<lparr>lo_iter := iter\<rparr>"] by simp
    moreover have t: "tame s"
      using shrunk_tame s(1) Suc.prems(1) by blast
    ultimately have m: "runs F ?P m (d\<lparr>ds_in := s\<rparr>)"
      by (simp add: safe_runs)
    have "runs F ?P (d_bind m (decode_loop k n env ds)) (d\<lparr>ds_in := s\<rparr>)"
    proof (rule runs_bind [OF m])
      fix x :: locals and d' :: "('s, 'h) dstate"
      assume "?P x" "tame (ds_in d')" "shrunk (ds_in (d\<lparr>ds_in := s\<rparr>)) (ds_in d')"
      then show "runs F ?P (decode_loop k n env ds x) d'"
        using Suc.prems(2) s(2) 3(2) by (intro Suc.IH) (simp_all add: shrunk_def)
    qed (simp add: t)
    moreover have "decode_loop (Suc k) n env ds lo d = d_bind m (decode_loop k n env ds) (d\<lparr>ds_in := s\<rparr>)"
      using 3 g i by (simp add: m_def)
    ultimately show ?thesis
      using s(1) shrunk_trans by (auto simp: runs_def)
  qed
qed simp

lemma last_field_ends: "k < nfields fds \<Longrightarrow> nfields fds - k \<le> j \<Longrightarrow> \<exists>x. last_field j (iter_at fds dest k) = Some x"
proof (induction j arbitrary: k)
  case (Suc j)
  have n: "pb_field_iter_next (iter_at fds dest k) =
      (k + 1 < nfields fds, iter_at fds dest (if k + 1 < nfields fds then k + 1 else 0))"
    by (rule next_iter_at [OF entries(1) Suc.prems(1)])
  show ?case
  proof (cases "k + 1 < nfields fds")
    case True
    then have "\<exists>x. last_field j (iter_at fds dest (k + 1)) = Some x"
      using Suc.prems(2) by (intro Suc.IH) simp_all
    then show ?thesis
      using n True by (simp del: iter_at.simps)
  qed (use n in \<open>simp del: iter_at.simps\<close>)
qed simp

lemma end_safe:
  assumes "here (lo_iter lo)"
  shows "safe F (\<lambda>_. True) (decode_end lo)"
proof -
  obtain k where k: "k \<in> walk fds" "lo_iter lo = iter_at fds dest k"
    using assms by (auto simp: here_def)
  have "\<exists>x. last_field (length fds) (iter_at fds dest k) = Some x"
  proof (cases "k < nfields fds")
    case True
    then show ?thesis
      by (rule last_field_ends) (simp add: nfields_def)
  next
    case False
    then have z: "k = 0" "nfields fds = 0"
      using k(1) by (auto simp: walk_def)
    then have "length fds = Suc 0" "fd_tag (fds ! 0) = 0"
      using terminated_tags [OF entries(1), of 0] entries(1) by (simp_all add: nfields_def terminated_def le_Suc_eq)
    then show ?thesis
      using z by (simp add: pb_field_iter_next_def pb_field_iter_begin_def cur_def Let_def)
  qed
  then obtain x where x: "last_field (length (it_start (lo_iter lo))) (lo_iter lo) = Some x"
    using k by auto
  show ?thesis
    by (rule safeI)
       (use x in \<open>auto simp: decode_end_def d_error_def on_stream_def is_error_def d_ret_def Let_def shrunk_def left_def split: prod.splits\<close>)
qed

lemma message_safe: "safe F (\<lambda>_. True) (decode_message n env ds fds dest)"
proof (rule safeI)
  fix d :: "('s, 'h) dstate"
  assume t: "tame (ds_in d)"
  define lo where "lo = \<lparr>lo_iter = snd (pb_field_iter_begin fds dest), lo_fields_seen = [0, 0], lo_extension_range_start = 0,
    lo_fixed_count_field = None\<rparr>"
  have "here (lo_iter lo)"
    by (auto simp: lo_def here_def walk_def)
  then have "runs F (\<lambda>lo. here (lo_iter lo)) (decode_loop (Suc (unat (is_bytes_left (ds_in d)))) n env ds lo) (d\<lparr>ds_fixed := 0\<rparr>)"
    using t by (intro loop_runs) (simp_all add: left_def)
  then have "runs F (\<lambda>_. True) (d_bind (decode_loop (Suc (unat (is_bytes_left (ds_in d)))) n env ds lo) decode_end) (d\<lparr>ds_fixed := 0\<rparr>)"
    by (rule runs_bind) (use t end_safe in \<open>auto simp: safe_runs\<close>)
  then obtain r d' where "d_bind (decode_loop (Suc (unat (is_bytes_left (ds_in d)))) n env ds lo) decode_end (d\<lparr>ds_fixed := 0\<rparr>) = Some (r, d')"
      "framed F d d'" "shrunk (ds_in d) (ds_in d')"
    unfolding runs_def by auto
  then show "\<exists>r d'. decode_message n env ds fds dest d = Some (r, d') \<and> framed F d d' \<and> shrunk (ds_in d) (ds_in d') \<and>
      (\<forall>x. r = Some x \<longrightarrow> True)"
    by (simp add: decode_message_def lo_def)
qed

end

section \<open>Static message types are decoded in place\<close>

lemma static_field_mono:
  "static_field good descs field \<Longrightarrow> (\<And>fds len. good fds len \<Longrightarrow> good' fds len) \<Longrightarrow> static_field good' descs field"
  by (auto simp: static_field_def Let_def)

lemma static_message_mono: "static_message n descs fds len \<Longrightarrow> static_message (Suc n) descs fds len"
proof (induction n arbitrary: fds len)
  case (Suc n)
  have "static_field (static_message (Suc n) descs) descs (fds ! k)" if "k < nfields fds" for k
    using static_message_parts(3) [OF Suc.prems that] Suc.IH by (rule static_field_mono)
  moreover have "fits (iter_at fds 0 k) len" if "k < nfields fds" for k
    using Suc.prems that by (simp add: list_all_iff)
  moreover have "static_message (Suc (Suc n)) descs fds len \<longleftrightarrow> terminated fds \<and> last fds = PB_LAST_FIELD \<and>
     list_all (\<lambda>k. static_field (static_message (Suc n) descs) descs (fds ! k) \<and> fits (iter_at fds 0 k) len) [0..<nfields fds]"
    by (rule static_message.simps(2))
  ultimately show ?case
    using static_message_parts(1,2) [OF Suc.prems] unfolding list_all_iff by simp
qed simp

text \<open>\<open>pb_decode\<close> sets the defaults, decodes, and has nothing to release.\<close>

lemma init_safe:
  assumes "static_message n (de_fields env) fds len" "safe (area dest len) (\<lambda>_. True) (decode fds dest)"
  shows "safe (area dest len) (\<lambda>_. True) (init_and_decode n env decode fds dest)"
  unfolding init_and_decode_def
proof (rule safe_seq)
  show "safe (area dest len) (\<lambda>_. True) (d_mem (pb_message_set_to_defaults n (de_fields env) fds dest))"
    using message_resets [OF assms(1)] unfolding resets_def by (intro safe_mem) blast
  show "safe (area dest len) (\<lambda>_. True) (\<lambda>d. case decode fds dest d of
         None \<Rightarrow> None
       | Some (None, d) \<Rightarrow> d_bind (d_heap (pb_release n env fds dest)) (\<lambda>_ d. Some (None, d)) d
       | Some (Some _, d) \<Rightarrow> d_ret () d)"
  proof (rule safeI)
    fix d :: "('a, 'b) dstate"
    assume t: "tame (ds_in d)"
    obtain r d' where r: "decode fds dest d = Some (r, d')" "framed (area dest len) d d'" "shrunk (ds_in d) (ds_in d')"
      using safeE [OF assms(2) t] by metis
    have "d_heap (pb_release n env fds dest) d' = Some (Some (), d')"
      using release_none [OF assms(1)] by (simp add: d_heap_def)
    then show "\<exists>r d'. (case decode fds dest d of
         None \<Rightarrow> None
       | Some (None, d) \<Rightarrow> d_bind (d_heap (pb_release n env fds dest)) (\<lambda>_ d. Some (None, d)) d
       | Some (Some _, d) \<Rightarrow> d_ret () d) = Some (r, d') \<and> framed (area dest len) d d' \<and> shrunk (ds_in d) (ds_in d') \<and>
        (\<forall>x. r = Some x \<longrightarrow> True)"
      using r by (cases r) (simp_all add: d_bind_def d_ret_def)
  qed
qed

text \<open>The functions that \<open>pb_decode_noinit\<close> hands down.\<close>

definition decoders_at :: "nat \<Rightarrow> ('s, 'h) dec_env \<Rightarrow> ('s, 'h) decoders" where
  "decoders_at n env = \<lparr>noinit = pb_decode_noinit n env, full = init_and_decode n env (pb_decode_noinit n env),
     defaults = pb_message_set_to_defaults n (de_fields env), release_field = pb_release_single_field n env\<rparr>"

lemma submessages_at:
  assumes "\<And>fds len dest. static_message n (de_fields env) fds len \<Longrightarrow>
    safe (area dest len) (\<lambda>_. True) (pb_decode_noinit (Suc n) env fds dest)"
  shows "submessages env (decoders_at (Suc n) env) (static_message n (de_fields env)) (Suc n)"
proof
  fix fds len dest
  assume s: "static_message n (de_fields env) fds len"
  note s1 = static_message_mono [OF s]
  show d: "safe (area dest len) (\<lambda>_. True) (noinit (decoders_at (Suc n) env) fds dest)"
    using assms [OF s] by (simp add: decoders_at_def)
  show "safe (area dest len) (\<lambda>_. True) (full (decoders_at (Suc n) env) fds dest)"
    using init_safe [OF s1] assms [OF s] by (simp add: decoders_at_def)
  show "resets (area dest len) (defaults (decoders_at (Suc n) env) fds dest)"
    using message_resets [OF s1] by (simp add: decoders_at_def)
next
  fix iter mh
  assume "static_field (static_message n (de_fields env)) (de_fields env) (cur iter)"
  then show "pb_release_single_field (Suc n) env iter mh = Some mh"
    by (rule release_field_none) (rule release_none [unfolded pb_release_def])
qed

lemma static_type_at:
  assumes "submessages env (decoders_at (Suc n) env) (static_message n (de_fields env)) (Suc n)"
    and "static_message (Suc n) (de_fields env) fds len"
  shows "static_type env (decoders_at (Suc n) env) (static_message n (de_fields env)) (Suc n) fds dest (area dest len)"
  using assms(1) static_message_parts [OF assms(2)]
  by (intro static_type.intro static_type_axioms.intro) simp_all

lemma noinit_message: "pb_decode_noinit (Suc n) env fds dest = decode_message n env (decoders_at n env) fds dest"
  by (simp add: decoders_at_def)

lemma static_noinit:
  "static_message n (de_fields env) fds len \<Longrightarrow> safe (area dest len) (\<lambda>_. True) (pb_decode_noinit (Suc n) env fds dest)"
proof (induction n arbitrary: fds len dest)
  case (Suc n)
  show ?case
    unfolding noinit_message [of "Suc n"]
    by (rule static_type.message_safe [OF static_type_at [OF submessages_at [OF Suc.IH] Suc.prems]])
qed simp

interpretation static_level: submessages env "decoders_at (Suc n) env" "static_message n (de_fields env)" "Suc n"
  for env :: "('s, 'h) dec_env" and n
  by (rule submessages_at) (rule static_noinit)

text \<open>A message type that is not static counts as the one without fields.\<close>

definition checked :: "nat \<Rightarrow> (addr \<Rightarrow> pb_field list) \<Rightarrow> pb_field list \<Rightarrow> nat \<Rightarrow> pb_field list" where
  "checked n descs fds len = (if static_message n descs fds len then fds else [PB_LAST_FIELD])"

lemma checked_static: "static_message (Suc n) descs (checked (Suc n) descs fds len) len"
  by (simp add: checked_def terminated_def nfields_def PB_LAST_FIELD_def)

interpretation static_types: static_type env "decoders_at (Suc n) env" "static_message n (de_fields env)" "Suc n"
    "checked (Suc n) (de_fields env) fds len" dest "area dest len"
  for env :: "('s, 'h) dec_env" and n fds len dest
  by (rule static_type_at [OF static_level.submessages_axioms checked_static])

end
