(* ===== verification/Nanopb_Decode_Props.thy ===== *)
theory Nanopb_Decode_Props
  imports Nanopb_Decode_Safe Nanopb_Encode_Correct
begin

text \<open>
  Properties of the message decoder: it is safe on hostile input, reads back every numeric field the
  encoder writes, skips the fields that its message type does not have, and clears the first four
  bytes of an array of fixed count.
\<close>

section \<open>Safety\<close>

text \<open>
  Claim C38: decoding a message type whose fields are static and fit in a structure of \<open>len\<close> bytes
  returns whatever the input is, also from a stream with a callback; it changes no byte outside
  the structure, and it neither allocates nor frees.
\<close>

theorem pb_decode_memory_safe:
  assumes "static_message n (de_fields env) fds len" "tame (ds_in d)"
  shows "\<exists>r d'. pb_decode (Suc n) env fds dest d = Some (r, d') \<and> ds_heap d' = ds_heap d \<and>
    (\<forall>a. a \<notin> area dest len \<longrightarrow> ds_mem d' a = ds_mem d a)"
proof -
  note s = static_message_mono [OF assms(1)]
  have "safe (area dest len) (\<lambda>_. True) (pb_decode_noinit (Suc n) env fds dest)"
  proof (cases n)
    case (Suc k)
    then show ?thesis
      using static_types.message_safe [where n = k and env = env and fds = fds and len = len and dest = dest] assms(1) by (simp only: noinit_message checked_def if_True)
  qed (use assms(1) in simp)
  then have "safe (area dest len) (\<lambda>_. True) (pb_decode (Suc n) env fds dest)"
    unfolding pb_decode_def by (rule init_safe [OF s])
  from safeE [OF this assms(2)] show ?thesis
    unfolding framed_def by metis
qed

text \<open>A structure with an optional integer, an array, a nested message and a string.\<close>

definition demo_sub :: "pb_field list" where
  "demo_sub = [\<lparr>fd_tag = 1, fd_type = 0x01, fd_data_offset = 0, fd_size_offset = 0, fd_data_size = 4, fd_array_size = 0, fd_ptr = 0\<rparr>,
     PB_LAST_FIELD]"

definition demo_fields :: "pb_field list" where
  "demo_fields =
     [\<lparr>fd_tag = 1, fd_type = 0x10, fd_data_offset = 4, fd_size_offset = - 4, fd_data_size = 4, fd_array_size = 0, fd_ptr = 0\<rparr>,
      \<lparr>fd_tag = 2, fd_type = 0x23, fd_data_offset = 4, fd_size_offset = - 4, fd_data_size = 4, fd_array_size = 2, fd_ptr = 0\<rparr>,
      \<lparr>fd_tag = 3, fd_type = 0x07, fd_data_offset = 0, fd_size_offset = 0, fd_data_size = 4, fd_array_size = 0, fd_ptr = 0x1000\<rparr>,
      \<lparr>fd_tag = 4, fd_type = 0x06, fd_data_offset = 0, fd_size_offset = 0, fd_data_size = 8, fd_array_size = 0, fd_ptr = 0\<rparr>,
      PB_LAST_FIELD]"

definition demo_env :: "(unit, unit) dec_env" where
  "demo_env = \<lparr>de_fields = (\<lambda>a. if a = 0x1000 then demo_sub else [PB_LAST_FIELD]), de_realloc = (\<lambda>p n mh. (0, mh)),
     de_free = (\<lambda>p mh. mh), de_callback = (\<lambda>_ _ _. d_ret ()), de_extension = (\<lambda>_ _ _ _. d_ret ())\<rparr>"

definition demo_at :: "nat \<Rightarrow> addr \<Rightarrow> addr \<Rightarrow> u32 \<Rightarrow> pb_field_iter" where
  "demo_at k pData pSize i = \<lparr>it_start = demo_fields, it_pos = k, it_required_field_index = i, it_dest_struct = 0,
     it_pData = pData, it_pSize = pSize\<rparr>"

lemmas type_bits = PB_ATYPE_def PB_LTYPE_def PB_HTYPE_def ltypes atypes htypes

lemma iter_at_step: "iter_at fds dest k = i \<Longrightarrow> k' = Suc k \<Longrightarrow> snd (pb_field_iter_next i) = j \<Longrightarrow> iter_at fds dest k' = j"
  by simp

lemma demo_iters:
  "iter_at demo_fields 0 0 = demo_at 0 4 0 0" "iter_at demo_fields 0 1 = demo_at 1 12 8 0"
  "iter_at demo_fields 0 2 = demo_at 2 20 20 0" "iter_at demo_fields 0 3 = demo_at 3 24 24 1"
proof -
  show 0: "iter_at demo_fields 0 0 = demo_at 0 4 0 0"
    by (simp add: demo_at_def pb_field_iter_begin_def demo_fields_def)
  have "snd (pb_field_iter_next (demo_at 0 4 0 0)) = demo_at 1 12 8 0"
    by (simp add: demo_at_def pb_field_iter_next_def cur_def demo_fields_def type_bits PB_SIZE_MAX_def)
  then show 1: "iter_at demo_fields 0 1 = demo_at 1 12 8 0"
    using iter_at_step [OF 0] by simp
  have "snd (pb_field_iter_next (demo_at 1 12 8 0)) = demo_at 2 20 20 0"
    by (simp add: demo_at_def pb_field_iter_next_def cur_def demo_fields_def type_bits PB_SIZE_MAX_def)
  then show 2: "iter_at demo_fields 0 2 = demo_at 2 20 20 0"
    by (rule iter_at_step [OF 1, rotated]) simp
  have "snd (pb_field_iter_next (demo_at 2 20 20 0)) = demo_at 3 24 24 1"
    by (simp add: demo_at_def pb_field_iter_next_def cur_def demo_fields_def type_bits PB_SIZE_MAX_def)
  then show "iter_at demo_fields 0 3 = demo_at 3 24 24 1"
    by (rule iter_at_step [OF 2, rotated]) simp
qed

lemma demo_static: "static_message 2 (de_fields demo_env) demo_fields 32"
proof -
  note two = static_message.simps(2) [of "Suc 0", folded numeral_2_eq_2]
  have sub: "static_message (Suc 0) (de_fields demo_env) demo_sub 4"
    by (simp add: demo_sub_def terminated_def nfields_def PB_LAST_FIELD_def static_field_def fits_def data_len_def cur_def
        pb_field_iter_begin_def type_bits)
  have "fits (demo_at 0 4 0 0) 32" "fits (demo_at 1 12 8 0) 32" "fits (demo_at 2 20 20 0) 32" "fits (demo_at 3 24 24 1) 32"
    by (simp_all add: fits_def demo_at_def cur_def demo_fields_def data_len_def type_bits)
  moreover have "static_field (static_message (Suc 0) (de_fields demo_env)) (de_fields demo_env) (demo_fields ! k)"
    if "k \<in> {0, 1, 2, 3}" for k
    using that sub by (auto simp del: static_message.simps simp add: static_field_def demo_fields_def type_bits demo_env_def)
  moreover have "terminated demo_fields" "last demo_fields = PB_LAST_FIELD" "[0..<nfields demo_fields] = [0, 1, 2, 3]"
    by (simp_all add: demo_fields_def terminated_def PB_LAST_FIELD_def nfields_def upt_rec)
  ultimately show ?thesis
    by (simp del: static_message.simps iter_at.simps add: two demo_iters demo_iters [unfolded One_nat_def])
qed

lemma pb_decode_memory_safe_witness:
  "\<exists>r d'. pb_decode (Suc 2) demo_env demo_fields 0x2000
      \<lparr>ds_in = pb_istream_from_buffer [0x22, 0xff, 0x01, 7] 4, ds_mem = (\<lambda>_. 0), ds_heap = (), ds_fixed = 0\<rparr> = Some (r, d') \<and>
    ds_heap d' = () \<and> (\<forall>a. a \<notin> area 0x2000 32 \<longrightarrow> ds_mem d' a = 0)"
  using pb_decode_memory_safe [OF demo_static, of
      "\<lparr>ds_in = pb_istream_from_buffer [0x22, 0xff, 0x01, 7] 4, ds_mem = (\<lambda>_. 0), ds_heap = (), ds_fixed = 0\<rparr>" "0x2000"]
  by (simp add: tame_def pb_istream_from_buffer_def)

section \<open>Round trip of the numeric fields\<close>

lemma unat_low:
  "unat v mod 256 = unat (ucast v :: u8)" "unat v mod 65536 = unat (ucast v :: u16)"
  "unat v mod 4294967296 = unat (ucast v :: u32)" for v :: u64
  by (simp_all add: unsigned_ucast_eq take_bit_eq_mod)

lemma load_le_val: "le_bytes k (le_val (load m p k)) = load m p k"
  by (simp add: le_bytes_le_val)

lemma unat_load:
  "unat (load16 m p) = le_val (load m p 2)" "unat (load32 m p) = le_val (load m p 4)" "unat (load64 m p) = le_val (load m p 8)"
  using le_val_bound [of "load m p 2"] le_val_bound [of "load m p 4"] le_val_bound [of "load m p 8"]
  by (simp_all add: load16_def load32_def load64_def unat_of_nat_small)

text \<open>The low bytes of the extended value are the bytes of the field.\<close>

lemma extend_narrow:
  "ucast (scast (a :: u8) :: u64) = a" "ucast (scast (b :: u16) :: u64) = b" "ucast (scast (c :: u32) :: u64) = c"
  "ucast (ucast (a :: u8) :: u64) = a" "ucast (ucast (b :: u16) :: u64) = b" "ucast (ucast (c :: u32) :: u64) = c"
  by (rule bit_word_eqI; simp add: bit_simps)+

lemma stored_bytes:
  assumes "read_signed m n p = Some v \<or> read_unsigned m n p = Some v"
  shows "le_bytes (unat n) (unat v) = load m p (unat n)"
proof -
  have one: "le_bytes 1 (unat (m p)) = load m p 1"
    by (simp add: load_def)
  consider "n = 1" "ucast v = m p" | "n = 2" "ucast v = load16 m p" | "n = 4" "ucast v = load32 m p" | "n = 8" "v = load64 m p"
    using assms by (auto simp: read_signed_def read_unsigned_def extend_narrow split: if_splits)
  then show ?thesis
  proof cases
    case 1
    then show ?thesis
      using one le_bytes_mod [of 1 "unat v"] by (simp add: unat_low)
  next
    case 2
    then show ?thesis
      using le_bytes_mod [of 2 "unat v"] load_le_val [of 2 m p] by (simp add: unat_low unat_load)
  next
    case 3
    then show ?thesis
      using le_bytes_mod [of 4 "unat v"] load_le_val [of 4 m p] by (simp add: unat_low unat_load)
  next
    case 4
    then show ?thesis
      using load_le_val [of 8 m p] by (simp add: unat_load)
  qed
qed

lemma narrow_reads:
  "read_signed m n p = Some v \<Longrightarrow> narrow_signed n v = Some v"
  "read_signed m n p = Some v \<Longrightarrow> (if n = 8 then v else scast (ucast v :: u32)) = v"
  "read_unsigned m n p = Some v \<Longrightarrow> narrow_unsigned n v = Some v"
proof -
  have s: "scast (ucast (scast a :: u64) :: u32) = (scast a :: u64)" "scast (ucast (scast b :: u64) :: u32) = (scast b :: u64)"
    for a :: u8 and b :: u16
    by (rule bit_word_eqI; auto simp: bit_simps min_def)+
  show "read_signed m n p = Some v \<Longrightarrow> narrow_signed n v = Some v"
    "read_unsigned m n p = Some v \<Longrightarrow> narrow_unsigned n v = Some v"
    by (auto simp: read_signed_def narrow_signed_def read_unsigned_def narrow_unsigned_def extend_narrow split: if_splits)
  show "read_signed m n p = Some v \<Longrightarrow> (if n = 8 then v else scast (ucast v :: u32)) = v"
    by (auto simp: read_signed_def extend_narrow s split: if_splits)
qed

lemma packable_cases:
  assumes "l \<le> PB_LTYPE_LAST_PACKABLE"
  obtains "l = PB_LTYPE_VARINT" | "l = PB_LTYPE_UVARINT" | "l = PB_LTYPE_SVARINT" | "l = PB_LTYPE_FIXED32" | "l = PB_LTYPE_FIXED64"
proof -
  have "unat l \<in> {0, 1, 2, 3, 4}"
    using assms by (auto simp: ltypes word_le_nat_alt)
  then show thesis
    using that by (auto simp: ltypes word_unat_eq_iff)
qed

lemma encoder_table:
  "PB_ENCODERS env encode PB_LTYPE_VARINT field p = total (pb_enc_varint (env_mem env) field p)"
  "PB_ENCODERS env encode PB_LTYPE_UVARINT field p = total (pb_enc_uvarint (env_mem env) field p)"
  "PB_ENCODERS env encode PB_LTYPE_SVARINT field p = total (pb_enc_svarint (env_mem env) field p)"
  "PB_ENCODERS env encode PB_LTYPE_FIXED32 field p = total (pb_enc_fixed32 (env_mem env) p)"
  "PB_ENCODERS env encode PB_LTYPE_FIXED64 field p = total (pb_enc_fixed64 (env_mem env) p)"
  unfolding PB_ENCODERS_def ltypes Let_def by simp_all

text \<open>What a numeric field holds, by its type.\<close>

lemma numeric_value_cases:
  assumes "PB_LTYPE (fd_type field) \<le> PB_LTYPE_LAST_PACKABLE" "scalar_value m field p = Some v"
  obtains w where "PB_LTYPE (fd_type field) = PB_LTYPE_VARINT" "read_signed m (fd_data_size field) p = Some w" "v = P_varint w"
  | w where "PB_LTYPE (fd_type field) = PB_LTYPE_UVARINT" "read_unsigned m (fd_data_size field) p = Some w" "v = P_varint w"
  | w where "PB_LTYPE (fd_type field) = PB_LTYPE_SVARINT" "read_signed m (fd_data_size field) p = Some w" "v = P_varint (zigzag w)"
  | "PB_LTYPE (fd_type field) = PB_LTYPE_FIXED32" "v = P_fixed32 (load32 m p)"
  | "PB_LTYPE (fd_type field) = PB_LTYPE_FIXED64" "v = P_fixed64 (load64 m p)"
  using assms(1)
proof (cases rule: packable_cases)
  case 1
  then show thesis
    using assms(2) that(1) by (simp add: scalar_value_def Let_def) (auto simp: ltypes)
next
  case 2
  then show thesis
    using assms(2) that(2) by (simp add: scalar_value_def Let_def) (auto simp: ltypes)
next
  case 3
  then show thesis
    using assms(2) that(3) by (simp add: scalar_value_def Let_def) (auto simp: ltypes)
next
  case 4
  then show thesis
    using assms(2) that(4) by (simp add: scalar_value_def Let_def) (auto simp: ltypes)
next
  case 5
  then show thesis
    using assms(2) that(5) by (simp add: scalar_value_def Let_def) (auto simp: ltypes)
qed

lemma encoder_numeric:
  assumes "PB_LTYPE (fd_type field) \<le> PB_LTYPE_LAST_PACKABLE" "scalar_value (env_mem env) field p = Some v"
  shows "PB_ENCODERS env encode (PB_LTYPE (fd_type field)) field p = total (put_bytes (value_bytes (wire_of v)))"
  using assms
  by (cases rule: numeric_value_cases)
     (simp_all add: encoder_table fun_eq_iff total_def pb_enc_varint_def pb_enc_uvarint_def
       pb_enc_svarint_def pb_enc_fixed32_def pb_enc_fixed64_def encode_varint encode_svarint encode_fixed32 encode_fixed64)

lemma read_bound:
  assumes "\<And>s rest. stream_ok s \<Longrightarrow> avail s = bs @ rest \<Longrightarrow> f s = (Some v, advance (length bs) s)"
    and "stream_ok (ds_in d)" "avail (ds_in d) = bs @ rest"
    and "\<And>s. g v (d\<lparr>ds_in := s\<rparr>) = Some (Some (), d\<lparr>ds_in := s, ds_mem := m\<rparr>)"
  shows "\<exists>s. d_bind (on_stream f) g d = Some (Some (), d\<lparr>ds_in := s, ds_mem := m\<rparr>) \<and> stream_ok s \<and> avail s = rest"
  using assms(1) [OF assms(2,3)] advance_ok [OF assms(2), of "length bs"] assms(3,4)
  by (auto simp: d_bind_def on_stream_def)

lemma decoder_numeric:
  assumes l: "PB_LTYPE (fd_type field) \<le> PB_LTYPE_LAST_PACKABLE"
    and sizes: "PB_LTYPE (fd_type field) = PB_LTYPE_FIXED32 \<longrightarrow> fd_data_size field = 4"
      "PB_LTYPE (fd_type field) = PB_LTYPE_FIXED64 \<longrightarrow> fd_data_size field = 8"
    and v: "scalar_value m field p = Some v"
    and s: "stream_ok (ds_in d)" "avail (ds_in d) = value_bytes (wire_of v) @ rest"
  shows "\<exists>s. PB_DECODERS env ds (PB_LTYPE (fd_type field)) field dest d =
      Some (Some (), d\<lparr>ds_in := s, ds_mem := store dest (load m p (unat (fd_data_size field))) (ds_mem d)\<rparr>) \<and>
    stream_ok s \<and> avail s = rest"
proof -
  let ?n = "fd_data_size field" and ?l = "PB_LTYPE (fd_type field)"
  have narrow: "store_narrow field dest w (Some w) (d\<lparr>ds_in := s\<rparr>) =
      Some (Some (), d\<lparr>ds_in := s, ds_mem := store dest (le_bytes (unat ?n) (unat w)) (ds_mem d)\<rparr>)" for w s
    by (simp add: store_narrow_def d_bind_def d_store_def d_ret_def)
  show ?thesis
    using l v
  proof (cases rule: numeric_value_cases)
    case (1 w)
    have "avail (ds_in d) = varint (unat w) @ rest"
      using s(2) 1(3) by simp
    then show ?thesis
      unfolding 1(1) decoder_table pb_dec_varint_def Let_def
      by (intro read_bound [OF decode_varint [where v = w] s(1)])
         (assumption, assumption, simp_all only: narrow_reads(1,2) [OF 1(2)] narrow stored_bytes [OF disjI1 [OF 1(2)]])
  next
    case (2 w)
    have "avail (ds_in d) = varint (unat w) @ rest"
      using s(2) 2(3) by simp
    then show ?thesis
      unfolding 2(1) decoder_table pb_dec_uvarint_def
      by (intro read_bound [OF decode_varint [where v = w] s(1)])
         (assumption, assumption, simp_all only: narrow_reads(3) [OF 2(2)] narrow stored_bytes [OF disjI2 [OF 2(2)]])
  next
    case (3 w)
    have "avail (ds_in d) = varint (unat (zigzag w)) @ rest"
      using s(2) 3(3) by simp
    then show ?thesis
      unfolding 3(1) decoder_table pb_dec_svarint_def
      by (intro read_bound [OF decode_svarint [where v = w] s(1)])
         (assumption, assumption, simp_all only: narrow_reads(1) [OF 3(2)] narrow stored_bytes [OF disjI1 [OF 3(2)]])
  next
    case 4
    have "avail (ds_in d) = fixed32 (load32 m p) @ rest"
      using s(2) 4(2) by simp
    moreover have b: "load m p (unat ?n) = bytes32 (load32 m p)"
      using load_le_val [of 4 m p] sizes 4(1) by (simp add: bytes32_def unat_load)
    ultimately show ?thesis
      unfolding 4(1) decoder_table pb_dec_fixed32_def b
      by (intro read_bound [OF decode_fixed32 s(1)]) (simp_all add: d_store_def)
  next
    case 5
    have "avail (ds_in d) = fixed64 (load64 m p) @ rest"
      using s(2) 5(2) by simp
    moreover have b: "load m p (unat ?n) = bytes64 (load64 m p)"
      using load_le_val [of 8 m p] sizes 5(1) by (simp add: bytes64_def unat_load)
    ultimately show ?thesis
      unfolding 5(1) decoder_table pb_dec_fixed64_def b
      by (intro read_bound [OF decode_fixed64 s(1)]) (simp_all add: d_store_def)
  qed
qed

text \<open>The sizes of the C types of a numeric field.\<close>

definition numeric_field :: "pb_field \<Rightarrow> bool" where
  "numeric_field field \<longleftrightarrow>
     (let l = PB_LTYPE (fd_type field); n = fd_data_size field
      in l \<le> PB_LTYPE_LAST_PACKABLE \<and>
         (if l = PB_LTYPE_FIXED32 then n = 4 else if l = PB_LTYPE_FIXED64 then n = 8 else n = 1 \<or> n = 2 \<or> n = 4 \<or> n = 8))"

lemma numeric_value:
  assumes "numeric_field field"
  shows "\<exists>v. scalar_value m field p = Some v"
proof -
  have "PB_LTYPE (fd_type field) \<le> PB_LTYPE_LAST_PACKABLE"
    using assms by (simp add: numeric_field_def Let_def)
  then show ?thesis
    by (cases rule: packable_cases)
       (use assms in \<open>auto simp: numeric_field_def scalar_value_def Let_def read_signed_def read_unsigned_def ltypes\<close>)
qed

text \<open>
  Claim C39: for every numeric field, of 1, 2, 4 or 8 bytes, signed, unsigned, zigzag or fixed, the
  encoder writes bytes from which the decoder, wherever they are in its input, stores exactly the
  bytes of the original field at the destination, and then stands behind them.
\<close>

theorem numeric_field_roundtrip:
  assumes "numeric_field field"
  shows "\<exists>bs. PB_ENCODERS env encode (PB_LTYPE (fd_type field)) field p = total (put_bytes bs) \<and>
    (\<forall>(d :: ('s, 'h) dstate) rest. stream_ok (ds_in d) \<and> avail (ds_in d) = bs @ rest \<longrightarrow>
      (\<exists>s. PB_DECODERS denv ds (PB_LTYPE (fd_type field)) field dest d =
          Some (Some (), d\<lparr>ds_in := s, ds_mem := store dest (load (env_mem env) p (unat (fd_data_size field))) (ds_mem d)\<rparr>) \<and>
        stream_ok s \<and> avail s = rest))"
proof -
  obtain v where v: "scalar_value (env_mem env) field p = Some v"
    using numeric_value [OF assms] by blast
  have l: "PB_LTYPE (fd_type field) \<le> PB_LTYPE_LAST_PACKABLE"
      "PB_LTYPE (fd_type field) = PB_LTYPE_FIXED32 \<longrightarrow> fd_data_size field = 4"
      "PB_LTYPE (fd_type field) = PB_LTYPE_FIXED64 \<longrightarrow> fd_data_size field = 8"
    using assms by (auto simp: numeric_field_def Let_def ltypes split: if_splits)
  show ?thesis
    using encoder_numeric [OF l(1) v] decoder_numeric [OF l v] by blast
qed

definition demo_zigzag :: pb_field where
  "demo_zigzag = \<lparr>fd_tag = 1, fd_type = 0x02, fd_data_offset = 0, fd_size_offset = 0, fd_data_size = 2, fd_array_size = 0, fd_ptr = 0\<rparr>"

definition demo_memory :: memory where
  "demo_memory = (\<lambda>a. if a = 5 then 0xf0 else 0)"

definition demo_out :: "buffer_state pb_env" where
  "demo_out = \<lparr>env_mem = demo_memory, env_fields = (\<lambda>_. []), env_callback = (\<lambda>_ _ _. os_error ''''),
     env_extension = (\<lambda>_ _. os_error '''')\<rparr>"

lemma numeric_field_roundtrip_witness:
  "\<exists>bs. PB_ENCODERS demo_out (\<lambda>_ _ _. None) 2 demo_zigzag 4 = total (put_bytes bs) \<and>
    (\<forall>(d :: (unit, unit) dstate) rest. stream_ok (ds_in d) \<and> avail (ds_in d) = bs @ rest \<longrightarrow>
      (\<exists>s. PB_DECODERS demo_env (decoders_at 1 demo_env) 2 demo_zigzag 9 d =
          Some (Some (), d\<lparr>ds_in := s, ds_mem := store 9 [0, 0xf0] (ds_mem d)\<rparr>) \<and> stream_ok s \<and> avail s = rest))"
proof -
  have n: "numeric_field demo_zigzag" and l: "PB_LTYPE (fd_type demo_zigzag) = 2"
    by (simp_all add: numeric_field_def demo_zigzag_def type_bits)
  have "load (env_mem demo_out) 4 (unat (fd_data_size demo_zigzag)) = [0, 0xf0]"
    by (simp add: load_def demo_zigzag_def demo_out_def demo_memory_def upt_rec)
  then show ?thesis
    using numeric_field_roundtrip [OF n, of demo_out "\<lambda>_ _ _. None" 4 demo_env "decoders_at 1 demo_env" 9] unfolding l by (simp only:)
qed

section \<open>Unknown fields\<close>

text \<open>A message type without extensions and required fields, and fields on the wire that it does not have.\<close>

definition plain_type :: "pb_field list \<Rightarrow> bool" where
  "plain_type fds \<longleftrightarrow> terminated fds \<and> last fds = PB_LAST_FIELD \<and>
     (\<forall>f \<in> set (butlast fds). PB_LTYPE (fd_type f) \<noteq> PB_LTYPE_EXTENSION \<and> PB_HTYPE (fd_type f) \<noteq> PB_HTYPE_REQUIRED)"

definition foreign :: "pb_field list \<Rightarrow> (u32 \<times> wire_value) list \<Rightarrow> bool" where
  "foreign fds fs \<longleftrightarrow> (\<forall>(tag, v) \<in> set fs. tag_ok tag \<and> value_ok v \<and> tag \<notin> fd_tag ` set fds)"

lemma plain_entry:
  assumes "plain_type fds" "k \<in> walk fds"
  shows "PB_LTYPE (fd_type (fds ! k)) \<noteq> PB_LTYPE_EXTENSION" "fds ! k \<in> set fds"
    and "k < nfields fds \<Longrightarrow> PB_HTYPE (fd_type (fds ! k)) \<noteq> PB_HTYPE_REQUIRED"
proof -
  have t: "terminated fds" "last fds = PB_LAST_FIELD"
    using assms(1) by (simp_all add: plain_type_def)
  have ne: "fds \<noteq> []" "nfields fds < length fds"
    using t(1) by (simp_all add: terminated_def nfields_def)
  then show "fds ! k \<in> set fds"
    using assms(2) by (auto simp: walk_def intro: nth_mem)
  have b: "k < nfields fds \<Longrightarrow> fds ! k \<in> set (butlast fds)"
    by (metis length_butlast nfields_def nth_butlast nth_mem)
  then show "k < nfields fds \<Longrightarrow> PB_HTYPE (fd_type (fds ! k)) \<noteq> PB_HTYPE_REQUIRED"
    using assms(1) by (simp add: plain_type_def)
  show "PB_LTYPE (fd_type (fds ! k)) \<noteq> PB_LTYPE_EXTENSION"
  proof (cases "k < nfields fds")
    case False
    then have "nfields fds = 0" "k = 0"
      using assms(2) by (auto simp: walk_def)
    then have "fds ! k = PB_LAST_FIELD"
      using t(2) ne by (cases fds) (auto simp: nfields_def)
    then show ?thesis
      by (simp add: PB_LAST_FIELD_def type_bits)
  qed (use assms(1) b in \<open>simp add: plain_type_def\<close>)
qed

lemma walk_iter: "terminated fds \<Longrightarrow> k \<in> walk fds \<Longrightarrow> it_pos (iter_at fds dest k) = k \<and> it_start (iter_at fds dest k) = fds"
  using iter_at_pos [of fds k dest] by (auto simp: walk_def pb_field_iter_begin_def Let_def)

lemma find_none:
  assumes "plain_type fds" "k \<in> walk fds" "\<And>i. i \<in> walk fds \<Longrightarrow> \<not> found (fds ! i)"
  shows "\<exists>k' \<in> walk fds. find_loop (length fds) found k (iter_at fds dest k) = (False, iter_at fds dest k')"
proof -
  have t: "terminated fds"
    using assms(1) by (simp add: plain_type_def)
  obtain b iter where e: "find_loop (length fds) found k (iter_at fds dest k) = (b, iter)"
    by fastforce
  obtain k' where k': "k' \<in> walk fds" "iter = iter_at fds dest k'" "b = found (fds ! k')"
    using find_loop_stays [OF t assms(2) e] by blast
  then show ?thesis
    using e assms(3) [OF k'(1)] by (intro bexI [of _ k']) simp_all
qed

lemma foreign_missed:
  assumes "plain_type fds" "k \<in> walk fds" "tag \<notin> fd_tag ` set fds"
  shows "\<exists>k' \<in> walk fds. pb_field_iter_find (iter_at fds dest k) tag = (False, iter_at fds dest k')"
proof -
  have w: "it_pos (iter_at fds dest k) = k" "it_start (iter_at fds dest k) = fds"
    using walk_iter [OF _ assms(2), of dest] assms(1) by (simp_all add: plain_type_def)
  show ?thesis
    unfolding pb_field_iter_find_def w
    by (rule find_none [OF assms(1,2)]) (use plain_entry(2) [OF assms(1)] assms(3) in blast)
qed

lemma extension_missed:
  assumes "plain_type fds" "k \<in> walk fds"
  shows "\<exists>k' \<in> walk fds. find_extension_field (iter_at fds dest k) = (False, iter_at fds dest k')"
proof -
  have w: "it_pos (iter_at fds dest k) = k" "it_start (iter_at fds dest k) = fds"
    using walk_iter [OF _ assms(2), of dest] assms(1) by (simp_all add: plain_type_def)
  show ?thesis
    unfolding find_extension_field_def w
    by (rule find_none [OF assms]) (rule plain_entry(1) [OF assms(1)])
qed

lemma unknown_skipped:
  assumes "plain_type fds" "k \<in> walk fds" "lo_iter lo = iter_at fds dest k" "tag_ok tag"
    and "pb_skip_field wt (ds_in d) = (Some (), s)"
  shows "\<exists>k' \<in> walk fds. \<exists>b. decode_unknown n env ds tag wt lo d =
    Some (Some (lo\<lparr>lo_iter := iter_at fds dest k', lo_extension_range_start := b\<rparr>), d\<lparr>ds_in := s\<rparr>)"
proof -
  obtain k' where k': "k' \<in> walk fds" "find_extension_field (lo_iter lo) = (False, iter_at fds dest k')"
    using extension_missed [OF assms(1,2), of dest] unfolding assms(3) by blast
  have "\<not> tag \<ge> 0xffffffff"
    using assms(4) by (simp add: tag_ok_def word_le_nat_alt)
  then have u: "decode_unknown n env ds tag wt lo d = Some (Some
      (if tag \<ge> lo_extension_range_start lo then lo\<lparr>lo_iter := iter_at fds dest k', lo_extension_range_start := 0xffffffff\<rparr> else lo),
      d\<lparr>ds_in := s\<rparr>)"
    using k'(2) assms(5) by (simp add: decode_unknown_def Let_def d_bind_def on_stream_def d_ret_def)
  show ?thesis
  proof (cases "tag \<ge> lo_extension_range_start lo")
    case True
    then show ?thesis
      unfolding u using k'(1) by (intro bexI [of _ k'] exI [of _ "0xffffffff"]) simp_all
  next
    case False
    then show ?thesis
      unfolding u using assms(2) assms(3) [symmetric] by (intro bexI [of _ k] exI [of _ "lo_extension_range_start lo"]) simp_all
  qed
qed

lemma skip_loop:
  assumes "plain_type fds"
  shows "foreign fds fs \<Longrightarrow> stream_ok (ds_in d) \<Longrightarrow> avail (ds_in d) = concat (map field_bytes fs) \<Longrightarrow> length fs < j \<Longrightarrow>
    k \<in> walk fds \<Longrightarrow> lo_iter lo = iter_at fds dest k \<Longrightarrow>
    \<exists>k' \<in> walk fds. \<exists>b s. decode_loop j n env ds lo d =
      Some (Some (lo\<lparr>lo_iter := iter_at fds dest k', lo_extension_range_start := b\<rparr>), d\<lparr>ds_in := s\<rparr>) \<and> is_bytes_left s = 0"
proof (induction fs arbitrary: d lo j k)
  case Nil
  then obtain j' where "j = Suc j'"
    by (cases j) auto
  moreover have "is_bytes_left (ds_in d) = 0"
    using length_avail [OF Nil(2)] Nil(3) by (simp add: unat_0_iff)
  ultimately show ?case
    using Nil(5) Nil(6) [symmetric]
    by (intro bexI [of _ k] exI [of _ "lo_extension_range_start lo"] exI [of _ "ds_in d"]) (simp_all add: d_ret_def)
next
  case (Cons f fs)
  obtain tag v where f: "f = (tag, v)"
    by fastforce
  obtain j' where j: "j = Suc j'"
    using Cons.prems(4) by (cases j) auto
  have fo: "tag_ok tag" "value_ok v" "tag \<notin> fd_tag ` set fds" "foreign fds fs"
    using Cons.prems(1) by (auto simp: foreign_def f)
  have av: "avail (ds_in d) = tag_bytes tag (wire_type_of v) @ value_bytes v @ concat (map field_bytes fs)"
    using Cons.prems(3) by (simp add: f)
  let ?s = "advance (length (tag_bytes tag (wire_type_of v))) (ds_in d)"
  have s: "stream_ok ?s" "avail ?s = value_bytes v @ concat (map field_bytes fs)"
    using advance_ok [OF Cons.prems(2), of "length (tag_bytes tag (wire_type_of v))"] av by simp_all
  have tag: "pb_decode_tag (ds_in d) = ((Some (wire_type_of v, tag), False), ?s)"
    by (rule decode_tag [OF Cons.prems(2) av fo(1) wire_type_small])
  let ?t = "advance (length (value_bytes v)) ?s"
  have sk: "pb_skip_field (wire_type_of v) ?s = (Some (), ?t)" "stream_ok ?t" "avail ?t = concat (map field_bytes fs)"
    using skip_value [OF s fo(2)] advance_ok [OF s(1), of "length (value_bytes v)"] s(2) by simp_all
  obtain k1 where k1: "k1 \<in> walk fds" "pb_field_iter_find (lo_iter lo) tag = (False, iter_at fds dest k1)"
    using foreign_missed [OF assms Cons.prems(5) fo(3), of dest] unfolding Cons.prems(6) by blast
  obtain k2 b where k2: "k2 \<in> walk fds" "decode_unknown n env ds tag (wire_type_of v) (lo\<lparr>lo_iter := iter_at fds dest k1\<rparr>) (d\<lparr>ds_in := ?s\<rparr>) =
      Some (Some (lo\<lparr>lo_iter := iter_at fds dest k2, lo_extension_range_start := b\<rparr>), d\<lparr>ds_in := ?t\<rparr>)"
    using unknown_skipped [OF assms k1(1), of "lo\<lparr>lo_iter := iter_at fds dest k1\<rparr>" dest tag "wire_type_of v" "d\<lparr>ds_in := ?s\<rparr>" ?t n env ds] fo(1) sk(1)
    by auto
  have "is_bytes_left (ds_in d) \<noteq> 0"
    using length_avail [OF Cons.prems(2)] av by (auto simp: tag_bytes_def)
  then have "decode_loop j n env ds lo d =
      decode_loop j' n env ds (lo\<lparr>lo_iter := iter_at fds dest k2, lo_extension_range_start := b\<rparr>) (d\<lparr>ds_in := ?t\<rparr>)"
    using k2(2) tag k1(2) by (simp add: j d_bind_def)
  moreover have "\<exists>k' \<in> walk fds. \<exists>b' s. decode_loop j' n env ds (lo\<lparr>lo_iter := iter_at fds dest k2, lo_extension_range_start := b\<rparr>) (d\<lparr>ds_in := ?t\<rparr>) =
      Some (Some (lo\<lparr>lo_iter := iter_at fds dest k2, lo_extension_range_start := b, lo_iter := iter_at fds dest k', lo_extension_range_start := b'\<rparr>),
        d\<lparr>ds_in := ?t, ds_in := s\<rparr>) \<and> is_bytes_left s = 0"
    using Cons.prems(4) sk(2,3) k2(1) by (intro Cons.IH [OF fo(4)]) (simp_all add: j)
  ultimately show ?case
    by simp
qed

text \<open>At the end there is no required field to miss.\<close>

lemma plain_index: "plain_type fds \<Longrightarrow> k < nfields fds \<Longrightarrow> it_required_field_index (iter_at fds dest k) = 0"
proof (induction k)
  case 0
  then show ?case
    by (simp add: pb_field_iter_begin_def Let_def)
next
  case (Suc k)
  have t: "terminated fds" "k < nfields fds" "Suc k < nfields fds"
    using Suc.prems by (simp_all add: plain_type_def)
  have c: "cur (iter_at fds dest k) = fds ! k" "it_pos (iter_at fds dest k) = k" "it_start (iter_at fds dest k) = fds"
    using t by (simp_all add: iter_at_pos)
  have "PB_HTYPE (fd_type (fds ! k)) \<noteq> PB_HTYPE_REQUIRED"
    using plain_entry(3) [OF Suc.prems(1), of k] t by (simp add: walk_def)
  moreover have "fd_tag (fds ! k) \<noteq> 0" "fd_tag (fds ! Suc k) \<noteq> 0"
    using terminated_tags [OF t(1)] t(2,3) by auto
  ultimately show ?case
    using Suc.IH [OF Suc.prems(1) t(2)] c by (simp add: pb_field_iter_next_def Let_def cur_def)
qed

lemma plain_last_field:
  assumes "plain_type fds"
  shows "k < nfields fds \<Longrightarrow> nfields fds - k \<le> j \<Longrightarrow>
    \<exists>type iter. last_field j (iter_at fds dest k) = Some (0, type, iter) \<and> PB_HTYPE type \<noteq> PB_HTYPE_REQUIRED"
proof (induction j arbitrary: k)
  case (Suc j)
  have t: "terminated fds"
    using assms by (simp add: plain_type_def)
  note n = next_iter_at [OF t Suc.prems(1), of dest]
  show ?case
  proof (cases "k + 1 < nfields fds")
    case True
    then have "\<exists>type iter. last_field j (iter_at fds dest (k + 1)) = Some (0, type, iter) \<and> PB_HTYPE type \<noteq> PB_HTYPE_REQUIRED"
      using Suc.prems(2) by (intro Suc.IH) simp_all
    then show ?thesis
      using n True by (simp del: iter_at.simps)
  next
    case False
    then show ?thesis
      using n plain_index [OF assms Suc.prems(1), of dest] plain_entry(3) [OF assms _ Suc.prems(1)] t Suc.prems(1)
      by (simp add: walk_def del: iter_at.simps)
  qed
qed simp

lemma plain_end:
  assumes "plain_type fds" "k \<in> walk fds" "lo_iter lo = iter_at fds dest k" "lo_fixed_count_field lo = None"
  shows "decode_end lo d = Some (Some (), d)"
proof -
  have t: "terminated fds" "last fds = PB_LAST_FIELD"
    using assms(1) by (simp_all add: plain_type_def)
  have "\<exists>type iter. last_field (length fds) (iter_at fds dest k) = Some (0, type, iter) \<and>
      \<not> (PB_HTYPE type = PB_HTYPE_REQUIRED \<and> fd_tag (cur iter) \<noteq> 0)"
  proof (cases "k < nfields fds")
    case True
    then show ?thesis
      using plain_last_field [OF assms(1) True, of "length fds" dest] by (auto simp: nfields_def)
  next
    case False
    then have z: "k = 0" "nfields fds = 0"
      using assms(2) by (auto simp: walk_def)
    then have "length fds = Suc 0" "fds ! 0 = PB_LAST_FIELD"
      using t by (cases fds; auto simp: nfields_def terminated_def)+
    then show ?thesis
      using z by (simp add: pb_field_iter_next_def pb_field_iter_begin_def cur_def Let_def PB_LAST_FIELD_def)
  qed
  then show ?thesis
    using assms(3,4) by (auto simp: decode_end_def fixed_incomplete_def required_missing_def d_ret_def Let_def PB_MAX_REQUIRED_FIELDS_def)
qed

text \<open>
  Claim C40: a reader of an older version of a message type accepts what a newer writer adds: any
  sequence of well-formed fields whose tags the type does not have, of any wire types, decodes
  successfully to the end of the input, and leaves the structure, the heap and all other memory as
  they were.
\<close>

theorem unknown_fields_skipped:
  assumes "plain_type fds" "foreign fds fs" "stream_ok (ds_in d)" "avail (ds_in d) = concat (map field_bytes fs)"
  shows "\<exists>s. pb_decode_noinit (Suc n) env fds dest d = Some (Some (), d\<lparr>ds_in := s\<rparr>) \<and> is_bytes_left s = 0"
proof -
  define lo where "lo = \<lparr>lo_iter = iter_at fds dest 0, lo_fields_seen = [0, 0], lo_extension_range_start = 0,
    lo_fixed_count_field = None\<rparr>"
  have "length fs \<le> length (concat (map field_bytes fs))"
  proof (induction fs)
    case (Cons f fs)
    have "0 < length (field_bytes f)"
      by (cases f) (simp add: tag_bytes_def)
    then show ?case
      using Cons by (simp; linarith)
  qed simp
  then have "length fs < Suc (unat (is_bytes_left (ds_in d)))"
    using length_avail [OF assms(3)] assms(4) by simp
  then have "\<exists>k \<in> walk fds. \<exists>b s. decode_loop (Suc (unat (is_bytes_left (ds_in d)))) n env (decoders_at n env) lo (d\<lparr>ds_fixed := 0\<rparr>) =
      Some (Some (lo\<lparr>lo_iter := iter_at fds dest k, lo_extension_range_start := b\<rparr>), d\<lparr>ds_fixed := 0, ds_in := s\<rparr>) \<and> is_bytes_left s = 0"
    using assms(3,4) by (intro skip_loop [OF assms(1,2), of _ _ 0]) (simp_all add: lo_def walk_def)
  then obtain k b s where l: "k \<in> walk fds" "decode_loop (Suc (unat (is_bytes_left (ds_in d)))) n env (decoders_at n env) lo (d\<lparr>ds_fixed := 0\<rparr>) =
      Some (Some (lo\<lparr>lo_iter := iter_at fds dest k, lo_extension_range_start := b\<rparr>), d\<lparr>ds_fixed := 0, ds_in := s\<rparr>)" "is_bytes_left s = 0"
    by blast
  have "decode_end (lo\<lparr>lo_iter := iter_at fds dest k, lo_extension_range_start := b\<rparr>) (d\<lparr>ds_fixed := 0, ds_in := s\<rparr>) =
      Some (Some (), d\<lparr>ds_fixed := 0, ds_in := s\<rparr>)"
    by (rule plain_end [OF assms(1) l(1)]) (simp_all add: lo_def)
  then have "pb_decode_noinit (Suc n) env fds dest d = Some (Some (), d\<lparr>ds_in := s\<rparr>)"
    using l(2) by (simp only: noinit_message decode_message_def Let_def iter_at.simps(1) [symmetric] flip: lo_def)
      (simp add: d_bind_def)
  then show ?thesis
    using l(3) by blast
qed

lemma unknown_fields_skipped_witness:
  "\<exists>s. pb_decode_noinit (Suc 1) demo_env [PB_LAST_FIELD] 0x2000
      \<lparr>ds_in = pb_istream_from_buffer [0x0a, 2, 7, 8] 4, ds_mem = (\<lambda>_. 0), ds_heap = (), ds_fixed = 0\<rparr> =
      Some (Some (), \<lparr>ds_in = s, ds_mem = (\<lambda>_. 0), ds_heap = (), ds_fixed = 0\<rparr>) \<and> is_bytes_left s = 0"
proof -
  let ?d = "\<lparr>ds_in = pb_istream_from_buffer [0x0a, 2, 7, 8] 4, ds_mem = (\<lambda>_. 0), ds_heap = (), ds_fixed = 0\<rparr> :: (unit, unit) dstate"
  have p: "plain_type [PB_LAST_FIELD]" "foreign [PB_LAST_FIELD] [(1, W_string [7, 8])]"
    by (simp_all add: plain_type_def foreign_def terminated_def tag_ok_def PB_LAST_FIELD_def)
  have "stream_ok (ds_in ?d)" "avail (ds_in ?d) = concat (map field_bytes [(1, W_string [7, 8])])"
    by (simp_all add: stream_ok_def avail_def pb_istream_from_buffer_def tag_bytes_def PB_WT_STRING_def varint_step)
  from unknown_fields_skipped [OF p this, of 1 demo_env "0x2000"] show ?thesis
    by simp
qed

section \<open>Arrays of fixed count\<close>

text \<open>
  An array of fixed count has no counter, so that \<open>pSize\<close> is \<open>pData\<close>.  Setting the default of the
  counter then writes four zero bytes to the array, even if it is shorter: here a structure of two
  bytes, and the two bytes behind it.
\<close>

definition two_bytes :: "pb_field list" where
  "two_bytes = [\<lparr>fd_tag = 1, fd_type = 0x21, fd_data_offset = 0, fd_size_offset = 0, fd_data_size = 1, fd_array_size = 2, fd_ptr = 0\<rparr>,
     PB_LAST_FIELD]"

lemma fixed_count_default_overruns:
  "pb_message_set_to_defaults 1 descs two_bytes dest m = Some (store dest [0, 0, 0, 0] m)"
proof -
  have b: "bytes32 0 = [0, 0, 0, 0]"
    by code_simp
  have t: "terminated two_bytes" "nfields two_bytes = 1" "length two_bytes = Suc (Suc 0)"
    by (simp_all add: terminated_def nfields_def two_bytes_def PB_LAST_FIELD_def)
  define it where "it = iter_at two_bytes dest 0"
  have it: "cur it = two_bytes ! 0" "it_pData it = dest" "it_pSize it = dest"
    using cur_iter_at [OF t(1), of 0 dest] t(2) by (simp_all add: it_def pb_field_iter_begin_def Let_def two_bytes_def)
  have 1: "pb_field_iter_begin two_bytes dest = (True, it)"
    by (simp add: it_def pb_field_iter_begin_def two_bytes_def)
  have 2: "pb_field_iter_next it = (False, it)"
    using next_iter_at [OF t(1), of 0 dest] t(2) by (simp add: it_def)
  have type: "fd_type (two_bytes ! 0) = 0x21"
    by (simp add: two_bytes_def)
  have 3: "pb_field_set_to_default (Suc 0) descs it m = Some (store dest [0, 0, 0, 0] m)"
    by (simp add: it type type_bits b Let_def del: store.simps)
  show ?thesis
    unfolding pb_message_set_to_defaults_def message_default_def 1 One_nat_def
    by (simp add: 2 3 t(3) del: pb_field_set_to_default.simps store.simps)
qed

end
