(* ===== verification/Spec2Isabelle.thy ===== *)
theory Spec2Isabelle
  imports Base64_Stream Buf BER Stack LHash RSA_PSS Nanopb_Encode_Props Nanopb_Decode_Props
begin

text \<open>
  CourtVision is an iOS application in Swift.  Its repository holds the C libraries it ships as
  CocoaPods, and it is these that this development models: \<^bold>\<open>BoringSSL\<close>
  (\<open>src/CourtVision/Pods/BoringSSL/crypto\<close>), under gRPC and the Firebase SDK, and \<^bold>\<open>nanopb\<close>
  (\<open>src/CourtVision/Pods/nanopb\<close>), the Protocol Buffers library under the Firestore client.

  \<^bold>\<open>How the parts interact.\<close>  BoringSSL's containers and parsers rest on its allocator
  (\<open>mem.c\<close>).  \<open>buf.c\<close> grows its buffers with it, \<open>stack.c\<close> and \<open>lhash.c\<close> keep arrays and chains in
  memory from it, and the byte builder \<open>cbb.c\<close> keeps its output there.  \<open>base64.c\<close> computes with the
  branch-free arithmetic of \<open>internal.h\<close>.  The parser \<open>cbs.c\<close> reads what \<open>cbb.c\<close> writes, and \<open>ber.c\<close>
  uses both to turn BER into DER.  The digests are instances of one collector, \<open>md32_common.h\<close>, but for
  SHA-384 and SHA-512, which have their own; a method
  table (\<open>digests.c\<close>) makes each of them usable through an \<open>EVP_MD_CTX\<close>; HMAC keeps three such contexts, and
  HKDF and PBKDF2 run one HMAC context over and over.  The RSA paddings OAEP and PSS hash through such contexts too, and
  compare with \<open>CRYPTO_memcmp\<close> and the branch-free arithmetic.  In nanopb, the message encoder walks over a C structure
  with the iterator of \<open>pb_common.c\<close>, and writes tags and values with the scalar encoders to a
  stream, whose callback puts them into a buffer or counts them.  The message decoder reads tags from a
  stream, finds the field with the same iterator, and stores into the structure, through substreams
  for nested messages and packed arrays.

  \<^bold>\<open>The theories.\<close>
  \<^item> \<open>Prelude\<close>: the machine integers, the chaining of fallible steps, blocks of memory as byte lists,
    multi-byte integers.
  \<^item> \<open>Constant_Time\<close> (\<open>crypto/internal.h\<close>): the masks, proved to be all ones or zero.
  \<^item> \<open>Mem\<close> (\<open>crypto/mem.c\<close>): \<open>OPENSSL_malloc\<close>, \<open>_realloc\<close>, \<open>_free\<close>, \<open>_cleanse\<close>, comparison, hash and
    strings; the locale \<open>allocator\<close> is what the containers use of it.
  \<^item> \<open>Buf\<close> (\<open>crypto/buf/buf.c\<close>): \<open>BUF_MEM\<close> with its invariant, and the bounded string copies.
  \<^item> \<open>Base64\<close>, \<open>Base64_Stream\<close> (\<open>crypto/base64/base64.c\<close>): the first has the code and the one-shot
    round trip, the second what streams of calls do, for every way of cutting the input.
  \<^item> \<open>DER\<close>, \<open>CBS\<close>, \<open>CBS_DER\<close> (\<open>crypto/bytestring/cbs.c\<close>): the canonical encoding as a specification;
    the parser, in which a \<open>CBS\<close> is the bytes it spans; and that it accepts exactly that encoding.
  \<^item> \<open>CBB\<close>, \<open>CBB_Spec\<close>, \<open>CBB_Build\<close> (\<open>crypto/bytestring/cbb.c\<close>): the builder, with a \<open>CBB\<close> and its
    pending children as one value; a specification by nested byte strings and the refinement; whole
    programs of builder calls.
  \<^item> \<open>BER\<close> (\<open>crypto/bytestring/ber.c\<close>).
  \<^item> \<open>Sorting\<close>, \<open>Stack\<close> (\<open>crypto/stack/stack.c\<close>): the laws of the C library's \<open>qsort\<close> and \<open>bsearch\<close>; the
    array of pointers, refined to lists.
  \<^item> \<open>LHash\<close> (\<open>crypto/lhash/lhash.c\<close>): the chained hash table, refined to maps, with the bounds of its
    load.
  \<^item> \<open>Blocks\<close>: messages cut into blocks, a compression function chained over them, schedules in a ring.
  \<^item> \<open>MD32\<close> (\<open>digest/md32_common.h\<close>): update and final of the collector with its 64-bit count in two words,
    against the message as a whole (\<open>collected\<close>, \<open>padded\<close>); the locale \<open>block_chaining\<close> is what it needs of a
    block function.
  \<^item> \<open>SHA256\<close>, \<open>SHA1\<close>, \<open>MD5\<close> (\<open>sha/sha256.c\<close>, \<open>sha/sha1.c\<close>, \<open>md5/md5.c\<close>, \<open>md4/md4.c\<close>): the block functions, with
    schedules in a ring of sixteen words and variables that change places, equal the compression functions of
    FIPS 180-4 and the RFCs; interpretations of \<open>block_chaining\<close>.
  \<^item> \<open>SHA512\<close>, \<open>SHA512_Correct\<close> (\<open>sha/sha512.c\<close>): the collector of SHA-384 and SHA-512, aligned data or not, and
    both block functions in C, that of 32-bit x86 included; all of it against FIPS 180-4.
  \<^item> \<open>Digest\<close> (\<open>digest/digest.c\<close>, \<open>digests.c\<close>): the methods and the context that runs one; the locale
    \<open>digest_method\<close>, interpreted for all of them; the contexts a program can reach are well typed.
  \<^item> \<open>HMAC\<close> (\<open>hmac/hmac.c\<close>) and \<open>KDF\<close> (\<open>hkdf/hkdf.c\<close>, \<open>evp/pbkdf.c\<close>): proved in \<open>digest_method\<close> against RFC 2104,
    RFC 5869 and RFC 8018, for any sequence of outcomes of \<open>malloc\<close>.
  \<^item> \<open>RSA_Padding\<close>, \<open>RSA_Padding_Props\<close>, \<open>RSA_OAEP\<close>, \<open>RSA_PSS\<close> (\<open>rsa/padding.c\<close>): the code of the version 1.5
    and OAEP paddings and of MGF1; that the version 1.5 checks accept exactly the encodings of RFC 8017; the same for
    OAEP; and PSS, code and proofs.  What is written passes the check that belongs to it.
  \<^item> \<open>Nanopb_Stream\<close>, \<open>Nanopb_Wire\<close> (\<open>pb_encode.c\<close>, \<open>pb_decode.c\<close>): the streams; the scalar encoders
    and decoders, tags, strings, substreams and the skipping of fields.  The locale \<open>sink\<close> is the
    contract of an output callback.
  \<^item> \<open>Nanopb_Codec\<close>, \<open>Nanopb_Scalar\<close>, \<open>Nanopb_Fields\<close>: the varint format and both decoders of it; the
    locale \<open>wire_codec\<close> of an encoder with its decoder and the round trips through a buffer;
    fields, substreams, and where the two varint decoders differ.
  \<^item> \<open>Nanopb_Message\<close>, \<open>Nanopb_Encode\<close> (\<open>pb.h\<close>, \<open>pb_common.c\<close>, \<open>pb_encode.c\<close>): memory, the field
    descriptors and the iterator; the message encoder.
  \<^item> \<open>Nanopb_Encode_Spec\<close>, \<open>Nanopb_Encode_Correct\<close>, \<open>Nanopb_Encode_Props\<close>: the tree of fields that a
    structure stands for and its wire format; the proof that the encoder, with its sizing passes and
    substreams, writes that format; what this means for a buffer.
  \<^item> \<open>Nanopb_Decode\<close>, \<open>Nanopb_Decode_Message\<close> (\<open>pb_decode.c\<close>): the message decoder, the default values and
    the releasing of messages: scalar fields, then everything that dispatches on the descriptors.
  \<^item> \<open>Nanopb_Decode_Frame\<close>, \<open>Nanopb_Decode_Safe\<close>, \<open>Nanopb_Decode_Props\<close>: what a decoding step may change,
    with the rules for the combinators; the locales \<open>submessages\<close> (what a message needs of the decoders
    one level down) and \<open>static_type\<close> (a message type of static fields), interpreted at every depth of
    nesting; safety on hostile input, the round trip of numeric fields, unknown fields.
  \<^item> this theory: the properties that span the builder and the parser.

  \<^bold>\<open>Conventions.\<close>  Machine integers keep their width; \<open>size_t\<close> has 64 bits.  A function that
  returns a status and changes the object behind a pointer maps the old object to \<open>Some\<close> result or
  \<open>None\<close> and the object as the call leaves it, on the failing paths too.  The system's \<open>malloc\<close>,
  \<open>qsort\<close> and \<open>bsearch\<close>, \<open>RAND_bytes\<close>, comparison and hash functions, stream callbacks and the functions that
  messages point to are parameters.

  \<^bold>\<open>Bounds and fuel.\<close>  Recursion is structural or has a measure, with these exceptions.  \<open>BER\<close>
  recurses to the depth \<open>kMaxDepth\<close> of the source and tests that its input shrinks, which it always
  does.  \<open>pb_encode\<close> takes the permitted depth of submessages and extension lists as its first
  argument and returns the outer \<open>None\<close> when that is exhausted; the properties speak of every depth
  at which \<open>message_at\<close> reads the structure, which is any that is at least the nesting of the message,
  and then show that the encoder returns.  \<open>pb_decode\<close> takes the permitted depth in the same way;
  \<open>static_message n\<close> is nested less than \<open>n\<close> deep, and depth \<open>n + 1\<close> is then enough.  The search for
  non-zero random bytes (\<open>rand_nonzero_byte\<close>) is a partial function, which returns if some draw is not zero or
  fails (\<open>nonzero_within\<close>).  The loops of the
  decoder are bounded by the bytes of the input, of which every step takes at least one.  The search loops of the iterator are bounded by the
  number of descriptors, after which the iterator is where it began (\<open>find_loop_cases\<close>).

  \<^bold>\<open>Not modelled.\<close>  The error queue of BoringSSL (a call that pushes an error is one that fails),
  releasing the containers, and callbacks that change the hash table they are called from.  Memory addresses in nanopb's encoder and decoder are
  not checked: reading through a null pointer yields bytes instead of a crash, and the output buffer is
  taken not to overlap the structure.  The configurations \<open>PB_BUFFER_ONLY\<close>, \<open>PB_NO_ERRMSG\<close>,
  \<open>PB_WITHOUT_64BIT\<close> and \<open>PB_OLD_CALLBACK_STYLE\<close>, which the application does not select, and the rest
  of the repository: the Swift code, which only composes calls of Apple's and Google's frameworks,
  the rest of BoringSSL (ciphers, curves, X.509, TLS), and the other pods.  Of RSA only the paddings are modelled: the
  exponentiation rests on Montgomery arithmetic, blinding and locks.  When \<open>RAND_bytes\<close> or MGF1 fails, the contents of a
  buffer they were writing to are not specified by the code; here they are what was there or what had been written.
\<close>

section \<open>Builder and parser together\<close>

lemma spec_build_element:
  assumes "length c \<le> 0xfffffffe" "length dat \<le> 0xfffffffe"
    and "c = der_element CBS_ASN1_INTEGER (uint_content (unat v)) @ der_element CBS_ASN1_OCTETSTRING dat"
  shows "spec_build [Op_asn1 0 tag, Op_uint64 1 v, Op_octets 1 dat] = Some (der_element tag c)"
proof -
  have "length (uint_content (unat v)) \<le> 0xfffffffe"
    using length_uint_content [of "unat v"] unat_lt64 [of v] by simp
  then show ?thesis
    using assms by (simp add: builder_simps b_element_def der_element_def der_header_def)
qed



end
